(* ===== verification/Prelude.thy ===== *)
theory Prelude
  imports Main "HOL-Library.Word" "HOL-Library.Signed_Division"
begin

text \<open>
  The types and generic facts every component shares: machine integers as words,
  C++ exceptions as values of a sum type, and the vocabulary of byte streams that are
  consumed chunk by chunk.
\<close>

unbundle bit_operations_syntax

type_synonym byte = "8 word"
type_synonym u16 = "16 word"
type_synonym u32 = "32 word"
type_synonym u64 = "64 word"

text \<open>
  The exceptions the modelled code throws (\<open>std::out_of_range\<close>,
  \<open>std::runtime_error\<close>, \<open>std::invalid_argument\<close>) and the ways it can stop
  otherwise: a failed \<open>assert\<close>, and what C++ leaves undefined, an access outside an object,
  a shift by the width of the type, the use of what no longer exists or a division by zero. A
  fallible operation returns \<open>Inl e\<close> or \<open>Inr v\<close>.
\<close>

datatype exc =
    Out_of_range
  | Runtime_error string
  | Invalid_argument
  | Assertion_failed
  | Undefined_behaviour
  | Undefined_shift
  | Undefined_conversion
  | Division_by_zero
  | Dangling_pointer

type_synonym 'a res = "exc + 'a"

text \<open>Sequencing of fallible operations: the first exception ends the whole.\<close>

definition res_bind :: "'a res \<Rightarrow> ('a \<Rightarrow> 'b res) \<Rightarrow> 'b res" where
  "res_bind m f = (case m of Inl e \<Rightarrow> Inl e | Inr v \<Rightarrow> f v)"

lemma res_bind_simps [simp]: "res_bind (Inl e) f = Inl e" "res_bind (Inr v) f = f v"
  by (simp_all add: res_bind_def)

named_theorems byte_order_simps \<open>unfolding the byte order primitives\<close>
named_theorems sizes \<open>lengths of encoded data\<close>
named_theorems roundtrips \<open>decoders invert encoders\<close>

subsection \<open>Codecs\<close>

text \<open>
  What every encoder/decoder pair of the library promises: on the values in its domain the
  decoder inverts the encoder. The consequences a client needs are proved here once.
\<close>

locale codec =
  fixes enc :: "'a \<Rightarrow> 'b" and dec :: "'b \<Rightarrow> 'a" and ok :: "'a \<Rightarrow> bool"
  assumes dec_enc: "ok x \<Longrightarrow> dec (enc x) = x"
begin

lemma enc_inject: "ok x \<Longrightarrow> ok y \<Longrightarrow> enc x = enc y \<longleftrightarrow> x = y"
  using dec_enc by metis

lemma enc_inj_on: "inj_on enc {x. ok x}"
  by (rule inj_onI) (simp add: enc_inject)

lemma map_dec_enc: "list_all ok xs \<Longrightarrow> map dec (map enc xs) = xs"
  by (induction xs) (auto simp: dec_enc)

end

subsection \<open>Chunked byte streams\<close>

text \<open>
  An operation that consumes its input incrementally: \<open>feed s xs\<close> takes a chunk \<open>xs\<close>
  in state \<open>s\<close> and yields the next state and the output produced. The one law is
  that feeding nothing changes nothing and that a chunk may be cut anywhere; what follows is
  that the way a stream is cut into reads never shows in its output.
\<close>

primrec feed_chunks :: "('s \<Rightarrow> 'a list \<Rightarrow> 's \<times> 'b list) \<Rightarrow> 's \<Rightarrow> 'a list list \<Rightarrow> 's \<times> 'b list" where
  "feed_chunks f s [] = (s, [])"
| "feed_chunks f s (c # cs) =
     (case f s c of (s', out) \<Rightarrow> (case feed_chunks f s' cs of (s'', out') \<Rightarrow> (s'', out @ out')))"

locale chunked =
  fixes feed :: "'s \<Rightarrow> 'a list \<Rightarrow> 's \<times> 'b list"
  assumes feed_Nil: "feed s [] = (s, [])"
    and feed_append: "feed s (xs @ ys) =
      (case feed s xs of (s', out) \<Rightarrow> (case feed s' ys of (s'', out') \<Rightarrow> (s'', out @ out')))"
begin

lemma feed_chunks_concat: "feed_chunks feed s cs = feed s (concat cs)"
  by (induction cs arbitrary: s) (auto simp: feed_Nil feed_append split: prod.splits)

lemma feed_chunks_eq: "concat cs = concat ds \<Longrightarrow> feed_chunks feed s cs = feed_chunks feed s ds"
  by (simp add: feed_chunks_concat)

end

subsection \<open>State machines\<close>

text \<open>
  A component whose operations are \<open>step s e\<close> and whose well-formedness is \<open>inv\<close>: if each
  operation keeps the invariant, every run does.
\<close>

locale machine =
  fixes step :: "'s \<Rightarrow> 'e \<Rightarrow> 's" and inv :: "'s \<Rightarrow> bool"
  assumes step_inv: "inv s \<Longrightarrow> inv (step s e)"
begin

lemma run_inv: "inv s \<Longrightarrow> inv (foldl step s es)"
  by (induction es arbitrary: s) (auto intro: step_inv)

end

subsection \<open>Characters and bytes\<close>

definition bytes_of :: "string \<Rightarrow> byte list" where
  "bytes_of s = map (\<lambda>c. of_nat (of_char c)) s"

definition string_of :: "byte list \<Rightarrow> string" where
  "string_of bs = map (\<lambda>b. char_of (unat b)) bs"

lemma char_byte [simp]: "char_of (unat (of_nat (of_char c) :: byte)) = c"
  by (simp add: unat_of_nat take_bit_eq_mod)

lemma string_of_bytes_of [simp]: "string_of (bytes_of s) = s"
  by (induction s) (simp_all add: string_of_def bytes_of_def)

subsection \<open>Lists and words\<close>

lemma take_drop_update:
  "length ys = n \<Longrightarrow> p + n \<le> length xs \<Longrightarrow>
   take n (drop p (take p xs @ ys @ drop (p + n) xs)) = ys"
  by simp

lemma take_length_le: "length xs \<le> n \<Longrightarrow> take n xs = xs"
  by simp

lemma and_not_mask: "(s :: 'a::len word) AND NOT (mask k) = push_bit k (drop_bit k s)"
  by (rule bit_word_eqI) (auto simp: bit_simps)
lemma unat_and_not_mask: "unat ((s :: 'a::len word) AND NOT (mask k)) = 2 ^ k * (unat s div 2 ^ k)"
proof -
  have "unat s div 2 ^ k * 2 ^ k \<le> unat s"
    by (rule div_times_less_eq_dividend)
  also have "\<dots> < 2 ^ LENGTH('a)" by simp
  finally have *: "unat s div 2 ^ k * 2 ^ k < 2 ^ LENGTH('a)" .
  have "unat (s AND NOT (mask k)) = take_bit LENGTH('a) (push_bit k (drop_bit k (unat s)))"
    by (simp only: and_not_mask unsigned_push_bit_eq unat_drop_bit_eq)
  also have "\<dots> = unat s div 2 ^ k * 2 ^ k"
    by (simp only: push_bit_eq_mult drop_bit_eq_div take_bit_nat_eq_self [OF *])
  finally show ?thesis by (simp only: mult.commute)
qed
lemma unat_and_mask: "unat ((s :: 'a::len word) AND mask k) = unat s mod 2 ^ k"
  by (simp only: unsigned_take_bit_eq take_bit_eq_mod flip: take_bit_eq_mask) (simp only: unsigned_take_bit_eq flip: take_bit_eq_mod)
lemma and_mask_zero: "(s :: 'a::len word) AND mask k = 0 \<longleftrightarrow> unat s mod 2 ^ k = 0"
  by (metis unat_0_iff unat_and_mask)

end
