(* ===== verification/Byte_Order.thy ===== *)
theory Byte_Order
  imports Prelude
begin

text \<open>
  Byte order (\<open>base/include/base/byteorder.h\<close>) and the fixed-width field accessors of
  \<open>util::Byte\<close> (\<open>base/include/base/util.h\<close>). An object of the program is modelled by
  its bytes in memory; \<open>big\<close> says whether the host stores integers big-endian, the answer of
  \<open>isBigEndian()\<close>, so the theorems cover both kinds of host.
\<close>

subsection \<open>Raw memory\<close>

definition set8 :: "byte list \<Rightarrow> nat \<Rightarrow> byte \<Rightarrow> byte list" where
  "set8 memory offset v = memory[offset := v]"

definition get8 :: "byte list \<Rightarrow> nat \<Rightarrow> byte" where
  "get8 memory offset = memory ! offset"

subsection \<open>Big-endian stores and loads\<close>

definition setBE16 :: "byte list \<Rightarrow> u16 \<Rightarrow> byte list" where
  "setBE16 memory v = set8 (set8 memory 0 (ucast (drop_bit 8 v))) 1 (ucast v)"

definition setBE32 :: "byte list \<Rightarrow> u32 \<Rightarrow> byte list" where
  "setBE32 memory v =
     set8 (set8 (set8 (set8 memory 0 (ucast (drop_bit 24 v))) 1 (ucast (drop_bit 16 v)))
       2 (ucast (drop_bit 8 v))) 3 (ucast v)"

definition setBE64 :: "byte list \<Rightarrow> u64 \<Rightarrow> byte list" where
  "setBE64 memory v =
     set8 (set8 (set8 (set8 (set8 (set8 (set8 (set8 memory
       0 (ucast (drop_bit 56 v))) 1 (ucast (drop_bit 48 v))) 2 (ucast (drop_bit 40 v)))
       3 (ucast (drop_bit 32 v))) 4 (ucast (drop_bit 24 v))) 5 (ucast (drop_bit 16 v)))
       6 (ucast (drop_bit 8 v))) 7 (ucast v)"

definition getBE16 :: "byte list \<Rightarrow> u16" where
  "getBE16 memory = (push_bit 8 (ucast (get8 memory 0)) OR ucast (get8 memory 1))"

definition getBE32 :: "byte list \<Rightarrow> u32" where
  "getBE32 memory =
     (push_bit 24 (ucast (get8 memory 0)) OR push_bit 16 (ucast (get8 memory 1))
      OR push_bit 8 (ucast (get8 memory 2)) OR ucast (get8 memory 3))"

definition getBE64 :: "byte list \<Rightarrow> u64" where
  "getBE64 memory =
     (push_bit 56 (ucast (get8 memory 0)) OR push_bit 48 (ucast (get8 memory 1))
      OR push_bit 40 (ucast (get8 memory 2)) OR push_bit 32 (ucast (get8 memory 3))
      OR push_bit 24 (ucast (get8 memory 4)) OR push_bit 16 (ucast (get8 memory 5))
      OR push_bit 8 (ucast (get8 memory 6)) OR ucast (get8 memory 7))"

subsection \<open>Little-endian stores and loads\<close>

definition setLE16 :: "byte list \<Rightarrow> u16 \<Rightarrow> byte list" where
  "setLE16 memory v = set8 (set8 memory 0 (ucast v)) 1 (ucast (drop_bit 8 v))"

definition setLE32 :: "byte list \<Rightarrow> u32 \<Rightarrow> byte list" where
  "setLE32 memory v =
     set8 (set8 (set8 (set8 memory 0 (ucast v)) 1 (ucast (drop_bit 8 v)))
       2 (ucast (drop_bit 16 v))) 3 (ucast (drop_bit 24 v))"

definition setLE64 :: "byte list \<Rightarrow> u64 \<Rightarrow> byte list" where
  "setLE64 memory v =
     set8 (set8 (set8 (set8 (set8 (set8 (set8 (set8 memory
       0 (ucast v)) 1 (ucast (drop_bit 8 v))) 2 (ucast (drop_bit 16 v)))
       3 (ucast (drop_bit 24 v))) 4 (ucast (drop_bit 32 v))) 5 (ucast (drop_bit 40 v)))
       6 (ucast (drop_bit 48 v))) 7 (ucast (drop_bit 56 v))"

definition getLE16 :: "byte list \<Rightarrow> u16" where
  "getLE16 memory = (ucast (get8 memory 0) OR push_bit 8 (ucast (get8 memory 1)))"

definition getLE32 :: "byte list \<Rightarrow> u32" where
  "getLE32 memory =
     (ucast (get8 memory 0) OR push_bit 8 (ucast (get8 memory 1))
      OR push_bit 16 (ucast (get8 memory 2)) OR push_bit 24 (ucast (get8 memory 3)))"

definition getLE64 :: "byte list \<Rightarrow> u64" where
  "getLE64 memory =
     (ucast (get8 memory 0) OR push_bit 8 (ucast (get8 memory 1))
      OR push_bit 16 (ucast (get8 memory 2)) OR push_bit 24 (ucast (get8 memory 3))
      OR push_bit 32 (ucast (get8 memory 4)) OR push_bit 40 (ucast (get8 memory 5))
      OR push_bit 48 (ucast (get8 memory 6)) OR push_bit 56 (ucast (get8 memory 7)))"

lemmas [byte_order_simps] =
  set8_def get8_def setBE16_def setBE32_def setBE64_def getBE16_def getBE32_def getBE64_def
  setLE16_def setLE32_def setLE64_def getLE16_def getLE32_def getLE64_def

lemma set_bytes_length [simp]:
  "length (setBE16 m a) = length m" "length (setBE32 m b) = length m"
  "length (setBE64 m c) = length m" "length (setLE16 m a) = length m"
  "length (setLE32 m b) = length m" "length (setLE64 m c) = length m"
  by (simp_all add: byte_order_simps)

lemma byte_low: "(ucast (ucast (v :: 'a::len word) :: byte) :: 'a word) = take_bit 8 v"
  by (rule bit_word_eqI) (auto simp: bit_simps)

lemma byte_next:
  "(push_bit k (take_bit 8 (drop_bit k v)) OR take_bit k (v :: 'a::len word)) = take_bit (8 + k) v"
  by (rule bit_word_eqI) (auto simp: bit_simps)

lemma next_byte:
  "(take_bit k (v :: 'a::len word) OR push_bit k (take_bit 8 (drop_bit k v))) = take_bit (8 + k) v"
  by (subst or.commute) (rule byte_next)

lemmas byte_joins = byte_low byte_next [of 8, simplified] byte_next [of 16, simplified]
  byte_next [of 24, simplified] byte_next [of 32, simplified] byte_next [of 40, simplified]
  byte_next [of 48, simplified] byte_next [of 56, simplified]

lemmas joins_byte = next_byte [of 8, simplified] next_byte [of 16, simplified]
  next_byte [of 24, simplified] next_byte [of 32, simplified] next_byte [of 40, simplified]
  next_byte [of 48, simplified] next_byte [of 56, simplified]

lemma whole_words:
  "take_bit 16 (a :: u16) = a" "take_bit 32 (b :: u32) = b" "take_bit 64 (c :: u64) = c"
  by (simp_all add: take_bit_word_eq_self)

lemma nonempty_le: "numeral k \<le> length m \<Longrightarrow> m \<noteq> []"
  by auto

text \<open>What a store writes a load of the same order reads back, on any memory large enough.\<close>

lemma getBE_setBE [simp, roundtrips]:
  "2 \<le> length m \<Longrightarrow> getBE16 (setBE16 m a) = a"
  "4 \<le> length m \<Longrightarrow> getBE32 (setBE32 m b) = b"
  "8 \<le> length m \<Longrightarrow> getBE64 (setBE64 m c) = c"
  by (simp_all add: byte_order_simps byte_joins whole_words nonempty_le)

lemma getLE_setLE [simp, roundtrips]:
  "2 \<le> length m \<Longrightarrow> getLE16 (setLE16 m a) = a"
  "4 \<le> length m \<Longrightarrow> getLE32 (setLE32 m b) = b"
  "8 \<le> length m \<Longrightarrow> getLE64 (setLE64 m c) = c"
  by (simp_all add: byte_order_simps byte_low nonempty_le)
    (simp_all only: or.assoc [symmetric] joins_byte whole_words)

subsection \<open>Host order\<close>

definition mem16 :: "bool \<Rightarrow> u16 \<Rightarrow> byte list" where
  "mem16 big v = (if big then setBE16 [0, 0] v else setLE16 [0, 0] v)"

definition mem32 :: "bool \<Rightarrow> u32 \<Rightarrow> byte list" where
  "mem32 big v = (if big then setBE32 [0, 0, 0, 0] v else setLE32 [0, 0, 0, 0] v)"

definition mem64 :: "bool \<Rightarrow> u64 \<Rightarrow> byte list" where
  "mem64 big v =
     (if big then setBE64 [0, 0, 0, 0, 0, 0, 0, 0] v else setLE64 [0, 0, 0, 0, 0, 0, 0, 0] v)"

definition load16 :: "bool \<Rightarrow> byte list \<Rightarrow> u16" where
  "load16 big m = (if big then getBE16 m else getLE16 m)"

definition load32 :: "bool \<Rightarrow> byte list \<Rightarrow> u32" where
  "load32 big m = (if big then getBE32 m else getLE32 m)"

definition load64 :: "bool \<Rightarrow> byte list \<Rightarrow> u64" where
  "load64 big m = (if big then getBE64 m else getLE64 m)"

text \<open>\<open>isBigEndian\<close> looks at the first byte of the \<open>int\<close> 1.\<close>

definition isBigEndian :: "bool \<Rightarrow> bool" where
  "isBigEndian big = (get8 (mem32 big 1) 0 = 0)"

definition hostToNetwork16 :: "bool \<Rightarrow> u16 \<Rightarrow> u16" where
  "hostToNetwork16 big n = load16 big (setBE16 [0, 0] n)"

definition hostToNetwork32 :: "bool \<Rightarrow> u32 \<Rightarrow> u32" where
  "hostToNetwork32 big n = load32 big (setBE32 [0, 0, 0, 0] n)"

definition hostToNetwork64 :: "bool \<Rightarrow> u64 \<Rightarrow> u64" where
  "hostToNetwork64 big n = load64 big (setBE64 [0, 0, 0, 0, 0, 0, 0, 0] n)"

definition networkToHost16 :: "bool \<Rightarrow> u16 \<Rightarrow> u16" where
  "networkToHost16 big n = getBE16 (mem16 big n)"

definition networkToHost32 :: "bool \<Rightarrow> u32 \<Rightarrow> u32" where
  "networkToHost32 big n = getBE32 (mem32 big n)"

definition networkToHost64 :: "bool \<Rightarrow> u64 \<Rightarrow> u64" where
  "networkToHost64 big n = getBE64 (mem64 big n)"

lemma isBigEndian_iff [simp]: "isBigEndian big = big"
  by (simp add: isBigEndian_def mem32_def byte_order_simps)

lemma mem_lengths [simp, sizes]:
  "length (mem16 big a) = 2" "length (mem32 big b) = 4" "length (mem64 big c) = 8"
  by (simp_all add: mem16_def mem32_def mem64_def)

lemma load_mem [simp, roundtrips]:
  "load16 big (mem16 big a) = a" "load32 big (mem32 big b) = b" "load64 big (mem64 big c) = c"
  by (simp_all add: mem16_def mem32_def mem64_def load16_def load32_def load64_def)

lemma list_of_length:
  "length m = 2 \<Longrightarrow> \<exists>a b. m = [a, b]"
  "length m = 4 \<Longrightarrow> \<exists>a b c d. m = [a, b, c, d]"
  "length m = 8 \<Longrightarrow> \<exists>a b c d e f g h. m = [a, b, c, d, e, f, g, h]"
  by (auto simp: numeral_eq_Suc length_Suc_conv)

lemma byte_out [simp]:
  "\<not> bit (b :: byte) (8 + n)" "\<not> bit b (16 + n)" "\<not> bit b (24 + n)" "\<not> bit b (32 + n)"
  "\<not> bit b (40 + n)" "\<not> bit b (48 + n)" "\<not> bit b (56 + n)"
  by (auto dest: bit_imp_le_length)

lemmas mem_load_defs = mem16_def mem32_def mem64_def load16_def load32_def load64_def byte_order_simps

lemma mem_load [simp, roundtrips]:
  "length p = 2 \<Longrightarrow> mem16 big (load16 big p) = p"
  "length q = 4 \<Longrightarrow> mem32 big (load32 big q) = q"
  "length r = 8 \<Longrightarrow> mem64 big (load64 big r) = r"
  by ((drule list_of_length, elim exE, simp add: mem_load_defs, intro conjI impI;
       rule bit_word_eqI; simp add: bit_simps)+)

lemma mem_hostToNetwork [simp]:
  "mem16 big (hostToNetwork16 big a) = setBE16 [0, 0] a"
  "mem32 big (hostToNetwork32 big b) = setBE32 [0, 0, 0, 0] b"
  "mem64 big (hostToNetwork64 big c) = setBE64 [0, 0, 0, 0, 0, 0, 0, 0] c"
  by (simp_all add: hostToNetwork16_def hostToNetwork32_def hostToNetwork64_def)

lemma network_host [simp, roundtrips]:
  "networkToHost16 big (hostToNetwork16 big a) = a"
  "networkToHost32 big (hostToNetwork32 big b) = b"
  "networkToHost64 big (hostToNetwork64 big c) = c"
  by (simp_all add: networkToHost16_def networkToHost32_def networkToHost64_def)

interpretation net16: codec "hostToNetwork16 big" "networkToHost16 big" "\<lambda>_. True" for big
  by unfold_locales simp

interpretation net32: codec "hostToNetwork32 big" "networkToHost32 big" "\<lambda>_. True" for big
  by unfold_locales simp

interpretation net64: codec "hostToNetwork64 big" "networkToHost64 big" "\<lambda>_. True" for big
  by unfold_locales simp

text \<open>
  On a host of either byte order the memory of a value converted to network order is its
  big endian form, the conversion back recovers the value, and the conversion is injective.
\<close>

theorem network_order_host_independent:
  "mem16 big (hostToNetwork16 big a) = setBE16 [0, 0] a \<and>
   mem32 big (hostToNetwork32 big b) = setBE32 [0, 0, 0, 0] b \<and>
   mem64 big (hostToNetwork64 big c) = setBE64 [0, 0, 0, 0, 0, 0, 0, 0] c \<and>
   networkToHost16 big (hostToNetwork16 big a) = a \<and>
   networkToHost32 big (hostToNetwork32 big b) = b \<and>
   networkToHost64 big (hostToNetwork64 big c) = c \<and>
   (hostToNetwork16 big a = hostToNetwork16 big a' \<longleftrightarrow> a = a') \<and>
   (hostToNetwork32 big b = hostToNetwork32 big b' \<longleftrightarrow> b = b') \<and>
   (hostToNetwork64 big c = hostToNetwork64 big c' \<longleftrightarrow> c = c')"
  by (simp add: net16.enc_inject net32.enc_inject net64.enc_inject)

subsection \<open>Fields of a packet: util::Byte\<close>

definition Get1Byte :: "byte list \<Rightarrow> nat \<Rightarrow> byte" where
  "Get1Byte data i = data ! i"

definition Get2Bytes :: "byte list \<Rightarrow> nat \<Rightarrow> u16" where
  "Get2Bytes data i = (ucast (data ! (i + 1)) OR push_bit 8 (ucast (data ! i)))"

definition Get3Bytes :: "byte list \<Rightarrow> nat \<Rightarrow> u32" where
  "Get3Bytes data i =
     (ucast (data ! (i + 2)) OR push_bit 8 (ucast (data ! (i + 1))) OR push_bit 16 (ucast (data ! i)))"

definition Get4Bytes :: "byte list \<Rightarrow> nat \<Rightarrow> u32" where
  "Get4Bytes data i =
     (ucast (data ! (i + 3)) OR push_bit 8 (ucast (data ! (i + 2)))
      OR push_bit 16 (ucast (data ! (i + 1))) OR push_bit 24 (ucast (data ! i)))"

definition Get8Bytes :: "byte list \<Rightarrow> nat \<Rightarrow> u64" where
  "Get8Bytes data i = (push_bit 32 (ucast (Get4Bytes data i)) OR ucast (Get4Bytes data (i + 4)))"

definition Set1Byte :: "byte list \<Rightarrow> nat \<Rightarrow> byte \<Rightarrow> byte list" where
  "Set1Byte data i value = data[i := value]"

definition Set2Bytes :: "byte list \<Rightarrow> nat \<Rightarrow> u16 \<Rightarrow> byte list" where
  "Set2Bytes data i value = data[i + 1 := ucast value, i := ucast (drop_bit 8 value)]"

definition Set3Bytes :: "byte list \<Rightarrow> nat \<Rightarrow> u32 \<Rightarrow> byte list" where
  "Set3Bytes data i value =
     data[i + 2 := ucast value, i + 1 := ucast (drop_bit 8 value), i := ucast (drop_bit 16 value)]"

definition Set4Bytes :: "byte list \<Rightarrow> nat \<Rightarrow> u32 \<Rightarrow> byte list" where
  "Set4Bytes data i value =
     data[i + 3 := ucast value, i + 2 := ucast (drop_bit 8 value),
          i + 1 := ucast (drop_bit 16 value), i := ucast (drop_bit 24 value)]"

definition Set8Bytes :: "byte list \<Rightarrow> nat \<Rightarrow> u64 \<Rightarrow> byte list" where
  "Set8Bytes data i value =
     data[i + 7 := ucast value, i + 6 := ucast (drop_bit 8 value),
          i + 5 := ucast (drop_bit 16 value), i + 4 := ucast (drop_bit 24 value),
          i + 3 := ucast (drop_bit 32 value), i + 2 := ucast (drop_bit 40 value),
          i + 1 := ucast (drop_bit 48 value), i := ucast (drop_bit 56 value)]"

lemmas byte_field_defs = Get1Byte_def Get2Bytes_def Get3Bytes_def Get4Bytes_def Get8Bytes_def Set1Byte_def Set2Bytes_def
  Set3Bytes_def Set4Bytes_def Set8Bytes_def

lemma Get_Set_Bytes:
  "i + 2 \<le> length d \<Longrightarrow> Get2Bytes (Set2Bytes d i a) i = a"
  "i + 3 \<le> length d \<Longrightarrow> Get3Bytes (Set3Bytes d i b) i = take_bit 24 b"
  "i + 4 \<le> length d \<Longrightarrow> Get4Bytes (Set4Bytes d i b) i = b"
  by (simp_all add: byte_field_defs byte_low) (simp_all only: joins_byte whole_words or.assoc [symmetric])

lemma halves64: "(push_bit 32 (ucast (ucast (drop_bit 32 c) :: u32)) OR ucast (ucast c :: u32)) = (c :: u64)"
  by (rule bit_word_eqI) (auto simp: bit_simps)

lemma bytes_low32:
  "(ucast (ucast (c :: u64) :: u32) :: byte) = ucast c"
  "k < 32 \<Longrightarrow> k + 8 \<le> 32 \<Longrightarrow> (ucast (drop_bit k (ucast c :: u32)) :: byte) = ucast (drop_bit k c)"
  by (rule bit_word_eqI, auto simp: bit_simps)+

lemma Set8_Set4: "Set8Bytes d i c = Set4Bytes (Set4Bytes d (i + 4) (ucast c)) i (ucast (drop_bit 32 c))"
  by (simp add: byte_field_defs bytes_low32 add.commute)

lemma Get4_Set4_other: "j + 4 \<le> i \<or> i + 4 \<le> j \<Longrightarrow> j + 4 \<le> length d \<Longrightarrow> Get4Bytes (Set4Bytes d i v) j = Get4Bytes d j"
  by (auto simp: byte_field_defs)

lemma length_Set4 [simp]: "length (Set4Bytes d i v) = length d" by (simp add: Set4Bytes_def)

lemma Get8_Set8: "i + 8 \<le> length d \<Longrightarrow> Get8Bytes (Set8Bytes d i c) i = c"
  by (simp add: Get8Bytes_def Set8_Set4 Get_Set_Bytes Get4_Set4_other halves64)

text \<open>
  Padding to a multiple of 32 bits. In the 16-bit overload the sum is computed in \<open>int\<close> and
  converted back to \<open>uint16_t\<close>, that is, modulo 65536.
\<close>

definition PadTo4Bytes_u16 :: "u16 \<Rightarrow> u16" where
  "PadTo4Bytes_u16 sz = (if sz AND 0x03 \<noteq> 0 then (sz AND 0xFFFC) + 4 else sz)"

definition PadTo4Bytes_u32 :: "u32 \<Rightarrow> u32" where
  "PadTo4Bytes_u32 sz = (if sz AND 0x03 \<noteq> 0 then (sz AND 0xFFFFFFFC) + 4 else sz)"

lemma pad_masks: "(3 :: u16) = mask 2" "(0xFFFC :: u16) = NOT (mask 2)" "(3 :: u32) = mask 2" "(0xFFFFFFFC :: u32) = NOT (mask 2)"
  by (simp_all add: mask_numeral)

lemma pad_nat: "(n :: nat) mod 4 \<noteq> 0 \<Longrightarrow> 4 * (n div 4) + 4 = 4 * ((n + 3) div 4)" "(n :: nat) mod 4 = 0 \<Longrightarrow> 4 * ((n + 3) div 4) = n"
  by presburger+

lemma PadTo4Bytes_u16_mod: "unat (PadTo4Bytes_u16 s) = (4 * ((unat s + 3) div 4)) mod 65536"
proof (cases "unat s mod 4 = 0")
  case True
  have "unat s < 65536" using unsigned_less [of s, where 'a = nat] by simp
  with True show ?thesis
    unfolding PadTo4Bytes_u16_def pad_masks and_mask_zero by (simp add: pad_nat)
next
  case False
  then have "unat (PadTo4Bytes_u16 s) = (4 * (unat s div 4) + 4) mod 65536"
    unfolding PadTo4Bytes_u16_def pad_masks and_mask_zero by (simp add: unat_word_ariths unat_and_not_mask)
  with False show ?thesis by (simp add: pad_nat)
qed

lemma PadTo4Bytes_u32_mod: "unat (PadTo4Bytes_u32 s) = (4 * ((unat s + 3) div 4)) mod 2 ^ 32"
proof (cases "unat s mod 4 = 0")
  case True
  have "unat s < 2 ^ 32" using unsigned_less [of s, where 'a = nat] by simp
  with True show ?thesis
    unfolding PadTo4Bytes_u32_def pad_masks and_mask_zero by (simp add: pad_nat)
next
  case False
  then have "unat (PadTo4Bytes_u32 s) = (4 * (unat s div 4) + 4) mod 2 ^ 32"
    unfolding PadTo4Bytes_u32_def pad_masks and_mask_zero by (simp add: unat_word_ariths unat_and_not_mask)
  with False show ?thesis by (simp add: pad_nat)
qed

text \<open>
  PadTo4Bytes rounds a size up to the next multiple of four when that fits the type.
\<close>

theorem PadTo4Bytes_rounds_up:
  "unat (PadTo4Bytes_u16 s) = (4 * ((unat s + 3) div 4)) mod 65536 \<and>
   unat (PadTo4Bytes_u32 t) = (4 * ((unat t + 3) div 4)) mod 2 ^ 32 \<and>
   (unat s \<le> 65532 \<longrightarrow> unat s \<le> unat (PadTo4Bytes_u16 s) \<and> unat (PadTo4Bytes_u16 s) < unat s + 4) \<and>
   PadTo4Bytes_u16 65533 = 0"
proof -
  have "4 * ((n + 3) div 4) < 65536 \<and> n \<le> 4 * ((n + 3) div 4) \<and> 4 * ((n + 3) div 4) < n + 4"
    if "n \<le> 65532" for n :: nat
    using that by presburger
  moreover have "PadTo4Bytes_u16 65533 = 0"
    by (simp add: PadTo4Bytes_u16_def)
  ultimately show ?thesis
    by (simp add: PadTo4Bytes_u16_mod PadTo4Bytes_u32_mod)
qed

theorem PadTo4Bytes_rounds_up_witness:
  "unat (5 :: u16) \<le> 65532 \<and> unat (PadTo4Bytes_u16 5) < unat (5 :: u16) + 4"
  using PadTo4Bytes_rounds_up [of 5 0] by simp

end
