(* ===== verification/Sha1.thy ===== *)
theory Sha1
  imports Byte_Order
begin

text \<open>
  SHA-1 (\<open>base/src/sha1.cpp\<close>), as built without \<open>SHA1HANDSOFF\<close> and \<open>WORDS_BIGENDIAN\<close>: the transform
  expands the message schedule in the block it is given, so it returns that block changed.
  \<open>big\<close> is the byte order of the host; the specification is FIPS 180-1.
\<close>

subsection \<open>The transform\<close>

definition rol :: "u32 \<Rightarrow> nat \<Rightarrow> u32" where
  "rol value bits = (push_bit bits value OR drop_bit (32 - bits) value)"

text \<open>\<open>blk0\<close> turns the word \<open>i\<close> of the block around, \<open>blk\<close> computes the next word of the schedule in its place.\<close>

definition blk0 :: "u32 list \<Rightarrow> nat \<Rightarrow> u32 list" where
  "blk0 l i = l[i := (rol (l ! i) 24 AND 0xFF00FF00) OR (rol (l ! i) 8 AND 0x00FF00FF)]"

definition blk :: "u32 list \<Rightarrow> nat \<Rightarrow> u32 list" where
  "blk l i = l[i mod 16 := rol (l ! ((i + 13) mod 16) XOR l ! ((i + 8) mod 16)
                               XOR l ! ((i + 2) mod 16) XOR l ! (i mod 16)) 1]"

type_synonym vars = "u32 \<times> u32 \<times> u32 \<times> u32 \<times> u32"

text \<open>
  A round on \<open>(v, w, x, y, z)\<close> changes \<open>z\<close> and \<open>w\<close>; the next round is written with the names moved on by one,
  which is the tuple turned by one. After 80 rounds the names are back in place.
\<close>

definition R0 :: "nat \<Rightarrow> u32 list \<times> vars \<Rightarrow> u32 list \<times> vars" where
  "R0 i s = (case s of (l, v, w, x, y, z) \<Rightarrow> let l' = blk0 l i in
     (l', z + ((w AND (x XOR y)) XOR y) + l' ! i + 0x5A827999 + rol v 5, v, rol w 30, x, y))"

definition R1 :: "nat \<Rightarrow> u32 list \<times> vars \<Rightarrow> u32 list \<times> vars" where
  "R1 i s = (case s of (l, v, w, x, y, z) \<Rightarrow> let l' = blk l i in
     (l', z + ((w AND (x XOR y)) XOR y) + l' ! (i mod 16) + 0x5A827999 + rol v 5, v, rol w 30, x, y))"

definition R2 :: "nat \<Rightarrow> u32 list \<times> vars \<Rightarrow> u32 list \<times> vars" where
  "R2 i s = (case s of (l, v, w, x, y, z) \<Rightarrow> let l' = blk l i in
     (l', z + (w XOR x XOR y) + l' ! (i mod 16) + 0x6ED9EBA1 + rol v 5, v, rol w 30, x, y))"

definition R3 :: "nat \<Rightarrow> u32 list \<times> vars \<Rightarrow> u32 list \<times> vars" where
  "R3 i s = (case s of (l, v, w, x, y, z) \<Rightarrow> let l' = blk l i in
     (l', z + (((w OR x) AND y) OR (w AND x)) + l' ! (i mod 16) + 0x8F1BBCDC + rol v 5, v, rol w 30, x, y))"

definition R4 :: "nat \<Rightarrow> u32 list \<times> vars \<Rightarrow> u32 list \<times> vars" where
  "R4 i s = (case s of (l, v, w, x, y, z) \<Rightarrow> let l' = blk l i in
     (l', z + (w XOR x XOR y) + l' ! (i mod 16) + 0xCA62C1D6 + rol v 5, v, rol w 30, x, y))"

definition sha_round :: "u32 list \<times> vars \<Rightarrow> nat \<Rightarrow> u32 list \<times> vars" where
  "sha_round s i = (if i < 16 then R0 i s else if i < 20 then R1 i s else if i < 40 then R2 i s
                    else if i < 60 then R3 i s else R4 i s)"

definition block_words :: "bool \<Rightarrow> byte list \<Rightarrow> u32 list" where
  "block_words big buffer = map (\<lambda>i. load32 big (take 4 (drop (4 * i) buffer))) [0..<16]"

definition SHA1_Transform :: "bool \<Rightarrow> vars \<Rightarrow> byte list \<Rightarrow> vars \<times> byte list" where
  "SHA1_Transform big state buffer =
     (case foldl sha_round (block_words big buffer, state) [0..<80] of (l, a, b, c, d, e) \<Rightarrow>
        case state of (s0, s1, s2, s3, s4) \<Rightarrow>
          ((s0 + a, s1 + b, s2 + c, s3 + d, s4 + e), concat (map (mem32 big) l)))"

subsection \<open>The context\<close>

record SHA1_CTX =
  sha_state :: vars
  count0 :: u32
  count1 :: u32
  sha_buffer :: "byte list"

definition SHA1_Init :: "byte list \<Rightarrow> SHA1_CTX" where
  "SHA1_Init garbage =
     \<lparr>sha_state = (0x67452301, 0xEFCDAB89, 0x98BADCFE, 0x10325476, 0xC3D2E1F0),
      count0 = 0, count1 = 0, sha_buffer = garbage\<rparr>"

definition store :: "byte list \<Rightarrow> nat \<Rightarrow> byte list \<Rightarrow> byte list" where
  "store buffer j bs = take j buffer @ bs @ drop (j + length bs) buffer"

text \<open>The loop over the whole blocks of \<open>data\<close>, each of which the transform leaves changed.\<close>

function whole_blocks :: "bool \<Rightarrow> vars \<Rightarrow> byte list \<Rightarrow> nat \<Rightarrow> vars \<times> byte list \<times> nat" where
  "whole_blocks big state data i =
     (if i + 63 < length data
      then (case SHA1_Transform big state (take 64 (drop i data)) of
              (state', block) \<Rightarrow> whole_blocks big state' (take (length data) (store data i block)) (i + 64))
      else (state, data, i))"
  by pat_completeness auto
termination
  by (relation "measure (\<lambda>(big, state, data, i). length data - i)") auto

declare whole_blocks.simps [simp del]

definition SHA1_Update :: "bool \<Rightarrow> SHA1_CTX \<Rightarrow> byte list \<Rightarrow> SHA1_CTX \<times> byte list" where
  "SHA1_Update big ctx data =
     (let len = length data; lw = (word_of_nat len :: u64);
          j = unat (drop_bit 3 (count0 ctx) AND 63);
          c0 = count0 ctx + ucast (push_bit 3 lw);
          c1 = count1 ctx + (if (ucast c0 :: u64) < push_bit 3 lw then 1 else 0) + ucast (drop_bit 29 lw);
          ctx' = ctx\<lparr>count0 := c0, count1 := c1\<rparr>
      in if j + len > 63
         then (let i = 64 - j in
               case SHA1_Transform big (sha_state ctx) (store (sha_buffer ctx) j (take i data)) of
                 (state1, buffer1) \<Rightarrow>
               (case whole_blocks big state1 data i of
                 (state2, data', i') \<Rightarrow>
                   (ctx'\<lparr>sha_state := state2, sha_buffer := store buffer1 0 (drop i' data')\<rparr>, data')))
         else (ctx'\<lparr>sha_buffer := store (sha_buffer ctx) j data\<rparr>, data))"

text \<open>The padding loop of \<open>Final\<close> puts zero bytes until the length is 56 modulo 64.\<close>

lemma count0_Update: "count0 (fst (SHA1_Update big ctx data)) = count0 ctx + ucast (push_bit 3 (word_of_nat (length data) :: u64))"
  by (auto simp: SHA1_Update_def Let_def split: prod.splits)

definition fill :: "u32 \<Rightarrow> nat" where
  "fill c = (unat c div 8) mod 64"

lemma fill_and: "unat (c AND 504) = 8 * fill c"
proof -
  have e: "(504 :: u32) = push_bit 3 (mask 6)" by (simp add: mask_numeral)
  have m: "c AND 504 = push_bit 3 (drop_bit 3 c AND mask 6)"
    unfolding e by (rule bit_word_eqI) (auto simp: bit_simps)
  have f: "unat (drop_bit 3 c AND mask 6) = fill c"
    by (simp only: unat_and_mask unat_drop_bit_eq fill_def) (simp add: drop_bit_eq_div)
  have "fill c < 64" by (simp add: fill_def)
  then have "take_bit 32 (8 * fill c) = 8 * fill c" by (simp add: take_bit_nat_eq_self)
  then show ?thesis
    by (simp only: m unsigned_push_bit_eq f) (simp add: push_bit_eq_mult mult.commute)
qed

lemma fill_add: "fill (c + 8) = (fill c + 1) mod 64"
proof -
  have "unat (c + 8) = (unat c + 8) mod (8 * 2 ^ 29)" by (simp add: unat_word_ariths)
  also have "\<dots> = 8 * ((unat c + 8) div 8 mod 2 ^ 29) + (unat c + 8) mod 8" by (rule mod_mult2_eq)
  finally have "unat (c + 8) div 8 = (unat c div 8 + 1) mod 2 ^ 29"
    using div_mult_self2 [of 8 "unat c" 1] by simp
  moreover have "(m mod 2 ^ 29) mod 64 = m mod 64" for m :: nat
    by (rule mod_mod_cancel) (simp add: dvd_power_le)
  ultimately show ?thesis by (simp add: fill_def mod_simps)
qed

lemma pad_test: "c AND 504 = 448 \<longleftrightarrow> fill c = 56"
proof
  assume "c AND 504 = 448"
  then show "fill c = 56" using fill_and [of c] by simp
next
  assume "fill c = 56"
  then have "unat (c AND 504) = 448" using fill_and [of c] by simp
  moreover have "c AND 504 = word_of_nat (unat (c AND 504))" by (simp only: of_nat_unat ucast_id)
  ultimately show "c AND 504 = 448" by simp
qed

lemma zeros_step:
  assumes "f < 64" "f \<noteq> 56"
  shows "(120 - f) mod 64 = Suc ((120 - (f + 1) mod 64) mod (64 :: nat))"
proof -
  consider "f < 56" | "56 < f" "f < 63" | "f = 63" using assms by linarith
  then show ?thesis
  proof cases
    case 1
    then have "120 - f = (56 - f) + 64" "120 - (f + 1) = (55 - f) + 64" by linarith+
    then have "(120 - f) mod 64 = 56 - f" "(120 - (f + 1)) mod 64 = 55 - f"
      by (simp_all only: mod_add_self2) simp_all
    then show ?thesis using 1 by simp
  next
    case 2
    then have "(120 - f) mod 64 = 120 - f" "(120 - (f + 1)) mod 64 = 119 - f" "(f + 1) mod 64 = f + 1"
      by (auto intro!: mod_less)
    then show ?thesis using 2 by simp
  next
    case 3
    then show ?thesis by simp
  qed
qed

lemma pad_measure: "f < 64 \<Longrightarrow> f \<noteq> 56 \<Longrightarrow> (120 - (f + 1) mod 64) mod 64 < (120 - f) mod (64 :: nat)"
  using zeros_step [of f] by linarith

lemma ucast_8_zero: "ucast (push_bit 3 (word_of_nat (length [0 :: byte]) :: u64)) = (8 :: u32)"
  by simp

function (sequential) pad_loop :: "bool \<Rightarrow> SHA1_CTX \<Rightarrow> SHA1_CTX" where
  "pad_loop big ctx =
     (if count0 ctx AND 504 \<noteq> 448 then pad_loop big (fst (SHA1_Update big ctx [0])) else ctx)"
  by pat_completeness auto
termination
proof (relation "measure (\<lambda>(big, ctx). (120 - fill (count0 ctx)) mod 64)", goal_cases)
  case (2 big ctx)
  then have "fill (count0 ctx) \<noteq> 56" by (simp add: pad_test)
  moreover have "fill (count0 ctx) < 64" by (simp add: fill_def)
  ultimately show ?case using pad_measure [of "fill (count0 ctx)"]
    by (simp only: count0_Update ucast_8_zero fill_add in_measure split) simp
qed simp

declare pad_loop.simps [simp del]

definition finalcount :: "SHA1_CTX \<Rightarrow> byte list" where
  "finalcount ctx = map (\<lambda>i. ucast (drop_bit ((3 - (i mod 4)) * 8) (if i \<ge> 4 then count0 ctx else count1 ctx) AND 255))
     [0..<8 :: nat]"

definition state_list :: "vars \<Rightarrow> u32 list" where
  "state_list s = (case s of (a, b, c, d, e) \<Rightarrow> [a, b, c, d, e])"

text \<open>The digest; the context is wiped afterwards.\<close>

definition SHA1_Final :: "bool \<Rightarrow> SHA1_CTX \<Rightarrow> SHA1_CTX \<times> byte list" where
  "SHA1_Final big ctx =
     (let fin = finalcount ctx;
          ctx1 = fst (SHA1_Update big ctx [0x80]);
          ctx2 = pad_loop big ctx1;
          ctx3 = fst (SHA1_Update big ctx2 fin);
          digest = map (\<lambda>i. ucast (drop_bit ((3 - (i mod 4)) * 8) (state_list (sha_state ctx3) ! (i div 4)) AND 255))
            [0..<20 :: nat]
      in (\<lparr>sha_state = (0, 0, 0, 0, 0), count0 = 0, count1 = 0, sha_buffer = replicate 64 0\<rparr>, digest))"

subsection \<open>The specification\<close>

fun sched :: "u32 list \<Rightarrow> nat \<Rightarrow> u32" where
  "sched M t = (if t < 16 then M ! t
     else rol (sched M (t - 3) XOR sched M (t - 8) XOR sched M (t - 14) XOR sched M (t - 16)) 1)"

declare sched.simps [simp del]

definition fips_f :: "nat \<Rightarrow> u32 \<Rightarrow> u32 \<Rightarrow> u32 \<Rightarrow> u32" where
  "fips_f t b c d = (if t < 20 then (b AND c) OR (NOT b AND d)
     else if t < 40 then b XOR c XOR d
     else if t < 60 then (b AND c) OR (b AND d) OR (c AND d)
     else b XOR c XOR d)"

definition fips_K :: "nat \<Rightarrow> u32" where
  "fips_K t = (if t < 20 then 0x5A827999 else if t < 40 then 0x6ED9EBA1 else if t < 60 then 0x8F1BBCDC else 0xCA62C1D6)"

definition fips_round :: "u32 list \<Rightarrow> vars \<Rightarrow> nat \<Rightarrow> vars" where
  "fips_round M s t = (case s of (a, b, c, d, e) \<Rightarrow>
     (rol a 5 + fips_f t b c d + e + sched M t + fips_K t, a, rol b 30, c, d))"

definition fips_words :: "byte list \<Rightarrow> u32 list" where
  "fips_words block = map (\<lambda>i. getBE32 (take 4 (drop (4 * i) block))) [0..<16]"

definition fips_block :: "vars \<Rightarrow> byte list \<Rightarrow> vars" where
  "fips_block H block = (case H of (h0, h1, h2, h3, h4) \<Rightarrow>
     case foldl (fips_round (fips_words block)) H [0..<80] of (a, b, c, d, e) \<Rightarrow>
       (h0 + a, h1 + b, h2 + c, h3 + d, h4 + e))"

fun fips_blocks :: "vars \<Rightarrow> byte list \<Rightarrow> vars" where
  "fips_blocks H msg = (if length msg < 64 then H else fips_blocks (fips_block H (take 64 msg)) (drop 64 msg))"

declare fips_blocks.simps [simp del]

definition fips_H0 :: vars where
  "fips_H0 = (0x67452301, 0xEFCDAB89, 0x98BADCFE, 0x10325476, 0xC3D2E1F0)"

definition fips_pad :: "byte list \<Rightarrow> byte list" where
  "fips_pad msg = msg @ [0x80] @ replicate ((119 - length msg mod 64) mod 64) 0
     @ setBE64 [0, 0, 0, 0, 0, 0, 0, 0] (word_of_nat (8 * length msg))"

definition fips_sha1 :: "byte list \<Rightarrow> byte list" where
  "fips_sha1 msg = concat (map (setBE32 [0, 0, 0, 0]) (state_list (fips_blocks fips_H0 (fips_pad msg))))"

subsection \<open>The transform computes the block function\<close>

lemma ch_eq: "((w AND (x XOR y)) XOR y) = (w AND x) OR (NOT w AND (y :: u32))"
  by (rule bit_word_eqI) (auto simp: bit_simps)

lemma maj_eq: "(((w OR x) AND y) OR (w AND x)) = (w AND x) OR (w AND y) OR (x AND (y :: u32))"
  by (rule bit_word_eqI) (auto simp: bit_simps)

lemma swap_masks: "(0xFF00FF00 :: u32) = push_bit 8 (mask 8) OR push_bit 24 (mask 8)"
  "(0x00FF00FF :: u32) = mask 8 OR push_bit 16 (mask 8)"
  by (simp_all add: mask_numeral)

lemma swap_LE: "length p = 4 \<Longrightarrow>
   (rol (getLE32 p) 24 AND 0xFF00FF00) OR (rol (getLE32 p) 8 AND 0x00FF00FF) = getBE32 p"
proof -
  assume "length p = 4"
  then obtain a b c d where p: "p = [a, b, c, d]" by (auto dest: list_of_length)
  show ?thesis
  proof (rule bit_word_eqI)
    fix n :: nat assume "n < LENGTH(32)"
    then consider "n < 8" | "8 \<le> n" "n < 16" | "16 \<le> n" "n < 24" | "24 \<le> n" "n < 32" by fastforce
    then show "bit ((rol (getLE32 p) 24 AND 0xFF00FF00) OR (rol (getLE32 p) 8 AND 0x00FF00FF)) n = bit (getBE32 p) n"
      unfolding p swap_masks
      by cases (auto simp: rol_def byte_order_simps bit_simps dest: bit_imp_le_length)
  qed
qed

text \<open>What the block holds before round \<open>i\<close>: the last 16 words of the schedule and, at first, words not yet turned.\<close>

definition holds :: "u32 list \<Rightarrow> u32 list \<Rightarrow> nat \<Rightarrow> u32 list \<Rightarrow> bool" where
  "holds raw M i l \<longleftrightarrow> length l = 16 \<and> (\<forall>t. t < i \<and> i \<le> t + 16 \<longrightarrow> l ! (t mod 16) = sched M t) \<and>
     (\<forall>j. i \<le> j \<and> j < 16 \<longrightarrow> l ! j = raw ! j)"

definition turned :: "u32 list \<Rightarrow> u32 list \<Rightarrow> bool" where
  "turned raw M \<longleftrightarrow> length raw = 16 \<and> (\<forall>j<16. (rol (raw ! j) 24 AND 0xFF00FF00) OR (rol (raw ! j) 8 AND 0x00FF00FF) = M ! j)"

lemma mod16_neq: "t < i \<Longrightarrow> i < t + 16 \<Longrightarrow> t mod 16 \<noteq> i mod (16 :: nat)"
proof
  assume t: "t < i" "i < t + 16" "t mod 16 = i mod 16"
  then have "16 dvd i - t" using mod_eq_dvd_iff_nat [of t i 16] by simp
  then show False using t dvd_imp_le [of 16 "i - t"] by simp
qed

lemma holds_update:
  assumes "holds raw M i l" "l' = l[i mod 16 := sched M i]"
  shows "holds raw M (i + 1) l'" "l' ! (i mod 16) = sched M i"
proof -
  show "l' ! (i mod 16) = sched M i" using assms by (simp add: holds_def)
  have "l' ! (t mod 16) = sched M t" if t: "t < i + 1" "i + 1 \<le> t + 16" for t
  proof (cases "t = i")
    case True
    then show ?thesis using assms by (simp add: holds_def)
  next
    case False
    then have "t mod 16 \<noteq> i mod 16" using mod16_neq [of t i] t by simp
    then show ?thesis using assms t False by (simp add: holds_def)
  qed
  moreover have "l' ! j = raw ! j" if "i + 1 \<le> j" "j < 16" for j
    using that assms by (simp add: holds_def)
  ultimately show "holds raw M (i + 1) l'" using assms by (simp add: holds_def)
qed

lemma blk0_holds:
  assumes "turned raw M" "holds raw M i l" "i < 16"
  shows "blk0 l i = l[i mod 16 := sched M i]"
proof -
  have "l ! i = raw ! i" using assms(2,3) by (simp add: holds_def)
  then show ?thesis using assms(1,3) by (simp add: blk0_def turned_def sched.simps [of M i])
qed

lemma back16:
  "(16 + k + 13) mod 16 = (16 + k - 3) mod (16 :: nat)" "(16 + k + 8) mod 16 = (16 + k - 8) mod (16 :: nat)"
  "(16 + k + 2) mod 16 = (16 + k - 14) mod (16 :: nat)" "(16 + k) mod 16 = (16 + k - 16) mod (16 :: nat)"
proof -
  have a: "16 + k + 13 = (16 + k - 3) + 16" "16 + k + 8 = (16 + k - 8) + 16" "16 + k + 2 = (16 + k - 14) + 16"
    "16 + k = (16 + k - 16) + 16" by simp_all
  show "(16 + k + 13) mod 16 = (16 + k - 3) mod (16 :: nat)" unfolding a(1) by (rule mod_add_self2)
  show "(16 + k + 8) mod 16 = (16 + k - 8) mod (16 :: nat)" unfolding a(2) by (rule mod_add_self2)
  show "(16 + k + 2) mod 16 = (16 + k - 14) mod (16 :: nat)" unfolding a(3) by (rule mod_add_self2)
  show "(16 + k) mod 16 = (16 + k - 16) mod (16 :: nat)" by (simp only: add_diff_cancel_left' mod_add_self1)
qed

lemma blk_holds:
  assumes "holds raw M i l" "16 \<le> i"
  shows "blk l i = l[i mod 16 := sched M i]"
proof -
  have w: "l ! (t mod 16) = sched M t" if "t < i" "i \<le> t + 16" for t
    using assms(1) that by (simp add: holds_def)
  obtain k where k: "i = 16 + k" using assms(2) le_Suc_ex by blast
  have m: "(i + 13) mod 16 = (i - 3) mod 16" "(i + 8) mod 16 = (i - 8) mod 16"
    "(i + 2) mod 16 = (i - 14) mod 16" "i mod 16 = (i - 16) mod 16"
    unfolding k by (rule back16)+
  have "l ! ((i + 13) mod 16) = sched M (i - 3)" "l ! ((i + 8) mod 16) = sched M (i - 8)"
    "l ! ((i + 2) mod 16) = sched M (i - 14)"
    unfolding m(1-3) by (rule w; use assms(2) in simp)+
  moreover have "l ! (i mod 16) = sched M (i - 16)"
    by (subst m(4), rule w) (use assms(2) in simp_all)
  ultimately show ?thesis using assms(2) by (simp add: blk_def sched.simps [of M i])
qed

lemma sha_round_fips:
  assumes "turned raw M" "holds raw M i l"
  shows "\<exists>l'. sha_round (l, s) i = (l', fips_round M s i) \<and> holds raw M (i + 1) l'"
proof -
  obtain v w x y z where s: "s = (v, w, x, y, z)" by (cases s)
  let ?l = "l[i mod 16 := sched M i]"
  note u = holds_update [OF assms(2) refl]
  consider "i < 16" | "16 \<le> i" by linarith
  then show ?thesis
  proof cases
    case 1
    then have "blk0 l i = ?l" "i mod 16 = i" using blk0_holds [OF assms] by simp_all
    then show ?thesis using u 1
      by (simp add: sha_round_def s R0_def fips_round_def fips_f_def fips_K_def ch_eq Let_def add_ac)
  next
    case 2
    then have "blk l i = ?l" by (rule blk_holds [OF assms(2)])
    then show ?thesis using u 2
      by (simp add: sha_round_def s R1_def R2_def R3_def R4_def fips_round_def fips_f_def fips_K_def ch_eq maj_eq Let_def add_ac)
  qed
qed

lemma sha_rounds_fips:
  assumes "turned raw M"
  shows "\<exists>l. foldl sha_round (raw, s) [0..<n] = (l, foldl (fips_round M) s [0..<n]) \<and> holds raw M n l"
proof (induction n)
  case 0
  show ?case using assms by (simp add: holds_def turned_def)
next
  case (Suc n)
  then obtain l where "foldl sha_round (raw, s) [0..<n] = (l, foldl (fips_round M) s [0..<n])" "holds raw M n l"
    by blast
  then show ?case using sha_round_fips [OF assms, of n l "foldl (fips_round M) s [0..<n]"] by auto
qed

lemma turned_words: "length block = 64 \<Longrightarrow> turned (block_words False block) (fips_words block)"
  by (simp add: turned_def block_words_def fips_words_def load32_def swap_LE)

lemma length_concat_mem32: "length (concat (map (mem32 big) l)) = 4 * length l"
  by (induction l) simp_all

lemma Transform_fips:
  assumes "length block = 64"
  shows "\<exists>block'. SHA1_Transform False s block = (fips_block s block, block') \<and> length block' = 64"
proof -
  obtain l where l: "foldl sha_round (block_words False block, s) [0..<80] =
      (l, foldl (fips_round (fips_words block)) s [0..<80])" "length l = 16"
    using sha_rounds_fips [OF turned_words [OF assms], of s 80] by (auto simp: holds_def)
  obtain a b c d e where f: "foldl (fips_round (fips_words block)) s [0..<80] = (a, b, c, d, e)"
    by (cases "foldl (fips_round (fips_words block)) s [0..<80]")
  obtain s0 s1 s2 s3 s4 where s: "s = (s0, s1, s2, s3, s4)" by (cases s)
  show ?thesis
    using l f length_concat_mem32 [of False l]
    by (simp only: SHA1_Transform_def fips_block_def s prod.case) simp
qed


subsection \<open>Updates absorb the message\<close>

definition rest64 :: "byte list \<Rightarrow> byte list" where
  "rest64 m = drop (64 * (length m div 64)) m"

lemma length_rest64: "length (rest64 m) = length m mod 64"
  by (simp add: rest64_def minus_mult_div_eq_mod)

lemma rest64_short: "length m < 64 \<Longrightarrow> rest64 m = m"
  by (simp add: rest64_def)

lemma rest64_block: "length b = 64 \<Longrightarrow> rest64 (b @ m) = rest64 m"
proof -
  assume b: "length b = 64"
  have "(64 + length m) div 64 = Suc (length m div 64)" by simp
  then have "64 * ((64 + length m) div 64) = 64 + 64 * (length m div 64)" by simp
  then show ?thesis using b by (simp only: rest64_def length_append drop_append) simp
qed

lemma fips_blocks_short: "length m < 64 \<Longrightarrow> fips_blocks H m = H"
  by (simp add: fips_blocks.simps)

lemma fips_blocks_block: "length b = 64 \<Longrightarrow> fips_blocks H (b @ m) = fips_blocks (fips_block H b) m"
  by (simp add: fips_blocks.simps [of H "b @ m"])

lemma split_block: "64 \<le> length m \<Longrightarrow> \<exists>b m'. m = b @ m' \<and> length b = 64 \<and> length m' < length m"
  by (rule exI [of _ "take 64 m"], rule exI [of _ "drop 64 m"]) simp

lemma blocks_append:
  "fips_blocks H (x @ y) = fips_blocks (fips_blocks H x) (rest64 x @ y) \<and> rest64 (x @ y) = rest64 (rest64 x @ y)"
proof (induction "length x" arbitrary: x H rule: less_induct)
  case less
  show ?case
  proof (cases "length x < 64")
    case True
    then show ?thesis by (simp add: fips_blocks_short rest64_short)
  next
    case False
    then obtain b x' where "x = b @ x'" "length b = 64" "length x' < length x" using split_block [of x] by auto
    then show ?thesis using less [of x' "fips_block H b"] by (simp add: fips_blocks_block rest64_block)
  qed
qed

lemma whole_blocks_fips:
  "i \<le> length data \<Longrightarrow> \<exists>data' i'. whole_blocks False s data i = (fips_blocks s (drop i data), data', i') \<and>
     length data' = length data \<and> drop i' data' = rest64 (drop i data)"
proof (induction "length data - i" arbitrary: s data i rule: less_induct)
  case less
  show ?case
  proof (cases "i + 63 < length data")
    case False
    then show ?thesis
      by (simp add: whole_blocks.simps [of False s data i] fips_blocks_short rest64_short)
  next
    case True
    let ?b = "take 64 (drop i data)"
    have b: "length ?b = 64" using True by simp
    obtain b' where t: "SHA1_Transform False s ?b = (fips_block s ?b, b')" "length b' = 64"
      using Transform_fips [OF b] by blast
    let ?data = "take (length data) (store data i b')"
    have d: "length ?data = length data" "drop (i + 64) ?data = drop (i + 64) data"
      using True t(2) by (simp_all add: store_def)
    have h: "length ?data - (i + 64) < length data - i" "i + 64 \<le> length ?data"
      unfolding d(1) using True by linarith+
    obtain data' i' where w: "whole_blocks False (fips_block s ?b) ?data (i + 64) =
        (fips_blocks (fips_block s ?b) (drop (i + 64) data), data', i')"
      "length data' = length data" "drop i' data' = rest64 (drop (i + 64) data)"
      using less.hyps [OF h, of "fips_block s ?b"] unfolding d by blast
    have "drop i data = ?b @ drop (i + 64) data" by (metis append_take_drop_id drop_drop add.commute)
    then have "fips_blocks s (drop i data) = fips_blocks (fips_block s ?b) (drop (i + 64) data)"
      "rest64 (drop i data) = rest64 (drop (i + 64) data)"
      using fips_blocks_block [OF b] rest64_block [OF b] by metis+
    then show ?thesis using True t w
      by (simp add: whole_blocks.simps [of False s data i])
  qed
qed

definition absorbs :: "SHA1_CTX \<Rightarrow> byte list \<Rightarrow> bool" where
  "absorbs ctx m \<longleftrightarrow> sha_state ctx = fips_blocks fips_H0 m \<and> length (sha_buffer ctx) = 64 \<and>
     take (length m mod 64) (sha_buffer ctx) = rest64 m \<and>
     count0 ctx = word_of_nat (8 * length m) \<and> count1 ctx = word_of_nat (8 * length m div 2 ^ 32)"

lemma carry_nat:
  assumes "b < (k :: nat)"
  shows "(a + b) div k = a div k + (if (a + b) mod k < b then 1 else 0)"
proof (cases "a mod k + b < k")
  case True
  have e: "a = k * (a div k) + a mod k" by simp
  have q: "(a + b) div k = a div k"
  proof (rule div_nat_eqI)
    show "k * (a div k) \<le> a + b" using e by linarith
    show "a + b < k * Suc (a div k)" unfolding mult_Suc_right using e True by linarith
  qed
  have "(a + b) mod k = a + b - k * ((a + b) div k)" by (simp only: minus_mult_div_eq_mod)
  then have "(a + b) mod k = a mod k + b" using e unfolding q by linarith
  then show ?thesis using q by simp
next
  case False
  have r: "a mod k < k" using assms by simp
  have e: "a = k * (a div k) + a mod k" by simp
  have q: "(a + b) div k = Suc (a div k)"
  proof (rule div_nat_eqI)
    show "k * Suc (a div k) \<le> a + b" unfolding mult_Suc_right using e False by linarith
    show "a + b < k * Suc (Suc (a div k))" unfolding mult_Suc_right using e r assms by linarith
  qed
  have "(a + b) mod k = a + b - k * ((a + b) div k)" by (simp only: minus_mult_div_eq_mod)
  then have "(a + b) mod k = a mod k + b - k" using e unfolding q mult_Suc_right by linarith
  moreover have "a mod k + b - k < b" using r False by linarith
  ultimately show ?thesis using q by simp
qed

lemma ucast_u64: "unat (ucast (w :: u32) :: u64) = unat w"
proof -
  have "unat w < 2 ^ 32" using unsigned_less [of w] by (simp del: unsigned_less)
  then have "unat w < 2 ^ 64" by simp
  then show ?thesis by (simp add: unsigned_ucast_eq take_bit_nat_eq_self)
qed

lemma fill_word: "fill (word_of_nat (8 * n)) = n mod 64"
proof -
  have "unat (word_of_nat (8 * n) :: u32) = 8 * n mod (8 * 2 ^ 29)" by (simp only: unat_of_nat) simp
  then have "unat (word_of_nat (8 * n) :: u32) = 8 * (n mod 2 ^ 29)" by (simp only: mult_mod_right)
  moreover have "(n mod 2 ^ 29) mod 64 = n mod 64"
    by (rule mod_mod_cancel) (simp add: dvd_power_le)
  ultimately show ?thesis by (simp add: fill_def)
qed

lemma counts:
  assumes "n < 2 ^ 29" "c0 = word_of_nat (8 * m)" "c1 = word_of_nat (8 * m div 2 ^ 32)"
  shows "c0 + ucast (push_bit 3 (word_of_nat n :: u64)) = (word_of_nat (8 * (m + n)) :: u32)"
    "c1 + (if (ucast (c0 + ucast (push_bit 3 (word_of_nat n :: u64))) :: u64) < push_bit 3 (word_of_nat n) then 1 else 0)
        + ucast (drop_bit 29 (word_of_nat n :: u64)) = (word_of_nat (8 * (m + n) div 2 ^ 32) :: u32)"
proof -
  have n: "unat (push_bit 3 (word_of_nat n :: u64)) = 8 * n"
    using assms(1) by (simp only: unsigned_push_bit_eq) (simp add: push_bit_eq_mult unat_of_nat take_bit_nat_eq_self)
  have u: "ucast (push_bit 3 (word_of_nat n :: u64)) = (word_of_nat (8 * n) :: u32)"
    by (metis n of_nat_unat)
  show c: "c0 + ucast (push_bit 3 (word_of_nat n :: u64)) = (word_of_nat (8 * (m + n)) :: u32)"
    unfolding u assms(2) by simp
  have d: "drop_bit 29 (word_of_nat n :: u64) = 0"
  proof -
    have "unat (drop_bit 29 (word_of_nat n :: u64)) = 0"
      using assms(1) by (simp only: unat_drop_bit_eq) (simp add: drop_bit_eq_div unat_of_nat)
    then show ?thesis by (simp only: unat_0_iff)
  qed
  have l: "((ucast (word_of_nat (8 * (m + n)) :: u32) :: u64) < push_bit 3 (word_of_nat n)) =
      ((8 * m + 8 * n) mod 2 ^ 32 < 8 * n)"
  proof -
    have L: "LENGTH(32) = 32" by simp
    show ?thesis by (simp only: word_less_nat_alt n ucast_u64 unat_of_nat L distrib_left)
  qed
  have v: "(8 * m + 8 * n) div 2 ^ 32 = 8 * m div 2 ^ 32 + (if (8 * m + 8 * n) mod 2 ^ 32 < 8 * n then 1 else 0)"
    by (rule carry_nat) (use assms(1) in simp)
  show "c1 + (if (ucast (c0 + ucast (push_bit 3 (word_of_nat n :: u64))) :: u64) < push_bit 3 (word_of_nat n) then 1 else 0)
        + ucast (drop_bit 29 (word_of_nat n :: u64)) = (word_of_nat (8 * (m + n) div 2 ^ 32) :: u32)"
    unfolding c d assms(3) l
    unfolding distrib_left v
    by (cases "(8 * m + 8 * n) mod 2 ^ 32 < 8 * n")
       (simp_all only: if_True if_False of_nat_add of_nat_1 of_nat_0 ucast_0 add_0_right)
qed


lemma Update_absorbs:
  assumes "absorbs ctx m" "length data < 2 ^ 29"
  shows "absorbs (fst (SHA1_Update False ctx data)) (m @ data)"
proof -
  let ?j = "length m mod 64" and ?len = "length data" and ?r = "rest64 m"
  note a = assms(1) [unfolded absorbs_def]
  have j: "unat (drop_bit 3 (count0 ctx) AND 63) = ?j"
  proof -
    have "unat (drop_bit 3 (count0 ctx) AND mask 6) = fill (count0 ctx)"
      by (simp only: unat_and_mask unat_drop_bit_eq fill_def) (simp add: drop_bit_eq_div)
    also have "\<dots> = ?j" using a fill_word [of "length m"] by simp
    finally show ?thesis by (simp add: mask_numeral)
  qed
  note c = counts [OF assms(2), of "count0 ctx" "length m" "count1 ctx"]
  let ?ctx' = "fst (SHA1_Update False ctx data)"
  have cnt: "count0 ?ctx' = word_of_nat (8 * length (m @ data))" "count1 ?ctx' = word_of_nat (8 * length (m @ data) div 2 ^ 32)"
    using a c by (auto simp: SHA1_Update_def Let_def split: prod.splits)
  note app = blocks_append [of fips_H0 m data]
  have lr: "length ?r = ?j" by (rule length_rest64)
  have j64: "?j < 64" by simp
  show ?thesis
  proof (cases "?j + ?len > 63")
    case False
    then have s: "length (?r @ data) < 64" using lr by simp
    have "sha_state ?ctx' = sha_state ctx" "sha_buffer ?ctx' = store (sha_buffer ctx) ?j data"
      using False by (simp_all add: SHA1_Update_def Let_def j)
    moreover have "rest64 (m @ data) = ?r @ data" "fips_blocks fips_H0 (m @ data) = fips_blocks fips_H0 m"
      using app fips_blocks_short [OF s] rest64_short [OF s] by auto
    moreover have "length (m @ data) mod 64 = ?j + ?len"
      using length_rest64 [of "m @ data"] calculation(3) lr by simp
    moreover have "length (store (sha_buffer ctx) ?j data) = 64" "take (?j + ?len) (store (sha_buffer ctx) ?j data) = ?r @ data"
      using a False lr by (simp_all add: store_def)
    ultimately show ?thesis using a cnt by (simp add: absorbs_def)
  next
    case True
    let ?i = "64 - ?j" and ?b = "?r @ take (64 - ?j) data"
    have b: "length ?b = 64" using lr True j64 by simp
    have st: "store (sha_buffer ctx) ?j (take ?i data) = ?b"
      using a True j64 by (simp add: store_def)
    obtain b' where t: "SHA1_Transform False (sha_state ctx) ?b = (fips_block (sha_state ctx) ?b, b')" "length b' = 64"
      using Transform_fips [OF b] by blast
    have i: "?i \<le> length data" using True by linarith
    obtain data' i' where w: "whole_blocks False (fips_block (sha_state ctx) ?b) data ?i =
        (fips_blocks (fips_block (sha_state ctx) ?b) (drop ?i data), data', i')"
      "length data' = ?len" "drop i' data' = rest64 (drop ?i data)"
      using whole_blocks_fips [OF i, of "fips_block (sha_state ctx) ?b"] by blast
    have s: "sha_state ?ctx' = fips_blocks (fips_block (sha_state ctx) ?b) (drop ?i data)"
      "sha_buffer ?ctx' = store b' 0 (rest64 (drop ?i data))"
      using True t(1) w(1,3) by (simp_all add: SHA1_Update_def Let_def j st)
    have "?r @ data = ?b @ drop ?i data" by simp
    then have e: "fips_blocks fips_H0 (m @ data) = fips_blocks (fips_block (sha_state ctx) ?b) (drop ?i data)"
      "rest64 (m @ data) = rest64 (drop ?i data)"
      using app a fips_blocks_block [OF b] rest64_block [OF b] by metis+
    have "length (rest64 (drop ?i data)) = length (m @ data) mod 64"
      using length_rest64 [of "m @ data"] e(2) by simp
    moreover have "length (m @ data) mod 64 < 64" by simp
    ultimately have "length (store b' 0 (rest64 (drop ?i data))) = 64"
      "take (length (m @ data) mod 64) (store b' 0 (rest64 (drop ?i data))) = rest64 (drop ?i data)"
      using t(2) by (simp_all add: store_def)
    then show ?thesis using s e cnt by (simp add: absorbs_def)
  qed
qed


text \<open>Updates one after the other, as the caller makes them.\<close>

primrec SHA1_Updates :: "bool \<Rightarrow> SHA1_CTX \<Rightarrow> byte list list \<Rightarrow> SHA1_CTX" where
  "SHA1_Updates big ctx [] = ctx"
| "SHA1_Updates big ctx (c # cs) = SHA1_Updates big (fst (SHA1_Update big ctx c)) cs"

lemma Updates_absorb:
  "absorbs ctx m \<Longrightarrow> list_all (\<lambda>c. length c < 2 ^ 29) cs \<Longrightarrow>
   absorbs (SHA1_Updates False ctx cs) (m @ concat cs)"
proof (induction cs arbitrary: ctx m)
  case (Cons c cs)
  then show ?case using Cons.IH [OF Update_absorbs [of ctx m c]] by simp
qed simp

lemma Init_absorbs: "length garbage = 64 \<Longrightarrow> absorbs (SHA1_Init garbage) []"
  by (simp add: absorbs_def SHA1_Init_def fips_blocks_short rest64_def fips_H0_def)

definition zeros :: "nat \<Rightarrow> nat" where
  "zeros n = (120 - n mod 64) mod 64"

lemma zeros_pad: "(120 - (n + 1) mod 64) mod 64 = (119 - n mod 64) mod (64 :: nat)"
proof (cases "n mod 64 = 63")
  case True
  then show ?thesis by (simp add: mod_Suc)
next
  case False
  then show ?thesis by (simp add: mod_Suc)
qed

lemma pad_loop_absorbs:
  "absorbs ctx m \<Longrightarrow> absorbs (pad_loop False ctx) (m @ replicate (zeros (length m)) 0)"
proof (induction "zeros (length m)" arbitrary: ctx m rule: less_induct)
  case less
  have f: "fill (count0 ctx) = length m mod 64"
    using less.prems fill_word [of "length m"] by (simp add: absorbs_def)
  show ?case
  proof (cases "length m mod 64 = 56")
    case True
    then have "pad_loop False ctx = ctx" using f by (simp add: pad_loop.simps [of False ctx] pad_test)
    then show ?thesis using less.prems True by (simp add: zeros_def)
  next
    case False
    let ?k = "length m mod 64"
    have p: "pad_loop False ctx = pad_loop False (fst (SHA1_Update False ctx [0]))"
      using f False by (subst pad_loop.simps) (simp add: pad_test)
    have a: "absorbs (fst (SHA1_Update False ctx [0])) (m @ [0])"
      using Update_absorbs [OF less.prems, of "[0]"] by simp
    have k: "length (m @ [0 :: byte]) mod 64 = (?k + 1) mod 64" by (simp add: mod_simps)
    have lt: "zeros (length (m @ [0 :: byte])) < zeros (length m)"
      using pad_measure [of ?k] False unfolding zeros_def k by simp
    have "zeros (length m) = Suc (zeros (length (m @ [0 :: byte])))"
      unfolding zeros_def k using zeros_step [of ?k] False by simp
    then have "(m @ [0]) @ replicate (zeros (length (m @ [0 :: byte]))) 0 = m @ replicate (zeros (length m)) 0"
      by (simp add: replicate_app_Cons_same)
    then show ?thesis using less.hyps [OF lt a] p by simp
  qed
qed

lemma halves_of_count:
  "(word_of_nat k :: u32) = ucast (word_of_nat k :: u64)"
  "(word_of_nat (k div 2 ^ 32) :: u32) = ucast (drop_bit 32 (word_of_nat k :: u64))"
proof -
  show "(word_of_nat k :: u32) = ucast (word_of_nat k :: u64)"
    by (rule bit_word_eqI) (simp add: bit_simps)
  show "(word_of_nat (k div 2 ^ 32) :: u32) = ucast (drop_bit 32 (word_of_nat k :: u64))"
    unfolding drop_bit_eq_div [of 32 k, symmetric] by (rule bit_word_eqI) (auto simp: bit_simps)
qed

lemma upt_8_20: "[0..<8] = [0, 1, 2, 3, 4, 5, 6, 7]"
  "[0..<20] = [0, 1, 2, 3, 4, 5, 6, 7, 8, 9, 10, 11, 12, 13, 14, 15, 16, 17, 18, 19]"
  by code_simp+

lemma byte_of_word: "ucast ((w :: u32) AND 255) = (ucast w :: byte)"
proof -
  have m: "(255 :: u32) = mask 8" by (simp add: mask_numeral)
  show ?thesis unfolding m by (rule bit_word_eqI) (auto simp: bit_simps)
qed

lemma finalcount_BE:
  assumes "count0 ctx = word_of_nat (8 * n)" "count1 ctx = word_of_nat (8 * n div 2 ^ 32)"
  shows "finalcount ctx = setBE64 [0, 0, 0, 0, 0, 0, 0, 0] (word_of_nat (8 * n))"
proof -
  define v where "v = (word_of_nat (8 * n) :: u64)"
  have c: "count0 ctx = ucast v" "count1 ctx = ucast (drop_bit 32 v)"
    unfolding v_def assms by (rule halves_of_count)+
  have "setBE64 [0, 0, 0, 0, 0, 0, 0, 0] v = finalcount ctx"
    by (simp add: finalcount_def upt_8_20 byte_of_word c byte_order_simps, intro conjI; rule bit_word_eqI; simp add: bit_simps)
  then show ?thesis by (simp add: v_def)
qed

lemma digest_BE: "map (\<lambda>i. ucast (drop_bit ((3 - (i mod 4)) * 8) (state_list s ! (i div 4)) AND 255)) [0..<20]
    = concat (map (setBE32 [0, 0, 0, 0]) (state_list s))"
  by (cases s) (simp add: state_list_def upt_8_20 byte_of_word byte_order_simps)

lemma SHA1_digest_fips:
  assumes "list_all (\<lambda>c. length c < 2 ^ 29) chunks" "length garbage = 64"
  shows "snd (SHA1_Final False (SHA1_Updates False (SHA1_Init garbage) chunks)) = fips_sha1 (concat chunks)"
proof -
  let ?m = "concat chunks"
  define ctx where "ctx = SHA1_Updates False (SHA1_Init garbage) chunks"
  have a: "absorbs ctx ?m"
    using Updates_absorb [OF Init_absorbs [OF assms(2)] assms(1)] by (simp add: ctx_def)
  have a1: "absorbs (fst (SHA1_Update False ctx [0x80])) (?m @ [0x80])"
    by (rule Update_absorbs [OF a]) simp
  have z: "zeros (length (?m @ [0x80 :: byte])) = (119 - length ?m mod 64) mod 64"
    using zeros_pad [of "length ?m"] by (simp add: zeros_def)
  have a2: "absorbs (pad_loop False (fst (SHA1_Update False ctx [0x80])))
      ((?m @ [0x80]) @ replicate ((119 - length ?m mod 64) mod 64) 0)"
    using pad_loop_absorbs [OF a1] unfolding z .
  have f: "finalcount ctx = setBE64 [0, 0, 0, 0, 0, 0, 0, 0] (word_of_nat (8 * length ?m))"
    using a finalcount_BE unfolding absorbs_def by blast
  have "absorbs (fst (SHA1_Update False (pad_loop False (fst (SHA1_Update False ctx [0x80]))) (finalcount ctx)))
      (((?m @ [0x80]) @ replicate ((119 - length ?m mod 64) mod 64) 0) @ finalcount ctx)"
    by (rule Update_absorbs [OF a2]) (simp add: finalcount_def)
  then have "sha_state (fst (SHA1_Update False (pad_loop False (fst (SHA1_Update False ctx [0x80]))) (finalcount ctx)))
      = fips_blocks fips_H0 (fips_pad ?m)"
    by (simp add: absorbs_def fips_pad_def f)
  then show ?thesis
    by (simp add: SHA1_Final_def Let_def fips_sha1_def digest_BE flip: ctx_def)
qed

text \<open>
  C1: On a little endian host the digest of a message fed in any number of updates (each below
  2^29 bytes), computed with the schedule expanded in place in 16 words, the update buffer and
  the padding loop, is the SHA-1 of FIPS 180-1 of the whole message.
\<close>

theorem SHA1_is_FIPS_180:
  assumes "list_all (\<lambda>c. length c < 2 ^ 29) chunks" "length garbage = 64"
  shows "snd (SHA1_Final False (SHA1_Updates False (SHA1_Init garbage) chunks)) = fips_sha1 (concat chunks)"
  using assms by (rule SHA1_digest_fips)

theorem SHA1_is_FIPS_180_witness:
  "snd (SHA1_Final False (SHA1_Updates False (SHA1_Init (replicate 64 7)) [[0x61], [0x62, 0x63]])) = fips_sha1 [0x61, 0x62, 0x63]"
  using SHA1_is_FIPS_180 [of "[[0x61], [0x62, 0x63]]" "replicate 64 7"] by simp

end
