(* ===== verification/Base64.thy ===== *)
theory Base64
  imports Byte_Order
begin

text \<open>
  The streaming Base64 codec of \<open>base/base64.h\<close> and \<open>base/src/base64.cpp\<close>. The coders jump into their
  loop at the step kept in the state, so a block is a run of single byte steps; characters are
  bytes. The step counter and the line length are \<open>int\<close>s (the counter is not bounded here).
\<close>

subsection \<open>Encoder\<close>

datatype encodestep = step_A | step_B | step_C

record encodestate =
  e_step :: encodestep
  e_result :: byte
  e_stepcount :: int
  e_linelength :: int
  e_nullptrlterminate :: bool

definition LINE_LENGTH :: int where
  "LINE_LENGTH = 72"

definition init_encodestate :: encodestate where
  "init_encodestate = \<lparr>e_step = step_A, e_result = 0, e_stepcount = 0,
     e_linelength = LINE_LENGTH, e_nullptrlterminate = False\<rparr>"

definition encoding :: "byte list" where
  "encoding = map (\<lambda>c. of_nat (of_char c)) ''ABCDEFGHIJKLMNOPQRSTUVWXYZabcdefghijklmnopqrstuvwxyz0123456789+/''"

definition encode_value :: "byte \<Rightarrow> byte" where
  "encode_value value_in = (if sint value_in > 63 then 0x3D else encoding ! unat value_in)"

text \<open>
  One byte in the state it finds: what \<open>encode_block\<close> does from one \<open>case\<close> label to the next. \<open>linelength / 4\<close>
  truncates towards zero.
\<close>

definition encode_step :: "encodestate \<Rightarrow> byte \<Rightarrow> encodestate \<times> byte list" where
  "encode_step st fragment =
     (case e_step st of
        step_A \<Rightarrow>
          (let result = drop_bit 2 (fragment AND 0xFC)
           in (st\<lparr>e_result := push_bit 4 (fragment AND 0x03), e_step := step_B\<rparr>, [encode_value result]))
      | step_B \<Rightarrow>
          (let result = e_result st OR drop_bit 4 (fragment AND 0xF0)
           in (st\<lparr>e_result := push_bit 2 (fragment AND 0x0F), e_step := step_C\<rparr>, [encode_value result]))
      | step_C \<Rightarrow>
          (let result = e_result st OR drop_bit 6 (fragment AND 0xC0);
               result' = fragment AND 0x3F;
               st' = st\<lparr>e_result := result', e_step := step_A\<rparr>;
               code = [encode_value result, encode_value result']
           in if e_linelength st \<noteq> 0
              then (let st'' = st'\<lparr>e_stepcount := e_stepcount st + 1\<rparr>
                    in if e_stepcount st'' = e_linelength st sdiv 4
                       then (st''\<lparr>e_stepcount := 0\<rparr>, code @ [0x0A]) else (st'', code))
              else (st', code)))"

primrec encode_block :: "encodestate \<Rightarrow> byte list \<Rightarrow> encodestate \<times> byte list" where
  "encode_block st [] = (st, [])"
| "encode_block st (b # bs) =
     (case encode_step st b of (st', out) \<Rightarrow> (case encode_block st' bs of (st'', out') \<Rightarrow> (st'', out @ out')))"

definition encode_blockend :: "encodestate \<Rightarrow> byte list" where
  "encode_blockend st =
     (case e_step st of
        step_B \<Rightarrow> [encode_value (e_result st), 0x3D, 0x3D]
      | step_C \<Rightarrow> [encode_value (e_result st), 0x3D]
      | step_A \<Rightarrow> []) @ (if e_nullptrlterminate st then [0x0A] else [])"

text \<open>
  \<open>encode(bytes, lineLength)\<close>, and the encoder objects, which reset their whole state at the end. Both parts are
  written to the beginning of a buffer of twice the length of the input; \<open>encode_text\<close> is what the parts are.
\<close>

definition encode_text :: "byte list \<Rightarrow> int \<Rightarrow> byte list" where
  "encode_text bytes lineLength =
     (case encode_block (init_encodestate\<lparr>e_linelength := lineLength\<rparr>) bytes of
        (st, out) \<Rightarrow> out @ encode_blockend st)"

definition encode_into :: "encodestate \<Rightarrow> byte list \<Rightarrow> byte list res" where
  "encode_into st bytes =
     (case encode_block st bytes of (st', out) \<Rightarrow>
        if length out > 2 * length bytes \<or> length (encode_blockend st') > 2 * length bytes
        then Inl Undefined_behaviour else Inr (out @ encode_blockend st'))"

definition encode :: "byte list \<Rightarrow> int \<Rightarrow> byte list res" where
  "encode bytes lineLength = encode_into (init_encodestate\<lparr>e_linelength := lineLength\<rparr>) bytes"

definition Encoder_encode :: "encodestate \<Rightarrow> byte list \<Rightarrow> (encodestate \<times> byte list) res" where
  "Encoder_encode st inp = res_bind (encode_into st inp) (\<lambda>out. Inr (init_encodestate, out))"

definition setLineLength :: "int \<Rightarrow> encodestate \<Rightarrow> encodestate" where
  "setLineLength lineLength st = st\<lparr>e_linelength := lineLength\<rparr>"

text \<open>
  The stream loop: \<open>N\<close> bytes are read at a time; a short read leaves the stream not \<open>good\<close>. The parameter
  \<open>feed\<close> is the block coder. From \<open>N = 2\<close> on its buffers of \<open>2 * N\<close> bytes are large enough, in whatever state the
  coder is (\<open>encode_block_room\<close>).
\<close>

function stream_loop :: "('s \<Rightarrow> 'a list \<Rightarrow> 's \<times> 'b list) \<Rightarrow> nat \<Rightarrow> 's \<Rightarrow> 'a list \<Rightarrow> 's \<times> 'b list" where
  "stream_loop feed N st istrm =
     (let readbuf = take N istrm; nread = length readbuf in
      case feed st readbuf of (st', out) \<Rightarrow>
        (if \<not> nread < N \<and> nread > 0
         then (case stream_loop feed N st' (drop N istrm) of (st'', out') \<Rightarrow> (st'', out @ out'))
         else (st', out)))"
  by pat_completeness auto
termination by (relation "measure (\<lambda>(feed, N, st, istrm). length istrm)") auto

declare stream_loop.simps [simp del]

definition Encoder_stream :: "nat \<Rightarrow> encodestate \<Rightarrow> byte list \<Rightarrow> encodestate \<times> byte list" where
  "Encoder_stream N st istrm =
     (case stream_loop encode_block N st istrm of (st', out) \<Rightarrow> (init_encodestate, out @ encode_blockend st'))"

subsection \<open>Decoder\<close>

datatype decodestep = step_a | step_b | step_c | step_d

record decodestate =
  d_step :: decodestep
  d_plainchar :: byte

definition decoding :: "int list" where
  "decoding =
     [62, -1, -1, -1, 63, 52, 53, 54, 55, 56, 57, 58, 59, 60, 61, -1,
      -1, -1, -2, -1, -1, -1, 0,  1,  2,  3,  4,  5,  6,  7,  8,  9,
      10, 11, 12, 13, 14, 15, 16, 17, 18, 19, 20, 21, 22, 23, 24, 25,
      -1, -1, -1, -1, -1, -1, 26, 27, 28, 29, 30, 31, 32, 33, 34, 35,
      36, 37, 38, 39, 40, 41, 42, 43, 44, 45, 46, 47, 48, 49, 50, 51]"

text \<open>\<open>value_in -= 43\<close> wraps around in \<open>char\<close>.\<close>

definition decode_value :: "byte \<Rightarrow> int" where
  "decode_value value_in =
     (let v = sint (value_in - 43) in if v < 0 \<or> v \<ge> 80 then -1 else decoding ! nat v)"

definition init_decodestate :: decodestate where
  "init_decodestate = \<lparr>d_step = step_a, d_plainchar = 0\<rparr>"

text \<open>
  One character: one that has no value is skipped. After \<open>step_d\<close> the pending byte is the next byte of the output
  buffer, whose content \<open>step_a\<close> overwrites before it is read; it is 0 here.
\<close>

definition decode_step :: "decodestate \<Rightarrow> byte \<Rightarrow> decodestate \<times> byte list" where
  "decode_step st c =
     (let v = decode_value c; fragment = (word_of_int v :: byte) in
      if v < 0 then (st, [])
      else case d_step st of
          step_a \<Rightarrow> (\<lparr>d_step = step_b, d_plainchar = push_bit 2 (fragment AND 0x3F)\<rparr>, [])
        | step_b \<Rightarrow> (\<lparr>d_step = step_c, d_plainchar = push_bit 4 (fragment AND 0x0F)\<rparr>,
                    [d_plainchar st OR drop_bit 4 (fragment AND 0x30)])
        | step_c \<Rightarrow> (\<lparr>d_step = step_d, d_plainchar = push_bit 6 (fragment AND 0x03)\<rparr>,
                    [d_plainchar st OR drop_bit 2 (fragment AND 0x3C)])
        | step_d \<Rightarrow> (\<lparr>d_step = step_a, d_plainchar = 0\<rparr>,
                    [d_plainchar st OR (fragment AND 0x3F)]))"

primrec decode_block :: "decodestate \<Rightarrow> byte list \<Rightarrow> decodestate \<times> byte list" where
  "decode_block st [] = (st, [])"
| "decode_block st (c # cs) =
     (case decode_step st c of (st', out) \<Rightarrow> (case decode_block st' cs of (st'', out') \<Rightarrow> (st'', out @ out')))"

text \<open>
  The coder writes the byte it has begun behind the ones it has finished, even before it reads the first character.
\<close>

definition decode_bytes :: "byte list \<Rightarrow> byte list" where
  "decode_bytes bytes = snd (decode_block init_decodestate bytes)"

definition decode :: "byte list \<Rightarrow> byte list res" where
  "decode bytes =
     (if length (decode_bytes bytes) + 1 > 2 * length bytes then Inl Undefined_behaviour else Inr (decode_bytes bytes))"

definition Decoder_stream :: "nat \<Rightarrow> decodestate \<Rightarrow> byte list \<Rightarrow> decodestate \<times> byte list" where
  "Decoder_stream N st istrm =
     (case stream_loop decode_block N st istrm of (st', out) \<Rightarrow> (init_decodestate, out))"

subsection \<open>Blocks may be cut anywhere\<close>

interpretation enc64: chunked encode_block
proof
  fix st xs ys
  show "encode_block st (xs @ ys) =
      (case encode_block st xs of (s', out) \<Rightarrow> (case encode_block s' ys of (s'', out') \<Rightarrow> (s'', out @ out')))"
    by (induction xs arbitrary: st) (auto split: prod.splits)
qed simp

interpretation dec64: chunked decode_block
proof
  fix st xs ys
  show "decode_block st (xs @ ys) =
      (case decode_block st xs of (s', out) \<Rightarrow> (case decode_block s' ys of (s'', out') \<Rightarrow> (s'', out @ out')))"
    by (induction xs arbitrary: st) (auto split: prod.splits)
qed simp

context chunked
begin

lemma stream_loop_feed: "0 < N \<Longrightarrow> stream_loop feed N s xs = feed s xs"
proof (induction "length xs" arbitrary: s xs rule: less_induct)
  case less
  show ?case
  proof (cases "length xs < N")
    case True
    then show ?thesis by (simp add: stream_loop.simps [of feed N s xs] Let_def split: prod.splits)
  next
    case False
    then have "length (drop N xs) < length xs" using less.prems by simp
    then have "stream_loop feed N s' (drop N xs) = feed s' (drop N xs)" for s'
      using less by blast
    moreover have "xs \<noteq> []" using False less.prems by auto
    ultimately show ?thesis
      using False less.prems feed_append [of s "take N xs" "drop N xs"]
      by (simp add: stream_loop.simps [of feed N s xs] Let_def split: prod.splits)
  qed
qed

end

subsection \<open>Round trip\<close>

lemma encoding_list: "encoding = [65, 66, 67, 68, 69, 70, 71, 72, 73, 74, 75, 76, 77, 78, 79, 80, 81, 82, 83, 84, 85, 86, 87, 88, 89, 90,
  97, 98, 99, 100, 101, 102, 103, 104, 105, 106, 107, 108, 109, 110, 111, 112, 113, 114, 115, 116, 117, 118, 119, 120, 121, 122,
  48, 49, 50, 51, 52, 53, 54, 55, 56, 57, 43, 47]"
  by (simp add: encoding_def)

lemma decode_encoding: "map decode_value encoding = map int [0..<64]"
proof -
  have "map int [0..<64] = [0, 1, 2, 3, 4, 5, 6, 7, 8, 9, 10, 11, 12, 13, 14, 15, 16, 17, 18, 19,
      20, 21, 22, 23, 24, 25, 26, 27, 28, 29, 30, 31, 32, 33, 34, 35, 36, 37, 38, 39, 40, 41, 42, 43, 44, 45, 46, 47, 48,
      49, 50, 51, 52, 53, 54, 55, 56, 57, 58, 59, 60, 61, 62, 63]"
    by code_simp
  then show ?thesis by (simp add: encoding_list decode_value_def decoding_def)
qed

lemma decode_nth: "i < 64 \<Longrightarrow> decode_value (encoding ! i) = int i"
proof -
  assume i: "i < 64"
  have "length encoding = 64" by (simp add: encoding_list)
  then have "decode_value (encoding ! i) = map decode_value encoding ! i" using i by simp
  then show ?thesis using i by (simp add: decode_encoding)
qed

lemma sextets: "(0x03 :: byte) = mask 2" "(0x0F :: byte) = mask 4" "(0x3F :: byte) = mask 6"
  "(0xFC :: byte) = NOT (mask 2)" "(0xF0 :: byte) = NOT (mask 4)" "(0xC0 :: byte) = NOT (mask 6)"
  "(0x30 :: byte) = push_bit 4 (mask 2)" "(0x3C :: byte) = push_bit 2 (mask 4)"
  by (simp_all add: mask_numeral)

lemma Suc_Suc_diff: "2 \<le> n \<Longrightarrow> Suc (Suc (n - 2)) = n"
  by simp

lemma sextet_A:
  "drop_bit 2 (f AND 0xFC) AND 0x3F = drop_bit 2 (f AND (0xFC :: byte))"
  "push_bit 2 (drop_bit 2 (f AND 0xFC)) = f AND (0xFC :: byte)"
  unfolding sextets by (rule bit_word_eqI, auto simp: bit_simps Suc_Suc_diff not_less)+

lemma sextet_B:
  "(push_bit 4 (f AND 0x03) OR drop_bit 4 (b AND 0xF0)) AND 0x3F = push_bit 4 (f AND 0x03) OR drop_bit 4 (b AND (0xF0 :: byte))"
  "(f AND 0xFC) OR drop_bit 4 ((push_bit 4 (f AND 0x03) OR drop_bit 4 (b AND 0xF0)) AND 0x30) = (f :: byte)"
  "push_bit 4 ((push_bit 4 (f AND 0x03) OR drop_bit 4 (b AND 0xF0)) AND 0x0F) = b AND (0xF0 :: byte)"
  unfolding sextets by (rule bit_word_eqI, auto simp: bit_simps)+

lemma sextet_C:
  "(push_bit 2 (f AND 0x0F) OR drop_bit 6 (b AND 0xC0)) AND 0x3F = push_bit 2 (f AND 0x0F) OR drop_bit 6 (b AND (0xC0 :: byte))"
  "(f AND 0xF0) OR drop_bit 2 ((push_bit 2 (f AND 0x0F) OR drop_bit 6 (b AND 0xC0)) AND 0x3C) = (f :: byte)"
  "push_bit 6 ((push_bit 2 (f AND 0x0F) OR drop_bit 6 (b AND 0xC0)) AND 0x03) OR (b AND 0x3F) = (b :: byte)"
  "(b AND 0x3F) AND 0x3F = b AND (0x3F :: byte)"
  unfolding sextets by (rule bit_word_eqI, auto simp: bit_simps)+

lemma dec_enc_value: "v AND 0x3F = v \<Longrightarrow> decode_value (encode_value v) = uint v"
proof -
  assume v: "v AND 0x3F = v"
  have "unat (v AND mask 6) < 2 ^ 6" by (simp only: unat_and_mask) simp
  then have u: "unat v < 64" using v by (simp add: mask_numeral)
  then have "uint v < 64" by (metis of_nat_less_iff of_nat_numeral uint_nat)
  then have "sint v \<le> 63"
    using signed_take_bit_int_eq_self [of 7 "uint v"] uint_ge_0 [of v] by (simp add: sint_uint)
  then show ?thesis using u by (simp add: encode_value_def decode_nth)
qed

lemma padding_values: "decode_value 0x3D < 0" "decode_value 0x0A < 0"
  by code_simp+

lemma decode_step_value: "v AND 0x3F = v \<Longrightarrow> decode_step st (encode_value v) =
    (case d_step st of
          step_a \<Rightarrow> (\<lparr>d_step = step_b, d_plainchar = push_bit 2 v\<rparr>, [])
        | step_b \<Rightarrow> (\<lparr>d_step = step_c, d_plainchar = push_bit 4 (v AND 0x0F)\<rparr>,
                    [d_plainchar st OR drop_bit 4 (v AND 0x30)])
        | step_c \<Rightarrow> (\<lparr>d_step = step_d, d_plainchar = push_bit 6 (v AND 0x03)\<rparr>,
                    [d_plainchar st OR drop_bit 2 (v AND 0x3C)])
        | step_d \<Rightarrow> (\<lparr>d_step = step_a, d_plainchar = 0\<rparr>,
                    [d_plainchar st OR v]))"
  by (simp add: decode_step_def dec_enc_value Let_def split: decodestep.splits)

lemma decode_step_padding: "decode_step st 0x3D = (st, [])" "decode_step st 0x0A = (st, [])"
  using padding_values by (simp_all add: decode_step_def Let_def)

text \<open>What the two states say of the byte that is encoded in part: its upper bits are with the decoder, its lower bits with the encoder.\<close>

fun in_step :: "encodestate \<Rightarrow> decodestate \<Rightarrow> byte list \<Rightarrow> bool" where
  "in_step st ds p =
     (case e_step st of
        step_A \<Rightarrow> d_step ds = step_a \<and> p = []
      | step_B \<Rightarrow> d_step ds = step_b \<and> (\<exists>f. p = [f] \<and> e_result st = push_bit 4 (f AND 0x03) \<and> d_plainchar ds = f AND 0xFC)
      | step_C \<Rightarrow> d_step ds = step_c \<and> (\<exists>f. p = [f] \<and> e_result st = push_bit 2 (f AND 0x0F) \<and> d_plainchar ds = f AND 0xF0))"

declare in_step.simps [simp del]

lemma in_step_encode:
  assumes "in_step st ds p" "encode_step st b = (st', out)"
  shows "\<exists>ds' dec p'. decode_block ds out = (ds', dec) \<and> in_step st' ds' p' \<and> dec @ p' = p @ [b]"
proof (cases "e_step st")
  case step_A
  then show ?thesis using assms
    by (auto simp: in_step.simps encode_step_def decode_step_value sextet_A Let_def simp del: push_bit_and drop_bit_and)
next
  case step_B
  then obtain f where "p = [f]" "e_result st = push_bit 4 (f AND 0x03)" "d_plainchar ds = f AND 0xFC" "d_step ds = step_b"
    using assms(1) by (auto simp: in_step.simps)
  then show ?thesis using assms(2) step_B
    by (auto simp: in_step.simps encode_step_def decode_step_value sextet_B Let_def simp del: push_bit_and drop_bit_and)
next
  case step_C
  then obtain f where "p = [f]" "e_result st = push_bit 2 (f AND 0x0F)" "d_plainchar ds = f AND 0xF0" "d_step ds = step_c"
    using assms(1) by (auto simp: in_step.simps)
  then show ?thesis using assms(2) step_C
    by (auto simp: in_step.simps encode_step_def decode_step_value decode_step_padding sextet_C Let_def simp del: push_bit_and drop_bit_and
        split: if_splits)
qed

lemma in_step_block:
  "in_step st ds p \<Longrightarrow> encode_block st bs = (st', out) \<Longrightarrow>
   \<exists>ds' dec p'. decode_block ds out = (ds', dec) \<and> in_step st' ds' p' \<and> dec @ p' = p @ bs"
proof (induction bs arbitrary: st ds p out)
  case Nil
  then show ?case by simp
next
  case (Cons b bs)
  obtain st1 out1 where e: "encode_step st b = (st1, out1)" by (cases "encode_step st b")
  obtain out2 where o: "encode_block st1 bs = (st', out2)" "out = out1 @ out2"
    using Cons.prems(2) e by (auto split: prod.splits)
  obtain ds1 dec1 p1 where 1: "decode_block ds out1 = (ds1, dec1)" "in_step st1 ds1 p1" "dec1 @ p1 = p @ [b]"
    using in_step_encode [OF Cons.prems(1) e] by blast
  obtain ds2 dec2 p2 where 2: "decode_block ds1 out2 = (ds2, dec2)" "in_step st' ds2 p2" "dec2 @ p2 = p1 @ bs"
    using Cons.IH [OF 1(2) o(1)] by blast
  have "decode_block ds out = (ds2, dec1 @ dec2)"
    using 1(1) 2(1) dec64.feed_append [of ds out1 out2] o(2) by simp
  moreover have "(dec1 @ dec2) @ p2 = p @ b # bs"
    using 1(3) 2(3) by (metis append.assoc append_Cons append_Nil)
  ultimately show ?case using 2(2) by blast
qed

lemma in_step_end: "in_step st ds p \<Longrightarrow> snd (decode_block ds (encode_blockend st)) = p"
proof -
  have z: "(drop_bit 4 (0 AND 0xF0) :: byte) = 0" "(drop_bit 6 (0 AND 0xC0) :: byte) = 0" by simp_all
  note B = sextet_B [where b = 0, unfolded z or.right_neutral]
  note C = sextet_C [where b = 0, unfolded z or.right_neutral]
  assume "in_step st ds p"
  then show ?thesis
    by (auto simp: in_step.simps encode_blockend_def decode_step_value decode_step_padding B C simp del: push_bit_and drop_bit_and
        split: encodestep.splits)
qed

lemma in_step_start: "in_step (init_encodestate\<lparr>e_linelength := l\<rparr>) init_decodestate []"
  "in_step init_encodestate init_decodestate []"
  by (simp_all add: in_step.simps init_encodestate_def init_decodestate_def)

lemma decode_encode_from:
  assumes "in_step st init_decodestate []"
  shows "decode_bytes (case encode_block st bs of (st', out) \<Rightarrow> out @ encode_blockend st') = bs"
proof -
  obtain st' out where e: "encode_block st bs = (st', out)" by (cases "encode_block st bs")
  obtain ds dec p where d: "decode_block init_decodestate out = (ds, dec)" "in_step st' ds p" "dec @ p = bs"
    using in_step_block [OF assms e] by auto
  then show ?thesis using e dec64.feed_append [of init_decodestate out "encode_blockend st'"] in_step_end [OF d(2)]
    by (simp add: decode_bytes_def split: prod.splits)
qed

lemma base64_block: "snd (decode_block init_decodestate (encode_text bytes lineLength)) = bytes"
  using decode_encode_from [OF in_step_start(1), of lineLength bytes] by (simp add: encode_text_def decode_bytes_def)

interpretation b64: codec "\<lambda>bs. encode_text bs lineLength" decode_bytes "\<lambda>_. True" for lineLength
  by unfold_locales (simp add: encode_text_def decode_encode_from in_step_start)

text \<open>
  Encoding a stream in reads of any size gives the text encode computes at once, decoding
  it in reads of any size gives the bytes back, and so does feeding the decoder any other
  division of the text into chunks.
\<close>

theorem base64_streams:
  assumes "0 < N" "0 < M" "concat chunks = encode_text bytes LINE_LENGTH"
  shows "Encoder_stream N init_encodestate bytes = (init_encodestate, encode_text bytes LINE_LENGTH) \<and>
         Decoder_stream M init_decodestate (encode_text bytes LINE_LENGTH) = (init_decodestate, bytes) \<and>
         snd (feed_chunks decode_block init_decodestate chunks) = bytes"
proof -
  have "init_encodestate\<lparr>e_linelength := LINE_LENGTH\<rparr> = init_encodestate"
    by (simp add: init_encodestate_def)
  moreover obtain ds where "decode_block init_decodestate (encode_text bytes LINE_LENGTH) = (ds, bytes)"
    using base64_block [of bytes LINE_LENGTH] by (metis prod.collapse)
  ultimately show ?thesis
    using assms(3)
    by (simp add: Encoder_stream_def Decoder_stream_def enc64.stream_loop_feed [OF assms(1)]
        dec64.stream_loop_feed [OF assms(2)] dec64.feed_chunks_concat encode_text_def decode_bytes_def split: prod.splits)
qed

theorem base64_streams_witness:
  "Encoder_stream 2 init_encodestate [1, 2, 3] = (init_encodestate, encode_text [1, 2, 3] LINE_LENGTH) \<and>
   snd (feed_chunks decode_block init_decodestate [encode_text [1, 2, 3] LINE_LENGTH, []]) = [1, 2, 3]"
  using base64_streams [of 2 1 "[encode_text [1, 2, 3] LINE_LENGTH, []]" "[1, 2, 3]"] by simp

subsection \<open>Room in the output buffer\<close>

definition slack :: "encodestep \<Rightarrow> nat" where
  "slack s = (case s of step_A \<Rightarrow> 0 | step_B \<Rightarrow> 1 | step_C \<Rightarrow> 2)"

lemma encode_step_length:
  "encode_step st b = (st', out) \<Longrightarrow> length out + slack (e_step st') \<le> 2 + slack (e_step st) \<and>
     slack (e_step st') = (slack (e_step st) + 1) mod 3 \<and> e_nullptrlterminate st' = e_nullptrlterminate st"
  by (auto simp: encode_step_def slack_def Let_def split: encodestep.splits if_splits)

lemma encode_block_length:
  "encode_block st bs = (st', out) \<Longrightarrow> length out + slack (e_step st') \<le> 2 * length bs + slack (e_step st) \<and>
     slack (e_step st') = (slack (e_step st) + length bs) mod 3 \<and> e_nullptrlterminate st' = e_nullptrlterminate st"
proof (induction bs arbitrary: st out)
  case Nil
  then show ?case by (auto simp: slack_def split: encodestep.splits)
next
  case (Cons b bs)
  obtain st1 out1 where e: "encode_step st b = (st1, out1)" by (cases "encode_step st b")
  obtain out2 where o: "encode_block st1 bs = (st', out2)" "out = out1 @ out2"
    using Cons.prems e by (auto split: prod.splits)
  show ?case using encode_step_length [OF e] Cons.IH [OF o(1)] o(2) by (simp add: mod_simps)
qed

text \<open>
  The buffer of twice the input is always large enough for encode_block, and large enough
  for encode_blockend except for an input of one byte, whose three final characters overflow
  it.
\<close>

lemma base64_buffer:
  "case encode_block (init_encodestate\<lparr>e_linelength := lineLength\<rparr>) bytes of (st, out) \<Rightarrow>
     length out \<le> 2 * length bytes \<and>
     (length (encode_blockend st) \<le> 2 * length bytes \<longleftrightarrow> length bytes \<noteq> 1)"
proof -
  obtain st out where e: "encode_block (init_encodestate\<lparr>e_linelength := lineLength\<rparr>) bytes = (st, out)"
    by (cases "encode_block (init_encodestate\<lparr>e_linelength := lineLength\<rparr>) bytes")
  have l: "length out + slack (e_step st) \<le> 2 * length bytes" "slack (e_step st) = length bytes mod 3"
    "\<not> e_nullptrlterminate st"
    using encode_block_length [OF e] by (simp_all add: init_encodestate_def slack_def)
  have "length (encode_blockend st) = (if length bytes mod 3 = 1 then 3 else if length bytes mod 3 = 2 then 2 else 0)"
    using l(2,3) by (auto simp: encode_blockend_def slack_def split: encodestep.splits)
  moreover have "length bytes mod 3 = 1 \<Longrightarrow> length bytes \<noteq> 1 \<Longrightarrow> 4 \<le> length bytes"
    "length bytes mod 3 = 2 \<Longrightarrow> 2 \<le> length bytes" by presburger+
  ultimately show ?thesis using l e by auto
qed

text \<open>In the middle of a stream two bytes and more fit as well.\<close>

lemma encode_block_room:
  assumes "encode_block st bs = (st', out)" "2 \<le> N" "length bs \<le> N"
  shows "length out \<le> 2 * N" "\<not> e_nullptrlterminate st' \<Longrightarrow> length (encode_blockend st') \<le> 2 * N"
proof -
  have "encode_block st bs = (st', out) \<Longrightarrow> length out \<le> length bs + 2 * ((length bs + slack (e_step st)) div 3)" for st out
  proof (induction bs arbitrary: st out)
    case (Cons b bs)
    obtain st1 out1 where e: "encode_step st b = (st1, out1)" by (cases "encode_step st b")
    obtain out2 where o: "encode_block st1 bs = (st', out2)" "out = out1 @ out2"
      using Cons.prems e by (auto split: prod.splits)
    have "length out1 + 2 * ((length bs + slack (e_step st1)) div 3) \<le> 1 + 2 * ((Suc (length bs) + slack (e_step st)) div 3)"
    proof -
      have "(3 + n) div 3 = Suc (n div 3)" for n :: nat by simp
      then show ?thesis using e by (auto simp: encode_step_def slack_def Let_def split: encodestep.splits if_splits)
    qed
    then show ?case using Cons.IH [OF o(1)] o(2) by simp
  qed simp
  then have "length out \<le> length bs + 2 * ((length bs + slack (e_step st)) div 3)" using assms(1) by blast
  moreover have "slack (e_step st) \<le> 2" by (simp add: slack_def split: encodestep.splits)
  ultimately have "length out \<le> length bs + 2 * ((length bs + 2) div 3)"
    by (meson add_le_mono div_le_mono le_refl mult_le_mono order_trans)
  then show "length out \<le> 2 * N" using assms(2,3) by linarith
  show "\<not> e_nullptrlterminate st' \<Longrightarrow> length (encode_blockend st') \<le> 2 * N"
    using assms(2) by (auto simp: encode_blockend_def split: encodestep.splits)
qed

lemma encode_result:
  "encode bytes lineLength = (if length bytes = 1 then Inl Undefined_behaviour else Inr (encode_text bytes lineLength))"
  using base64_buffer [of bytes lineLength]
  by (auto simp: encode_def encode_into_def encode_text_def split: prod.splits)

lemma length_decode: "length (decode_bytes bytes) \<le> length bytes"
proof -
  have "length (snd (decode_block st bytes)) \<le> length bytes" for st
  proof (induction bytes arbitrary: st)
    case (Cons c cs)
    obtain st1 out1 where 1: "decode_step st c = (st1, out1)" by (cases "decode_step st c")
    obtain st2 out2 where 2: "decode_block st1 cs = (st2, out2)" by (cases "decode_block st1 cs")
    have "length (snd (decode_step st c)) \<le> 1" by (simp add: decode_step_def Let_def split: decodestep.splits)
    then show ?case using Cons.IH [of st1] 1 2 by simp
  qed simp
  then show ?thesis by (simp add: decode_bytes_def)
qed

lemma decode_result: "decode bytes = (if bytes = [] then Inl Undefined_behaviour else Inr (decode_bytes bytes))"
  using length_decode [of bytes] by (cases bytes) (auto simp: decode_def)

lemma encode_text_Nil: "encode_text bytes lineLength = [] \<longleftrightarrow> bytes = []"
  by (cases bytes) (auto simp: encode_text_def encode_step_def encode_blockend_def init_encodestate_def Let_def split: prod.splits)

text \<open>
  C35: Decoding what encode produces gives the bytes back, for every line length (none,
  negative and too short to break lines included) and every input of two bytes or more; for
  one byte encode writes three characters into a buffer of two, and decode of no characters
  writes into one of none.
\<close>

theorem base64_roundtrip:
  "if length bytes = 1 then encode bytes lineLength = Inl Undefined_behaviour
   else if bytes = [] then encode bytes lineLength = Inr [] \<and> decode [] = Inl Undefined_behaviour
   else \<exists>text. encode bytes lineLength = Inr text \<and> decode text = Inr bytes"
  using b64.dec_enc [of bytes lineLength] by (auto simp: encode_result decode_result encode_text_Nil)

end
