(* ===== verification/String_Util.thy ===== *)
theory String_Util
  imports Prelude
begin

text \<open>
  The string helpers of \<open>base::util\<close> (\<open>base/util.h\<close>, \<open>base/src/util.cpp\<close>). A
  \<open>std::string\<close> is a list of characters; positions are naturals. The character classes are
  those of the C locale, in which no character from 0x80 on belongs to a class, and \<open>char\<close>
  is signed, as on the platforms the project builds for. Strings are assumed shorter than
  \<open>INT_MAX\<close>, so that the casts of sizes to \<open>int\<close> are exact.
\<close>

subsection \<open>Character classes\<close>

definition isspace :: "char \<Rightarrow> bool" where
  "isspace c = (let n = of_char c :: nat in n = 32 \<or> (9 \<le> n \<and> n \<le> 13))"

definition isdigit :: "char \<Rightarrow> bool" where
  "isdigit c = (let n = of_char c :: nat in 48 \<le> n \<and> n \<le> 57)"

definition isupper :: "char \<Rightarrow> bool" where
  "isupper c = (let n = of_char c :: nat in 65 \<le> n \<and> n \<le> 90)"

definition islower :: "char \<Rightarrow> bool" where
  "islower c = (let n = of_char c :: nat in 97 \<le> n \<and> n \<le> 122)"

definition isalnum :: "char \<Rightarrow> bool" where
  "isalnum c = (isdigit c \<or> isupper c \<or> islower c)"

definition tolower :: "char \<Rightarrow> char" where
  "tolower c = (if isupper c then char_of (of_char c + 32 :: nat) else c)"

definition toupper :: "char \<Rightarrow> char" where
  "toupper c = (if islower c then char_of (of_char c - 32 :: nat) else c)"

text \<open>The value of a (signed) \<open>char\<close>.\<close>

definition schar :: "char \<Rightarrow> int" where
  "schar c = (let n = of_char c in if n < 128 then n else n - 256)"

lemma schar_inject [simp]: "schar a = schar b \<longleftrightarrow> a = b"
proof
  assume "schar a = schar b"
  moreover have "0 \<le> (of_char a :: int)" "(of_char a :: int) < 256" "0 \<le> (of_char b :: int)" "(of_char b :: int) < 256"
    by (simp_all add: of_char_def)
  ultimately have "(of_char a :: int) = of_char b"
    by (simp add: schar_def Let_def split: if_splits)
  then show "a = b" by simp
qed simp

subsection \<open>Trimming\<close>

definition trimLeft :: "string \<Rightarrow> string" where
  "trimLeft str = dropWhile isspace str"

definition trimLeftInPlace :: "string \<Rightarrow> string" where
  "trimLeftInPlace str = drop (length (takeWhile isspace str)) str"

text \<open>The loops over indices: \<open>n\<close> is \<open>pos + 1\<close>, the number of characters kept.\<close>

fun keep_back :: "string \<Rightarrow> nat \<Rightarrow> nat" where
  "keep_back str 0 = 0"
| "keep_back str (Suc pos) = (if isspace (str ! pos) then keep_back str pos else Suc pos)"

definition trimRight :: "string \<Rightarrow> string" where
  "trimRight str = take (keep_back str (length str)) str"

definition trimRightInPlace :: "string \<Rightarrow> string" where
  "trimRightInPlace str = take (keep_back str (length str)) str"

text \<open>
  \<open>trim\<close> and \<open>trimInPlace\<close>: \<open>first\<close> goes up while the character there is white space, then
  \<open>last\<close> goes down but not below \<open>first\<close>.
\<close>

function trim_first :: "string \<Rightarrow> int \<Rightarrow> int \<Rightarrow> int" where
  "trim_first str lo hi =
     (if lo \<le> hi \<and> isspace (str ! nat lo) then trim_first str (lo + 1) hi else lo)"
  by pat_completeness auto
termination by (relation "measure (\<lambda>(str, lo, hi). nat (hi + 1 - lo))") auto

function trim_last :: "string \<Rightarrow> int \<Rightarrow> int \<Rightarrow> int" where
  "trim_last str lo hi =
     (if lo \<le> hi \<and> isspace (str ! nat hi) then trim_last str lo (hi - 1) else hi)"
  by pat_completeness auto
termination by (relation "measure (\<lambda>(str, lo, hi). nat (hi + 1 - lo))") auto

declare trim_first.simps [simp del] trim_last.simps [simp del]

definition trim :: "string \<Rightarrow> string" where
  "trim str = (let lo = trim_first str 0 (int (length str) - 1);
                   hi = trim_last str lo (int (length str) - 1)
               in take (nat (hi - lo + 1)) (drop (nat lo) str))"

definition trimInPlace :: "string \<Rightarrow> string" where
  "trimInPlace str = (let lo = trim_first str 0 (int (length str) - 1);
                          hi = trim_last str lo (int (length str) - 1)
                      in drop (nat lo) (take (nat (hi + 1)) str))"

subsection \<open>Case conversion\<close>

definition toUpper :: "string \<Rightarrow> string" where
  "toUpper str = map toupper str"

definition toUpperInPlace :: "string \<Rightarrow> string" where
  "toUpperInPlace str = map toupper str"

definition toLower :: "string \<Rightarrow> string" where
  "toLower str = map tolower str"

definition toLowerInPlace :: "string \<Rightarrow> string" where
  "toLowerInPlace str = map tolower str"

subsection \<open>Comparison without case\<close>

text \<open>The loop every \<open>icompare\<close> runs over its two ranges.\<close>

fun icompare_range :: "string \<Rightarrow> string \<Rightarrow> int" where
  "icompare_range (a # as) (b # bs) =
     (let c1 = schar (tolower a); c2 = schar (tolower b)
      in if c1 < c2 then -1 else if c1 > c2 then 1 else icompare_range as bs)"
| "icompare_range [] bs = (if bs = [] then 0 else -1)"
| "icompare_range (a # as) [] = 1"

definition icompare :: "string \<Rightarrow> string \<Rightarrow> int" where
  "icompare str1 str2 = icompare_range str1 str2"

text \<open>
  The overloads clamp positions and lengths to the string. A sum \<open>pos + n\<close> that wraps
  around \<open>size_t\<close> puts the end of the range before its start and the loop runs out of the string.
\<close>

definition size_t_max :: nat where
  "size_t_max = 2 ^ 64"

definition clamped :: "string \<Rightarrow> nat \<Rightarrow> nat \<Rightarrow> string res" where
  "clamped str pos n =
     (let sz = length str; pos' = (if pos > sz then sz else pos) in
      if pos' + n \<ge> size_t_max then Inl Undefined_behaviour
      else let n' = (if pos' + n > sz then sz - pos' else n) in Inr (take n' (drop pos' str)))"

definition icompare_sub :: "string \<Rightarrow> nat \<Rightarrow> nat \<Rightarrow> string \<Rightarrow> int res" where
  "icompare_sub str pos n range2 =
     (case clamped str pos n of Inl e \<Rightarrow> Inl e | Inr r \<Rightarrow> Inr (icompare_range r range2))"

definition icompare_n1_n2 :: "string \<Rightarrow> nat \<Rightarrow> string \<Rightarrow> nat \<Rightarrow> int res" where
  "icompare_n1_n2 str1 n1 str2 n2 =
     (let n2' = (if n2 > length str2 then length str2 else n2)
      in icompare_sub str1 0 n1 (take n2' str2))"

definition icompare_n :: "string \<Rightarrow> nat \<Rightarrow> string \<Rightarrow> int res" where
  "icompare_n str1 n str2 =
     (let n' = (if n > length str2 then length str2 else n)
      in icompare_sub str1 0 n' (take n' str2))"

definition icompare_pos_n :: "string \<Rightarrow> nat \<Rightarrow> nat \<Rightarrow> string \<Rightarrow> int res" where
  "icompare_pos_n str1 pos n str2 = icompare_sub str1 pos n str2"

definition icompare_pos1_pos2 :: "string \<Rightarrow> nat \<Rightarrow> nat \<Rightarrow> string \<Rightarrow> nat \<Rightarrow> nat \<Rightarrow> int res" where
  "icompare_pos1_pos2 str1 pos1 n1 str2 pos2 n2 =
     (case clamped str2 pos2 n2 of Inl e \<Rightarrow> Inl e | Inr r2 \<Rightarrow> icompare_sub str1 pos1 n1 r2)"

text \<open>The overload with one length for both strings: the clamped length is used for the first too.\<close>

definition icompare_pos1_n_pos2 :: "string \<Rightarrow> nat \<Rightarrow> nat \<Rightarrow> string \<Rightarrow> nat \<Rightarrow> int res" where
  "icompare_pos1_n_pos2 str1 pos1 n str2 pos2 =
     (case clamped str2 pos2 n of Inl e \<Rightarrow> Inl e | Inr r2 \<Rightarrow> icompare_sub str1 pos1 (length r2) r2)"

text \<open>The overloads whose second argument is a C string: it ends at the first NUL.\<close>

definition c_str :: "string \<Rightarrow> string" where
  "c_str ptr = takeWhile (\<lambda>c. c \<noteq> CHR 0x00) ptr"

definition icompare_cstr :: "string \<Rightarrow> nat \<Rightarrow> nat \<Rightarrow> string \<Rightarrow> int res" where
  "icompare_cstr str pos n ptr = icompare_sub str pos n (c_str ptr)"

definition icompare_pos_cstr :: "string \<Rightarrow> nat \<Rightarrow> string \<Rightarrow> int res" where
  "icompare_pos_cstr str pos ptr =
     icompare_cstr str pos ((length str + size_t_max - pos) mod size_t_max) ptr"

subsection \<open>Numbers\<close>

definition digit_val :: "char \<Rightarrow> nat" where
  "digit_val c = of_char c - 48"

definition digits_val :: "string \<Rightarrow> nat" where
  "digits_val ds = foldl (\<lambda>n c. 10 * n + digit_val c) 0 ds"

fun itostr_nat :: "nat \<Rightarrow> string" where
  "itostr_nat n = (if n < 10 then [char_of (48 + n)]
                   else itostr_nat (n div 10) @ [char_of (48 + n mod 10)])"

declare itostr_nat.simps [simp del]

definition itostr :: "int \<Rightarrow> string" where
  "itostr t = (if t < 0 then CHR ''-'' # itostr_nat (nat (- t)) else itostr_nat (nat t))"

text \<open>
  \<open>istream >> x\<close> at a signed type with the values \<open>lo \<dots> hi\<close>: white space is skipped, an optional sign
  and the longest run of digits are read; no digit or a value out of range sets the fail bit, and
  \<open>strtoi\<close> then returns 0.
\<close>

definition read_signed :: "string \<Rightarrow> int option" where
  "read_signed s =
     (let s' = dropWhile isspace s;
          neg = (s' \<noteq> [] \<and> hd s' = CHR ''-'');
          s'' = (if s' \<noteq> [] \<and> (hd s' = CHR ''-'' \<or> hd s' = CHR ''+'') then tl s' else s');
          ds = takeWhile isdigit s''
      in if ds = [] then None else Some (if neg then - int (digits_val ds) else int (digits_val ds)))"

definition strtoi :: "int \<Rightarrow> int \<Rightarrow> string \<Rightarrow> int" where
  "strtoi lo hi s = (case read_signed s of None \<Rightarrow> 0 | Some x \<Rightarrow> if lo \<le> x \<and> x \<le> hi then x else 0)"

definition int_min :: int where "int_min = - (2 ^ 31)"
definition int_max :: int where "int_max = 2 ^ 31 - 1"

text \<open>\<open>std::stoi\<close>, which throws.\<close>

definition stoi :: "string \<Rightarrow> int res" where
  "stoi s = (case read_signed s of
       None \<Rightarrow> Inl Invalid_argument
     | Some x \<Rightarrow> if int_min \<le> x \<and> x \<le> int_max then Inr x else Inl Out_of_range)"

abbreviation strtoi_int :: "string \<Rightarrow> int" where
  "strtoi_int \<equiv> strtoi int_min int_max"

definition isNumber :: "string \<Rightarrow> bool" where
  "isNumber str = list_all isdigit str"

subsection \<open>Searching, replacing and splitting\<close>

fun find_sub :: "string \<Rightarrow> string \<Rightarrow> nat option" where
  "find_sub d s = (if take (length d) s = d then Some 0
                   else case s of [] \<Rightarrow> None | _ # s' \<Rightarrow> map_option Suc (find_sub d s'))"

declare find_sub.simps [simp del]

text \<open>\<open>std::string::find(d, pos)\<close>; \<open>None\<close> is \<open>npos\<close>.\<close>

definition find_from :: "string \<Rightarrow> string \<Rightarrow> nat \<Rightarrow> nat option" where
  "find_from s d pos = (if pos > length s then None
                        else map_option (\<lambda>i. pos + i) (find_sub d (drop pos s)))"

lemma find_sub_Nil [simp]: "find_sub d [] = (if d = [] then Some 0 else None)"
  by (simp add: find_sub.simps [of d])

lemma find_sub_Cons: "find_sub d (c # s) =
    (if take (length d) (c # s) = d then Some 0 else map_option Suc (find_sub d s))"
  by (simp add: find_sub.simps [of d "c # s"])

lemma find_sub_bound: "find_sub d s = Some i \<Longrightarrow> i + length d \<le> length s"
proof (induction s arbitrary: i)
  case (Cons c s)
  show ?case
  proof (cases "take (length d) (c # s) = d")
    case True
    then have "length d \<le> length (c # s)" by (metis length_take min.cobounded1)
    then show ?thesis using Cons.prems True by (simp add: find_sub_Cons)
  next
    case False
    then show ?thesis using Cons by (auto simp: find_sub_Cons)
  qed
qed (simp split: if_splits)

lemma find_from_bound: "find_from s d pos = Some i \<Longrightarrow> pos \<le> i \<and> i + length d \<le> length s"
  by (auto simp: find_from_def split: if_splits dest: find_sub_bound)

text \<open>
  \<open>replaceInPlace\<close>: \<open>result\<close> collects the output, \<open>start\<close> the position reached. \<open>from\<close> is not empty, so
  every round moves \<open>start\<close> forward.
\<close>

function replace_loop :: "string \<Rightarrow> string \<Rightarrow> string \<Rightarrow> nat \<Rightarrow> string \<Rightarrow> string" where
  "replace_loop str from' to start result =
     (case find_from str from' start of
        Some pos \<Rightarrow> if from' = [] then result
                    else replace_loop str from' to (pos + length from')
                           (result @ take (pos - start) (drop start str) @ to)
      | None \<Rightarrow> result @ drop start str)"
  by pat_completeness auto
termination
  by (relation "measure (\<lambda>(str, from', to, start, result). length str - start)")
     (auto dest!: find_from_bound simp flip: length_greater_0_conv)

declare replace_loop.simps [simp del]

definition replaceInPlace :: "string \<Rightarrow> string \<Rightarrow> string \<Rightarrow> nat \<Rightarrow> string res" where
  "replaceInPlace str from' to start =
     (if from' = [] then Inl Assertion_failed
      else if start > length str then Inl Out_of_range
      else Inr (replace_loop str from' to start (take start str)))"

definition replaceInPlace_cstr :: "string \<Rightarrow> string \<Rightarrow> string \<Rightarrow> nat \<Rightarrow> string res" where
  "replaceInPlace_cstr str from' to start = replaceInPlace str (c_str from') (c_str to) start"

definition replace :: "string \<Rightarrow> string \<Rightarrow> string \<Rightarrow> nat \<Rightarrow> string res" where
  "replace str from' to start = replaceInPlace str from' to start"

text \<open>
  \<open>split\<close> at a delimiter string. The search starts at \<open>pos\<close> and \<open>prev = ++pos\<close> follows each hit: the
  two are equal at the head of the loop, and the step is one character whatever the length of
  \<open>delim\<close>. The second component is the value of \<open>pos\<close> when the loop ends, \<open>None\<close> for \<open>npos\<close>.
\<close>

function split_loop :: "string \<Rightarrow> string \<Rightarrow> string list \<Rightarrow> int \<Rightarrow> nat \<Rightarrow> string list \<times> nat \<times> nat option" where
  "split_loop s delim elems limit prev =
     (case find_from s delim prev of
        None \<Rightarrow> (elems, prev, None)
      | Some pos \<Rightarrow>
          (let final = (limit \<noteq> 0 \<and> int (length elems + 1) = limit);
               elems' = elems @ [if final then drop prev s else take (pos - prev) (drop prev s)];
               prev' = pos + 1
           in if final then (elems', prev', Some prev') else split_loop s delim elems' limit prev'))"
  by pat_completeness auto
termination
  by (relation "measure (\<lambda>(s, delim, elems, limit, prev). length s + 1 - prev)")
     (auto dest!: find_from_bound)

declare split_loop.simps [simp del]

definition split_into :: "string \<Rightarrow> string \<Rightarrow> string list \<Rightarrow> int \<Rightarrow> string list res" where
  "split_into s delim elems limit =
     (case split_loop s delim elems limit 0 of (elems', prev, pos) \<Rightarrow>
        if prev > length s then Inl Out_of_range
        else Inr (elems' @ [case pos of None \<Rightarrow> drop prev s | Some p \<Rightarrow> take (p - prev) (drop prev s)]))"

definition split :: "string \<Rightarrow> string \<Rightarrow> int \<Rightarrow> string list res" where
  "split s delim limit = split_into s delim [] limit"

text \<open>
  \<open>split\<close> at a character reads the string with \<open>getline\<close>. An item that ends at the end of the string
  sets the end-of-file bit: the next \<open>getline\<close> fails, and so does \<open>tellg\<close> after the break on the
  limit. Otherwise \<open>tellg\<close> is the position after the last delimiter read, and the rest is appended.
\<close>

function split_char_loop :: "char \<Rightarrow> int \<Rightarrow> string \<Rightarrow> string list \<Rightarrow> string list" where
  "split_char_loop delim limit rest elems =
     (if rest = [] then elems
      else let item = takeWhile (\<lambda>c. c \<noteq> delim) rest;
               eof = (length item = length rest);
               rest' = drop (length item + 1) rest;
               elems' = elems @ [item]
           in if limit \<noteq> 0 \<and> int (length elems' + 1) = limit
              then (if eof then elems' else elems' @ [rest'])
              else if eof then elems' else split_char_loop delim limit rest' elems')"
  by pat_completeness auto
termination
  by (relation "measure (\<lambda>(delim, limit, rest, elems). length rest)") auto

declare split_char_loop.simps [simp del]

definition split_char :: "string \<Rightarrow> char \<Rightarrow> int \<Rightarrow> string list" where
  "split_char s delim limit = split_char_loop delim limit s []"

text \<open>
  \<open>endsWith\<close> compares backwards and never looks at the length of \<open>str\<close>: a suffix that matches all of
  a shorter string is read past its beginning.
\<close>

definition endsWith :: "string \<Rightarrow> string \<Rightarrow> bool res" where
  "endsWith str suffix =
     (let m = zip (rev suffix) (rev str) in
      if list_all (\<lambda>(a, b). a = b) m
      then (if length suffix > length str then Inl Undefined_behaviour else Inr True)
      else Inr False)"

subsection \<open>Versions\<close>

fun compareVersion_loop :: "string list \<Rightarrow> string list \<Rightarrow> bool \<Rightarrow> bool" where
  "compareVersion_loop (l # ls) (r # rs) equal =
     (let ln = strtoi_int l; rn = strtoi_int r
      in if ln < rn then False else compareVersion_loop ls rs (if ln > rn then False else equal))"
| "compareVersion_loop [] rs equal = (\<not> equal)"
| "compareVersion_loop (l # ls) [] equal = (\<not> equal)"

definition compareVersion :: "string \<Rightarrow> string \<Rightarrow> bool res" where
  "compareVersion l r =
     (if l = [] then Inr False
      else if r = [] then Inr True
      else case split l ''.'' (-1) of Inl e \<Rightarrow> Inl e
         | Inr lnums \<Rightarrow> (case split r ''.'' (-1) of Inl e \<Rightarrow> Inl e
             | Inr rnums \<Rightarrow> Inr (compareVersion_loop lnums rnums True)))"

record Version =
  major :: int
  minor :: int
  revision :: int
  build :: int

definition Version_less :: "Version \<Rightarrow> Version \<Rightarrow> bool" where
  "Version_less v w =
     (if major v < major w then True
      else if minor v < minor w then True
      else if revision v < revision w then True
      else if build v < build w then True
      else False)"

definition Version_eq :: "Version \<Rightarrow> Version \<Rightarrow> bool" where
  "Version_eq v w = (major v = major w \<and> minor v = minor w \<and> revision v = revision w \<and> build v = build w)"

definition Version_print :: "Version \<Rightarrow> string" where
  "Version_print v = itostr (major v) @ ''.'' @ itostr (minor v) @ ''.'' @ itostr (revision v) @ ''.'' @ itostr (build v)"

text \<open>
  \<open>sscanf(s, "%d.%d.%d.%d", \<dots>)\<close>: each \<open>%d\<close> reads like \<open>>>\<close>, each dot must be there, and the
  scan stops at the first mismatch, leaving the remaining members as they were (they are not
  initialised: \<open>garbage\<close>). A number out of range of \<open>int\<close> is undefined.
\<close>

definition scan_rest :: "string \<Rightarrow> string" where
  "scan_rest s =
     (let s' = dropWhile isspace s;
          s'' = (if s' \<noteq> [] \<and> (hd s' = CHR ''-'' \<or> hd s' = CHR ''+'') then tl s' else s')
      in dropWhile isdigit s'')"

fun scan_ints :: "string \<Rightarrow> int list \<Rightarrow> int list res" where
  "scan_ints s [] = Inr []"
| "scan_ints s (g # gs) =
     (case read_signed s of
        None \<Rightarrow> Inr (g # gs)
      | Some x \<Rightarrow>
          if x < int_min \<or> int_max < x then Inl Undefined_behaviour
          else (let r = scan_rest s in
                if r \<noteq> [] \<and> hd r = CHR ''.''
                then (case scan_ints (tl r) gs of Inl e \<Rightarrow> Inl e | Inr xs \<Rightarrow> Inr (x # xs))
                else Inr (x # gs)))"

definition Version_init :: "Version \<Rightarrow> string \<Rightarrow> Version res" where
  "Version_init garbage version =
     (case scan_ints (c_str version) [major garbage, minor garbage, revision garbage, build garbage] of
        Inl e \<Rightarrow> Inl e
      | Inr xs \<Rightarrow> Inr \<lparr>major = (if xs ! 0 < 0 then 0 else xs ! 0),
                       minor = (if xs ! 1 < 0 then 0 else xs ! 1),
                       revision = (if xs ! 2 < 0 then 0 else xs ! 2),
                       build = (if xs ! 3 < 0 then 0 else xs ! 3)\<rparr>)"

subsection \<open>Filters and patterns\<close>

definition special :: "bool \<Rightarrow> char \<Rightarrow> bool" where
  "special allowSpaces c = (\<not> isalnum c \<and> (\<not> allowSpaces \<or> \<not> isspace c) \<and> c \<noteq> CHR ''.'')"

text \<open>The loop index moves on after an erased character too: the character that took its place is kept.\<close>

fun removeSpecialCharacters :: "string \<Rightarrow> bool \<Rightarrow> string" where
  "removeSpecialCharacters [] allowSpaces = []"
| "removeSpecialCharacters (c # cs) allowSpaces =
     (if special allowSpaces c
      then (case cs of [] \<Rightarrow> [] | d # ds \<Rightarrow> d # removeSpecialCharacters ds allowSpaces)
      else c # removeSpecialCharacters cs allowSpaces)"

definition replaceSpecialCharacters :: "string \<Rightarrow> char \<Rightarrow> bool \<Rightarrow> string" where
  "replaceSpecialCharacters str with' allowSpaces =
     map (\<lambda>c. if special allowSpaces c then with' else c) str"

text \<open>\<open>toLower\<close> returns a copy, which \<open>toUnderscore\<close> drops.\<close>

definition toUnderscore :: "string \<Rightarrow> string" where
  "toUnderscore str =
     (let str' = replaceSpecialCharacters str (CHR ''_'') False; discarded = toLower str' in str')"

definition dumpbin_bits :: "char \<Rightarrow> string" where
  "dumpbin_bits c = map (\<lambda>i. if bit (of_char c :: nat) i then CHR ''1'' else CHR ''0'') [7, 6, 5, 4, 3, 2, 1, 0]"

definition dumpbin :: "string \<Rightarrow> string" where
  "dumpbin data =
     concat (map (\<lambda>(i, c). dumpbin_bits c @ [if i mod 4 = 3 then CHR 0x0A else CHR '' ''])
       (List.enumerate 0 data))"

fun match_loop :: "string list \<Rightarrow> string list \<Rightarrow> bool" where
  "match_loop params [] = True"
| "match_loop (p # params) (x # xparams) =
     (if x = ''*'' then match_loop params xparams
      else if x \<noteq> p then False else match_loop params xparams)"
| "match_loop [] (x # xparams) = False"

definition matchNodes_vec :: "string list \<Rightarrow> string list \<Rightarrow> bool res" where
  "matchNodes_vec params xparams =
     (if length xparams > length params then Inr False
      else if length params > length xparams \<and> xparams = [] then Inl Undefined_behaviour
      else if length params > length xparams \<and> xparams ! (length xparams - 1) \<noteq> ''*'' then Inr False
      else Inr (match_loop params xparams))"

definition matchNodes :: "string \<Rightarrow> string \<Rightarrow> string \<Rightarrow> bool res" where
  "matchNodes node xnode delim =
     (if xnode = ''*'' then Inr True
      else case split node delim (-1) of Inl e \<Rightarrow> Inl e
         | Inr params \<Rightarrow> (case split xnode delim (-1) of Inl e \<Rightarrow> Inl e
             | Inr xparams \<Rightarrow> matchNodes_vec params xparams))"

subsection \<open>Copying streams\<close>

text \<open>
  The copy loops read at most \<open>bufferSize\<close> characters at a time and stop at the first read that
  comes back empty or short (a short read leaves the stream at its end). The result is the
  number of characters copied and the output.
\<close>

function copy_loop :: "nat \<Rightarrow> string \<Rightarrow> nat \<Rightarrow> string \<Rightarrow> nat \<times> string" where
  "copy_loop bufferSize istr len out =
     (let buffer = take bufferSize istr; n = length buffer in
      if n > 0
      then (let len' = len + n; out' = out @ buffer in
            if \<not> n < bufferSize then copy_loop bufferSize (drop bufferSize istr) len' out'
            else (len', out'))
      else (len, out))"
  by pat_completeness auto
termination by (relation "measure (\<lambda>(bufferSize, istr, len, out). length istr)") auto

declare copy_loop.simps [simp del]

definition copyStream :: "string \<Rightarrow> nat \<Rightarrow> (nat \<times> string) res" where
  "copyStream istr bufferSize =
     (if bufferSize = 0 then Inl Assertion_failed else Inr (copy_loop bufferSize istr 0 []))"

definition copyToString :: "string \<Rightarrow> string \<Rightarrow> nat \<Rightarrow> (nat \<times> string) res" where
  "copyToString istr str bufferSize =
     (if bufferSize = 0 then Inl Assertion_failed else Inr (copy_loop bufferSize istr 0 str))"

definition copyStreamUnbuffered :: "string \<Rightarrow> nat \<times> string" where
  "copyStreamUnbuffered istr = foldl (\<lambda>(len, out) c. (len + 1, out @ [c])) (0, []) istr"


subsection \<open>Trimming: the index loops compute the middle\<close>

lemma keep_back_take: "n \<le> length str \<Longrightarrow> take (keep_back str n) str = rev (dropWhile isspace (rev (take n str)))"
proof (induction n)
  case (Suc n)
  then have "take (Suc n) str = take n str @ [str ! n]" by (simp add: take_Suc_conv_app_nth)
  then show ?case using Suc by simp
qed simp

lemma trimRight_eq: "trimRight str = rev (dropWhile isspace (rev str))"
  by (simp add: trimRight_def keep_back_take)

lemma trim_first_eq:
  "trim_first (pre @ s) (int (length pre)) (int (length pre + length s) - 1) =
     int (length pre + length (takeWhile isspace s))"
proof (induction s arbitrary: pre)
  case Nil
  then show ?case by (simp add: trim_first.simps)
next
  case (Cons c s)
  have "trim_first (pre @ c # s) (int (length (pre @ [c]))) (int (length (pre @ [c]) + length s) - 1)
      = int (length (pre @ [c]) + length (takeWhile isspace s))"
    using Cons [of "pre @ [c]"] by simp
  then show ?case
    by (subst trim_first.simps) (simp add: algebra_simps)
qed

lemma trim_last_eq:
  "lo \<le> length s \<Longrightarrow>
   trim_last (s @ post) (int lo) (int (length s) - 1) =
     int (lo + length (rev (dropWhile isspace (rev (drop lo s))))) - 1"
proof (induction s arbitrary: post rule: rev_induct)
  case Nil
  then show ?case by (simp add: trim_last.simps)
next
  case (snoc c s)
  show ?case
  proof (cases "lo \<le> length s")
    case True
    then show ?thesis
      using snoc(1) [OF True, of "c # post"]
      by (subst trim_last.simps) simp
  next
    case False
    then have "lo = Suc (length s)" using snoc(2) by simp
    then show ?thesis by (subst trim_last.simps) simp
  qed
qed

lemma take_rev_dropWhile: "take (length (dropWhile P (rev xs))) xs = rev (dropWhile P (rev xs))"
proof -
  have "xs = rev (dropWhile P (rev xs)) @ rev (takeWhile P (rev xs))"
    by (metis rev_append rev_rev_ident takeWhile_dropWhile_id)
  then show ?thesis by (metis append_eq_conv_conj length_rev)
qed

lemma trim_eq: "trim str = trimRight (trimLeft str)"
  and trimInPlace_eq: "trimInPlace str = trimRight (trimLeft str)"
proof -
  let ?n = "length (takeWhile isspace str)"
  have n: "?n \<le> length str" by (simp add: length_takeWhile_le)
  have d: "drop ?n str = dropWhile isspace str" by (simp add: dropWhile_eq_drop)
  have f: "trim_first str 0 (int (length str) - 1) = int ?n"
    using trim_first_eq [of "[]" str] by simp
  let ?m = "length (rev (dropWhile isspace (rev (drop ?n str))))"
  have l: "trim_last str (int ?n) (int (length str) - 1) = int (?n + ?m) - 1"
    using trim_last_eq [OF n, of "[]"] by simp
  have m: "take ?m (drop ?n str) = rev (dropWhile isspace (rev (drop ?n str)))"
    using take_rev_dropWhile [of isspace "drop ?n str"] by simp
  show "trim str = trimRight (trimLeft str)"
    using m by (simp add: trim_def f l trimRight_eq trimLeft_def d)
  show "trimInPlace str = trimRight (trimLeft str)"
    using m by (simp add: trimInPlace_def f l trimRight_eq trimLeft_def d drop_take nat_add_distrib)
qed

text \<open>
  trim and trimInPlace compute the same string, the one that trimming left and then right
  gives: the string without a prefix and a suffix of white space, and it neither begins nor
  ends with white space.
\<close>

theorem trim_spec:
  "trimInPlace str = trim str \<and> trimRight (trimLeft str) = trim str \<and>
   (\<exists>l r. str = l @ trim str @ r \<and> list_all isspace l \<and> list_all isspace r) \<and>
   (trim str = [] \<or> (isspace (hd (trim str)) = False \<and> isspace (last (trim str)) = False))"
proof (intro conjI)
  let ?s = "dropWhile isspace str"
  have eq: "trim str = rev (dropWhile isspace (rev ?s))"
    by (simp add: trim_eq trimRight_eq trimLeft_def)
  have s: "?s = trim str @ rev (takeWhile isspace (rev ?s))"
    unfolding eq by (metis rev_append rev_rev_ident takeWhile_dropWhile_id)
  have "str = takeWhile isspace str @ trim str @ rev (takeWhile isspace (rev ?s))"
    using s by (metis takeWhile_dropWhile_id)
  then show "\<exists>l r. str = l @ trim str @ r \<and> list_all isspace l \<and> list_all isspace r"
    by (intro exI conjI) (auto simp: list_all_iff dest: set_takeWhileD)
  have "trim str = [] \<or> \<not> isspace (hd (trim str)) \<and> \<not> isspace (last (trim str))"
  proof (cases "trim str = []")
    case False
    then have "hd (trim str) = hd ?s" and "?s \<noteq> []"
      using s by (metis hd_append2, metis append_is_Nil_conv)
    moreover have "last (trim str) = hd (dropWhile isspace (rev ?s))"
      using False by (simp add: eq last_rev)
    ultimately show ?thesis
      using False by (metis eq hd_dropWhile rev.simps(1))
  qed simp
  then show "trim str = [] \<or> (isspace (hd (trim str)) = False \<and> isspace (last (trim str)) = False)"
    by simp
qed (simp_all add: trim_eq trimInPlace_eq)

lemma trim_spec_example: "trim ''  a b '' = ''a b''"
  by (simp add: trim_eq trimRight_eq trimLeft_def isspace_def)

subsection \<open>Numbers print and read back\<close>

lemma isdigit_digit: "(d :: nat) < 10 \<Longrightarrow> isdigit (char_of (48 + d))"
  by (simp add: isdigit_def)

lemma digits_itostr_nat: "list_all isdigit (itostr_nat n)"
  by (induction n rule: itostr_nat.induct) (simp add: itostr_nat.simps isdigit_digit)

lemma digits_val_snoc: "digits_val (ds @ [c]) = 10 * digits_val ds + digit_val c"
  by (simp add: digits_val_def)

lemma digits_val_itostr_nat: "digits_val (itostr_nat n) = n"
proof (induction n rule: itostr_nat.induct)
  case (1 n)
  show ?case
  proof (cases "n < 10")
    case True
    then show ?thesis by (simp add: itostr_nat.simps [of n] digits_val_def digit_val_def)
  next
    case False
    then show ?thesis using 1
      by (simp add: itostr_nat.simps [of n] digits_val_snoc digit_val_def)
  qed
qed

lemma itostr_nat_not_Nil: "itostr_nat n \<noteq> []"
  by (simp add: itostr_nat.simps)

lemma takeWhile_list_all: "list_all P xs \<Longrightarrow> takeWhile P xs = xs"
  by (induction xs) simp_all

lemma read_signed_itostr: "read_signed (itostr n) = Some n"
proof -
  have hd: "isdigit (hd (itostr_nat m))" for m
    using digits_itostr_nat [of m] itostr_nat_not_Nil [of m] by (cases "itostr_nat m") auto
  have nsp: "\<not> isspace (hd (itostr_nat m))" "hd (itostr_nat m) \<noteq> CHR ''-''" "hd (itostr_nat m) \<noteq> CHR ''+''" for m
    using hd [of m] by (auto simp: isdigit_def isspace_def Let_def)
  have dw: "dropWhile isspace (itostr_nat m) = itostr_nat m" for m
    using nsp(1) [of m] by (cases "itostr_nat m") auto
  show ?thesis
    using nsp itostr_nat_not_Nil
    by (simp add: read_signed_def itostr_def dw isspace_def digits_val_itostr_nat
        takeWhile_list_all [OF digits_itostr_nat])
qed

lemma stoi_itostr: "int_min \<le> n \<Longrightarrow> n \<le> int_max \<Longrightarrow> stoi (itostr n) = Inr n"
  by (simp add: stoi_def read_signed_itostr)

text \<open>
  strtoi recovers every integer in the range of its type from the text itostr prints for
  it.
\<close>

theorem strtoi_itostr: "lo \<le> n \<Longrightarrow> n \<le> hi \<Longrightarrow> strtoi lo hi (itostr n) = n"
  by (simp add: strtoi_def read_signed_itostr)

theorem strtoi_itostr_witness: "strtoi_int (itostr (-2147483648)) = -2147483648"
  using strtoi_itostr [of int_min int_min int_max] by (simp add: int_min_def int_max_def)


subsection \<open>Splitting and joining\<close>

text \<open>The parts of a string between the occurrences of a character, and the string they came from.\<close>

fun fields :: "char \<Rightarrow> string \<Rightarrow> string list" where
  "fields c [] = [[]]"
| "fields c (x # xs) = (if x = c then [] # fields c xs
                        else case fields c xs of f # fs \<Rightarrow> (x # f) # fs | [] \<Rightarrow> [[x]])"

fun join_with :: "char \<Rightarrow> string list \<Rightarrow> string" where
  "join_with c [] = []"
| "join_with c [f] = f"
| "join_with c (f # g # fs) = f @ c # join_with c (g # fs)"

lemma fields_not_Nil [simp]: "fields c s \<noteq> []"
  by (induction s) (auto split: list.splits)

lemma join_with_Cons: "fs \<noteq> [] \<Longrightarrow> join_with c (f # fs) = f @ c # join_with c fs"
  by (cases fs) simp_all

lemma join_with_cons_hd: "fs = f # gs \<Longrightarrow> join_with c ((x # f) # gs) = x # join_with c fs"
  by (cases gs) simp_all

lemma join_fields: "join_with c (fields c s) = s"
  by (induction s) (auto simp: join_with_Cons join_with_cons_hd split: list.splits)

lemma fields_free: "list_all (\<lambda>f. c \<notin> set f) (fields c s)"
  by (induction s) (auto split: list.splits)

lemma length_fields: "length (fields c s) = Suc (count_list s c)"
proof (induction s)
  case (Cons x s)
  then show ?case by (cases "fields c s") auto
qed simp

lemma fields_append: "c \<notin> set f \<Longrightarrow> fields c (f @ c # s) = f # fields c s"
  by (induction f) auto

lemma fields_free_id: "c \<notin> set f \<Longrightarrow> fields c f = [f]"
  by (induction f) auto

lemma find_sub_char: "find_sub [c] s = (if c \<in> set s then Some (length (takeWhile (\<lambda>x. x \<noteq> c) s)) else None)"
  by (induction s) (auto simp: find_sub_Cons)

lemma takeWhile_split: "c \<in> set s \<Longrightarrow>
    s = takeWhile (\<lambda>x. x \<noteq> c) s @ c # drop (Suc (length (takeWhile (\<lambda>x. x \<noteq> c) s))) s"
  by (induction s) auto

lemma split_loop_char:
  assumes "limit \<le> 0" "p \<le> length s"
  shows "case split_loop s [c] elems limit p of (elems', prev, pos) \<Rightarrow>
           pos = None \<and> prev \<le> length s \<and> elems' @ [drop prev s] = elems @ fields c (drop p s)"
  using assms
proof (induction s "[c]" elems limit p rule: split_loop.induct)
  case (1 s elems limit p)
  let ?t = "takeWhile (\<lambda>x. x \<noteq> c) (drop p s)"
  show ?case
  proof (cases "c \<in> set (drop p s)")
    case True
    then have f: "find_from s [c] p = Some (p + length ?t)"
      using 1(3) by (simp add: find_from_def find_sub_char)
    have nf: "(limit \<noteq> 0 \<and> int (length elems + 1) = limit) = False" using 1(2) by simp
    have cs: "drop p s = ?t @ c # drop (Suc (length ?t)) (drop p s)"
      using takeWhile_split [OF True] .
    have b: "p + length ?t + 1 \<le> length s"
      using find_from_bound [OF f] by simp
    have fl: "fields c (drop p s) = ?t # fields c (drop (Suc (length ?t)) (drop p s))"
      by (subst cs, rule fields_append) (auto dest: set_takeWhileD)
    have tk: "take (length ?t) (drop p s) = ?t" by (rule takeWhile_eq_take [symmetric])
    have ih: "case split_loop s [c] (elems @ [?t]) limit (p + length ?t + 1) of (elems', prev, pos) \<Rightarrow>
           pos = None \<and> prev \<le> length s \<and>
           elems' @ [drop prev s] = (elems @ [?t]) @ fields c (drop (p + length ?t + 1) s)"
      using 1(1) [OF f nf [symmetric] refl refl _ 1(2) b] tk by simp
    have "split_loop s [c] elems limit p = split_loop s [c] (elems @ [?t]) limit (p + length ?t + 1)"
      using tk by (subst split_loop.simps) (simp only: f option.case nf Let_def if_False diff_add_inverse)
    then show ?thesis using ih by (simp add: fl add.commute split: prod.splits)
  next
    case False
    then have "find_from s [c] p = None" by (simp add: find_from_def find_sub_char)
    then show ?thesis using 1(3) False
      by (subst split_loop.simps) (simp add: fields_free_id)
  qed
qed

lemma split_char_delim: "limit \<le> 0 \<Longrightarrow> split_into s [c] elems limit = Inr (elems @ fields c s)"
  using split_loop_char [where limit = limit and p = 0 and s = s and c = c and elems = elems] by (auto simp: split_into_def split: prod.splits)

text \<open>
  C38: Splitting at a one character delimiter without limit never fails and loses nothing:
  joining the parts gives the string back, no part contains the delimiter, and there is one
  part more than delimiters.
\<close>

theorem split_join:
  "\<exists>es. split s [c] (-1) = Inr es \<and> join_with c es = s \<and>
        list_all (\<lambda>e. c \<notin> set e) es \<and> length es = Suc (count_list s c)"
  using split_char_delim [where limit = "-1" and s = s and c = c and elems = "[]"]
  by (simp add: split_def join_fields fields_free length_fields)


subsection \<open>Comparing\<close>

lemma icompare_range_Cons:
  "icompare_range (a # as) (b # bs) =
     (if tolower a = tolower b then icompare_range as bs
      else if schar (tolower a) < schar (tolower b) then -1 else 1)"
proof -
  have "schar (tolower a) \<noteq> schar (tolower b) \<or> tolower a = tolower b"
    by (simp only: schar_inject) blast
  then show ?thesis by (auto simp: Let_def)
qed

declare icompare_range.simps(1) [simp del]

lemma icompare_range_Nil2: "icompare_range s [] = (if s = [] then 0 else 1)"
  by (cases s) simp_all

lemma icompare_range_zero: "icompare_range s t = 0 \<longleftrightarrow> map tolower s = map tolower t"
  by (induction s t rule: icompare_range.induct) (simp_all add: icompare_range_Cons icompare_range_Nil2)

lemma schar_neq: "a \<noteq> b \<Longrightarrow> schar a < schar b \<longleftrightarrow> \<not> schar b < schar a"
  using schar_inject [of a b] by linarith

lemma icompare_range_anti: "icompare_range t s = - icompare_range s t"
proof (induction s t rule: icompare_range.induct)
  case (1 a as b bs)
  then show ?case
    using schar_neq [of "tolower a" "tolower b"] by (simp add: icompare_range_Cons)
qed (simp_all add: icompare_range_Nil2)

lemma icompare_range_le_Cons:
  "icompare_range (a # as) (b # bs) \<le> 0 \<longleftrightarrow>
     schar (tolower a) < schar (tolower b) \<or> (tolower a = tolower b \<and> icompare_range as bs \<le> 0)"
  by (auto simp: icompare_range_Cons)

lemma icompare_range_trans:
  "icompare_range s t \<le> 0 \<Longrightarrow> icompare_range t u \<le> 0 \<Longrightarrow> icompare_range s u \<le> 0"
proof (induction s arbitrary: t u)
  case Nil
  then show ?case by simp
next
  case (Cons a as)
  obtain b bs where t: "t = b # bs" using Cons.prems by (cases t) auto
  obtain c cs where u: "u = c # cs" using Cons.prems t by (cases u) auto
  show ?case using Cons.prems Cons.IH [of bs cs]
    by (simp only: t u icompare_range_le_Cons) (metis order.strict_trans)
qed

text \<open>
  icompare without case is 0 exactly for strings equal up to case, changes sign when its
  arguments are swapped, and is transitive.
\<close>

theorem icompare_total_preorder:
  "(icompare s t = 0) = (toLower s = toLower t) \<and> icompare t s = - icompare s t \<and>
   (icompare s t \<le> 0 \<longrightarrow> icompare t u \<le> 0 \<longrightarrow> icompare s u \<le> 0)"
  using icompare_range_trans [of s t u]
  by (simp add: icompare_def toLower_def icompare_range_zero icompare_range_anti [of t s])

lemma icompare_total_preorder_witness:
  "icompare ''content'' ''HOST'' \<le> 0 \<and> icompare ''HOST'' ''host'' \<le> 0 \<and> icompare ''content'' ''host'' \<le> 0"
proof -
  have "icompare ''content'' ''HOST'' \<le> 0" "icompare ''HOST'' ''host'' \<le> 0"
    by code_simp+
  then show ?thesis using icompare_total_preorder [of "''content''" "''HOST''" "''host''"] by blast
qed

subsection \<open>Versions\<close>

lemma compareVersion_loop_iff:
  "compareVersion_loop ls rs equal \<longleftrightarrow>
     (\<forall>(l, r) \<in> set (zip ls rs). strtoi_int l \<ge> strtoi_int r) \<and>
     (\<not> equal \<or> (\<exists>(l, r) \<in> set (zip ls rs). strtoi_int l > strtoi_int r))"
  by (induction ls rs equal rule: compareVersion_loop.induct) (auto simp: Let_def)

text \<open>
  compareVersion of two non-empty versions is true exactly when no component of the first
  is below its counterpart and some component is above it: the comparison is by components,
  not lexicographic, so 2.0 is not newer than 1.5.
\<close>

theorem compareVersion_pointwise:
  "l \<noteq> [] \<Longrightarrow> r \<noteq> [] \<Longrightarrow>
   compareVersion l r = Inr
     (let ps = zip (fields (CHR ''.'') l) (fields (CHR ''.'') r)
      in list_all (\<lambda>(a, b). strtoi_int a \<ge> strtoi_int b) ps \<and>
         list_ex (\<lambda>(a, b). strtoi_int a > strtoi_int b) ps)"
  by (simp add: compareVersion_def split_def split_char_delim compareVersion_loop_iff
      list_all_iff list_ex_iff Let_def)

theorem compareVersion_pointwise_witness:
  "compareVersion ''1.10.0'' ''1.9.3'' = Inr False \<and> compareVersion ''2.0'' ''1.5'' = Inr False \<and>
   compareVersion ''1.10'' ''1.9.3'' = Inr True"
  using compareVersion_pointwise [of "''1.10.0''" "''1.9.3''"]
    compareVersion_pointwise [of "''2.0''" "''1.5''"] compareVersion_pointwise [of "''1.10''" "''1.9.3''"]
  by (simp add: strtoi_def read_signed_def isspace_def isdigit_def digits_val_def digit_val_def
      int_min_def int_max_def)

text \<open>The member-wise disjunction is not an order: each of two versions can be below the other.\<close>

lemma Version_less_both_ways:
  "\<exists>v w. Version_less v w \<and> Version_less w v"
  by (rule exI [of _ "\<lparr>major = 1, minor = 5, revision = 0, build = 0\<rparr>"],
      rule exI [of _ "\<lparr>major = 2, minor = 0, revision = 0, build = 0\<rparr>"]) (simp add: Version_less_def)

subsection \<open>Patterns and copies\<close>

lemma match_loop_iff:
  "match_loop params xparams \<longleftrightarrow>
     length xparams \<le> length params \<and> (\<forall>(x, p) \<in> set (zip xparams params). x = ''*'' \<or> x = p)"
  by (induction params xparams rule: match_loop.induct) auto

text \<open>
  A node list matches a non-empty pattern exactly when the pattern is not longer, is as
  long or ends with *, and agrees with it at every position that is not *.
\<close>

theorem matchNodes_vec_spec:
  "xparams \<noteq> [] \<Longrightarrow> matchNodes_vec params xparams =
     Inr (length xparams \<le> length params \<and>
          (length xparams = length params \<or> last xparams = ''*'') \<and>
          list_all (\<lambda>(x, p). x = ''*'' \<or> x = p) (zip xparams params))"
  by (auto simp: matchNodes_vec_def match_loop_iff list_all_iff last_conv_nth)

theorem matchNodes_vec_spec_witness:
  "matchNodes_vec [''room'', ''1'', ''audio''] [''room'', ''*''] = Inr True"
  using matchNodes_vec_spec [of "[''room'', ''*'']" "[''room'', ''1'', ''audio'']"] by simp

lemma copy_loop_all: "0 < b \<Longrightarrow> copy_loop b istr len out = (len + length istr, out @ istr)"
proof (induction b istr len out rule: copy_loop.induct)
  case (1 b istr len out)
  show ?case
  proof (cases "length istr < b")
    case True
    then show ?thesis by (simp add: copy_loop.simps [of b istr] Let_def)
  next
    case False
    then have "istr \<noteq> []" "min (length istr) b = b" using 1(2) by auto
    then have "copy_loop b istr len out = copy_loop b (drop b istr) (len + b) (out @ take b istr)"
      using 1(2) by (simp add: copy_loop.simps [of b istr] Let_def)
    also have "\<dots> = (len + b + length (drop b istr), (out @ take b istr) @ drop b istr)"
      using 1(1) [of "take b istr" b "len + b" "out @ take b istr"] 1(2) \<open>min _ _ = b\<close> by simp
    finally show ?thesis using False by simp
  qed
qed

lemma copyStream_all: "0 < b \<Longrightarrow> copyStream istr b = Inr (length istr, istr)"
  and copyToString_all: "0 < b \<Longrightarrow> copyToString istr str b = Inr (length istr, str @ istr)"
  by (simp_all add: copyStream_def copyToString_def copy_loop_all)

lemma copyStreamUnbuffered_all: "copyStreamUnbuffered istr = (length istr, istr)"
proof -
  have "foldl (\<lambda>(len, out) c. (len + 1, out @ [c])) (n, o') istr = (n + length istr, o' @ istr)" for n o'
    by (induction istr arbitrary: n o') auto
  then show ?thesis by (simp add: copyStreamUnbuffered_def)
qed

end
