(* ===== verification/Bit_Buffer.thy ===== *)
theory Bit_Buffer
  imports Byte_Order String_Util
begin

text \<open>
  The binary readers and writers of \<open>base/buffer.h\<close> and \<open>base/src/buffer.cpp\<close>. A reader or writer
  is a record of its members; the memory behind \<open>_bytes\<close> is a list of bytes, and an access outside
  it is \<open>Undefined_behaviour\<close>. \<open>size_t\<close> has 64 bits, and sums and differences that the code does not
  guard wrap around. \<open>big\<close> says whether the host is big endian.
\<close>

datatype ByteOrder = Network | Host

definition size_add :: "nat \<Rightarrow> nat \<Rightarrow> nat" where
  "size_add a b = (a + b) mod size_t_max"

definition size_sub :: "nat \<Rightarrow> nat \<Rightarrow> nat" where
  "size_sub a b = (if b \<le> a then a - b else a + size_t_max - b)"

subsection \<open>BitReader\<close>

record BitReader =
  r_position :: nat
  r_limit :: nat
  r_order :: ByteOrder
  r_bytes :: "byte list"

definition reader_init :: "byte list \<Rightarrow> ByteOrder \<Rightarrow> BitReader" where
  "reader_init bytes order = \<lparr>r_position = 0, r_limit = length bytes, r_order = order, r_bytes = bytes\<rparr>"

definition reader_seek :: "nat \<Rightarrow> BitReader \<Rightarrow> BitReader res" where
  "reader_seek val r = (if val > r_limit r then Inl Out_of_range else Inr (r\<lparr>r_position := val\<rparr>))"

definition reader_skip :: "nat \<Rightarrow> BitReader \<Rightarrow> BitReader res" where
  "reader_skip val r =
     (if val > r_limit r then Inl Out_of_range
      else Inr (r\<lparr>r_position := size_add (r_position r) val\<rparr>))"

definition reader_available :: "BitReader \<Rightarrow> nat" where
  "reader_available r = size_sub (r_limit r) (r_position r)"

text \<open>The bytes \<open>[pos, pos + len)\<close> of the memory behind the reader.\<close>

definition memory :: "byte list \<Rightarrow> nat \<Rightarrow> nat \<Rightarrow> byte list res" where
  "memory bytes pos len = (if pos + len > length bytes then Inl Undefined_behaviour
                           else Inr (take len (drop pos bytes)))"

definition reader_toString :: "BitReader \<Rightarrow> byte list res" where
  "reader_toString r = memory (r_bytes r) (r_position r) (reader_available r)"

text \<open>\<open>operator <<\<close> writes as many bytes as have been read, starting at the read position.\<close>

definition reader_print :: "BitReader \<Rightarrow> byte list res" where
  "reader_print r = memory (r_bytes r) (r_position r) (r_position r)"

text \<open>Both overloads of \<open>get\<close>: the bytes read and the reader after it.\<close>

definition reader_get :: "nat \<Rightarrow> BitReader \<Rightarrow> (byte list \<times> BitReader) res" where
  "reader_get len r =
     (if len > reader_available r then Inl Out_of_range
      else case memory (r_bytes r) (r_position r) len of
             Inl e \<Rightarrow> Inl e
           | Inr bs \<Rightarrow> Inr (bs, r\<lparr>r_position := size_add (r_position r) len\<rparr>))"

definition reader_get_string :: "byte list \<Rightarrow> nat \<Rightarrow> BitReader \<Rightarrow> (byte list \<times> BitReader) res" where
  "reader_get_string val len r =
     (case reader_get len r of Inl e \<Rightarrow> Inl e | Inr (bs, r') \<Rightarrow> Inr (val @ bs, r'))"

definition getU8 :: "BitReader \<Rightarrow> (byte \<times> BitReader) res" where
  "getU8 r = (case reader_get 1 r of Inl e \<Rightarrow> Inl e | Inr (bs, r') \<Rightarrow> Inr (bs ! 0, r'))"

definition getU16 :: "bool \<Rightarrow> BitReader \<Rightarrow> (u16 \<times> BitReader) res" where
  "getU16 big r =
     (case reader_get 2 r of Inl e \<Rightarrow> Inl e
      | Inr (bs, r') \<Rightarrow> (let v = load16 big bs in
          Inr (if r_order r = Network then networkToHost16 big v else v, r')))"

definition getU24 :: "bool \<Rightarrow> BitReader \<Rightarrow> (u32 \<times> BitReader) res" where
  "getU24 big r =
     (case reader_get 3 r of Inl e \<Rightarrow> Inl e
      | Inr (bs, r') \<Rightarrow>
          (let v = load32 big (if r_order r = Network \<or> isBigEndian big then 0 # bs else bs @ [0]) in
           Inr (if r_order r = Network then networkToHost32 big v else v, r')))"

definition getU32 :: "bool \<Rightarrow> BitReader \<Rightarrow> (u32 \<times> BitReader) res" where
  "getU32 big r =
     (case reader_get 4 r of Inl e \<Rightarrow> Inl e
      | Inr (bs, r') \<Rightarrow> (let v = load32 big bs in
          Inr (if r_order r = Network then networkToHost32 big v else v, r')))"

definition getU64 :: "bool \<Rightarrow> BitReader \<Rightarrow> (u64 \<times> BitReader) res" where
  "getU64 big r =
     (case reader_get 8 r of Inl e \<Rightarrow> Inl e
      | Inr (bs, r') \<Rightarrow> (let v = load64 big bs in
          Inr (if r_order r = Network then networkToHost64 big v else v, r')))"

text \<open>\<open>_bytes\<close> is a pointer to plain \<open>char\<close>; the byte is returned as it is.\<close>

definition peek :: "BitReader \<Rightarrow> byte res" where
  "peek r = (if r_limit r > r_position r
             then (if r_position r < length (r_bytes r) then Inr (r_bytes r ! r_position r)
                   else Inl Undefined_behaviour)
             else Inr 0)"

text \<open>
  The peeking reads: the value is read, the position put back, and \<open>out_of_range\<close> becomes 0.
\<close>

definition peek_with :: "(BitReader \<Rightarrow> ('a::zero \<times> BitReader) res) \<Rightarrow> nat \<Rightarrow> BitReader \<Rightarrow> ('a \<times> BitReader) res" where
  "peek_with get n r =
     (case get r of
        Inr (v, r') \<Rightarrow> Inr (v, r'\<lparr>r_position := size_sub (r_position r') n\<rparr>)
      | Inl Out_of_range \<Rightarrow> Inr (0, r)
      | Inl e \<Rightarrow> Inl e)"

definition peekU8 :: "BitReader \<Rightarrow> (byte \<times> BitReader) res" where
  "peekU8 r = peek_with getU8 1 r"
definition peekU16 :: "bool \<Rightarrow> BitReader \<Rightarrow> (u16 \<times> BitReader) res" where
  "peekU16 big r = peek_with (getU16 big) 2 r"
definition peekU24 :: "bool \<Rightarrow> BitReader \<Rightarrow> (u32 \<times> BitReader) res" where
  "peekU24 big r = peek_with (getU24 big) 3 r"
definition peekU32 :: "bool \<Rightarrow> BitReader \<Rightarrow> (u32 \<times> BitReader) res" where
  "peekU32 big r = peek_with (getU32 big) 4 r"
definition peekU64 :: "bool \<Rightarrow> BitReader \<Rightarrow> (u64 \<times> BitReader) res" where
  "peekU64 big r = peek_with (getU64 big) 8 r"

subsection \<open>BitReader: strings\<close>

text \<open>
  The scanning loops: from \<open>_position + len\<close> on, \<open>len\<close> counts up to \<open>_limit\<close> while the byte
  satisfies the loop's test.
\<close>

definition scan :: "(byte \<Rightarrow> bool) \<Rightarrow> nat \<Rightarrow> BitReader \<Rightarrow> nat" where
  "scan P len r = len + length (takeWhile P (drop (r_position r + len) (take (r_limit r) (r_bytes r))))"

definition advance :: "nat \<Rightarrow> BitReader \<Rightarrow> BitReader" where
  "advance len r =
     (if r_limit r > r_position r + len then r\<lparr>r_position := r_position r + len\<rparr>
      else r\<lparr>r_position := r_limit r\<rparr>)"

definition not_blank :: "byte \<Rightarrow> bool" where
  "not_blank b = (b \<noteq> 0x20 \<and> b \<noteq> 0x09 \<and> b \<noteq> 0x0A \<and> b \<noteq> 0x0D)"

definition byte_isdigit :: "byte \<Rightarrow> bool" where
  "byte_isdigit b = (0x30 \<le> b \<and> b \<le> 0x39)"

definition skipToChar :: "byte \<Rightarrow> BitReader \<Rightarrow> nat \<times> BitReader" where
  "skipToChar c r = (let len = scan (\<lambda>b. b \<noteq> c) 0 r in (len, advance len r))"

definition skipWhitespace :: "BitReader \<Rightarrow> nat \<times> BitReader" where
  "skipWhitespace r = (let len = scan (\<lambda>b. b = 0x20) 0 r in (len, advance len r))"

definition skipToNextLine :: "BitReader \<Rightarrow> nat \<times> BitReader" where
  "skipToNextLine r = (let len = scan (\<lambda>b. b \<noteq> 0x0A) 0 r + 1 in (len, advance len r))"

text \<open>
  \<open>skipNextWord\<close>, \<open>readNextWord\<close> and \<open>readNextNumber\<close> start counting at the number of blanks skipped,
  although \<open>skipWhitespace\<close> has already moved the position past them.
\<close>

definition skipNextWord :: "BitReader \<Rightarrow> nat \<times> BitReader" where
  "skipNextWord r = (case skipWhitespace r of (len0, r1) \<Rightarrow>
     (let len = scan not_blank len0 r1 in (len, advance len r1)))"

definition readToNext :: "byte list \<Rightarrow> byte \<Rightarrow> BitReader \<Rightarrow> (nat \<times> byte list \<times> BitReader) res" where
  "readToNext val c r =
     (let len = scan (\<lambda>b. b \<noteq> c) 0 r in
      case memory (r_bytes r) (r_position r) len of Inl e \<Rightarrow> Inl e
      | Inr bs \<Rightarrow> Inr (len, val @ bs, advance len r))"

definition readNextWord :: "byte list \<Rightarrow> BitReader \<Rightarrow> (nat \<times> byte list \<times> BitReader) res" where
  "readNextWord val r =
     (case skipWhitespace r of (len0, r1) \<Rightarrow>
       (let len = scan not_blank len0 r1 in
        case memory (r_bytes r1) (r_position r1) len of Inl e \<Rightarrow> Inl e
        | Inr bs \<Rightarrow> Inr (len, val @ bs, advance len r1)))"

text \<open>
  \<open>strtoi<uint32_t>\<close>: a magnitude above the range fails (value 0); a sign negates modulo \<open>2 ^ 32\<close>.
\<close>

definition strtoi_u32 :: "string \<Rightarrow> u32" where
  "strtoi_u32 s = (case read_signed s of None \<Rightarrow> 0
                   | Some x \<Rightarrow> if \<bar>x\<bar> < 2 ^ 32 then word_of_int x else 0)"

definition readNextNumber :: "u32 \<Rightarrow> BitReader \<Rightarrow> (nat \<times> u32 \<times> BitReader) res" where
  "readNextNumber val r =
     (case skipWhitespace r of (len0, r1) \<Rightarrow>
       (let len = scan byte_isdigit len0 r1 in
        if len = 0 then Inr (len, val, advance len r1)
        else case memory (r_bytes r1) (r_position r1) len of Inl e \<Rightarrow> Inl e
          | Inr bs \<Rightarrow> Inr (len, strtoi_u32 (map (\<lambda>b. char_of (unat b)) bs), advance len r1)))"

definition readLine :: "byte list \<Rightarrow> BitReader \<Rightarrow> (nat \<times> byte list \<times> BitReader) res" where
  "readLine val r =
     (let len = scan (\<lambda>b. b \<noteq> 0x0A) 0 r in
      case memory (r_bytes r) (r_position r) len of Inl e \<Rightarrow> Inl e
      | Inr bs \<Rightarrow> Inr (len + 1, val @ bs, advance (len + 1) r))"

subsection \<open>BitWriter\<close>

record BitWriter =
  w_position :: nat
  w_limit :: nat
  w_order :: ByteOrder
  w_bytes :: "byte list"

definition writer_init :: "byte list \<Rightarrow> ByteOrder \<Rightarrow> BitWriter" where
  "writer_init bytes order = \<lparr>w_position = 0, w_limit = length bytes, w_order = order, w_bytes = bytes\<rparr>"

definition writer_skip :: "nat \<Rightarrow> BitWriter \<Rightarrow> BitWriter res" where
  "writer_skip val w =
     (if size_add (w_position w) val > w_limit w then Inl Out_of_range
      else Inr (w\<lparr>w_position := size_add (w_position w) val\<rparr>))"

definition writer_seek :: "nat \<Rightarrow> BitWriter \<Rightarrow> BitWriter res" where
  "writer_seek val w = (if val > w_limit w then Inl Out_of_range else Inr (w\<lparr>w_position := val\<rparr>))"

definition writer_toString :: "BitWriter \<Rightarrow> byte list res" where
  "writer_toString w = memory (w_bytes w) 0 (w_position w)"

definition writer_available :: "BitWriter \<Rightarrow> nat" where
  "writer_available w = size_sub (w_limit w) (w_position w)"

text \<open>\<open>memcpy\<close> of \<open>val\<close> to \<open>bytes + pos\<close>.\<close>

definition memcpy :: "byte list \<Rightarrow> nat \<Rightarrow> byte list \<Rightarrow> byte list res" where
  "memcpy bytes pos val =
     (if pos + length val > length bytes then Inl Undefined_behaviour
      else Inr (take pos bytes @ val @ drop (pos + length val) bytes))"

definition writer_put :: "byte list \<Rightarrow> BitWriter \<Rightarrow> BitWriter res" where
  "writer_put val w =
     (if size_add (w_position w) (length val) > w_limit w then Inl Out_of_range
      else case memcpy (w_bytes w) (w_position w) val of
             Inl e \<Rightarrow> Inl e
           | Inr bytes \<Rightarrow> Inr (w\<lparr>w_bytes := bytes, w_position := size_add (w_position w) (length val)\<rparr>))"

text \<open>
  The bytes the typed operations hand to \<open>put\<close> and \<open>update\<close>: the memory of the value, after its
  conversion to network order when the writer has that order. The 24 bit form passes three of the four
  bytes, from the second on when the value is or has been made big endian.
\<close>

definition field8 :: "byte \<Rightarrow> byte list" where
  "field8 val = [val]"

definition field16 :: "bool \<Rightarrow> ByteOrder \<Rightarrow> u16 \<Rightarrow> byte list" where
  "field16 big order val = mem16 big (if order = Network then hostToNetwork16 big val else val)"

definition field24 :: "bool \<Rightarrow> ByteOrder \<Rightarrow> u32 \<Rightarrow> byte list" where
  "field24 big order val =
     (let m = mem32 big (if order = Network then hostToNetwork32 big val else val)
      in if order = Network \<or> isBigEndian big then drop 1 m else take 3 m)"

definition field32 :: "bool \<Rightarrow> ByteOrder \<Rightarrow> u32 \<Rightarrow> byte list" where
  "field32 big order val = mem32 big (if order = Network then hostToNetwork32 big val else val)"

definition field64 :: "bool \<Rightarrow> ByteOrder \<Rightarrow> u64 \<Rightarrow> byte list" where
  "field64 big order val = mem64 big (if order = Network then hostToNetwork64 big val else val)"

definition putU8 :: "byte \<Rightarrow> BitWriter \<Rightarrow> BitWriter res" where
  "putU8 val w = writer_put (field8 val) w"
definition putU16 :: "bool \<Rightarrow> u16 \<Rightarrow> BitWriter \<Rightarrow> BitWriter res" where
  "putU16 big val w = writer_put (field16 big (w_order w) val) w"
definition putU24 :: "bool \<Rightarrow> u32 \<Rightarrow> BitWriter \<Rightarrow> BitWriter res" where
  "putU24 big val w = writer_put (field24 big (w_order w) val) w"
definition putU32 :: "bool \<Rightarrow> u32 \<Rightarrow> BitWriter \<Rightarrow> BitWriter res" where
  "putU32 big val w = writer_put (field32 big (w_order w) val) w"
definition putU64 :: "bool \<Rightarrow> u64 \<Rightarrow> BitWriter \<Rightarrow> BitWriter res" where
  "putU64 big val w = writer_put (field64 big (w_order w) val) w"

text \<open>\<open>update\<close> compares the end of the update with the space that is left, not with the limit.\<close>

definition writer_update :: "byte list \<Rightarrow> nat \<Rightarrow> BitWriter \<Rightarrow> (bool \<times> BitWriter) res" where
  "writer_update val pos w =
     (if size_add pos (length val) > writer_available w then Inr (False, w)
      else case memcpy (w_bytes w) pos val of
             Inl e \<Rightarrow> Inl e
           | Inr bytes \<Rightarrow> Inr (True, w\<lparr>w_bytes := bytes\<rparr>))"

definition updateU8 :: "byte \<Rightarrow> nat \<Rightarrow> BitWriter \<Rightarrow> (bool \<times> BitWriter) res" where
  "updateU8 val pos w = writer_update (field8 val) pos w"
definition updateU16 :: "bool \<Rightarrow> u16 \<Rightarrow> nat \<Rightarrow> BitWriter \<Rightarrow> (bool \<times> BitWriter) res" where
  "updateU16 big val pos w = writer_update (field16 big (w_order w) val) pos w"
definition updateU24 :: "bool \<Rightarrow> u32 \<Rightarrow> nat \<Rightarrow> BitWriter \<Rightarrow> (bool \<times> BitWriter) res" where
  "updateU24 big val pos w = writer_update (field24 big (w_order w) val) pos w"
definition updateU32 :: "bool \<Rightarrow> u32 \<Rightarrow> nat \<Rightarrow> BitWriter \<Rightarrow> (bool \<times> BitWriter) res" where
  "updateU32 big val pos w = writer_update (field32 big (w_order w) val) pos w"
definition updateU64 :: "bool \<Rightarrow> u64 \<Rightarrow> nat \<Rightarrow> BitWriter \<Rightarrow> (bool \<times> BitWriter) res" where
  "updateU64 big val pos w = writer_update (field64 big (w_order w) val) pos w"

subsection \<open>DynamicBitWriter\<close>

text \<open>
  The buffer is the vector itself; \<open>dw_limit\<close> is its capacity until the first \<open>put\<close> and its size from then
  on. Positions count from \<open>dw_offset\<close>, the vector grows at \<open>dw_offset + dw_position\<close>.
\<close>

record DynamicBitWriter =
  dw_position :: nat
  dw_limit :: nat
  dw_order :: ByteOrder
  dw_buffer :: "byte list"
  dw_offset :: nat

definition dynamic_init :: "byte list \<Rightarrow> nat \<Rightarrow> nat \<Rightarrow> ByteOrder \<Rightarrow> DynamicBitWriter" where
  "dynamic_init buf capacity offset order =
     \<lparr>dw_position = 0, dw_limit = (if capacity = 0 then 256 else capacity), dw_order = order,
      dw_buffer = buf, dw_offset = offset\<rparr>"

definition vector_insert :: "byte list \<Rightarrow> nat \<Rightarrow> byte list \<Rightarrow> byte list res" where
  "vector_insert buf pos val =
     (if pos > length buf then Inl Undefined_behaviour else Inr (take pos buf @ val @ drop pos buf))"

definition dynamic_put :: "byte list \<Rightarrow> DynamicBitWriter \<Rightarrow> DynamicBitWriter res" where
  "dynamic_put val w =
     (case vector_insert (dw_buffer w) (dw_offset w + dw_position w) val of
        Inl e \<Rightarrow> Inl e
      | Inr buf \<Rightarrow> if buf = [] then Inl Undefined_behaviour
                  else Inr (w\<lparr>dw_buffer := buf, dw_limit := length buf,
                             dw_position := dw_position w + length val\<rparr>))"

definition dynamic_update :: "byte list \<Rightarrow> nat \<Rightarrow> DynamicBitWriter \<Rightarrow> (bool \<times> DynamicBitWriter) res" where
  "dynamic_update val pos w =
     (if size_add pos (length val) > size_sub (dw_limit w) (dw_position w) then Inr (False, w)
      else case vector_insert (dw_buffer w) (dw_offset w + pos) val of
             Inl e \<Rightarrow> Inl e
           | Inr buf \<Rightarrow> Inr (True, w\<lparr>dw_buffer := buf\<rparr>))"

subsection \<open>Fields round trip\<close>

text \<open>A record written field by field.\<close>

datatype field = F8 byte | F16 u16 | F24 u32 | F32 u32 | F64 u64 | FBytes "byte list"

fun put_field :: "bool \<Rightarrow> field \<Rightarrow> BitWriter \<Rightarrow> BitWriter res" where
  "put_field big (F8 v) w = putU8 v w"
| "put_field big (F16 v) w = putU16 big v w"
| "put_field big (F24 v) w = putU24 big v w"
| "put_field big (F32 v) w = putU32 big v w"
| "put_field big (F64 v) w = putU64 big v w"
| "put_field big (FBytes bs) w = writer_put bs w"

text \<open>Reads a field of the shape of the given one.\<close>

fun get_field :: "bool \<Rightarrow> field \<Rightarrow> BitReader \<Rightarrow> (field \<times> BitReader) res" where
  "get_field big (F8 _) r = (case getU8 r of Inl e \<Rightarrow> Inl e | Inr (v, r') \<Rightarrow> Inr (F8 v, r'))"
| "get_field big (F16 _) r = (case getU16 big r of Inl e \<Rightarrow> Inl e | Inr (v, r') \<Rightarrow> Inr (F16 v, r'))"
| "get_field big (F24 _) r = (case getU24 big r of Inl e \<Rightarrow> Inl e | Inr (v, r') \<Rightarrow> Inr (F24 v, r'))"
| "get_field big (F32 _) r = (case getU32 big r of Inl e \<Rightarrow> Inl e | Inr (v, r') \<Rightarrow> Inr (F32 v, r'))"
| "get_field big (F64 _) r = (case getU64 big r of Inl e \<Rightarrow> Inl e | Inr (v, r') \<Rightarrow> Inr (F64 v, r'))"
| "get_field big (FBytes bs) r =
     (case reader_get_string [] (length bs) r of Inl e \<Rightarrow> Inl e | Inr (v, r') \<Rightarrow> Inr (FBytes v, r'))"

primrec put_fields :: "bool \<Rightarrow> field list \<Rightarrow> BitWriter \<Rightarrow> BitWriter res" where
  "put_fields big [] w = Inr w"
| "put_fields big (f # fs) w = (case put_field big f w of Inl e \<Rightarrow> Inl e | Inr w' \<Rightarrow> put_fields big fs w')"

primrec get_fields :: "bool \<Rightarrow> field list \<Rightarrow> BitReader \<Rightarrow> (field list \<times> BitReader) res" where
  "get_fields big [] r = Inr ([], r)"
| "get_fields big (f # fs) r =
     (case get_field big f r of Inl e \<Rightarrow> Inl e
      | Inr (g, r') \<Rightarrow> (case get_fields big fs r' of Inl e \<Rightarrow> Inl e | Inr (gs, r'') \<Rightarrow> Inr (g # gs, r'')))"

fun field_size :: "field \<Rightarrow> nat" where
  "field_size (F8 _) = 1" | "field_size (F16 _) = 2" | "field_size (F24 _) = 3"
| "field_size (F32 _) = 4" | "field_size (F64 _) = 8" | "field_size (FBytes bs) = length bs"

fun field_ok :: "field \<Rightarrow> bool" where
  "field_ok (F24 v) = (v < 0x1000000)"
| "field_ok _ = True"

fun field_bytes :: "bool \<Rightarrow> ByteOrder \<Rightarrow> field \<Rightarrow> byte list" where
  "field_bytes big order (F8 v) = field8 v"
| "field_bytes big order (F16 v) = field16 big order v"
| "field_bytes big order (F24 v) = field24 big order v"
| "field_bytes big order (F32 v) = field32 big order v"
| "field_bytes big order (F64 v) = field64 big order v"
| "field_bytes big order (FBytes bs) = bs"

lemma size_t_simps: "a + b < size_t_max \<Longrightarrow> size_add a b = a + b" "b \<le> a \<Longrightarrow> size_sub a b = a - b"
  by (simp_all add: size_add_def size_sub_def)

lemma setBE_length [simp, sizes]:
  "length (setBE16 m a) = length m" "length (setBE32 m b) = length m" "length (setBE64 m c) = length m"
  by (simp_all add: byte_order_simps)

lemma networkToHost_load [simp]:
  "length p = 2 \<Longrightarrow> networkToHost16 big (load16 big p) = getBE16 p"
  "length q = 4 \<Longrightarrow> networkToHost32 big (load32 big q) = getBE32 q"
  "length r = 8 \<Longrightarrow> networkToHost64 big (load64 big r) = getBE64 r"
  by (simp_all add: networkToHost16_def networkToHost32_def networkToHost64_def)

lemma top_byte_zero: "(v :: u32) < 0x1000000 \<Longrightarrow> (ucast (drop_bit 24 v) :: byte) = 0"
proof -
  assume "v < 0x1000000"
  then have "unat v < 2 ^ 24" by (simp add: word_less_nat_alt)
  then have "unat (drop_bit 24 v) = 0"
    by (simp only: unat_drop_bit_eq) (simp only: drop_bit_eq_div div_less)
  then have "drop_bit 24 v = 0" by (simp only: unat_0_iff)
  then show ?thesis by simp
qed

lemma drop_top_byte:
  "v < 0x1000000 \<Longrightarrow> 0 # drop 1 (setBE32 [0, 0, 0, 0] v) = setBE32 [0, 0, 0, 0] v"
  "v < 0x1000000 \<Longrightarrow> take 3 (setLE32 [0, 0, 0, 0] v) @ [0] = setLE32 [0, 0, 0, 0] v"
  by (simp_all add: byte_order_simps top_byte_zero)

lemma length_field_bytes [simp]: "length (field_bytes big order f) = field_size f"
  by (cases f) (auto simp: field8_def field16_def field24_def field32_def field64_def Let_def)

lemma memory_app: "pos = length pre \<Longrightarrow> len = length bs \<Longrightarrow> memory (pre @ bs @ post) pos len = Inr bs"
  by (simp add: memory_def)

lemma reader_get_app:
  assumes "r_bytes r = pre @ bs @ post" "r_position r = length pre" "r_limit r = length (r_bytes r)"
    and "r_limit r < size_t_max"
  shows "reader_get (length bs) r = Inr (bs, r\<lparr>r_position := length pre + length bs\<rparr>)"
  using assms by (simp add: reader_get_def reader_available_def size_t_simps memory_app)

lemma get_field_app:
  assumes r: "r_bytes r = pre @ field_bytes bw order f @ post" "r_position r = length pre"
      "r_limit r = length (r_bytes r)" "r_limit r < size_t_max" "r_order r = order"
    and o: "order = Network \<or> bw = br" and ok: "field_ok f"
  shows "get_field br f r = Inr (f, r\<lparr>r_position := length pre + field_size f\<rparr>)"
proof -
  note g = reader_get_app [OF r(1-4), unfolded length_field_bytes]
  show ?thesis
  proof (cases f)
    case (F8 v)
    then show ?thesis using g by (simp add: getU8_def field8_def)
  next
    case (F16 v)
    then show ?thesis using g o r(5) by (auto simp: getU16_def field16_def)
  next
    case (F24 v)
    then have v: "v < 0x1000000" using ok by simp
    have g: "reader_get 3 r = Inr (field24 bw order v, r\<lparr>r_position := length pre + 3\<rparr>)"
      using g F24 by simp
    show ?thesis
    proof (cases "order = Network")
      case True
      then have "field24 bw order v = drop 1 (setBE32 [0, 0, 0, 0] v)" by (simp add: field24_def)
      then have "0 # field24 bw order v = setBE32 [0, 0, 0, 0] v" using drop_top_byte(1) [OF v] by simp
      then show ?thesis using F24 r(5) True by (simp add: getU24_def g)
    next
      case False
      then have b: "bw = br" using o by simp
      show ?thesis
      proof (cases br)
        case True
        then have "0 # field24 br order v = mem32 br v"
          using drop_top_byte(1) [OF v] False by (simp add: field24_def mem32_def)
        then show ?thesis using F24 r(5) False True b by (simp add: getU24_def g)
      next
        case nb: False
        then have "field24 br order v @ [0] = mem32 br v"
          using drop_top_byte(2) [OF v] False by (simp add: field24_def mem32_def)
        then show ?thesis using F24 r(5) False nb b by (simp add: getU24_def g)
      qed
    qed
  next
    case (F32 v)
    then show ?thesis using g o r(5) by (auto simp: getU32_def field32_def)
  next
    case (F64 v)
    then show ?thesis using g o r(5) by (auto simp: getU64_def field64_def)
  next
    case (FBytes bs)
    then show ?thesis using g by (simp add: reader_get_string_def)
  qed
qed

lemma get_fields_app:
  assumes "r_bytes r = pre @ concat (map (field_bytes bw order) fs) @ post" "r_position r = length pre"
      "r_limit r = length (r_bytes r)" "r_limit r < size_t_max" "r_order r = order"
    and "order = Network \<or> bw = br" and "list_all field_ok fs"
  shows "get_fields br fs r = Inr (fs, r\<lparr>r_position := length pre + sum_list (map field_size fs)\<rparr>)"
  using assms
proof (induction fs arbitrary: r pre)
  case Nil
  then have "r\<lparr>r_position := length pre\<rparr> = r" by (cases r) simp
  then show ?case by simp
next
  case (Cons f fs)
  let ?r = "r\<lparr>r_position := length (pre @ field_bytes bw order f)\<rparr>"
  have "get_field br f r = Inr (f, ?r)"
    using get_field_app [of r pre bw order f] Cons.prems by simp
  moreover have "get_fields br fs ?r =
      Inr (fs, ?r\<lparr>r_position := length (pre @ field_bytes bw order f) + sum_list (map field_size fs)\<rparr>)"
    by (rule Cons.IH) (use Cons.prems in simp_all)
  ultimately show ?case by (simp add: add.assoc)
qed

lemma put_field_eq: "put_field big f w = writer_put (field_bytes big (w_order w) f) w"
  by (cases f) (simp_all add: putU8_def putU16_def putU24_def putU32_def putU64_def)

lemma writer_put_fits:
  assumes "w_position w + length val \<le> w_limit w" "w_limit w = length (w_bytes w)" "w_limit w < size_t_max"
  shows "writer_put val w = Inr (w\<lparr>w_bytes := take (w_position w) (w_bytes w) @ val @
           drop (w_position w + length val) (w_bytes w), w_position := w_position w + length val\<rparr>)"
  using assms by (simp add: writer_put_def size_t_simps memcpy_def)

lemma put_fields_eq:
  assumes "w_position w + sum_list (map field_size fs) \<le> w_limit w" "w_limit w = length (w_bytes w)"
    "w_limit w < size_t_max"
  shows "put_fields big fs w = Inr (w\<lparr>w_bytes := take (w_position w) (w_bytes w) @
           concat (map (field_bytes big (w_order w)) fs) @
           drop (w_position w + sum_list (map field_size fs)) (w_bytes w),
           w_position := w_position w + sum_list (map field_size fs)\<rparr>)"
  using assms
proof (induction fs arbitrary: w)
  case Nil
  then show ?case by simp
next
  case (Cons f fs)
  define w' where "w' = w\<lparr>w_bytes := take (w_position w) (w_bytes w) @ field_bytes big (w_order w) f @
      drop (w_position w + field_size f) (w_bytes w), w_position := w_position w + field_size f\<rparr>"
  have "put_field big f w = Inr w'"
    using writer_put_fits [of w "field_bytes big (w_order w) f"] Cons.prems
    by (simp add: put_field_eq w'_def)
  moreover have "put_fields big fs w' = Inr (w'\<lparr>w_bytes := take (w_position w') (w_bytes w') @
           concat (map (field_bytes big (w_order w')) fs) @
           drop (w_position w' + sum_list (map field_size fs)) (w_bytes w'),
           w_position := w_position w' + sum_list (map field_size fs)\<rparr>)"
    by (rule Cons.IH) (use Cons.prems in \<open>simp_all add: w'_def\<close>)
  ultimately show ?case
    using Cons.prems by (simp add: w'_def add_ac)
qed

text \<open>
  C36: A record written field by field (8, 16, 24, 32 and 64 bit integers and raw bytes) into
  a buffer that has room for it is read back field for field, and the reader ends exactly at
  the end; in network order the two hosts may differ in byte order, in host order they must
  agree, and a 24 bit field must be below 2^24.
\<close>

theorem fields_roundtrip:
  assumes "sum_list (map field_size fs) \<le> length buf" "length buf < size_t_max" "list_all field_ok fs"
    and "order = Network \<or> bw = br"
  shows "\<exists>w bytes r. put_fields bw fs (writer_init buf order) = Inr w \<and> writer_toString w = Inr bytes \<and>
           length bytes = sum_list (map field_size fs) \<and>
           get_fields br fs (reader_init bytes order) = Inr (fs, r) \<and> reader_available r = 0"
proof -
  let ?n = "sum_list (map field_size fs)" and ?c = "concat (map (field_bytes bw order) fs)"
  have n: "length ?c = ?n" by (induction fs) simp_all
  let ?w = "(writer_init buf order)\<lparr>w_bytes := ?c @ drop ?n buf, w_position := ?n\<rparr>"
  have w: "put_fields bw fs (writer_init buf order) = Inr ?w"
    using put_fields_eq [of "writer_init buf order" fs bw] assms(1,2) by (simp add: writer_init_def)
  have t: "writer_toString ?w = Inr ?c"
    using n memory_app [of 0 "[]" ?n ?c "drop ?n buf"] by (simp add: writer_toString_def)
  let ?r = "reader_init ?c order"
  have "get_fields br fs ?r = Inr (fs, ?r\<lparr>r_position := ?n\<rparr>)"
    using get_fields_app [of ?r "[]" bw order fs "[]" br] assms n by (simp add: reader_init_def)
  moreover have "reader_available (?r\<lparr>r_position := ?n\<rparr>) = 0"
    using n by (simp add: reader_available_def reader_init_def size_sub_def)
  ultimately show ?thesis using w t n by blast
qed


theorem fields_roundtrip_witness:
  "\<exists>w bytes r. put_fields False [F8 1, F24 0x10203, FBytes [9]] (writer_init (replicate 6 0) Network) = Inr w \<and>
     writer_toString w = Inr bytes \<and> length bytes = 5 \<and>
     get_fields True [F8 1, F24 0x10203, FBytes [9]] (reader_init bytes Network) =
       Inr ([F8 1, F24 0x10203, FBytes [9]], r)"
  using fields_roundtrip [of "[F8 1, F24 0x10203, FBytes [9]]" "replicate 6 0" Network False True]
  by (auto simp: size_t_max_def)

subsection \<open>The reader stays in its buffer\<close>

text \<open>The operations that check or clamp correctly, and the reader each leaves (an exception leaves it as it was).\<close>

datatype reader_call =
    RSeek nat | RGet nat | RU8 | RU16 | RU24 | RU32 | RU64
  | RPeek | RPeekU8 | RPeekU16 | RPeekU24 | RPeekU32 | RPeekU64
  | RSkipToChar byte | RSkipWhitespace | RSkipToNextLine | RSkipNextWord
  | RReadToNext "byte list" byte | RReadLine "byte list" | RToString

definition after :: "('a \<times> BitReader) res \<Rightarrow> BitReader res" where
  "after x = (case x of Inl e \<Rightarrow> Inl e | Inr (_, r') \<Rightarrow> Inr r')"

definition unmoved :: "BitReader \<Rightarrow> 'a res \<Rightarrow> BitReader res" where
  "unmoved r x = (case x of Inl e \<Rightarrow> Inl e | Inr _ \<Rightarrow> Inr r)"

fun reader_op :: "bool \<Rightarrow> reader_call \<Rightarrow> BitReader \<Rightarrow> BitReader res" where
  "reader_op big (RSeek n) r = reader_seek n r"
| "reader_op big (RGet n) r = after (reader_get n r)"
| "reader_op big RU8 r = after (getU8 r)"
| "reader_op big RU16 r = after (getU16 big r)"
| "reader_op big RU24 r = after (getU24 big r)"
| "reader_op big RU32 r = after (getU32 big r)"
| "reader_op big RU64 r = after (getU64 big r)"
| "reader_op big RPeek r = unmoved r (peek r)"
| "reader_op big RPeekU8 r = after (peekU8 r)"
| "reader_op big RPeekU16 r = after (peekU16 big r)"
| "reader_op big RPeekU24 r = after (peekU24 big r)"
| "reader_op big RPeekU32 r = after (peekU32 big r)"
| "reader_op big RPeekU64 r = after (peekU64 big r)"
| "reader_op big (RSkipToChar c) r = Inr (snd (skipToChar c r))"
| "reader_op big RSkipWhitespace r = Inr (snd (skipWhitespace r))"
| "reader_op big RSkipToNextLine r = Inr (snd (skipToNextLine r))"
| "reader_op big RSkipNextWord r = Inr (snd (skipNextWord r))"
| "reader_op big (RReadToNext v c) r = after (map_sum id (\<lambda>(_, v', r'). (v', r')) (readToNext v c r))"
| "reader_op big (RReadLine v) r = after (map_sum id (\<lambda>(_, v', r'). (v', r')) (readLine v r))"
| "reader_op big RToString r = unmoved r (reader_toString r)"

definition reader_step :: "bool \<Rightarrow> BitReader \<Rightarrow> reader_call \<Rightarrow> BitReader" where
  "reader_step big r op = (case reader_op big op r of Inl e \<Rightarrow> r | Inr r' \<Rightarrow> r')"

definition reader_inv :: "BitReader \<Rightarrow> bool" where
  "reader_inv r = (r_position r \<le> r_limit r \<and> r_limit r = length (r_bytes r) \<and> r_limit r < size_t_max)"

text \<open>A result is good when it is not undefined and the reader in it satisfies the invariant.\<close>

definition good :: "BitReader res \<Rightarrow> bool" where
  "good x = (case x of Inl e \<Rightarrow> e \<noteq> Undefined_behaviour | Inr r \<Rightarrow> reader_inv r)"

lemma reader_get_inv:
  assumes "reader_inv r"
  shows "reader_get n r = (if r_position r + n \<le> r_limit r
           then Inr (take n (drop (r_position r) (r_bytes r)), r\<lparr>r_position := r_position r + n\<rparr>)
           else Inl Out_of_range)"
  using assms by (auto simp: reader_get_def reader_inv_def reader_available_def size_t_simps memory_def)

lemma scan_bound: "reader_inv r \<Longrightarrow> r_position r + scan P 0 r \<le> r_limit r"
  using length_takeWhile_le [of P "drop (r_position r) (take (r_limit r) (r_bytes r))"]
  by (auto simp: scan_def reader_inv_def)

lemma advance_inv: "reader_inv r \<Longrightarrow> reader_inv (advance len r)"
  by (simp add: advance_def reader_inv_def)

lemma memory_inv: "reader_inv r \<Longrightarrow> r_position r + len \<le> r_limit r \<Longrightarrow>
    memory (r_bytes r) (r_position r) len = Inr (take len (drop (r_position r) (r_bytes r)))"
  by (simp add: memory_def reader_inv_def)

lemma good_get:
  assumes "reader_inv r"
  shows "good (after (reader_get n r))" "good (after (getU8 r))" "good (after (getU16 big r))"
    "good (after (getU24 big r))" "good (after (getU32 big r))" "good (after (getU64 big r))"
  using assms
  by (simp_all add: reader_get_inv getU8_def getU16_def getU24_def getU32_def getU64_def after_def good_def
      Let_def, simp_all add: reader_inv_def)

lemma good_peek:
  assumes "reader_inv r" "after (get r) = Inl Out_of_range \<or>
      (r_position r + n \<le> r_limit r \<and> after (get r) = Inr (r\<lparr>r_position := r_position r + n\<rparr>))"
  shows "good (after (peek_with get n r))"
proof -
  have p: "r\<lparr>r_position := r_position r\<rparr> = r" by (cases r) simp
  show ?thesis
    using assms p by (auto simp: peek_with_def after_def good_def size_sub_def split: sum.splits prod.splits)
qed

lemma getU_after:
  assumes "reader_inv r"
  shows "after (getU8 r) = after (reader_get 1 r)" "after (getU16 big r) = after (reader_get 2 r)"
    "after (getU24 big r) = after (reader_get 3 r)" "after (getU32 big r) = after (reader_get 4 r)"
    "after (getU64 big r) = after (reader_get 8 r)"
  using assms
  by (simp_all add: reader_get_inv getU8_def getU16_def getU24_def getU32_def getU64_def after_def Let_def)

lemma after_get_inv: "reader_inv r \<Longrightarrow> after (reader_get n r) = Inl Out_of_range \<or>
      (r_position r + n \<le> r_limit r \<and> after (reader_get n r) = Inr (r\<lparr>r_position := r_position r + n\<rparr>))"
  by (simp add: reader_get_inv after_def)

lemma good_advance: "reader_inv r \<Longrightarrow> good (Inr (advance len r))"
  by (simp add: good_def advance_inv)

lemma good_unmoved: "reader_inv r \<Longrightarrow> x \<noteq> Inl Undefined_behaviour \<Longrightarrow> good (unmoved r x)"
  by (cases x) (auto simp: good_def unmoved_def)

lemma good_peeks:
  assumes "reader_inv r"
  shows "good (after (peekU8 r))" "good (after (peekU16 big r))" "good (after (peekU24 big r))"
    "good (after (peekU32 big r))" "good (after (peekU64 big r))"
  unfolding peekU8_def peekU16_def peekU24_def peekU32_def peekU64_def
  by (rule good_peek [OF assms], simp only: getU_after [OF assms] after_get_inv [OF assms])+

lemma reader_op_good: "reader_inv r \<Longrightarrow> good (reader_op big op r)"
proof (cases op)
  case (RSeek n)
  then show "reader_inv r \<Longrightarrow> ?thesis"
    by (auto simp: reader_seek_def good_def reader_inv_def)
next
  case RPeek
  then show "reader_inv r \<Longrightarrow> ?thesis"
    by (auto intro!: good_unmoved simp: peek_def reader_inv_def)
next
  case RToString
  then show "reader_inv r \<Longrightarrow> ?thesis"
    by (auto intro!: good_unmoved simp: reader_toString_def memory_def reader_inv_def
        reader_available_def size_t_simps)
next
  case (RReadToNext v c)
  assume "reader_inv r"
  then show ?thesis using RReadToNext scan_bound [of r] advance_inv [of r]
    by (simp add: readToNext_def memory_inv after_def good_def Let_def)
next
  case (RReadLine v)
  assume "reader_inv r"
  then show ?thesis using RReadLine scan_bound [of r] advance_inv [of r]
    by (simp add: readLine_def memory_inv after_def good_def Let_def)
qed (simp_all add: good_get good_peeks skipToChar_def skipWhitespace_def skipToNextLine_def skipNextWord_def
      Let_def good_advance advance_inv)

interpretation reader: machine "reader_step big" reader_inv for big
proof
  fix r op assume "reader_inv r"
  then show "reader_inv (reader_step big r op)"
    using reader_op_good [of r big op] by (simp add: reader_step_def good_def split: sum.splits)
qed

lemma reader_init_inv: "length bytes < size_t_max \<Longrightarrow> reader_inv (reader_init bytes order)"
  by (simp add: reader_init_def reader_inv_def)

text \<open>
  C37: However the reads, peeks, seeks and scans of a BitReader are sequenced, its position
  never passes the limit, and the next such operation never touches memory outside the buffer:
  it succeeds or throws out_of_range. (skip, readNextWord and readNextNumber are not among
  them.)
\<close>

theorem reader_never_leaves_buffer:
  assumes "length bytes < size_t_max"
  shows "reader_inv (foldl (reader_step big) (reader_init bytes order) ops) \<and>
         reader_op big op (foldl (reader_step big) (reader_init bytes order) ops) \<noteq> Inl Undefined_behaviour"
proof -
  have "reader_inv (foldl (reader_step big) (reader_init bytes order) ops)"
    by (rule reader.run_inv) (rule reader_init_inv [OF assms])
  then show ?thesis using reader_op_good [of "foldl (reader_step big) (reader_init bytes order) ops" big op]
    by (auto simp: good_def)
qed

theorem reader_never_leaves_buffer_witness:
  "reader_op True RU16 (foldl (reader_step True) (reader_init [1, 2, 3] Network) [RU8, RPeekU16, RSkipNextWord])
     \<noteq> Inl Undefined_behaviour"
proof -
  have "length [1, 2, 3 :: byte] < size_t_max" by (simp add: size_t_max_def)
  from reader_never_leaves_buffer [OF this] show ?thesis by blast
qed


subsection \<open>Reading a word\<close>

lemma takeWhile_all_app: "list_all P xs \<Longrightarrow> (ys = [] \<or> \<not> P (hd ys)) \<Longrightarrow> takeWhile P (xs @ ys) = xs"
  by (induction xs) (cases ys, auto)

lemma skipWhitespace_blanks:
  assumes "r_bytes r = replicate n 0x20 @ w" "r_position r = 0" "r_limit r = length (r_bytes r)"
    and "w = [] \<or> hd w \<noteq> 0x20"
  shows "skipWhitespace r = (n, r\<lparr>r_position := n\<rparr>)"
  using assms takeWhile_all_app [of "\<lambda>b. b = 0x20" "replicate n (0x20 :: byte)" w]
  by (auto simp: skipWhitespace_def scan_def advance_def list_all_iff Let_def)

text \<open>
  readNextWord on a text that begins with n blanks and a word w returns w when n is at
  most the length of w; with more blanks it reads n characters and more from the start of the
  word, past its end, and past the end of the buffer when the text is not that long.
\<close>

theorem readNextWord_after_blanks:
  assumes "w \<noteq> []" "list_all not_blank w" "rest = [] \<or> \<not> not_blank (hd rest)"
  shows "readNextWord val (reader_init (replicate n 0x20 @ w @ rest) order) =
    (let r = reader_init (replicate n 0x20 @ w @ rest) order in
     if n \<le> length w
     then Inr (length w, val @ w, r\<lparr>r_position := n + length w\<rparr>)
     else let m = n + length (takeWhile not_blank (drop n (w @ rest))) in
          if m > length (w @ rest) then Inl Undefined_behaviour
          else Inr (m, val @ take m (w @ rest), advance m (r\<lparr>r_position := n\<rparr>)))"
proof -
  let ?r = "reader_init (replicate n 0x20 @ w @ rest) order"
  have w: "hd w \<noteq> 0x20" using assms(1,2) by (cases w) (auto simp: not_blank_def)
  have s: "skipWhitespace ?r = (n, ?r\<lparr>r_position := n\<rparr>)"
    using skipWhitespace_blanks [of ?r n "w @ rest"] w assms(1) by (simp add: reader_init_def)
  have sc: "scan not_blank n (?r\<lparr>r_position := n\<rparr>) = n + length (takeWhile not_blank (drop n (w @ rest)))"
    by (simp add: scan_def reader_init_def)
  show ?thesis
  proof (cases "n \<le> length w")
    case True
    have "list_all not_blank (drop n w)" using assms(2) by (auto simp: list_all_iff dest: in_set_dropD)
    then have "takeWhile not_blank (drop n (w @ rest)) = drop n w"
      using True assms(3) by (simp add: takeWhile_all_app)
    then have "scan not_blank n (?r\<lparr>r_position := n\<rparr>) = length w" using sc True by simp
    then show ?thesis using s True
      by (simp add: readNextWord_def memory_def advance_def reader_init_def Let_def)
  next
    case False
    then show ?thesis using s sc
      by (simp add: readNextWord_def memory_def Let_def) (simp add: reader_init_def)
  qed
qed

theorem readNextWord_after_blanks_witness:
  "readNextWord [] (reader_init [0x20, 0x20, 0x20, 0x61, 0x62] Host) = Inl Undefined_behaviour \<and>
   (\<exists>r. readNextWord [] (reader_init [0x20, 0x61, 0x62, 0x0A, 0x63] Host) = Inr (2, [0x61, 0x62], r))"
  using readNextWord_after_blanks [of "[0x61, 0x62]" "[]" "[]" "Suc (Suc (Suc 0))" Host]
    readNextWord_after_blanks [of "[0x61, 0x62]" "[0x0A, 0x63]" "[]" "Suc 0" Host]
  by (simp add: not_blank_def)


subsection \<open>Writers\<close>

definition writer_inv :: "BitWriter \<Rightarrow> bool" where
  "writer_inv w = (w_position w \<le> w_limit w \<and> w_limit w = length (w_bytes w) \<and> w_limit w < size_t_max)"

text \<open>
  A put either throws out_of_range because the bytes do not fit below the limit, or
  stores exactly the bytes at the position, moves past them, and leaves every other byte of
  the buffer and the invariant as they were.
\<close>

theorem writer_put_frame:
  assumes "writer_inv w" "w_position w + length val < size_t_max"
  shows "case writer_put val w of
      Inl e \<Rightarrow> e = Out_of_range \<and> w_limit w < w_position w + length val
    | Inr w' \<Rightarrow> writer_inv w' \<and> w_position w' = w_position w + length val \<and>
        take (w_position w) (w_bytes w') = take (w_position w) (w_bytes w) \<and>
        memory (w_bytes w') (w_position w) (length val) = Inr val \<and>
        drop (w_position w') (w_bytes w') = drop (w_position w') (w_bytes w)"
proof (cases "w_position w + length val \<le> w_limit w")
  case True
  then show ?thesis using assms writer_put_fits [of w val]
    by (auto simp: writer_inv_def memory_def)
next
  case False
  then show ?thesis using assms by (simp add: writer_put_def size_t_simps)
qed

theorem writer_put_frame_witness:
  "case writer_put [7, 8] (writer_init [0, 0, 0] Network) of
     Inl e \<Rightarrow> False | Inr w' \<Rightarrow> writer_inv w' \<and> drop 2 (w_bytes w') = [0]"
proof -
  have "writer_inv (writer_init [0, 0, 0] Network)"
    and "w_position (writer_init [0, 0, 0] Network) + length [7, 8 :: byte] < size_t_max"
    by (simp_all add: writer_inv_def writer_init_def size_t_max_def)
  from writer_put_frame [OF this] show ?thesis
    by (simp add: writer_put_def writer_init_def size_add_def size_t_max_def memcpy_def memory_def)
qed

text \<open>
  An update overwrites the bytes at its position exactly when it ends within the number
  of bytes still free behind the write position, not within the bytes written: otherwise it
  returns false and changes nothing, so a full writer can update nothing.
\<close>

theorem writer_update_spec:
  assumes "writer_inv w" "pos + length val < size_t_max"
  shows "writer_update val pos w =
    (if pos + length val \<le> w_limit w - w_position w
     then Inr (True, w\<lparr>w_bytes := take pos (w_bytes w) @ val @ drop (pos + length val) (w_bytes w)\<rparr>)
     else Inr (False, w))"
  using assms by (auto simp: writer_update_def writer_available_def writer_inv_def size_t_simps memcpy_def)

theorem writer_update_spec_witness:
  "(case putU32 False 1 (writer_init [0, 0, 0, 0, 0] Network) of Inl e \<Rightarrow> False
    | Inr w \<Rightarrow> updateU16 False 0x0A0B 0 w = Inr (False, w) \<and> (\<exists>w'. updateU8 9 0 w = Inr (True, w')))"
proof -
  let ?w = "\<lparr>w_position = 4, w_limit = 5, w_order = Network, w_bytes = [0, 0, 0, 1, 0]\<rparr>"
  have p: "putU32 False 1 (writer_init [0, 0, 0, 0, 0] Network) = Inr ?w"
    by (simp add: putU32_def field32_def writer_put_def writer_init_def size_add_def size_t_max_def memcpy_def
        byte_order_simps)
  have i: "writer_inv ?w" by (simp add: writer_inv_def size_t_max_def)
  have l: "0 + length (field16 False Network 0x0A0B) < size_t_max" "0 + length (field8 9) < size_t_max"
    by (simp_all add: field16_def field8_def size_t_max_def)
  have "updateU16 False 0x0A0B 0 ?w = Inr (False, ?w)"
    using writer_update_spec [OF i l(1)] by (simp add: updateU16_def field16_def)
  moreover have "\<exists>w'. updateU8 9 0 ?w = Inr (True, w')"
    using writer_update_spec [OF i l(2)] by (simp add: updateU8_def field8_def)
  ultimately show ?thesis by (simp only: p sum.case)
qed

primrec dynamic_puts :: "byte list list \<Rightarrow> DynamicBitWriter \<Rightarrow> DynamicBitWriter res" where
  "dynamic_puts [] w = Inr w"
| "dynamic_puts (v # vs) w = (case dynamic_put v w of Inl e \<Rightarrow> Inl e | Inr w' \<Rightarrow> dynamic_puts vs w')"

lemma dynamic_puts_append:
  assumes "dw_offset w + dw_position w = length (dw_buffer w)" "list_all (\<lambda>v. v \<noteq> []) vs"
    "dw_limit w = length (dw_buffer w)"
  shows "dynamic_puts vs w = Inr (w\<lparr>dw_buffer := dw_buffer w @ concat vs,
      dw_limit := length (dw_buffer w @ concat vs), dw_position := dw_position w + length (concat vs)\<rparr>)"
  using assms
proof (induction vs arbitrary: w)
  case (Cons v vs)
  let ?w = "w\<lparr>dw_buffer := dw_buffer w @ v, dw_limit := length (dw_buffer w @ v),
              dw_position := dw_position w + length v\<rparr>"
  have "dynamic_put v w = Inr ?w"
    using Cons.prems by (simp add: dynamic_put_def vector_insert_def)
  then show ?case using Cons.IH [of ?w] Cons.prems by (simp add: add.assoc)
qed simp

text \<open>
  A sequence of non-empty puts on a dynamic writer positioned at the end of its vector
  appends the data in order to what the vector held, whatever its capacity.
\<close>

theorem dynamic_puts_concat:
  assumes "vs \<noteq> []" "list_all (\<lambda>v. v \<noteq> []) vs"
  shows "\<exists>w. dynamic_puts vs (dynamic_init buf capacity (length buf) order) = Inr w \<and>
           dw_buffer w = buf @ concat vs \<and> dw_position w = length (concat vs) \<and>
           dw_limit w = length buf + length (concat vs)"
proof -
  obtain v vs' where vs: "vs = v # vs'" using assms(1) by (cases vs) auto
  let ?w = "(dynamic_init buf capacity (length buf) order)\<lparr>dw_buffer := buf @ v,
      dw_limit := length (buf @ v), dw_position := length v\<rparr>"
  have "dynamic_put v (dynamic_init buf capacity (length buf) order) = Inr ?w"
    using assms(2) vs by (simp add: dynamic_put_def dynamic_init_def vector_insert_def)
  moreover have "dynamic_puts vs' ?w = Inr (?w\<lparr>dw_buffer := dw_buffer ?w @ concat vs',
      dw_limit := length (dw_buffer ?w @ concat vs'), dw_position := dw_position ?w + length (concat vs')\<rparr>)"
    by (rule dynamic_puts_append) (use assms(2) vs in \<open>simp_all add: dynamic_init_def\<close>)
  ultimately show ?thesis using vs by simp
qed

theorem dynamic_puts_concat_witness:
  "\<exists>w. dynamic_puts [[1], [2, 3]] (dynamic_init [9] 16 1 Network) = Inr w \<and> dw_buffer w = [9, 1, 2, 3]"
  using dynamic_puts_concat [of "[[1], [2, 3]]" "[9]" 16 Network] by auto

text \<open>Where the base writer overwrites, the dynamic one inserts: everything behind \<open>pos\<close> moves up.\<close>

lemma dynamic_update_grows:
  "dynamic_update val pos w = Inr (True, w') \<Longrightarrow>
   dw_buffer w' = take (dw_offset w + pos) (dw_buffer w) @ val @ drop (dw_offset w + pos) (dw_buffer w)"
  by (auto simp: dynamic_update_def vector_insert_def split: if_splits)

end
