(* ===== verification/Text_Encoders.thy ===== *)
theory Text_Encoders
  imports Base64 Bit_Buffer
begin

text \<open>
  The other text encodings: the block coders of \<open>base/token/Encoders.cpp\<close> (Base64 with a choice
  of digits, and hexadecimal), the streaming hexadecimal coder of \<open>base/hex.h\<close>, the random strings of
  \<open>util.cpp\<close> and the version 4 UUID of \<open>base/uuid.h\<close>. Strings are lists of bytes.
\<close>

definition npos :: nat where
  "npos = size_t_max - 1"

subsection \<open>Base64Encoder\<close>

definition DIGITS_safe :: "byte list" where
  "DIGITS_safe = bytes_of ''ABCDEFGHIJKLMNOPQRSTUVWXYZabcdefghijklmnopqrstuvwxyz0123456789+!''"

definition DIGITS_std :: "byte list" where
  "DIGITS_std = bytes_of ''ABCDEFGHIJKLMNOPQRSTUVWXYZabcdefghijklmnopqrstuvwxyz0123456789+/''"

definition PCHAR_safe :: byte where "PCHAR_safe = 0x5F"
definition PCHAR_std :: byte where "PCHAR_std = 0x3D"

text \<open>
  The loop of \<open>encode\<close> over the bytes left; \<open>digits\<close> has 64 characters.
\<close>

fun b64_groups :: "byte list \<Rightarrow> byte \<Rightarrow> byte list \<Rightarrow> byte list" where
  "b64_groups digits pad (a # b # c # ip) =
     [digits ! unat (drop_bit 2 a),
      digits ! unat (push_bit 4 (a AND 0x03) OR drop_bit 4 b),
      digits ! unat (push_bit 2 (b AND 0x0F) OR drop_bit 6 c),
      digits ! unat (c AND 0x3F)] @ b64_groups digits pad ip"
| "b64_groups digits pad [a, b] =
     [digits ! unat (drop_bit 2 a),
      digits ! unat (push_bit 4 (a AND 0x03) OR drop_bit 4 b),
      digits ! unat (push_bit 2 (b AND 0x0F)),
      pad]"
| "b64_groups digits pad [a] =
     [digits ! unat (drop_bit 2 a), digits ! unat (push_bit 4 (a AND 0x03)), pad, pad]"
| "b64_groups digits pad [] = []"

definition Base64Encoder_encode ::
  "byte list \<Rightarrow> byte list \<Rightarrow> nat \<Rightarrow> nat \<Rightarrow> byte list \<Rightarrow> byte \<Rightarrow> byte list res" where
  "Base64Encoder_encode out inp pos n digits pad =
     (if pos \<ge> length inp then Inr out
      else (let n' = (if n = npos \<or> size_add pos n \<ge> length inp then length inp - pos else n) in
            if pos + n' > length inp then Inl Undefined_behaviour
            else Inr (out @ b64_groups digits pad (take n' (drop pos inp)))))"

text \<open>
  The position of a character in \<open>digits\<close>, and one round of the loop of \<open>decode\<close>: a pad counts as a zero digit
  and drops an output byte, any other foreign character is skipped, the fourth digit flushes.
\<close>

fun find_byte :: "byte \<Rightarrow> byte list \<Rightarrow> nat option" where
  "find_byte c [] = None"
| "find_byte c (d # ds) = (if d = c then Some 0 else map_option Suc (find_byte c ds))"

record b64dec =
  bd_outval :: u32
  bd_decodeChars :: nat
  bd_outcount :: int

definition b64dec_init :: b64dec where
  "b64dec_init = \<lparr>bd_outval = 0, bd_decodeChars = 0, bd_outcount = 3\<rparr>"

definition b64dec_digit :: "b64dec \<Rightarrow> int \<Rightarrow> nat \<Rightarrow> b64dec \<times> byte list" where
  "b64dec_digit st outcount value =
     (let outval = push_bit 6 (bd_outval st) OR word_of_nat value in
      if bd_decodeChars st + 1 = 4
      then (b64dec_init,
            take (nat outcount) [ucast (drop_bit 16 outval), ucast (drop_bit 8 outval), ucast outval])
      else (\<lparr>bd_outval = outval, bd_decodeChars = bd_decodeChars st + 1, bd_outcount = outcount\<rparr>, []))"

definition b64dec_char :: "byte list \<Rightarrow> byte \<Rightarrow> b64dec \<Rightarrow> byte \<Rightarrow> b64dec \<times> byte list" where
  "b64dec_char digits pad st c =
     (if c = pad then b64dec_digit st (bd_outcount st - 1) 0
      else case find_byte c digits of
             None \<Rightarrow> (st, [])
           | Some value \<Rightarrow> b64dec_digit st (bd_outcount st) value)"

primrec b64dec_chars :: "byte list \<Rightarrow> byte \<Rightarrow> b64dec \<Rightarrow> byte list \<Rightarrow> byte list" where
  "b64dec_chars digits pad st [] = []"
| "b64dec_chars digits pad st (c # cs) =
     (case b64dec_char digits pad st c of (st', out) \<Rightarrow> out @ b64dec_chars digits pad st' cs)"

text \<open>The end of the range \<open>[pos, +n)\<close>; a sum that wraps around ends before it starts.\<close>

definition range_end :: "byte list \<Rightarrow> nat \<Rightarrow> nat \<Rightarrow> nat" where
  "range_end inp pos n =
     (if n \<noteq> npos then (let epos = size_add pos n in if epos \<ge> length inp then length inp else epos)
      else length inp)"

definition Base64Encoder_decode ::
  "byte list \<Rightarrow> byte list \<Rightarrow> nat \<Rightarrow> nat \<Rightarrow> byte list \<Rightarrow> byte \<Rightarrow> byte list" where
  "Base64Encoder_decode out inp pos n digits pad =
     (if pos \<ge> length inp then out
      else out @ b64dec_chars digits pad b64dec_init (take (range_end inp pos n - pos) (drop pos inp)))"

subsection \<open>HexEncoder\<close>

definition DIGITS_decode :: "byte list" where
  "DIGITS_decode =
     [
      0xFF, 0xFF, 0xFF, 0xFF, 0xFF, 0xFF, 0xFF, 0xFF, 0xFF, 0xFF, 0xFF, 0xFF, 0xFF, 0xFF, 0xFF, 0xFF,
      0xFF, 0xFF, 0xFF, 0xFF, 0xFF, 0xFF, 0xFF, 0xFF, 0xFF, 0xFF, 0xFF, 0xFF, 0xFF, 0xFF, 0xFF, 0xFF,
      0xFF, 0xFF, 0xFF, 0xFF, 0xFF, 0xFF, 0xFF, 0xFF, 0xFF, 0xFF, 0xFF, 0xFF, 0xFF, 0xFF, 0xFF, 0xFF,
      0, 1, 2, 3, 4, 5, 6, 7, 8, 9, 0xFF, 0xFF, 0xFF, 0xFF, 0xFF, 0xFF,
      0xFF, 10, 11, 12, 13, 14, 15, 0xFF, 0xFF, 0xFF, 0xFF, 0xFF, 0xFF, 0xFF, 0xFF, 0xFF,
      0xFF, 0xFF, 0xFF, 0xFF, 0xFF, 0xFF, 0xFF, 0xFF, 0xFF, 0xFF, 0xFF, 0xFF, 0xFF, 0xFF, 0xFF, 0xFF,
      0xFF, 10, 11, 12, 13, 14, 15, 0xFF, 0xFF, 0xFF, 0xFF, 0xFF, 0xFF, 0xFF, 0xFF, 0xFF,
      0xFF, 0xFF, 0xFF, 0xFF, 0xFF, 0xFF, 0xFF, 0xFF, 0xFF, 0xFF, 0xFF, 0xFF, 0xFF, 0xFF, 0xFF, 0xFF,
      0xFF, 0xFF, 0xFF, 0xFF, 0xFF, 0xFF, 0xFF, 0xFF, 0xFF, 0xFF, 0xFF, 0xFF, 0xFF, 0xFF, 0xFF, 0xFF,
      0xFF, 0xFF, 0xFF, 0xFF, 0xFF, 0xFF, 0xFF, 0xFF, 0xFF, 0xFF, 0xFF, 0xFF, 0xFF, 0xFF, 0xFF, 0xFF,
      0xFF, 0xFF, 0xFF, 0xFF, 0xFF, 0xFF, 0xFF, 0xFF, 0xFF, 0xFF, 0xFF, 0xFF, 0xFF, 0xFF, 0xFF, 0xFF,
      0xFF, 0xFF, 0xFF, 0xFF, 0xFF, 0xFF, 0xFF, 0xFF, 0xFF, 0xFF, 0xFF, 0xFF, 0xFF, 0xFF, 0xFF, 0xFF,
      0xFF, 0xFF, 0xFF, 0xFF, 0xFF, 0xFF, 0xFF, 0xFF, 0xFF, 0xFF, 0xFF, 0xFF, 0xFF, 0xFF, 0xFF, 0xFF,
      0xFF, 0xFF, 0xFF, 0xFF, 0xFF, 0xFF, 0xFF, 0xFF, 0xFF, 0xFF, 0xFF, 0xFF, 0xFF, 0xFF, 0xFF, 0xFF,
      0xFF, 0xFF, 0xFF, 0xFF, 0xFF, 0xFF, 0xFF, 0xFF, 0xFF, 0xFF, 0xFF, 0xFF, 0xFF, 0xFF, 0xFF, 0xFF,
      0xFF, 0xFF, 0xFF, 0xFF, 0xFF, 0xFF, 0xFF, 0xFF, 0xFF, 0xFF, 0xFF, 0xFF, 0xFF, 0xFF, 0xFF, 0xFF]"

definition decodeChar :: "byte \<Rightarrow> byte" where
  "decodeChar c = DIGITS_decode ! unat c"

text \<open>The loop of \<open>decode\<close>: it returns at the first pair that is not hexadecimal.\<close>

fun hex_pairs :: "byte list \<Rightarrow> byte list" where
  "hex_pairs (h # l # ip) =
     (let nhigh = decodeChar h; nlow = decodeChar l in
      if nhigh = 0xFF \<or> nlow = 0xFF then []
      else (push_bit 4 nhigh OR nlow) # hex_pairs ip)"
| "hex_pairs _ = []"

definition HexEncoder_decode :: "byte list \<Rightarrow> byte list \<Rightarrow> nat \<Rightarrow> nat \<Rightarrow> byte list" where
  "HexEncoder_decode out inp pos n =
     (if pos \<ge> length inp then out
      else (let n' = (if n = npos \<or> size_add pos n \<ge> length inp then length inp - pos else n);
                n'' = (if n' mod 2 \<noteq> 0 then n' - 1 else n')
            in out @ hex_pairs (take (size_add pos n'' - pos) (drop pos inp))))"

definition hex_lower :: "byte list" where "hex_lower = bytes_of ''0123456789abcdef''"
definition hex_upper :: "byte list" where "hex_upper = bytes_of ''0123456789ABCDEF''"

definition hex_byte :: "byte list \<Rightarrow> byte \<Rightarrow> byte list" where
  "hex_byte D c = [D ! unat (drop_bit 4 c), D ! unat (c AND 0x0F)]"

definition HexEncoder_encode :: "byte list \<Rightarrow> byte list \<Rightarrow> bool \<Rightarrow> nat \<Rightarrow> nat \<Rightarrow> byte list" where
  "HexEncoder_encode out inp lower pos n =
     (if pos \<ge> length inp then out
      else (let D = (if \<not> lower then hex_upper else hex_lower)
            in out @ concat (map (hex_byte D) (take (range_end inp pos n - pos) (drop pos inp)))))"

subsection \<open>The streaming hexadecimal coder\<close>

record HexEnc =
  he_linePos :: int
  he_lineLength :: int
  he_uppercase :: nat

definition HexEnc_init :: HexEnc where
  "HexEnc_init = \<lparr>he_linePos = 0, he_lineLength = 72, he_uppercase = 0\<rparr>"

definition setUppercase :: "bool \<Rightarrow> HexEnc \<Rightarrow> HexEnc" where
  "setUppercase flag st = st\<lparr>he_uppercase := (if flag then 16 else 0)\<rparr>"

definition hex_digits :: "byte list" where
  "hex_digits = bytes_of ''0123456789abcdef0123456789ABCDEF''"

definition hex_enc_char :: "HexEnc \<Rightarrow> byte \<Rightarrow> HexEnc \<times> byte list" where
  "hex_enc_char st c =
     (let code = [hex_digits ! (he_uppercase st + unat (drop_bit 4 c AND 0x0F)),
                  hex_digits ! (he_uppercase st + unat (c AND 0x0F))] in
      if he_lineLength st > 0
      then (let p = he_linePos st + 2 in
            if p \<ge> he_lineLength st then (st\<lparr>he_linePos := 0\<rparr>, code @ [0x0A])
            else (st\<lparr>he_linePos := p\<rparr>, code))
      else (st, code))"

primrec hex_encode :: "HexEnc \<Rightarrow> byte list \<Rightarrow> HexEnc \<times> byte list" where
  "hex_encode st [] = (st, [])"
| "hex_encode st (c # cs) =
     (case hex_enc_char st c of (st', out) \<Rightarrow> (case hex_encode st' cs of (st'', out') \<Rightarrow> (st'', out @ out')))"

definition hex_encode_all :: "byte list \<Rightarrow> byte list" where
  "hex_encode_all bytes = concat (map (\<lambda>c. [hex_lower ! unat (drop_bit 4 c AND 0x0F), hex_lower ! unat (c AND 0x0F)]) bytes)"

definition iswspace :: "byte \<Rightarrow> bool" where
  "iswspace c = (c = 0x20 \<or> c = 0x0D \<or> c = 0x09 \<or> c = 0x0A)"

definition nybble :: "byte \<Rightarrow> int res" where
  "nybble c = (let n = sint c in
     if n \<ge> 48 \<and> n \<le> 57 then Inr (n - 48)
     else if n \<ge> 65 \<and> n \<le> 70 then Inr (n - 55)
     else if n \<ge> 97 \<and> n \<le> 102 then Inr (n - 87)
     else Inl (Runtime_error ''Invalid hex format''))"

text \<open>
  The decoder keeps a digit whose partner is in the next chunk; 0 stands for none. \<open>readnext\<close> works on the bytes left,
  \<open>start\<close> is \<open>rpos == 0\<close>; it yields the character, the bytes left and the stored digit, and its result is
  whether any are left.
\<close>

definition readnext :: "bool \<Rightarrow> byte \<Rightarrow> byte list \<Rightarrow> byte \<times> byte list \<times> byte" where
  "readnext start lastbyte inbuf =
     (if start \<and> lastbyte \<noteq> 0 then (lastbyte, inbuf, 0)
      else (case dropWhile iswspace inbuf of
              [] \<Rightarrow> (last inbuf, [], lastbyte)
            | c # rest \<Rightarrow> (c, rest, lastbyte)))"

lemma readnext_shrinks: "inbuf \<noteq> [] \<Longrightarrow> readnext start lb inbuf = (c, rest, lb') \<Longrightarrow>
    length rest < length inbuf \<or> (start \<and> lb \<noteq> 0 \<and> rest = inbuf \<and> lb' = 0)"
  using length_dropWhile_le [of iswspace inbuf]
  by (auto simp: readnext_def split: if_splits list.splits)

lemma readnext_twice: "inbuf \<noteq> [] \<Longrightarrow> (c, rest, lb) = readnext start lb0 inbuf \<Longrightarrow> rest \<noteq> [] \<Longrightarrow>
    (c', rest', lb') = readnext False lb rest \<Longrightarrow> length rest' < length inbuf"
  using readnext_shrinks [of inbuf start lb0 c rest lb] readnext_shrinks [of rest False lb c' rest' lb']
  by fastforce

text \<open>
  The loop of \<open>decode\<close>. \<open>memcpy(outbuf, &n, 1)\<close> stores the first byte of the \<open>int\<close> in memory, so \<open>big\<close> is a parameter.
\<close>

function hex_decode_loop :: "bool \<Rightarrow> bool \<Rightarrow> byte \<Rightarrow> byte list \<Rightarrow> byte list \<Rightarrow> (byte \<times> byte list) res" where
  "hex_decode_loop big start lastbyte inbuf out =
     (if inbuf = [] then Inr (lastbyte, out)
      else (case readnext start lastbyte inbuf of (c, rest, lb) \<Rightarrow>
        if rest = [] then Inr (if \<not> iswspace c then c else lb, out)
        else (case nybble c of Inl e \<Rightarrow> Inl e
          | Inr hi \<Rightarrow> (case readnext False lb rest of (c', rest', lb') \<Rightarrow>
              (case nybble c' of Inl e \<Rightarrow> Inl e
               | Inr lo \<Rightarrow> hex_decode_loop big False lb' rest'
                   (out @ [hd (mem32 big (word_of_int (hi * 16) OR word_of_int lo))]))))))"
  by pat_completeness auto
termination
  by (relation "measure (\<lambda>(big, start, lastbyte, inbuf, out). length inbuf)") (auto intro: readnext_twice)

declare hex_decode_loop.simps [simp del]

definition hex_decode :: "bool \<Rightarrow> byte \<Rightarrow> byte list \<Rightarrow> (byte \<times> byte list) res" where
  "hex_decode big lastbyte inbuf = hex_decode_loop big True lastbyte inbuf []"

subsection \<open>Random strings and UUIDs\<close>

text \<open>The random bytes are a parameter: \<open>rnd\<close> is what \<open>nextChar\<close> returned, one byte per character.\<close>

definition randomBinaryString :: "byte list \<Rightarrow> bool \<Rightarrow> byte list res" where
  "randomBinaryString rnd doBase64 =
     (if doBase64 then res_bind (Encoder_encode init_encodestate rnd) (\<lambda>(_, out). Inr out) else Inr rnd)"

definition randomString :: "byte list \<Rightarrow> byte list res" where
  "randomString rnd = res_bind (randomBinaryString rnd True) (\<lambda>s. Inr (take (length rnd) s))"

text \<open>Its callers ask for 16 characters; for any number but one, for which the encoder has no room, it is this text.\<close>

definition random_text :: "byte list \<Rightarrow> byte list" where
  "random_text rnd = take (length rnd) (encode_text rnd LINE_LENGTH)"

lemma randomString_result: "randomString rnd = (if length rnd = 1 then Inl Undefined_behaviour else Inr (random_text rnd))"
proof -
  have "init_encodestate\<lparr>e_linelength := LINE_LENGTH\<rparr> = init_encodestate" by (simp add: init_encodestate_def)
  then show ?thesis
    using encode_result [of rnd LINE_LENGTH]
    by (auto simp: randomString_def randomBinaryString_def Encoder_encode_def encode_def random_text_def split: if_splits)
qed

definition hexmap :: "byte list" where
  "hexmap = bytes_of ''0123456789ABCDEF''"

definition byteTohex :: "byte list \<Rightarrow> byte list" where
  "byteTohex data = concat (map (\<lambda>d. [hexmap ! unat (drop_bit 4 (d AND 0xF0)), hexmap ! unat (d AND 0x0F)]) data)"

text \<open>
  The 36 characters of \<open>uuid\<close>. Its \<open>memset\<close> clears one byte more than the array \<open>uuid\<close> has; the value is that of
  a build in which the stray byte does no harm.
\<close>

definition uuid :: "byte list \<Rightarrow> byte list" where
  "uuid rnd =
     (let abData = random_text rnd;
          abData = abData[6 := 0x40 OR (abData ! 6 AND 0x0F)];
          abData = abData[8 := 0x80 OR (abData ! 8 AND 0x3F)];
          strHex = byteTohex (take 16 abData)
      in take 8 strHex @ [0x2D] @ take 4 (drop 8 strHex) @ [0x2D] @ take 4 (drop 12 strHex) @ [0x2D]
         @ take 4 (drop 16 strHex) @ [0x2D] @ take 12 (drop 20 strHex))"

subsection \<open>Base64Encoder: decoding inverts encoding\<close>

text \<open>What makes a set of digits usable.\<close>

definition digits_ok :: "byte list \<Rightarrow> byte \<Rightarrow> bool" where
  "digits_ok digits pad = (length digits = 64 \<and> distinct digits \<and> pad \<notin> set digits)"

lemma find_byte_nth: "distinct ds \<Longrightarrow> i < length ds \<Longrightarrow> find_byte (ds ! i) ds = Some i"
proof (induction ds arbitrary: i)
  case (Cons d ds)
  then show ?case by (cases i) auto
qed simp

lemma sextet_unat: "(v :: byte) AND 0x3F = v \<Longrightarrow> unat v < 64"
proof -
  assume v: "v AND 0x3F = v"
  have "unat (v AND mask 6) < 2 ^ 6" by (simp only: unat_and_mask) simp
  then show ?thesis using v by (simp add: mask_numeral)
qed

lemma b64dec_digit_char:
  assumes "digits_ok digits pad" "(v :: byte) AND 0x3F = v"
  shows "b64dec_char digits pad st (digits ! unat v) = b64dec_digit st (bd_outcount st) (unat v)"
proof -
  have "unat v < length digits" using assms(1) sextet_unat [OF assms(2)] by (simp add: digits_ok_def)
  then have "digits ! unat v \<noteq> pad" "find_byte (digits ! unat v) digits = Some (unat v)"
    using assms(1) nth_mem find_byte_nth by (auto simp: digits_ok_def)
  then show ?thesis by (simp add: b64dec_char_def)
qed

lemma byte_bit_out: "8 \<le> n \<Longrightarrow> \<not> bit (b :: byte) n"
  by (auto dest: bit_imp_le_length)

lemma sextets_of_bytes:
  "drop_bit 2 a AND 0x3F = drop_bit 2 (a :: byte)"
  "(push_bit 4 (a AND 0x03) OR drop_bit 4 b) AND 0x3F = push_bit 4 (a AND 0x03) OR drop_bit 4 (b :: byte)"
  "(push_bit 2 (b AND 0x0F) OR drop_bit 6 c) AND 0x3F = push_bit 2 (b AND 0x0F) OR drop_bit 6 (c :: byte)"
  "(c AND 0x3F) AND 0x3F = c AND (0x3F :: byte)"
  "push_bit 4 (a AND 0x03) AND 0x3F = push_bit 4 (a AND (0x03 :: byte))"
  "push_bit 2 (b AND 0x0F) AND 0x3F = push_bit 2 (b AND (0x0F :: byte))"
  unfolding sextets by (rule bit_word_eqI, auto simp: bit_simps dest: bit_imp_le_length)+

definition join4 :: "byte \<Rightarrow> byte \<Rightarrow> byte \<Rightarrow> byte \<Rightarrow> u32" where
  "join4 v w x y = push_bit 6 (push_bit 6 (push_bit 6 (ucast v) OR ucast w) OR ucast x) OR ucast y"

lemma join4_bytes:
  "ucast (drop_bit 16 (join4 (drop_bit 2 a) (push_bit 4 (a AND 0x03) OR drop_bit 4 b) x y)) = (a :: byte)"
  "ucast (drop_bit 8 (join4 v (push_bit 4 (a AND 0x03) OR drop_bit 4 b) (push_bit 2 (b AND 0x0F) OR drop_bit 6 c) y)) = (b :: byte)"
  "ucast (join4 v w (push_bit 2 (b AND 0x0F) OR drop_bit 6 c) (c AND 0x3F)) = (c :: byte)"
proof -
  show "ucast (drop_bit 16 (join4 (drop_bit 2 a) (push_bit 4 (a AND 0x03) OR drop_bit 4 b) x y)) = a"
  proof (rule bit_word_eqI)
    fix n :: nat assume "n < LENGTH(8)"
    then consider "n < 2" | "2 \<le> n" "n < 8" by fastforce
    then show "bit (ucast (drop_bit 16 (join4 (drop_bit 2 a) (push_bit 4 (a AND 0x03) OR drop_bit 4 b) x y)) :: byte) n = bit a n"
      unfolding sextets join4_def by cases (auto simp: bit_simps byte_bit_out Suc_Suc_diff)
  qed
  show "ucast (drop_bit 8 (join4 v (push_bit 4 (a AND 0x03) OR drop_bit 4 b) (push_bit 2 (b AND 0x0F) OR drop_bit 6 c) y)) = b"
  proof (rule bit_word_eqI)
    fix n :: nat assume "n < LENGTH(8)"
    then consider "n < 4" | "4 \<le> n" "n < 8" by fastforce
    then show "bit (ucast (drop_bit 8 (join4 v (push_bit 4 (a AND 0x03) OR drop_bit 4 b) (push_bit 2 (b AND 0x0F) OR drop_bit 6 c) y)) :: byte) n = bit b n"
      unfolding sextets join4_def by cases (auto simp: bit_simps byte_bit_out)
  qed
  show "ucast (join4 v w (push_bit 2 (b AND 0x0F) OR drop_bit 6 c) (c AND 0x3F)) = c"
  proof (rule bit_word_eqI)
    fix n :: nat assume "n < LENGTH(8)"
    then consider "n < 6" | "6 \<le> n" "n < 8" by fastforce
    then show "bit (ucast (join4 v w (push_bit 2 (b AND 0x0F) OR drop_bit 6 c) (c AND 0x3F)) :: byte) n = bit c n"
      unfolding sextets join4_def by cases (auto simp: bit_simps byte_bit_out)
  qed
qed


lemma word_of_nat_unat: "(word_of_nat (unat (v :: byte)) :: u32) = ucast v"
  by (rule bit_word_eqI) (auto simp: bit_simps byte_bit_out)

lemma b64dec_four:
  assumes d: "digits_ok digits pad"
    and v: "v AND 0x3F = v" "w AND 0x3F = w" "x AND 0x3F = x" "y AND 0x3F = y"
  shows "b64dec_chars digits pad b64dec_init
           (digits ! unat v # digits ! unat w # digits ! unat x # digits ! unat y # cs) =
         [ucast (drop_bit 16 (join4 v w x y)), ucast (drop_bit 8 (join4 v w x y)), ucast (join4 v w x y)]
         @ b64dec_chars digits pad b64dec_init cs"
  by (simp add: b64dec_digit_char [OF d v(1)] b64dec_digit_char [OF d v(2)] b64dec_digit_char [OF d v(3)]
      b64dec_digit_char [OF d v(4)] b64dec_digit_def b64dec_init_def word_of_nat_unat join4_def Let_def
      numeral_3_eq_3)

lemma b64dec_pad_one:
  assumes d: "digits_ok digits pad"
    and v: "v AND 0x3F = v" "w AND 0x3F = w" "x AND 0x3F = x"
  shows "b64dec_chars digits pad b64dec_init [digits ! unat v, digits ! unat w, digits ! unat x, pad] =
         [ucast (drop_bit 16 (join4 v w x 0)), ucast (drop_bit 8 (join4 v w x 0))]"
  by (simp add: b64dec_digit_char [OF d v(1)] b64dec_digit_char [OF d v(2)] b64dec_digit_char [OF d v(3)]
      b64dec_digit_def b64dec_init_def word_of_nat_unat join4_def Let_def b64dec_char_def [of _ pad _ pad]
      numeral_2_eq_2)

lemma b64dec_pad_two:
  assumes d: "digits_ok digits pad"
    and v: "v AND 0x3F = v" "w AND 0x3F = w"
  shows "b64dec_chars digits pad b64dec_init [digits ! unat v, digits ! unat w, pad, pad] =
         [ucast (drop_bit 16 (join4 v w 0 0))]"
  by (simp add: b64dec_digit_char [OF d v(1)] b64dec_digit_char [OF d v(2)]
      b64dec_digit_def b64dec_init_def word_of_nat_unat join4_def Let_def b64dec_char_def [of _ pad _ pad])

lemma b64_groups_decode:
  assumes "digits_ok digits pad"
  shows "b64dec_chars digits pad b64dec_init (b64_groups digits pad ip) = ip"
  using assms
proof (induction digits pad ip rule: b64_groups.induct)
  case (1 digits pad a b c ip)
  note d = 1(2)
  show ?case
    by (simp only: b64_groups.simps append.simps b64dec_four [OF d sextets_of_bytes(1-4)] join4_bytes 1(1) [OF d])
next
  case (2 digits pad a b)
  then show ?case
    using b64dec_pad_one [OF _ sextets_of_bytes(1,2,6)] join4_bytes(1) join4_bytes(2) [where c = 0]
    by (simp only: b64_groups.simps drop_bit_0 or.right_neutral) simp
next
  case (3 digits pad a)
  then show ?case
    using b64dec_pad_two [OF _ sextets_of_bytes(1,5)] join4_bytes(1) [where b = 0]
    by (simp only: b64_groups.simps drop_bit_0 or.right_neutral) simp
qed simp


lemma bytes_of_digits:
  "DIGITS_std = [65, 66, 67, 68, 69, 70, 71, 72, 73, 74, 75, 76, 77, 78, 79, 80, 81, 82, 83, 84, 85, 86, 87, 88, 89, 90,
     97, 98, 99, 100, 101, 102, 103, 104, 105, 106, 107, 108, 109, 110, 111, 112, 113, 114, 115, 116, 117, 118, 119, 120, 121, 122,
     48, 49, 50, 51, 52, 53, 54, 55, 56, 57, 43, 47]"
  "DIGITS_safe = [65, 66, 67, 68, 69, 70, 71, 72, 73, 74, 75, 76, 77, 78, 79, 80, 81, 82, 83, 84, 85, 86, 87, 88, 89, 90,
     97, 98, 99, 100, 101, 102, 103, 104, 105, 106, 107, 108, 109, 110, 111, 112, 113, 114, 115, 116, 117, 118, 119, 120, 121, 122,
     48, 49, 50, 51, 52, 53, 54, 55, 56, 57, 43, 33]"
  by (simp_all add: DIGITS_std_def DIGITS_safe_def bytes_of_def)

lemma digits_std_ok: "digits_ok DIGITS_std PCHAR_std" and digits_safe_ok: "digits_ok DIGITS_safe PCHAR_safe"
  by (simp_all add: digits_ok_def bytes_of_digits PCHAR_std_def PCHAR_safe_def)

interpretation token64: codec "b64_groups digits pad" "b64dec_chars digits pad b64dec_init" "\<lambda>_. digits_ok digits pad" for digits pad
  by unfold_locales (rule b64_groups_decode)

text \<open>
  The token Base64Encoder, with any set of 64 different digits and a pad that is not
  among them (both sets of the code are such), decodes what it encodes from a position of a
  string to the rest of that string, appended to the output.
\<close>

theorem Base64Encoder_roundtrip:
  assumes "digits_ok digits pad"
  shows "\<exists>code. Base64Encoder_encode [] inp pos npos digits pad = Inr code \<and>
                Base64Encoder_decode out code 0 npos digits pad = out @ drop pos inp"
proof (cases "pos < length inp")
  case True
  moreover have "b64_groups digits pad (drop pos inp) \<noteq> []"
    using token64.dec_enc [of digits pad "drop pos inp", OF assms] True
    by (metis b64dec_chars.simps(1) drop_eq_Nil not_le)
  ultimately show ?thesis using token64.dec_enc [of digits pad "drop pos inp", OF assms]
    by (simp add: Base64Encoder_encode_def Base64Encoder_decode_def range_end_def)
qed (simp add: Base64Encoder_encode_def Base64Encoder_decode_def)

theorem Base64Encoder_roundtrip_witness:
  "\<exists>code. Base64Encoder_encode [] [1, 2, 3, 250] 1 npos DIGITS_safe PCHAR_safe = Inr code \<and>
          Base64Encoder_decode [9] code 0 npos DIGITS_safe PCHAR_safe = [9, 2, 3, 250]"
  using Base64Encoder_roundtrip [OF digits_safe_ok, of "[1, 2, 3, 250]" 1 "[9]"] by simp

subsection \<open>Hexadecimal digits\<close>

lemma hex_lists:
  "hex_lower = [48, 49, 50, 51, 52, 53, 54, 55, 56, 57, 97, 98, 99, 100, 101, 102]"
  "hex_upper = [48, 49, 50, 51, 52, 53, 54, 55, 56, 57, 65, 66, 67, 68, 69, 70]"
  "hex_digits = hex_lower @ hex_upper" "hexmap = hex_upper"
  by (simp_all add: hex_lower_def hex_upper_def hex_digits_def hexmap_def bytes_of_def)

lemma decodeChar_digits:
  "map decodeChar hex_lower = [0, 1, 2, 3, 4, 5, 6, 7, 8, 9, 10, 11, 12, 13, 14, 15]"
  "map decodeChar hex_upper = [0, 1, 2, 3, 4, 5, 6, 7, 8, 9, 10, 11, 12, 13, 14, 15]"
  by (simp_all add: hex_lists decodeChar_def DIGITS_decode_def)

lemma upto16: "map of_nat [0..<16] = [0, 1, 2, 3, 4, 5, 6, 7, 8, 9, 10, 11, 12, 13, 14, 15 :: 'a::semiring_1]"
proof -
  have "[0..<16] = [0, 1, 2, 3, 4, 5, 6, 7, 8, 9, 10, 11, 12, 13, 14, 15]" by code_simp
  then show ?thesis by simp
qed

lemma decodeChar_nth:
  assumes "D = hex_lower \<or> D = hex_upper" "i < 16"
  shows "decodeChar (D ! i) = of_nat i"
proof -
  have "length D = 16" using assms(1) by (auto simp: hex_lists)
  then have "decodeChar (D ! i) = map decodeChar D ! i" using assms(2) by simp
  also have "map decodeChar D = map of_nat [0..<16]"
    using assms(1) decodeChar_digits by (simp only: upto16) blast
  finally show ?thesis using assms(2) by simp
qed

lemma nibble_bounds: "unat (drop_bit 4 (c :: byte)) < 16" "unat (c AND 0x0F) < 16"
proof -
  have "unat c < 256" using unsigned_less [of c] by (simp del: unsigned_less)
  then show "unat (drop_bit 4 c) < 16" by (simp only: unat_drop_bit_eq) (simp add: drop_bit_eq_div)
  have "unat (c AND mask 4) < 2 ^ 4" by (simp only: unat_and_mask) simp
  then show "unat (c AND 0x0F) < 16" by (simp add: mask_numeral)
qed

lemma nibble_neq: "unat (n :: byte) < 16 \<Longrightarrow> n \<noteq> 0xFF"
  by auto

lemma nibbles:
  "push_bit 4 (drop_bit 4 c) OR (c AND 0x0F) = (c :: byte)" "drop_bit 4 c AND 0x0F = drop_bit 4 (c :: byte)"
  "drop_bit 4 (c AND 0xF0) = drop_bit 4 (c :: byte)"
  unfolding sextets by (rule bit_word_eqI, auto simp: bit_simps byte_bit_out dest: bit_imp_le_length)+

lemma hex_pairs_bytes:
  assumes "D = hex_lower \<or> D = hex_upper"
  shows "hex_pairs (concat (map (hex_byte D) bs)) = bs"
proof (induction bs)
  case (Cons c bs)
  have "decodeChar (D ! unat (drop_bit 4 c)) = drop_bit 4 c" "decodeChar (D ! unat (c AND 0x0F)) = c AND 0x0F"
    by (simp_all only: decodeChar_nth [OF assms] nibble_bounds of_nat_unat ucast_id)
  then show ?case
    using Cons nibble_neq [OF nibble_bounds(1) [of c]] nibble_neq [OF nibble_bounds(2) [of c]]
    by (simp add: hex_byte_def Let_def nibbles)
qed simp

lemma length_hex_bytes: "length (concat (map (hex_byte D) bs)) = 2 * length bs"
  by (induction bs) (simp_all add: hex_byte_def)

text \<open>
  HexEncoder::decode recovers the bytes HexEncoder::encode wrote, in either case.
\<close>

theorem HexEncoder_roundtrip:
  assumes "2 * length inp < npos"
  shows "HexEncoder_decode out (HexEncoder_encode [] inp lower pos npos) 0 npos = out @ drop pos inp"
proof (cases "pos < length inp")
  case True
  let ?D = "if \<not> lower then hex_upper else hex_lower"
  let ?code = "concat (map (hex_byte ?D) (drop pos inp))"
  have l: "length ?code = 2 * (length inp - pos)" by (simp only: length_hex_bytes length_drop)
  have e: "HexEncoder_encode [] inp lower pos npos = ?code"
    using True by (simp add: HexEncoder_encode_def range_end_def Let_def)
  have "hex_pairs ?code = drop pos inp" by (rule hex_pairs_bytes) simp
  moreover have "size_add 0 (length ?code) = length ?code"
    using assms l by (simp add: size_add_def npos_def)
  ultimately show ?thesis
    using True l by (simp only: e HexEncoder_decode_def) (simp add: Let_def)
qed (simp add: HexEncoder_encode_def HexEncoder_decode_def)

theorem HexEncoder_roundtrip_witness:
  "HexEncoder_decode [7] (HexEncoder_encode [] [1, 0xAB, 0xFF] False 1 npos) 0 npos = [7, 0xAB, 0xFF]"
  using HexEncoder_roundtrip [of "[1, 0xAB, 0xFF]" "[7]" False 1] by (simp add: npos_def size_t_max_def)


subsection \<open>The streaming decoder, chunk by chunk\<close>

text \<open>
  What the decoder computes on a text in which white space only stands between two pairs of digits: a fold over the characters
  with the pending digit as its state.
\<close>

fun hex_fold :: "byte \<Rightarrow> byte list \<Rightarrow> (byte \<times> byte list) option" where
  "hex_fold p [] = Some (p, [])"
| "hex_fold p (c # cs) =
     (if iswspace c then (if p = 0 then hex_fold 0 cs else None)
      else if c = 0 then None
      else if p = 0 then hex_fold c cs
      else (case nybble p of Inl _ \<Rightarrow> None
            | Inr hi \<Rightarrow> (case nybble c of Inl _ \<Rightarrow> None
              | Inr lo \<Rightarrow> map_option (\<lambda>(q, out). (q, ucast (word_of_int (hi * 16) OR word_of_int lo :: u32) # out))
                           (hex_fold 0 cs))))"

lemma hd_mem32_little: "hd (mem32 False v) = ucast v"
  by (simp add: mem32_def byte_order_simps)

lemma hex_loop_pair:
  assumes "\<not> iswspace c" "\<not> iswspace d" "c \<noteq> 0" "d \<noteq> 0"
  shows "hex_decode_loop False start 0 (c # d # cs) out =
    (case nybble c of Inl e \<Rightarrow> Inl e | Inr hi \<Rightarrow> (case nybble d of Inl e \<Rightarrow> Inl e
       | Inr lo \<Rightarrow> hex_decode_loop False False 0 cs (out @ [ucast (word_of_int (hi * 16) OR word_of_int lo :: u32)])))"
  using assms
  by (cases "nybble c"; cases "nybble d")
     (simp_all add: hex_decode_loop.simps [of False start 0 "c # d # cs"] readnext_def hd_mem32_little)

lemma hex_loop_space:
  assumes "iswspace c"
  shows "hex_decode_loop False start 0 (c # cs) out = hex_decode_loop False start 0 cs out"
proof -
  have "readnext start 0 (c # cs) = (if cs = [] then (c, [], 0) else readnext start 0 cs)"
    using assms by (cases cs) (auto simp: readnext_def simp del: dropWhile_eq_Nil_conv split: list.split)
  then show ?thesis using assms
    by (simp add: hex_decode_loop.simps [of False start 0 "c # cs"] hex_decode_loop.simps [of False start 0 cs])
qed

lemma hex_loop_fold:
  "hex_fold 0 cs = Some (p, out') \<Longrightarrow> hex_decode_loop False start 0 cs out = Inr (p, out @ out')"
proof (induction "length cs" arbitrary: cs start out out' rule: less_induct)
  case less
  show ?case
  proof (cases cs)
    case Nil
    then show ?thesis using less.prems by (simp add: hex_decode_loop.simps)
  next
    case (Cons c cs1)
    show ?thesis
    proof (cases "iswspace c")
      case True
      then show ?thesis using less Cons by (simp add: hex_loop_space)
    next
      case c: False
      then have c0: "c \<noteq> 0" using less.prems Cons by auto
      show ?thesis
      proof (cases cs1)
        case Nil
        then show ?thesis using less.prems Cons c c0
          by (auto simp: hex_decode_loop.simps [of False start 0 "[p]"] readnext_def)
      next
        case d: (Cons d cs2)
        have f: "hex_fold c (d # cs2) = Some (p, out')" using less.prems Cons c c0 d by simp
        then have nd: "\<not> iswspace d" "d \<noteq> 0" using c0 by (auto split: if_splits)
        then obtain hi lo out2 where n: "nybble c = Inr hi" "nybble d = Inr lo" "hex_fold 0 cs2 = Some (p, out2)"
          "out' = ucast (word_of_int (hi * 16) OR word_of_int lo :: u32) # out2"
          using f c0 by (auto split: sum.splits)
        then show ?thesis using less.hyps [OF _ n(3)] Cons d
          by (simp add: hex_loop_pair c c0 nd)
      qed
    qed
  qed
qed

lemma hex_decode_fold:
  assumes "hex_fold p cs = Some (q, out)"
  shows "hex_decode False p cs = Inr (q, out)"
proof (cases "p = 0 \<or> cs = []")
  case True
  then show ?thesis using assms hex_loop_fold [of cs q out True "[]"]
    by (auto simp: hex_decode_def hex_decode_loop.simps)
next
  case False
  then obtain d cs2 where cs: "cs = d # cs2" "p \<noteq> 0" by (cases cs) auto
  then have nd: "\<not> iswspace d" "d \<noteq> 0" using assms by (auto split: if_splits)
  obtain hi lo out2 where n: "nybble p = Inr hi" "nybble d = Inr lo" "hex_fold 0 cs2 = Some (q, out2)"
    "out = ucast (word_of_int (hi * 16) OR word_of_int lo :: u32) # out2"
    using assms cs nd by (auto split: sum.splits)
  then show ?thesis using hex_loop_fold [OF n(3), of False] cs nd
    by (simp add: hex_decode_def hex_decode_loop.simps [of False True p] readnext_def hd_mem32_little)
qed

lemma map_option_twice:
  "map_option (\<lambda>(q, out). (q, h out)) (map_option (\<lambda>(r, out'). (r, b @ out')) x) =
   map_option (\<lambda>(r, out'). (r, h (b @ out'))) x"
  by (cases x) auto

lemma hex_fold_append:
  "hex_fold p (xs @ ys) = (case hex_fold p xs of None \<Rightarrow> None
     | Some (q, out) \<Rightarrow> map_option (\<lambda>(r, out'). (r, out @ out')) (hex_fold q ys))"
proof (induction p xs rule: hex_fold.induct)
  case (1 p)
  show ?case by (cases "hex_fold p ys") auto
next
  case (2 p c cs)
  then show ?case by (auto simp: map_option_twice split: option.splits sum.splits)
qed

text \<open>The decoder fed chunk after chunk.\<close>

primrec hex_decode_chunks :: "bool \<Rightarrow> byte \<Rightarrow> byte list list \<Rightarrow> (byte \<times> byte list) res" where
  "hex_decode_chunks big lastbyte [] = Inr (lastbyte, [])"
| "hex_decode_chunks big lastbyte (c # cs) =
     (case hex_decode big lastbyte c of Inl e \<Rightarrow> Inl e
      | Inr (lb, out) \<Rightarrow> (case hex_decode_chunks big lb cs of Inl e \<Rightarrow> Inl e | Inr (lb', out') \<Rightarrow> Inr (lb', out @ out')))"

lemma hex_decode_chunks_fold:
  "hex_fold p (concat cs) = Some (q, out) \<Longrightarrow> hex_decode_chunks False p cs = Inr (q, out)"
proof (induction cs arbitrary: p out)
  case (Cons c cs)
  obtain r out1 out2 where "hex_fold p c = Some (r, out1)" "hex_fold r (concat cs) = Some (q, out2)" "out = out1 @ out2"
    using Cons.prems by (auto simp: hex_fold_append split: option.splits)
  then show ?case using Cons.IH hex_decode_fold by simp
qed simp


lemma hex_digit_facts:
  assumes "u = 0 \<or> u = 16" "i < 16"
  shows "nybble (hex_digits ! (u + i)) = Inr (int i)" "\<not> iswspace (hex_digits ! (u + i))" "hex_digits ! (u + i) \<noteq> 0"
proof -
  have d: "hex_digits = [48, 49, 50, 51, 52, 53, 54, 55, 56, 57, 97, 98, 99, 100, 101, 102,
     48, 49, 50, 51, 52, 53, 54, 55, 56, 57, 65, 66, 67, 68, 69, 70]"
    by (simp add: hex_lists)
  have "i \<in> set [0, 1, 2, 3, 4, 5, 6, 7, 8, 9, 10, 11, 12, 13, 14, 15]"
    using assms(2) by (simp add: numeral_eq_Suc less_Suc_eq)
  then show "nybble (hex_digits ! (u + i)) = Inr (int i)" "\<not> iswspace (hex_digits ! (u + i))" "hex_digits ! (u + i) \<noteq> 0"
    using assms(1) by (auto simp: d nybble_def iswspace_def)
qed

lemma nibble_words:
  "(word_of_int (int (unat (v :: byte)) * 16) :: u32) = push_bit 4 (ucast v)"
  "(word_of_int (int (unat v)) :: u32) = ucast v"
proof -
  show w: "(word_of_int (int (unat v)) :: u32) = ucast v"
    by (simp only: word_of_nat_unat of_int_of_nat_eq)
  have "(word_of_int (int (unat v) * 16) :: u32) = word_of_int (int (unat v)) * 16" by simp
  then show "(word_of_int (int (unat v) * 16) :: u32) = push_bit 4 (ucast v)"
    by (simp only: w push_bit_eq_mult) simp
qed

lemma nibble_join: "ucast (push_bit 4 (ucast (drop_bit 4 c)) OR ucast (c AND 0x0F) :: u32) = (c :: byte)"
  unfolding sextets by (rule bit_word_eqI, auto simp: bit_simps byte_bit_out)

lemma hex_fold_byte:
  assumes "u = 0 \<or> u = 16"
  shows "hex_fold 0 (hex_digits ! (u + unat (drop_bit 4 c AND 0x0F)) # hex_digits ! (u + unat (c AND 0x0F)) # cs) =
    map_option (\<lambda>(q, out). (q, c # out)) (hex_fold 0 cs)"
proof -
  have n: "unat (drop_bit 4 c AND 0x0F) < 16" "unat (c AND 0x0F) < 16"
    by (simp_all only: nibbles(2) nibble_bounds)
  have "ucast (word_of_int (int (unat (drop_bit 4 c)) * 16) OR word_of_int (int (unat (c AND 0x0F))) :: u32) = c"
    by (simp only: nibble_words) (rule nibble_join)
  then show ?thesis
    using hex_digit_facts [OF assms n(1)] hex_digit_facts [OF assms n(2)] by (simp add: nibbles(2))
qed

lemma hex_fold_encode:
  "he_uppercase st = 0 \<or> he_uppercase st = 16 \<Longrightarrow> hex_fold 0 (snd (hex_encode st bs)) = Some (0, bs)"
proof (induction bs arbitrary: st)
  case (Cons b bs)
  obtain st' out where e: "hex_enc_char st b = (st', out)" by (cases "hex_enc_char st b")
  then have u: "he_uppercase st' = he_uppercase st" by (auto simp: hex_enc_char_def Let_def split: if_splits)
  have "hex_fold 0 (snd (hex_encode st' bs)) = Some (0, bs)" using Cons u by simp
  moreover have "hex_fold 0 (out @ cs) = map_option (\<lambda>(q, out). (q, b # out)) (hex_fold 0 cs)" for cs
  proof -
    have n: "iswspace 0x0A" by (simp add: iswspace_def)
    obtain w where w: "out = [hex_digits ! (he_uppercase st + unat (drop_bit 4 b AND 0x0F)), hex_digits ! (he_uppercase st + unat (b AND 0x0F))] @ w"
      "w = [] \<or> w = [0x0A]"
      using e that [of "[]"] that [of "[0x0A]"] by (auto simp only: hex_enc_char_def Let_def split: if_splits)
    have "hex_fold 0 (w @ cs) = hex_fold 0 cs" using w(2) n by auto
    then show ?thesis by (simp only: w(1) append.simps append_Cons append_Nil hex_fold_byte [OF Cons.prems])
  qed
  ultimately show ?case using e by (cases "hex_encode st' bs") simp
qed simp

text \<open>
  The streaming hexadecimal decoder recovers the bytes from the text of the streaming
  encoder (either case, any line length) however the text is cut into chunks, with no digit
  left pending.
\<close>

theorem hex_stream_roundtrip:
  assumes "he_uppercase st = 0 \<or> he_uppercase st = 16" "concat chunks = snd (hex_encode st bytes)"
  shows "hex_decode_chunks False 0 chunks = Inr (0, bytes)"
  by (rule hex_decode_chunks_fold) (simp only: assms(2) hex_fold_encode [OF assms(1)])

theorem hex_stream_roundtrip_witness:
  "hex_decode_chunks False 0 [[0x30], [0x31, 0x46], [], [0x46]] = Inr (0, [0x01, 0xFF])"
proof -
  have "he_uppercase (setUppercase True HexEnc_init) = 16" by (simp add: setUppercase_def)
  then show ?thesis
    using hex_stream_roundtrip [of "setUppercase True HexEnc_init" "[[0x30], [0x31, 0x46], [], [0x46]]" "[0x01, 0xFF]"]
    by (simp add: hex_enc_char_def setUppercase_def HexEnc_init_def hex_lists)
qed


subsection \<open>UUIDs\<close>

lemma encode_step_nonempty: "encode_step st b = (st', out) \<Longrightarrow> out \<noteq> []"
  by (auto simp: encode_step_def Let_def split: encodestep.splits if_splits)

lemma encode_block_grows: "encode_block st bs = (st', out) \<Longrightarrow> length bs \<le> length out"
proof (induction bs arbitrary: st st' out)
  case (Cons b bs)
  obtain st1 o1 st2 o2 where e: "encode_step st b = (st1, o1)" "encode_block st1 bs = (st2, o2)"
    by (metis prod.exhaust)
  then have "1 \<le> length o1" "length bs \<le> length o2"
    using encode_step_nonempty Cons.IH by (simp_all add: Suc_le_eq)
  then show ?case using e Cons.prems by auto
qed simp

lemma length_random_text: "length (random_text rnd) = length rnd"
  using encode_block_grows [of "init_encodestate\<lparr>e_linelength := LINE_LENGTH\<rparr>" rnd]
  by (auto simp: random_text_def encode_text_def split: prod.splits)

lemma length_byteTohex: "length (byteTohex data) = 2 * length data"
  by (induction data) (simp_all add: byteTohex_def)

lemma byteTohex_nth: "i < length data \<Longrightarrow>
    byteTohex data ! (2 * i) = hexmap ! unat (drop_bit 4 (data ! i AND 0xF0))"
proof (induction data arbitrary: i)
  case (Cons d data)
  then show ?case by (cases i) (simp_all add: byteTohex_def)
qed simp

lemma hexmap_nth: "i < 16 \<Longrightarrow> hexmap ! i \<in> set hexmap"
  by (rule nth_mem) (simp add: hex_lists)

lemma lt8_cases: "n < LENGTH(8) \<Longrightarrow> n = 0 \<or> n = 1 \<or> n = 2 \<or> n = 3 \<or> n = 4 \<or> n = 5 \<or> n = 6 \<or> n = (7 :: nat)"
  by simp linarith

lemma version_nibble: "drop_bit 4 ((0x40 OR (b AND 0x0F)) AND 0xF0) = (4 :: byte)"
  by (rule bit_word_eqI) (drule lt8_cases, auto simp: bit_simps)

lemma variant_nibble: "drop_bit 4 ((0x80 OR (b AND 0x3F)) AND 0xF0) \<in> {8, 9, 10, 11 :: byte}"
proof -
  let ?v = "drop_bit 4 ((0x80 OR (b AND 0x3F)) AND 0xF0)"
  have "?v = 8 OR (drop_bit 4 b AND 3)"
    by (rule bit_word_eqI) (drule lt8_cases, auto simp: bit_simps)
  moreover have "unat (drop_bit 4 b AND mask 2) < 2 ^ 2" by (simp only: unat_and_mask) simp
  then obtain k where k: "unat (drop_bit 4 b AND 3) = k" "k = 0 \<or> k = 1 \<or> k = 2 \<or> k = 3"
    by (simp add: mask_numeral) linarith
  have "drop_bit 4 b AND 3 = word_of_nat (unat (drop_bit 4 b AND 3))" by (simp only: of_nat_unat ucast_id)
  then have "drop_bit 4 b AND 3 = 0 \<or> drop_bit 4 b AND 3 = 1 \<or> drop_bit 4 b AND 3 = 2 \<or> drop_bit 4 b AND 3 = 3"
    unfolding k(1) using k(2) by auto
  ultimately show ?thesis by auto
qed

text \<open>
  A UUID made from 16 random bytes has 36 characters, hyphens at positions 8, 13, 18 and
  23, the version digit 4 and a variant digit among 8, 9, A and B.
\<close>

theorem uuid_shape:
  assumes "length rnd = 16"
  shows "length (uuid rnd) = 36 \<and>
    map ((!) (uuid rnd)) [8, 13, 18, 23] = [0x2D, 0x2D, 0x2D, 0x2D] \<and>
    uuid rnd ! 14 = 0x34 \<and> uuid rnd ! 19 \<in> {0x38, 0x39, 0x41, 0x42}"
proof -
  define ab where "ab = (let abData = random_text rnd; abData = abData[6 := 0x40 OR (abData ! 6 AND 0x0F)]
      in abData[8 := 0x80 OR (abData ! 8 AND 0x3F)])"
  define hx where "hx = byteTohex (take 16 ab)"
  have ab: "length ab = 16" "ab ! 6 = 0x40 OR (random_text rnd ! 6 AND 0x0F)"
    "ab ! 8 = 0x80 OR (random_text rnd ! 8 AND 0x3F)"
    using assms by (simp_all add: ab_def Let_def length_random_text)
  have hx: "length hx = 32" "hx ! 12 = 0x34" "hx ! 16 \<in> {0x38, 0x39, 0x41, 0x42}"
    using byteTohex_nth [of 6 ab] byteTohex_nth [of 8 ab] ab variant_nibble [of "random_text rnd ! 8"]
    by (auto simp: hx_def length_byteTohex version_nibble hex_lists)
  have u: "uuid rnd = take 8 hx @ [0x2D] @ take 4 (drop 8 hx) @ [0x2D] @ take 4 (drop 12 hx) @ [0x2D]
         @ take 4 (drop 16 hx) @ [0x2D] @ take 12 (drop 20 hx)"
    by (simp add: uuid_def hx_def ab_def Let_def)
  show ?thesis
    using hx by (simp add: u nth_append)
qed

theorem uuid_shape_witness: "length (uuid (replicate 16 0xA5)) = 36 \<and> uuid (replicate 16 0xA5) ! 14 = 0x34"
  using uuid_shape [of "replicate 16 0xA5"] by simp

end
