(* ===== verification/Collections.thy ===== *)
theory Collections
  imports String_Util "HOL-Library.Char_ord" "HOL-Library.List_Lexorder"
begin

text \<open>
  The associative containers of \<open>base/collection.h\<close> and \<open>base/src/collection.cpp\<close>. A \<open>std::map\<close> or
  \<open>std::multimap\<close> is the list of its entries in iteration order: sorted by key, equal keys in the order of
  insertion. \<open>std::string\<close> compares bytes, which is the lexicographic order on strings here.
\<close>

subsection \<open>std::multimap and std::map\<close>

fun mm_insert :: "'k::linorder \<Rightarrow> 'v \<Rightarrow> ('k \<times> 'v) list \<Rightarrow> ('k \<times> 'v) list" where
  "mm_insert k v [] = [(k, v)]"
| "mm_insert k v ((k', v') # m) = (if k < k' then (k, v) # (k', v') # m else (k', v') # mm_insert k v m)"

text \<open>\<open>find\<close>: the first entry with the key.\<close>

fun mm_find :: "('k \<times> 'v) list \<Rightarrow> 'k \<Rightarrow> 'v option" where
  "mm_find [] k = None"
| "mm_find ((k', v') # m) k = (if k' = k then Some v' else mm_find m k)"

text \<open>Assignment through the iterator \<open>find\<close> returned.\<close>

fun mm_assign :: "'k \<Rightarrow> 'v \<Rightarrow> ('k \<times> 'v) list \<Rightarrow> ('k \<times> 'v) list" where
  "mm_assign k v [] = []"
| "mm_assign k v ((k', v') # m) = (if k' = k then (k', v) # m else (k', v') # mm_assign k v m)"

definition mm_erase :: "'k \<Rightarrow> ('k \<times> 'v) list \<Rightarrow> ('k \<times> 'v) list" where
  "mm_erase k m = filter (\<lambda>(k', _). k' \<noteq> k) m"

text \<open>\<open>std::map\<close>: \<open>insert\<close> keeps an entry that is there, \<open>m[k] = v\<close> overwrites it.\<close>

definition map_insert :: "'k::linorder \<Rightarrow> 'v \<Rightarrow> ('k \<times> 'v) list \<Rightarrow> ('k \<times> 'v) list" where
  "map_insert k v m = (case mm_find m k of None \<Rightarrow> mm_insert k v m | Some _ \<Rightarrow> m)"

definition map_put :: "'k::linorder \<Rightarrow> 'v \<Rightarrow> ('k \<times> 'v) list \<Rightarrow> ('k \<times> 'v) list" where
  "map_put k v m = (case mm_find m k of None \<Rightarrow> mm_insert k v m | Some _ \<Rightarrow> mm_assign k v m)"

lemma mm_find_map_of: "mm_find m = map_of m"
  by (rule ext, induct_tac m) (auto split: if_splits)

lemma mm_find_insert_other: "k \<noteq> k' \<Longrightarrow> mm_find (mm_insert k v m) k' = mm_find m k'"
  by (induction m) auto

lemma mm_find_None: "mm_find m k = None \<longleftrightarrow> k \<notin> fst ` set m"
  by (simp add: mm_find_map_of map_of_eq_None_iff)

lemma mm_find_insert_new: "mm_find m k = None \<Longrightarrow> mm_find (mm_insert k v m) k = Some v"
  by (induction m) (auto split: if_splits)

lemma mm_find_insert_old: "sorted (map fst m) \<Longrightarrow> mm_find m k = Some w \<Longrightarrow> mm_find (mm_insert k v m) k = Some w"
proof (induction m)
  case (Cons a m)
  obtain k' v' where a: "a = (k', v')" by (cases a)
  show ?case
  proof (cases "k < k'")
    case True
    then have "k \<notin> fst ` set (a # m)" using Cons.prems(1) a by force
    then show ?thesis using Cons.prems(2) mm_find_None by (metis option.distinct(1))
  next
    case False
    then show ?thesis using Cons a by (auto split: if_splits)
  qed
qed simp

lemma mm_find_assign: "mm_find m k \<noteq> None \<Longrightarrow> mm_find (mm_assign k v m) k' = (if k' = k then Some v else mm_find m k')"
  by (induction m) (auto split: if_splits)

lemma mm_find_erase: "mm_find (mm_erase k m) k' = (if k' = k then None else mm_find m k')"
  by (induction m) (auto simp: mm_erase_def)

lemma set_mm_insert: "set (mm_insert k v m) = insert (k, v) (set m)"
  by (induction m) (auto split: if_splits)

lemma sorted_mm_insert: "sorted (map fst m) \<Longrightarrow> sorted (map fst (mm_insert k v m))"
proof (induction m)
  case (Cons a m)
  then show ?case
    by (cases a) (auto simp: set_mm_insert intro: order.trans less_imp_le simp: not_less)
qed simp

lemma keys_mm_assign: "map fst (mm_assign k v m) = map fst m"
  by (induction m) auto

lemma sorted_mm_erase: "sorted (map fst m) \<Longrightarrow> sorted (map fst (mm_erase k m))"
  by (induction m) (auto simp: mm_erase_def)

lemma distinct_mm_erase: "distinct (map fst m) \<Longrightarrow> distinct (map fst (mm_erase k m))"
  by (induction m) (auto simp: mm_erase_def)

lemma distinct_mm_insert: "distinct (map fst m) \<Longrightarrow> k \<notin> fst ` set m \<Longrightarrow> distinct (map fst (mm_insert k v m))"
  by (induction m) (auto simp: set_mm_insert split: if_splits)

text \<open>What a \<open>std::map\<close> keeps: keys strictly increasing.\<close>

definition map_inv :: "('k::linorder \<times> 'v) list \<Rightarrow> bool" where
  "map_inv m = (sorted (map fst m) \<and> distinct (map fst m))"

lemma map_put_inv: "map_inv m \<Longrightarrow> map_inv (map_put k v m)"
  by (auto simp: map_inv_def map_put_def sorted_mm_insert distinct_mm_insert mm_find_None keys_mm_assign split: option.splits)

lemma map_insert_inv: "map_inv m \<Longrightarrow> map_inv (map_insert k v m)"
  by (auto simp: map_inv_def map_insert_def sorted_mm_insert distinct_mm_insert mm_find_None split: option.splits)

lemma map_erase_inv: "map_inv m \<Longrightarrow> map_inv (mm_erase k m)"
  by (simp add: map_inv_def sorted_mm_erase distinct_mm_erase)

lemma mm_find_put: "mm_find (map_put k v m) = (mm_find m)(k \<mapsto> v)"
  by (auto simp: map_put_def fun_eq_iff mm_find_assign mm_find_insert_new mm_find_insert_other split: option.splits)

lemma mm_find_map_insert: "mm_find (map_insert k v m) = (if mm_find m k = None then (mm_find m)(k \<mapsto> v) else mm_find m)"
  by (auto simp: map_insert_def fun_eq_iff mm_find_insert_new mm_find_insert_other split: option.splits)

subsection \<open>NVCollection\<close>

type_synonym NVCollection = "(string \<times> string) list"

definition nv_at :: "NVCollection \<Rightarrow> string \<Rightarrow> string res" where
  "nv_at c name = (case mm_find c name of Some v \<Rightarrow> Inr v | None \<Rightarrow> Inl (Runtime_error (''Item not found: '' @ name)))"

definition nv_set :: "string \<Rightarrow> string \<Rightarrow> NVCollection \<Rightarrow> NVCollection" where
  "nv_set name value c = (case mm_find c name of Some _ \<Rightarrow> mm_assign name value c | None \<Rightarrow> mm_insert name value c)"

definition nv_add :: "string \<Rightarrow> string \<Rightarrow> NVCollection \<Rightarrow> NVCollection" where
  "nv_add name value c = mm_insert name value c"

definition nv_get :: "NVCollection \<Rightarrow> string \<Rightarrow> string res" where
  "nv_get c name = (case mm_find c name of Some v \<Rightarrow> Inr v | None \<Rightarrow> Inl (Runtime_error (''Item not found: '' @ name)))"

definition nv_get_default :: "NVCollection \<Rightarrow> string \<Rightarrow> string \<Rightarrow> string" where
  "nv_get_default c name defaultValue = (case mm_find c name of Some v \<Rightarrow> v | None \<Rightarrow> defaultValue)"

definition nv_has :: "NVCollection \<Rightarrow> string \<Rightarrow> bool" where
  "nv_has c name = (mm_find c name \<noteq> None)"

definition nv_empty :: "NVCollection \<Rightarrow> bool" where
  "nv_empty c = (c = [])"

definition nv_size :: "NVCollection \<Rightarrow> nat" where
  "nv_size c = length c"

definition nv_erase :: "string \<Rightarrow> NVCollection \<Rightarrow> NVCollection" where
  "nv_erase name c = mm_erase name c"

definition nv_clear :: "NVCollection \<Rightarrow> NVCollection" where
  "nv_clear c = []"

subsection \<open>The interface of a header store\<close>

text \<open>
  What the HTTP layer relies on: a lookup with a default, an assignment, a removal, and their laws. The handshake and
  message lemmas are proved over this interface.
\<close>

locale header_store =
  fixes get :: "'c \<Rightarrow> string \<Rightarrow> string \<Rightarrow> string"
    and put :: "string \<Rightarrow> string \<Rightarrow> 'c \<Rightarrow> 'c"
    and del :: "string \<Rightarrow> 'c \<Rightarrow> 'c"
    and has :: "'c \<Rightarrow> string \<Rightarrow> bool"
  assumes get_put: "get (put n v c) n' d = (if n' = n then v else get c n' d)"
    and has_put: "has (put n v c) n' = (n' = n \<or> has c n')"
    and get_del: "get (del n c) n' d = (if n' = n then d else get c n' d)"
    and has_del: "has (del n c) n' = (n' \<noteq> n \<and> has c n')"
    and get_absent: "\<not> has c n \<Longrightarrow> get c n d = d"
begin

primrec puts :: "(string \<times> string) list \<Rightarrow> 'c \<Rightarrow> 'c" where
  "puts [] c = c"
| "puts (nv # nvs) c = puts nvs (put (fst nv) (snd nv) c)"

lemma get_puts_other: "n \<notin> fst ` set nvs \<Longrightarrow> get (puts nvs c) n d = get c n d"
  by (induction nvs arbitrary: c) (auto simp: get_put)

lemma get_puts: "distinct (map fst nvs) \<Longrightarrow> (n, v) \<in> set nvs \<Longrightarrow> get (puts nvs c) n d = v"
  by (induction nvs arbitrary: c) (auto simp: get_put get_puts_other image_iff)

lemma put_twice: "get (put n v (put n w c)) n' d = get (put n v c) n' d"
  by (simp add: get_put)

lemma put_commute: "n \<noteq> m \<Longrightarrow> get (put n v (put m w c)) n' d = get (put m w (put n v c)) n' d"
  by (simp add: get_put)

lemma get_put_del: "get (del n (put n v c)) n' d = get (del n c) n' d"
  by (simp add: get_put get_del)

end

lemma mm_find_nv_set: "mm_find (nv_set n v c) = (mm_find c)(n \<mapsto> v)"
  by (auto simp: nv_set_def fun_eq_iff mm_find_assign mm_find_insert_new mm_find_insert_other split: option.splits)

interpretation nv: header_store nv_get_default nv_set nv_erase nv_has
  by unfold_locales
    (auto simp: nv_get_default_def nv_has_def nv_erase_def mm_find_nv_set mm_find_erase split: option.splits)

subsection \<open>NVCollection refines a list of values per name\<close>

definition nv_values :: "NVCollection \<Rightarrow> string \<Rightarrow> string list" where
  "nv_values c name = map snd (filter (\<lambda>(n, _). n = name) c)"

definition nv_inv :: "NVCollection \<Rightarrow> bool" where
  "nv_inv c = sorted (map fst c)"

lemma nv_find_values: "mm_find c n = (case nv_values c n of [] \<Rightarrow> None | v # _ \<Rightarrow> Some v)"
  by (induction c) (auto simp: nv_values_def)

lemma values_above: "sorted (map fst ((k', v') # c)) \<Longrightarrow> k < k' \<Longrightarrow> filter (\<lambda>(n, _). n = k) ((k', v') # c) = []"
  by (force simp: filter_empty_conv)

lemma nv_values_insert:
  "nv_inv c \<Longrightarrow> nv_values (mm_insert n v c) = (nv_values c)(n := nv_values c n @ [v])"
proof (induction c)
  case (Cons a c)
  obtain k w where a: "a = (k, w)" by (cases a)
  show ?case
  proof (cases "n < k")
    case True
    then have "nv_values (a # c) n = []"
      using values_above [of k w c n] Cons.prems by (simp add: a nv_values_def nv_inv_def)
    then show ?thesis using True by (auto simp: a nv_values_def fun_eq_iff)
  next
    case False
    have "nv_inv c" using Cons.prems by (simp add: nv_inv_def)
    then have "nv_values (mm_insert n v c) = (nv_values c)(n := nv_values c n @ [v])" by (rule Cons.IH)
    then show ?thesis using False by (auto simp: a nv_values_def fun_eq_iff)
  qed
qed (auto simp: nv_values_def)

lemma nv_values_assign: "nv_values (mm_assign n v c) =
    (nv_values c)(n := (case nv_values c n of [] \<Rightarrow> [] | _ # vs \<Rightarrow> v # vs))"
proof (induction c)
  case (Cons a c)
  obtain k w where "a = (k, w)" by (cases a)
  then show ?case using Cons by (auto simp: nv_values_def fun_eq_iff)
qed (auto simp: nv_values_def)

lemma nv_values_erase: "nv_values (mm_erase n c) = (nv_values c)(n := [])"
  by (rule ext) (auto simp: nv_values_def mm_erase_def filter_empty_conv intro: arg_cong [of _ _ "map snd"] filter_cong)

text \<open>
  C39: A NVCollection kept sorted refines a map from names, compared byte by byte (against the
  comment of the class, which promises getters that ignore case), to lists of values: add
  appends a value, set replaces the first one, erase removes all, has and get look at the
  first (the one find gives in libstdc++), and the order is kept.
\<close>

theorem NVCollection_refines:
  assumes "nv_inv c"
  shows "nv_inv (nv_add n v c) \<and> nv_values (nv_add n v c) = (nv_values c)(n := nv_values c n @ [v]) \<and>
    nv_inv (nv_set n v c) \<and> nv_values (nv_set n v c) = (nv_values c)(n := v # tl (nv_values c n)) \<and>
    nv_inv (nv_erase n c) \<and> nv_values (nv_erase n c) = (nv_values c)(n := []) \<and>
    nv_has c n = (nv_values c n \<noteq> []) \<and>
    nv_get_default c n d = (case nv_values c n of [] \<Rightarrow> d | w # _ \<Rightarrow> w)"
proof -
  have "nv_inv (nv_add n v c)" using assms by (simp add: nv_inv_def nv_add_def sorted_mm_insert)
  moreover have "nv_inv (nv_set n v c)"
    using assms by (simp add: nv_inv_def nv_set_def sorted_mm_insert keys_mm_assign split: option.splits)
  moreover have "nv_inv (nv_erase n c)" using assms by (simp add: nv_inv_def nv_erase_def sorted_mm_erase)
  moreover have "nv_values (nv_set n v c) = (nv_values c)(n := v # tl (nv_values c n))"
    using assms nv_find_values [of c n]
    by (auto simp: nv_set_def nv_values_insert nv_values_assign split: list.splits option.splits)
  ultimately show ?thesis
    using assms by (auto simp: nv_add_def nv_values_insert nv_erase_def nv_values_erase nv_has_def nv_get_default_def
        nv_find_values split: list.splits)
qed

theorem NVCollection_refines_witness:
  "nv_values (nv_add ''a'' ''2'' [(''a'', ''1''), (''b'', ''3'')]) ''a'' = [''1'', ''2'']"
proof -
  have "nv_inv [(''a'', ''1''), (''b'', ''3'')]" by code_simp
  from NVCollection_refines [OF this, of "''a''" "''2''" "[]"] show ?thesis by (simp add: nv_values_def)
qed

subsection \<open>KVCollection\<close>

text \<open>\<open>add\<close> calls \<open>insert\<close>, whatever \<open>update\<close> says.\<close>

definition kv_has :: "('k::linorder \<times> 'v) list \<Rightarrow> 'k \<Rightarrow> bool" where
  "kv_has m key = (mm_find m key \<noteq> None)"

definition kv_add :: "'k::linorder \<Rightarrow> 'v \<Rightarrow> bool \<Rightarrow> bool \<Rightarrow> ('k \<times> 'v) list \<Rightarrow> (bool \<times> ('k \<times> 'v) list) res" where
  "kv_add key item update whiny m =
     (if \<not> update \<and> kv_has m key
      then (if whiny then Inl (Runtime_error ''Item already exists'') else Inr (False, m))
      else Inr (True, map_insert key item m))"

definition kv_get :: "('k::linorder \<times> 'v) list \<Rightarrow> 'k \<Rightarrow> 'v res" where
  "kv_get m key = (case mm_find m key of Some v \<Rightarrow> Inr v | None \<Rightarrow> Inl (Runtime_error ''Item not found''))"

definition kv_get_default :: "('k::linorder \<times> 'v) list \<Rightarrow> 'k \<Rightarrow> 'v \<Rightarrow> 'v" where
  "kv_get_default m key defaultValue = (case mm_find m key of Some v \<Rightarrow> v | None \<Rightarrow> defaultValue)"

definition kv_remove :: "'k::linorder \<Rightarrow> ('k \<times> 'v) list \<Rightarrow> bool \<times> ('k \<times> 'v) list" where
  "kv_remove key m = (case mm_find m key of Some _ \<Rightarrow> (True, mm_erase key m) | None \<Rightarrow> (False, m))"

text \<open>
  KVCollection::add inserts an absent key and leaves the stored value of a present one
  alone in every case, also when it is asked to update it: it then reports success.
\<close>

theorem kv_add_spec:
  "kv_add key item update whiny m =
     (if mm_find m key = None then Inr (True, mm_insert key item m)
      else if update then Inr (True, m)
      else if whiny then Inl (Runtime_error ''Item already exists'') else Inr (False, m))"
  by (auto simp: kv_add_def kv_has_def map_insert_def split: option.splits)

subsection \<open>PointerCollection\<close>

text \<open>
  Items are addresses, 0 is the null pointer. \<open>pc_freed\<close> lists the items the deleter was called on.
\<close>

record 'k pcoll =
  pc_map :: "('k \<times> nat) list"
  pc_freed :: "nat list"

definition pc_init :: "'k::linorder pcoll" where
  "pc_init = \<lparr>pc_map = [], pc_freed = []\<rparr>"

definition pc_exists :: "'k::linorder pcoll \<Rightarrow> 'k \<Rightarrow> bool" where
  "pc_exists c key = (mm_find (pc_map c) key \<noteq> None)"

definition pc_exists_item :: "'k::linorder pcoll \<Rightarrow> nat \<Rightarrow> bool" where
  "pc_exists_item c item = list_ex (\<lambda>(_, p). p = item) (pc_map c)"

definition pc_add :: "'k::linorder \<Rightarrow> nat \<Rightarrow> bool \<Rightarrow> 'k pcoll \<Rightarrow> (bool \<times> 'k pcoll) res" where
  "pc_add key item whiny c =
     (if pc_exists c key
      then (if whiny then Inl (Runtime_error ''Item already exists'') else Inr (False, c))
      else Inr (True, c\<lparr>pc_map := map_put key item (pc_map c)\<rparr>))"

definition pc_update :: "'k::linorder \<Rightarrow> nat \<Rightarrow> 'k pcoll \<Rightarrow> 'k pcoll" where
  "pc_update key item c = c\<lparr>pc_map := map_put key item (pc_map c)\<rparr>"

definition pc_get :: "'k::linorder \<Rightarrow> bool \<Rightarrow> 'k pcoll \<Rightarrow> nat res" where
  "pc_get key whiny c =
     (case mm_find (pc_map c) key of Some p \<Rightarrow> Inr p
      | None \<Rightarrow> if whiny then Inl (Runtime_error ''Item not found'') else Inr 0)"

definition pc_remove :: "'k::linorder \<Rightarrow> 'k pcoll \<Rightarrow> nat \<times> 'k pcoll" where
  "pc_remove key c =
     (case mm_find (pc_map c) key of Some p \<Rightarrow> (p, c\<lparr>pc_map := mm_erase key (pc_map c)\<rparr>) | None \<Rightarrow> (0, c))"

definition pc_free :: "'k::linorder \<Rightarrow> 'k pcoll \<Rightarrow> bool \<times> 'k pcoll" where
  "pc_free key c =
     (case pc_remove key c of (item, c') \<Rightarrow>
        if item \<noteq> 0 then (True, c'\<lparr>pc_freed := item # pc_freed c'\<rparr>) else (False, c'))"

text \<open>Removal by item: the first entry, in the order of the keys, that holds it.\<close>

definition pc_remove_item :: "nat \<Rightarrow> 'k::linorder pcoll \<Rightarrow> bool \<times> 'k pcoll" where
  "pc_remove_item item c =
     (case List.find (\<lambda>(_, p). p = item) (pc_map c) of
        Some (key, ptr) \<Rightarrow> (ptr \<noteq> 0, c\<lparr>pc_map := mm_erase key (pc_map c)\<rparr>)
      | None \<Rightarrow> (False, c))"

definition pc_clear :: "'k::linorder pcoll \<Rightarrow> 'k pcoll" where
  "pc_clear c = c\<lparr>pc_map := [], pc_freed := rev (map snd (pc_map c)) @ pc_freed c\<rparr>"

text \<open>
  The calls a client makes; it adds an item, or puts it in the place of another, only while it owns it: not null, not
  in the collection, not freed. What \<open>update\<close> puts an item in the place of is not freed but the client's again.
\<close>

datatype 'k pc_call = PAdd 'k nat bool | PUpdate 'k nat | PFree 'k | PRemove 'k | PRemoveItem nat | PClear

definition owned :: "nat \<Rightarrow> 'k::linorder pcoll \<Rightarrow> bool" where
  "owned item c = (item \<noteq> 0 \<and> \<not> pc_exists_item c item \<and> item \<notin> set (pc_freed c))"

fun pc_step :: "'k::linorder pcoll \<Rightarrow> 'k pc_call \<Rightarrow> 'k pcoll" where
  "pc_step c (PAdd key item whiny) =
     (if owned item c then (case pc_add key item whiny c of Inl _ \<Rightarrow> c | Inr (_, c') \<Rightarrow> c') else c)"
| "pc_step c (PUpdate key item) = (if owned item c then pc_update key item c else c)"
| "pc_step c (PFree key) = snd (pc_free key c)"
| "pc_step c (PRemove key) = snd (pc_remove key c)"
| "pc_step c (PRemoveItem item) = snd (pc_remove_item item c)"
| "pc_step c PClear = pc_clear c"

definition pc_inv :: "'k::linorder pcoll \<Rightarrow> bool" where
  "pc_inv c = (map_inv (pc_map c) \<and> distinct (map snd (pc_map c)) \<and> distinct (pc_freed c) \<and>
     set (map snd (pc_map c)) \<inter> set (pc_freed c) = {})"

lemma snd_mm_erase: "set (map snd (mm_erase k m)) \<subseteq> set (map snd m)"
  by (auto simp: mm_erase_def)

lemma distinct_snd_erase: "distinct (map snd m) \<Longrightarrow> distinct (map snd (mm_erase k m))"
  by (induction m) (auto simp: mm_erase_def)

lemma mm_find_snd: "mm_find m k = Some p \<Longrightarrow> p \<in> set (map snd m)"
  by (induction m) (auto split: if_splits)

lemma erased_gone: "distinct (map snd m) \<Longrightarrow> mm_find m k = Some p \<Longrightarrow> p \<notin> set (map snd (mm_erase k m))"
proof (induction m)
  case (Cons a m)
  obtain k' q where a: "a = (k', q)" by (cases a)
  have "p \<in> set (map snd m)" if "k' \<noteq> k" using Cons.prems(2) mm_find_snd [of m k p] that by (simp add: a)
  moreover have "mm_erase k (a # m) = (if k' = k then mm_erase k m else (k', q) # mm_erase k m)"
    by (simp add: mm_erase_def a)
  ultimately show ?case using Cons a snd_mm_erase [of k m] by (cases "k' = k") auto
qed simp

lemma distinct_snd_insert: "distinct (map snd m) \<Longrightarrow> p \<notin> snd ` set m \<Longrightarrow> distinct (map snd (mm_insert k p m))"
  by (induction m) (auto simp: set_mm_insert split: if_splits)

lemma pc_inv_add:
  assumes "pc_inv c" "owned item c" "pc_add key item whiny c = Inr (b, c')"
  shows "pc_inv c'"
proof -
  have f: "item \<notin> snd ` set (pc_map c)" "item \<notin> set (pc_freed c)"
    using assms(2) by (auto simp: owned_def pc_exists_item_def list_ex_iff)
  show ?thesis
  proof (cases "pc_exists c key")
    case True
    then show ?thesis using assms by (auto simp: pc_add_def split: if_splits)
  next
    case False
    then have n: "mm_find (pc_map c) key = None" by (simp add: pc_exists_def)
    then have m: "map_put key item (pc_map c) = mm_insert key item (pc_map c)" by (simp add: map_put_def)
    have c': "c' = c\<lparr>pc_map := mm_insert key item (pc_map c)\<rparr>"
      using assms(3) False by (simp add: pc_add_def m)
    have "map_inv (mm_insert key item (pc_map c))"
      using assms(1) map_put_inv [of "pc_map c" key item] by (simp add: pc_inv_def m)
    then show ?thesis using assms(1) f by (auto simp: c' pc_inv_def distinct_snd_insert set_mm_insert)
  qed
qed

lemma distinct_snd_assign:
  assumes "distinct (map snd m)" "p \<notin> snd ` set m" "distinct (map fst m)"
  shows "distinct (map snd (mm_assign k p m)) \<and> set (map snd (mm_assign k p m)) \<subseteq> insert p (set (map snd m))"
  using assms
proof (induction m)
  case (Cons a m)
  then show ?case by (cases a) (auto simp: image_iff)
qed simp

lemma pc_inv_update:
  assumes "pc_inv c" "owned item c"
  shows "pc_inv (pc_update key item c)"
proof -
  have f: "item \<notin> snd ` set (pc_map c)" "item \<notin> set (pc_freed c)"
    using assms(2) by (auto simp: owned_def pc_exists_item_def list_ex_iff)
  have i: "map_inv (pc_map c)" "distinct (map snd (pc_map c))" using assms(1) by (simp_all add: pc_inv_def)
  then have "distinct (map fst (pc_map c))" by (auto simp: map_inv_def strict_sorted_iff)
  then have "distinct (map snd (map_put key item (pc_map c))) \<and>
      set (map snd (map_put key item (pc_map c))) \<subseteq> insert item (set (map snd (pc_map c)))"
    using f(1) i(2) distinct_snd_assign [of "pc_map c" item key]
    by (auto simp: map_put_def distinct_snd_insert set_mm_insert split: option.splits)
  moreover from this have "set (map snd (map_put key item (pc_map c))) \<inter> set (pc_freed c) = {}"
    using f(2) assms(1) unfolding pc_inv_def by blast
  ultimately show ?thesis using assms(1) map_put_inv [OF i(1)] by (simp add: pc_inv_def pc_update_def)
qed

lemma pc_inv_erase: "pc_inv c \<Longrightarrow> pc_inv (c\<lparr>pc_map := mm_erase key (pc_map c)\<rparr>)"
  using snd_mm_erase [of key "pc_map c"] by (auto simp: pc_inv_def map_erase_inv distinct_snd_erase)

lemma pc_inv_free:
  assumes "pc_inv c" shows "pc_inv (snd (pc_free key c))"
proof (cases "mm_find (pc_map c) key")
  case None
  then show ?thesis using assms by (simp add: pc_free_def pc_remove_def)
next
  case (Some p)
  have "pc_inv (c\<lparr>pc_map := mm_erase key (pc_map c)\<rparr>)" by (rule pc_inv_erase [OF assms])
  moreover have "p \<notin> set (map snd (mm_erase key (pc_map c)))" "p \<notin> set (pc_freed c)"
    using assms Some erased_gone [of "pc_map c" key p] mm_find_snd [OF Some] by (auto simp: pc_inv_def)
  ultimately show ?thesis using Some by (auto simp: pc_free_def pc_remove_def pc_inv_def)
qed

interpretation pointers: machine pc_step pc_inv
proof
  fix c :: "'a pcoll" and e :: "'a pc_call"
  assume i: "pc_inv c"
  show "pc_inv (pc_step c e)"
  proof (cases e)
    case (PAdd key item whiny)
    then show ?thesis using i pc_inv_add by (auto split: sum.splits)
  next
    case (PUpdate key item)
    then show ?thesis using i by (simp add: pc_inv_update)
  next
    case (PFree key)
    then show ?thesis using i by (simp add: pc_inv_free)
  next
    case (PRemove key)
    then show ?thesis using i pc_inv_erase by (auto simp: pc_remove_def split: option.splits)
  next
    case (PRemoveItem item)
    then show ?thesis using i pc_inv_erase by (auto simp: pc_remove_item_def split: option.splits)
  next
    case PClear
    then show ?thesis using i by (auto simp: pc_clear_def pc_inv_def map_inv_def)
  qed
qed

text \<open>
  C40: Whatever calls are made on a PointerCollection (update included) by a client that adds
  only items it owns, no item is freed twice, no item in the map has been freed, and the keys
  stay strictly increasing.
\<close>

theorem PointerCollection_no_double_free:
  "let c = foldl pc_step pc_init calls in
     distinct (pc_freed c) \<and> set (map snd (pc_map c)) \<inter> set (pc_freed c) = {} \<and> map_inv (pc_map c)"
proof -
  have "pc_inv pc_init" by (simp add: pc_inv_def pc_init_def map_inv_def)
  from pointers.run_inv [OF this, of calls] show ?thesis by (simp add: pc_inv_def Let_def)
qed

end
