(* ===== verification/Http_Message.thy ===== *)
theory Http_Message
  imports Collections Bit_Buffer
begin

text \<open>
  HTTP messages (\<open>http/src/message.cpp\<close>, \<open>request.cpp\<close>, \<open>response.cpp\<close>) and the parameter parsers of
  \<open>http/src/httputil.cpp\<close>. A message is a record over its header collection; dates and the cookie objects are not
  modelled.
\<close>

subsection \<open>Status codes\<close>

datatype StatusCode =
    Continue | SwitchingProtocols | OK | Created | Accepted
    | NonAuthoritative | NoContent | ResetContent | PartialContent | MultipleChoices
    | MovedPermanently | Found | SeeOther | NotModified | UseProxy
    | TemporaryRedirect | BadRequest | Unauthorized | PaymentRequired | Forbidden
    | NotFound | MethodNotAllowed | NotAcceptable | ProxyAuthRequired | RequestTimeout
    | Conflict | Gone | LengthRequired | PreconditionFailed | EntityTooLarge
    | UriTooLong | UnsupportedMediaType | RangeNotSatisfiable | ExpectationFailed | UnprocessableEntity
    | UpgradeRequired | InternalServerError | NotImplemented | BadGateway | Unavailable
    | GatewayTimeout | VersionNotSupported

fun status_code :: "StatusCode \<Rightarrow> nat" where
  "status_code Continue = 100"
| "status_code SwitchingProtocols = 101"
| "status_code OK = 200"
| "status_code Created = 201"
| "status_code Accepted = 202"
| "status_code NonAuthoritative = 203"
| "status_code NoContent = 204"
| "status_code ResetContent = 205"
| "status_code PartialContent = 206"
| "status_code MultipleChoices = 300"
| "status_code MovedPermanently = 301"
| "status_code Found = 302"
| "status_code SeeOther = 303"
| "status_code NotModified = 304"
| "status_code UseProxy = 305"
| "status_code TemporaryRedirect = 307"
| "status_code BadRequest = 400"
| "status_code Unauthorized = 401"
| "status_code PaymentRequired = 402"
| "status_code Forbidden = 403"
| "status_code NotFound = 404"
| "status_code MethodNotAllowed = 405"
| "status_code NotAcceptable = 406"
| "status_code ProxyAuthRequired = 407"
| "status_code RequestTimeout = 408"
| "status_code Conflict = 409"
| "status_code Gone = 410"
| "status_code LengthRequired = 411"
| "status_code PreconditionFailed = 412"
| "status_code EntityTooLarge = 413"
| "status_code UriTooLong = 414"
| "status_code UnsupportedMediaType = 415"
| "status_code RangeNotSatisfiable = 416"
| "status_code ExpectationFailed = 417"
| "status_code UnprocessableEntity = 422"
| "status_code UpgradeRequired = 426"
| "status_code InternalServerError = 500"
| "status_code NotImplemented = 501"
| "status_code BadGateway = 502"
| "status_code Unavailable = 503"
| "status_code GatewayTimeout = 504"
| "status_code VersionNotSupported = 505"

fun getStatusCodeReason :: "StatusCode \<Rightarrow> string" where
  "getStatusCodeReason Continue = ''Continue''"
| "getStatusCodeReason SwitchingProtocols = ''Switching Protocols''"
| "getStatusCodeReason OK = ''OK''"
| "getStatusCodeReason Created = ''Created''"
| "getStatusCodeReason Accepted = ''Accepted''"
| "getStatusCodeReason NonAuthoritative = ''Non-Authoritative Information''"
| "getStatusCodeReason NoContent = ''No Content''"
| "getStatusCodeReason ResetContent = ''Reset Content''"
| "getStatusCodeReason PartialContent = ''Partial Content''"
| "getStatusCodeReason MultipleChoices = ''Multiple Choices''"
| "getStatusCodeReason MovedPermanently = ''Moved Permanently''"
| "getStatusCodeReason Found = ''Found''"
| "getStatusCodeReason SeeOther = ''See Other''"
| "getStatusCodeReason NotModified = ''Not Modified''"
| "getStatusCodeReason UseProxy = ''Use Proxy''"
| "getStatusCodeReason TemporaryRedirect = ''OK''"
| "getStatusCodeReason BadRequest = ''Bad Request''"
| "getStatusCodeReason Unauthorized = ''Unauthorized''"
| "getStatusCodeReason PaymentRequired = ''Payment Required''"
| "getStatusCodeReason Forbidden = ''Forbidden''"
| "getStatusCodeReason NotFound = ''Not Found''"
| "getStatusCodeReason MethodNotAllowed = ''Method Not Allowed''"
| "getStatusCodeReason NotAcceptable = ''Not Acceptable''"
| "getStatusCodeReason ProxyAuthRequired = ''Proxy Authentication Required''"
| "getStatusCodeReason RequestTimeout = ''Request Time-out''"
| "getStatusCodeReason Conflict = ''Conflict''"
| "getStatusCodeReason Gone = ''Gone''"
| "getStatusCodeReason LengthRequired = ''Length Required''"
| "getStatusCodeReason PreconditionFailed = ''Precondition Failed''"
| "getStatusCodeReason EntityTooLarge = ''Request Entity Too Large''"
| "getStatusCodeReason UriTooLong = ''Request-URI Too Large''"
| "getStatusCodeReason UnsupportedMediaType = ''Unsupported Media Type''"
| "getStatusCodeReason RangeNotSatisfiable = ''Requested range not satisfiable''"
| "getStatusCodeReason ExpectationFailed = ''Expectation Failed''"
| "getStatusCodeReason UnprocessableEntity = ''Unprocessable Entity''"
| "getStatusCodeReason UpgradeRequired = ''Upgrade Required''"
| "getStatusCodeReason InternalServerError = ''Internal Server Error''"
| "getStatusCodeReason NotImplemented = ''Not Implemented''"
| "getStatusCodeReason BadGateway = ''Bad Gateway''"
| "getStatusCodeReason Unavailable = ''Service Unavailable''"
| "getStatusCodeReason GatewayTimeout = ''Gateway Time-out''"
| "getStatusCodeReason VersionNotSupported = ''Version Not Supported''"

text \<open>The order of an \<open>enum class\<close> is that of its values.\<close>

lemma status_code_inj: "status_code a = status_code b \<Longrightarrow> a = b"
  by (cases a; cases b) simp_all

instantiation StatusCode :: linorder
begin

definition less_eq_StatusCode :: "StatusCode \<Rightarrow> StatusCode \<Rightarrow> bool" where
  "less_eq_StatusCode a b = (status_code a \<le> status_code b)"

definition less_StatusCode :: "StatusCode \<Rightarrow> StatusCode \<Rightarrow> bool" where
  "less_StatusCode a b = (status_code a < status_code b)"

instance
  by standard (auto simp: less_eq_StatusCode_def less_StatusCode_def intro: status_code_inj)

end

subsection \<open>Messages\<close>

definition HTTP_1_0 :: string where "HTTP_1_0 = ''HTTP/1.0''"
definition HTTP_1_1 :: string where "HTTP_1_1 = ''HTTP/1.1''"
definition UNKNOWN_CONTENT_LENGTH :: int where "UNKNOWN_CONTENT_LENGTH = -1"

record Message =
  msg_version :: string
  msg_headers :: NVCollection

definition Message_init :: Message where
  "Message_init = \<lparr>msg_version = HTTP_1_1, msg_headers = []\<rparr>"

definition msg_get :: "'m Message_scheme \<Rightarrow> string \<Rightarrow> string \<Rightarrow> string" where
  "msg_get m n d = nv_get_default (msg_headers m) n d"

definition msg_set :: "string \<Rightarrow> string \<Rightarrow> 'm Message_scheme \<Rightarrow> 'm Message_scheme" where
  "msg_set n v m = m\<lparr>msg_headers := nv_set n v (msg_headers m)\<rparr>"

definition msg_erase :: "string \<Rightarrow> 'm Message_scheme \<Rightarrow> 'm Message_scheme" where
  "msg_erase n m = m\<lparr>msg_headers := nv_erase n (msg_headers m)\<rparr>"

definition msg_has :: "'m Message_scheme \<Rightarrow> string \<Rightarrow> bool" where
  "msg_has m n = nv_has (msg_headers m) n"

definition setVersion :: "string \<Rightarrow> 'm Message_scheme \<Rightarrow> 'm Message_scheme" where
  "setVersion version m = m\<lparr>msg_version := version\<rparr>"

text \<open>\<open>int(length)\<close> (\<open>len\<close> here) keeps the low 32 bits.\<close>

definition setContentLength :: "u64 \<Rightarrow> 'm Message_scheme \<Rightarrow> 'm Message_scheme" where
  "setContentLength len m =
     (if sint (ucast len :: u32) \<noteq> UNKNOWN_CONTENT_LENGTH
      then msg_set ''Content-Length'' (itostr (uint len)) m
      else msg_erase ''Content-Length'' m)"

text \<open>\<open>strtoi<uint64_t>\<close>\<close>

definition strtoi_u64 :: "string \<Rightarrow> u64" where
  "strtoi_u64 s = (case read_signed s of None \<Rightarrow> 0
                   | Some x \<Rightarrow> if \<bar>x\<bar> < 2 ^ 64 then word_of_int x else 0)"

definition getContentLength :: "'m Message_scheme \<Rightarrow> u64" where
  "getContentLength m =
     (let contentLength = msg_get m ''Content-Length'' [] in
      if contentLength \<noteq> [] then strtoi_u64 contentLength else word_of_int UNKNOWN_CONTENT_LENGTH)"

definition hasContentLength :: "'m Message_scheme \<Rightarrow> bool" where
  "hasContentLength m = msg_has m ''Content-Length''"

definition setTransferEncoding :: "string \<Rightarrow> 'm Message_scheme \<Rightarrow> 'm Message_scheme" where
  "setTransferEncoding transferEncoding m =
     (if icompare transferEncoding ''identity'' = 0 then msg_erase ''Transfer-Encoding'' m
      else msg_set ''Transfer-Encoding'' transferEncoding m)"

definition getTransferEncoding :: "'m Message_scheme \<Rightarrow> string" where
  "getTransferEncoding m = msg_get m ''Transfer-Encoding'' ''identity''"

definition setChunkedTransferEncoding :: "bool \<Rightarrow> 'm Message_scheme \<Rightarrow> 'm Message_scheme" where
  "setChunkedTransferEncoding flag m =
     (if flag then setTransferEncoding ''chunked'' m else setTransferEncoding ''identity'' m)"

definition isChunkedTransferEncoding :: "'m Message_scheme \<Rightarrow> bool" where
  "isChunkedTransferEncoding m = (icompare (getTransferEncoding m) ''chunked'' = 0)"

definition setContentType :: "string \<Rightarrow> 'm Message_scheme \<Rightarrow> 'm Message_scheme" where
  "setContentType contentType m =
     (if contentType = [] then msg_erase ''Content-Type'' m else msg_set ''Content-Type'' contentType m)"

definition getContentType :: "'m Message_scheme \<Rightarrow> string" where
  "getContentType m = msg_get m ''Content-Type'' []"

definition setKeepAlive :: "bool \<Rightarrow> 'm Message_scheme \<Rightarrow> 'm Message_scheme" where
  "setKeepAlive keepAlive m =
     (if keepAlive then msg_set ''Connection'' ''Keep-Alive'' m else msg_set ''Connection'' ''Close'' m)"

definition getKeepAlive :: "'m Message_scheme \<Rightarrow> bool" where
  "getKeepAlive m =
     (let connection = msg_get m ''Connection'' [] in
      if connection \<noteq> [] then icompare connection ''Close'' \<noteq> 0 else msg_version m = HTTP_1_1)"

definition crlf :: string where
  "crlf = [CHR 0x0D, CHR 0x0A]"

definition Message_write :: "'m Message_scheme \<Rightarrow> string" where
  "Message_write m = concat (map (\<lambda>(n, v). n @ '': '' @ v @ crlf) (msg_headers m))"

subsection \<open>Requests and responses\<close>

record Request = Message +
  req_method :: string
  req_uri :: string

definition Request_init :: Request where
  "Request_init = \<lparr>msg_version = HTTP_1_1, msg_headers = [], req_method = ''GET'', req_uri = ''/''\<rparr>"

definition setHost :: "string \<Rightarrow> Request \<Rightarrow> Request" where
  "setHost host r = msg_set ''Host'' host r"

definition setHost_port :: "string \<Rightarrow> u16 \<Rightarrow> Request \<Rightarrow> Request" where
  "setHost_port host port r =
     (let value = (if port \<noteq> 80 \<and> port \<noteq> 443 then host @ '':'' @ itostr (uint port) else host) in setHost value r)"

definition getHost :: "Request \<Rightarrow> string res" where
  "getHost r = nv_get (msg_headers r) ''Host''"

definition Request_write :: "Request \<Rightarrow> string res" where
  "Request_write r =
     (if req_uri r = [] then Inl Assertion_failed
      else Inr (req_method r @ '' '' @ req_uri r @ '' '' @ msg_version r @ crlf @ Message_write r @ crlf))"

definition setCredentials :: "string \<Rightarrow> string \<Rightarrow> string \<Rightarrow> Request \<Rightarrow> Request" where
  "setCredentials header scheme authInfo r = msg_set header (scheme @ '' '' @ authInfo) r"

definition getCredentials :: "string \<Rightarrow> Request \<Rightarrow> (string \<times> string) res" where
  "getCredentials header r =
     (if msg_has r header
      then res_bind (nv_get (msg_headers r) header) (\<lambda>auth.
        let it = dropWhile isspace auth;
            scheme = takeWhile (\<lambda>c. \<not> isspace c) it;
            it' = dropWhile (\<lambda>c. \<not> isspace c) it
        in Inr (scheme, dropWhile isspace it'))
      else Inl (Runtime_error ''Request is not authenticated''))"

definition setMethod :: "string \<Rightarrow> Request \<Rightarrow> Request" where
  "setMethod method r = r\<lparr>req_method := method\<rparr>"

definition setURI :: "string \<Rightarrow> Request \<Rightarrow> Request" where
  "setURI uri r = r\<lparr>req_uri := uri\<rparr>"

definition hasCredentials :: "Request \<Rightarrow> bool" where
  "hasCredentials r = msg_has r ''Authorization''"

definition hasProxyCredentials :: "Request \<Rightarrow> bool" where
  "hasProxyCredentials r = msg_has r ''Proxy-Authorization''"

definition getProxyCredentials :: "Request \<Rightarrow> (string \<times> string) res" where
  "getProxyCredentials r = getCredentials ''Proxy-Authorization'' r"

definition setProxyCredentials :: "string \<Rightarrow> string \<Rightarrow> Request \<Rightarrow> Request" where
  "setProxyCredentials scheme authInfo r = setCredentials ''Proxy-Authorization'' scheme authInfo r"

record Response = Message +
  resp_status :: StatusCode
  resp_reason :: string

definition Response_init :: Response where
  "Response_init = \<lparr>msg_version = HTTP_1_1, msg_headers = [], resp_status = OK, resp_reason = getStatusCodeReason OK\<rparr>"

definition setStatus :: "StatusCode \<Rightarrow> Response \<Rightarrow> Response" where
  "setStatus status r = r\<lparr>resp_status := status, resp_reason := getStatusCodeReason status\<rparr>"

definition setReason :: "string \<Rightarrow> Response \<Rightarrow> Response" where
  "setReason reason r = r\<lparr>resp_reason := reason\<rparr>"

definition setStatusAndReason :: "StatusCode \<Rightarrow> string \<Rightarrow> Response \<Rightarrow> Response" where
  "setStatusAndReason status reason r = r\<lparr>resp_reason := reason, resp_status := status\<rparr>"

definition success :: "Response \<Rightarrow> bool" where
  "success r = (resp_status r < BadRequest)"

definition Response_write :: "Response \<Rightarrow> string" where
  "Response_write r =
     msg_version r @ '' '' @ itostr (int (status_code (resp_status r))) @ '' '' @ resp_reason r @ crlf
     @ Message_write r @ crlf"

subsection \<open>Parameters\<close>

text \<open>
  The value of one parameter: up to a semicolon outside quotes; a backslash takes the next character as it is.
  The flag says whether the text is inside quotes. Yields the value and the text from the semicolon on.
\<close>

fun param_value :: "bool \<Rightarrow> string \<Rightarrow> string \<times> string" where
  "param_value quoted [] = ([], [])"
| "param_value quoted (c # cs) =
     (if quoted \<and> c = CHR 0x22 then param_value False cs
      else if c = CHR 0x5C
      then (case cs of [] \<Rightarrow> ([], []) | d # ds \<Rightarrow> (case param_value quoted ds of (v, r) \<Rightarrow> (d # v, r)))
      else if \<not> quoted \<and> c = CHR '';'' then ([], c # cs)
      else if \<not> quoted \<and> c = CHR 0x22 then param_value True cs
      else (case param_value quoted cs of (v, r) \<Rightarrow> (c # v, r)))"

lemma param_value_length: "length (snd (param_value q s)) \<le> length s"
proof (induction q s rule: param_value.induct)
  case (2 quoted c cs)
  show ?case
  proof (cases cs)
    case Nil
    then show ?thesis using 2 by (auto split: prod.splits)
  next
    case (Cons d ds)
    show ?thesis
    proof (cases "c = CHR 0x5C")
      case True
      then have "\<not> (quoted \<and> c = CHR 0x22)" by simp
      then show ?thesis using "2.IH"(2) [OF _ True Cons] Cons True
        by (cases "param_value quoted ds") simp
    next
      case False
      consider "quoted \<and> c = CHR 0x22" | "\<not> (quoted \<and> c = CHR 0x22)" "\<not> quoted \<and> c = CHR '';''"
        | "\<not> (quoted \<and> c = CHR 0x22)" "\<not> (\<not> quoted \<and> c = CHR '';'')" "\<not> quoted \<and> c = CHR 0x22"
        | "\<not> (quoted \<and> c = CHR 0x22)" "\<not> (\<not> quoted \<and> c = CHR '';'')" "\<not> (\<not> quoted \<and> c = CHR 0x22)"
        by blast
      then show ?thesis
      proof cases
        case 1
        then show ?thesis using "2.IH"(1) by simp
      next
        case 2
        then show ?thesis using False by auto
      next
        case 3
        then show ?thesis using "2.IH"(3) False by simp
      next
        case 4
        then show ?thesis using "2.IH"(4) False by (cases "param_value quoted cs") auto
      qed
    qed
  qed
qed simp

definition pname_char :: "char \<Rightarrow> bool" where
  "pname_char c = (c \<noteq> CHR ''='' \<and> c \<noteq> CHR '';'')"

text \<open>One round of \<open>splitParameters\<close>: name, value and what is left after the semicolon.\<close>

definition split_parameter :: "string \<Rightarrow> string \<times> string \<times> string" where
  "split_parameter s =
     (let it = dropWhile isspace s;
          pname = takeWhile pname_char it;
          it1 = dropWhile pname_char it;
          it2 = (if it1 \<noteq> [] \<and> hd it1 \<noteq> CHR '';'' then tl it1 else it1);
          it3 = dropWhile isspace it2
      in case param_value False it3 of (pvalue, rest) \<Rightarrow>
           (trimRightInPlace pname, trimRightInPlace pvalue, if rest \<noteq> [] then tl rest else []))"

lemma split_parameter_shrinks: "s \<noteq> [] \<Longrightarrow> split_parameter s = (n, v, r) \<Longrightarrow> length r < length s"
proof -
  assume s: "s \<noteq> []" "split_parameter s = (n, v, r)"
  define it1 where "it1 = dropWhile pname_char (dropWhile isspace s)"
  define it3 where "it3 = dropWhile isspace (if it1 \<noteq> [] \<and> hd it1 \<noteq> CHR '';'' then tl it1 else it1)"
  have "length it3 \<le> length it1"
    using length_dropWhile_le [of isspace "tl it1"] length_dropWhile_le [of isspace it1] by (auto simp: it3_def)
  moreover have "length it1 \<le> length s"
    unfolding it1_def using length_dropWhile_le [of pname_char "dropWhile isspace s"] length_dropWhile_le [of isspace s] by linarith
  moreover have "r = (if snd (param_value False it3) \<noteq> [] then tl (snd (param_value False it3)) else [])"
    using s(2) unfolding split_parameter_def Let_def it1_def [symmetric] it3_def [symmetric]
    by (cases "param_value False it3") (simp only: prod.case snd_conv prod.inject)
  moreover have "length (snd (param_value False it3)) \<le> length it3" by (rule param_value_length)
  ultimately show ?thesis using s(1) by (cases "snd (param_value False it3)") auto
qed

function splitParameters :: "string \<Rightarrow> NVCollection \<Rightarrow> NVCollection" where
  "splitParameters s parameters =
     (if s = [] then parameters
      else case split_parameter s of (pname, pvalue, rest) \<Rightarrow>
        splitParameters rest (if pname \<noteq> [] then nv_add pname pvalue parameters else parameters))"
  by pat_completeness auto
termination
  by (relation "measure (\<lambda>(s, parameters). length s)")
    (auto dest!: split_parameter_shrinks [OF _ sym])

declare splitParameters.simps [simp del]

definition splitParameters_value :: "string \<Rightarrow> string \<times> NVCollection" where
  "splitParameters_value s =
     (let it = dropWhile isspace s;
          value = takeWhile (\<lambda>c. c \<noteq> CHR '';'') it;
          rest = dropWhile (\<lambda>c. c \<noteq> CHR '';'') it
      in (trimRightInPlace value, splitParameters (if rest \<noteq> [] then tl rest else []) []))"

definition setCookies :: "NVCollection \<Rightarrow> string" where
  "setCookies cookies =
     concat (map (\<lambda>(i, n, v). (if i \<noteq> 0 then ''; '' else []) @ n @ ''='' @ v) (List.enumerate 0 cookies))"

definition Request_setCookies :: "NVCollection \<Rightarrow> Request \<Rightarrow> Request" where
  "Request_setCookies cookies r = r\<lparr>msg_headers := nv_add ''Cookie'' (setCookies cookies) (msg_headers r)\<rparr>"

text \<open>From the first \<open>Cookie\<close> header on, as long as the headers are named so up to case.\<close>

definition Request_getCookies :: "Request \<Rightarrow> NVCollection \<Rightarrow> NVCollection" where
  "Request_getCookies r cookies =
     foldl (\<lambda>cs h. splitParameters (snd h) cs) cookies
       (takeWhile (\<lambda>h. icompare (fst h) ''Cookie'' = 0) (dropWhile (\<lambda>h. fst h \<noteq> ''Cookie'') (msg_headers r)))"

text \<open>
  \<open>splitURIParameters\<close>. Reading the character behind the end yields NUL, reading beyond it is
  undefined: that is what happens after a name without a value, because \<open>i\<close> has already passed the end.
\<close>

fun uri_rest :: "string \<Rightarrow> NVCollection \<Rightarrow> NVCollection \<times> string" where
  "uri_rest [] out = (out, [])"
| "uri_rest (c # cs) out =
     (if c = CHR ''?'' then (out, c # cs)
      else (let value = takeWhile (\<lambda>c. c \<noteq> CHR ''/'' \<and> c \<noteq> CHR ''?'') cs;
                out' = (if value \<noteq> [] then nv_set (itostr (int (nv_size out))) value out else out)
            in uri_rest (drop (length value) cs) out'))"

function uri_query :: "string \<Rightarrow> NVCollection \<Rightarrow> NVCollection res" where
  "uri_query s out =
     (if s = [] then Inr out
      else (let name = takeWhile (\<lambda>c. c \<noteq> CHR ''='') s; r1 = dropWhile (\<lambda>c. c \<noteq> CHR ''='') s in
        if r1 = [] then Inl Undefined_behaviour
        else (let value = takeWhile (\<lambda>c. c \<noteq> CHR ''&'') (tl r1); r2 = dropWhile (\<lambda>c. c \<noteq> CHR ''&'') (tl r1) in
          uri_query (tl r2) (if name \<noteq> [] \<and> value \<noteq> [] then nv_set name value out else out))))"
  by pat_completeness auto
termination
proof (relation "measure (\<lambda>(s, out). length s)", goal_cases)
  case (2 s out name r1 v r2)
  have "length r1 \<le> length s" "length r2 \<le> length (tl r1)"
    using 2 length_dropWhile_le [of "\<lambda>c. c \<noteq> CHR ''=''" s] length_dropWhile_le [of "\<lambda>c. c \<noteq> CHR ''&''" "tl r1"] by simp_all
  moreover have "0 < length s" using 2(1) by simp
  ultimately have "length (tl r2) < length s" by (simp only: length_tl)
  then show ?case by simp
qed simp

declare uri_query.simps [simp del]

definition splitURIParameters :: "string \<Rightarrow> NVCollection \<Rightarrow> (bool \<times> NVCollection) res" where
  "splitURIParameters uri out =
     (case uri_rest uri out of (out1, q) \<Rightarrow>
        res_bind (uri_query (if q \<noteq> [] then tl q else []) out1) (\<lambda>out2. Inr (nv_size out2 > 0, out2)))"

definition getURIParameters :: "Request \<Rightarrow> NVCollection \<Rightarrow> (bool \<times> NVCollection) res" where
  "getURIParameters r params = splitURIParameters (req_uri r) params"

definition substr_to :: "string \<Rightarrow> nat \<Rightarrow> nat option \<Rightarrow> string" where
  "substr_to s start end' = (case end' of None \<Rightarrow> drop start s | Some e \<Rightarrow> take (e - start) (drop start s))"

text \<open>The result of \<open>toUpper\<close> is dropped: \<open>req\<close> is the request as it came.\<close>

definition parseURI :: "string \<Rightarrow> string" where
  "parseURI request =
     (case find_from request '' '' 0 of None \<Rightarrow> []
      | Some s \<Rightarrow>
          (let start = s + 1;
               end' = (case find_from request '' HTTPS'' start of Some e \<Rightarrow> Some e
                       | None \<Rightarrow> (case find_from request '' HTTP'' start of Some e \<Rightarrow> Some e
                           | None \<Rightarrow> find_from request '' RTSP'' start))
           in case end' of None \<Rightarrow> [] | Some e \<Rightarrow> substr_to request start (Some e)))"

definition matchURL :: "string \<Rightarrow> string \<Rightarrow> bool res" where
  "matchURL uri expression = matchNodes (substr_to uri 0 (find_from uri ''?'' 0)) expression ''/''"

definition parseCookieItem :: "string \<Rightarrow> string \<Rightarrow> string" where
  "parseCookieItem cookie item =
     (case find_from cookie (item @ ''='') 0 of None \<Rightarrow> []
      | Some s \<Rightarrow> (let start = s + length item + 1 in substr_to cookie start (find_from cookie '';'' start)))"

subsection \<open>What the message operations promise\<close>

lemmas msg_defs = msg_get_def msg_set_def msg_erase_def msg_has_def

lemma msg_get_set: "msg_get (msg_set n v m) n' d = (if n' = n then v else msg_get m n' d)"
  by (simp add: msg_defs nv.get_put)

lemma msg_get_erase: "msg_get (msg_erase n m) n' d = (if n' = n then d else msg_get m n' d)"
  by (simp add: msg_defs nv.get_del)

lemma msg_has_set: "msg_has (msg_set n v m) n' = (n' = n \<or> msg_has m n')"
  by (simp add: msg_defs nv.has_put)

lemma msg_has_erase: "msg_has (msg_erase n m) n' = (n' \<noteq> n \<and> msg_has m n')"
  by (simp add: msg_defs nv.has_del)

lemma msg_version_set [simp]: "msg_version (msg_set n v m) = msg_version m"
  by (simp add: msg_defs)

lemma msg_version_erase [simp]: "msg_version (msg_erase n m) = msg_version m"
  by (simp add: msg_defs)

lemmas msg_laws = msg_get_set msg_get_erase msg_has_set msg_has_erase

lemma itostr_not_Nil: "itostr n \<noteq> []"
  by (simp add: itostr_def itostr_nat_not_Nil)

lemma strtoi_u64_itostr: "strtoi_u64 (itostr (uint n)) = n"
proof -
  have "uint n < 2 ^ LENGTH(64)" by (rule unsigned_less)
  then show ?thesis by (simp add: strtoi_u64_def read_signed_itostr)
qed

lemma low_32_minus_one: "sint (ucast (n :: u64) :: u32) = -1 \<longleftrightarrow> n AND mask 32 = mask 32"
proof -
  have "sint (ucast n :: u32) = -1 \<longleftrightarrow> (ucast n :: u32) = -1"
    by (metis signed_minus_1 signed_word_eqI)
  also have "\<dots> \<longleftrightarrow> (\<forall>i<32. bit n i)"
    by (auto simp: bit_eq_iff bit_simps)
  also have "\<dots> \<longleftrightarrow> n AND mask 32 = mask 32"
  proof
    assume *: "n AND mask 32 = mask 32"
    show "\<forall>i<32. bit n i"
    proof (intro allI impI)
      fix i :: nat assume "i < 32"
      moreover have "bit (n AND mask 32) i = bit (mask 32 :: u64) i" by (simp only: *)
      ultimately show "bit n i" by (simp add: bit_simps)
    qed
  qed (auto simp: bit_eq_iff bit_simps)
  finally show ?thesis .
qed

text \<open>
  getContentLength returns the length setContentLength stored and no other header
  changes, except that a length whose low 32 bits are all ones is dropped as unknown.
\<close>

theorem content_length_roundtrip:
  "getContentLength (setContentLength n m) = (if n AND mask 32 = mask 32 then - 1 else n) \<and>
   hasContentLength (setContentLength n m) = (n AND mask 32 \<noteq> mask 32) \<and>
   getTransferEncoding (setContentLength n m) = getTransferEncoding m \<and>
   getKeepAlive (setContentLength n m) = getKeepAlive m"
proof (cases "n AND mask 32 = mask 32")
  case True
  then have "setContentLength n m = msg_erase ''Content-Length'' m"
    by (simp add: setContentLength_def UNKNOWN_CONTENT_LENGTH_def low_32_minus_one)
  then show ?thesis using True
    by (simp add: getContentLength_def hasContentLength_def getTransferEncoding_def getKeepAlive_def msg_laws
        UNKNOWN_CONTENT_LENGTH_def)
next
  case False
  then have "setContentLength n m = msg_set ''Content-Length'' (itostr (uint n)) m"
    by (simp add: setContentLength_def UNKNOWN_CONTENT_LENGTH_def low_32_minus_one)
  then show ?thesis using False
    by (simp add: getContentLength_def hasContentLength_def getTransferEncoding_def getKeepAlive_def msg_laws
        itostr_not_Nil strtoi_u64_itostr)
qed

lemma icompare_chunked: "icompare ''chunked'' ''identity'' \<noteq> 0" "icompare ''identity'' ''identity'' = 0"
  "icompare ''identity'' ''chunked'' \<noteq> 0" "icompare ''chunked'' ''chunked'' = 0"
  "icompare ''Keep-Alive'' ''Close'' \<noteq> 0" "icompare ''Close'' ''Close'' = 0"
  by code_simp+

text \<open>
  The chunked and keep-alive flags read back as they were set, and neither disturbs the
  other or the content length.
\<close>

theorem connection_flags:
  "isChunkedTransferEncoding (setChunkedTransferEncoding b m) = b \<and>
   getKeepAlive (setKeepAlive b m) = b \<and>
   getKeepAlive (setChunkedTransferEncoding b m) = getKeepAlive m \<and>
   isChunkedTransferEncoding (setKeepAlive b m) = isChunkedTransferEncoding m \<and>
   getContentLength (setKeepAlive b (setChunkedTransferEncoding b m)) = getContentLength m"
  by (simp add: isChunkedTransferEncoding_def setChunkedTransferEncoding_def setTransferEncoding_def
      getTransferEncoding_def getKeepAlive_def setKeepAlive_def getContentLength_def msg_laws icompare_chunked)

lemma dropWhile_keep: "s = [] \<or> \<not> P (hd s) \<Longrightarrow> dropWhile P s = s"
  by (cases s) auto

lemma takeWhile_stop: "list_all P s \<Longrightarrow> t = [] \<or> \<not> P (hd t) \<Longrightarrow> takeWhile P (s @ t) = s"
  by (induction s) (cases t, auto)

lemma dropWhile_stop: "list_all P s \<Longrightarrow> t = [] \<or> \<not> P (hd t) \<Longrightarrow> dropWhile P (s @ t) = t"
  by (induction s) (cases t, auto)

text \<open>
  Credentials stored under a header are read back, when the scheme is a non-empty word
  and the information does not begin with white space.
\<close>

theorem credentials_roundtrip:
  assumes "scheme \<noteq> []" "list_all (\<lambda>c. \<not> isspace c) scheme" "authInfo = [] \<or> \<not> isspace (hd authInfo)"
  shows "getCredentials header (setCredentials header scheme authInfo r) = Inr (scheme, authInfo)"
proof -
  have space: "isspace CHR '' ''" by code_simp
  obtain c cs where s: "scheme = c # cs" using assms(1) by (cases scheme) auto
  have "dropWhile isspace (scheme @ '' '' @ authInfo) = scheme @ '' '' @ authInfo"
    using assms(2) s by simp
  moreover have "takeWhile (\<lambda>c. \<not> isspace c) (scheme @ '' '' @ authInfo) = scheme"
    using assms(2) space by (intro takeWhile_stop) auto
  moreover have "dropWhile (\<lambda>c. \<not> isspace c) (scheme @ '' '' @ authInfo) = '' '' @ authInfo"
    using assms(2) space by (intro dropWhile_stop) auto
  moreover have "dropWhile isspace ('' '' @ authInfo) = authInfo"
    using assms(3) space by (simp add: dropWhile_keep)
  moreover have "msg_has (setCredentials header scheme authInfo r) header"
    by (simp add: setCredentials_def msg_has_set)
  moreover have "nv_get (msg_headers (setCredentials header scheme authInfo r)) header = Inr (scheme @ '' '' @ authInfo)"
    by (simp add: setCredentials_def nv_get_def msg_set_def mm_find_nv_set)
  ultimately show ?thesis by (simp add: getCredentials_def Let_def)
qed

theorem credentials_roundtrip_witness:
  "getCredentials ''Authorization'' (setCredentials ''Authorization'' ''Basic'' ''dTpw'' Request_init) = Inr (''Basic'', ''dTpw'')"
  by (rule credentials_roundtrip) code_simp+

subsection \<open>Cookies\<close>

definition cookie_name :: "string \<Rightarrow> bool" where
  "cookie_name n = (n \<noteq> [] \<and> list_all pname_char n \<and> \<not> isspace (hd n) \<and> \<not> isspace (last n))"

definition cookie_value :: "string \<Rightarrow> bool" where
  "cookie_value v = (list_all (\<lambda>c. c \<noteq> CHR '';'' \<and> c \<noteq> CHR 0x22 \<and> c \<noteq> CHR 0x5C) v \<and>
     (v \<noteq> [] \<longrightarrow> \<not> isspace (hd v) \<and> \<not> isspace (last v)))"

definition cookies_ok :: "NVCollection \<Rightarrow> bool" where
  "cookies_ok cs = list_all (\<lambda>(n, v). cookie_name n \<and> cookie_value v) cs"

lemma trimRightInPlace_id: "s = [] \<or> \<not> isspace (last s) \<Longrightarrow> trimRightInPlace s = s"
  by (cases s rule: rev_cases) (auto simp: trimRightInPlace_def trimRight_eq)

lemma param_value_plain:
  "list_all (\<lambda>c. c \<noteq> CHR '';'' \<and> c \<noteq> CHR 0x22 \<and> c \<noteq> CHR 0x5C) v \<Longrightarrow> t = [] \<or> hd t = CHR '';'' \<Longrightarrow>
   param_value False (v @ t) = (v, t)"
  by (induction v) (cases t, auto)

lemma split_parameter_print:
  assumes "list_all isspace pre" "cookie_name n" "cookie_value v" "t = [] \<or> hd t = CHR '';''"
  shows "split_parameter (pre @ n @ CHR ''='' # v @ t) = (n, v, if t \<noteq> [] then tl t else [])"
proof -
  have semi: "\<not> isspace CHR '';''" by code_simp
  have n: "n \<noteq> []" "list_all pname_char n" "\<not> isspace (hd n)" "\<not> isspace (last n)"
    using assms(2) by (simp_all add: cookie_name_def)
  have 1: "dropWhile isspace (pre @ n @ CHR ''='' # v @ t) = n @ CHR ''='' # v @ t"
    using assms(1) n by (intro dropWhile_stop) auto
  have 2: "takeWhile pname_char (n @ CHR ''='' # v @ t) = n" "dropWhile pname_char (n @ CHR ''='' # v @ t) = CHR ''='' # v @ t"
    using n by (auto intro!: takeWhile_stop dropWhile_stop simp: pname_char_def)
  have 3: "dropWhile isspace (v @ t) = v @ t"
    using assms(3,4) semi by (intro dropWhile_keep) (cases v; auto simp: cookie_value_def)
  have 4: "param_value False (v @ t) = (v, t)"
    using assms(3,4) by (intro param_value_plain) (auto simp: cookie_value_def)
  have 5: "trimRightInPlace n = n" "trimRightInPlace v = v"
    using n assms(3) by (auto intro!: trimRightInPlace_id simp: cookie_value_def)
  show ?thesis unfolding split_parameter_def Let_def 1 2 by (simp add: 3 4 5)
qed

definition cookie_tail :: "NVCollection \<Rightarrow> string" where
  "cookie_tail cs = concat (map (\<lambda>(n, v). ''; '' @ n @ ''='' @ v) cs)"

lemma setCookies_tail: "0 < i \<Longrightarrow>
  concat (map (\<lambda>(i, n, v). (if i \<noteq> 0 then ''; '' else []) @ n @ ''='' @ v) (List.enumerate i cs)) = cookie_tail cs"
  by (induction cs arbitrary: i) (auto simp: cookie_tail_def)

lemma setCookies_Cons: "setCookies ((n, v) # cs) = n @ CHR ''='' # v @ cookie_tail cs"
  using setCookies_tail [of "Suc 0" cs] by (simp add: setCookies_def)

lemma cookie_tail_start: "cookie_tail cs = [] \<or> hd (cookie_tail cs) = CHR '';''"
  by (cases cs) (auto simp: cookie_tail_def)

abbreviation add_all :: "NVCollection \<Rightarrow> NVCollection \<Rightarrow> NVCollection" where
  "add_all cs acc \<equiv> foldl (\<lambda>acc (n, v). nv_add n v acc) acc cs"

lemma splitParameters_print:
  assumes "list_all isspace pre" "cookie_name n" "cookie_value v" "t = [] \<or> hd t = CHR '';''"
  shows "splitParameters (pre @ n @ CHR ''='' # v @ t) acc = splitParameters (if t \<noteq> [] then tl t else []) (nv_add n v acc)"
  using assms(2) by (subst splitParameters.simps) (simp add: split_parameter_print [OF assms] cookie_name_def)

lemma splitParameters_tail: "cookies_ok cs \<Longrightarrow> splitParameters (if cookie_tail cs \<noteq> [] then tl (cookie_tail cs) else []) acc = add_all cs acc"
proof (induction cs arbitrary: acc)
  case Nil
  then show ?case by (simp add: cookie_tail_def splitParameters.simps)
next
  case (Cons a cs)
  obtain n v where a: "a = (n, v)" by (cases a)
  have ok: "cookie_name n" "cookie_value v" "cookies_ok cs" using Cons.prems by (simp_all add: a cookies_ok_def)
  have "list_all isspace '' ''" by code_simp
  from splitParameters_print [OF this ok(1,2) cookie_tail_start, of cs acc]
  have "splitParameters (CHR '' '' # n @ CHR ''='' # v @ cookie_tail cs) acc = add_all cs (nv_add n v acc)"
    by (simp add: Cons.IH [OF ok(3)])
  then show ?case by (simp add: a cookie_tail_def)
qed

lemma splitParameters_setCookies: "cookies_ok cs \<Longrightarrow> splitParameters (setCookies cs) acc = add_all cs acc"
proof (cases cs)
  case Nil
  then show ?thesis by (simp add: setCookies_def splitParameters.simps)
next
  case (Cons a cs')
  assume "cookies_ok cs"
  then obtain n v where c: "cs = (n, v) # cs'" "cookie_name n" "cookie_value v" "cookies_ok cs'"
    using Cons by (cases a) (auto simp: cookies_ok_def)
  have "list_all isspace []" by simp
  from splitParameters_print [OF this c(2,3) cookie_tail_start, of cs' acc] show ?thesis
    by (simp add: c(1) setCookies_Cons splitParameters_tail [OF c(4)])
qed

lemma mm_insert_last: "sorted (map fst acc @ [k]) \<Longrightarrow> mm_insert k v acc = acc @ [(k, v)]"
  by (induction acc) (auto simp: not_less)

lemma add_all_sorted: "nv_inv (acc @ cs) \<Longrightarrow> add_all cs acc = acc @ cs"
proof (induction cs arbitrary: acc)
  case (Cons a cs)
  obtain n v where a: "a = (n, v)" by (cases a)
  have "sorted (map fst acc @ [n])" using Cons.prems by (simp add: a nv_inv_def sorted_append)
  then have "nv_add n v acc = acc @ [(n, v)]" by (simp add: nv_add_def mm_insert_last)
  then show ?case using Cons.IH [of "acc @ [a]"] Cons.prems by (simp add: a)
qed simp

lemma dropWhile_insert: "\<forall>h\<in>set hs. fst h \<noteq> k \<Longrightarrow>
  \<exists>rest. dropWhile (\<lambda>h. fst h \<noteq> k) (mm_insert k v hs) = (k, v) # rest \<and> set rest \<subseteq> set hs"
proof (induction hs)
  case (Cons h hs)
  then show ?case by (cases h) auto
qed simp

text \<open>
  Cookies written into the Cookie header of a request come back from it, all of them and
  in order, when the names hold no = or ;, the values no ;, quote or backslash, neither begins
  or ends with white space, and the request carried no cookie header.
\<close>

theorem cookies_roundtrip:
  assumes "nv_inv cookies" "cookies_ok cookies" "\<forall>h\<in>set (msg_headers r). icompare (fst h) ''Cookie'' \<noteq> 0"
  shows "Request_getCookies (Request_setCookies cookies r) [] = cookies"
proof -
  have same: "icompare ''Cookie'' ''Cookie'' = 0" by code_simp
  then have "\<forall>h\<in>set (msg_headers r). fst h \<noteq> ''Cookie''" using assms(3) by fastforce
  from dropWhile_insert [OF this, of "setCookies cookies"] obtain rest where rest: "set rest \<subseteq> set (msg_headers r)"
    "dropWhile (\<lambda>h. fst h \<noteq> ''Cookie'') (nv_add ''Cookie'' (setCookies cookies) (msg_headers r)) =
     (''Cookie'', setCookies cookies) # rest"
    by (elim exE conjE) (rule that, simp_all only: nv_add_def)
  have "takeWhile (\<lambda>h. icompare (fst h) ''Cookie'' = 0) rest = []"
    using assms(3) rest(1) by (cases rest) auto
  moreover have "msg_headers (Request_setCookies cookies r) = nv_add ''Cookie'' (setCookies cookies) (msg_headers r)"
    by (simp add: Request_setCookies_def)
  ultimately have "Request_getCookies (Request_setCookies cookies r) [] = splitParameters (setCookies cookies) []"
    by (simp only: Request_getCookies_def rest(2) takeWhile.simps fst_conv same
        foldl.simps snd_conv simp_thms if_True)
  also have "\<dots> = add_all cookies []" by (rule splitParameters_setCookies [OF assms(2)])
  also have "\<dots> = cookies" using add_all_sorted [of "[]" cookies] assms(1) by simp
  finally show ?thesis .
qed

theorem cookies_roundtrip_witness:
  "Request_getCookies (Request_setCookies [(''id'', ''42''), (''user'', ''a b'')] Request_init) [] =
   [(''id'', ''42''), (''user'', ''a b'')]"
proof (rule cookies_roundtrip)
  show "nv_inv [(''id'', ''42''), (''user'', ''a b'')]" by code_simp
  show "cookies_ok [(''id'', ''42''), (''user'', ''a b'')]" by code_simp
qed (simp add: Request_init_def)

subsection \<open>Request paths and queries\<close>

definition rest_path :: "string list \<Rightarrow> string" where
  "rest_path segs = concat (map (\<lambda>s. CHR ''/'' # s) segs)"

fun query_text :: "(string \<times> string) list \<Rightarrow> string" where
  "query_text [] = []"
| "query_text [(n, v)] = n @ CHR ''='' # v"
| "query_text ((n, v) # q # qs) = n @ CHR ''='' # v @ CHR ''&'' # query_text (q # qs)"

definition segment_ok :: "string \<Rightarrow> bool" where
  "segment_ok s = (s \<noteq> [] \<and> list_all (\<lambda>c. c \<noteq> CHR ''/'' \<and> c \<noteq> CHR ''?'') s)"

definition query_ok :: "string \<times> string \<Rightarrow> bool" where
  "query_ok nv = (fst nv \<noteq> [] \<and> CHR ''='' \<notin> set (fst nv) \<and> snd nv \<noteq> [] \<and> CHR ''&'' \<notin> set (snd nv))"

abbreviation rest_params :: "nat \<Rightarrow> string list \<Rightarrow> (string \<times> string) list" where
  "rest_params i segs \<equiv> map (\<lambda>(i, s). (itostr (int i), s)) (List.enumerate i segs)"

lemma itostr_inject [simp]: "itostr a = itostr b \<longleftrightarrow> a = b"
  by (metis option.inject read_signed_itostr)

lemma nv_size_set: "\<not> nv_has c n \<Longrightarrow> nv_size (nv_set n v c) = Suc (nv_size c)"
proof -
  have *: "length (mm_insert n v c) = Suc (length c)" by (induction c) auto
  assume "\<not> nv_has c n"
  then show ?thesis by (simp add: nv_has_def nv_set_def nv_size_def *)
qed

lemma uri_rest_path:
  "list_all segment_ok segs \<Longrightarrow> q = [] \<or> hd q = CHR ''?'' \<Longrightarrow> nv_size out = i \<Longrightarrow>
   \<forall>j\<ge>i. \<not> nv_has out (itostr (int j)) \<Longrightarrow>
   uri_rest (rest_path segs @ q) out = (nv.puts (rest_params i segs) out, q)"
proof (induction segs arbitrary: i out)
  case Nil
  then show ?case by (cases q) (auto simp: rest_path_def)
next
  case (Cons s segs)
  define out' where "out' = nv_set (itostr (int i)) s out"
  have s: "segment_ok s" "list_all segment_ok segs" using Cons.prems(1) by simp_all
  have tail: "rest_path segs @ q = [] \<or> \<not> (hd (rest_path segs @ q) \<noteq> CHR ''/'' \<and> hd (rest_path segs @ q) \<noteq> CHR ''?'')"
    using Cons.prems(2) by (cases segs) (auto simp: rest_path_def)
  have tw: "takeWhile (\<lambda>c. c \<noteq> CHR ''/'' \<and> c \<noteq> CHR ''?'') (s @ rest_path segs @ q) = s"
    using s(1) tail by (intro takeWhile_stop) (auto simp: segment_ok_def)
  have "nv_size out' = Suc i"
    using Cons.prems(3,4) by (simp add: out'_def nv_size_set)
  moreover have "\<forall>j\<ge>Suc i. \<not> nv_has out' (itostr (int j))"
    using Cons.prems(4) by (simp add: out'_def nv.has_put)
  ultimately have "uri_rest (rest_path segs @ q) out' = (nv.puts (rest_params (Suc i) segs) out', q)"
    using Cons.IH [OF s(2) Cons.prems(2)] by blast
  moreover have "rest_path (s # segs) @ q = CHR ''/'' # s @ rest_path segs @ q"
    by (simp add: rest_path_def)
  ultimately show ?case
    using s(1) Cons.prems(3) by (simp add: tw segment_ok_def out'_def)
qed

lemma takeWhile_neq_stop: "c \<notin> set s \<Longrightarrow> takeWhile (\<lambda>x. x \<noteq> c) (s @ c # t) = s"
  by (induction s) auto

lemma dropWhile_neq_stop: "c \<notin> set s \<Longrightarrow> dropWhile (\<lambda>x. x \<noteq> c) (s @ c # t) = c # t"
  by (induction s) auto

lemma takeWhile_neq_all: "c \<notin> set s \<Longrightarrow> takeWhile (\<lambda>x. x \<noteq> c) s = s"
  by (induction s) auto

lemma dropWhile_neq_all: "c \<notin> set s \<Longrightarrow> dropWhile (\<lambda>x. x \<noteq> c) s = []"
  by (induction s) auto

lemmas scan_to = takeWhile_neq_stop dropWhile_neq_stop takeWhile_neq_all dropWhile_neq_all

lemma uri_query_parses: "list_all query_ok qs \<Longrightarrow> uri_query (query_text qs) out = Inr (nv.puts qs out)"
proof (induction qs arbitrary: out rule: query_text.induct)
  case 1
  then show ?case by (simp add: uri_query.simps)
next
  case (2 n v)
  then show ?case
    by (simp add: uri_query.simps [of "n @ _"] uri_query.simps [of "[]"] query_ok_def scan_to
        del: dropWhile_eq_Nil_conv)
next
  case (3 n v q qs)
  then show ?case
    by (simp add: uri_query.simps [of "n @ _"] query_ok_def scan_to del: dropWhile_eq_Nil_conv)
qed

definition uri_text :: "string list \<Rightarrow> (string \<times> string) list \<Rightarrow> string" where
  "uri_text segs qs = rest_path segs @ (if qs = [] then [] else CHR ''?'' # query_text qs)"

lemma splitURIParameters_puts:
  assumes "list_all segment_ok segs" "list_all query_ok qs"
  shows "splitURIParameters (uri_text segs qs) [] =
    (let c = nv.puts qs (nv.puts (rest_params 0 segs) []) in Inr (nv_size c > 0, c))"
proof -
  have "uri_rest (uri_text segs qs) [] =
      (nv.puts (rest_params 0 segs) [], if qs = [] then [] else CHR ''?'' # query_text qs)"
    unfolding uri_text_def using assms(1) by (intro uri_rest_path) (auto simp: nv_has_def nv_size_def)
  then show ?thesis
    using uri_query_parses [OF assms(2)] uri_query.simps [of "[]"] by (simp add: splitURIParameters_def Let_def)
qed

lemma distinct_rest_params: "distinct (map fst (rest_params i segs))"
proof -
  have "map fst (rest_params i segs) = map (\<lambda>j. itostr (int j)) (map fst (List.enumerate i segs))"
    by (simp only: map_map) (rule map_cong, auto)
  then show ?thesis by (simp add: distinct_map inj_on_def)
qed

lemma nth_rest_params: "i < length segs \<Longrightarrow> (itostr (int i), segs ! i) \<in> set (rest_params 0 segs)"
  by (force simp: in_set_enumerate_eq)

text \<open>
  For a path of non-empty segments followed by a query of name=value pairs with distinct
  names, splitURIParameters stores segment i under the decimal number i and every value of the
  query under its name.
\<close>

theorem splitURIParameters_parses:
  assumes "list_all segment_ok segs" "list_all query_ok qs" "distinct (map fst qs)"
    and "\<forall>i<length segs. itostr (int i) \<notin> fst ` set qs" "i < length segs" "(n, v) \<in> set qs"
  shows "\<exists>c. splitURIParameters (uri_text segs qs) [] = Inr (True, c) \<and>
    nv_get_default c (itostr (int i)) d = segs ! i \<and> nv_get_default c n d = v"
proof -
  define c where "c = nv.puts qs (nv.puts (rest_params 0 segs) [])"
  have i: "nv_get_default c (itostr (int i)) d = segs ! i"
    using assms(4,5) nv.get_puts [OF distinct_rest_params nth_rest_params [OF assms(5)]]
    by (simp add: c_def nv.get_puts_other)
  moreover have "nv_get_default c n d = v" using nv.get_puts [OF assms(3,6)] by (simp add: c_def)
  moreover have "nv_size c > 0"
  proof (rule ccontr)
    assume "\<not> nv_size c > 0"
    then have "c = []" by (simp add: nv_size_def)
    then have "\<And>d. nv_get_default c n d = d" by (simp add: nv_get_default_def)
    moreover have "nv_get_default c n d' = v" for d' using nv.get_puts [OF assms(3,6)] by (simp add: c_def)
    ultimately have "[] = v" "''x'' = v" by metis+
    then show False by simp
  qed
  ultimately show ?thesis using splitURIParameters_puts [OF assms(1,2)] by (auto simp: c_def [symmetric] Let_def)
qed

theorem splitURIParameters_parses_witness:
  "\<exists>c. splitURIParameters ''/user/7?k=v&x=yz'' [] = Inr (True, c) \<and>
    nv_get_default c ''1'' [] = ''7'' \<and> nv_get_default c ''x'' [] = ''yz''"
proof -
  have segs: "list_all segment_ok [''user'', ''7'']" by code_simp
  have qs: "list_all query_ok [(''k'', ''v''), (''x'', ''yz'')]" "distinct (map fst [(''k'', ''v''), (''x'', ''yz'')])"
    by code_simp+
  have digits: "itostr 0 = ''0''" "itostr 1 = ''1''" by code_simp+
  have fresh: "\<forall>i<length [''user'', ''7'']. itostr (int i) \<notin> fst ` set [(''k'', ''v''), (''x'', ''yz'')]"
    by (auto simp: less_Suc_eq digits)
  have at: "Suc 0 < length [''user'', ''7'']" "(''x'', ''yz'') \<in> set [(''k'', ''v''), (''x'', ''yz'')]"
    "[''user'', ''7''] ! Suc 0 = ''7''"
    by simp_all
  have uri: "uri_text [''user'', ''7''] [(''k'', ''v''), (''x'', ''yz'')] = ''/user/7?k=v&x=yz''" "itostr (int (Suc 0)) = ''1''"
    by code_simp+
  show ?thesis by (rule splitURIParameters_parses [OF segs qs fresh at(1,2), of "[]", unfolded uri at(3)])
qed

text \<open>A name without a value moves the index past the end before it is read again.\<close>

lemma splitURIParameters_name_only:
  assumes "list_all segment_ok segs" "n \<noteq> []" "CHR ''='' \<notin> set n"
  shows "splitURIParameters (rest_path segs @ CHR ''?'' # n) [] = Inl Undefined_behaviour"
proof -
  have "uri_rest (rest_path segs @ CHR ''?'' # n) [] = (nv.puts (rest_params 0 segs) [], CHR ''?'' # n)"
    using assms(1) by (intro uri_rest_path) (auto simp: nv_has_def nv_size_def)
  then show ?thesis using assms(2,3) by (simp add: splitURIParameters_def uri_query.simps [of n] scan_to del: dropWhile_eq_Nil_conv)
qed

end
