(* ===== verification/Random_Gen.thy ===== *)
theory Random_Gen
  imports Prelude
begin

text \<open>
  The pseudo random generator of \<open>base/src/random.cpp\<close>, which masks the frames of WebSocket clients. The state
  array is a list, the two pointers into it are indices. The clock and \<open>/dev/urandom\<close> are not modelled: a seed is an
  argument.
\<close>

subsection \<open>The generator\<close>

record Random =
  rnd_head :: u32
  rnd_state :: "u32 list"
  rnd_fptr :: nat
  rnd_rptr :: nat
  rnd_endPtr :: nat
  rnd_type :: nat
  rnd_deg :: nat
  rnd_sep :: nat

text \<open>\<open>goodRand\<close> computes on \<open>int32_t\<close>: division and remainder truncate.\<close>

definition goodRand :: "u32 \<Rightarrow> u32" where
  "goodRand x0 =
     (let x = (if x0 = 0 then 123459876 else sint x0);
          hi = x sdiv 127773;
          lo = x smod 127773;
          x' = word_of_int (16807 * lo - 2836 * hi) :: u32
      in if x' <s 0 then x' + 0x7FFFFFFF else x')"

definition rng_next :: "Random \<Rightarrow> u32 \<times> Random" where
  "rng_next g =
     (if rnd_type g = 0
      then (let i = goodRand (rnd_state g ! 0) AND 0x7FFFFFFF in (i, g\<lparr>rnd_state := (rnd_state g)[0 := i]\<rparr>))
      else (let f = rnd_fptr g; r = rnd_rptr g;
                state = (rnd_state g)[f := rnd_state g ! f + rnd_state g ! r];
                i = drop_bit 1 (state ! f) AND 0x7FFFFFFF
            in if f + 1 \<ge> rnd_endPtr g then (i, g\<lparr>rnd_state := state, rnd_fptr := 0, rnd_rptr := r + 1\<rparr>)
               else if r + 1 \<ge> rnd_endPtr g then (i, g\<lparr>rnd_state := state, rnd_fptr := f + 1, rnd_rptr := 0\<rparr>)
               else (i, g\<lparr>rnd_state := state, rnd_fptr := f + 1, rnd_rptr := r + 1\<rparr>)))"

text \<open>Dividing by zero is undefined.\<close>

definition rng_next_below :: "u32 \<Rightarrow> Random \<Rightarrow> (u32 \<times> Random) res" where
  "rng_next_below n g = (case rng_next g of (i, g') \<Rightarrow> if n = 0 then Inl Undefined_behaviour else Inr (i mod n, g'))"

definition nextChar :: "Random \<Rightarrow> byte \<times> Random" where
  "nextChar g = (case rng_next g of (i, g') \<Rightarrow> (ucast (drop_bit 3 i AND 0xFF), g'))"

definition nextBool :: "Random \<Rightarrow> bool \<times> Random" where
  "nextBool g = (case rng_next g of (i, g') \<Rightarrow> (i AND 0x1000 \<noteq> 0, g'))"

definition rng_discard :: "Random \<Rightarrow> Random" where
  "rng_discard g = snd (rng_next g)"

definition rng_fill :: "nat \<Rightarrow> u32 list \<Rightarrow> u32 list" where
  "rng_fill deg state = foldl (\<lambda>s i. s[i := goodRand (s ! (i - 1))]) state [1..<deg]"

definition NSHUFF :: nat where "NSHUFF = 50"
definition MAX_TYPES :: nat where "MAX_TYPES = 5"

definition rng_seed :: "u32 \<Rightarrow> Random \<Rightarrow> Random" where
  "rng_seed x g =
     (let state = (rnd_state g)[0 := x] in
      if rnd_type g = 0 then (rng_discard ^^ NSHUFF) (g\<lparr>rnd_state := state\<rparr>)
      else (rng_discard ^^ (10 * rnd_deg g))
             (g\<lparr>rnd_state := rng_fill (rnd_deg g) state, rnd_fptr := rnd_sep g, rnd_rptr := 0\<rparr>))"

text \<open>The type, degree and separation for a buffer of \<open>n\<close> bytes.\<close>

definition rng_kind :: "nat \<Rightarrow> nat \<times> nat \<times> nat" where
  "rng_kind n = (if n < 32 then (0, 0, 0) else if n < 64 then (1, 7, 3) else if n < 128 then (2, 15, 1)
                 else if n < 256 then (3, 31, 3) else (4, 63, 1))"

text \<open>\<open>initState\<close> for a buffer of \<open>n\<close> bytes: \<open>argState\<close> holds its words.\<close>

definition initState :: "u32 \<Rightarrow> u32 list \<Rightarrow> nat \<Rightarrow> Random \<Rightarrow> Random res" where
  "initState s argState n g =
     (if n < 8 then Inl Assertion_failed
      else (let (t, deg, sep) = rng_kind n;
                g1 = rng_seed s (g\<lparr>rnd_state := tl argState, rnd_endPtr := deg, rnd_type := t, rnd_deg := deg, rnd_sep := sep\<rparr>)
            in Inr (g1\<lparr>rnd_head := (if t = 0 then of_nat t else of_nat (MAX_TYPES * rnd_rptr g1 + t))\<rparr>)))"

definition Random_null :: Random where
  "Random_null = \<lparr>rnd_head = 0, rnd_state = [], rnd_fptr = 0, rnd_rptr = 0, rnd_endPtr = 0, rnd_type = 0, rnd_deg = 0, rnd_sep = 0\<rparr>"

text \<open>The constructor: \<open>time\<close> is the clock, \<open>buffer\<close> the uninitialised memory.\<close>

definition Random_new :: "nat \<Rightarrow> u32 \<Rightarrow> u32 list \<Rightarrow> Random res" where
  "Random_new stateSize time buffer =
     (if 8 \<le> stateSize \<and> stateSize \<le> 256 then initState time buffer stateSize Random_null else Inl Assertion_failed)"

subsection \<open>goodRand is Park and Miller's minimal standard\<close>

lemma smod_sdiv: "(a :: int) = (a sdiv b) * b + a smod b"
  using sdiv_mult_smod_eq [of a b] by simp

lemma schrage_bounds:
  assumes "-(2 ^ 31) \<le> x" "x < (2 :: int) ^ 31"
  defines "z \<equiv> 16807 * (x smod 127773) - 2836 * (x sdiv 127773)"
  shows "-2147483647 \<le> z" "z < 2147483647" "z mod 2147483647 = 16807 * x mod 2147483647"
proof -
  define q where "q = \<bar>x\<bar> div 127773"
  define r where "r = \<bar>x\<bar> mod 127773"
  have x: "\<bar>x\<bar> = 127773 * q + r" by (simp add: q_def r_def)
  have qr: "0 \<le> q" "0 \<le> r" "r < 127773" by (simp_all add: q_def r_def)
  have q: "q \<le> 16807"
  proof (rule ccontr)
    assume "\<not> q \<le> 16807"
    then have "16808 \<le> q" by simp
    then show False using x qr assms(1,2) by simp
  qed
  have z: "z = (if x < 0 then - (16807 * r - 2836 * q) else 16807 * r - 2836 * q)"
    by (auto simp: z_def signed_modulo_int_def signed_divide_int_def q_def r_def sgn_if minus_mod_eq_mult_div)
  show "-2147483647 \<le> z" "z < 2147483647" using z qr q by (auto split: if_splits)
  have "16807 * \<bar>x\<bar> = (16807 * r - 2836 * q) + 2147483647 * q" using x by simp
  then have "16807 * x = z + 2147483647 * (if x < 0 then - q else q)"
    using z by (auto split: if_splits)
  then show "z mod 2147483647 = 16807 * x mod 2147483647" by simp
qed

text \<open>
  Schrage's decomposition in goodRand never overflows an int32_t and computes 16807 x
  modulo 2^31 - 1 for every seed, negative ones included, with 123459876 in place of 0.
\<close>

theorem goodRand_minimal_standard:
  "uint (goodRand x) = (16807 * (if x = 0 then 123459876 else sint x)) mod (2 ^ 31 - 1)"
proof -
  define y where "y = (if x = 0 then 123459876 else sint x)"
  define z where "z = 16807 * (y smod 127773) - 2836 * (y sdiv 127773)"
  have "-(2 ^ 31) \<le> y" "y < 2 ^ 31"
    using sint_greater_eq [of x] sint_less [of x] by (simp_all add: y_def)
  note b = schrage_bounds [OF this, folded z_def]
  have g: "goodRand x = (if (word_of_int z :: u32) <s 0 then word_of_int z + 0x7FFFFFFF else word_of_int z)"
    unfolding goodRand_def Let_def y_def [symmetric] z_def [symmetric] by (rule refl)
  have s: "sint (word_of_int z :: u32) = z" using b(1,2) by (simp add: sint_sbintrunc' signed_take_bit_int_eq_self)
  have neg: "(word_of_int z :: u32) <s 0 \<longleftrightarrow> z < 0" by (simp add: word_sless_alt s)
  have "uint (goodRand x) = (if z < 0 then z + 2147483647 else z)"
  proof (cases "z < 0")
    case True
    then have *: "goodRand x = word_of_int (z + 2147483647)"
      by (simp add: g neg)
    show ?thesis unfolding * using True b(1) by (simp only: uint_word_of_int) simp
  next
    case False
    then have "goodRand x = word_of_int z" by (simp add: g neg)
    then show ?thesis using False b(2) by (simp add: uint_word_of_int)
  qed
  also have "\<dots> = z mod 2147483647"
    using b(1,2) by (auto simp: mod_pos_pos_trivial intro!: sym [OF trans [OF mod_add_self2 [symmetric] mod_pos_pos_trivial]])
  finally show ?thesis using b(3) by (simp add: y_def)
qed

lemma goodRand_minimal_standard_example: "goodRand 1 = 16807" "goodRand 16807 = 282475249"
  by code_simp+

subsection \<open>The ring of words is an additive lagged Fibonacci generator\<close>

text \<open>
  The pointers stay \<open>rnd_sep\<close> apart in the ring, and both inside it: that is what the comment on \<open>next\<close> relies on
  when the rear pointer is not tested after the front one has wrapped.
\<close>

definition rng_inv :: "Random \<Rightarrow> bool" where
  "rng_inv g = (if rnd_type g = 0 then rnd_state g \<noteq> []
     else rnd_endPtr g = rnd_deg g \<and> 0 < rnd_sep g \<and> rnd_sep g < rnd_deg g \<and> rnd_deg g \<le> length (rnd_state g) \<and>
       rnd_rptr g < rnd_deg g \<and> rnd_fptr g < rnd_deg g \<and> rnd_fptr g = (rnd_rptr g + rnd_sep g) mod rnd_deg g)"

text \<open>The last \<open>rnd_deg\<close> values of the recurrence, oldest first.\<close>

definition rng_window :: "Random \<Rightarrow> u32 list" where
  "rng_window g = rotate (rnd_fptr g) (take (rnd_deg g) (rnd_state g))"

definition fib_next :: "nat \<Rightarrow> u32 list \<Rightarrow> u32" where
  "fib_next sep w = hd w + w ! (length w - sep)"

lemma rng_inv_pos:
  assumes "rng_inv g" "rnd_type g \<noteq> 0"
  shows "rnd_fptr g = (if rnd_rptr g + rnd_sep g < rnd_deg g then rnd_rptr g + rnd_sep g else rnd_rptr g + rnd_sep g - rnd_deg g)"
  using assms by (auto simp: rng_inv_def mod_if)

lemma rng_discard_inv: "rng_inv g \<Longrightarrow> rng_inv (rng_discard g)"
proof (cases "rnd_type g = 0")
  case True
  then show "rng_inv g \<Longrightarrow> ?thesis" by (simp add: rng_inv_def rng_discard_def rng_next_def Let_def)
next
  case False
  assume inv: "rng_inv g"
  note pos = rng_inv_pos [OF inv False]
  show ?thesis using inv False pos
    by (auto simp: rng_inv_def rng_discard_def rng_next_def Let_def mod_if split: if_splits)
qed

interpretation rng: machine "\<lambda>g (_ :: unit). rng_discard g" rng_inv
  by unfold_locales (rule rng_discard_inv)

lemma rng_window_nth:
  assumes "rng_inv g" "rnd_type g \<noteq> 0" "i < rnd_deg g"
  shows "rng_window g ! i = rnd_state g ! ((rnd_fptr g + i) mod rnd_deg g)"
  using assms by (simp add: rng_window_def nth_rotate rng_inv_def min_absorb2)

lemma length_rng_window: "rng_inv g \<Longrightarrow> rnd_type g \<noteq> 0 \<Longrightarrow> length (rng_window g) = rnd_deg g"
  by (simp add: rng_window_def rng_inv_def)

lemma rng_next_window:
  assumes "rng_inv g" "rnd_type g \<noteq> 0"
  shows "fst (rng_next g) = drop_bit 1 (fib_next (rnd_sep g) (rng_window g)) \<and>
    rng_window (snd (rng_next g)) = tl (rng_window g) @ [fib_next (rnd_sep g) (rng_window g)] \<and>
    rng_inv (snd (rng_next g))"
proof -
  let ?g' = "snd (rng_next g)" and ?d = "rnd_deg g" and ?f = "rnd_fptr g"
  have inv': "rng_inv ?g'" using rng_discard_inv [OF assms(1)] by (simp add: rng_discard_def)
  note pos = rng_inv_pos [OF assms]
  have d: "0 < ?d" "rnd_sep g < ?d" "0 < rnd_sep g" "?f < ?d" "?d \<le> length (rnd_state g)" "rnd_endPtr g = ?d" "rnd_rptr g < ?d"
    using assms by (auto simp: rng_inv_def)
  have r: "(?f + (?d - rnd_sep g)) mod ?d = rnd_rptr g" using pos d by (auto simp: mod_if)
  have hd: "hd (rng_window g) = rnd_state g ! ?f"
    using rng_window_nth [OF assms d(1)] length_rng_window [OF assms] d by (simp add: hd_conv_nth flip: length_greater_0_conv)
  have fib: "fib_next (rnd_sep g) (rng_window g) = rnd_state g ! ?f + rnd_state g ! rnd_rptr g"
    using rng_window_nth [OF assms, of "?d - rnd_sep g"] r d by (simp add: fib_next_def hd length_rng_window [OF assms])
  have state: "rnd_state ?g' = (rnd_state g)[?f := rnd_state g ! ?f + rnd_state g ! rnd_rptr g]"
    "rnd_fptr ?g' = (?f + 1) mod ?d" "rnd_deg ?g' = ?d" "rnd_type ?g' = rnd_type g"
    using assms(2) d by (auto simp: rng_next_def Let_def mod_if)
  have "drop_bit 1 (v :: u32) AND 0x7FFFFFFF = drop_bit 1 v" for v
  proof -
    have m: "(0x7FFFFFFF :: u32) = mask 31" by (simp add: mask_numeral)
    show ?thesis unfolding m by (rule bit_word_eqI) (auto simp: bit_simps dest: bit_imp_le_length)
  qed
  then have out: "fst (rng_next g) = drop_bit 1 (fib_next (rnd_sep g) (rng_window g))"
    using assms(2) d by (auto simp: rng_next_def Let_def fib)
  have win: "rng_window ?g' = tl (rng_window g) @ [fib_next (rnd_sep g) (rng_window g)]"
  proof (rule nth_equalityI)
    have t': "rnd_type ?g' \<noteq> 0" using assms(2) by (simp add: state)
    show "length (rng_window ?g') = length (tl (rng_window g) @ [fib_next (rnd_sep g) (rng_window g)])"
      using length_rng_window [OF inv' t'] length_rng_window [OF assms] d by (simp add: state)
    fix i assume "i < length (rng_window ?g')"
    then have i: "i < ?d" using length_rng_window [OF inv' t'] by (simp add: state)
    have "rng_window ?g' ! i = rnd_state ?g' ! (((?f + 1) mod ?d + i) mod ?d)"
      using rng_window_nth [OF inv' t'] i by (simp add: state)
    also have "((?f + 1) mod ?d + i) mod ?d = (?f + Suc i) mod ?d" by (simp add: mod_add_left_eq)
    finally have w: "rng_window ?g' ! i = rnd_state ?g' ! ((?f + Suc i) mod ?d)" .
    show "rng_window ?g' ! i = (tl (rng_window g) @ [fib_next (rnd_sep g) (rng_window g)]) ! i"
    proof (cases "Suc i < ?d")
      case True
      then have "(?f + Suc i) mod ?d \<noteq> ?f" "i < ?d - 1" using d by (auto simp: mod_if)
      then show ?thesis using True w rng_window_nth [OF assms True]
        by (simp add: state nth_append nth_tl length_rng_window [OF assms])
    next
      case False
      then have "Suc i = ?d" using i by simp
      then have "(?f + Suc i) mod ?d = ?f" "\<not> i < ?d - 1" using d by simp_all
      then show ?thesis using w d \<open>Suc i = ?d\<close> by (simp add: state nth_append length_rng_window [OF assms] fib)
    qed
  qed
  show ?thesis using out win inv' by blast
qed

text \<open>The recurrence the comment in the source describes: a trinomial over the last \<open>deg\<close> values.\<close>

fun fib_seq :: "nat \<Rightarrow> nat \<Rightarrow> u32 list \<Rightarrow> nat \<Rightarrow> u32" where
  "fib_seq deg sep w n =
     (if n < deg \<or> deg = 0 \<or> sep = 0 then w ! n else fib_seq deg sep w (n - deg) + fib_seq deg sep w (n - sep))"

declare fib_seq.simps [simp del]

lemma rng_window_draws:
  assumes "rng_inv g" "rnd_type g \<noteq> 0"
  defines "h \<equiv> \<lambda>k. (rng_discard ^^ k) g"
  shows "rng_inv (h k) \<and> rnd_type (h k) = rnd_type g \<and> rnd_sep (h k) = rnd_sep g \<and> rnd_deg (h k) = rnd_deg g \<and>
    rng_window (h k) = map (fib_seq (rnd_deg g) (rnd_sep g) (rng_window g)) [k..<k + rnd_deg g]"
proof (induction k)
  case 0
  have "map (fib_seq (rnd_deg g) (rnd_sep g) (rng_window g)) [0..<rnd_deg g] = rng_window g"
    using length_rng_window [OF assms(1,2)] by (intro nth_equalityI) (simp_all add: fib_seq.simps)
  then show ?case using assms by simp
next
  case (Suc k)
  let ?z = "fib_seq (rnd_deg g) (rnd_sep g) (rng_window g)"
  have d: "0 < rnd_deg g" "rnd_sep g < rnd_deg g" "0 < rnd_sep g" using assms(1,2) by (auto simp: rng_inv_def)
  have hk: "rng_inv (h k)" "rnd_type (h k) \<noteq> 0" using Suc.IH assms(2) by simp_all
  have w: "rng_window (h k) = map ?z [k..<k + rnd_deg g]" using Suc.IH by blast
  have kept: "rnd_type (rng_discard x) = rnd_type x" "rnd_sep (rng_discard x) = rnd_sep x" "rnd_deg (rng_discard x) = rnd_deg x" for x
    by (auto simp: rng_discard_def rng_next_def Let_def)
  have "fib_next (rnd_sep g) (rng_window (h k)) = ?z k + ?z (k + rnd_deg g - rnd_sep g)"
    using d by (simp add: fib_next_def w hd_map hd_upt)
  also have "\<dots> = ?z (k + rnd_deg g)" using d by (simp add: fib_seq.simps [of _ _ _ "k + rnd_deg g"])
  finally have "rng_window (h (Suc k)) = tl (map ?z [k..<k + rnd_deg g]) @ [?z (k + rnd_deg g)]"
    using rng_next_window [OF hk] Suc.IH by (simp add: h_def rng_discard_def w [unfolded h_def])
  also have "\<dots> = map ?z [Suc k..<Suc k + rnd_deg g]"
    using d by (simp add: upt_conv_Cons)
  finally show ?case using Suc.IH rng_discard_inv [OF hk(1)] by (simp add: h_def kept)
qed

text \<open>
  The k-th number drawn from a generator with state is the upper 31 bits of the additive
  lagged Fibonacci sequence z(n) = z(n - deg) + z(n - sep) modulo 2^32 over the words the ring
  held: the two moving pointers never lose step.
\<close>

theorem rng_draws_lagged_fibonacci:
  assumes "rng_inv g" "rnd_type g \<noteq> 0"
  shows "fst (rng_next ((rng_discard ^^ k) g)) =
    drop_bit 1 (fib_seq (rnd_deg g) (rnd_sep g) (rng_window g) (rnd_deg g + k))"
proof -
  let ?h = "(rng_discard ^^ k) g" and ?z = "fib_seq (rnd_deg g) (rnd_sep g) (rng_window g)"
  note w = rng_window_draws [OF assms, of k]
  have d: "0 < rnd_deg g" "rnd_sep g < rnd_deg g" "0 < rnd_sep g" using assms by (auto simp: rng_inv_def)
  have "fib_next (rnd_sep g) (rng_window ?h) = ?z k + ?z (k + rnd_deg g - rnd_sep g)"
    using d w by (simp add: fib_next_def hd_map hd_upt)
  also have "\<dots> = ?z (k + rnd_deg g)" using d by (simp add: fib_seq.simps [of _ _ _ "k + rnd_deg g"])
  also have "k + rnd_deg g = rnd_deg g + k" by simp
  finally show ?thesis using rng_next_window [of ?h] w assms(2) by simp
qed

subsection \<open>Seeding\<close>

lemma length_rng_fill [simp]: "length (rng_fill deg s) = length s"
proof -
  have "length (foldl (\<lambda>s i. s[i := goodRand (s ! (i - 1))]) s is) = length s" for "is"
    by (induction "is" arbitrary: s) simp_all
  then show ?thesis by (simp add: rng_fill_def)
qed

lemma rng_fill_Suc: "1 \<le> n \<Longrightarrow> rng_fill (Suc n) s = (rng_fill n s)[n := goodRand (rng_fill n s ! (n - 1))]"
  by (simp add: rng_fill_def)

lemma rng_fill_nth: "i < n \<Longrightarrow> n \<le> length s \<Longrightarrow> rng_fill n s ! i = (goodRand ^^ i) (s ! 0)"
proof (induction n arbitrary: i)
  case (Suc n)
  show ?case
  proof (cases "n = 0")
    case True
    then show ?thesis using Suc.prems by (simp add: rng_fill_def)
  next
    case False
    then have fill: "rng_fill (Suc n) s = (rng_fill n s)[n := goodRand (rng_fill n s ! (n - 1))]"
      by (intro rng_fill_Suc) simp
    show ?thesis
    proof (cases "i = n")
      case True
      have "rng_fill n s ! (n - 1) = (goodRand ^^ (n - 1)) (s ! 0)" using Suc False by simp
      moreover have "(goodRand ^^ n) (s ! 0) = goodRand ((goodRand ^^ (n - 1)) (s ! 0))"
        using False by (cases n) simp_all
      ultimately show ?thesis using True Suc.prems by (simp add: fill)
    qed (use Suc in \<open>simp add: fill\<close>)
  qed
qed simp

lemma take_rng_fill: "n \<le> length s \<Longrightarrow> take n (rng_fill n s) = map (\<lambda>i. (goodRand ^^ i) (s ! 0)) [0..<n]"
  by (rule nth_equalityI) (simp_all add: rng_fill_nth)

text \<open>Two generators that no sequence of draws can tell apart.\<close>

definition rng_same :: "Random \<Rightarrow> Random \<Rightarrow> bool" where
  "rng_same g h = (rng_inv g \<and> rng_inv h \<and> rnd_type g = rnd_type h \<and> rnd_sep g = rnd_sep h \<and>
     (if rnd_type g = 0 then rnd_state g ! 0 = rnd_state h ! 0 else rng_window g = rng_window h))"

lemma rng_same_next:
  assumes "rng_same g h"
  shows "fst (rng_next g) = fst (rng_next h)" "rng_same (rng_discard g) (rng_discard h)"
proof -
  have "fst (rng_next g) = fst (rng_next h) \<and> rng_same (rng_discard g) (rng_discard h)"
  proof (cases "rnd_type g = 0")
    case True
    then show ?thesis using assms rng_discard_inv [of g] rng_discard_inv [of h]
      by (auto simp: rng_same_def rng_next_def rng_discard_def Let_def rng_inv_def)
  next
    case False
    have kept: "rnd_type (snd (rng_next x)) = rnd_type x" "rnd_sep (snd (rng_next x)) = rnd_sep x" for x
      by (auto simp: rng_next_def Let_def)
    show ?thesis
      using assms False rng_next_window [of g] rng_next_window [of h]
      by (auto simp: rng_same_def rng_discard_def kept)
  qed
  then show "fst (rng_next g) = fst (rng_next h)" "rng_same (rng_discard g) (rng_discard h)" by auto
qed

lemma rng_same_discard: "rng_same g h \<Longrightarrow> rng_same ((rng_discard ^^ k) g) ((rng_discard ^^ k) h)"
  by (induction k) (auto intro: rng_same_next)

lemma rng_discards_keep:
  "rng_inv g \<Longrightarrow> rng_inv ((rng_discard ^^ k) g)"
  "rnd_type ((rng_discard ^^ k) g) = rnd_type g" "rnd_deg ((rng_discard ^^ k) g) = rnd_deg g"
  "rnd_sep ((rng_discard ^^ k) g) = rnd_sep g"
proof -
  have kept: "rnd_type (rng_discard x) = rnd_type x" "rnd_sep (rng_discard x) = rnd_sep x" "rnd_deg (rng_discard x) = rnd_deg x" for x
    by (auto simp: rng_discard_def rng_next_def Let_def)
  show "rnd_type ((rng_discard ^^ k) g) = rnd_type g" "rnd_deg ((rng_discard ^^ k) g) = rnd_deg g"
    "rnd_sep ((rng_discard ^^ k) g) = rnd_sep g" by (induction k) (simp_all add: kept)
  show "rng_inv g \<Longrightarrow> rng_inv ((rng_discard ^^ k) g)" by (induction k) (simp_all add: rng_discard_inv)
qed

lemma rng_kind_cases:
  assumes "8 \<le> n" "length arg = n div 4" "rng_kind n = (t, deg, sep)"
  shows "tl arg \<noteq> [] \<and> (t = 0 \<and> n < 32) \<or> tl arg \<noteq> [] \<and> (t \<noteq> 0 \<and> 0 < sep \<and> sep < deg \<and> deg < length arg)"
proof -
  have "2 \<le> length arg" using assms(1,2) by simp
  then have "arg \<noteq> [] \<and> tl arg \<noteq> []" by (cases arg; cases "tl arg") auto
  then show ?thesis using assms by (auto simp: rng_kind_def split: if_splits)
qed

definition rng_planted :: "u32 \<Rightarrow> Random \<Rightarrow> Random" where
  "rng_planted x g =
     (if rnd_type g = 0 then g\<lparr>rnd_state := (rnd_state g)[0 := x]\<rparr>
      else g\<lparr>rnd_state := rng_fill (rnd_deg g) ((rnd_state g)[0 := x]), rnd_fptr := rnd_sep g, rnd_rptr := 0\<rparr>)"

lemma rng_seed_planted:
  "rng_seed x g = (rng_discard ^^ (if rnd_type g = 0 then NSHUFF else 10 * rnd_deg g)) (rng_planted x g)"
  by (simp add: rng_seed_def rng_planted_def Let_def)

lemma rng_planted_inv:
  assumes "rnd_type g = 0 \<and> rnd_state g \<noteq> [] \<or> rnd_type g \<noteq> 0 \<and> 0 < rnd_sep g \<and> rnd_sep g < rnd_deg g \<and>
      rnd_deg g \<le> length (rnd_state g) \<and> rnd_endPtr g = rnd_deg g"
  shows "rng_inv (rng_planted x g)"
  using assms by (auto simp: rng_inv_def rng_planted_def)

lemma rng_planted_kept [simp]: "rnd_type (rng_planted x g) = rnd_type g" "rnd_deg (rng_planted x g) = rnd_deg g"
  "rnd_sep (rng_planted x g) = rnd_sep g"
  by (simp_all add: rng_planted_def)

lemma rng_seed_ready:
  assumes "rnd_type g = 0 \<and> rnd_state g \<noteq> [] \<or> rnd_type g \<noteq> 0 \<and> 0 < rnd_sep g \<and> rnd_sep g < rnd_deg g \<and>
      rnd_deg g \<le> length (rnd_state g) \<and> rnd_endPtr g = rnd_deg g"
  shows "rng_inv (rng_seed x g) \<and> rnd_type (rng_seed x g) = rnd_type g \<and> rnd_deg (rng_seed x g) = rnd_deg g \<and>
    rnd_sep (rng_seed x g) = rnd_sep g"
  using rng_discards_keep(1) [OF rng_planted_inv [OF assms]] by (simp add: rng_seed_planted rng_discards_keep(2-4))

lemma rng_inv_head [simp]: "rng_inv (g\<lparr>rnd_head := h\<rparr>) = rng_inv g"
  by (simp add: rng_inv_def)

lemma initState_ready:
  assumes "8 \<le> n" "length arg = n div 4" "rng_kind n = (t, deg, sep)"
  shows "\<exists>g. initState s arg n g0 = Inr g \<and> rng_inv g \<and> rnd_type g = t \<and> rnd_deg g = deg \<and> rnd_sep g = sep"
proof -
  let ?g = "g0\<lparr>rnd_state := tl arg, rnd_endPtr := deg, rnd_type := t, rnd_deg := deg, rnd_sep := sep\<rparr>"
  have "rng_inv (rng_seed s ?g) \<and> rnd_type (rng_seed s ?g) = t \<and> rnd_deg (rng_seed s ?g) = deg \<and> rnd_sep (rng_seed s ?g) = sep"
    using rng_seed_ready [of ?g s] rng_kind_cases [OF assms] by auto
  then show ?thesis using assms(1,3) by (simp add: initState_def Let_def)
qed

theorem rng_draws_lagged_fibonacci_witness:
  "\<exists>g. initState 1 (replicate 8 0) 32 Random_null = Inr g \<and>
     fst (rng_next (rng_discard g)) = drop_bit 1 (fib_seq 7 3 (rng_window g) 8)"
proof -
  have "rng_kind 32 = (1, 7, 3)" by (simp add: rng_kind_def)
  from initState_ready [OF _ _ this, of "replicate 8 0" 1 Random_null]
  obtain g where g: "initState 1 (replicate 8 0) 32 Random_null = Inr g" "rng_inv g" "rnd_type g = 1" "rnd_deg g = 7"
    "rnd_sep g = 3"
    by auto
  then have "rnd_type g \<noteq> 0" by simp
  from rng_draws_lagged_fibonacci [OF g(2) this, of 1] show ?thesis by (simp add: g)
qed

lemma rng_next_31_bits: "fst (rng_next g) < 0x80000000"
proof -
  have "(v :: u32) AND 0x7FFFFFFF < 0x80000000" for v
  proof -
    have "v AND 0x7FFFFFFF \<le> 0x7FFFFFFF" by (rule word_and_le1)
    also have "(0x7FFFFFFF :: u32) < 0x80000000" by simp
    finally show ?thesis .
  qed
  then show ?thesis by (auto simp: rng_next_def Let_def)
qed

lemma rng_seed_same:
  assumes "rnd_type g = rnd_type h" "rnd_sep g = rnd_sep h" "rnd_deg g = rnd_deg h"
    and "rng_inv (rng_planted x g)" "rng_inv (rng_planted x h)" "rnd_state g \<noteq> []" "rnd_state h \<noteq> []"
  shows "rng_same (rng_seed x g) (rng_seed x h)"
proof -
  have at0: "(s :: u32 list)[0 := x] ! 0 = x" if "s \<noteq> []" for s using that by simp
  have win: "rng_window (rng_planted x g) = rng_window (rng_planted x h)" if t: "rnd_type g \<noteq> 0"
  proof -
    have "rnd_deg g \<le> length (rnd_state g)" "rnd_deg g \<le> length (rnd_state h)"
      using assms(1,3,4,5) t by (simp_all add: rng_inv_def rng_planted_def)
    then show ?thesis using t assms(1,2,3,6,7) by (simp add: rng_window_def rng_planted_def take_rng_fill at0)
  qed
  have "rng_same (rng_planted x g) (rng_planted x h)"
    using assms win by (auto simp: rng_same_def) (auto simp: rng_planted_def)
  then show ?thesis using rng_same_discard assms(1,3) by (simp add: rng_seed_planted)
qed

lemma rng_same_head [simp]: "rng_same (g\<lparr>rnd_head := a\<rparr>) (h\<lparr>rnd_head := b\<rparr>) = rng_same g h"
  by (simp add: rng_same_def rng_inv_def rng_window_def)

lemma initState_same:
  assumes "8 \<le> n" "length arg = n div 4" "length arg' = n div 4"
    and "initState s arg n g0 = Inr g" "initState s arg' n g0 = Inr h"
  shows "rng_same g h"
proof -
  obtain t deg sep where k: "rng_kind n = (t, deg, sep)" by (metis prod_cases3)
  let ?g = "\<lambda>a. g0\<lparr>rnd_state := tl a, rnd_endPtr := deg, rnd_type := t, rnd_deg := deg, rnd_sep := sep\<rparr>"
  have ne: "tl arg \<noteq> []" "tl arg' \<noteq> []"
    using rng_kind_cases [OF assms(1,2) k] rng_kind_cases [OF assms(1,3) k] by blast+
  have "rng_inv (rng_planted s (?g arg))" "rng_inv (rng_planted s (?g arg'))"
    using rng_kind_cases [OF assms(1,2) k] rng_kind_cases [OF assms(1,3) k] by (auto intro!: rng_planted_inv)
  then have "rng_same (rng_seed s (?g arg)) (rng_seed s (?g arg'))"
    using ne by (intro rng_seed_same) simp_all
  then show ?thesis using assms(1,4,5) k by (auto simp: initState_def Let_def)
qed

text \<open>
  For every state size from 8 to 256 bytes the constructor succeeds with the invariant of
  the ring, no number drawn depends on what the new buffer held, and every number has 31 bits.
\<close>

theorem Random_ignores_uninitialised_memory:
  assumes "8 \<le> n" "n \<le> 256" "length buf = n div 4" "length buf' = n div 4"
  shows "\<exists>g h. Random_new n time buf = Inr g \<and> Random_new n time buf' = Inr h \<and> rng_inv g \<and>
    (\<forall>k. fst (rng_next ((rng_discard ^^ k) g)) = fst (rng_next ((rng_discard ^^ k) h)) \<and>
      fst (rng_next ((rng_discard ^^ k) g)) < 0x80000000)"
proof -
  obtain t deg sep where k: "rng_kind n = (t, deg, sep)" by (metis prod_cases3)
  obtain g where g: "initState time buf n Random_null = Inr g" "rng_inv g"
    using initState_ready [OF assms(1,3) k] by blast
  obtain h where h: "initState time buf' n Random_null = Inr h"
    using initState_ready [OF assms(1,4) k] by blast
  have "rng_same ((rng_discard ^^ k) g) ((rng_discard ^^ k) h)" for k
    using initState_same [OF assms(1,3,4) g(1) h] by (rule rng_same_discard)
  then show ?thesis using g h assms(1,2) rng_same_next(1) rng_next_31_bits by (auto simp: Random_new_def)
qed

theorem Random_ignores_uninitialised_memory_witness:
  "\<exists>g h. Random_new 8 7 [0, 0] = Inr g \<and> Random_new 8 7 [1, 2] = Inr h \<and> fst (rng_next g) = fst (rng_next h)"
  using Random_ignores_uninitialised_memory [of 8 "[0, 0]" "[1, 2]" 7]
  by (auto dest: spec [of _ "0 :: nat"])

end
