(* ===== verification/WebSocket_Framer.thy ===== *)
theory WebSocket_Framer
  imports Http_Message Sha1 Text_Encoders Random_Gen
begin

text \<open>
  The framer of \<open>http/src/websocket.cpp\<close>: the frames of RFC 6455 as it writes and reads them, and the opening
  handshake on both sides. \<open>big\<close> is the byte order of the host. What uninitialised memory holds and what
  \<open>/dev/urandom\<close> delivers are arguments.
\<close>

subsection \<open>The framer\<close>

datatype Mode = ServerSide | ClientSide

definition SendFlags_Text :: nat where "SendFlags_Text = 0x80 + 0x01"
definition SendFlags_Binary :: nat where "SendFlags_Binary = 0x80 + 0x02"
definition FRAME_FLAG_MASK :: byte where "FRAME_FLAG_MASK = 0x80"
definition MAX_HEADER_LENGTH :: nat where "MAX_HEADER_LENGTH = 14"

record WebSocketFramer =
  wf_mode :: Mode
  wf_frameFlags :: byte
  wf_headerState :: nat
  wf_maskPayload :: bool
  wf_rnd :: Random
  wf_key :: string

definition framer_init :: "Mode \<Rightarrow> Random \<Rightarrow> WebSocketFramer" where
  "framer_init mode rnd =
     \<lparr>wf_mode = mode, wf_frameFlags = 0, wf_headerState = 0, wf_maskPayload = (mode = ClientSide), wf_rnd = rnd, wf_key = []\<rparr>"

definition handshakeComplete :: "WebSocketFramer \<Rightarrow> bool" where
  "handshakeComplete f = (wf_headerState f = 2)"

subsection \<open>writeFrame\<close>

text \<open>
  The masked payload, byte by byte: \<open>for (unsigned i = 0; i < len; i++)\<close>. The counter has 32 bits, so for 4 GiB and
  more it starts again at 0 and the loop goes on until the writer has no room left. The last test is for a position
  that wraps around, in a memory larger than any there is.
\<close>

lemma putU8_moves:
  assumes "putU8 v w = Inr w'" "w_position w < w_position w'"
  shows "length (w_bytes w') - w_position w' < length (w_bytes w) - w_position w"
  using assms by (auto simp: putU8_def writer_put_def memcpy_def field8_def split: if_splits)

function put_masked :: "byte list \<Rightarrow> u32 \<Rightarrow> byte list \<Rightarrow> BitWriter \<Rightarrow> BitWriter res" where
  "put_masked m i data w =
     (if unat i < length data
      then (case putU8 (data ! unat i XOR m ! (unat i mod 4)) w of
          Inl e \<Rightarrow> Inl e
        | Inr w' \<Rightarrow> if w_position w < w_position w' then put_masked m (i + 1) data w' else Inl Undefined_behaviour)
      else Inr w)"
  by pat_completeness auto
termination by (relation "measure (\<lambda>(m, i, data, w). length (w_bytes w) - w_position w)") (auto intro: putU8_moves)

declare put_masked.simps [simp del]

definition putLength :: "bool \<Rightarrow> byte \<Rightarrow> nat \<Rightarrow> BitWriter \<Rightarrow> BitWriter res" where
  "putLength big lenByte len w =
     (if len < 126 then putU8 (lenByte OR of_nat len) w
      else if len < 65536 then res_bind (putU8 (lenByte OR 126) w) (putU16 big (of_nat len))
      else res_bind (putU8 (lenByte OR 127) w) (putU64 big (of_nat len)))"

definition writeFrame ::
    "bool \<Rightarrow> byte list \<Rightarrow> nat \<Rightarrow> BitWriter \<Rightarrow> WebSocketFramer \<Rightarrow> (nat \<times> BitWriter \<times> WebSocketFramer) res" where
  "writeFrame big data flags frame f =
     (if \<not> (flags = SendFlags_Text \<or> flags = SendFlags_Binary) \<or> w_position frame \<noteq> 0 then Inl Assertion_failed
      else
        res_bind (putU8 (of_nat flags) frame) (\<lambda>w1.
        res_bind (putLength big (if wf_maskPayload f then FRAME_FLAG_MASK else 0) (length data) w1) (\<lambda>w2.
        if wf_maskPayload f
        then (case rng_next (wf_rnd f) of (mk, rnd) \<Rightarrow>
                res_bind (writer_put (mem32 big mk) w2) (\<lambda>w3.
                res_bind (put_masked (mem32 big mk) 0 data w3) (\<lambda>w4.
                  Inr (w_position w4, w4, f\<lparr>wf_rnd := rnd\<rparr>))))
        else res_bind (writer_put data w2) (\<lambda>w3. Inr (w_position w3, w3, f)))))"

subsection \<open>readFrame\<close>

text \<open>
  In place in the memory behind the reader: \<open>len\<close> bytes from \<open>start\<close> on are combined with the mask. Touching a byte
  at or behind the end is undefined.
\<close>

definition unmask_in_place :: "nat \<Rightarrow> nat \<Rightarrow> byte list \<Rightarrow> byte list \<Rightarrow> byte list res" where
  "unmask_in_place start len m bytes =
     (if 0 < len \<and> start + len > length bytes then Inl Undefined_behaviour
      else Inr (take start bytes @ map (\<lambda>i. bytes ! (start + i) XOR m ! (i mod 4)) [0..<len] @ drop (start + len) bytes))"

text \<open>
  The length field after the first two bytes: the header reader, the payload length (or None when it exceeds the
  limit: \<open>readFrame\<close> then returns 0) and the offset of what follows.
\<close>

definition readLength :: "bool \<Rightarrow> nat \<Rightarrow> byte \<Rightarrow> BitReader \<Rightarrow> (nat option \<times> nat \<times> BitReader) res" where
  "readLength big limit lengthByte hr =
     (if lengthByte AND 0x7f = 127
      then res_bind (getU64 big hr) (\<lambda>(l, hr'). Inr (if unat l > limit then None else Some (unat l), 10, hr'))
      else if lengthByte AND 0x7f = 126
      then res_bind (getU16 big hr) (\<lambda>(l, hr'). Inr (if unat l > limit then None else Some (unat l), 4, hr'))
      else (let l = lengthByte AND 0x7f in Inr (if unat l > limit then None else Some (unat l), 2, hr)))"

text \<open>
  \<open>readFrame\<close> yields the payload length, the index the pointer \<open>payload\<close> was set to, the reader and the framer.
  The header array has 14 bytes of which only those the first lines fill are looked at; the rest is 0 here.
\<close>

definition readFrame ::
    "bool \<Rightarrow> BitReader \<Rightarrow> WebSocketFramer \<Rightarrow> (nat \<times> nat option \<times> BitReader \<times> WebSocketFramer) res" where
  "readFrame big frame f =
     (if \<not> handshakeComplete f then Inl Assertion_failed
      else (let limit = r_limit frame; offset = r_position frame in
        res_bind (reader_get 2 frame) (\<lambda>(h, frame1).
        let maskOffset = (if (h ! 1) AND FRAME_FLAG_MASK \<noteq> 0 then 4 else 0); l7 = unat ((h ! 1) AND 0x7f) in
        if l7 > reader_available frame1 then Inr (0, None, frame1, f)
        else
        res_bind (reader_get (if l7 + 2 + maskOffset < MAX_HEADER_LENGTH then l7 + maskOffset else MAX_HEADER_LENGTH - 2) frame1)
          (\<lambda>(h2, frame2).
        res_bind (reader_skip 2 frame2) (\<lambda>frame3.
        let header = h @ h2 @ replicate (MAX_HEADER_LENGTH - 2 - length h2) 0 in
        res_bind (getU8 (reader_init header Network)) (\<lambda>(flags, hr1).
        res_bind (getU8 hr1) (\<lambda>(lengthByte, hr2).
        let f' = f\<lparr>wf_frameFlags := flags\<rparr> in
        res_bind (readLength big limit lengthByte hr2) (\<lambda>(pl, payloadOffset, hr3).
        case pl of None \<Rightarrow> Inr (0, None, frame3, f')
        | Some payloadLength \<Rightarrow>
          if lengthByte AND FRAME_FLAG_MASK \<noteq> 0
          then res_bind (reader_get 4 hr3) (\<lambda>(mk, _).
               let start = offset + payloadOffset + 4 in
               res_bind (unmask_in_place start payloadLength mk (r_bytes frame3)) (\<lambda>bytes.
               let frame4 = frame3\<lparr>r_bytes := bytes\<rparr> in
               if start + payloadLength > limit then Inr (0, Some start, frame4, f')
               else res_bind (reader_seek (start + payloadLength) frame4) (\<lambda>frame5.
                    Inr (payloadLength, Some start, frame5, f'))))
          else (let start = offset + payloadOffset in
               if start + payloadLength > limit then Inr (0, Some start, frame3, f')
               else res_bind (reader_seek (start + payloadLength) frame3) (\<lambda>frame5.
                    Inr (payloadLength, Some start, frame5, f')))))))))))"

subsection \<open>The handshake\<close>

definition ProtocolGuid :: string where "ProtocolGuid = ''258EAFA5-E914-47DA-95CA-C5AB0DC85B11''"
definition ProtocolVersion :: string where "ProtocolVersion = ''13''"

text \<open>
  \<open>util::randomString(16)\<close> of the random bytes \<open>rnd\<close>; \<open>garbage\<close> is the memory of the hash context. The inputs of
  16 and 20 bytes fit the buffer of the coder, so that its text is what \<open>encode\<close> returns (\<open>encode_result\<close>, \<open>randomString_result\<close>).
\<close>

definition createKey :: "byte list \<Rightarrow> string" where
  "createKey rnd = string_of (encode_text (random_text rnd) LINE_LENGTH)"

definition computeAccept :: "bool \<Rightarrow> byte list \<Rightarrow> string \<Rightarrow> string" where
  "computeAccept big garbage key =
     (let context = fst (SHA1_Update big (SHA1_Init garbage) (bytes_of (key @ ProtocolGuid)));
          digest = snd (SHA1_Final big context)
      in string_of (encode_text digest LINE_LENGTH))"

definition createClientHandshakeRequest ::
    "byte list \<Rightarrow> Request \<Rightarrow> WebSocketFramer \<Rightarrow> (Request \<times> WebSocketFramer) res" where
  "createClientHandshakeRequest rnd request f =
     (if wf_mode f \<noteq> ClientSide \<or> wf_headerState f \<noteq> 0 then Inl Assertion_failed
      else (let key = createKey rnd;
                r1 = setChunkedTransferEncoding False request;
                r2 = msg_set ''Connection'' ''Upgrade'' r1;
                r3 = msg_set ''Upgrade'' ''websocket'' r2;
                r4 = msg_set ''Sec-WebSocket-Version'' ProtocolVersion r3;
                r5 = msg_set ''Sec-WebSocket-Key'' key r4
            in if \<not> msg_has r4 ''Sec-WebSocket-Version'' \<or> \<not> msg_has r5 ''Sec-WebSocket-Key'' then Inl Assertion_failed
               else Inr (r5, f\<lparr>wf_key := key, wf_headerState := wf_headerState f + 1\<rparr>)))"

definition completeClientHandshake :: "bool \<Rightarrow> byte list \<Rightarrow> Response \<Rightarrow> WebSocketFramer \<Rightarrow> WebSocketFramer res" where
  "completeClientHandshake big garbage response f =
     (if wf_mode f \<noteq> ClientSide \<or> wf_headerState f \<noteq> 1 then Inl Assertion_failed
      else if icompare (msg_get response ''Connection'' []) ''Upgrade'' \<noteq> 0
      then Inl (Runtime_error ''WebSocket error: No \"Connection: Upgrade\" header in handshake response'')
      else if icompare (msg_get response ''Upgrade'' []) ''websocket'' \<noteq> 0
      then Inl (Runtime_error ''WebSocket error: No \"Upgrade: websocket\" header in handshake response'')
      else if msg_get response ''Sec-WebSocket-Accept'' [] \<noteq> computeAccept big garbage (wf_key f)
      then Inl (Runtime_error ''WebSocket error: Invalid or missing Sec-WebSocket-Accept header in handshake esponse'')
      else Inr (f\<lparr>wf_headerState := wf_headerState f + 1\<rparr>))"

definition checkClientHandshakeResponse ::
    "bool \<Rightarrow> byte list \<Rightarrow> Response \<Rightarrow> WebSocketFramer \<Rightarrow> (bool \<times> WebSocketFramer) res" where
  "checkClientHandshakeResponse big garbage response f =
     (if wf_mode f \<noteq> ClientSide \<or> wf_headerState f \<noteq> 1 then Inl Assertion_failed
      else case resp_status response of
          SwitchingProtocols \<Rightarrow> res_bind (completeClientHandshake big garbage response f) (\<lambda>f'. Inr (True, f'))
        | Unauthorized \<Rightarrow> Inl Assertion_failed
        | _ \<Rightarrow> Inl (Runtime_error (''WebSocket error: Cannot upgrade to WebSocket connection: '' @ resp_reason response)))"

definition acceptServerRequest ::
    "bool \<Rightarrow> byte list \<Rightarrow> Request \<Rightarrow> Response \<Rightarrow> WebSocketFramer \<Rightarrow> (Response \<times> WebSocketFramer) res" where
  "acceptServerRequest big garbage request response f =
     (if wf_mode f \<noteq> ServerSide then Inl Assertion_failed
      else if (icompare (msg_get request ''Connection'' []) ''upgrade'' = 0 \<or>
               icompare (msg_get request ''Connection'' []) ''keep-alive, Upgrade'' = 0) \<and>
              icompare (msg_get request ''Upgrade'' []) ''websocket'' = 0
      then (let version = msg_get request ''Sec-WebSocket-Version'' []; key = trim (msg_get request ''Sec-WebSocket-Key'' []) in
        if version = [] then Inl (Runtime_error ''WebSocket error: Missing Sec-WebSocket-Version in handshake request'')
        else if version \<noteq> ProtocolVersion
        then Inl (Runtime_error (''WebSocket error: Unsupported WebSocket version requested: '' @ version))
        else if key = [] then Inl (Runtime_error ''WebSocket error: Missing Sec-WebSocket-Key in handshake request'')
        else Inr (msg_set ''Sec-WebSocket-Accept'' (computeAccept big garbage key)
                   (msg_set ''Connection'' ''Upgrade'' (msg_set ''Upgrade'' ''websocket''
                     (setStatus SwitchingProtocols response))),
                  f\<lparr>wf_headerState := 2\<rparr>))
      else Inl (Runtime_error ''WebSocket error: No WebSocket handshake''))"

subsection \<open>The bytes of a frame\<close>

fun mask_from :: "byte list \<Rightarrow> nat \<Rightarrow> byte list \<Rightarrow> byte list" where
  "mask_from m i [] = []"
| "mask_from m i (b # bs) = (b XOR m ! (i mod 4)) # mask_from m (i + 1) bs"

definition len_code :: "nat \<Rightarrow> byte" where
  "len_code len = (if len < 126 then of_nat len else if len < 65536 then 126 else 127)"

definition len_ext :: "nat \<Rightarrow> byte list" where
  "len_ext len = (if len < 126 then [] else if len < 65536 then setBE16 [0, 0] (of_nat len)
                  else setBE64 [0, 0, 0, 0, 0, 0, 0, 0] (of_nat len))"

text \<open>RFC 6455, section 5.2: \<open>mk\<close> is the masking key of a masked frame.\<close>

definition frame_head :: "nat \<Rightarrow> byte list option \<Rightarrow> nat \<Rightarrow> byte list" where
  "frame_head flags mk len =
     [of_nat flags, (if mk = None then 0 else FRAME_FLAG_MASK) OR len_code len] @ len_ext len @
     (case mk of None \<Rightarrow> [] | Some m \<Rightarrow> m)"

definition ws_frame :: "nat \<Rightarrow> byte list option \<Rightarrow> byte list \<Rightarrow> byte list" where
  "ws_frame flags mk data =
     frame_head flags mk (length data) @ (case mk of None \<Rightarrow> data | Some m \<Rightarrow> mask_from m 0 data)"

lemma length_mask_from [simp]: "length (mask_from m i bs) = length bs"
  by (induction m i bs rule: mask_from.induct) simp_all

lemma mask_from_nth: "j < length bs \<Longrightarrow> mask_from m i bs ! j = bs ! j XOR m ! ((i + j) mod 4)"
  by (induction m i bs arbitrary: j rule: mask_from.induct) (auto simp: nth_Cons split: nat.splits)

lemma put_fields_append: "put_fields big (fs @ gs) w = res_bind (put_fields big fs w) (put_fields big gs)"
  by (induction fs arbitrary: w) (auto simp: res_bind_def split: sum.splits)

text \<open>Below 4 GiB the counter does not wrap around, and the loop writes the masked bytes one after the other.\<close>

lemma putU8_position:
  "putU8 v w = Inr w' \<Longrightarrow> w_limit w < size_t_max \<Longrightarrow> w_position w < w_limit w \<Longrightarrow> w_position w' = Suc (w_position w) \<and> w_limit w' = w_limit w"
  by (auto simp: putU8_def writer_put_def field8_def size_add_def split: if_splits sum.splits)

lemma put_masked_fields:
  assumes "length data < 2 ^ 32" "k \<le> length data" "w_limit w < size_t_max" "w_position w + (length data - k) \<le> w_limit w"
  shows "put_masked m (of_nat k) data w = put_fields big (map F8 (mask_from m k (drop k data))) w"
  using assms(2-)
proof (induction "length data - k" arbitrary: k w)
  case 0
  then show ?case using assms(1) by (subst put_masked.simps) (simp add: unat_of_nat)
next
  case (Suc n)
  have k: "k < length data" "unat (of_nat k :: u32) = k" using Suc.hyps(2) assms(1) by (simp_all add: unat_of_nat)
  have d: "drop k data = data ! k # drop (Suc k) data" using k(1) by (simp add: Cons_nth_drop_Suc)
  show ?case
  proof (cases "putU8 (data ! k XOR m ! (k mod 4)) w")
    case (Inl e)
    then show ?thesis using k by (subst put_masked.simps) (simp add: d)
  next
    case (Inr w')
    then have w': "w_position w' = Suc (w_position w)" "w_limit w' = w_limit w"
      using putU8_position [OF Inr] Suc.prems(2,3) k(1) by simp_all
    have "put_masked m (of_nat (Suc k)) data w' = put_fields big (map F8 (mask_from m (Suc k) (drop (Suc k) data))) w'"
      using Suc.hyps(2) Suc.prems w' k(1) by (intro Suc.hyps(1)) simp_all
    then show ?thesis using Inr k w' by (subst put_masked.simps) (simp add: d add.commute)
  qed
qed

text \<open>From 4 GiB on the counter never reaches the length: a masked frame of this size always fails.\<close>

lemma put_masked_too_long: "2 ^ 32 \<le> length data \<Longrightarrow> put_masked m i data w \<noteq> Inr w'"
proof (induction m i data w rule: put_masked.induct)
  case (1 m i data w)
  have "unat i < 2 ^ 32" using unsigned_less [of i] by simp
  then have "unat i < length data" using 1(2) by linarith
  then show ?case using 1 by (subst put_masked.simps) (auto split: sum.splits)
qed

definition frame_fields :: "bool \<Rightarrow> nat \<Rightarrow> u32 option \<Rightarrow> byte list \<Rightarrow> field list" where
  "frame_fields big flags mk data =
     [F8 (of_nat flags), F8 ((if mk = None then 0 else FRAME_FLAG_MASK) OR len_code (length data))] @
     (if length data < 126 then [] else if length data < 65536 then [F16 (of_nat (length data))] else [F64 (of_nat (length data))]) @
     (case mk of None \<Rightarrow> [FBytes data] | Some k \<Rightarrow> FBytes (mem32 big k) # map F8 (mask_from (mem32 big k) 0 data))"

lemma field_bytes_frame:
  "concat (map (field_bytes big Network) (frame_fields big flags mk data)) = ws_frame flags (map_option (mem32 big) mk) data"
proof -
  have f8: "concat (map (field_bytes big Network) (map F8 bs)) = bs" for bs by (induction bs) (simp_all add: field8_def)
  have ext: "concat (map (field_bytes big Network) (if len < 126 then [] else if len < 65536 then [F16 (of_nat len)] else [F64 (of_nat len)]))
      = len_ext len" for len
    by (simp add: len_ext_def field16_def field64_def)
  show ?thesis
    by (cases mk) (simp_all add: frame_fields_def ws_frame_def frame_head_def field8_def f8 ext del: map_map)
qed

lemma size_frame_fields: "sum_list (map field_size (frame_fields big flags mk data)) = length (ws_frame flags (map_option (mem32 big) mk) data)"
proof -
  have "length (concat (map (field_bytes big Network) fs)) = sum_list (map field_size fs)" for fs
    by (induction fs) simp_all
  then show ?thesis using field_bytes_frame by metis
qed

lemma putLength_fields:
  "putLength big k len w = put_fields big
     (F8 (k OR len_code len) # (if len < 126 then [] else if len < 65536 then [F16 (of_nat len)] else [F64 (of_nat len)])) w"
  by (auto simp: putLength_def len_code_def res_bind_def split: sum.splits)

definition head_fields :: "bool \<Rightarrow> nat \<Rightarrow> u32 option \<Rightarrow> nat \<Rightarrow> field list" where
  "head_fields big flags mk len =
     [F8 (of_nat flags), F8 ((if mk = None then 0 else FRAME_FLAG_MASK) OR len_code len)] @
     (if len < 126 then [] else if len < 65536 then [F16 (of_nat len)] else [F64 (of_nat len)]) @
     (case mk of None \<Rightarrow> [] | Some k \<Rightarrow> [FBytes (mem32 big k)])"

lemma frame_fields_head: "frame_fields big flags mk data = head_fields big flags mk (length data) @
    (case mk of None \<Rightarrow> [FBytes data] | Some k \<Rightarrow> map F8 (mask_from (mem32 big k) 0 data))"
  by (cases mk) (simp_all add: frame_fields_def head_fields_def)

lemma size_head_fields: "sum_list (map field_size (head_fields big flags mk len)) \<le> 14"
  by (cases mk) (simp_all add: head_fields_def)

lemma writeFrame_head:
  fixes f :: WebSocketFramer
  assumes "flags = SendFlags_Text \<or> flags = SendFlags_Binary" "w_position w = 0"
  defines "mk \<equiv> if wf_maskPayload f then Some (fst (rng_next (wf_rnd f))) else None"
  shows "writeFrame big data flags w f = res_bind (put_fields big (head_fields big flags mk (length data)) w)
    (\<lambda>w3. res_bind (case mk of None \<Rightarrow> put_fields big [FBytes data] w3 | Some k \<Rightarrow> put_masked (mem32 big k) 0 data w3)
    (\<lambda>w'. Inr (w_position w', w', if wf_maskPayload f then f\<lparr>wf_rnd := snd (rng_next (wf_rnd f))\<rparr> else f)))"
proof -
  have bind: "res_bind (res_bind a g) h = res_bind a (\<lambda>x. res_bind (g x) h)" for a :: "BitWriter res" and g :: "BitWriter \<Rightarrow> BitWriter res" and h
    by (cases a) simp_all
  have cons: "put_fields big (g # gs) x = res_bind (put_field big g x) (put_fields big gs)" for g gs x
    by (simp add: res_bind_def)
  have unit: "res_bind x Inr = x" "put_fields big [] = Inr" for x :: "BitWriter res"
    by (cases x) (auto simp: fun_eq_iff)
  obtain k r where k: "rng_next (wf_rnd f) = (k, r)" by (cases "rng_next (wf_rnd f)")
  have ops: "putU8 v x = put_field big (F8 v) x" "writer_put bs x = put_field big (FBytes bs) x" for v bs x by simp_all
  show ?thesis
    using assms(1,2)
    by (cases "wf_maskPayload f")
      (simp_all add: writeFrame_def ops putLength_fields head_fields_def mk_def k
        put_fields_append cons bind unit del: put_fields.simps put_field.simps)
qed

text \<open>When the writer has room for the frame and a masked payload is below 4 GiB, the fields of the frame are written.\<close>

lemma writeFrame_fields:
  fixes f :: WebSocketFramer
  assumes "flags = SendFlags_Text \<or> flags = SendFlags_Binary" "w_position w = 0"
    and "wf_maskPayload f \<Longrightarrow> length data < 2 ^ 32"
    and "length data + 14 \<le> w_limit w" "w_limit w = length (w_bytes w)" "w_limit w < size_t_max"
  defines "mk \<equiv> if wf_maskPayload f then Some (fst (rng_next (wf_rnd f))) else None"
  shows "writeFrame big data flags w f = res_bind (put_fields big (frame_fields big flags mk data) w)
    (\<lambda>w'. Inr (w_position w', w', if wf_maskPayload f then f\<lparr>wf_rnd := snd (rng_next (wf_rnd f))\<rparr> else f))"
proof -
  let ?hs = "head_fields big flags mk (length data)"
  have n: "sum_list (map field_size ?hs) \<le> 14" by (rule size_head_fields)
  then have fit: "w_position w + sum_list (map field_size ?hs) \<le> w_limit w" using assms(2,4) by simp
  obtain w3 where w3: "put_fields big ?hs w = Inr w3" "w_limit w3 = w_limit w" "w_position w3 = sum_list (map field_size ?hs)"
    using put_fields_eq [OF fit assms(5,6), of big] assms(2) by simp
  have "put_masked m 0 data w3 = put_fields big (map F8 (mask_from m 0 data)) w3" if "wf_maskPayload f" for m
    using put_masked_fields [of data 0 w3 m big] assms(3) [OF that] assms(4,6) w3(2,3) n by simp
  then have "(case mk of None \<Rightarrow> put_fields big [FBytes data] w3 | Some k \<Rightarrow> put_masked (mem32 big k) 0 data w3) =
      put_fields big (case mk of None \<Rightarrow> [FBytes data] | Some k \<Rightarrow> map F8 (mask_from (mem32 big k) 0 data)) w3"
    by (cases "wf_maskPayload f") (simp_all add: mk_def)
  then show ?thesis
    using w3(1) by (simp add: writeFrame_head [OF assms(1,2)] frame_fields_head put_fields_append mk_def [symmetric])
qed

definition frame_key :: "bool \<Rightarrow> WebSocketFramer \<Rightarrow> byte list option" where
  "frame_key big f = (if wf_maskPayload f then Some (mem32 big (fst (rng_next (wf_rnd f)))) else None)"

lemma length_ws_frame: "length (ws_frame flags mk data) =
    2 + length (len_ext (length data)) + (case mk of None \<Rightarrow> 0 | Some m \<Rightarrow> length m) + length data"
  by (cases mk) (simp_all add: ws_frame_def frame_head_def)

lemma length_len_ext: "length (len_ext len) = (if len < 126 then 0 else if len < 65536 then 2 else 8)"
  by (simp add: len_ext_def)

lemma writeFrame_bytes:
  assumes "flags = SendFlags_Text \<or> flags = SendFlags_Binary" "length data + 14 \<le> length garbage" "length garbage < size_t_max"
    and "wf_maskPayload f \<Longrightarrow> length data < 2 ^ 32"
  shows "\<exists>w'. writeFrame big data flags (writer_init garbage Network) f =
      Inr (length (ws_frame flags (frame_key big f) data), w', if wf_maskPayload f then f\<lparr>wf_rnd := snd (rng_next (wf_rnd f))\<rparr> else f) \<and>
    w_position w' = length (ws_frame flags (frame_key big f) data) \<and> writer_toString w' = Inr (ws_frame flags (frame_key big f) data)"
proof -
  let ?w = "writer_init garbage Network" and ?fs = "frame_fields big flags (if wf_maskPayload f then Some (fst (rng_next (wf_rnd f))) else None) data"
  let ?b = "ws_frame flags (frame_key big f) data"
  have key: "map_option (mem32 big) (if wf_maskPayload f then Some (fst (rng_next (wf_rnd f))) else None) = frame_key big f"
    by (simp add: frame_key_def)
  have size: "sum_list (map field_size ?fs) = length ?b" by (simp only: size_frame_fields key)
  have "length ?b \<le> length data + 14" by (simp add: length_ws_frame length_len_ext frame_key_def)
  then have fit: "w_position ?w + sum_list (map field_size ?fs) \<le> w_limit ?w"
    using assms(2) by (simp add: size writer_init_def)
  define w' where "w' = ?w\<lparr>w_bytes := ?b @ drop (length ?b) garbage, w_position := length ?b\<rparr>"
  have put: "put_fields big ?fs ?w = Inr w'"
    using put_fields_eq [OF fit, of big] assms(3) field_bytes_frame [of big flags _ data]
    by (simp add: size key writer_init_def w'_def)
  moreover have "writer_toString w' = Inr ?b"
    using memory_app [of 0 "[]" "length ?b" ?b] by (simp add: writer_toString_def w'_def)
  ultimately show ?thesis
    using writeFrame_fields [OF assms(1), of ?w f data big] assms(2,3,4) by (simp add: w'_def writer_init_def)
qed

subsection \<open>Reading a complete frame\<close>

lemma byte_flags:
  assumes "(c :: byte) < 128"
  shows "(FRAME_FLAG_MASK OR c) AND 0x7f = c" "(FRAME_FLAG_MASK OR c) AND FRAME_FLAG_MASK \<noteq> 0"
    "c AND 0x7f = c" "c AND FRAME_FLAG_MASK = 0"
proof -
  have m: "(0x7f :: byte) = mask 7" by (simp add: mask_numeral)
  have p: "bit FRAME_FLAG_MASK n \<longleftrightarrow> n = 7" for n
  proof -
    have "FRAME_FLAG_MASK = 2 ^ 7" by (simp add: FRAME_FLAG_MASK_def)
    moreover have "bit (2 ^ 7 :: byte) n \<longleftrightarrow> n = 7" using bit_exp_iff [of 7 n, where ?'a = "8 word"] by (auto simp: possible_bit_def)
    ultimately show ?thesis by simp
  qed
  have "unat c < 2 ^ 7" using assms by (simp add: word_less_nat_alt)
  then have "unat (take_bit 7 c) = unat c" by (simp only: unsigned_take_bit_eq take_bit_nat_eq_self)
  then have c: "take_bit 7 c = c" by (rule unsigned_word_eqI)
  have hi: "n < 7" if "bit c n" for n
    using that by (subst (asm) c [symmetric]) (simp add: bit_simps)
  show "(FRAME_FLAG_MASK OR c) AND 0x7f = c" "c AND 0x7f = c" unfolding m
    by (rule bit_word_eqI, use hi p in \<open>auto simp: bit_simps\<close>)+
  show "c AND FRAME_FLAG_MASK = 0" by (rule bit_word_eqI) (use hi p in \<open>auto simp: bit_simps\<close>)
  have "bit ((FRAME_FLAG_MASK OR c) AND FRAME_FLAG_MASK) 7" by (simp add: bit_simps p)
  then show "(FRAME_FLAG_MASK OR c) AND FRAME_FLAG_MASK \<noteq> 0" by auto
qed

lemma len_code_facts:
  "len_code len < 128" "unat (len_code len) = (if len < 126 then len else if len < 65536 then 126 else 127)"
  by (auto simp: len_code_def word_less_nat_alt unat_of_nat take_bit_eq_mod)

lemma len_bits:
  fixes masked :: bool and len :: nat
  defines "lb \<equiv> (if masked then FRAME_FLAG_MASK else 0) OR len_code len"
  shows "lb AND 0x7f = len_code len" "(lb AND FRAME_FLAG_MASK \<noteq> 0) = masked"
  using byte_flags [OF len_code_facts(1) [of len]] by (auto simp: lb_def)

lemma getU16_app:
  assumes "r_bytes r = pre @ setBE16 [0, 0] v @ post" "r_position r = length pre" "r_limit r = length (r_bytes r)"
    "r_limit r < size_t_max" "r_order r = Network"
  shows "getU16 big r = Inr (v, r\<lparr>r_position := length pre + 2\<rparr>)"
  using get_field_app [of r pre big Network "F16 v" post big] assms by (auto simp: field16_def split: sum.splits)

lemma getU64_app:
  assumes "r_bytes r = pre @ setBE64 [0, 0, 0, 0, 0, 0, 0, 0] v @ post" "r_position r = length pre"
    "r_limit r = length (r_bytes r)" "r_limit r < size_t_max" "r_order r = Network"
  shows "getU64 big r = Inr (v, r\<lparr>r_position := length pre + 8\<rparr>)"
  using get_field_app [of r pre big Network "F64 v" post big] assms by (auto simp: field64_def split: sum.splits)

lemma getU8_app:
  assumes "r_bytes r = pre @ v # post" "r_position r = length pre" "r_limit r = length (r_bytes r)"
    "r_limit r < size_t_max" "r_order r = Network"
  shows "getU8 r = Inr (v, r\<lparr>r_position := length pre + 1\<rparr>)"
  using get_field_app [of r pre False Network "F8 v" post False] assms by (auto simp: field8_def split: sum.splits)

lemma readLength_head:
  fixes masked :: bool and len :: nat
  assumes "header = flags # ((if masked then FRAME_FLAG_MASK else 0) OR len_code len) # len_ext len @ post"
    "length header < size_t_max" "len < size_t_max"
  shows "readLength big limit (header ! 1) ((reader_init header Network)\<lparr>r_position := 2\<rparr>) =
    Inr (if limit < len then None else Some len, 2 + length (len_ext len), (reader_init header Network)\<lparr>r_position := 2 + length (len_ext len)\<rparr>)"
proof -
  let ?hr = "(reader_init header Network)\<lparr>r_position := 2\<rparr>"
  let ?pre = "[flags, (if masked then FRAME_FLAG_MASK else 0) OR len_code len]"
  have lb: "(header ! Suc 0) AND 0x7f = len_code len" using len_bits(1) [of masked len] assms(1) by simp
  have u64: "unat (of_nat len :: u64) = len" using assms(3) by (simp add: unat_of_nat size_t_max_def take_bit_eq_mod)
  consider "len < 126" | "126 \<le> len" "len < 65536" | "65536 \<le> len" by linarith
  then show ?thesis
  proof cases
    case 1
    then have "len_code len \<noteq> 127" "len_code len \<noteq> 126" "unat (len_code len) = len"
      using len_code_facts(2) [of len] by (auto dest!: arg_cong [of _ _ unat])
    then show ?thesis using 1 by (simp add: readLength_def lb len_ext_def Let_def)
  next
    case 2
    then have "len_code len = 126" "len_ext len = setBE16 [0, 0] (of_nat len)" by (auto simp: len_code_def len_ext_def)
    moreover have "unat (of_nat len :: u16) = len" using 2 by (simp add: unat_of_nat take_bit_eq_mod)
    moreover have "getU16 big ?hr = Inr (of_nat len, ?hr\<lparr>r_position := 4\<rparr>)"
      using getU16_app [of ?hr ?pre "of_nat len" post big] assms(1,2) calculation by (simp add: reader_init_def)
    ultimately show ?thesis by (simp add: readLength_def lb)
  next
    case 3
    then have "len_code len = 127" "len_ext len = setBE64 [0, 0, 0, 0, 0, 0, 0, 0] (of_nat len)"
      by (auto simp: len_code_def len_ext_def)
    moreover have "getU64 big ?hr = Inr (of_nat len, ?hr\<lparr>r_position := 10\<rparr>)"
      using getU64_app [of ?hr ?pre "of_nat len" post big] assms(1,2) calculation by (simp add: reader_init_def)
    ultimately show ?thesis by (simp add: readLength_def lb u64)
  qed
qed

lemma unmask_frame:
  assumes "length m = 4" "start = length h"
  shows "unmask_in_place start (length data) m (h @ mask_from m 0 data @ post) = Inr (h @ data @ post)"
proof -
  have "map (\<lambda>i. (h @ mask_from m 0 data @ post) ! (start + i) XOR m ! (i mod 4)) [0..<length data] = data"
    using assms by (intro nth_equalityI) (simp_all add: nth_append mask_from_nth xor.assoc)
  then show ?thesis using assms(2) by (simp add: unmask_in_place_def)
qed

text \<open>How many bytes behind the first two the header reader is given.\<close>

definition header_fill :: "byte list option \<Rightarrow> nat \<Rightarrow> nat" where
  "header_fill mk len =
     (let l7 = unat (len_code len); mo = (if mk \<noteq> None then 4 else 0) in
      if l7 + 2 + mo < MAX_HEADER_LENGTH then l7 + mo else MAX_HEADER_LENGTH - 2)"

abbreviation key_bytes :: "byte list option \<Rightarrow> byte list" where
  "key_bytes mk \<equiv> (case mk of None \<Rightarrow> [] | Some m \<Rightarrow> m)"

definition key_ok :: "byte list option \<Rightarrow> bool" where
  "key_ok mk = (mk = None \<or> length (the mk) = 4)"

lemma key_ok_length: "key_ok mk \<Longrightarrow> length (key_bytes mk) = (if mk \<noteq> None then 4 else 0)"
  by (cases mk) (auto simp: key_ok_def)

lemma header_fill_bounds:
  assumes "key_ok mk"
  shows "length (len_ext len @ key_bytes mk) \<le> header_fill mk len" "header_fill mk len \<le> 12"
    "header_fill mk len \<le> length (len_ext len @ key_bytes mk) + len"
  using key_ok_length [OF assms]
  by (auto simp: header_fill_def Let_def MAX_HEADER_LENGTH_def len_code_facts(2) length_len_ext)

text \<open>
  What \<open>readFrame\<close> does with a buffer that holds the head of a frame, the key included, and enough bytes behind it for
  the first test and the header array.
\<close>

definition after_head :: "byte list option \<Rightarrow> nat \<Rightarrow> nat \<Rightarrow> BitReader \<Rightarrow> WebSocketFramer \<Rightarrow>
    (nat \<times> nat option \<times> BitReader \<times> WebSocketFramer) res \<Rightarrow> bool" where
  "after_head mk start len r f res =
     (\<exists>x. if r_limit r < len then res = Inr (0, None, r\<lparr>r_position := x\<rparr>, f)
      else case mk of
        None \<Rightarrow> if r_limit r < start + len then res = Inr (0, Some start, r\<lparr>r_position := x\<rparr>, f)
                else res = Inr (len, Some start, r\<lparr>r_position := start + len\<rparr>, f)
      | Some m \<Rightarrow> res = res_bind (unmask_in_place start len m (r_bytes r)) (\<lambda>bytes.
          if r_limit r < start + len then Inr (0, Some start, r\<lparr>r_position := x, r_bytes := bytes\<rparr>, f)
          else Inr (len, Some start, r\<lparr>r_position := start + len, r_bytes := bytes\<rparr>, f)))"

lemma getU8_pair:
  assumes "header = a # b # hs" "length header < size_t_max"
  shows "getU8 (reader_init header Network) = Inr (a, (reader_init header Network)\<lparr>r_position := 1\<rparr>)"
    "getU8 ((reader_init header Network)\<lparr>r_position := 1\<rparr>) = Inr (b, (reader_init header Network)\<lparr>r_position := 2\<rparr>)"
  using getU8_app [of "reader_init header Network" "[]" a "b # hs"]
    getU8_app [of "(reader_init header Network)\<lparr>r_position := 1\<rparr>" "[a]" b hs] assms
  by (simp_all add: reader_init_def numeral_2_eq_2)

lemma length_frame_head: "key_ok mk \<Longrightarrow> length (frame_head flags mk len) = 2 + length (len_ext len) + length (key_bytes mk)"
  by (simp add: frame_head_def)

lemma readFrame_head:
  assumes hs: "handshakeComplete f" and key: "key_ok mk"
    and r: "r_bytes r = pre @ frame_head flags mk len @ tail" "r_position r = length pre" "r_limit r = length (r_bytes r)"
      "r_limit r < size_t_max"
    and enough: "unat (len_code len) \<le> length (len_ext len @ key_bytes mk @ tail)"
      "header_fill mk len \<le> length (len_ext len @ key_bytes mk @ tail)" and len: "len < size_t_max"
  shows "after_head mk (length pre + length (frame_head flags mk len)) len r (f\<lparr>wf_frameFlags := of_nat flags\<rparr>) (readFrame big r f)"
proof -
  define lb where "lb = ((if mk \<noteq> None then FRAME_FLAG_MASK else 0) OR len_code len)"
  define rest where "rest = len_ext len @ key_bytes mk @ tail"
  define mo where "mo = (if mk \<noteq> None then 4 else 0 :: nat)"
  define n where "n = header_fill mk len"
  have n_fold: "(if unat (len_code len) + 2 + mo < MAX_HEADER_LENGTH then unat (len_code len) + mo else MAX_HEADER_LENGTH - 2) = n"
    by (simp only: n_def header_fill_def Let_def mo_def)
  have bytes: "r_bytes r = pre @ [of_nat flags, lb] @ rest"
    using r(1) by (auto simp: frame_head_def rest_def lb_def)
  have enough': "(length rest < unat (len_code len)) = False" "n \<le> length rest"
    using enough by (simp_all add: rest_def n_def)
  define r1 where "r1 = r\<lparr>r_position := length pre + 2\<rparr>"
  have g1: "reader_get 2 r = Inr ([of_nat flags, lb], r1)"
    using reader_get_app [OF bytes r(2-4)] by (simp add: r1_def numeral_2_eq_2)
  have inv: "reader_inv r1" using bytes r(3,4) by (simp add: r1_def reader_inv_def)
  have av: "reader_available r1 = length rest"
    using inv bytes r(3) by (simp add: reader_available_def size_t_simps reader_inv_def) (simp add: r1_def)
  define r2 where "r2 = r1\<lparr>r_position := length pre + 2 + n\<rparr>"
  have g2: "reader_get n r1 = Inr (take n rest, r2)"
    using reader_get_inv [OF inv, of n] enough'(2) bytes r(3) by (simp add: r1_def r2_def)
  define r3 where "r3 = r2\<lparr>r_position := size_add (r_position r2) 2\<rparr>"
  have g3: "reader_skip 2 r2 = Inr r3" using r(3) bytes by (simp add: reader_skip_def r3_def r2_def r1_def)
  define z where "z = replicate (MAX_HEADER_LENGTH - 2 - length (take n rest)) (0 :: byte)"
  define header where "header = [of_nat flags, lb] @ take n rest @ z"
  define junk where "junk = drop (length (len_ext len @ key_bytes mk)) (take n rest) @ z"
  have "take n rest = (len_ext len @ key_bytes mk) @ drop (length (len_ext len @ key_bytes mk)) (take n rest)"
    using header_fill_bounds(1) [OF key, of len] by (simp add: rest_def n_def)
  then have header: "header = of_nat flags # lb # len_ext len @ key_bytes mk @ junk"
    unfolding header_def junk_def by simp
  have "length header = 14" using header_fill_bounds(2) [OF key, of len] enough'(2)
    by (simp add: header_def z_def MAX_HEADER_LENGTH_def n_def)
  then have small: "length header < size_t_max" by (simp add: size_t_max_def)
  let ?hr = "reader_init header Network"
  let ?hr3 = "?hr\<lparr>r_position := 2 + length (len_ext len)\<rparr>"
  have rl: "readLength big (r_limit r) lb (?hr\<lparr>r_position := 2\<rparr>) =
      Inr (if r_limit r < len then None else Some len, 2 + length (len_ext len), ?hr3)"
    using readLength_head [of header "of_nat flags" "mk \<noteq> None" len "key_bytes mk @ junk" big "r_limit r"] small len header
    by (simp add: lb_def)
  have lb: "lb AND 0x7f = len_code len" "(lb AND FRAME_FLAG_MASK \<noteq> 0) = (mk \<noteq> None)" unfolding lb_def by (rule len_bits)+
  have e1: "[of_nat flags, lb] ! 1 = lb" by simp
  have key4: "reader_get 4 ?hr3 = Inr (m, ?hr3\<lparr>r_position := 2 + length (len_ext len) + 4\<rparr>)" if "mk = Some m" for m
    using reader_get_app [of ?hr3 "of_nat flags # lb # len_ext len" m junk] key small that header
    by (simp add: reader_init_def key_ok_def)
  have seek: "reader_seek v (r3\<lparr>r_bytes := bs\<rparr>) = Inr (r\<lparr>r_position := v, r_bytes := bs\<rparr>)"
    "reader_seek v r3 = Inr (r\<lparr>r_position := v\<rparr>)" if "v \<le> r_limit r" for v bs
    using that by (simp_all add: reader_seek_def r3_def r2_def r1_def)
  have r3: "r_limit r3 = r_limit r" "r_bytes r3 = r_bytes r" "r3 = r\<lparr>r_position := r_position r3\<rparr>"
    by (simp_all add: r3_def r2_def r1_def)
  note run = readFrame_def Let_def hs not_True_eq_False if_False g1 res_bind_simps prod.case e1 lb enough'(1) av
      mo_def [symmetric] n_fold g2 g3 z_def [symmetric] header_def [symmetric] getU8_pair [OF header small] rl r(2)
  have head: "length (frame_head flags mk len) = 2 + length (len_ext len) + mo"
    using length_frame_head [OF key] key_ok_length [OF key] by (simp add: mo_def)
  let ?start = "length pre + (2 + length (len_ext len) + mo)"
  show ?thesis
  proof (cases "r_limit r < len \<or> mk = None")
    case True
    then show ?thesis unfolding after_head_def
      by (intro exI [of _ "r_position r3"], unfold run head) (use r3 hs in \<open>auto simp: mo_def seek add.assoc\<close>)
  next
    case False
    then obtain m where m: "mk = Some m" by auto
    have start: "length pre + (2 + length (len_ext len)) + 4 = ?start" using m by (simp add: mo_def)
    show ?thesis
    proof (cases "unmask_in_place ?start len m (r_bytes r)")
      case (Inl e)
      then show ?thesis unfolding after_head_def
        by (intro exI [of _ "r_position r3"], unfold run head start key4 [OF m])
          (use False m r3 hs in \<open>auto simp: key4 [OF m, simplified] start [simplified]\<close>)
    next
      case (Inr bs)
      then show ?thesis unfolding after_head_def
        by (intro exI [of _ "r_position r3"], unfold run head start key4 [OF m])
          (use False m r3 hs seek in \<open>auto simp: key4 [OF m, simplified] start [simplified]\<close>)
    qed
  qed
qed

lemma len_code_le: "unat (len_code len) \<le> length (len_ext len) + len"
  by (auto simp: len_code_facts(2) length_len_ext)

lemma readFrame_frame:
  assumes hs: "handshakeComplete f" and key: "key_ok mk"
    and r: "r_bytes r = pre @ ws_frame flags mk data @ post" "r_position r = length pre" "r_limit r = length (r_bytes r)"
      "r_limit r < size_t_max"
  shows "readFrame big r f = Inr (length data, Some (length pre + length (frame_head flags mk (length data))),
      r\<lparr>r_position := length pre + length (ws_frame flags mk data),
        r_bytes := pre @ frame_head flags mk (length data) @ data @ post\<rparr>, f\<lparr>wf_frameFlags := of_nat flags\<rparr>)"
proof -
  let ?body = "case mk of None \<Rightarrow> data | Some m \<Rightarrow> mask_from m 0 data" and ?head = "frame_head flags mk (length data)"
  have body: "length ?body = length data" by (cases mk) simp_all
  have bytes: "r_bytes r = pre @ ?head @ ?body @ post" using r(1) by (simp add: ws_frame_def)
  have ws: "length (ws_frame flags mk data) = length ?head + length data" by (simp add: ws_frame_def body)
  have fits: "length pre + length ?head + length data \<le> r_limit r" using r(3) bytes body by simp
  have "after_head mk (length pre + length ?head) (length data) r (f\<lparr>wf_frameFlags := of_nat flags\<rparr>) (readFrame big r f)"
    by (rule readFrame_head [OF hs key bytes r(2-4)])
      (use len_code_le [of "length data"] header_fill_bounds(3) [OF key, of "length data"] fits r(4) body in simp_all)
  then show ?thesis
  proof (cases mk)
    case None
    then have "r\<lparr>r_position := p, r_bytes := pre @ ?head @ data @ post\<rparr> = r\<lparr>r_position := p\<rparr>" for p
      using bytes by simp
    then show ?thesis using \<open>after_head _ _ _ _ _ _\<close> None fits ws by (simp add: after_head_def add.assoc)
  next
    case (Some m)
    have "unmask_in_place (length pre + length ?head) (length data) m (r_bytes r) = Inr (pre @ ?head @ data @ post)"
      using unmask_frame [of m _ "pre @ ?head" data post] key bytes Some by (simp add: key_ok_def)
    then show ?thesis using \<open>after_head _ _ _ _ _ _\<close> Some fits ws by (simp add: after_head_def add.assoc)
  qed
qed

subsection \<open>Incomplete frames\<close>

text \<open>A proper prefix of an unmasked frame of at least two bytes: nothing is emitted, nothing is lost.\<close>

lemma readFrame_partial:
  assumes hs: "handshakeComplete f"
    and r: "r_bytes r = pre @ p" "r_position r = length pre" "r_limit r = length (r_bytes r)" "r_limit r < size_t_max"
    and p: "p @ q = ws_frame flags None data" "q \<noteq> []" "2 \<le> length p" and len: "length data < size_t_max"
  shows "\<exists>pay r' f'. readFrame big r f = Inr (0, pay, r', f') \<and> r_bytes r' = r_bytes r \<and> f' \<in> {f, f\<lparr>wf_frameFlags := of_nat flags\<rparr>}"
proof -
  let ?len = "length data" and ?lb = "len_code (length data)"
  have whole: "ws_frame flags None data = [of_nat flags, ?lb] @ len_ext ?len @ data"
    by (simp add: ws_frame_def frame_head_def)
  define rest where "rest = drop 2 p"
  have p2: "p = [of_nat flags, ?lb] @ rest"
    using p(1,3) whole by (cases p; cases "tl p") (auto simp: rest_def numeral_2_eq_2)
  have rq: "rest @ q = len_ext ?len @ data" using p(1) whole p2 by simp
  then have short: "length rest < length (len_ext ?len) + ?len"
    using p(2) by (metis length_append length_greater_0_conv less_add_same_cancel1)
  show ?thesis
  proof (cases "unat ?lb \<le> length rest")
    case False
    have g: "reader_get 2 r = Inr ([of_nat flags, ?lb], r\<lparr>r_position := length pre + 2\<rparr>)"
      using reader_get_app [of r pre "[of_nat flags, ?lb]" rest] r p2 by (simp add: numeral_2_eq_2)
    have av: "reader_available (r\<lparr>r_position := length pre + 2\<rparr>) = length rest"
      using r p2 by (simp add: reader_available_def size_t_simps)
    have "?lb AND 0x7f = ?lb" using len_bits(1) [of False ?len] by simp
    then show ?thesis using False hs by (simp add: readFrame_def g [simplified] av [simplified] Let_def)
  next
    case True
    then have big126: "126 \<le> ?len" using short by (auto simp: len_code_facts(2) length_len_ext split: if_splits)
    then have "126 \<le> length rest" using True by (auto simp: len_code_facts(2) split: if_splits)
    then have ext: "length (len_ext ?len) \<le> length rest" by (simp add: length_len_ext)
    define tail where "tail = drop (length (len_ext ?len)) rest"
    have rest: "rest = len_ext ?len @ tail"
      using rq ext by (metis append_eq_append_conv_if append_take_drop_id tail_def)
    have bytes: "r_bytes r = pre @ frame_head flags None ?len @ tail" using r(1) p2 rest by (simp add: frame_head_def)
    have "after_head None (length pre + length (frame_head flags None ?len)) ?len r (f\<lparr>wf_frameFlags := of_nat flags\<rparr>) (readFrame big r f)"
      by (rule readFrame_head [OF hs _ bytes r(2-4)])
        (use True rest \<open>126 \<le> length rest\<close> header_fill_bounds(2) [of None ?len] len in \<open>simp_all add: key_ok_def\<close>)
    moreover have "r_limit r < length pre + length (frame_head flags None ?len) + ?len"
      using r(3) bytes short rest by (simp add: length_frame_head key_ok_def)
    ultimately show ?thesis by (auto simp: after_head_def split: if_splits)
  qed
qed

text \<open>
  A masked frame whose length byte is covered but whose payload is not complete: the payload is unmasked in the buffer
  before its length is checked.
\<close>

lemma readFrame_masked_partial:
  assumes hs: "handshakeComplete f" and m: "length m = 4"
    and r: "r_bytes r = pre @ frame_head flags (Some m) (length data) @ tail" "r_position r = length pre"
      "r_limit r = length (r_bytes r)" "r_limit r < size_t_max"
    and short: "length tail < length data" "length data \<le> length tail + 4" "8 \<le> length tail" "length data < 126"
  shows "readFrame big r f = Inl Undefined_behaviour"
proof -
  have ext: "len_ext (length data) = []" "unat (len_code (length data)) = length data"
    using short(4) by (simp_all add: len_ext_def len_code_facts(2))
  have key: "key_ok (Some m)" using m by (simp add: key_ok_def)
  have "after_head (Some m) (length pre + length (frame_head flags (Some m) (length data))) (length data) r
      (f\<lparr>wf_frameFlags := of_nat flags\<rparr>) (readFrame big r f)"
    by (rule readFrame_head [OF hs key r])
      (use ext m short header_fill_bounds(2) [OF key, of "length data"] in \<open>simp_all add: size_t_max_def\<close>)
  moreover have "length pre + length (frame_head flags (Some m) (length data)) + length data > length (r_bytes r)"
    using r(1) short(1) by simp
  moreover have "length data \<le> r_limit r" "data \<noteq> []" using r(1,3) m short by (auto simp: frame_head_def)
  ultimately show ?thesis by (auto simp: after_head_def unmask_in_place_def)
qed

text \<open>
  C7: A frame written by one framer, found anywhere in a buffer, is read back by another: the
  payload pointer and length give the data unmasked, the reader stands behind the frame and
  the bytes around it are unchanged; masked data must be below 4 GiB, where the 32 bit counter
  of the masking loop ends.
\<close>

theorem websocket_frame_roundtrip:
  assumes "flags = SendFlags_Text \<or> flags = SendFlags_Binary" "length data + 14 \<le> length garbage" "length garbage < size_t_max"
    and "handshakeComplete g" "length pre + length garbage + length post < size_t_max" "wf_maskPayload f \<longrightarrow> length data < 2 ^ 32"
  shows "\<exists>n w f' frame r p. writeFrame bw data flags (writer_init garbage Network) f = Inr (n, w, f') \<and>
    writer_toString w = Inr frame \<and> length frame = n \<and> n \<le> length data + 14 \<and>
    readFrame br ((reader_init (pre @ frame @ post) Network)\<lparr>r_position := length pre\<rparr>) g =
      Inr (length data, Some p, r, g\<lparr>wf_frameFlags := of_nat flags\<rparr>) \<and>
    take (length data) (drop p (r_bytes r)) = data \<and> r_position r = length pre + n \<and> drop (r_position r) (r_bytes r) = post"
proof -
  let ?mk = "frame_key bw f"
  let ?frame = "ws_frame flags ?mk data" and ?head = "frame_head flags ?mk (length data)"
  have key: "key_ok ?mk" by (simp add: key_ok_def frame_key_def)
  have n: "length ?frame \<le> length data + 14" by (simp add: length_ws_frame length_len_ext frame_key_def)
  have ws: "length ?frame = length ?head + length data" by (simp add: ws_frame_def split: option.split)
  obtain w' where w: "writeFrame bw data flags (writer_init garbage Network) f =
      Inr (length ?frame, w', if wf_maskPayload f then f\<lparr>wf_rnd := snd (rng_next (wf_rnd f))\<rparr> else f)"
    "writer_toString w' = Inr ?frame"
    using writeFrame_bytes [OF assms(1-3)] assms(6) by blast
  let ?r = "(reader_init (pre @ ?frame @ post) Network)\<lparr>r_position := length pre\<rparr>"
  have "readFrame br ?r g = Inr (length data, Some (length pre + length ?head),
      ?r\<lparr>r_position := length pre + length ?frame, r_bytes := pre @ ?head @ data @ post\<rparr>, g\<lparr>wf_frameFlags := of_nat flags\<rparr>)"
    by (rule readFrame_frame [OF assms(4) key]) (use n assms(2,5) in \<open>simp_all add: reader_init_def\<close>)
  moreover have "take (length data) (drop (length pre + length ?head) (pre @ ?head @ data @ post)) = data"
    "drop (length pre + length ?frame) (pre @ ?head @ data @ post) = post"
    by (simp_all add: ws)
  ultimately show ?thesis using w n by fastforce
qed

theorem websocket_frame_roundtrip_witness:
  "\<exists>n w f' frame. writeFrame False [1, 2, 3] SendFlags_Binary (writer_init (replicate 20 0) Network) (framer_init ClientSide Random_null) =
     Inr (n, w, f') \<and> writer_toString w = Inr frame \<and> length frame = n"
proof -
  have "handshakeComplete ((framer_init ServerSide Random_null)\<lparr>wf_headerState := 2\<rparr>)" by (simp add: handshakeComplete_def)
  from websocket_frame_roundtrip [OF _ _ _ this, of SendFlags_Binary "[1, 2, 3]" "replicate 20 0" "[]" "[]" "framer_init ClientSide Random_null"]
  show ?thesis by (simp add: size_t_max_def) blast
qed

subsection \<open>The handshake\<close>

lemma computeAccept_fips:
  assumes "length garbage = 64" "length key < 2 ^ 28"
  shows "computeAccept False garbage key = string_of (encode_text (fips_sha1 (bytes_of (key @ ProtocolGuid))) LINE_LENGTH)"
proof -
  have "length (bytes_of (key @ ProtocolGuid)) < 2 ^ 29" using assms(2) by (simp add: bytes_of_def ProtocolGuid_def)
  then show ?thesis
    using SHA1_digest_fips [of "[bytes_of (key @ ProtocolGuid)]" garbage] assms(1) by (simp add: computeAccept_def Let_def)
qed

lemma encoding_not_space: "v < 64 \<Longrightarrow> \<not> isspace (char_of (unat (encode_value v)))"
proof -
  assume v: "v < 64"
  then have "unat v < 64" by (simp add: word_less_nat_alt)
  moreover have "uint v < 64" using v by (simp only: word_less_def) simp
  ultimately have u: "unat v < 64" "0 \<le> uint v" "uint v < 64" by simp_all
  have "list_all (\<lambda>c. \<not> isspace c) ''ABCDEFGHIJKLMNOPQRSTUVWXYZabcdefghijklmnopqrstuvwxyz0123456789+/''" by code_simp
  then have "list_all (\<lambda>b. \<not> isspace (char_of (unat b))) encoding"
    unfolding encoding_def list.pred_map comp_def char_byte .
  moreover have "length encoding = 64" by (simp add: encoding_list)
  ultimately have "\<not> isspace (char_of (unat (encoding ! unat v)))" using u by (simp add: list_all_length)
  moreover have "sint v = uint v"
  proof -
    have "sint v = sint (word_of_int (uint v) :: byte)" by simp
    also have "\<dots> = signed_take_bit 7 (uint v)" by (simp only: sint_sbintrunc') simp
    also have "\<dots> = uint v" by (rule signed_take_bit_int_eq_self) (use order_trans [OF _ u(2), of "- 128"] u(3) in simp_all)
    finally show ?thesis .
  qed
  then have "\<not> sint v > 63" using u(3) by simp
  ultimately show ?thesis by (simp add: encode_value_def)
qed

lemma createKey_shape:
  assumes "length rnd = 16"
  shows "createKey rnd \<noteq> []" "trim (createKey rnd) = createKey rnd" "length (createKey rnd) < 2 ^ 28"
proof -
  have len: "length (random_text rnd) = 16" using length_random_text assms by simp
  then obtain b bs where b: "random_text rnd = b # bs" by (cases "random_text rnd") auto
  let ?st = "init_encodestate\<lparr>e_linelength := LINE_LENGTH\<rparr>"
  obtain st out where e: "encode_block ?st (random_text rnd) = (st, out)" by (cases "encode_block ?st (random_text rnd)")
  have key: "createKey rnd = string_of (out @ encode_blockend st)" by (simp add: createKey_def encode_text_def e)
  have st: "e_step st = step_B" "\<not> e_nullptrlterminate st" "length out \<le> 32"
    using encode_block_length [OF e] len by (auto simp: slack_def init_encodestate_def split: encodestep.splits)
  then have blockend: "encode_blockend st = [encode_value (e_result st), 0x3D, 0x3D]" by (simp add: encode_blockend_def)
  have "drop_bit 2 (b AND 0xFC) < 64"
  proof -
    have "unat (drop_bit 2 (b AND 0xFC)) < 64"
    proof -
      have "unat (b AND 0xFC) < 2 ^ LENGTH(8)" by (rule unsigned_less)
      then have "unat (b AND 0xFC) div 4 < 64" by (intro less_mult_imp_div_less) simp
      moreover have "unat (drop_bit 2 x) = unat x div 4" for x :: byte by (simp only: unat_drop_bit_eq) (simp add: drop_bit_eq_div)
      ultimately show ?thesis by metis
    qed
    then show ?thesis by (simp add: word_less_nat_alt)
  qed
  then have first: "out \<noteq> [] \<and> \<not> isspace (char_of (unat (hd out)))"
    using e b encoding_not_space by (auto simp: encode_step_def init_encodestate_def Let_def split: prod.splits)
  have "\<not> isspace (char_of (unat (0x3D :: byte)))" by code_simp
  then have ends: "createKey rnd \<noteq> []" "\<not> isspace (hd (createKey rnd))" "\<not> isspace (last (createKey rnd))"
    using first by (simp_all add: key string_of_def blockend hd_map)
  then show "createKey rnd \<noteq> []" by simp
  show "trim (createKey rnd) = createKey rnd"
    using ends by (simp add: trim_eq trimRight_eq trimLeft_def dropWhile_keep hd_rev)
  show "length (createKey rnd) < 2 ^ 28" using st(3) by (simp add: key string_of_def blockend)
qed

lemma icompare_upgrade: "icompare ''Upgrade'' ''upgrade'' = 0" "icompare ''Upgrade'' ''Upgrade'' = 0"
  "icompare ''websocket'' ''websocket'' = 0"
  by code_simp+

text \<open>
  C6: On a little endian host a fresh client framer and a fresh server framer complete the
  handshake: the request the client makes, handed to the server as an object, is accepted, its
  response, handed back as an object, is accepted by the client, both framers are open, and
  the accept header is the Base64 text of the SHA-1 of FIPS 180-1 of the key and the GUID.
  (Printing and parsing the messages is not part of this.)
\<close>

theorem websocket_handshake_completes:
  assumes "length rnd = 16" "length g1 = 64" "length g2 = 64"
    and "wf_mode c = ClientSide" "wf_headerState c = 0" "wf_mode s = ServerSide"
  shows "\<exists>req c1 resp s1 c2. createClientHandshakeRequest rnd request c = Inr (req, c1) \<and>
    acceptServerRequest False g1 req response s = Inr (resp, s1) \<and>
    checkClientHandshakeResponse False g2 resp c1 = Inr (True, c2) \<and> handshakeComplete s1 \<and> handshakeComplete c2 \<and>
    msg_get resp ''Sec-WebSocket-Accept'' [] =
      string_of (encode_text (fips_sha1 (bytes_of (msg_get req ''Sec-WebSocket-Key'' [] @ ProtocolGuid))) LINE_LENGTH)"
proof -
  note k = createKey_shape [OF assms(1)]
  note acc = computeAccept_fips [OF assms(2) k(3)] computeAccept_fips [OF assms(3) k(3)]
  obtain req c1 where req: "createClientHandshakeRequest rnd request c = Inr (req, c1)"
    "req = msg_set ''Sec-WebSocket-Key'' (createKey rnd) (msg_set ''Sec-WebSocket-Version'' ProtocolVersion
       (msg_set ''Upgrade'' ''websocket'' (msg_set ''Connection'' ''Upgrade'' (setChunkedTransferEncoding False request))))"
    "c1 = c\<lparr>wf_key := createKey rnd, wf_headerState := 1\<rparr>"
    using assms(4,5) by (simp add: createClientHandshakeRequest_def Let_def msg_laws)
  define resp where "resp = msg_set ''Sec-WebSocket-Accept'' (computeAccept False g1 (createKey rnd))
      (msg_set ''Connection'' ''Upgrade'' (msg_set ''Upgrade'' ''websocket'' (setStatus SwitchingProtocols response)))"
  have "acceptServerRequest False g1 req response s = Inr (resp, s\<lparr>wf_headerState := 2\<rparr>)"
    using assms(6) k(1,2)
    by (simp add: acceptServerRequest_def req(2) msg_laws icompare_upgrade ProtocolVersion_def Let_def resp_def)
  moreover have "resp_status resp = SwitchingProtocols" by (simp add: resp_def msg_set_def setStatus_def)
  then have "checkClientHandshakeResponse False g2 resp c1 = Inr (True, c1\<lparr>wf_headerState := 2\<rparr>)"
    using assms(4,5) by (simp add: checkClientHandshakeResponse_def completeClientHandshake_def req(3) resp_def msg_laws
        icompare_upgrade acc)
  ultimately show ?thesis
    using req by (auto simp: handshakeComplete_def resp_def msg_laws acc)
qed

theorem websocket_handshake_completes_witness:
  "\<exists>req c1 resp s1. createClientHandshakeRequest (replicate 16 65) Request_init (framer_init ClientSide Random_null) = Inr (req, c1) \<and>
    acceptServerRequest False (replicate 64 0) req Response_init (framer_init ServerSide Random_null) = Inr (resp, s1) \<and>
    handshakeComplete s1"
  using websocket_handshake_completes [of "replicate 16 65" "replicate 64 0" "replicate 64 1" "framer_init ClientSide Random_null"
      "framer_init ServerSide Random_null" Request_init Response_init]
  by (auto simp: framer_init_def)

end
