(* ===== verification/WebSocket_Connection.thy ===== *)
theory WebSocket_Connection
  imports WebSocket_Framer
begin

text \<open>
  The connection of \<open>http/src/websocket.cpp\<close>. What an operation does to its surroundings is the list of events it
  returns: the calls of the listener, of the socket and of the HTTP connection below. An exception ends the operation
  and is returned beside the events so far. \<open>alloc n\<close> is the memory of a vector after \<open>reserve(n)\<close>; the HTTP
  parser, which is not part of the source, is an argument. Locks and the reference to the listener being null are not
  modelled.
\<close>

subsection \<open>The connection\<close>

datatype ws_event =
    Wsconnect | Wsread "byte list" | Wsclose
  | TcpSend "byte list" | TcpClose | HttpSend string

record Store =
  st_binary :: bool
  st_buff :: "byte list"
  st_frametype :: int

record WebSocketConnection =
  ws_framer :: WebSocketFramer
  ws_storeBuf :: "byte list"
  ws_queue :: "Store list"
  ws_first_frame :: int
  ws_qsize :: int
  ws_request :: Request
  ws_response :: Response

type_synonym outcome = "ws_event list \<times> WebSocketConnection \<times> exc option"

definition connection_init :: "Mode \<Rightarrow> Random \<Rightarrow> Request \<Rightarrow> Response \<Rightarrow> WebSocketConnection" where
  "connection_init mode rnd request response =
     \<lparr>ws_framer = framer_init mode rnd, ws_storeBuf = [], ws_queue = [], ws_first_frame = 1, ws_qsize = 0,
      ws_request = request, ws_response = response\<rparr>"

text \<open>Sequencing: an exception ends the whole.\<close>

definition and_then :: "outcome \<Rightarrow> (WebSocketConnection \<Rightarrow> outcome) \<Rightarrow> outcome" where
  "and_then r g = (case r of (evs, c, Some e) \<Rightarrow> (evs, c, Some e)
                   | (evs, c, None) \<Rightarrow> (case g c of (evs', c', x) \<Rightarrow> (evs @ evs', c', x)))"

subsection \<open>Sending\<close>

definition ws_send :: "bool \<Rightarrow> (nat \<Rightarrow> byte list) \<Rightarrow> byte list \<Rightarrow> bool \<Rightarrow> WebSocketConnection \<Rightarrow> outcome" where
  "ws_send big alloc data binary c =
     (if \<not> handshakeComplete (ws_framer c) then ([], c, Some Assertion_failed)
      else (let flags = (if \<not> binary then SendFlags_Text else SendFlags_Binary);
                writer = writer_init (alloc (length data + MAX_HEADER_LENGTH)) Network
            in case writeFrame big data flags writer (ws_framer c) of
                 Inl e \<Rightarrow> ([], c, Some e)
               | Inr (n, writer', f) \<Rightarrow> ([TcpSend (take n (w_bytes writer'))], c\<lparr>ws_framer := f\<rparr>, None)))"

text \<open>
  Both pass their flags where \<open>send\<close> has the parameter \<open>bool binary\<close>. \<open>stack\<close> is the array on the stack, of 256 bytes in
  \<open>shutdown\<close>.
\<close>

definition ws_pong :: "bool \<Rightarrow> (nat \<Rightarrow> byte list) \<Rightarrow> WebSocketConnection \<Rightarrow> outcome" where
  "ws_pong big alloc c = ws_send big alloc [] ((0x80 OR 0x0A :: nat) \<noteq> 0) c"

definition ws_shutdown ::
    "bool \<Rightarrow> (nat \<Rightarrow> byte list) \<Rightarrow> byte list \<Rightarrow> u16 \<Rightarrow> byte list \<Rightarrow> WebSocketConnection \<Rightarrow> outcome" where
  "ws_shutdown big alloc stack statusCode statusMessage c =
     (case res_bind (putU16 big statusCode (writer_init stack Network)) (writer_put statusMessage) of
        Inl e \<Rightarrow> ([], c, Some e)
      | Inr w \<Rightarrow> ws_send big alloc (take (w_position w) (w_bytes w)) ((0x80 OR 0x08 :: nat) \<noteq> 0) c)"

text \<open>Frame types: 1 ftyp, 2 moov, 3 first moof, 4 a frame that can be dropped.\<close>

definition ws_push :: "byte list \<Rightarrow> bool \<Rightarrow> int \<Rightarrow> WebSocketConnection \<Rightarrow> WebSocketConnection" where
  "ws_push data binary frametype c =
     (let store = \<lparr>st_binary = binary, st_buff = data, st_frametype = frametype\<rparr> in
      if frametype \<le> ws_first_frame c \<or> ws_first_frame c \<ge> 3
      then c\<lparr>ws_first_frame := (if ws_first_frame c < 6 then ws_first_frame c + 1 else ws_first_frame c),
             ws_queue := ws_queue c @ [store]\<rparr>
      else c)"

fun ws_flush :: "bool \<Rightarrow> (nat \<Rightarrow> byte list) \<Rightarrow> Store list \<Rightarrow> WebSocketConnection \<Rightarrow> outcome" where
  "ws_flush big alloc [] c = ([], c, None)"
| "ws_flush big alloc (tmp # queue) c =
     (let c1 = c\<lparr>ws_queue := queue\<rparr> in
      and_then (if st_buff tmp \<noteq> [] then ws_send big alloc (st_buff tmp) (st_binary tmp) (c1\<lparr>ws_qsize := ws_qsize c1 + 1\<rparr>)
                else ([], c1, None))
        (ws_flush big alloc queue))"

definition dummy_timer_cb :: "bool \<Rightarrow> (nat \<Rightarrow> byte list) \<Rightarrow> WebSocketConnection \<Rightarrow> outcome" where
  "dummy_timer_cb big alloc c = ws_flush big alloc (ws_queue c) c"

definition on_sent :: "bool \<Rightarrow> WebSocketConnection \<Rightarrow> WebSocketConnection" where
  "on_sent sent c = (if sent then c\<lparr>ws_qsize := ws_qsize c - 1\<rparr> else c)"

subsection \<open>Receiving\<close>

lemma readFrame_progress:
  "readFrame big r f = Inr (n, pay, r', f') \<Longrightarrow> n \<noteq> 0 \<Longrightarrow> r_position r < r_position r'"
  by (auto simp: readFrame_def Let_def res_bind_def reader_seek_def readLength_def
      split: sum.splits if_splits option.splits prod.splits)

text \<open>
  The loop over joined frames. Yields the events, the framer, what \<open>storeBuf\<close> is left with and the exception that ended
  it. \<open>offset\<close> of the source is the position of the reader at the head of the loop.
\<close>

function recv_loop ::
    "bool \<Rightarrow> nat \<Rightarrow> BitReader \<Rightarrow> WebSocketFramer \<Rightarrow> ws_event list \<times> WebSocketFramer \<times> byte list \<times> exc option" where
  "recv_loop big all reader f =
     (if r_position reader < all
      then (case readFrame big reader f of
              Inl e \<Rightarrow> ([], f, [], Some e)
            | Inr (payloadLength, payload, reader', f') \<Rightarrow>
                if payloadLength \<noteq> 0
                then (case recv_loop big all reader' f' of
                        (evs, f'', rest, x) \<Rightarrow>
                          (Wsread (take payloadLength (drop (the payload) (r_bytes reader'))) # evs, f'', rest, x))
                else ([], f', drop (r_position reader) (r_bytes reader'), None))
      else ([], f, [], None))"
  by pat_completeness auto
termination
  by (relation "measure (\<lambda>(big, all, reader, f). all - r_position reader)") (auto intro!: diff_less_mono2 dest: readFrame_progress)

declare recv_loop.simps [simp del]

text \<open>\<open>onSocketRecv\<close> once the handshake is complete.\<close>

definition recv_open :: "bool \<Rightarrow> (nat \<Rightarrow> byte list) \<Rightarrow> byte list \<Rightarrow> WebSocketConnection \<Rightarrow> outcome" where
  "recv_open big alloc buffer c =
     (if length buffer < 3 then ([], c\<lparr>ws_storeBuf := ws_storeBuf c @ buffer\<rparr>, None)
      else (let buffer' = ws_storeBuf c @ buffer; c1 = c\<lparr>ws_storeBuf := []\<rparr>; msg_opcode = hd buffer' AND 0x0F in
        if msg_opcode = 0x8 then ([Wsclose, TcpClose], c1, None)
        else if msg_opcode = 0x9 then ws_pong big alloc c1
        else (let reader = reader_init buffer' Network in
          case recv_loop big (reader_available reader) reader (ws_framer c1) of
            (evs, f, rest, x) \<Rightarrow> (evs, c1\<lparr>ws_framer := f, ws_storeBuf := rest\<rparr>, x))))"

definition onHandshakeComplete :: "WebSocketConnection \<Rightarrow> outcome" where
  "onHandshakeComplete c = ([Wsconnect], c, None)"

text \<open>
  \<open>parse\<close> is the HTTP parser: how many bytes it consumed and the message it filled. A failed assertion is no exception:
  the handler does not catch it.
\<close>

definition handleServerRequest ::
    "bool \<Rightarrow> byte list \<Rightarrow> (string \<Rightarrow> Request \<Rightarrow> nat \<times> Request) \<Rightarrow> byte list \<Rightarrow> WebSocketConnection \<Rightarrow> outcome" where
  "handleServerRequest big garbage parse buffer c =
     (case parse (string_of buffer) (ws_request c) of (n, request) \<Rightarrow>
        let c1 = c\<lparr>ws_request := request\<rparr> in
        if n = 0 then ([], c1, Some (Runtime_error ''WebSocket error: Cannot parse request: Incomplete HTTP message''))
        else (case acceptServerRequest big garbage request (ws_response c) (ws_framer c) of
                Inl Assertion_failed \<Rightarrow> ([], c1, Some Assertion_failed)
              | Inl e \<Rightarrow> ([HttpSend (Response_write (ws_response c))], c1, None)
              | Inr (response, f) \<Rightarrow> ([HttpSend (Response_write response)], c1\<lparr>ws_response := response, ws_framer := f\<rparr>, None)))"

text \<open>
  When the check returns the handshake is complete, so the bytes left over are received by \<open>recv_open\<close>.
\<close>

definition handleClientResponse ::
    "bool \<Rightarrow> (nat \<Rightarrow> byte list) \<Rightarrow> byte list \<Rightarrow> (string \<Rightarrow> Response \<Rightarrow> nat \<times> Response) \<Rightarrow> byte list \<Rightarrow>
     WebSocketConnection \<Rightarrow> outcome" where
  "handleClientResponse big alloc garbage parse buffer c =
     (case parse (string_of buffer) (ws_response c) of (nparsed, response) \<Rightarrow>
        let c1 = c\<lparr>ws_response := response\<rparr> in
        if nparsed = 0 then ([], c1, Some (Runtime_error ''WebSocket error: Cannot parse response: Incomplete HTTP message''))
        else (case checkClientHandshakeResponse big garbage response (ws_framer c) of
                Inl e \<Rightarrow> ([], c1, Some e)
              | Inr (ok, f) \<Rightarrow>
                  and_then (if ok then onHandshakeComplete (c1\<lparr>ws_framer := f\<rparr>) else ([], c1\<lparr>ws_framer := f\<rparr>, None))
                    (\<lambda>c2. if length buffer - nparsed \<noteq> 0 then recv_open big alloc (drop nparsed buffer) c2 else ([], c2, None))))"

text \<open>The \<open>catch\<close> around the handshake: a failed assertion and undefined behaviour pass it.\<close>

definition catch_std :: "outcome \<Rightarrow> outcome" where
  "catch_std r = (case r of (evs, c, x) \<Rightarrow>
     (evs, c, if x = Some Assertion_failed \<or> x = Some Undefined_behaviour then x else None))"

definition onSocketRecv ::
    "bool \<Rightarrow> (nat \<Rightarrow> byte list) \<Rightarrow> byte list \<Rightarrow> (string \<Rightarrow> Request \<Rightarrow> nat \<times> Request) \<Rightarrow>
     (string \<Rightarrow> Response \<Rightarrow> nat \<times> Response) \<Rightarrow> byte list \<Rightarrow> WebSocketConnection \<Rightarrow> outcome" where
  "onSocketRecv big alloc garbage parse_request parse_response buffer c =
     (if handshakeComplete (ws_framer c) then recv_open big alloc buffer c
      else catch_std (if wf_mode (ws_framer c) = ClientSide
                      then handleClientResponse big alloc garbage parse_response buffer c
                      else handleServerRequest big garbage parse_request buffer c))"

subsection \<open>Opening and closing\<close>

definition sendClientRequest :: "byte list \<Rightarrow> WebSocketConnection \<Rightarrow> outcome" where
  "sendClientRequest rnd c =
     (case createClientHandshakeRequest rnd (ws_request c) (ws_framer c) of
        Inl e \<Rightarrow> ([], c, Some e)
      | Inr (request, f) \<Rightarrow>
          (let c1 = c\<lparr>ws_request := request, ws_framer := f\<rparr> in
           case Request_write request of Inl e \<Rightarrow> ([], c1, Some e) | Inr s \<Rightarrow> ([TcpSend (bytes_of s)], c1, None)))"

definition onSocketConnect :: "byte list \<Rightarrow> WebSocketConnection \<Rightarrow> outcome" where
  "onSocketConnect rnd c = sendClientRequest rnd c"

text \<open>\<open>clear\<close> empties the headers; it leaves the method, the address and the status as they are.\<close>

definition ws_onClose :: "WebSocketConnection \<Rightarrow> outcome" where
  "ws_onClose c =
     ([Wsclose],
      c\<lparr>ws_request := (ws_request c)\<lparr>msg_headers := []\<rparr>, ws_response := (ws_response c)\<lparr>msg_headers := []\<rparr>,
        ws_framer := (ws_framer c)\<lparr>wf_headerState := 0, wf_frameFlags := 0\<rparr>\<rparr>, None)"

subsection \<open>Joined and divided frames\<close>

definition frame_of :: "nat \<times> byte list option \<times> byte list \<Rightarrow> byte list" where
  "frame_of m = (case m of (flags, mk, data) \<Rightarrow> ws_frame flags mk data)"

definition payload_of :: "nat \<times> byte list option \<times> byte list \<Rightarrow> byte list" where
  "payload_of m = snd (snd m)"

definition message_ok :: "nat \<times> byte list option \<times> byte list \<Rightarrow> bool" where
  "message_ok m = (case m of (flags, mk, data) \<Rightarrow>
     (flags = SendFlags_Text \<or> flags = SendFlags_Binary) \<and> key_ok mk \<and> data \<noteq> [] \<and> length data < size_t_max)"

lemma message_simps [simp]:
  "frame_of (flags, mk, data) = ws_frame flags mk data" "payload_of (flags, mk, data) = data"
  "message_ok (flags, mk, data) =
     ((flags = SendFlags_Text \<or> flags = SendFlags_Binary) \<and> key_ok mk \<and> data \<noteq> [] \<and> length data < size_t_max)"
  by (simp_all add: frame_of_def payload_of_def message_ok_def)

text \<open>Nothing, or at least the first two bytes of an unmasked frame, and not all of it.\<close>

definition part_of_frame :: "byte list \<Rightarrow> bool" where
  "part_of_frame p = (p = [] \<or> 2 \<le> length p \<and> (\<exists>q flags data. message_ok (flags, None, data) \<and> q \<noteq> [] \<and> p @ q = ws_frame flags None data))"

lemma recv_loop_frames:
  assumes "list_all message_ok ms" "part_of_frame p" "handshakeComplete f"
    and "r_bytes r = pre @ concat (map frame_of ms) @ p" "r_position r = length pre" "r_limit r = length (r_bytes r)"
      "r_limit r < size_t_max"
  shows "\<exists>x. recv_loop big (r_limit r) r f = (map (Wsread \<circ> payload_of) ms, f\<lparr>wf_frameFlags := x\<rparr>, p, None)"
  using assms
proof (induction ms arbitrary: r f pre)
  case Nil
  show ?case
  proof (cases "p = []")
    case True
    then show ?thesis using Nil.prems by (intro exI [of _ "wf_frameFlags f"]) (simp add: recv_loop.simps)
  next
    case False
    then obtain q flags data where p: "2 \<le> length p" "message_ok (flags, None, data)" "q \<noteq> []" "p @ q = ws_frame flags None data"
      using Nil.prems(2) by (auto simp: part_of_frame_def)
    have bytes: "r_bytes r = pre @ p" using Nil.prems(4) by simp
    have "length data < size_t_max" using p(2) by simp
    from readFrame_partial [OF Nil.prems(3) bytes Nil.prems(5-7) p(4,3,1) this, of big]
    obtain pay r' f' where rd: "readFrame big r f = Inr (0, pay, r', f')" "r_bytes r' = r_bytes r"
      "f' \<in> {f, f\<lparr>wf_frameFlags := of_nat flags\<rparr>}" by blast
    have "r_position r < r_limit r" using Nil.prems(5,6) bytes p(1) by (cases p) auto
    then have run: "recv_loop big (r_limit r) r f = ([], f', p, None)"
      by (subst recv_loop.simps) (simp add: rd bytes Nil.prems(5))
    have "f' = f\<lparr>wf_frameFlags := (if f' = f then wf_frameFlags f else of_nat flags)\<rparr>" using rd(3) by auto
    then show ?thesis using run by (metis list.simps(8))
  qed
next
  case (Cons m ms)
  obtain flags mk data where m: "m = (flags, mk, data)" by (cases m)
  have "message_ok (flags, mk, data)" and rest: "list_all message_ok ms" using Cons.prems(1) by (simp_all add: m)
  then have ok: "key_ok mk" "data \<noteq> []" by simp_all
  have bytes: "r_bytes r = pre @ ws_frame flags mk data @ (concat (map frame_of ms) @ p)"
    using Cons.prems(4) by (simp add: m)
  let ?head = "frame_head flags mk (length data)"
  let ?r' = "r\<lparr>r_position := length pre + length (ws_frame flags mk data),
      r_bytes := pre @ ?head @ data @ concat (map frame_of ms) @ p\<rparr>" and ?f' = "f\<lparr>wf_frameFlags := of_nat flags\<rparr>"
  have ws: "length (ws_frame flags mk data) = length ?head + length data" by (simp add: ws_frame_def split: option.split)
  have rd: "readFrame big r f = Inr (length data, Some (length pre + length ?head), ?r', ?f')"
    by (rule readFrame_frame [OF Cons.prems(3) ok(1) bytes Cons.prems(5-7)])
  have pos: "r_position r < r_limit r" using Cons.prems(5,6) bytes ok(2) ws by simp
  have "\<exists>x. recv_loop big (r_limit ?r') ?r' ?f' = (map (Wsread \<circ> payload_of) ms, ?f'\<lparr>wf_frameFlags := x\<rparr>, p, None)"
    by (rule Cons.IH [OF rest Cons.prems(2), where pre = "pre @ ?head @ data"])
      (use Cons.prems(3,6,7) bytes ws in \<open>simp_all add: handshakeComplete_def\<close>)
  then obtain x where ih: "recv_loop big (r_limit r) ?r' ?f' = (map (Wsread \<circ> payload_of) ms, f\<lparr>wf_frameFlags := x\<rparr>, p, None)"
    by auto
  have "take (length data) (drop (length pre + length ?head) (r_bytes ?r')) = data" by simp
  then show ?case
    using pos ok(2) by (intro exI [of _ x], subst recv_loop.simps) (simp add: rd ih m)
qed

lemma first_byte:
  assumes "list_all message_ok ms" "part_of_frame p" "concat (map frame_of ms) @ p \<noteq> []"
  shows "hd (concat (map frame_of ms) @ p) AND 0x0F \<in> {1, 2}"
proof -
  have fl: "(of_nat flags :: byte) AND 0x0F \<in> {1, 2}" if "flags = SendFlags_Text \<or> flags = SendFlags_Binary" for flags
    using that by (auto simp: SendFlags_Text_def SendFlags_Binary_def)
  have hd_frame: "ws_frame flags mk data = of_nat flags # tl (ws_frame flags mk data)" for flags mk data
    by (simp add: ws_frame_def frame_head_def)
  show ?thesis
  proof (cases ms)
    case Nil
    then obtain q flags data where p: "message_ok (flags, None, data)" "p \<noteq> []" "p @ q = ws_frame flags None data"
      using assms(2,3) by (auto simp: part_of_frame_def)
    have "hd p = hd (p @ q)" using p(2) by simp
    also have "\<dots> = of_nat flags" unfolding p(3) by (subst hd_frame) simp
    finally show ?thesis using fl [of flags] p(1) Nil by simp
  next
    case (Cons m ms')
    obtain flags mk data where m: "m = (flags, mk, data)" by (cases m)
    have "message_ok (flags, mk, data)" using assms(1) Cons m by simp
    moreover have "hd (concat (map frame_of ms) @ p) = of_nat flags"
      unfolding Cons m by (simp, subst hd_frame) simp
    ultimately show ?thesis using fl [of flags] by simp
  qed
qed

lemma recv_open_messages:
  assumes "list_all message_ok ms" "part_of_frame p" "handshakeComplete (ws_framer c)"
    and "ws_storeBuf c @ buffer = concat (map frame_of ms) @ p" "3 \<le> length buffer"
      "length (ws_storeBuf c @ buffer) < size_t_max"
  shows "\<exists>x. recv_open big alloc buffer c = (map (Wsread \<circ> payload_of) ms,
      c\<lparr>ws_framer := (ws_framer c)\<lparr>wf_frameFlags := x\<rparr>, ws_storeBuf := p\<rparr>, None)"
proof -
  let ?b = "concat (map frame_of ms) @ p" and ?r = "reader_init (concat (map frame_of ms) @ p) Network"
  have small: "length ?b < size_t_max" using assms(4,6) by metis
  have ne: "?b \<noteq> []" using assms(4,5) by (metis append_is_Nil_conv list.size(3) not_numeral_le_zero)
  have op: "hd ?b AND 0x0F \<in> {1, 2}" by (rule first_byte [OF assms(1,2) ne])
  have av: "reader_available ?r = r_limit ?r" by (simp add: reader_available_def reader_init_def size_sub_def)
  obtain x where "recv_loop big (r_limit ?r) ?r (ws_framer c) = (map (Wsread \<circ> payload_of) ms, (ws_framer c)\<lparr>wf_frameFlags := x\<rparr>, p, None)"
    using recv_loop_frames [OF assms(1,2,3), of ?r "[]" big] small by (auto simp: reader_init_def)
  then show ?thesis
    using assms(5) op by (intro exI [of _ x]) (auto simp: recv_open_def assms(4) Let_def av)
qed

subsection \<open>A stream cut into reads\<close>

text \<open>The reads of a connection, in order.\<close>

primrec recv_all :: "bool \<Rightarrow> (nat \<Rightarrow> byte list) \<Rightarrow> byte list list \<Rightarrow> WebSocketConnection \<Rightarrow> outcome" where
  "recv_all big alloc [] c = ([], c, None)"
| "recv_all big alloc (b # bs) c = and_then (recv_open big alloc b c) (recv_all big alloc bs)"

text \<open>How far position \<open>n\<close> lies behind the last boundary of segments of the given lengths.\<close>

fun leftover :: "nat list \<Rightarrow> nat \<Rightarrow> nat" where
  "leftover [] n = n"
| "leftover (l # ls) n = (if l \<le> n then leftover ls (n - l) else n)"

lemma leftover_append: "leftover (ls @ ls') (sum_list ls + n) = leftover ls' n"
  by (induction ls) simp_all

lemma split_messages:
  assumes "xs @ ys = concat (map frame_of ms)"
  shows "\<exists>ms1 ms2 p. ms = ms1 @ ms2 \<and> xs = concat (map frame_of ms1) @ p \<and> p @ ys = concat (map frame_of ms2) \<and>
    length p = leftover (map (\<lambda>m. length (frame_of m)) ms) (length xs) \<and> (p \<noteq> [] \<longrightarrow> ms2 \<noteq> [] \<and> (\<exists>q. q \<noteq> [] \<and> p @ q = frame_of (hd ms2)))"
  using assms
proof (induction ms arbitrary: xs)
  case Nil
  then show ?case by (intro exI [of _ "[]"]) simp
next
  case (Cons m ms)
  show ?case
  proof (cases "length (frame_of m) \<le> length xs")
    case True
    define xs' where "xs' = drop (length (frame_of m)) xs"
    have eq: "xs @ ys = frame_of m @ concat (map frame_of ms)" using Cons.prems by simp
    have "take (length (frame_of m)) (xs @ ys) = frame_of m" unfolding eq by simp
    then have xs: "xs = frame_of m @ xs'" using True append_take_drop_id [of "length (frame_of m)" xs] by (simp add: xs'_def)
    then have "xs' @ ys = concat (map frame_of ms)" using eq by simp
    from Cons.IH [OF this] obtain ms1 ms2 p where ih: "ms = ms1 @ ms2" "xs' = concat (map frame_of ms1) @ p"
      "p @ ys = concat (map frame_of ms2)" "length p = leftover (map (\<lambda>m. length (frame_of m)) ms) (length xs')"
      "p \<noteq> [] \<longrightarrow> ms2 \<noteq> [] \<and> (\<exists>q. q \<noteq> [] \<and> p @ q = frame_of (hd ms2))" by blast
    have "length p = leftover (map (\<lambda>m. length (frame_of m)) (m # ms)) (length xs)" using ih(4) xs by simp
    moreover have "m # ms = (m # ms1) @ ms2" "xs = concat (map frame_of (m # ms1)) @ p" using ih(1,2) xs by simp_all
    ultimately show ?thesis using ih(3,5) by blast
  next
    case False
    have eq: "xs @ ys = frame_of m @ concat (map frame_of ms)" using Cons.prems by simp
    have "xs @ drop (length xs) (frame_of m) = frame_of m"
    proof -
      have "take (length xs) (frame_of m @ concat (map frame_of ms)) = xs" by (simp flip: eq)
      then have "take (length xs) (frame_of m) = xs" using False by simp
      then show ?thesis using append_take_drop_id [of "length xs" "frame_of m"] by simp
    qed
    then have "\<exists>q. q \<noteq> [] \<and> xs @ q = frame_of m" using False by (intro exI [of _ "drop (length xs) (frame_of m)"]) auto
    then show ?thesis using False eq
      by (intro exI [of _ "[]"] exI [of _ "m # ms"] exI [of _ xs]) auto
  qed
qed

definition unmasked :: "nat \<times> byte list option \<times> byte list \<Rightarrow> bool" where
  "unmasked m = (fst (snd m) = None)"

lemma recv_all_stream:
  assumes "list_all message_ok ms" "list_all unmasked ms" "\<forall>b\<in>set chunks. 3 \<le> length b"
    and "\<forall>k\<in>{1..length chunks}. leftover (map (\<lambda>m. length (frame_of m)) ms) (length (ws_storeBuf c) + length (concat (take k chunks))) \<noteq> 1"
    and "ws_storeBuf c @ concat chunks = concat (map frame_of ms)" "length (concat (map frame_of ms)) < size_t_max"
      "handshakeComplete (ws_framer c)" "chunks \<noteq> []"
  shows "\<exists>c'. recv_all big alloc chunks c = (map (Wsread \<circ> payload_of) ms, c', None) \<and> ws_storeBuf c' = [] \<and>
    handshakeComplete (ws_framer c')"
  using assms
proof (induction chunks arbitrary: c ms)
  case (Cons b bs)
  let ?lens = "\<lambda>ms. map (\<lambda>m. length (frame_of m)) ms"
  have "(ws_storeBuf c @ b) @ concat bs = concat (map frame_of ms)" using Cons.prems(5) by simp
  from split_messages [OF this] obtain ms1 ms2 p where sp: "ms = ms1 @ ms2" "ws_storeBuf c @ b = concat (map frame_of ms1) @ p"
    "p @ concat bs = concat (map frame_of ms2)" "length p = leftover (?lens ms) (length (ws_storeBuf c @ b))"
    "p \<noteq> [] \<longrightarrow> ms2 \<noteq> [] \<and> (\<exists>q. q \<noteq> [] \<and> p @ q = frame_of (hd ms2))" by blast
  have "length p \<noteq> 1" using Cons.prems(4)[THEN bspec, of 1] sp(4) by simp
  then have part: "part_of_frame p"
  proof (cases "p = []")
    case False
    then obtain q where q: "q \<noteq> []" "p @ q = frame_of (hd ms2)" "ms2 \<noteq> []" using sp(5) by blast
    define m where "m = hd ms2"
    have m: "m \<in> set ms" "q \<noteq> []" "p @ q = frame_of m" using q sp(1) by (simp_all add: m_def)
    obtain flags mk data where "m = (flags, mk, data)" by (cases m)
    moreover have "message_ok m" "unmasked m" using m(1) Cons.prems(1,2) by (auto simp: list_all_iff)
    moreover have "2 \<le> length p" using False \<open>length p \<noteq> 1\<close> by (cases p; cases "tl p") auto
    ultimately show ?thesis using m by (auto simp: part_of_frame_def unmasked_def)
  qed (simp add: part_of_frame_def)
  have len: "length (ws_storeBuf c @ b) < size_t_max"
    using Cons.prems(5,6) by (metis append.assoc concat.simps(2) length_append add_lessD1)
  obtain x where step: "recv_open big alloc b c = (map (Wsread \<circ> payload_of) ms1,
      c\<lparr>ws_framer := (ws_framer c)\<lparr>wf_frameFlags := x\<rparr>, ws_storeBuf := p\<rparr>, None)"
    using recv_open_messages [OF _ part Cons.prems(7) sp(2) _ len, of big alloc] Cons.prems(1,3) sp(1) by auto
  let ?c = "c\<lparr>ws_framer := (ws_framer c)\<lparr>wf_frameFlags := x\<rparr>, ws_storeBuf := p\<rparr>"
  show ?case
  proof (cases "bs = []")
    case True
    have "ms2 = [] \<and> p = []"
    proof (cases ms2)
      case Nil
      then show ?thesis using sp(3) by simp
    next
      case (Cons m ms')
      have p: "p = frame_of m @ concat (map frame_of ms')" using sp(3) True Cons by simp
      moreover have "frame_of m \<noteq> []" by (cases m) (simp add: ws_frame_def frame_head_def)
      ultimately obtain q where "q \<noteq> []" "p @ q = frame_of m" using sp(5) Cons by auto
      then have "length p < length (frame_of m)" by (metis length_append length_greater_0_conv less_add_same_cancel1)
      then show ?thesis using p by simp
    qed
    then show ?thesis using step sp(1) True Cons.prems(7) by (simp add: and_then_def handshakeComplete_def)
  next
    case False
    have cut: "leftover (?lens ms) (length (ws_storeBuf c @ b) + n) = leftover (?lens ms2) (length p + n)" for n
    proof -
      have "length (ws_storeBuf c @ b) + n = sum_list (?lens ms1) + (length p + n)"
        unfolding sp(2) by (simp add: length_concat comp_def)
      then show ?thesis unfolding sp(1) by (simp add: leftover_append add.assoc)
    qed
    have "\<forall>k\<in>{1..length bs}. leftover (?lens ms2) (length (ws_storeBuf ?c) + length (concat (take k bs))) \<noteq> 1"
    proof
      fix k assume "k \<in> {1..length bs}"
      then have "leftover (?lens ms) (length (ws_storeBuf c) + length (concat (take (Suc k) (b # bs)))) \<noteq> 1"
        using Cons.prems(4) by (metis Suc_le_mono atLeastAtMost_iff length_Cons le_add1 plus_1_eq_Suc)
      then show "leftover (?lens ms2) (length (ws_storeBuf ?c) + length (concat (take k bs))) \<noteq> 1"
        using cut [of "length (concat (take k bs))"] by (simp add: add.assoc)
    qed
    then have "\<exists>c'. recv_all big alloc bs ?c = (map (Wsread \<circ> payload_of) ms2, c', None) \<and> ws_storeBuf c' = [] \<and>
        handshakeComplete (ws_framer c')"
      using Cons.prems sp(1,3) False by (intro Cons.IH) (auto simp: handshakeComplete_def)
    then show ?thesis using step sp(1) by (auto simp: and_then_def)
  qed
qed simp

text \<open>
  C2: A stream of joined unmasked data frames, cut anywhere into reads of at least three bytes
  that never leave a single byte behind a frame boundary, is delivered to the listener as
  exactly the payloads of the frames, in order and once each, and nothing stays in the store.
\<close>

theorem websocket_stream_reassembled:
  assumes "list_all message_ok ms" "list_all unmasked ms" "concat chunks = concat (map frame_of ms)"
    and "\<forall>b\<in>set chunks. 3 \<le> length b" "length (concat chunks) < size_t_max"
    and "\<forall>k\<in>{1..length chunks}. leftover (map (\<lambda>m. length (frame_of m)) ms) (length (concat (take k chunks))) \<noteq> 1"
    and "handshakeComplete (ws_framer c)" "ws_storeBuf c = []"
  shows "\<exists>c'. recv_all big alloc chunks c = (map (Wsread \<circ> payload_of) ms, c', None) \<and> ws_storeBuf c' = []"
proof (cases "chunks = []")
  case True
  have "frame_of m \<noteq> []" for m by (cases m) (simp add: ws_frame_def frame_head_def)
  then have "ms = []" using True assms(3) by (cases ms) auto
  then show ?thesis using True assms(8) by simp
next
  case False
  have "length (concat (map frame_of ms)) < size_t_max" using assms(3,5) by metis
  then show ?thesis
    using recv_all_stream [OF assms(1,2,4), of c big alloc] assms(3,6-8) False by auto
qed

definition open_connection :: "Mode \<Rightarrow> WebSocketConnection" where
  "open_connection mode =
     (connection_init mode Random_null Request_init Response_init)\<lparr>ws_framer := (framer_init mode Random_null)\<lparr>wf_headerState := 2\<rparr>\<rparr>"

lemma open_connection_simps [simp]:
  "handshakeComplete (ws_framer (open_connection mode))" "ws_storeBuf (open_connection mode) = []"
  by (simp_all add: open_connection_def handshakeComplete_def connection_init_def)

theorem websocket_stream_reassembled_witness:
  "\<exists>c'. recv_all False (\<lambda>n. replicate n 0) [[0x82, 4, 1, 2], [3, 4, 0x81, 1, 0x41]] (open_connection ServerSide)
    = ([Wsread [1, 2, 3, 4], Wsread [0x41]], c', None)"
proof -
  let ?ms = "[(SendFlags_Binary, None, [1, 2, 3, 4]), (SendFlags_Text, None, [0x41])]"
  let ?chunks = "[[0x82, 4, 1, 2 :: byte], [3, 4, 0x81, 1, 0x41]]"
  have f: "map frame_of ?ms = [[0x82, 4, 1, 2, 3, 4], [0x81, 1, 0x41]]"
    by (simp add: ws_frame_def frame_head_def len_code_def len_ext_def SendFlags_Binary_def SendFlags_Text_def)
  have l: "map (\<lambda>m. length (frame_of m)) ?ms = [6, 3]"
    by (simp add: ws_frame_def frame_head_def len_ext_def)
  have k: "{1..length ?chunks} = {1, Suc 1}" by auto
  have ms: "list_all message_ok ?ms" "list_all unmasked ?ms" by (simp_all add: key_ok_def size_t_max_def unmasked_def)
  have cut: "\<forall>k\<in>{1..length ?chunks}. leftover (map (\<lambda>m. length (frame_of m)) ?ms) (length (concat (take k ?chunks))) \<noteq> 1"
    unfolding k l by simp
  have "concat ?chunks = concat (map frame_of ?ms)" unfolding f by simp
  from websocket_stream_reassembled [OF ms this _ _ cut, of "open_connection ServerSide" False "\<lambda>n. replicate n 0"]
  show ?thesis by (auto simp: size_t_max_def comp_def)
qed

subsection \<open>From sender to receiver\<close>

text \<open>\<open>reserve(n)\<close> gives at least \<open>n\<close> bytes, and no more than the machine has.\<close>

definition alloc_ok :: "(nat \<Rightarrow> byte list) \<Rightarrow> bool" where
  "alloc_ok alloc = (\<forall>n. n \<le> length (alloc n) \<and> (n < 2 ^ 62 \<longrightarrow> length (alloc n) < 2 ^ 63))"

definition next_framer :: "WebSocketFramer \<Rightarrow> WebSocketFramer" where
  "next_framer f = (if wf_maskPayload f then f\<lparr>wf_rnd := snd (rng_next (wf_rnd f))\<rparr> else f)"

lemma ws_send_frame:
  assumes "alloc_ok alloc" "length data < 2 ^ 61" "handshakeComplete (ws_framer c)"
    and "wf_maskPayload (ws_framer c) \<longrightarrow> length data < 2 ^ 32"
  shows "ws_send big alloc data binary c =
    ([TcpSend (ws_frame (if binary then SendFlags_Binary else SendFlags_Text) (frame_key big (ws_framer c)) data)],
     c\<lparr>ws_framer := next_framer (ws_framer c)\<rparr>, None)"
proof -
  let ?fl = "if binary then SendFlags_Binary else SendFlags_Text" and ?g = "alloc (length data + MAX_HEADER_LENGTH)"
  have g: "length data + 14 \<le> length ?g" "length ?g < size_t_max"
    using assms(1,2) unfolding alloc_ok_def MAX_HEADER_LENGTH_def
    by (auto simp: size_t_max_def dest: spec [of _ "length data + 14"])
  have fl: "?fl = SendFlags_Text \<or> ?fl = SendFlags_Binary" by simp
  obtain w' where w: "writeFrame big data ?fl (writer_init ?g Network) (ws_framer c) =
      Inr (length (ws_frame ?fl (frame_key big (ws_framer c)) data), w', next_framer (ws_framer c))"
    "w_position w' = length (ws_frame ?fl (frame_key big (ws_framer c)) data)"
    "writer_toString w' = Inr (ws_frame ?fl (frame_key big (ws_framer c)) data)"
    using writeFrame_bytes [OF fl g, of "ws_framer c" big] assms(4) unfolding next_framer_def by auto
  have "take (w_position w') (w_bytes w') = ws_frame ?fl (frame_key big (ws_framer c)) data"
    using w(3) by (simp add: writer_toString_def memory_def split: if_splits)
  then show ?thesis using assms(3) w(1,2) by (cases binary) (simp_all add: ws_send_def Let_def)
qed

lemma key_ok_frame_key: "key_ok (frame_key big f)"
  by (simp add: key_ok_def frame_key_def)

text \<open>
  C3: What one side sends (masked when it is the client, the key and the byte order of the
  host arbitrary) the other side, when the frame arrives in one read, hands to its listener
  unchanged, and both sides stay open, when the receiver has nothing stored. The data are not
  empty, unmasked below 2^61 bytes and masked below 4 GiB, where the 32 bit counter of the
  masking loop ends.
\<close>

theorem websocket_end_to_end:
  assumes "alloc_ok alloc" "data \<noteq> []" "length data < 2 ^ 61" "wf_maskPayload (ws_framer a) \<longrightarrow> length data < 2 ^ 32"
    and "handshakeComplete (ws_framer a)" "handshakeComplete (ws_framer b)" "ws_storeBuf b = []"
  shows "\<exists>bytes a' b'. ws_send big_a alloc data binary a = ([TcpSend bytes], a', None) \<and>
    recv_open big_b alloc bytes b = ([Wsread data], b', None) \<and> ws_storeBuf b' = [] \<and>
    handshakeComplete (ws_framer a') \<and> handshakeComplete (ws_framer b')"
proof -
  let ?m = "(if binary then SendFlags_Binary else SendFlags_Text, frame_key big_a (ws_framer a), data)"
  have ok: "list_all message_ok [?m]" using assms(2,3) key_ok_frame_key by (simp add: size_t_max_def)
  have len: "length (frame_of ?m) \<le> length data + 14" "3 \<le> length (frame_of ?m)"
    using assms(2) by (auto simp: length_ws_frame length_len_ext frame_key_def Suc_le_eq)
  obtain x where "recv_open big_b alloc (frame_of ?m) b = ([Wsread data],
      b\<lparr>ws_framer := (ws_framer b)\<lparr>wf_frameFlags := x\<rparr>, ws_storeBuf := []\<rparr>, None)"
    using recv_open_messages [OF ok, of "[]" b "frame_of ?m" big_b alloc] assms(3,6,7) len
    by (auto simp: part_of_frame_def size_t_max_def)
  then show ?thesis
    using ws_send_frame [OF assms(1,3,5,4), of big_a binary] assms(5,6)
    by (auto simp: handshakeComplete_def next_framer_def)
qed

theorem websocket_end_to_end_witness:
  "\<exists>bytes a' b'. ws_send False (\<lambda>n. replicate n 0) [7] True (open_connection ClientSide) = ([TcpSend bytes], a', None) \<and>
    recv_open True (\<lambda>n. replicate n 0) bytes (open_connection ServerSide) = ([Wsread [7]], b', None)"
proof -
  have "alloc_ok (\<lambda>n. replicate n 0)" by (auto simp: alloc_ok_def)
  from websocket_end_to_end [OF this, of "[7]" "open_connection ClientSide" "open_connection ServerSide" False True True]
  show ?thesis by auto
qed

lemma ws_send_empty_frame: "ws_frame SendFlags_Binary None [] = [0x82, 0]"
  by (simp add: ws_frame_def frame_head_def len_code_def len_ext_def SendFlags_Binary_def)

text \<open>
  A server answers a ping by an empty binary data frame (0x82 0x00), not by a pong: pong
  passes its flags where send expects a bool.
\<close>

theorem websocket_ping_answered_by_data:
  assumes "alloc_ok alloc" "handshakeComplete (ws_framer c)" "\<not> wf_maskPayload (ws_framer c)"
    and "3 \<le> length buffer" "hd (ws_storeBuf c @ buffer) AND 0x0F = 9"
  shows "recv_open big alloc buffer c = ([TcpSend [0x82, 0]], c\<lparr>ws_storeBuf := []\<rparr>, None)"
proof -
  have key: "frame_key big (ws_framer c) = None" "next_framer (ws_framer c) = ws_framer c"
    using assms(3) by (simp_all add: frame_key_def next_framer_def)
  have "ws_pong big alloc (c\<lparr>ws_storeBuf := []\<rparr>) = ([TcpSend [0x82, 0]], c\<lparr>ws_storeBuf := []\<rparr>, None)"
    unfolding ws_pong_def using assms(1,2) by (subst ws_send_frame) (simp_all add: key ws_send_empty_frame)
  then show ?thesis using assms(4,5) by (simp add: recv_open_def Let_def)
qed

theorem websocket_ping_answered_by_data_witness:
  "fst (recv_open False (\<lambda>n. replicate n 0) [0x89, 1, 0] (open_connection ServerSide)) = [TcpSend [0x82, 0]]"
proof -
  have "alloc_ok (\<lambda>n. replicate n 0)" by (auto simp: alloc_ok_def)
  from websocket_ping_answered_by_data [OF this, of "open_connection ServerSide" "[0x89, 1, 0]" False]
  show ?thesis by (simp add: open_connection_def connection_init_def framer_init_def handshakeComplete_def)
qed

end
