(* ===== verification/WebSocket_Protocol.thy ===== *)
theory WebSocket_Protocol
  imports WebSocket_Connection
begin

text \<open>
  What holds along every history of a WebSocket connection of \<open>http/src/websocket.cpp\<close>: its callbacks as an inductive
  step relation, the invariant of the handshake state, the order of its events, and the queue between \<open>push\<close> and the
  timer.
\<close>

subsection \<open>The queue\<close>

text \<open>
  What the gate of \<open>push\<close> lets pass: the stream must begin with the file type box (1), then a frame of at most type 2,
  and from then on everything is sent.
\<close>

definition gated :: "Store list \<Rightarrow> Store list" where
  "gated ss = (case dropWhile (\<lambda>s. 1 < st_frametype s) ss of [] \<Rightarrow> []
               | s # ss' \<Rightarrow> s # dropWhile (\<lambda>s. 2 < st_frametype s) ss')"

definition push_all :: "Store list \<Rightarrow> WebSocketConnection \<Rightarrow> WebSocketConnection" where
  "push_all ss c = foldl (\<lambda>c s. ws_push (st_buff s) (st_binary s) (st_frametype s) c) c ss"

lemma push_all_simps [simp]:
  "push_all [] c = c" "push_all (s # ss) c = push_all ss (ws_push (st_buff s) (st_binary s) (st_frametype s) c)"
  by (simp_all add: push_all_def)

lemma push_all_open: "3 \<le> ws_first_frame c \<Longrightarrow> ws_queue (push_all ss c) = ws_queue c @ ss"
  by (induction ss arbitrary: c) (simp_all add: ws_push_def Let_def)

lemma push_all_second:
  "ws_first_frame c = 2 \<Longrightarrow> ws_queue (push_all ss c) = ws_queue c @ dropWhile (\<lambda>s. 2 < st_frametype s) ss"
  by (induction ss arbitrary: c) (simp_all add: ws_push_def Let_def push_all_open)

lemma push_all_first: "ws_first_frame c = 1 \<Longrightarrow> ws_queue (push_all ss c) = ws_queue c @ gated ss"
  by (induction ss arbitrary: c) (simp_all add: ws_push_def Let_def push_all_second gated_def)

lemma push_all_framer [simp]: "ws_framer (push_all ss c) = ws_framer c"
  by (induction ss arbitrary: c) (simp_all add: ws_push_def Let_def)

lemma set_gated: "set (gated ss) \<subseteq> set ss"
  by (auto simp: gated_def split: list.splits dest!: set_dropWhileD)
    (metis list.set_intros set_dropWhileD)+

text \<open>The frames of buffers sent one after the other; only the masking keys depend on the framer.\<close>

fun frames_sent :: "bool \<Rightarrow> WebSocketFramer \<Rightarrow> Store list \<Rightarrow> byte list list" where
  "frames_sent big f [] = []"
| "frames_sent big f (s # ss) =
     (if st_buff s = [] then frames_sent big f ss
      else ws_frame (if st_binary s then SendFlags_Binary else SendFlags_Text) (frame_key big f) (st_buff s) #
           frames_sent big (next_framer f) ss)"

lemma handshake_next [simp]: "handshakeComplete (next_framer f) = handshakeComplete f"
  by (simp add: next_framer_def handshakeComplete_def)

lemma ws_flush_frames:
  assumes "alloc_ok alloc" "\<forall>s\<in>set ss. length (st_buff s) < 2 ^ 32" "handshakeComplete (ws_framer c)" "ws_queue c = ss"
  shows "\<exists>c'. ws_flush big alloc ss c = (map TcpSend (frames_sent big (ws_framer c) ss), c', None) \<and> ws_queue c' = [] \<and>
    ws_qsize c' = ws_qsize c + int (length (filter (\<lambda>s. st_buff s \<noteq> []) ss))"
  using assms(2-4)
proof (induction ss arbitrary: c)
  case (Cons s ss)
  show ?case
  proof (cases "st_buff s = []")
    case True
    then show ?thesis using Cons.IH [of "c\<lparr>ws_queue := ss\<rparr>"] Cons.prems by (auto simp: and_then_def Let_def)
  next
    case False
    let ?c = "c\<lparr>ws_queue := ss, ws_qsize := ws_qsize c + 1\<rparr>" and ?f = "next_framer (ws_framer c)"
    have "ws_send big alloc (st_buff s) (st_binary s) ?c =
        ([TcpSend (ws_frame (if st_binary s then SendFlags_Binary else SendFlags_Text) (frame_key big (ws_framer c)) (st_buff s))],
         ?c\<lparr>ws_framer := ?f\<rparr>, None)"
      using ws_send_frame [OF assms(1), of "st_buff s" ?c big "st_binary s"] Cons.prems by simp
    moreover obtain c' where "ws_flush big alloc ss (?c\<lparr>ws_framer := ?f\<rparr>) = (map TcpSend (frames_sent big ?f ss), c', None)"
      "ws_queue c' = []" "ws_qsize c' = ws_qsize c + 1 + int (length (filter (\<lambda>s. st_buff s \<noteq> []) ss))"
      using Cons.IH [of "?c\<lparr>ws_framer := ?f\<rparr>"] Cons.prems by auto
    ultimately show ?thesis using False by (auto simp: and_then_def Let_def)
  qed
qed simp

text \<open>
  What was pushed before a tick of the timer is sent in order, each non-empty buffer as
  one frame, after the gate has dropped what comes before the first frame of type 1 and then
  before the next of type at most 2; the queue is empty afterwards.
\<close>

theorem websocket_queue_in_order:
  assumes "alloc_ok alloc" "\<forall>s\<in>set ss. length (st_buff s) < 2 ^ 32" "handshakeComplete (ws_framer c)"
    and "ws_queue c = []" "ws_first_frame c = 1"
  shows "\<exists>c'. dummy_timer_cb big alloc (push_all ss c) = (map TcpSend (frames_sent big (ws_framer c) (gated ss)), c', None) \<and>
    ws_queue c' = []"
proof -
  have q: "ws_queue (push_all ss c) = gated ss" using assms(4,5) by (simp add: push_all_first)
  have "\<forall>s\<in>set (gated ss). length (st_buff s) < 2 ^ 32" using assms(2) set_gated by blast
  then show ?thesis
    using ws_flush_frames [OF assms(1), of "gated ss" "push_all ss c" big] assms(3) q by (auto simp: dummy_timer_cb_def)
qed

theorem websocket_queue_in_order_witness:
  "\<exists>c'. dummy_timer_cb False (\<lambda>n. replicate n 0)
     (push_all [\<lparr>st_binary = True, st_buff = [9], st_frametype = 4\<rparr>, \<lparr>st_binary = True, st_buff = [1], st_frametype = 1\<rparr>,
       \<lparr>st_binary = True, st_buff = [2], st_frametype = 2\<rparr>, \<lparr>st_binary = False, st_buff = [3], st_frametype = 4\<rparr>]
       (open_connection ServerSide)) =
     ([TcpSend [0x82, 1, 1], TcpSend [0x82, 1, 2], TcpSend [0x81, 1, 3]], c', None)"
proof -
  have a: "alloc_ok (\<lambda>n. replicate n 0)" by (auto simp: alloc_ok_def)
  let ?ss = "[\<lparr>st_binary = True, st_buff = [9], st_frametype = 4\<rparr>, \<lparr>st_binary = True, st_buff = [1], st_frametype = 1\<rparr>,
       \<lparr>st_binary = True, st_buff = [2], st_frametype = 2\<rparr>, \<lparr>st_binary = False, st_buff = [3 :: byte], st_frametype = 4\<rparr>]"
  have f: "frames_sent False (ws_framer (open_connection ServerSide)) (gated ?ss) = [[0x82, 1, 1], [0x82, 1, 2], [0x81, 1, 3]]"
    by (simp add: gated_def open_connection_def frame_key_def next_framer_def framer_init_def ws_frame_def frame_head_def
        len_code_def len_ext_def SendFlags_Binary_def SendFlags_Text_def)
  have c: "ws_queue (open_connection ServerSide) = []" "ws_first_frame (open_connection ServerSide) = 1"
    by (simp_all add: open_connection_def connection_init_def)
  from websocket_queue_in_order [OF a _ _ c, of ?ss False] show ?thesis unfolding f by auto
qed

subsection \<open>Histories\<close>

text \<open>What the machine and the code outside supply.\<close>

record ws_env =
  env_big :: bool
  env_alloc :: "nat \<Rightarrow> byte list"
  env_garbage :: "byte list"
  env_parse_request :: "string \<Rightarrow> Request \<Rightarrow> nat \<times> Request"
  env_parse_response :: "string \<Rightarrow> Response \<Rightarrow> nat \<times> Response"

text \<open>
  One callback or call of the connection, with the events it causes. An operation that ends in an exception leaves the
  state it had reached.
\<close>

inductive ws_step :: "ws_env \<Rightarrow> WebSocketConnection \<Rightarrow> ws_event list \<Rightarrow> WebSocketConnection \<Rightarrow> bool" for E where
  step_connect: "onSocketConnect rnd c = (evs, c', x) \<Longrightarrow> ws_step E c evs c'"
| step_recv: "onSocketRecv (env_big E) (env_alloc E) (env_garbage E) (env_parse_request E) (env_parse_response E) buffer c =
    (evs, c', x) \<Longrightarrow> ws_step E c evs c'"
| step_send: "ws_send (env_big E) (env_alloc E) data binary c = (evs, c', x) \<Longrightarrow> ws_step E c evs c'"
| step_shutdown: "ws_shutdown (env_big E) (env_alloc E) stack code message c = (evs, c', x) \<Longrightarrow> ws_step E c evs c'"
| step_push: "ws_step E c [] (ws_push data binary frametype c)"
| step_timer: "dummy_timer_cb (env_big E) (env_alloc E) c = (evs, c', x) \<Longrightarrow> ws_step E c evs c'"
| step_sent: "ws_step E c [] (on_sent sent c)"
| step_close: "ws_onClose c = (evs, c', x) \<Longrightarrow> ws_step E c evs c'"

inductive ws_run :: "ws_env \<Rightarrow> WebSocketConnection \<Rightarrow> ws_event list \<Rightarrow> WebSocketConnection \<Rightarrow> bool" for E where
  run_nil: "ws_run E c [] c"
| run_step: "ws_run E c evs c' \<Longrightarrow> ws_step E c' evs' c'' \<Longrightarrow> ws_run E c (evs @ evs') c''"

text \<open>The invariant: a server is never half way through the handshake, and exactly the client masks.\<close>

definition ws_inv :: "Mode \<Rightarrow> WebSocketConnection \<Rightarrow> bool" where
  "ws_inv mode c = (wf_mode (ws_framer c) = mode \<and> wf_maskPayload (ws_framer c) = (mode = ClientSide) \<and>
     wf_headerState (ws_framer c) \<le> 2 \<and> (mode = ServerSide \<longrightarrow> wf_headerState (ws_framer c) \<noteq> 1) \<and>
     ws_first_frame c \<in> {1..6})"

text \<open>
  The event that opens the connection: the client tells its listener, the server has accepted the request with the
  status 101; the answer to a request it refuses does not open it.
\<close>

definition switching :: "string \<Rightarrow> bool" where
  "switching s \<longleftrightarrow> (\<exists>r :: Response. s = Response_write r \<and> resp_status r = SwitchingProtocols)"

fun greets :: "Mode \<Rightarrow> ws_event \<Rightarrow> bool" where
  "greets ClientSide e = (e = Wsconnect)"
| "greets ServerSide (HttpSend s) = switching s"
| "greets ServerSide _ = False"

definition greeted :: "Mode \<Rightarrow> ws_event list \<Rightarrow> bool" where
  "greeted mode evs = list_ex (greets mode) evs"

fun reads_after :: "Mode \<Rightarrow> bool \<Rightarrow> ws_event list \<Rightarrow> bool" where
  "reads_after mode opened [] = True"
| "reads_after mode opened (Wsread d # evs) = (opened \<and> reads_after mode opened evs)"
| "reads_after mode opened (e # evs) = reads_after mode (opened \<or> greets mode e) evs"

lemma greeted_simps [simp]:
  "\<not> greeted mode []" "greeted mode (e # evs) \<longleftrightarrow> greets mode e \<or> greeted mode evs"
  "greeted mode (evs @ evs') \<longleftrightarrow> greeted mode evs \<or> greeted mode evs'"
  by (simp_all add: greeted_def)

lemma greets_read [simp]: "\<not> greets mode (Wsread d)"
  by (cases mode) simp_all

lemma reads_after_mono: "reads_after mode b evs \<Longrightarrow> (b \<Longrightarrow> b') \<Longrightarrow> reads_after mode b' evs"
  by (induction mode b evs arbitrary: b' rule: reads_after.induct) fastforce+

lemma reads_after_append [simp]:
  "reads_after mode b (evs @ evs') \<longleftrightarrow> reads_after mode b evs \<and> reads_after mode (b \<or> greeted mode evs) evs'"
  by (induction mode b evs rule: reads_after.induct) (auto simp: disj_assoc)

lemma reads_after_split: "reads_after mode b (xs @ Wsread d # ys) \<Longrightarrow> b \<or> greeted mode xs"
  by simp

lemma reads_opened: "reads_after mode True evs"
  by (induction mode True evs rule: reads_after.induct) simp_all

text \<open>What every operation guarantees.\<close>

definition good :: "Mode \<Rightarrow> WebSocketConnection \<Rightarrow> outcome \<Rightarrow> bool" where
  "good mode c r = (case r of (evs, c', x) \<Rightarrow> ws_inv mode c' \<and>
     (handshakeComplete (ws_framer c') \<longrightarrow> handshakeComplete (ws_framer c) \<or> greeted mode evs) \<and>
     reads_after mode (handshakeComplete (ws_framer c)) evs)"

lemma good_simps [simp]:
  "good mode c (evs, c', x) \<longleftrightarrow> ws_inv mode c' \<and>
     (handshakeComplete (ws_framer c') \<longrightarrow> handshakeComplete (ws_framer c) \<or> greeted mode evs) \<and>
     reads_after mode (handshakeComplete (ws_framer c)) evs"
  by (simp add: good_def)

lemma good_and_then:
  assumes "good mode c r" "\<And>c'. ws_inv mode c' \<Longrightarrow> good mode c' (g c')"
  shows "good mode c (and_then r g)"
proof -
  obtain evs c' x where r: "r = (evs, c', x)" by (cases r)
  show ?thesis
  proof (cases x)
    case None
    obtain evs' c'' x' where g: "g c' = (evs', c'', x')" by (cases "g c'")
    have "ws_inv mode c'" using assms(1) r by simp
    from assms(2) [OF this] have "reads_after mode (handshakeComplete (ws_framer c')) evs'" by (simp add: g)
    then have "reads_after mode (handshakeComplete (ws_framer c) \<or> greeted mode evs) evs'"
      by (rule reads_after_mono) (use assms(1) r in simp)
    then show ?thesis using assms(1) assms(2) [OF \<open>ws_inv mode c'\<close>] r g None by (auto simp: and_then_def)
  qed (use assms(1) r in \<open>simp add: and_then_def\<close>)
qed

lemma ws_inv_unchanged [simp]:
  "ws_inv mode (c\<lparr>ws_storeBuf := s\<rparr>) = ws_inv mode c" "ws_inv mode (c\<lparr>ws_queue := q\<rparr>) = ws_inv mode c"
  "ws_inv mode (c\<lparr>ws_qsize := n\<rparr>) = ws_inv mode c" "ws_inv mode (c\<lparr>ws_request := r\<rparr>) = ws_inv mode c"
  "ws_inv mode (c\<lparr>ws_response := p\<rparr>) = ws_inv mode c"
  "ws_inv mode (c\<lparr>ws_framer := (ws_framer c)\<lparr>wf_rnd := rnd\<rparr>\<rparr>) = ws_inv mode c"
  "ws_inv mode (c\<lparr>ws_framer := (ws_framer c)\<lparr>wf_frameFlags := x\<rparr>\<rparr>) = ws_inv mode c"
  by (simp_all add: ws_inv_def)

lemma writeFrame_framer: "writeFrame big data flags w f = Inr (n, w', f') \<Longrightarrow> \<exists>r. f' = f\<lparr>wf_rnd := r\<rparr>"
  by (auto simp: writeFrame_def res_bind_def split: if_splits sum.splits prod.splits
      intro: exI [of _ "wf_rnd f"])

lemma good_send: "ws_inv mode c \<Longrightarrow> good mode c (ws_send big alloc data binary c)"
  by (auto simp: ws_send_def Let_def handshakeComplete_def split: sum.splits prod.splits dest!: writeFrame_framer)

lemma good_shutdown: "ws_inv mode c \<Longrightarrow> good mode c (ws_shutdown big alloc stack code message c)"
  by (simp add: ws_shutdown_def good_send split: sum.split)

lemma readFrame_framer: "readFrame big r f = Inr (n, pay, r', f') \<Longrightarrow> \<exists>x. f' = f\<lparr>wf_frameFlags := x\<rparr>"
  by (auto simp: readFrame_def Let_def res_bind_def split: sum.splits if_splits option.splits prod.splits
      intro: exI [of _ "wf_frameFlags f"])

lemma recv_loop_framer:
  "recv_loop big all r f = (evs, f', rest, x) \<Longrightarrow> (\<exists>y. f' = f\<lparr>wf_frameFlags := y\<rparr>) \<and> set evs \<subseteq> range Wsread"
proof (induction big all r f arbitrary: evs f' rest x rule: recv_loop.induct)
  case (1 big all r f)
  show ?case
  proof (cases "r_position r < all")
    case False
    then show ?thesis using "1.prems" by (subst (asm) recv_loop.simps) (auto intro: exI [of _ "wf_frameFlags f"])
  next
    case True
    show ?thesis
    proof (cases "readFrame big r f")
      case (Inl e)
      then show ?thesis using "1.prems" True by (subst (asm) recv_loop.simps) (auto intro: exI [of _ "wf_frameFlags f"])
    next
      case (Inr v)
      obtain n pay r' f1 where v: "v = (n, pay, r', f1)" by (cases v)
      obtain y where f1: "f1 = f\<lparr>wf_frameFlags := y\<rparr>" using readFrame_framer Inr v by blast
      show ?thesis
      proof (cases "n = 0")
        case True
        then show ?thesis using "1.prems" \<open>r_position r < all\<close> Inr v f1 by (subst (asm) recv_loop.simps) auto
      next
        case False
        obtain evs1 f2 rest1 x1 where rec: "recv_loop big all r' f1 = (evs1, f2, rest1, x1)" by (cases "recv_loop big all r' f1")
        have "(\<exists>y. f2 = f1\<lparr>wf_frameFlags := y\<rparr>) \<and> set evs1 \<subseteq> range Wsread"
          by (rule "1.IH" [OF True Inr v [symmetric] refl refl False rec])
        then show ?thesis using "1.prems" True Inr v False rec f1 by (subst (asm) recv_loop.simps) auto
      qed
    qed
  qed
qed

lemma good_recv_open:
  assumes "ws_inv mode c" "handshakeComplete (ws_framer c)"
  shows "good mode c (recv_open big alloc buffer c)"
proof -
  have "good mode (c\<lparr>ws_storeBuf := []\<rparr>) (ws_pong big alloc (c\<lparr>ws_storeBuf := []\<rparr>))"
    unfolding ws_pong_def by (rule good_send) (simp add: assms(1))
  then have "good mode c (ws_pong big alloc (c\<lparr>ws_storeBuf := []\<rparr>))"
    by (simp add: good_def split: prod.splits)
  then show ?thesis
    using assms by (auto simp: recv_open_def Let_def reads_opened split: prod.split dest!: recv_loop_framer)
qed

text \<open>What the three steps of the handshake leave as it was.\<close>

lemma acceptServerRequest_framer:
  "acceptServerRequest big g request response f = Inr (response', f') \<Longrightarrow> wf_mode f = ServerSide \<and> f' = f\<lparr>wf_headerState := 2\<rparr> \<and>
   switching (Response_write response')"
  by (auto simp: acceptServerRequest_def Let_def switching_def msg_set_def setStatus_def split: if_splits
      intro!: exI [of _ response'])

lemma createClientHandshakeRequest_framer:
  "createClientHandshakeRequest rnd request f = Inr (request', f') \<Longrightarrow>
   wf_mode f = ClientSide \<and> wf_headerState f = 0 \<and> f' = f\<lparr>wf_key := createKey rnd, wf_headerState := 1\<rparr>"
  by (auto simp: createClientHandshakeRequest_def Let_def split: if_splits)

lemma checkClientHandshakeResponse_framer:
  "checkClientHandshakeResponse big g response f = Inr (ok, f') \<Longrightarrow>
   wf_mode f = ClientSide \<and> wf_headerState f = 1 \<and> ok \<and> f' = f\<lparr>wf_headerState := 2\<rparr>"
  by (auto simp: checkClientHandshakeResponse_def completeClientHandshake_def res_bind_def numeral_2_eq_2
      split: if_splits StatusCode.splits sum.splits)

lemma good_connect: "ws_inv mode c \<Longrightarrow> good mode c (onSocketConnect rnd c)"
  by (auto simp: onSocketConnect_def sendClientRequest_def Let_def ws_inv_def handshakeComplete_def split: sum.splits
      dest!: createClientHandshakeRequest_framer)

lemma good_server: "ws_inv mode c \<Longrightarrow> good mode c (handleServerRequest big g parse buffer c)"
  by (auto simp: handleServerRequest_def Let_def ws_inv_def split: prod.splits sum.splits exc.splits
      dest!: acceptServerRequest_framer)

lemma good_client:
  assumes "ws_inv mode c"
  shows "good mode c (handleClientResponse big alloc g parse buffer c)"
proof -
  obtain nparsed response where parse: "parse (string_of buffer) (ws_response c) = (nparsed, response)" by fastforce
  let ?c1 = "c\<lparr>ws_response := response\<rparr>"
  let ?rest = "\<lambda>c2. if length buffer - nparsed \<noteq> 0 then recv_open big alloc (drop nparsed buffer) c2 else ([], c2, None)"
  show ?thesis
  proof (cases "checkClientHandshakeResponse big g response (ws_framer c)")
    case (Inl e)
    then show ?thesis using assms by (simp add: handleClientResponse_def parse Let_def)
  next
    case (Inr v)
    obtain ok f where v: "v = (ok, f)" by (cases v)
    have f: "wf_mode (ws_framer c) = ClientSide" "wf_headerState (ws_framer c) = 1" "ok"
      "f = (ws_framer c)\<lparr>wf_headerState := 2\<rparr>"
      using checkClientHandshakeResponse_framer Inr v by blast+
    let ?c2 = "?c1\<lparr>ws_framer := f\<rparr>"
    have inv: "ws_inv mode ?c2" and open2: "handshakeComplete (ws_framer ?c2)" and m: "mode = ClientSide"
      using assms f by (auto simp: ws_inv_def handshakeComplete_def)
    have "good mode ?c2 (?rest ?c2)" using inv good_recv_open [OF inv open2] by simp
    then have "good mode c (and_then ([Wsconnect], ?c2, None) ?rest)"
      using m by (auto simp: and_then_def reads_opened elim: reads_after_mono split: prod.splits)
    then show ?thesis using assms f(3) by (simp add: handleClientResponse_def parse Let_def Inr v onHandshakeComplete_def)
  qed
qed

lemma good_recv: "ws_inv mode c \<Longrightarrow> good mode c (onSocketRecv big alloc g pq pr buffer c)"
  using good_recv_open [of mode c big alloc buffer] good_client [of mode c big alloc g pr buffer] good_server [of mode c big g pq buffer]
  by (auto simp: onSocketRecv_def catch_std_def split: prod.splits)

lemma good_flush: "ws_inv mode c \<Longrightarrow> good mode c (ws_flush big alloc ss c)"
proof (induction ss arbitrary: c)
  case (Cons s ss)
  let ?c1 = "c\<lparr>ws_queue := ss\<rparr>"
  have "good mode (?c1\<lparr>ws_qsize := ws_qsize ?c1 + 1\<rparr>)
      (ws_send big alloc (st_buff s) (st_binary s) (?c1\<lparr>ws_qsize := ws_qsize ?c1 + 1\<rparr>))"
    by (rule good_send) (simp add: Cons.prems)
  then have "good mode c (if st_buff s \<noteq> []
      then ws_send big alloc (st_buff s) (st_binary s) (?c1\<lparr>ws_qsize := ws_qsize ?c1 + 1\<rparr>) else ([], ?c1, None))"
    using Cons.prems by (simp add: good_def split: prod.splits)
  from good_and_then [OF this Cons.IH] show ?case by (simp add: Let_def)
qed simp

lemma good_step:
  assumes "ws_step E c evs c'" "ws_inv mode c"
  shows "\<exists>x. good mode c (evs, c', x)"
  using assms(1)
proof (cases rule: ws_step.cases)
  case (step_connect rnd x)
  then show ?thesis using good_connect [OF assms(2), of rnd] by auto
next
  case (step_recv buffer x)
  then show ?thesis using good_recv [OF assms(2)] by (metis good_simps)
next
  case (step_send data binary x)
  then show ?thesis using good_send [OF assms(2)] by (metis good_simps)
next
  case (step_shutdown stack code message x)
  then show ?thesis using good_shutdown [OF assms(2)] by (metis good_simps)
next
  case (step_push data binary frametype)
  then show ?thesis using assms(2) by (auto simp: ws_push_def Let_def ws_inv_def)
next
  case (step_timer x)
  then show ?thesis using good_flush [OF assms(2)] unfolding dummy_timer_cb_def by (metis good_simps)
next
  case (step_sent sent)
  then show ?thesis using assms(2) by (auto simp: on_sent_def)
next
  case (step_close x)
  then show ?thesis using assms(2) by (cases mode) (auto simp: ws_onClose_def ws_inv_def handshakeComplete_def)
qed

lemma ws_run_good: "ws_run E c evs c' \<Longrightarrow> ws_inv mode c \<Longrightarrow> \<exists>x. good mode c (evs, c', x)"
proof (induction rule: ws_run.induct)
  case (run_step c evs c' evs' c'')
  then obtain x where one: "good mode c (evs, c', x)" by blast
  then have "ws_inv mode c'" by simp
  then obtain x' where two: "good mode c' (evs', c'', x')" using good_step [OF run_step.hyps(2)] by blast
  have "reads_after mode (handshakeComplete (ws_framer c')) evs'" using two by simp
  then have "reads_after mode (handshakeComplete (ws_framer c) \<or> greeted mode evs) evs'"
    by (rule reads_after_mono) (use one in simp)
  then show ?case using one two by auto
qed simp

lemma ws_inv_init: "ws_inv mode (connection_init mode rnd request response)"
  by (simp add: ws_inv_def connection_init_def framer_init_def)

text \<open>
  C5: In every history the mode never changes, exactly the client masks, the handshake state
  is 0 or 2 on a server and 0, 1 or 2 on a client, and the gate counter of the queue stays in
  1 to 6.
\<close>

theorem websocket_history_invariant:
  assumes "ws_run E (connection_init mode rnd request response) evs c"
  shows "wf_mode (ws_framer c) = mode \<and> (wf_maskPayload (ws_framer c) \<longleftrightarrow> mode = ClientSide) \<and>
    wf_headerState (ws_framer c) \<in> (if mode = ServerSide then {0, 2} else {0, 1, 2}) \<and> ws_first_frame c \<in> {1..6}"
proof -
  have "ws_inv mode c" using ws_run_good [OF assms ws_inv_init] by auto
  then show ?thesis by (auto simp: ws_inv_def)
qed

theorem websocket_history_invariant_witness:
  "\<exists>E. ws_run E (connection_init ServerSide Random_null Request_init Response_init) []
      (ws_push [1] True 1 (connection_init ServerSide Random_null Request_init Response_init)) \<and>
    ws_first_frame (ws_push [1] True 1 (connection_init ServerSide Random_null Request_init Response_init)) \<in> {1..6}"
proof -
  let ?c = "connection_init ServerSide Random_null Request_init Response_init"
  have run: "ws_run E ?c ([] @ []) (ws_push [1] True 1 ?c)" for E by (rule run_step [OF run_nil step_push])
  show ?thesis using websocket_history_invariant [of _ ServerSide Random_null Request_init Response_init, OF run] run by auto
qed

text \<open>A server that answers a request and then receives one frame.\<close>

definition upgrade_request :: Request where
  "upgrade_request = msg_set ''Sec-WebSocket-Key'' ''x'' (msg_set ''Sec-WebSocket-Version'' ProtocolVersion
     (msg_set ''Upgrade'' ''websocket'' (msg_set ''Connection'' ''Upgrade'' Request_init)))"

definition example_env :: ws_env where
  "example_env = \<lparr>env_big = False, env_alloc = (\<lambda>n. replicate n 0), env_garbage = [],
     env_parse_request = (\<lambda>s r. (1, upgrade_request)), env_parse_response = (\<lambda>s r. (0, r))\<rparr>"

lemma example_run:
  "\<exists>s c. ws_run example_env (connection_init ServerSide Random_null Request_init Response_init) ([HttpSend s] @ Wsread [7] # []) c"
proof -
  let ?c = "connection_init ServerSide Random_null Request_init Response_init"
  have key: "trim ''x'' = ''x''" by code_simp
  obtain response where acc: "acceptServerRequest False [] upgrade_request Response_init (framer_init ServerSide Random_null) =
      Inr (response, (framer_init ServerSide Random_null)\<lparr>wf_headerState := 2\<rparr>)"
    by (simp add: acceptServerRequest_def upgrade_request_def msg_laws icompare_upgrade ProtocolVersion_def Let_def key framer_init_def)
  define c1 where "c1 = ?c\<lparr>ws_request := upgrade_request, ws_response := response,
      ws_framer := (framer_init ServerSide Random_null)\<lparr>wf_headerState := 2\<rparr>\<rparr>"
  have "onSocketRecv False (\<lambda>n. replicate n 0) [] (\<lambda>s r. (1, upgrade_request)) (\<lambda>s r. (0, r)) [0x47] ?c =
      ([HttpSend (Response_write response)], c1, None)"
    using acc by (simp add: onSocketRecv_def connection_init_def framer_init_def handshakeComplete_def handleServerRequest_def
        Let_def catch_std_def c1_def)
  then have one: "ws_step example_env ?c [HttpSend (Response_write response)] c1"
    by (intro step_recv [where buffer = "[0x47]" and x = None]) (simp add: example_env_def)
  have frame: "ws_frame SendFlags_Binary None [7] = [0x82, 1, 7]"
    by (simp add: ws_frame_def frame_head_def len_code_def len_ext_def SendFlags_Binary_def)
  have open1: "handshakeComplete (ws_framer c1)" "ws_storeBuf c1 = []"
    by (simp_all add: c1_def handshakeComplete_def connection_init_def)
  obtain c2 where "recv_open False (\<lambda>n. replicate n 0) [0x82, 1, 7] c1 = ([Wsread [7]], c2, None)"
    using recv_open_messages [of "[(SendFlags_Binary, None, [7])]" "[]" c1 "[0x82, 1, 7]" False "\<lambda>n. replicate n 0"] open1
    by (auto simp: part_of_frame_def size_t_max_def key_ok_def frame)
  then have "onSocketRecv False (\<lambda>n. replicate n 0) [] (\<lambda>s r. (1, upgrade_request)) (\<lambda>s r. (0, r)) [0x82, 1, 7] c1 = ([Wsread [7]], c2, None)"
    using open1 by (simp add: onSocketRecv_def)
  then have two: "ws_step example_env c1 [Wsread [7]] c2"
    by (intro step_recv [where buffer = "[0x82, 1, 7]" and x = None]) (simp add: example_env_def)
  have "ws_run example_env ?c (([] @ [HttpSend (Response_write response)]) @ [Wsread [7]]) c2"
    by (rule run_step [OF run_step [OF run_nil one] two])
  then show ?thesis by auto
qed

text \<open>
  C4: In every history of a connection, whatever the calls, the data received and the HTTP
  parser do, no payload reaches the listener before the opening event: on a client its own
  on_wsconnect, on a server the response with status 101 that it has sent.
\<close>

theorem websocket_no_read_before_handshake:
  assumes "ws_run E (connection_init mode rnd request response) (xs @ Wsread d # ys) c"
  shows "\<exists>e\<in>set xs. greets mode e"
proof -
  have "\<not> handshakeComplete (ws_framer (connection_init mode rnd request response))"
    by (simp add: connection_init_def framer_init_def handshakeComplete_def)
  then show ?thesis
    using ws_run_good [OF assms ws_inv_init] by (auto simp: greeted_def list_ex_iff)
qed

theorem websocket_no_read_before_handshake_witness:
  "\<exists>s c. ws_run example_env (connection_init ServerSide Random_null Request_init Response_init) [HttpSend s, Wsread [7]] c \<and>
    switching s"
proof -
  obtain s c where run: "ws_run example_env (connection_init ServerSide Random_null Request_init Response_init) ([HttpSend s] @ Wsread [7] # []) c"
    using example_run by blast
  from websocket_no_read_before_handshake [OF run] have "switching s" by simp
  then show ?thesis using run by auto
qed

end
