(* ===== verification/Bit_Vector.thy ===== *)
theory Bit_Vector
  imports Prelude
begin

text \<open>
  The bit reader of \<open>broadcast/src/BitVector.cpp\<close>: the cursor over an array, the copying of bits, fixed width and
  exponential-Golomb codes. An \<open>unsigned\<close> is a natural number with its wrap-around written out, the values read are words.
\<close>

subsection \<open>The cursor\<close>

record BitVector =
  bv_base :: "byte list"
  bv_offset :: nat
  bv_tot :: nat
  bv_cur :: nat

definition bv_setup :: "byte list \<Rightarrow> nat \<Rightarrow> nat \<Rightarrow> BitVector" where
  "bv_setup base baseBitOffset totNumBits = \<lparr>bv_base = base, bv_offset = baseBitOffset, bv_tot = totNumBits, bv_cur = 0\<rparr>"

definition uint_sub :: "nat \<Rightarrow> nat \<Rightarrow> nat" where
  "uint_sub a b = (a + 2 ^ 32 - b) mod 2 ^ 32"

lemma uint_sub_le: "b \<le> a \<Longrightarrow> a < 2 ^ 32 \<Longrightarrow> uint_sub a b = a - b"
proof -
  assume "b \<le> a" "a < 2 ^ 32"
  then have "a + 2 ^ 32 - b = 2 ^ 32 + (a - b)" "a - b < 2 ^ 32" by simp_all
  then show ?thesis unfolding uint_sub_def by (metis mod_add_self1 mod_less)
qed

definition numBitsRemaining :: "BitVector \<Rightarrow> nat" where
  "numBitsRemaining bv = uint_sub (bv_tot bv) (bv_cur bv)"

definition set_curBitIndex :: "nat \<Rightarrow> BitVector \<Rightarrow> BitVector" where
  "set_curBitIndex i bv = bv\<lparr>bv_cur := i\<rparr>"

definition singleBitMask :: "byte list" where
  "singleBitMask = [0x80, 0x40, 0x20, 0x10, 0x08, 0x04, 0x02, 0x01]"

definition MAX_LENGTH :: nat where "MAX_LENGTH = 32"

subsection \<open>Copying bits\<close>

text \<open>
  \<open>tb\<close> and \<open>tr\<close> are the byte and the bit within it that \<open>toBytePtr\<close> and \<open>toBitRem\<close> stand for, \<open>fb\<close> and \<open>fr\<close> those of
  the source; the two arrays are distinct in every call of the program. Touching a byte outside an array is undefined.
\<close>

fun shift_loop :: "nat \<Rightarrow> byte list \<Rightarrow> nat \<Rightarrow> nat \<Rightarrow> byte list \<Rightarrow> nat \<Rightarrow> nat \<Rightarrow> byte list res" where
  "shift_loop 0 to tb tr from fb fr = Inr to"
| "shift_loop (Suc n) to tb tr from fb fr =
     (if length from \<le> fb \<or> length to \<le> tb then Inl Undefined_behaviour
      else (let fromBit = from ! fb AND singleBitMask ! fr;
                toBitMask = singleBitMask ! tr;
                to' = to[tb := if fromBit \<noteq> 0 then to ! tb OR toBitMask else to ! tb AND NOT toBitMask]
            in shift_loop n to' (if tr + 1 = 8 then tb + 1 else tb) (if tr + 1 = 8 then 0 else tr + 1)
                 from (if fr + 1 = 8 then fb + 1 else fb) (if fr + 1 = 8 then 0 else fr + 1)))"

definition shiftBits :: "byte list \<Rightarrow> nat \<Rightarrow> byte list \<Rightarrow> nat \<Rightarrow> nat \<Rightarrow> byte list res" where
  "shiftBits to toBitOffset from fromBitOffset numBits =
     (if numBits = 0 then Inr to
      else shift_loop numBits to (toBitOffset div 8) (toBitOffset mod 8) from (fromBitOffset div 8) (fromBitOffset mod 8))"

subsection \<open>Reading and writing\<close>

definition overflowing :: "nat \<Rightarrow> BitVector \<Rightarrow> nat" where
  "overflowing numBits bv = (if numBits > numBitsRemaining bv then numBits - numBitsRemaining bv else 0)"

definition putBits :: "u32 \<Rightarrow> nat \<Rightarrow> BitVector \<Rightarrow> BitVector res" where
  "putBits from numBits bv =
     (if numBits = 0 then Inr bv
      else (let n = (if numBits > MAX_LENGTH then MAX_LENGTH else numBits);
                overflowingBits = overflowing n bv;
                tmpBuf = [ucast (drop_bit 24 from), ucast (drop_bit 16 from), ucast (drop_bit 8 from), ucast from]
            in res_bind (shiftBits (bv_base bv) (bv_offset bv + bv_cur bv) tmpBuf (MAX_LENGTH - n) (n - overflowingBits))
                 (\<lambda>base. Inr (bv\<lparr>bv_base := base, bv_cur := bv_cur bv + (n - overflowingBits)\<rparr>))))"

definition put1Bit :: "u32 \<Rightarrow> BitVector \<Rightarrow> BitVector res" where
  "put1Bit b bv =
     (if bv_cur bv \<ge> bv_tot bv then Inr bv
      else (let totBitOffset = bv_offset bv + bv_cur bv; mask = singleBitMask ! (totBitOffset mod 8); i = totBitOffset div 8
            in if length (bv_base bv) \<le> i then Inl Undefined_behaviour
               else Inr (bv\<lparr>bv_cur := bv_cur bv + 1,
                 bv_base := (bv_base bv)[i := if b \<noteq> 0 then bv_base bv ! i OR mask else bv_base bv ! i AND NOT mask]\<rparr>)))"

text \<open>\<open>tmpBuf\<close> is what the array of four bytes holds before the bits are copied into it. A shift by 32 is undefined.\<close>

definition getBits_into :: "byte list \<Rightarrow> nat \<Rightarrow> BitVector \<Rightarrow> (u32 \<times> BitVector) res" where
  "getBits_into tmpBuf numBits bv =
     (if numBits = 0 then Inr (0, bv)
      else (let n = (if numBits > MAX_LENGTH then MAX_LENGTH else numBits);
                overflowingBits = overflowing n bv
            in res_bind (shiftBits tmpBuf 0 (bv_base bv) (bv_offset bv + bv_cur bv) (n - overflowingBits)) (\<lambda>tmp.
               if overflowingBits \<ge> 32 then Inl Undefined_shift
               else (let r = push_bit 24 (ucast (tmp ! 0)) OR push_bit 16 (ucast (tmp ! 1)) OR push_bit 8 (ucast (tmp ! 2)) OR ucast (tmp ! 3);
                         r' = drop_bit (MAX_LENGTH - n) r
                     in Inr (r' AND push_bit overflowingBits 0xFFFFFFFF, bv\<lparr>bv_cur := bv_cur bv + (n - overflowingBits)\<rparr>)))))"

text \<open>The result never depends on \<open>tmpBuf\<close> (lemma \<open>getBits_into_any\<close>), so the callers below use zeros.\<close>

definition getBits :: "nat \<Rightarrow> BitVector \<Rightarrow> (u32 \<times> BitVector) res" where
  "getBits numBits bv = getBits_into [0, 0, 0, 0] numBits bv"

definition get1Bit :: "BitVector \<Rightarrow> (u32 \<times> BitVector) res" where
  "get1Bit bv =
     (if bv_cur bv \<ge> bv_tot bv then Inr (0, bv)
      else (let totBitOffset = bv_offset bv + bv_cur bv
            in if length (bv_base bv) \<le> totBitOffset div 8 then Inl Undefined_behaviour
               else Inr (ucast (drop_bit (7 - totBitOffset mod 8) (bv_base bv ! (totBitOffset div 8))) AND 1,
                         bv\<lparr>bv_cur := bv_cur bv + 1\<rparr>)))"

definition get1BitBoolean :: "BitVector \<Rightarrow> (bool \<times> BitVector) res" where
  "get1BitBoolean bv = res_bind (get1Bit bv) (\<lambda>(b, bv'). Inr (b \<noteq> 0, bv'))"

definition skipBits :: "nat \<Rightarrow> BitVector \<Rightarrow> BitVector" where
  "skipBits numBits bv =
     (if numBits > numBitsRemaining bv then bv\<lparr>bv_cur := bv_tot bv\<rparr> else bv\<lparr>bv_cur := bv_cur bv + numBits\<rparr>)"

text \<open>The loop over the leading zero bits: \<open>numLeadingZeroBits\<close> and \<open>codeStart\<close>.\<close>

function golomb_loop :: "BitVector \<Rightarrow> nat \<Rightarrow> u32 \<Rightarrow> (nat \<times> u32 \<times> BitVector) res" where
  "golomb_loop bv zeros start =
     (case get1Bit bv of Inl e \<Rightarrow> Inl e
      | Inr (b, bv') \<Rightarrow> if b = 0 \<and> bv_cur bv' < bv_tot bv' then golomb_loop bv' (zeros + 1) (start * 2) else Inr (zeros, start, bv'))"
  by pat_completeness auto
termination
  by (relation "measure (\<lambda>(bv, zeros, start). bv_tot bv - bv_cur bv)") (auto simp: get1Bit_def Let_def split: if_splits)

declare golomb_loop.simps [simp del]

definition get_expGolomb :: "BitVector \<Rightarrow> (u32 \<times> BitVector) res" where
  "get_expGolomb bv =
     res_bind (golomb_loop bv 0 1) (\<lambda>(numLeadingZeroBits, codeStart, bv').
     res_bind (getBits numLeadingZeroBits bv') (\<lambda>(v, bv''). Inr (codeStart - 1 + v, bv'')))"

definition get_expGolombSigned :: "BitVector \<Rightarrow> (int \<times> BitVector) res" where
  "get_expGolombSigned bv =
     res_bind (get_expGolomb bv) (\<lambda>(codeNum, bv').
       Inr (if codeNum AND 1 = 0 then - uint (codeNum div 2) else uint ((codeNum + 1) div 2), bv'))"

subsection \<open>Bytes as bits\<close>

definition byte_bits :: "byte \<Rightarrow> bool list" where
  "byte_bits b = map (bit b) [7, 6, 5, 4, 3, 2, 1, 0]"

definition bits_of :: "byte list \<Rightarrow> bool list" where
  "bits_of bs = concat (map byte_bits bs)"

lemma length_byte_bits [simp]: "length (byte_bits b) = 8"
  by (simp add: byte_bits_def)

lemma byte_bits_nth: "j < 8 \<Longrightarrow> byte_bits b ! j = bit b (7 - j)"
  by (auto simp: byte_bits_def numeral_eq_Suc less_Suc_eq)

lemma length_bits_of [simp]: "length (bits_of bs) = 8 * length bs"
  by (induction bs) (simp_all add: bits_of_def)

lemma bits_of_simps [simp]: "bits_of [] = []" "bits_of (b # bs) = byte_bits b @ bits_of bs"
  "bits_of (bs @ bs') = bits_of bs @ bits_of bs'"
  by (simp_all add: bits_of_def)

lemma bits_of_nth: "p < 8 * length bs \<Longrightarrow> bits_of bs ! p = bit (bs ! (p div 8)) (7 - p mod 8)"
proof (induction bs arbitrary: p)
  case (Cons b bs)
  show ?case
  proof (cases "p < 8")
    case True
    then show ?thesis by (simp add: nth_append byte_bits_nth)
  next
    case False
    then have "bits_of bs ! (p - 8) = bit (bs ! ((p - 8) div 8)) (7 - (p - 8) mod 8)" using Cons by simp
    moreover have "p div 8 = Suc ((p - 8) div 8)" "(p - 8) mod 8 = p mod 8"
      using False by (simp_all add: div_if mod_if [of p 8])
    ultimately show ?thesis using False by (simp add: nth_append)
  qed
qed simp

lemma bits_of_at: "q < length bs \<Longrightarrow> r < 8 \<Longrightarrow> bits_of bs ! (8 * q + r) = bit (bs ! q) (7 - r)"
  by (subst bits_of_nth) simp_all

lemma singleBitMask_nth: "r < 8 \<Longrightarrow> singleBitMask ! r = push_bit (7 - r) 1"
  by (auto simp: singleBitMask_def numeral_eq_Suc less_Suc_eq)

lemma and_singleBitMask: "r < 8 \<Longrightarrow> x AND singleBitMask ! r \<noteq> 0 \<longleftrightarrow> bit x (7 - r)"
  by (simp add: singleBitMask_nth and_exp_eq_0_iff_not_bit push_bit_eq_mult)

lemma bit_set_mask: "r < 8 \<Longrightarrow> i < 8 \<Longrightarrow> bit (x OR singleBitMask ! r) i \<longleftrightarrow> i = 7 - r \<or> bit x i"
  by (auto simp: singleBitMask_nth bit_simps)

lemma bit_clear_mask: "r < 8 \<Longrightarrow> i < 8 \<Longrightarrow> bit (x AND NOT (singleBitMask ! r)) i \<longleftrightarrow> i \<noteq> 7 - r \<and> bit x i"
  by (auto simp: singleBitMask_nth bit_simps)

lemma bits_of_update:
  assumes "tb < length to" "tr < 8"
  shows "bits_of (to[tb := if b then to ! tb OR singleBitMask ! tr else to ! tb AND NOT (singleBitMask ! tr)]) =
    (bits_of to)[8 * tb + tr := b]" (is "bits_of ?to = _")
proof (rule nth_equalityI)
  fix p assume "p < length (bits_of ?to)"
  then have p: "p < 8 * length to" by simp
  have d: "p div 8 < length to" using p by (simp add: less_mult_imp_div_less mult.commute)
  have lt: "7 - p mod 8 < 8" by simp
  show "bits_of ?to ! p = (bits_of to)[8 * tb + tr := b] ! p"
  proof (cases "p div 8 = tb")
    case False
    then have "p \<noteq> 8 * tb + tr" using assms(2) by auto
    then show ?thesis using False p d by (simp add: bits_of_nth)
  next
    case True
    then have eq: "p = 8 * tb + p mod 8" by (metis mult_div_mod_eq)
    have "p mod 8 < 8" by simp
    then have "p = 8 * tb + tr \<longleftrightarrow> 7 - p mod 8 = 7 - tr" using assms(2) eq by linarith
    then show ?thesis
      using p d True assms lt
      by (auto simp: bits_of_nth nth_list_update bit_set_mask bit_clear_mask)
  qed
qed simp

lemma shift_loop_bits:
  assumes "tr < 8" "fr < 8" "8 * fb + fr + n \<le> 8 * length from" "8 * tb + tr + n \<le> 8 * length to"
  shows "\<exists>to'. shift_loop n to tb tr from fb fr = Inr to' \<and> length to' = length to \<and>
    bits_of to' = take (8 * tb + tr) (bits_of to) @ take n (drop (8 * fb + fr) (bits_of from)) @ drop (8 * tb + tr + n) (bits_of to)"
  using assms
proof (induction n arbitrary: to tb tr fb fr)
  case (Suc n)
  let ?b = "from ! fb AND singleBitMask ! fr \<noteq> 0" and ?T = "8 * tb + tr" and ?F = "8 * fb + fr"
  let ?to = "to[tb := if ?b then to ! tb OR singleBitMask ! tr else to ! tb AND NOT (singleBitMask ! tr)]"
  let ?tb = "if tr + 1 = 8 then tb + 1 else tb" and ?tr = "if tr + 1 = 8 then 0 else tr + 1"
  let ?fb = "if fr + 1 = 8 then fb + 1 else fb" and ?fr = "if fr + 1 = 8 then 0 else fr + 1"
  have in_range: "fb < length from" "tb < length to" using Suc.prems by linarith+
  have next_pos: "8 * ?tb + ?tr = ?T + 1" "8 * ?fb + ?fr = ?F + 1" by auto
  have fbit: "?b = bits_of from ! ?F"
    using and_singleBitMask [OF Suc.prems(2), of "from ! fb"] in_range(1) Suc.prems(2) by (simp add: bits_of_nth)
  have upd: "bits_of ?to = (bits_of to)[?T := bits_of from ! ?F]"
    unfolding fbit by (rule bits_of_update [OF in_range(2) Suc.prems(1)])
  have "?tr < 8" "?fr < 8" using Suc.prems by auto
  moreover have "8 * ?fb + ?fr + n \<le> 8 * length from" "8 * ?tb + ?tr + n \<le> 8 * length ?to"
    using Suc.prems unfolding next_pos by simp_all
  ultimately obtain to' where ih: "shift_loop n ?to ?tb ?tr from ?fb ?fr = Inr to'" "length to' = length ?to"
    "bits_of to' = take (?T + 1) (bits_of ?to) @ take n (drop (?F + 1) (bits_of from)) @ drop (?T + 1 + n) (bits_of ?to)"
    using Suc.IH [of ?tr ?fr ?fb ?tb ?to] unfolding next_pos by blast
  have F: "?F < length (bits_of from)" and T: "?T < length (bits_of to)" using Suc.prems by simp_all
  have step: "bits_of from ! ?F # take n (drop (Suc ?F) (bits_of from)) = take (Suc n) (drop ?F (bits_of from))"
    using F by (simp flip: Cons_nth_drop_Suc)
  have "bits_of to' = take ?T (bits_of to) @ (bits_of from ! ?F # take n (drop (Suc ?F) (bits_of from))) @ drop (Suc ?T + n) (bits_of to)"
    unfolding ih(3) upd using T by (simp add: take_Suc_conv_app_nth take_update_swap drop_update_swap list_update_append)
  then have "bits_of to' = take ?T (bits_of to) @ take (Suc n) (drop ?F (bits_of from)) @ drop (?T + Suc n) (bits_of to)"
    unfolding step by simp
  moreover have "shift_loop (Suc n) to tb tr from fb fr = Inr to'"
    using in_range ih(1) by (simp add: Let_def)
  ultimately show ?case using ih(2) by simp
qed simp

lemma shiftBits_bits:
  assumes "F + n \<le> 8 * length from" "T + n \<le> 8 * length to"
  shows "\<exists>to'. shiftBits to T from F n = Inr to' \<and> length to' = length to \<and>
    bits_of to' = take T (bits_of to) @ take n (drop F (bits_of from)) @ drop (T + n) (bits_of to)"
proof (cases "n = 0")
  case False
  then show ?thesis
    using shift_loop_bits [of "T mod 8" "F mod 8" "F div 8" n "from" "T div 8" to] assms by (simp add: shiftBits_def)
qed (simp add: shiftBits_def)

subsection \<open>Bits as numbers\<close>

definition bits_val :: "bool list \<Rightarrow> u32" where
  "bits_val bs = horner_sum of_bool 2 (rev bs)"

definition val_bits :: "nat \<Rightarrow> 'a::len word \<Rightarrow> bool list" where
  "val_bits n w = map (bit w) (rev [0..<n])"

lemma bit_bits_val: "bit (bits_val bs) j \<longleftrightarrow> j < 32 \<and> j < length bs \<and> bs ! (length bs - 1 - j)"
  by (auto simp: bits_val_def bit_horner_sum_bit_word_iff rev_nth)

lemma bits_val_simps [simp]: "bits_val [] = 0" "bits_val [b] = of_bool b"
  by (simp_all add: bits_val_def)

lemma length_val_bits [simp]: "length (val_bits n w) = n"
  by (simp add: val_bits_def)

lemma val_bits_nth: "j < n \<Longrightarrow> val_bits n w ! j = bit w (n - 1 - j)"
  by (simp add: val_bits_def rev_nth)

lemma bits_val_val_bits: "n \<le> 32 \<Longrightarrow> bits_val (val_bits n w) = take_bit n w" for w :: u32
  by (rule bit_word_eqI) (auto simp: bit_bits_val bit_take_bit_iff val_bits_nth)

lemma unat_bits_val: "length bs \<le> 32 \<Longrightarrow> unat (bits_val bs) < 2 ^ length bs"
proof -
  assume "length bs \<le> 32"
  have "bits_val bs = take_bit (length bs) (bits_val bs)"
    by (rule bit_word_eqI) (auto simp: bit_bits_val bit_take_bit_iff)
  then have "unat (bits_val bs) = take_bit (length bs) (unat (bits_val bs))" by (metis unsigned_take_bit_eq)
  then show ?thesis by (metis take_bit_nat_less_exp)
qed

subsection \<open>What the reader sees\<close>

definition bv_ok :: "BitVector \<Rightarrow> bool" where
  "bv_ok bv = (bv_cur bv \<le> bv_tot bv \<and> bv_offset bv + bv_tot bv \<le> 8 * length (bv_base bv) \<and> bv_tot bv < 2 ^ 32)"

definition bv_rest :: "BitVector \<Rightarrow> bool list" where
  "bv_rest bv = take (bv_tot bv - bv_cur bv) (drop (bv_offset bv + bv_cur bv) (bits_of (bv_base bv)))"

definition bv_adv :: "nat \<Rightarrow> BitVector \<Rightarrow> BitVector" where
  "bv_adv n bv = bv\<lparr>bv_cur := bv_cur bv + n\<rparr>"

lemma remaining: "bv_ok bv \<Longrightarrow> numBitsRemaining bv = bv_tot bv - bv_cur bv"
  by (simp add: numBitsRemaining_def bv_ok_def uint_sub_le)

lemma length_rest: "bv_ok bv \<Longrightarrow> length (bv_rest bv) = bv_tot bv - bv_cur bv"
  by (auto simp: bv_rest_def bv_ok_def)

lemma rest_adv: "bv_ok bv \<Longrightarrow> n \<le> length (bv_rest bv) \<Longrightarrow> bv_rest (bv_adv n bv) = drop n (bv_rest bv) \<and> bv_ok (bv_adv n bv)"
  by (auto simp: length_rest) (auto simp: bv_rest_def bv_adv_def bv_ok_def drop_take add.commute add.left_commute)

lemma adv_adv [simp]: "bv_adv n (bv_adv m bv) = bv_adv (m + n) bv" "bv_adv 0 bv = bv"
  by (simp_all add: bv_adv_def)

lemma rest_at:
  assumes "bv_ok bv" "j < length (bv_rest bv)"
  shows "bv_rest bv ! j = bits_of (bv_base bv) ! (bv_offset bv + bv_cur bv + j)"
  using assms by (auto simp: length_rest) (auto simp: bv_rest_def bv_ok_def)

lemma overflowing_ok: "bv_ok bv \<Longrightarrow> overflowing n bv = n - length (bv_rest bv)"
  by (simp add: overflowing_def remaining length_rest)

subsection \<open>The operations on what is left\<close>

lemma get1Bit_rest:
  assumes "bv_ok bv"
  shows "get1Bit bv = (case bv_rest bv of [] \<Rightarrow> Inr (0, bv) | b # _ \<Rightarrow> Inr (of_bool b, bv_adv 1 bv))"
proof (cases "bv_rest bv")
  case Nil
  then have "bv_cur bv \<ge> bv_tot bv" using length_rest [OF assms] by simp
  then show ?thesis by (simp add: get1Bit_def Nil)
next
  case (Cons b bs)
  let ?p = "bv_offset bv + bv_cur bv"
  have "0 < bv_tot bv - bv_cur bv" using length_rest [OF assms] by (metis Cons length_greater_0_conv list.distinct(1))
  then have p: "?p < 8 * length (bv_base bv)" "bv_cur bv < bv_tot bv" using assms by (auto simp: bv_ok_def)
  have "bits_of (bv_base bv) ! ?p = b" using rest_at [OF assms, of 0] Cons by simp
  then have "bit (bv_base bv ! (?p div 8)) (7 - ?p mod 8) = b" using p(1) by (simp add: bits_of_nth)
  then have "(ucast (drop_bit (7 - ?p mod 8) (bv_base bv ! (?p div 8))) :: u32) AND 1 = of_bool b"
    by (intro bit_word_eqI) (auto simp: bit_simps)
  moreover have "?p div 8 < length (bv_base bv)" using p(1) by (simp add: less_mult_imp_div_less mult.commute)
  ultimately show ?thesis using p(2) by (simp add: get1Bit_def Let_def Cons bv_adv_def)
qed

lemma skipBits_rest:
  "bv_ok bv \<Longrightarrow> skipBits n bv = bv_adv (min n (length (bv_rest bv))) bv"
  by (auto simp: skipBits_def remaining length_rest bv_adv_def) (auto simp: bv_ok_def)

lemma word_of_tmp:
  assumes "length tmp = 4"
  shows "bit (push_bit 24 (ucast (tmp ! 0)) OR push_bit 16 (ucast (tmp ! 1)) OR push_bit 8 (ucast (tmp ! 2)) OR ucast (tmp ! 3) :: u32) j
    \<longleftrightarrow> j < 32 \<and> bits_of tmp ! (31 - j)"
proof (cases "j < 32")
  case True
  obtain a b c d where tmp: "tmp = [a, b, c, d]" using assms by (auto simp: numeral_eq_Suc length_Suc_conv)
  consider "j < 8" | "8 \<le> j" "j < 16" | "16 \<le> j" "j < 24" | "24 \<le> j" "j < 32" using True by linarith
  then show ?thesis
  proof cases
    case 1
    then have "31 - j = 8 * 3 + (7 - j)" "7 - j < 8" "7 - (7 - j) = j" by linarith+
    then have "bits_of tmp ! (31 - j) = bit d j" using bits_of_at [of 3 tmp "7 - j"] by (simp add: tmp)
    then show ?thesis using 1 by (simp add: bit_simps tmp)
  next
    case 2
    then have "31 - j = 8 * 2 + (15 - j)" "15 - j < 8" "7 - (15 - j) = (j - 8)" by linarith+
    then have "bits_of tmp ! (31 - j) = bit c (j - 8)" using bits_of_at [of 2 tmp "15 - j"] by (simp add: tmp)
    then show ?thesis using 2 by (auto simp: bit_simps tmp dest: bit_imp_le_length)
  next
    case 3
    then have "31 - j = 8 * 1 + (23 - j)" "23 - j < 8" "7 - (23 - j) = (j - 16)" by linarith+
    then have "bits_of tmp ! (31 - j) = bit b (j - 16)" using bits_of_at [of 1 tmp "23 - j"] by (simp add: tmp)
    then show ?thesis using 3 by (auto simp: bit_simps tmp dest: bit_imp_le_length)
  next
    case 4
    then have "31 - j = 8 * 0 + (31 - j)" "31 - j < 8" "7 - (31 - j) = (j - 24)" by linarith+
    then have "bits_of tmp ! (31 - j) = bit a (j - 24)" using bits_of_at [of 0 tmp "31 - j"] by (simp add: tmp)
    then show ?thesis using 4 by (auto simp: bit_simps tmp dest: bit_imp_le_length)
  qed
next
  case False
  then show ?thesis by (auto dest: bit_imp_le_length)
qed

text \<open>Bits behind the end read as zeros.\<close>

definition padded :: "nat \<Rightarrow> bool list \<Rightarrow> bool list" where
  "padded n bs = take n bs @ replicate (n - length bs) False"

lemma length_padded [simp]: "length (padded n bs) = n"
  by (simp add: padded_def)

lemma padded_nth: "j < n \<Longrightarrow> padded n bs ! j \<longleftrightarrow> j < length bs \<and> bs ! j"
  by (auto simp: padded_def nth_append)

lemma getBits_into_any:
  assumes "bv_ok bv" "length tmp = 4"
  shows "getBits_into tmp n bv =
    (if min n 32 = 32 \<and> bv_rest bv = [] then Inl Undefined_shift
     else Inr (bits_val (padded (min n 32) (bv_rest bv)), bv_adv (min (min n 32) (length (bv_rest bv))) bv))"
proof (cases "n = 0")
  case True
  then show ?thesis by (simp add: getBits_into_def padded_def)
next
  case False
  define m where "m = min n 32"
  have m: "(if n > MAX_LENGTH then MAX_LENGTH else n) = m" "0 < m" "m \<le> 32" using False by (auto simp: m_def MAX_LENGTH_def)
  define k where "k = min m (length (bv_rest bv))"
  have k: "m - overflowing m bv = k" using overflowing_ok [OF assms(1)] by (simp add: k_def)
  have over: "overflowing m bv = m - k" using overflowing_ok [OF assms(1)] by (simp add: k_def)
  let ?F = "bv_offset bv + bv_cur bv"
  have "?F + k \<le> 8 * length (bv_base bv)" using assms(1) length_rest [OF assms(1)] by (auto simp: k_def bv_ok_def)
  then have F: "?F \<le> length (bits_of (bv_base bv))" by simp
  have "?F + k \<le> 8 * length (bv_base bv)" by fact
  moreover have "0 + k \<le> 8 * length tmp" using assms(2) m(3) by (simp add: k_def)
  ultimately obtain tmp' where tmp': "shiftBits tmp 0 (bv_base bv) ?F k = Inr tmp'" "length tmp' = 4"
      "bits_of tmp' = take k (drop ?F (bits_of (bv_base bv))) @ drop k (bits_of tmp)"
    using shiftBits_bits [of ?F k "bv_base bv" 0 tmp] assms(2) by auto
  have len: "length (take k (drop ?F (bits_of (bv_base bv)))) = k"
    using assms(1) length_rest [OF assms(1)] by (auto simp: k_def bv_ok_def)
  have at: "bits_of tmp' ! i = bv_rest bv ! i" if "i < k" for i
    using that rest_at [OF assms(1), of i] len F by (simp add: tmp'(3) nth_append k_def)
  have full: "overflowing m bv \<ge> 32 \<longleftrightarrow> m = 32 \<and> bv_rest bv = []"
    using over m(3) by (cases "bv_rest bv") (auto simp: k_def)
  define r where "r = (push_bit 24 (ucast (tmp' ! 0)) OR push_bit 16 (ucast (tmp' ! 1)) OR push_bit 8 (ucast (tmp' ! 2)) OR ucast (tmp' ! 3) :: u32)"
  have bit_r: "bit r j \<longleftrightarrow> j < 32 \<and> bits_of tmp' ! (31 - j)" for j
    unfolding r_def by (rule word_of_tmp [OF tmp'(2)])
  have "drop_bit (MAX_LENGTH - m) r AND push_bit (overflowing m bv) 0xFFFFFFFF = bits_val (padded m (bv_rest bv))"
  proof (rule bit_word_eqI)
    fix j assume "j < LENGTH(32)"
    then have j: "j < 32" by simp
    have "(0xFFFFFFFF :: u32) = mask 32" by (simp add: mask_numeral)
    then have ones: "bit (push_bit (overflowing m bv) 0xFFFFFFFF :: u32) j \<longleftrightarrow> m - k \<le> j"
      using j by (simp only: over bit_push_bit_iff bit_mask_iff) auto
    have low: "m - k \<le> j \<Longrightarrow> j < m \<Longrightarrow> m - 1 - j < k" by arith
    have "bit (drop_bit (MAX_LENGTH - m) r) j \<longleftrightarrow> j < m \<and> bits_of tmp' ! (m - 1 - j)"
      using m(2,3) by (auto simp: bit_drop_bit_eq bit_r MAX_LENGTH_def)
    then have "bit (drop_bit (MAX_LENGTH - m) r AND push_bit (overflowing m bv) 0xFFFFFFFF) j \<longleftrightarrow>
        m - k \<le> j \<and> j < m \<and> bv_rest bv ! (m - 1 - j)"
      using ones at [of "m - 1 - j"] low by (auto simp: bit_and_iff)
    also have "\<dots> \<longleftrightarrow> bit (bits_val (padded m (bv_rest bv))) j"
      using j by (auto simp: bit_bits_val padded_nth k_def)
    finally show "bit (drop_bit (MAX_LENGTH - m) r AND push_bit (overflowing m bv) 0xFFFFFFFF) j =
        bit (bits_val (padded m (bv_rest bv))) j" .
  qed
  then have "getBits_into tmp n bv = (if overflowing m bv \<ge> 32 then Inl Undefined_shift
      else Inr (bits_val (padded m (bv_rest bv)), bv_adv k bv))"
    by (simp only: getBits_into_def False if_False m(1) Let_def k tmp'(1) res_bind_simps bv_adv_def flip: r_def)
  then show ?thesis using full by (simp add: m_def k_def)
qed

lemma getBits_rest:
  assumes "bv_ok bv"
  shows "getBits n bv =
    (if min n 32 = 32 \<and> bv_rest bv = [] then Inl Undefined_shift
     else Inr (bits_val (padded (min n 32) (bv_rest bv)), bv_adv (min (min n 32) (length (bv_rest bv))) bv))"
  unfolding getBits_def by (rule getBits_into_any [OF assms]) simp

lemma get1BitBoolean_rest:
  "bv_ok bv \<Longrightarrow> get1BitBoolean bv = (case bv_rest bv of [] \<Rightarrow> Inr (False, bv) | b # _ \<Rightarrow> Inr (b, bv_adv 1 bv))"
  by (simp add: get1BitBoolean_def get1Bit_rest split: list.split)

subsection \<open>Exponential-Golomb codes\<close>

lemma golomb_loop_code:
  assumes "bv_ok bv" "bv_rest bv = replicate k False @ True # bs"
  shows "golomb_loop bv z s = Inr (z + k, s * 2 ^ k, bv_adv (k + 1) bv)"
  using assms
proof (induction k arbitrary: bv z s)
  case 0
  then show ?case by (subst golomb_loop.simps) (simp add: get1Bit_rest)
next
  case (Suc k)
  have rest: "bv_rest (bv_adv 1 bv) = replicate k False @ True # bs" and ok: "bv_ok (bv_adv 1 bv)"
    using rest_adv [OF Suc.prems(1), of 1] Suc.prems(2) by simp_all
  have "bv_cur (bv_adv 1 bv) < bv_tot (bv_adv 1 bv)"
    using length_rest [OF ok] unfolding rest by simp
  then have "golomb_loop bv z s = golomb_loop (bv_adv 1 bv) (z + 1) (s * 2)"
    using Suc.prems by (subst golomb_loop.simps) (simp add: get1Bit_rest)
  also have "\<dots> = Inr (z + 1 + k, s * 2 * 2 ^ k, bv_adv (k + 1) (bv_adv 1 bv))"
    by (rule Suc.IH [OF ok rest])
  finally show ?case by simp
qed

lemma golomb_loop_zeros:
  assumes "bv_ok bv" "bv_rest bv = replicate k False"
  shows "golomb_loop bv z s = Inr (z + (k - 1), s * 2 ^ (k - 1), bv_adv k bv)"
  using assms
proof (induction k arbitrary: bv z s)
  case 0
  then have "\<not> bv_cur bv < bv_tot bv" using length_rest [of bv] by simp
  then show ?case using 0 by (subst golomb_loop.simps) (simp add: get1Bit_rest)
next
  case (Suc k)
  have rest: "bv_rest (bv_adv 1 bv) = replicate k False" and ok: "bv_ok (bv_adv 1 bv)"
    using rest_adv [OF Suc.prems(1), of 1] Suc.prems(2) by simp_all
  have "bv_cur (bv_adv 1 bv) < bv_tot (bv_adv 1 bv) \<longleftrightarrow> k \<noteq> 0"
    using length_rest [OF ok] unfolding rest by auto
  then show ?case
    using Suc.prems Suc.IH [OF ok rest] by (subst golomb_loop.simps) (cases k; simp add: get1Bit_rest mult.assoc)
qed

lemma zeros_cases: "(\<exists>k bs. xs = replicate k False @ True # bs) \<or> (\<exists>k. xs = replicate k False)"
proof (induction xs)
  case (Cons x xs)
  show ?case
  proof (cases x)
    case True
    then have "x # xs = replicate 0 False @ True # xs" by simp
    then show ?thesis by blast
  next
    case False
    have "x # replicate k False = replicate (Suc k) False" for k using False by simp
    then show ?thesis using Cons by (metis append_Cons)
  qed
qed simp

text \<open>The number of bits of \<open>n\<close> behind its highest one.\<close>

fun bit_len :: "nat \<Rightarrow> nat" where
  "bit_len n = (if n < 2 then 0 else Suc (bit_len (n div 2)))"

declare bit_len.simps [simp del]

lemma bit_len_bounds: "0 < n \<Longrightarrow> 2 ^ bit_len n \<le> n \<and> n < 2 ^ Suc (bit_len n)"
proof (induction n rule: bit_len.induct)
  case (1 n)
  show ?case
  proof (cases "n < 2")
    case True
    then show ?thesis using 1 by (subst (1 2) bit_len.simps) simp
  next
    case False
    then have "2 ^ bit_len (n div 2) \<le> n div 2 \<and> n div 2 < 2 ^ Suc (bit_len (n div 2))" using 1 by simp
    then show ?thesis using False by (subst (1 2) bit_len.simps) auto
  qed
qed

text \<open>The code words of the H.264 standard, section 9.1: \<open>ue(v)\<close> and \<open>se(v)\<close>.\<close>

definition ue :: "nat \<Rightarrow> bool list" where
  "ue v = (let k = bit_len (v + 1) in replicate k False @ True # val_bits k (of_nat (v + 1) :: u32))"

definition se :: "int \<Rightarrow> bool list" where
  "se i = ue (nat (if 0 < i then 2 * i - 1 else - 2 * i))"

lemma length_ue_le: "v < 2 ^ 32 - 1 \<Longrightarrow> bit_len (v + 1) < 32"
proof -
  assume "v < 2 ^ 32 - 1"
  then have "2 ^ bit_len (v + 1) < (2 :: nat) ^ 32" using bit_len_bounds [of "v + 1"] by linarith
  then show ?thesis by (simp only: power_strict_increasing_iff)
qed

lemma take_bit_high: "2 ^ k \<le> n \<Longrightarrow> n < 2 ^ Suc k \<Longrightarrow> 2 ^ k + take_bit k n = (n :: nat)"
proof -
  assume "2 ^ k \<le> n" "n < 2 ^ Suc k"
  then have "n div 2 ^ k = 1" by (intro div_nat_eqI) simp_all
  then show ?thesis using div_mult_mod_eq [of n "2 ^ k"] by (simp add: take_bit_eq_mod)
qed

lemma get_expGolomb_code:
  assumes "bv_ok bv" "v < 2 ^ 32 - 1" "bv_rest bv = ue v @ bs"
  shows "get_expGolomb bv = Inr (of_nat v, bv_adv (length (ue v)) bv)"
proof -
  define k where "k = bit_len (v + 1)"
  have k: "k < 32" using length_ue_le [OF assms(2)] by (simp add: k_def)
  have n: "2 ^ k \<le> v + 1" "v + 1 < 2 ^ Suc k" using bit_len_bounds [of "v + 1"] by (simp_all add: k_def)
  let ?w = "of_nat (v + 1) :: u32" and ?bv = "bv_adv (k + 1) bv"
  have rest: "bv_rest bv = replicate k False @ True # val_bits k ?w @ bs"
    using assms(3) by (simp add: ue_def k_def Let_def)
  have loop: "golomb_loop bv 0 1 = Inr (k, 2 ^ k, ?bv)" using golomb_loop_code [OF assms(1) rest, of 0 1] by simp
  have bv: "bv_rest ?bv = val_bits k ?w @ bs" "bv_ok ?bv" using rest_adv [OF assms(1), of "k + 1"] rest by simp_all
  have get: "getBits k ?bv = Inr (take_bit k ?w, bv_adv (k + 1 + k) bv)"
    using k bv bits_val_val_bits [of k ?w] by (simp add: getBits_rest padded_def)
  have "(2 :: u32) ^ k - 1 + take_bit k ?w = of_nat v"
  proof -
    have "take_bit k ?w = of_nat (take_bit k (v + 1))" by (simp only: take_bit_of_nat)
    then have "(2 :: u32) ^ k + take_bit k ?w = of_nat (2 ^ k + take_bit k (v + 1))" by simp
    then show ?thesis unfolding take_bit_high [OF n] by (simp add: algebra_simps)
  qed
  moreover have "length (ue v) = k + 1 + k" by (simp add: ue_def k_def Let_def)
  ultimately show ?thesis using get by (simp add: get_expGolomb_def loop)
qed


lemma uint_small: "n < 2 ^ 32 \<Longrightarrow> uint (of_nat n :: u32) = int n"
  by (simp add: unsigned_of_nat take_bit_nat_eq_self)

lemma uint_half: "uint (w div 2) = uint w div 2" for w :: u32
  by (simp add: uint_div_distrib)

lemma get_expGolombSigned_code:
  assumes "bv_ok bv" "- (2 ^ 31) < i" "i < 2 ^ 31" "bv_rest bv = se i @ bs"
  shows "get_expGolombSigned bv = Inr (i, bv_adv (length (se i)) bv)"
proof -
  define v where "v = nat (if 0 < i then 2 * i - 1 else - 2 * i)"
  have v: "v < 2 ^ 32 - 1" using assms(2,3) by (auto simp: v_def nat_less_iff)
  have get: "get_expGolomb bv = Inr (of_nat v, bv_adv (length (se i)) bv)"
    using get_expGolomb_code [OF assms(1) v] assms(4) by (simp add: se_def flip: v_def)
  have parity: "(of_nat v :: u32) AND 1 = 0 \<longleftrightarrow> even v"
    using v by (metis and_one_eq even_of_nat_iff even_word_def even_word_iff dvd_imp_mod_0 mod_0_imp_dvd)
  have half: "uint ((of_nat v :: u32) div 2) = int v div 2" "uint ((of_nat v + 1 :: u32) div 2) = (int v + 1) div 2"
    using v uint_small [of "v + 1"] by (simp_all add: uint_half uint_small add.commute)
  have "(if even v then - (int v div 2) else (int v + 1) div 2) = i"
    by (auto simp: v_def even_nat_iff)
  then show ?thesis by (cases "even v") (simp_all add: get_expGolombSigned_def get parity half)
qed

subsection \<open>What the bit reader promises\<close>

text \<open>
  get_expGolomb reads back every value below 2^32 - 1 and get_expGolombSigned every value
  of less than 31 bits from its exponential Golomb code, wherever it stands, and stops behind
  it.
\<close>

theorem golomb_codes_roundtrip:
  assumes "bv_ok bv"
  shows "(v < 2 ^ 32 - 1 \<and> bv_rest bv = ue v @ bs \<longrightarrow>
      (\<exists>bv'. get_expGolomb bv = Inr (of_nat v, bv') \<and> bv_rest bv' = bs \<and> bv_ok bv')) \<and>
    (\<bar>i\<bar> < 2 ^ 31 \<and> bv_rest bv = se i @ bs \<longrightarrow>
      (\<exists>bv'. get_expGolombSigned bv = Inr (i, bv') \<and> bv_rest bv' = bs \<and> bv_ok bv'))"
  using get_expGolomb_code [OF assms, of v bs] get_expGolombSigned_code [OF assms, of i bs]
    rest_adv [OF assms, of "length (ue v)"] rest_adv [OF assms, of "length (se i)"]
  by auto

theorem golomb_codes_roundtrip_witness:
  "\<exists>bv'. get_expGolomb (bv_setup [0x14] 1 7) = Inr (4, bv') \<and> bv_rest bv' = [False, False]"
proof -
  have ok: "bv_ok (bv_setup [0x14] 1 7)" by (simp add: bv_ok_def bv_setup_def)
  have "bv_rest (bv_setup [0x14] 1 7) = ue 4 @ [False, False]"
    by (simp add: bv_rest_def bv_setup_def byte_bits_def ue_def bit_len.simps val_bits_def upt_rec Let_def)
  then show ?thesis using golomb_codes_roundtrip [OF ok, of 4 "[False, False]" 0] by auto
qed

text \<open>
  getBits never depends on its uninitialised buffer, agrees with get1Bit on one bit, and
  gives the next bits padded with zeros behind the end, except for 32 bits at the very end,
  where it shifts by 32.
\<close>

theorem getBits_reads_padded:
  assumes "bv_ok bv" "length tmpBuf = 4" "n \<le> 32"
  shows "getBits_into tmpBuf n bv = getBits n bv \<and> getBits 1 bv = get1Bit bv \<and>
    (if n = 32 \<and> bv_rest bv = [] then getBits n bv = Inl Undefined_shift
     else \<exists>v bv'. getBits n bv = Inr (v, bv') \<and> v = bits_val (padded n (bv_rest bv)) \<and>
       bv_rest bv' = drop n (bv_rest bv) \<and> bv_ok bv')"
proof (intro conjI)
  show "getBits_into tmpBuf n bv = getBits n bv"
    unfolding getBits_into_any [OF assms(1,2)] getBits_rest [OF assms(1)] by simp
  show "getBits 1 bv = get1Bit bv"
    by (cases "bv_rest bv") (simp_all add: getBits_rest [OF assms(1)] get1Bit_rest [OF assms(1)] padded_def)
  show "if n = 32 \<and> bv_rest bv = [] then getBits n bv = Inl Undefined_shift
     else \<exists>v bv'. getBits n bv = Inr (v, bv') \<and> v = bits_val (padded n (bv_rest bv)) \<and>
       bv_rest bv' = drop n (bv_rest bv) \<and> bv_ok bv'"
    using assms(3) rest_adv [OF assms(1), of "min n (length (bv_rest bv))"]
    by (auto simp: getBits_rest [OF assms(1)] min_def)
qed

theorem getBits_reads_padded_witness:
  "\<exists>v bv'. getBits 12 (bv_setup [0xAB] 0 8) = Inr (v, bv') \<and> bv_rest bv' = []"
proof -
  have "bv_ok (bv_setup [0xAB] 0 8)" by (simp add: bv_ok_def bv_setup_def)
  from getBits_reads_padded [OF this, of "[0, 0, 0, 0]" 12] show ?thesis
    by (auto simp: bv_rest_def bv_setup_def)
qed

lemma bits_of_word32:
  "bits_of [ucast (drop_bit 24 w), ucast (drop_bit 16 w), ucast (drop_bit 8 w), ucast w] = val_bits 32 (w :: u32)" (is "bits_of ?bs = _")
proof (rule nth_equalityI)
  fix p assume "p < length (bits_of ?bs)"
  then have p: "p < 32" by simp
  define q r where "q = p div 8" "r = p mod 8"
  have qr: "p = 8 * q + r" "r < 8" "q < length ?bs" using p by (simp_all add: q_r_def less_mult_imp_div_less)
  have at: "bits_of ?bs ! p = bit (?bs ! q) (7 - r)" unfolding qr(1) by (rule bits_of_at [OF qr(3,2)])
  have w: "val_bits 32 w ! p = bit w (31 - p)" using p by (simp add: val_bits_nth)
  have lt: "7 - r < 8" by simp
  consider "q = 0" | "q = 1" | "q = 2" | "q = 3" using qr(3) by fastforce
  then show "bits_of ?bs ! p = val_bits 32 w ! p"
  proof cases
    case 1
    then have "31 - p = 24 + (7 - r)" using qr by linarith
    then show ?thesis using 1 lt unfolding at w by (simp add: bit_simps)
  next
    case 2
    then have "31 - p = 16 + (7 - r)" using qr by linarith
    then show ?thesis using 2 lt unfolding at w by (simp add: bit_simps)
  next
    case 3
    then have "31 - p = 8 + (7 - r)" using qr by linarith
    then show ?thesis using 3 lt unfolding at w by (simp add: bit_simps)
  next
    case 4
    then have "31 - p = 7 - r" using qr by linarith
    then show ?thesis using 4 lt unfolding at w by (simp add: bit_simps)
  qed
qed simp

lemma putBits_bits:
  assumes "bv_ok bv" "n \<le> 32" "n \<le> length (bv_rest bv)"
  shows "\<exists>base. putBits w n bv = Inr (bv\<lparr>bv_base := base, bv_cur := bv_cur bv + n\<rparr>) \<and> length base = length (bv_base bv) \<and>
    bits_of base = take (bv_offset bv + bv_cur bv) (bits_of (bv_base bv)) @ val_bits n w @
      drop (bv_offset bv + bv_cur bv + n) (bits_of (bv_base bv))"
proof (cases "n = 0")
  case True
  then show ?thesis by (intro exI [of _ "bv_base bv"]) (simp add: putBits_def val_bits_def)
next
  case False
  define tmp :: "byte list" where "tmp = [ucast (drop_bit 24 w), ucast (drop_bit 16 w), ucast (drop_bit 8 w), ucast w]"
  have tmp: "length tmp = 4" "bits_of tmp = val_bits 32 w" unfolding tmp_def by (simp, rule bits_of_word32)
  have "bv_offset bv + bv_cur bv + n \<le> 8 * length (bv_base bv)"
    using assms length_rest [OF assms(1)] by (auto simp: bv_ok_def)
  then obtain base where base: "shiftBits (bv_base bv) (bv_offset bv + bv_cur bv) tmp (32 - n) n = Inr base"
    "length base = length (bv_base bv)"
    "bits_of base = take (bv_offset bv + bv_cur bv) (bits_of (bv_base bv)) @ take n (drop (32 - n) (bits_of tmp)) @
      drop (bv_offset bv + bv_cur bv + n) (bits_of (bv_base bv))"
    using shiftBits_bits [of "32 - n" n tmp] assms(2) tmp(1) by auto
  have "take n (drop (32 - n) (val_bits 32 w)) = val_bits n w"
    using assms(2) by (intro nth_equalityI) (auto simp: val_bits_nth)
  then show ?thesis
    using False base assms(2,3) tmp(2)
    by (intro exI [of _ base]) (simp add: putBits_def Let_def overflowing_ok [OF assms(1)] MAX_LENGTH_def flip: tmp_def)
qed

text \<open>
  What putBits writes is what getBits reads at the same place, both move on by as many
  bits, and no other bit of the data changes.
\<close>

theorem putBits_getBits:
  assumes "bv_ok bv" "n \<le> 32" "n \<le> length (bv_rest bv)"
  shows "\<exists>bv'. putBits w n bv = Inr bv' \<and> getBits n (set_curBitIndex (bv_cur bv) bv') = Inr (take_bit n w, bv') \<and>
    bv_rest bv' = drop n (bv_rest bv) \<and>
    (\<forall>i<8 * length (bv_base bv). i < bv_offset bv + bv_cur bv \<or> bv_offset bv + bv_cur bv + n \<le> i \<longrightarrow>
       bits_of (bv_base bv') ! i = bits_of (bv_base bv) ! i)"
proof -
  let ?P = "bv_offset bv + bv_cur bv"
  obtain base where put: "putBits w n bv = Inr (bv\<lparr>bv_base := base, bv_cur := bv_cur bv + n\<rparr>)"
    and len: "length base = length (bv_base bv)"
    and bits: "bits_of base = take ?P (bits_of (bv_base bv)) @ val_bits n w @ drop (?P + n) (bits_of (bv_base bv))"
    using putBits_bits [OF assms] by blast
  let ?bv' = "bv\<lparr>bv_base := base, bv_cur := bv_cur bv + n\<rparr>" and ?again = "bv\<lparr>bv_base := base\<rparr>"
  have room: "bv_cur bv + n \<le> bv_tot bv" "?P + n \<le> 8 * length (bv_base bv)" "n \<le> bv_tot bv - bv_cur bv"
    using assms length_rest [OF assms(1)] by (auto simp: bv_ok_def)
  have "bv_ok ?again" using assms(1) len by (simp add: bv_ok_def)
  moreover have rest: "bv_rest ?again = val_bits n w @ drop n (bv_rest bv)"
    using room by (simp add: bv_rest_def bits drop_take) (simp add: ac_simps)
  ultimately have "getBits n ?again = Inr (take_bit n w, bv_adv n ?again)"
    using assms(2) bits_val_val_bits [OF assms(2), of w] by (auto simp: getBits_rest padded_def val_bits_def)
  moreover have "set_curBitIndex (bv_cur bv) ?bv' = ?again" "bv_adv n ?again = ?bv'"
    by (simp_all add: set_curBitIndex_def bv_adv_def)
  moreover have "bv_rest ?bv' = drop n (bv_rest bv)"
    using room by (simp add: bv_rest_def bits drop_take) (simp add: ac_simps)
  moreover have "bits_of base ! i = bits_of (bv_base bv) ! i" if "i < ?P \<or> ?P + n \<le> i" "i < 8 * length (bv_base bv)" for i
    using that room(2) by (auto simp: bits nth_append)
  ultimately show ?thesis using put by auto
qed

theorem putBits_getBits_witness:
  "\<exists>bv'. putBits 5 3 (bv_setup [0, 0] 6 8) = Inr bv' \<and> getBits 3 (set_curBitIndex 0 bv') = Inr (take_bit 3 5, bv')"
proof -
  have ok: "bv_ok (bv_setup [0, 0] 6 8)" by (simp add: bv_ok_def bv_setup_def)
  have "3 \<le> length (bv_rest (bv_setup [0, 0] 6 8))" by (simp add: bv_rest_def bv_setup_def)
  from putBits_getBits [OF ok _ this, of 5] show ?thesis by (auto simp: bv_setup_def)
qed

text \<open>A code whose number of leading zeros stays below 32 never yields the largest \<open>unsigned\<close>.\<close>

definition no_run :: "bool list \<Rightarrow> bool" where
  "no_run bs = (\<not> (\<exists>xs ys. bs = xs @ replicate 32 False @ ys))"

lemma no_run_drop: "no_run bs \<Longrightarrow> no_run (drop n bs)"
  unfolding no_run_def by (metis append.assoc append_take_drop_id)

lemma run_bound: "no_run (replicate k False @ bs) \<Longrightarrow> k < 32"
proof (rule ccontr)
  assume "no_run (replicate k False @ bs)" "\<not> k < 32"
  then have "replicate k False @ bs = [] @ replicate 32 False @ (replicate (k - 32) False @ bs)"
    by (simp add: replicate_add [symmetric])
  then show False using \<open>no_run _\<close> unfolding no_run_def by blast
qed

lemma get_expGolomb_total:
  assumes "bv_ok bv"
  shows "case get_expGolomb bv of Inl e \<Rightarrow> e = Undefined_shift
    | Inr (v, bv') \<Rightarrow> (\<exists>n \<le> length (bv_rest bv). bv' = bv_adv n bv) \<and> (no_run (bv_rest bv) \<longrightarrow> v \<noteq> 0xFFFFFFFF)"
proof -
  obtain k l where loop: "golomb_loop bv 0 1 = Inr (k, 2 ^ k, bv_adv l bv)" "l \<le> length (bv_rest bv)"
    and run: "no_run (bv_rest bv) \<longrightarrow> k < 32"
  proof -
    consider (code) k bs where "bv_rest bv = replicate k False @ True # bs" | (zeros) k where "bv_rest bv = replicate k False"
      using zeros_cases by blast
    then show thesis
    proof cases
      case code
      then show thesis using that [of k "k + 1"] golomb_loop_code [OF assms code, of 0 1] run_bound [of k "True # bs"] by simp
    next
      case zeros
      then show thesis using that [of "k - 1" k] golomb_loop_zeros [OF assms zeros, of 0 1] run_bound [of k "[]"]
        by (auto simp: less_imp_diff_less)
    qed
  qed
  have ok: "bv_ok (bv_adv l bv)" and rest: "bv_rest (bv_adv l bv) = drop l (bv_rest bv)"
    using rest_adv [OF assms loop(2)] by simp_all
  let ?v = "bits_val (padded (min k 32) (drop l (bv_rest bv)))"
  have "2 ^ k - 1 + ?v \<noteq> 0xFFFFFFFF" if "k < 32"
  proof
    assume eq: "2 ^ k - 1 + ?v = 0xFFFFFFFF"
    have "unat ?v < 2 ^ k" using unat_bits_val [of "padded k (drop l (bv_rest bv))"] that by simp
    moreover have le: "(2 :: nat) ^ k \<le> 2 ^ 31" using that by (intro power_increasing) simp_all
    moreover have two: "unat ((2 :: u32) ^ k) = 2 ^ k"
    proof -
      have "(2 :: u32) ^ k = of_nat (2 ^ k)" by simp
      also have "unat (of_nat (2 ^ k) :: u32) = 2 ^ k" unfolding unat_of_nat using le by simp
      finally show ?thesis .
    qed
    ultimately have "unat ((2 :: u32) ^ k) + unat ?v < 2 ^ 32" by simp
    then have "unat ((2 :: u32) ^ k + ?v) = unat ((2 :: u32) ^ k) + unat ?v"
      using unat_add_lem [of "(2 :: u32) ^ k" ?v] by simp
    then have "unat ((2 :: u32) ^ k + ?v) = 2 ^ k + unat ?v" unfolding two .
    moreover have "(2 :: u32) ^ k + ?v = 0"
    proof -
      have "(2 :: u32) ^ k + ?v = (2 ^ k - 1 + ?v) + 1" by (simp add: algebra_simps)
      then show ?thesis unfolding eq by simp
    qed
    ultimately show False by simp
  qed
  then show ?thesis
    using loop run rest by (auto simp: get_expGolomb_def getBits_rest [OF ok] intro: exI [of _ "l + min (min k 32) (length (drop l (bv_rest bv)))"])
qed

end
