(* ===== verification/Floating.thy ===== *)
theory Floating
  imports Prelude Complex_Main
begin

text \<open>
  The arithmetic of \<open>double\<close> and \<open>float\<close>: a value is the rational number it stands for, and each operation is the exact
  one followed by rounding to \<open>p\<close> significant bits, to the even one of two nearest. Overflow and the numbers below the
  normal range do not occur in the code modelled with it.
\<close>

subsection \<open>Rounding\<close>

fun bit_length :: "nat \<Rightarrow> nat" where
  "bit_length n = (if n = 0 then 0 else Suc (bit_length (n div 2)))"

declare bit_length.simps [simp del]

text \<open>The exponent of the highest bit of a positive number.\<close>

definition exponent :: "rat \<Rightarrow> int" where
  "exponent x =
     (case quotient_of x of (p, q) \<Rightarrow>
       let k = int (bit_length (nat p)) - int (bit_length (nat q)) in if 2 powi k \<le> x then k else k - 1)"

definition nearest :: "rat \<Rightarrow> int" where
  "nearest y = (let n = \<lfloor>y\<rfloor>; f = y - of_int n in if f < 1 / 2 \<or> f = 1 / 2 \<and> even n then n else n + 1)"

definition fl :: "nat \<Rightarrow> rat \<Rightarrow> rat" where
  "fl p x = (if x = 0 then 0 else let u = 2 powi (exponent \<bar>x\<bar> - int p + 1) in of_int (nearest (x / u)) * u)"

definition dbl :: "rat \<Rightarrow> rat" where "dbl = fl 53"

lemma bit_length_bounds: "0 < n \<Longrightarrow> 2 ^ (bit_length n - 1) \<le> n \<and> n < 2 ^ bit_length n \<and> 0 < bit_length n"
proof (induction n rule: bit_length.induct)
  case (1 n)
  show ?case
  proof (cases "n div 2 = 0")
    case True
    then have "n = 1" using 1(2) by auto
    then show ?thesis by (simp add: bit_length.simps)
  next
    case False
    then have ih: "2 ^ (bit_length (n div 2) - 1) \<le> n div 2" "n div 2 < 2 ^ bit_length (n div 2)" "0 < bit_length (n div 2)"
      using 1 by auto
    moreover have "bit_length n = Suc (bit_length (n div 2))" using 1(2) by (simp add: bit_length.simps [of n])
    moreover obtain j where "bit_length (n div 2) = Suc j" using ih(3) by (metis gr0_conv_Suc)
    moreover have "n \<le> 2 * (n div 2) + 1" "2 * (n div 2) \<le> n" by presburger+
    ultimately show ?thesis by simp
  qed
qed

lemma int_bits:
  assumes "0 < i" "nat i < 2 ^ a" "2 ^ (a - 1) \<le> nat i" "0 < a"
  shows "(2 :: rat) powi (int a - 1) \<le> of_int i \<and> (of_int i :: rat) < 2 powi int a"
proof -
  obtain n where n: "i = int n" using assms(1) by (metis nonneg_int_cases order_less_imp_le)
  have "(2 :: rat) powi (int a - 1) = of_nat (2 ^ (a - 1))"
    using assms(4) by (simp add: power_int_nonneg_exp nat_diff_distrib)
  moreover have "(2 :: rat) powi int a = of_nat (2 ^ a)" by simp
  ultimately show ?thesis using assms(2,3) unfolding n by (simp only: nat_int of_int_of_nat_eq of_nat_le_iff of_nat_less_iff)
qed

lemma exponent_bounds:
  assumes "0 < x"
  shows "2 powi exponent x \<le> x \<and> x < 2 powi (exponent x + 1)"
proof -
  obtain p q where pq: "quotient_of x = (p, q)" by (cases "quotient_of x") auto
  then have q: "0 < q" and x: "x = of_int p / of_int q" by (auto simp: quotient_of_denom_pos quotient_of_div)
  then have p: "0 < p" using assms by (simp add: zero_less_divide_iff)
  define a b where "a = bit_length (nat p)" and "b = bit_length (nat q)"
  have a: "2 ^ (a - 1) \<le> nat p" "nat p < 2 ^ a" "0 < a" and b: "2 ^ (b - 1) \<le> nat q" "nat q < 2 ^ b" "0 < b"
    using bit_length_bounds [of "nat p"] bit_length_bounds [of "nat q"] p q unfolding a_def b_def by auto
  have P: "(2 :: rat) powi (int a - 1) \<le> of_int p" "(of_int p :: rat) < 2 powi int a"
    and Q: "(2 :: rat) powi (int b - 1) \<le> of_int q" "(of_int q :: rat) < 2 powi int b"
    using int_bits [OF p a(2,1,3)] int_bits [OF q b(2,1,3)] by auto
  have "x < 2 powi int a / 2 powi (int b - 1)" unfolding x using P Q p by (intro frac_less) simp_all
  also have "\<dots> = 2 powi (int a - int b + 1)"
    using power_int_diff [of "2 :: rat" "int a" "int b - 1"] by (simp add: algebra_simps)
  finally have above: "x < 2 powi (int a - int b + 1)" .
  have "2 powi (int a - 1) / 2 powi int b \<le> x" unfolding x using P Q p q by (intro frac_le) simp_all
  moreover have "2 powi (int a - 1) / 2 powi int b = (2 :: rat) powi (int a - int b - 1)"
    using power_int_diff [of "2 :: rat" "int a - 1" "int b"] by (simp add: algebra_simps)
  ultimately have below: "2 powi (int a - int b - 1) \<le> x" by simp
  have e: "exponent x = (if 2 powi (int a - int b) \<le> x then int a - int b else int a - int b - 1)"
    by (simp add: exponent_def pq a_def b_def Let_def)
  show ?thesis
  proof (cases "2 powi (int a - int b) \<le> x")
    case True
    then show ?thesis using e above by simp
  next
    case False
    then show ?thesis using e below by simp
  qed
qed

text \<open>What the code relies on: the result is near the exact one, and is the exact one when that has few enough bits.\<close>

lemma powi_iff: "(2 :: rat) powi m \<le> 2 powi n \<longleftrightarrow> m \<le> n" "(2 :: rat) powi m < 2 powi n \<longleftrightarrow> m < n"
proof -
  have "m < n \<Longrightarrow> (2 :: rat) powi m < 2 powi n" for m n by (rule power_int_strict_increasing) simp_all
  then show "(2 :: rat) powi m \<le> 2 powi n \<longleftrightarrow> m \<le> n" "(2 :: rat) powi m < 2 powi n \<longleftrightarrow> m < n"
    by (metis linorder_cases linorder_not_less order_less_asym order_less_irrefl order_refl)+
qed

lemma nearest_error: "\<bar>of_int (nearest y) - y\<bar> \<le> 1 / 2"
proof -
  define n where "n = \<lfloor>y\<rfloor>"
  have "of_int n \<le> y" "y < of_int n + 1" using floor_correct [of y] by (simp_all add: n_def)
  then show ?thesis by (auto simp: nearest_def Let_def abs_if simp flip: n_def)
qed

lemma nearest_of_int [simp]: "nearest (of_int n) = n"
  by (simp add: nearest_def)

lemma fl_error:
  assumes "0 < p"
  shows "\<bar>fl p x - x\<bar> \<le> \<bar>x\<bar> / 2 ^ p"
proof (cases "x = 0")
  case False
  define u :: rat where "u = 2 powi (exponent \<bar>x\<bar> - int p + 1)"
  have u: "0 < u" by (simp add: u_def)
  have "u * 2 ^ (p - 1) = 2 powi exponent \<bar>x\<bar>"
    using assms by (simp add: u_def of_nat_diff flip: power_int_of_nat power_int_add)
  then have "u * 2 ^ (p - 1) \<le> \<bar>x\<bar>" using exponent_bounds [of "\<bar>x\<bar>"] False by simp
  then have "u / 2 \<le> \<bar>x\<bar> / 2 ^ p" using assms by (cases p) (simp_all add: field_simps)
  moreover have "fl p x - x = (of_int (nearest (x / u)) - x / u) * u" 
    using False u by (simp add: fl_def Let_def left_diff_distrib flip: u_def)
  then have "\<bar>fl p x - x\<bar> \<le> 1 / 2 * u" using nearest_error [of "x / u"] u by (simp add: abs_mult)
  ultimately show ?thesis by linarith
qed (simp add: fl_def)

lemma fl_exact:
  assumes "x = of_int m * 2 powi e" "\<bar>m\<bar> \<le> 2 ^ p" "0 < p"
  shows "fl p x = x"
proof (cases "x = 0")
  case False
  define k where "k = exponent \<bar>x\<bar> - int p + 1"
  have m: "m \<noteq> 0" using False assms(1) by auto
  have abs: "\<bar>x\<bar> = of_int \<bar>m\<bar> * 2 powi e" by (simp add: assms(1) abs_mult)
  have "\<exists>i. x / 2 powi k = of_int i"
  proof (cases "\<bar>m\<bar> = 2 ^ p")
    case True
    have "2 powi (int p + e) = (2 :: rat) ^ p * 2 powi e" by (simp add: power_int_add)
    then have x: "\<bar>x\<bar> = 2 powi (int p + e)" using abs True by simp
    then have "exponent \<bar>x\<bar> = int p + e" using exponent_bounds [of "\<bar>x\<bar>"] False by (simp add: powi_iff)
    then have k: "k = e + 1" by (simp add: k_def)
    have "even \<bar>m\<bar>" using True assms(3) by simp
    then obtain i where "m = 2 * i" by (auto elim: evenE)
    then have "x / 2 powi k = of_int i" by (simp add: assms(1) k power_int_add_1)
    then show ?thesis by blast
  next
    case False
    have "(2 :: rat) powi exponent \<bar>x\<bar> \<le> \<bar>x\<bar>" using exponent_bounds [of "\<bar>x\<bar>"] \<open>x \<noteq> 0\<close> by simp
    also have "\<dots> < 2 ^ p * 2 powi e"
    proof -
      have "(of_int \<bar>m\<bar> :: rat) < of_int (2 ^ p)" using assms(2) False by (subst of_int_less_iff) simp
      then show ?thesis unfolding abs by (intro mult_strict_right_mono) simp_all
    qed
    also have "\<dots> = 2 powi (int p + e)" by (simp add: power_int_add)
    finally have "k \<le> e" by (simp add: powi_iff k_def)
    then have "(2 :: rat) powi e = 2 powi k * of_int (2 ^ nat (e - k))"
      using power_int_add [of "2 :: rat" k "e - k"] by (simp add: power_int_nonneg_exp)
    then have "x / 2 powi k = of_int (m * 2 ^ nat (e - k))" by (simp add: assms(1))
    then show ?thesis by blast
  qed
  then obtain i where "x / 2 powi k = of_int i" by blast
  then have "of_int (nearest (x / 2 powi k)) * 2 powi k = x" by (metis nearest_of_int nonzero_eq_divide_eq power_int_not_zero zero_neq_numeral)
  then show ?thesis using \<open>x \<noteq> 0\<close> by (simp add: fl_def Let_def flip: k_def)
qed (simp add: fl_def)

lemma dbl_error: "\<bar>dbl x - x\<bar> \<le> \<bar>x\<bar> / 2 ^ 53"
  unfolding dbl_def by (rule fl_error) simp

lemma dbl_exact: "x = of_int m / 2 ^ k \<Longrightarrow> \<bar>m\<bar> \<le> 2 ^ 53 \<Longrightarrow> dbl x = x"
  unfolding dbl_def by (rule fl_exact [of _ m "- int k"]) (simp_all add: power_int_minus_divide)

lemma dbl_of_int: "\<bar>m\<bar> \<le> 2 ^ 53 \<Longrightarrow> dbl (of_int m) = of_int m"
  by (rule dbl_exact [of _ m 0]) simp_all

text \<open>The floor of a rounded quotient of moderate integers is the integer quotient.\<close>

lemma floor_dbl_quotient:
  assumes "0 < q" "\<bar>p\<bar> < 2 ^ 52"
  shows "\<lfloor>dbl (of_int p / of_int q)\<rfloor> = p div q"
proof -
  let ?x = "of_int p / of_int q :: rat" and ?n = "p div q" and ?r = "p mod q"
  have q: "(0 :: rat) < of_int q" using assms(1) by simp
  have x: "?x = of_int ?n + of_int ?r / of_int q"
    using q by (simp add: field_simps flip: of_int_mult of_int_add)
  have p: "(of_int \<bar>p\<bar> :: rat) < of_int (2 ^ 52)" using assms(2) by (subst of_int_less_iff)
  have "\<bar>?x\<bar> = of_int \<bar>p\<bar> / of_int q" using q by simp
  also have "\<dots> < of_int (2 ^ 52) / of_int q" using p q by (rule divide_strict_right_mono)
  finally have "\<bar>?x\<bar> / 2 ^ 53 \<le> 1 / of_int q / 2" by (simp add: field_simps)
  then have err: "\<bar>dbl ?x - ?x\<bar> \<le> 1 / of_int q / 2" using dbl_error [of ?x] by linarith
  show ?thesis
  proof (cases "?r = 0")
    case True
    then have "?x = of_int ?n" using x by simp
    moreover have "p = q * ?n" using True by (metis mult_div_mod_eq add.right_neutral)
    then have "\<bar>?n\<bar> \<le> \<bar>p\<bar>" using assms(1) mult_right_mono [of 1 q "\<bar>?n\<bar>"] by (metis abs_ge_zero abs_mult abs_of_pos int_one_le_iff_zero_less mult_1)
    then have "\<bar>?n\<bar> \<le> 2 ^ 53" using assms(2) by simp
    ultimately show ?thesis by (simp add: dbl_of_int)
  next
    case False
    then have "1 \<le> ?r" "?r \<le> q - 1" using assms(1) pos_mod_bound [of q p] pos_mod_sign [of q p] by linarith+
    then have r: "(1 :: rat) \<le> of_int ?r" "(of_int ?r :: rat) \<le> of_int q - 1"
      by (metis of_int_1 of_int_le_iff, metis of_int_1 of_int_diff of_int_le_iff)
    define e f X where "e = 1 / (of_int q :: rat)" and "f = (of_int ?r :: rat) / of_int q" and "X = ?x"
    have "e \<le> f" "f \<le> 1 - e" using r q by (simp_all add: e_def f_def field_simps)
    moreover have "0 < e" using q by (simp add: e_def)
    moreover have "X = of_int ?n + f" unfolding X_def f_def by (rule x)
    moreover have "dbl X - X \<le> e / 2" "X - dbl X \<le> e / 2" using err unfolding e_def X_def abs_le_iff by simp_all
    ultimately have "of_int ?n \<le> dbl X" "dbl X < of_int ?n + 1" by linarith+
    then show ?thesis unfolding X_def by (rule floor_unique)
  qed
qed

end
