(* ===== verification/H264_Framer.thy ===== *)
theory H264_Framer
  imports Bit_Vector Floating
begin

text \<open>
  The parser of H.264 and H.265 parameter sets of \<open>broadcast/src/H264Framer.cpp\<close>. A parser works on the members of the
  framer and the bit reader; it yields \<open>None\<close> when the code does not return, an exception, or its result. The frame rate
  is computed in \<open>float\<close>, rounded as IEEE 754 says.
\<close>

subsection \<open>Parsers\<close>

record H264Framer =
  fHNumber :: nat
  CpbDpbDelaysPresentFlag :: bool
  pic_struct_present_flag :: bool
  cpb_removal_delay_length_minus1 :: u32
  dpb_output_delay_length_minus1 :: u32
  DeltaTfiDivisor :: nat
  fps :: int
  width :: int
  height :: int

definition H264Framer_init :: H264Framer where
  "H264Framer_init = \<lparr>fHNumber = 264, CpbDpbDelaysPresentFlag = False, pic_struct_present_flag = False,
     cpb_removal_delay_length_minus1 = 23, dpb_output_delay_length_minus1 = 23, DeltaTfiDivisor = 2,
     fps = 0, width = 0, height = 0\<rparr>"

type_synonym hstate = "H264Framer \<times> BitVector"
type_synonym 'a parser = "hstate \<Rightarrow> ('a \<times> hstate) res option"

definition preturn :: "'a \<Rightarrow> 'a parser" where
  "preturn v s = Some (Inr (v, s))"

definition pbind :: "'a parser \<Rightarrow> ('a \<Rightarrow> 'b parser) \<Rightarrow> 'b parser" where
  "pbind p q s = (case p s of None \<Rightarrow> None | Some (Inl e) \<Rightarrow> Some (Inl e) | Some (Inr (v, s')) \<Rightarrow> q v s')"

abbreviation pseq :: "unit parser \<Rightarrow> 'b parser \<Rightarrow> 'b parser" where
  "pseq p q \<equiv> pbind p (\<lambda>_. q)"

definition plift :: "(BitVector \<Rightarrow> ('a \<times> BitVector) res) \<Rightarrow> 'a parser" where
  "plift p s = (case s of (h, bv) \<Rightarrow> Some (case p bv of Inl e \<Rightarrow> Inl e | Inr (v, bv') \<Rightarrow> Inr (v, (h, bv'))))"

abbreviation p_bits :: "nat \<Rightarrow> u32 parser" where "p_bits n \<equiv> plift (getBits n)"
abbreviation p_flag :: "bool parser" where "p_flag \<equiv> plift get1BitBoolean"
abbreviation p_ue :: "u32 parser" where "p_ue \<equiv> plift get_expGolomb"
abbreviation p_se :: "int parser" where "p_se \<equiv> plift get_expGolombSigned"

definition p_skip :: "nat \<Rightarrow> unit parser" where
  "p_skip n = plift (\<lambda>bv. Inr ((), skipBits n bv))"

text \<open>Reading and assigning members of the framer.\<close>

definition p_framer :: "H264Framer parser" where
  "p_framer s = Some (Inr (fst s, s))"

definition p_set :: "(H264Framer \<Rightarrow> H264Framer) \<Rightarrow> unit parser" where
  "p_set g s = Some (Inr ((), (g (fst s), snd s)))"

definition p_when :: "bool \<Rightarrow> unit parser \<Rightarrow> unit parser" where
  "p_when c p = (if c then p else preturn ())"

definition skip_ue :: "unit parser" where
  "skip_ue = pbind p_ue (\<lambda>_. preturn ())"

definition p_error :: "exc \<Rightarrow> 'a parser" where
  "p_error e s = Some (Inl e)"

text \<open>A counting loop \<open>for (i = \<dots>; i < n; ++i)\<close> over the values \<open>is\<close> of its counter.\<close>

primrec p_for :: "nat list \<Rightarrow> (nat \<Rightarrow> 'a \<Rightarrow> 'a parser) \<Rightarrow> 'a \<Rightarrow> 'a parser" where
  "p_for [] body a = preturn a"
| "p_for (i # is) body a = pbind (body i a) (p_for is body)"

text \<open>
  The loop \<open>for (i = \<dots>; i <= n; ++i)\<close> with an \<open>unsigned\<close> counter: when \<open>n\<close> is the largest value it has no end.
\<close>

partial_function (option) for_le :: "u32 \<Rightarrow> u32 \<Rightarrow> (hstate \<Rightarrow> (unit \<times> hstate) res option) \<Rightarrow> hstate \<Rightarrow> (unit \<times> hstate) res option" where
  "for_le i n body s =
     (if i \<le> n
      then (case body s of None \<Rightarrow> None | Some (Inl e) \<Rightarrow> Some (Inl e) | Some (Inr (u, s')) \<Rightarrow> for_le (i + 1) n body s')
      else Some (Inr ((), s)))"

subsection \<open>Emulation prevention bytes\<close>

text \<open>\<open>i\<close> and \<open>toSize\<close> are the counters of the loop; yields \<open>toSize\<close> and the array written.\<close>

function remove_loop :: "byte list \<Rightarrow> nat \<Rightarrow> byte list \<Rightarrow> nat \<Rightarrow> nat \<Rightarrow> nat \<times> byte list" where
  "remove_loop to toMaxSize from i toSize =
     (if i < length from \<and> toSize + 1 < toMaxSize
      then (if i + 2 < length from \<and> from ! i = 0 \<and> from ! (i + 1) = 0 \<and> from ! (i + 2) = 3
            then remove_loop (to[toSize := 0, toSize + 1 := 0]) toMaxSize from (i + 3) (toSize + 2)
            else remove_loop (to[toSize := from ! i]) toMaxSize from (i + 1) (toSize + 1))
      else (toSize, to))"
  by pat_completeness auto
termination
  by (relation "measure (\<lambda>(to, toMaxSize, from, i, toSize). length from - i)") auto

declare remove_loop.simps [simp del]

definition removeH264or5EmulationBytes :: "byte list \<Rightarrow> nat \<Rightarrow> byte list \<Rightarrow> nat \<times> byte list" where
  "removeH264or5EmulationBytes to toMaxSize from = remove_loop to toMaxSize from 0 0"

definition removeEmulationBytes :: "byte list \<Rightarrow> byte list \<Rightarrow> nat \<Rightarrow> byte list \<times> nat" where
  "removeEmulationBytes nalUnitOrig nalUnitCopy maxSize =
     (case removeH264or5EmulationBytes nalUnitCopy maxSize nalUnitOrig of (n, copy) \<Rightarrow> (copy, n))"

definition VPS_MAX_SIZE :: nat where "VPS_MAX_SIZE = 1000"
definition SPS_MAX_SIZE :: nat where "SPS_MAX_SIZE = 1000"

subsection \<open>Parts of the parameter sets\<close>

text \<open>The two arrays of flags have seven entries.\<close>

definition profile_tier_level :: "u32 \<Rightarrow> unit parser" where
  "profile_tier_level max_sub_layers_minus1 =
     pseq (p_skip 96) (
     pbind (p_for [0..<unat max_sub_layers_minus1] (\<lambda>i present.
        if 7 \<le> i then p_error Undefined_behaviour
        else pbind p_flag (\<lambda>profile. pbind p_flag (\<lambda>level. preturn (present @ [(profile, level)])))) []) (\<lambda>present.
     pseq (p_when (max_sub_layers_minus1 > 0) (p_skip (unat (2 * (8 - max_sub_layers_minus1))))) (
     p_for [0..<unat max_sub_layers_minus1] (\<lambda>i _.
        pseq (p_when (fst (present ! i)) (p_skip 88)) (p_when (snd (present ! i)) (p_skip 8))) ())))"

definition analyze_hrd_parameters :: "unit parser" where
  "analyze_hrd_parameters =
     pbind p_ue (\<lambda>cpb_cnt_minus1.
     pbind (p_bits 4) (\<lambda>bit_rate_scale.
     pbind (p_bits 4) (\<lambda>cpb_size_scale.
     pseq (for_le 0 cpb_cnt_minus1 (pseq skip_ue (pseq skip_ue (pbind p_flag (\<lambda>cbr_flag. preturn ()))))) (
     pbind (p_bits 5) (\<lambda>initial_cpb_removal_delay_length_minus1.
     pbind (p_bits 5) (\<lambda>cpb_removal. pseq (p_set (\<lambda>h. h\<lparr>cpb_removal_delay_length_minus1 := cpb_removal\<rparr>)) (
     pbind (p_bits 5) (\<lambda>dpb_output. pseq (p_set (\<lambda>h. h\<lparr>dpb_output_delay_length_minus1 := dpb_output\<rparr>)) (
     pbind (p_bits 5) (\<lambda>time_offset_length. preturn ()))))))))))"

text \<open>\<open>num_units_in_tick\<close> and \<open>time_scale\<close> are references in the code: passed in and returned here.\<close>

definition vui_hrd :: "unit parser" where
  "vui_hrd =
     pbind p_flag (\<lambda>nal_hrd. pseq (p_when nal_hrd analyze_hrd_parameters) (
     pbind p_flag (\<lambda>vcl_hrd. pseq (p_when vcl_hrd analyze_hrd_parameters) (
     pseq (p_set (\<lambda>h. h\<lparr>CpbDpbDelaysPresentFlag := nal_hrd \<or> vcl_hrd\<rparr>)) (
     pseq (p_when (nal_hrd \<or> vcl_hrd) (p_skip 1)) (
     pbind p_flag (\<lambda>pic_struct. p_set (\<lambda>h. h\<lparr>pic_struct_present_flag := pic_struct\<rparr>))))))))"

definition vui_265 :: "unit parser" where
  "vui_265 =
     pseq (p_set (\<lambda>h. h\<lparr>DeltaTfiDivisor := 1\<rparr>)) (pseq (p_skip 2) (
     pbind p_flag (\<lambda>frame_field_info. pseq (p_set (\<lambda>h. h\<lparr>pic_struct_present_flag := frame_field_info\<rparr>)) (
     pbind p_flag (\<lambda>default_display_window.
       p_when default_display_window (pseq skip_ue (pseq skip_ue (pseq skip_ue skip_ue))))))))"

definition vui_head :: "unit parser" where
  "vui_head =
     pbind p_flag (\<lambda>aspect_ratio_info.
     pseq (p_when aspect_ratio_info (pbind (p_bits 8) (\<lambda>idc. p_when (idc = 255) (p_skip 32)))) (
     pbind p_flag (\<lambda>overscan_info. pseq (p_when overscan_info (p_skip 1)) (
     pbind p_flag (\<lambda>video_signal_type.
     pseq (p_when video_signal_type (pseq (p_skip 4) (pbind p_flag (\<lambda>colour. p_when colour (p_skip 24))))) (
     pbind p_flag (\<lambda>chroma_loc_info. p_when chroma_loc_info (pseq skip_ue skip_ue))))))))"

definition analyze_vui_parameters :: "u32 \<times> u32 \<Rightarrow> (u32 \<times> u32) parser" where
  "analyze_vui_parameters timing =
     pseq vui_head (
     pbind p_framer (\<lambda>h.
     pseq (p_when (fHNumber h = 265) vui_265) (
     pbind p_flag (\<lambda>timing_info.
     if timing_info
     then pbind (p_bits 32) (\<lambda>num_units_in_tick. pbind (p_bits 32) (\<lambda>time_scale.
          if fHNumber h = 264
          then pbind p_flag (\<lambda>fixed_frame_rate. pseq vui_hrd (preturn (num_units_in_tick, time_scale)))
          else pbind p_flag (\<lambda>poc_proportional.
               pseq (p_when poc_proportional skip_ue) (preturn (num_units_in_tick, time_scale)))))
     else pseq vui_hrd (preturn timing)))))"

subsection \<open>Parameter sets\<close>

definition scaling_list :: "nat \<Rightarrow> (u32 \<times> u32) parser" where
  "scaling_list sizeOfScalingList =
     p_for [0..<sizeOfScalingList] (\<lambda>j (lastScale, nextScale).
       pbind (if nextScale \<noteq> 0 then pbind p_se (\<lambda>delta_scale. preturn ((lastScale + of_int delta_scale + 256) mod 256))
              else preturn nextScale) (\<lambda>next.
       preturn (if next = 0 then lastScale else next, next))) (8, 8)"

definition high_profile :: "u32 \<Rightarrow> bool" where
  "high_profile profile_idc = (profile_idc \<in> {100, 110, 122, 244, 44, 83, 86, 118, 128})"

definition sps_chroma :: "unit parser" where
  "sps_chroma =
     pbind p_ue (\<lambda>chroma_format_idc.
     pseq (p_when (chroma_format_idc = 3) (pbind p_flag (\<lambda>separate. preturn ()))) (
     pseq skip_ue (pseq skip_ue (pseq (p_skip 1) (
     pbind p_flag (\<lambda>scaling_matrix.
     p_when scaling_matrix
       (p_for [0..<if chroma_format_idc \<noteq> 3 then 8 else 12] (\<lambda>i _.
          pbind p_flag (\<lambda>present.
          p_when present (pbind (scaling_list (if i < 6 then 16 else 64)) (\<lambda>_. preturn ())))) ())))))))"

definition sps_poc :: "unit parser" where
  "sps_poc =
     pbind p_ue (\<lambda>pic_order_cnt_type.
     if pic_order_cnt_type = 0 then skip_ue
     else if pic_order_cnt_type = 1
     then pseq (p_skip 1) (pbind p_se (\<lambda>_. pbind p_se (\<lambda>_. pbind p_ue (\<lambda>n.
          p_for [0..<unat n] (\<lambda>i _. pbind p_se (\<lambda>_. preturn ())) ()))))
     else preturn ())"

definition sps_264_head :: "unit parser" where
  "sps_264_head =
     pseq (p_skip 8) (
     pbind (p_bits 8) (\<lambda>profile_idc. pbind (p_bits 8) (\<lambda>constraints. pbind (p_bits 8) (\<lambda>level_idc.
     pseq skip_ue (
     pseq (p_when (high_profile profile_idc) sps_chroma) (
     pseq skip_ue (
     pseq sps_poc (
     pseq skip_ue (
     pbind p_flag (\<lambda>gaps.
     pbind p_ue (\<lambda>w. pseq (p_set (\<lambda>h. h\<lparr>width := sint ((w + 1) * 16)\<rparr>)) (
     pbind p_ue (\<lambda>ht. pseq (p_set (\<lambda>h. h\<lparr>height := sint ((ht + 1) * 16)\<rparr>)) (
     pbind p_flag (\<lambda>frame_mbs_only. pseq (p_when (\<not> frame_mbs_only) (p_skip 1)) (
     pseq (p_skip 1) (
     pbind p_flag (\<lambda>cropping. p_when cropping (pseq skip_ue (pseq skip_ue (pseq skip_ue skip_ue)))))))))))))))))))))"

definition sps_264_vui :: "(u32 \<times> u32) parser" where
  "sps_264_vui = pbind p_flag (\<lambda>vui. if vui then analyze_vui_parameters (0, 0) else preturn (0, 0))"

definition sps_264 :: "(u32 \<times> u32) parser" where
  "sps_264 = pseq sps_264_head sps_264_vui"

definition scaling_list_data_265 :: "unit parser" where
  "scaling_list_data_265 =
     p_for [0..<4] (\<lambda>sizeId _. p_for [0..<if sizeId = 3 then 2 else 6] (\<lambda>matrixId _.
       pbind p_flag (\<lambda>pred_mode.
       if \<not> pred_mode then skip_ue
       else (let c = 2 ^ (4 + 2 * sizeId); coefNum = (if c < 64 then c else 64)
             in pseq (p_when (sizeId > 1) skip_ue) (p_for [0..<coefNum] (\<lambda>i _. skip_ue) ())))) ()) ()"

text \<open>The accumulator: \<open>num_negative_pics\<close>, \<open>prev_num_negative_pics\<close>, \<open>num_positive_pics\<close>, \<open>prev_num_positive_pics\<close>.\<close>

definition short_term_ref_pic_sets :: "u32 \<Rightarrow> (u32 \<times> u32 \<times> u32 \<times> u32) parser" where
  "short_term_ref_pic_sets num =
     p_for [0..<unat num] (\<lambda>i (neg, prev_neg, pos, prev_pos).
       pbind (if i \<noteq> 0 then p_flag else preturn False) (\<lambda>inter.
       if inter
       then pseq (p_when (i = unat num) skip_ue) (pseq (p_skip 1) (pseq skip_ue (
            pseq (p_for [0..<unat (prev_neg + prev_pos)] (\<lambda>j _. pbind p_flag (\<lambda>used. p_when (\<not> used) (p_skip 1))) ()) (
            preturn (neg, prev_neg, pos, prev_pos)))))
       else pbind p_ue (\<lambda>neg'. pbind p_ue (\<lambda>pos'.
            pseq (p_for [0..<unat neg'] (\<lambda>k _. pseq skip_ue (p_skip 1)) ()) (
            pseq (p_for [0..<unat pos'] (\<lambda>k _. pseq skip_ue (p_skip 1)) ()) (
            preturn (neg', neg, pos', pos))))))) (0, 0, 0, 0)"

definition sps_265_head :: "u32 \<Rightarrow> unit parser" where
  "sps_265_head max_sub_layers_minus1 =
     pseq (p_skip 1) (
     pseq (profile_tier_level max_sub_layers_minus1) (
     pseq skip_ue (
     pbind p_ue (\<lambda>chroma_format_idc. pseq (p_when (chroma_format_idc = 3) (p_skip 1)) (
     pbind p_ue (\<lambda>w. pseq (p_set (\<lambda>h. h\<lparr>width := sint w\<rparr>)) (
     pbind p_ue (\<lambda>ht. pseq (p_set (\<lambda>h. h\<lparr>height := sint ht\<rparr>)) (
     pbind p_flag (\<lambda>conformance_window.
     pseq (p_when conformance_window (pseq skip_ue (pseq skip_ue (pseq skip_ue skip_ue)))) (
     pseq skip_ue skip_ue)))))))))))"

definition sps_265_tail :: "u32 \<Rightarrow> (u32 \<times> u32) parser" where
  "sps_265_tail log2_max_poc_lsb =
     pbind p_flag (\<lambda>scaling_list_enabled.
     pseq (p_when scaling_list_enabled (pbind p_flag (\<lambda>present. p_when present scaling_list_data_265))) (
     pseq (p_skip 2) (
     pbind p_flag (\<lambda>pcm. pseq (p_when pcm (pseq (p_skip 8) (pseq skip_ue (pseq skip_ue (p_skip 1))))) (
     pbind p_ue (\<lambda>num_sets. pbind (short_term_ref_pic_sets num_sets) (\<lambda>_.
     pbind p_flag (\<lambda>long_term.
     pseq (p_when long_term (pbind p_ue (\<lambda>n.
       p_for [0..<unat n] (\<lambda>i _. pseq (p_skip (unat log2_max_poc_lsb)) (p_skip 1)) ()))) (
     pseq (p_skip 2) (
     pbind p_flag (\<lambda>vui.
     pbind (if vui then analyze_vui_parameters (0, 0) else preturn (0, 0)) (\<lambda>timing.
     pbind p_flag (\<lambda>extension. preturn timing)))))))))))))"

definition sps_265 :: "(u32 \<times> u32) parser" where
  "sps_265 =
     pseq (p_skip 16) (pseq (p_skip 4) (
     pbind (p_bits 3) (\<lambda>max_sub_layers_minus1.
     pseq (sps_265_head max_sub_layers_minus1) (
     pbind p_ue (\<lambda>log2_max_poc_lsb.
     pbind p_flag (\<lambda>ordering_info.
     pseq (for_le (if ordering_info then 0 else max_sub_layers_minus1) max_sub_layers_minus1 (pseq skip_ue (pseq skip_ue skip_ue))) (
     pseq skip_ue (pseq skip_ue (pseq skip_ue (pseq skip_ue (pseq skip_ue (pseq skip_ue (
     sps_265_tail log2_max_poc_lsb)))))))))))))"

text \<open>
  The quotient of two \<open>float\<close>s, rounded to the nearest integer, halves away from zero; the conversion to \<open>int\<close> is
  undefined for a value that does not fit.
\<close>

definition frame_rate :: "u32 \<times> u32 \<Rightarrow> nat \<Rightarrow> int res" where
  "frame_rate timing divisor =
     (case timing of (num_units_in_tick, time_scale) \<Rightarrow>
        if time_scale > 0 \<and> num_units_in_tick > 0
        then (let q = fl 24 (fl 24 (of_int (uint time_scale)) / fl 24 (dbl (of_nat divisor * of_int (uint num_units_in_tick))));
                  r = \<lfloor>q + 1 / 2\<rfloor>
              in if r < 2 ^ 31 then Inr r else Inl Undefined_conversion)
        else Inr 30)"

definition set_fps :: "u32 \<times> u32 \<Rightarrow> H264Framer \<Rightarrow> H264Framer res" where
  "set_fps timing h = res_bind (frame_rate timing (DeltaTfiDivisor h)) (\<lambda>r. Inr (h\<lparr>fps := r\<rparr>))"

text \<open>\<open>sps\<close> is what the array on the stack held. Yields \<open>num_units_in_tick\<close> and \<open>time_scale\<close>.\<close>

definition analyze_seq_parameter_set_data ::
    "byte list \<Rightarrow> byte list \<Rightarrow> H264Framer \<Rightarrow> ((u32 \<times> u32) \<times> H264Framer) res option" where
  "analyze_seq_parameter_set_data sps nalUnitOrig h =
     (case removeEmulationBytes nalUnitOrig sps SPS_MAX_SIZE of (copy, spsSize) \<Rightarrow>
        (case (if fHNumber h = 264 then sps_264 else sps_265) (h, bv_setup copy 0 (8 * spsSize)) of
           None \<Rightarrow> None
         | Some (Inl e) \<Rightarrow> Some (Inl e)
         | Some (Inr (timing, (h', _))) \<Rightarrow> Some (res_bind (set_fps timing h') (\<lambda>h'. Inr (timing, h')))))"

definition vps_265 :: "(u32 \<times> u32) parser" where
  "vps_265 =
     pseq (p_skip 28) (
     pbind (p_bits 3) (\<lambda>max_sub_layers_minus1.
     pseq (p_skip 17) (
     pseq (profile_tier_level max_sub_layers_minus1) (
     pbind p_flag (\<lambda>ordering_info.
     pseq (for_le (if ordering_info then 0 else max_sub_layers_minus1) max_sub_layers_minus1 (pseq skip_ue (pseq skip_ue skip_ue))) (
     pbind (p_bits 6) (\<lambda>max_layer_id.
     pbind p_ue (\<lambda>num_layer_sets_minus1.
     pseq (for_le 1 num_layer_sets_minus1 (p_skip (unat (max_layer_id + 1)))) (
     pbind p_flag (\<lambda>timing_info.
     pbind (if timing_info
            then pbind (p_bits 32) (\<lambda>num_units_in_tick. pbind (p_bits 32) (\<lambda>time_scale.
                 pbind p_flag (\<lambda>poc_proportional.
                 pseq (p_when poc_proportional skip_ue) (preturn (num_units_in_tick, time_scale)))))
            else preturn (0, 0)) (\<lambda>timing.
     pbind p_flag (\<lambda>extension. preturn timing))))))))))))"

definition analyze_video_parameter_set_data ::
    "byte list \<Rightarrow> byte list \<Rightarrow> H264Framer \<Rightarrow> ((u32 \<times> u32) \<times> H264Framer) res option" where
  "analyze_video_parameter_set_data vps nalUnitOrig h =
     (case removeEmulationBytes nalUnitOrig vps VPS_MAX_SIZE of (copy, vpsSize) \<Rightarrow>
        (case vps_265 (h, bv_setup copy 0 (8 * vpsSize)) of
           None \<Rightarrow> None
         | Some (Inl e) \<Rightarrow> Some (Inl e)
         | Some (Inr (timing, (h', _))) \<Rightarrow> Some (Inr (timing, h'))))"

subsection \<open>Emulation prevention\<close>

text \<open>
  What an encoder does (H.264 section 7.4.1): after two zeros a byte of at most 3 is preceded by a byte 3. \<open>z\<close> is the
  number of zeros just written.
\<close>

fun escape_from :: "nat \<Rightarrow> byte list \<Rightarrow> byte list" where
  "escape_from z [] = []"
| "escape_from z (b # bs) =
     (if 2 \<le> z \<and> b \<le> 3 then 3 # b # escape_from (if b = 0 then 1 else 0) bs
      else b # escape_from (if b = 0 then z + 1 else 0) bs)"

text \<open>The loop of the code on the bytes that are left, without the array.\<close>

fun unescape :: "byte list \<Rightarrow> byte list" where
  "unescape (a # b # c # bs) = (if a = 0 \<and> b = 0 \<and> c = 3 then 0 # 0 # unescape bs else a # unescape (b # c # bs))"
| "unescape bs = bs"

lemma unescape_other: "xs = b # bs \<Longrightarrow> \<not> (\<exists>bs'. xs = 0 # 0 # 3 # bs') \<Longrightarrow> unescape xs = b # unescape bs"
  by (cases xs rule: unescape.cases) auto

lemma remove_loop_unescape:
  assumes "toSize + length (unescape (drop i from)) < m" "m \<le> length to"
  shows "remove_loop to m from i toSize =
    (toSize + length (unescape (drop i from)),
     take toSize to @ unescape (drop i from) @ drop (toSize + length (unescape (drop i from))) to)"
  using assms
proof (induction to m "from" i toSize rule: remove_loop.induct)
  case (1 to m "from" i toSize)
  show ?case
  proof (cases "i < length from")
    case False
    then show ?thesis by (subst remove_loop.simps) simp
  next
    case True
    let ?c = "i + 2 < length from \<and> from ! i = 0 \<and> from ! (i + 1) = 0 \<and> from ! (i + 2) = 3"
    show ?thesis
    proof (cases ?c)
      case c: True
      have d: "drop i from = 0 # 0 # 3 # drop (i + 3) from"
        using c by (metis Cons_nth_drop_Suc Suc_1 Suc_eq_plus1 Suc_lessD add_2_eq_Suc' eval_nat_numeral(3) add_Suc_right)
      then have u: "unescape (drop i from) = 0 # 0 # unescape (drop (i + 3) from)" by simp
      have room: "toSize + 1 < m" "toSize + 2 + length (unescape (drop (i + 3) from)) < m" using "1.prems"(1) by (simp_all add: u)
      have "remove_loop to m from i toSize = remove_loop (to[toSize := 0, toSize + 1 := 0]) m from (i + 3) (toSize + 2)"
        using True room(1) c by (subst remove_loop.simps) simp
      also have "\<dots> = (toSize + 2 + length (unescape (drop (i + 3) from)),
          take (toSize + 2) (to[toSize := 0, toSize + 1 := 0]) @ unescape (drop (i + 3) from) @
          drop (toSize + 2 + length (unescape (drop (i + 3) from))) (to[toSize := 0, toSize + 1 := 0]))"
        using "1.IH"(1) True room c "1.prems"(2) by simp
      also have "take (toSize + 2) (to[toSize := 0, toSize + 1 := 0]) = take toSize to @ [0, 0]"
        using room(1) "1.prems"(2) by (simp add: take_Suc_conv_app_nth list_update_append)
      finally show ?thesis by (simp add: u)
    next
      case c: False
      have d: "drop i from = from ! i # drop (i + 1) from" using True by (simp add: Cons_nth_drop_Suc)
      have u: "unescape (drop i from) = from ! i # unescape (drop (i + 1) from)"
      proof (rule unescape_other [OF d], rule notI, erule exE)
        fix bs' assume e: "drop i from = 0 # 0 # 3 # bs'"
        then have "length (drop i from) \<ge> 3" by simp
        moreover have "drop i from ! 0 = 0" "drop i from ! 1 = 0" "drop i from ! 2 = 3" unfolding e by simp_all
        ultimately show False using c by simp
      qed
      have room: "toSize + 1 < m" "toSize + 1 + length (unescape (drop (i + 1) from)) < m" using "1.prems"(1) by (simp_all add: u)
      have "remove_loop to m from i toSize = remove_loop (to[toSize := from ! i]) m from (i + 1) (toSize + 1)"
        using True room(1) c by (subst remove_loop.simps) auto
      also have "\<dots> = (toSize + 1 + length (unescape (drop (i + 1) from)),
          take (toSize + 1) (to[toSize := from ! i]) @ unescape (drop (i + 1) from) @
          drop (toSize + 1 + length (unescape (drop (i + 1) from))) (to[toSize := from ! i]))"
        using "1.IH"(2) True room c "1.prems"(2) by simp
      also have "take (toSize + 1) (to[toSize := from ! i]) = take toSize to @ [from ! i]"
        using room(1) "1.prems"(2) by (simp add: take_Suc_conv_app_nth)
      finally show ?thesis by (simp add: u)
    qed
  qed
qed

lemma unescape_escape: "unescape (escape_from 0 bs) = bs"
proof (induction bs rule: length_induct)
  case (1 bs)
  have step: "escape_from 0 (b # cs) = b # escape_from (if b = 0 then 1 else 0) cs" for b cs by simp
  show ?case
  proof (cases bs)
    case (Cons b cs)
    show ?thesis
    proof (cases "b = 0")
      case False
      then show ?thesis using 1 Cons by (subst unescape_other [of _ b "escape_from 0 cs"]) auto
    next
      case True
      show ?thesis
      proof (cases cs)
        case Nil
        then show ?thesis using Cons by simp
      next
        case cs: (Cons c ds)
        show ?thesis
        proof (cases "c = 0")
          case False
          then have "escape_from 0 bs = 0 # escape_from 0 cs" using Cons True cs by simp
          moreover have "unescape (0 # escape_from 0 cs) = 0 # unescape (escape_from 0 cs)"
            using False cs by (intro unescape_other) auto
          ultimately show ?thesis using 1 Cons True by simp
        next
          case c: True
          have esc: "escape_from 0 bs = 0 # 0 # escape_from 2 ds" using Cons True cs c by (simp add: numeral_2_eq_2)
          have ih: "unescape (escape_from 0 ds) = ds" using 1 Cons cs by simp
          show ?thesis
          proof (cases "ds \<noteq> [] \<and> hd ds \<le> 3")
            case True
            then obtain d es where "ds = d # es" "d \<le> 3" by (cases ds) auto
            then have "escape_from 2 ds = 3 # escape_from 0 ds" by simp
            then show ?thesis using esc ih Cons cs c \<open>b = 0\<close> by simp
          next
            case False
            then have e2: "escape_from 2 ds = escape_from 0 ds" and not3: "\<not> (\<exists>es. escape_from 0 ds = 3 # es)"
              and not0: "\<not> (\<exists>es. escape_from 0 ds = 0 # es)"
              by (cases ds; auto)+
            have "unescape (0 # 0 # escape_from 0 ds) = 0 # unescape (0 # escape_from 0 ds)"
              using not3 by (intro unescape_other) auto
            also have "unescape (0 # escape_from 0 ds) = 0 # unescape (escape_from 0 ds)"
              using not0 by (intro unescape_other) auto
            finally show ?thesis using esc e2 ih Cons cs c \<open>b = 0\<close> by simp
          qed
        qed
      qed
    qed
  qed simp
qed

text \<open>
  Removing the emulation prevention from what an encoder made of a payload below the size
  of the copy gives the payload back and leaves the bytes behind it.
\<close>

theorem emulation_bytes_removed:
  assumes "length rbsp < toMaxSize" "toMaxSize \<le> length to"
  shows "removeH264or5EmulationBytes to toMaxSize (escape_from 0 rbsp) = (length rbsp, rbsp @ drop (length rbsp) to)"
  using remove_loop_unescape [of 0 0 "escape_from 0 rbsp" toMaxSize to] assms
  by (simp add: removeH264or5EmulationBytes_def unescape_escape)

theorem emulation_bytes_removed_witness:
  "removeH264or5EmulationBytes [9, 9, 9, 9, 9, 9] 6 [0, 0, 3, 0, 0, 3, 1] = (5, [0, 0, 0, 0, 1, 9])"
proof -
  have "escape_from 0 [0, 0, 0, 0, 1] = [0, 0, 3, 0, 0, 3, 1]" by code_simp
  then show ?thesis using emulation_bytes_removed [of "[0, 0, 0, 0, 1]" 6 "[9, 9, 9, 9, 9, 9]"] by simp
qed

subsection \<open>What a parser keeps\<close>

text \<open>
  A parser from a well-formed reader: it fails only by the shift of \<open>getBits(32)\<close> at the end of the data, and otherwise
  its result satisfies \<open>Q\<close>. With \<open>b\<close>, that is for data without 32 zero bits in a row, it also returns.
\<close>

definition post :: "bool \<Rightarrow> BitVector \<Rightarrow> ('a \<Rightarrow> bool) \<Rightarrow> ('a \<times> hstate) res option \<Rightarrow> bool" where
  "post b bv Q r = (case r of None \<Rightarrow> \<not> b | Some (Inl e) \<Rightarrow> e = Undefined_shift
     | Some (Inr (v, (h', bv'))) \<Rightarrow> (\<exists>n \<le> length (bv_rest bv). bv' = bv_adv n bv) \<and> Q v)"

definition wp :: "bool \<Rightarrow> 'a parser \<Rightarrow> ('a \<Rightarrow> bool) \<Rightarrow> bool" where
  "wp b p Q \<longleftrightarrow> (\<forall>h bv. bv_ok bv \<longrightarrow> (b \<longrightarrow> no_run (bv_rest bv)) \<longrightarrow> post b bv Q (p (h, bv)))"

lemma post_simps [simp]:
  "post b bv Q None \<longleftrightarrow> \<not> b" "post b bv Q (Some (Inl e)) \<longleftrightarrow> e = Undefined_shift"
  "post b bv Q (Some (Inr (v, h', bv'))) \<longleftrightarrow> (\<exists>n \<le> length (bv_rest bv). bv' = bv_adv n bv) \<and> Q v"
  by (simp_all add: post_def)

lemma presult_cases:
  obtains (none) "r = None" | (error) e where "r = Some (Inl e)" | (result) v h bv where "r = Some (Inr (v, h, bv))"
proof (cases r)
  case (Some x)
  show thesis
  proof (cases x)
    case (Inl e)
    then show thesis using that(2) Some by simp
  next
    case (Inr y)
    then show thesis using that(3) [of "fst y" "fst (snd y)" "snd (snd y)"] Some by simp
  qed
qed (rule that(1))

lemma post_weaken: "post b bv Q r \<Longrightarrow> (\<And>v. Q v \<Longrightarrow> R v) \<Longrightarrow> post b bv R r"
  by (cases r rule: presult_cases) auto

lemma post_later:
  "bv_ok bv \<Longrightarrow> n \<le> length (bv_rest bv) \<Longrightarrow> post b (bv_adv n bv) Q r \<Longrightarrow> post b bv Q r"
proof (cases r rule: presult_cases)
  case (result v h bv')
  assume "bv_ok bv" "n \<le> length (bv_rest bv)" "post b (bv_adv n bv) Q r"
  then obtain m where "m \<le> length (bv_rest bv) - n" "bv' = bv_adv (n + m) bv" "Q v"
    using rest_adv [of bv n] by (auto simp: result)
  then show ?thesis using \<open>n \<le> _\<close> by (auto simp: result intro: exI [of _ "n + m"])
qed auto

lemma wp_weaken: "wp b p Q \<Longrightarrow> (\<And>v. Q v \<Longrightarrow> R v) \<Longrightarrow> wp b p R"
  unfolding wp_def using post_weaken by blast

lemma wp_return: "Q v \<Longrightarrow> wp b (preturn v) Q"
  by (auto simp: wp_def preturn_def intro: exI [of _ 0])

lemma wp_return_True: "wp b (preturn v) (\<lambda>_. True)"
  by (rule wp_return) simp

lemma wp_bind:
  assumes "wp b p Q" "\<And>v. Q v \<Longrightarrow> wp b (q v) R"
  shows "wp b (pbind p q) R"
  unfolding wp_def
proof (intro allI impI)
  fix h bv assume bv: "bv_ok bv" "b \<longrightarrow> no_run (bv_rest bv)"
  have p: "post b bv Q (p (h, bv))" using assms(1) bv by (simp add: wp_def)
  show "post b bv R (pbind p q (h, bv))"
  proof (cases "p (h, bv)" rule: presult_cases)
    case (result v h' bv')
    then obtain n where n: "n \<le> length (bv_rest bv)" "bv' = bv_adv n bv" "Q v" using p by auto
    have "bv_rest bv' = drop n (bv_rest bv)" "bv_ok bv'" using rest_adv [of bv n] bv(1) n by simp_all
    then have "post b bv' R (q v (h', bv'))" using assms(2) [OF n(3)] bv(2) no_run_drop by (simp add: wp_def)
    then show ?thesis using post_later [OF bv(1) n(1)] n(2) result by (simp add: pbind_def)
  qed (use p in \<open>simp_all add: pbind_def\<close>)
qed

lemma wp_framer: "wp b p_framer (\<lambda>_. True)"
  by (auto simp: wp_def p_framer_def intro: exI [of _ 0])

lemma wp_set: "wp b (p_set g) (\<lambda>_. True)"
  by (auto simp: wp_def p_set_def intro: exI [of _ 0])

lemma wp_when: "(c \<Longrightarrow> wp b p (\<lambda>_. True)) \<Longrightarrow> wp b (p_when c p) (\<lambda>_. True)"
  by (simp add: p_when_def wp_return)

lemma wp_if: "(c \<Longrightarrow> wp b p Q) \<Longrightarrow> (\<not> c \<Longrightarrow> wp b q Q) \<Longrightarrow> wp b (if c then p else q) Q"
  by simp

lemma wp_skip: "wp b (p_skip n) (\<lambda>_. True)"
  by (auto simp: wp_def p_skip_def plift_def skipBits_rest intro!: exI [of _ "min n m" for m])

lemma wp_bits: "n \<le> 32 \<Longrightarrow> wp b (p_bits n) (\<lambda>v. unat v < 2 ^ n)"
  using unat_bits_val [of "padded n bs" for bs] by (auto simp: wp_def plift_def getBits_rest intro!: exI [of _ "min n m" for m])

lemmas wp_bits_instances =
  wp_bits [of 3, simplified] wp_bits [of 4, simplified] wp_bits [of 5, simplified] wp_bits [of 6, simplified]
  wp_bits [of 8, simplified] wp_bits [of 32, simplified]

lemma wp_flag: "wp b p_flag (\<lambda>_. True)"
  by (auto simp: wp_def plift_def get1BitBoolean_rest split: list.split intro: exI [of _ 0] exI [of _ 1])

lemma wp_ue: "wp b p_ue (\<lambda>v. b \<longrightarrow> v \<noteq> 0xFFFFFFFF)"
  unfolding wp_def
proof (intro allI impI)
  fix h bv assume "bv_ok bv" "b \<longrightarrow> no_run (bv_rest bv)"
  then show "post b bv (\<lambda>v. b \<longrightarrow> v \<noteq> 0xFFFFFFFF) (p_ue (h, bv))"
    using get_expGolomb_total [of bv] by (auto simp: plift_def split: sum.splits)
qed

lemma wp_se: "wp b p_se (\<lambda>_. True)"
  unfolding wp_def
proof (intro allI impI)
  fix h bv assume "bv_ok bv" "b \<longrightarrow> no_run (bv_rest bv)"
  then show "post b bv (\<lambda>_. True) (p_se (h, bv))"
    using get_expGolomb_total [of bv] by (auto simp: plift_def get_expGolombSigned_def res_bind_def split: sum.splits)
qed

lemma wp_skip_ue: "wp b skip_ue (\<lambda>_. True)"
  unfolding skip_ue_def by (rule wp_bind [OF wp_ue], rule wp_return, rule TrueI)

lemma wp_for: "(\<And>i a. i \<in> set is \<Longrightarrow> P a \<Longrightarrow> wp b (body i a) P) \<Longrightarrow> P a \<Longrightarrow> wp b (p_for is body a) P"
  by (induction "is" arbitrary: a) (auto intro!: wp_return intro: wp_bind)

lemma wp_for_True:
  "(\<And>i a. i \<in> set is \<Longrightarrow> wp b (body i a) (\<lambda>_. True)) \<Longrightarrow> wp b (p_for is body a) (\<lambda>_. True)"
  by (rule wp_for) auto

lemma wp_ue_True: "wp b p_ue (\<lambda>_. True)"
  by (rule wp_weaken [OF wp_ue]) simp

lemma for_le_partial:
  assumes "for_le i n body s = Some r"
  shows "wp False body (\<lambda>_. True) \<longrightarrow> bv_ok (snd s) \<longrightarrow> post False (snd s) (\<lambda>_. True) (Some r)"
proof (rule for_le.raw_induct [where P = "\<lambda>i n body s r. wp False body (\<lambda>_. True) \<longrightarrow> bv_ok (snd s) \<longrightarrow>
      post False (snd s) (\<lambda>_. True) (Some r)", OF _ assms])
  fix loop :: "u32 \<Rightarrow> u32 \<Rightarrow> unit parser \<Rightarrow> unit parser" and i n body s r
  assume ih: "\<And>i n body s r. loop i n body s = Some r \<Longrightarrow> wp False body (\<lambda>_. True) \<longrightarrow> bv_ok (snd s) \<longrightarrow>
      post False (snd s) (\<lambda>_. True) (Some r)"
    and r: "(if i \<le> n then (case body s of None \<Rightarrow> None | Some (Inl e) \<Rightarrow> Some (Inl e) | Some (Inr (u, s')) \<Rightarrow> loop (i + 1) n body s')
      else Some (Inr ((), s))) = Some r"
  show "wp False body (\<lambda>_. True) \<longrightarrow> bv_ok (snd s) \<longrightarrow> post False (snd s) (\<lambda>_. True) (Some r)"
  proof (intro impI)
    assume body: "wp False body (\<lambda>_. True)" and ok: "bv_ok (snd s)"
    obtain h bv where s: "s = (h, bv)" by (cases s)
    have p: "post False bv (\<lambda>_. True) (body (h, bv))" using body ok s by (simp add: wp_def)
    show "post False (snd s) (\<lambda>_. True) (Some r)"
    proof (cases "i \<le> n")
      case False
      then have "r = Inr ((), s)" using r by simp
      then show ?thesis using s by (auto intro: exI [of _ 0])
    next
      case True
      show ?thesis
      proof (cases "body (h, bv)" rule: presult_cases)
        case (result v h' bv')
        then obtain k where k: "k \<le> length (bv_rest bv)" "bv' = bv_adv k bv" using p by auto
        have "bv_ok bv'" using rest_adv [of bv k] ok s k by simp
        moreover have "loop (i + 1) n body (h', bv') = Some r" using r True result s by simp
        ultimately have "post False bv' (\<lambda>_. True) (Some r)" using ih body by fastforce
        then show ?thesis using post_later [of bv k] ok k s by simp
      qed (use p True r s in auto)
    qed
  qed
qed

text \<open>The counter reaches \<open>n\<close> and stops, unless \<open>n\<close> is the largest value.\<close>

lemma unat_below_max: "n \<noteq> 0xFFFFFFFF \<Longrightarrow> i \<le> n \<Longrightarrow> unat (i + 1) = unat i + 1" for i n :: u32
proof -
  assume n: "n \<noteq> 0xFFFFFFFF" "i \<le> n"
  have "unat n < 2 ^ LENGTH(32)" by (rule unsigned_less)
  moreover have "unat n \<noteq> unat (0xFFFFFFFF :: u32)" using n(1) by (metis unsigned_word_eqI)
  ultimately have "unat n + 1 < 2 ^ 32" by simp
  then have "unat i + 1 < 2 ^ 32" using n(2) by (simp add: word_le_nat_alt)
  then show ?thesis using unat_add_lem [of i 1] by simp
qed

lemma for_le_total:
  assumes n: "n \<noteq> 0xFFFFFFFF" and body: "wp True body (\<lambda>_. True)"
  shows "wp True (for_le i n body) (\<lambda>_. True)"
proof -
  have "post True bv (\<lambda>_. True) (for_le i n body (h, bv))" if "bv_ok bv" "no_run (bv_rest bv)" for h bv
    using that
  proof (induction "unat n + 1 - unat i" arbitrary: i h bv)
    case 0
    then have "\<not> i \<le> n" by (simp add: word_le_nat_alt)
    then show ?case by (subst for_le.simps) (auto intro: exI [of _ 0])
  next
    case (Suc m)
    have p: "post True bv (\<lambda>_. True) (body (h, bv))" using body Suc.prems by (simp add: wp_def)
    show ?case
    proof (cases "i \<le> n")
      case False
      then show ?thesis by (subst for_le.simps) (auto intro: exI [of _ 0])
    next
      case True
      show ?thesis
      proof (cases "body (h, bv)" rule: presult_cases)
        case (result v h' bv')
        then obtain k where k: "k \<le> length (bv_rest bv)" "bv' = bv_adv k bv" using p by auto
        have "bv_rest bv' = drop k (bv_rest bv)" "bv_ok bv'" using rest_adv [of bv k] Suc.prems(1) k by simp_all
        then have "post True bv' (\<lambda>_. True) (for_le (i + 1) n body (h', bv'))"
          using Suc.hyps(2) Suc.prems(2) no_run_drop unat_below_max [OF n True] by (intro Suc.hyps(1)) simp_all
        then show ?thesis
          using post_later [OF Suc.prems(1) k(1)] k(2) result True by (subst for_le.simps) simp
      qed (use p True in \<open>subst for_le.simps, simp\<close>)+
    qed
  qed
  then show ?thesis by (simp add: wp_def)
qed

lemma wp_for_le:
  assumes "b \<longrightarrow> n \<noteq> 0xFFFFFFFF" "wp b body (\<lambda>_. True)"
  shows "wp b (for_le i n body) (\<lambda>_. True)"
proof (cases b)
  case True
  then show ?thesis using for_le_total assms by simp
next
  case False
  have "post False bv (\<lambda>_. True) (for_le i n body (h, bv))" if "bv_ok bv" for h bv
    using for_le_partial [of i n body "(h, bv)"] assms(2) False that by (cases "for_le i n body (h, bv)") auto
  then show ?thesis using False by (simp add: wp_def)
qed

subsection \<open>Every parser\<close>

lemmas parsing = wp_bind wp_set wp_framer wp_when wp_skip wp_bits_instances wp_flag wp_ue wp_ue_True wp_se wp_skip_ue
  wp_for_le wp_for_True wp_return_True wp_if

lemma wp_profile_tier_level: "unat m < 8 \<Longrightarrow> wp b (profile_tier_level m) (\<lambda>_. True)"
proof -
  assume m: "unat m < 8"
  have body: "wp b (if 7 \<le> i then p_error Undefined_behaviour
        else pbind p_flag (\<lambda>profile. pbind p_flag (\<lambda>level. preturn (present @ [(profile, level)])))) (\<lambda>_. True)"
    if "i \<in> set [0..<unat m]" for i present
  proof -
    have "\<not> 7 \<le> i" using that m by simp
    then show ?thesis by (simp only: if_False) (rule parsing)+
  qed
  show ?thesis unfolding profile_tier_level_def by (rule body parsing | assumption)+
qed

lemma wp_analyze_hrd_parameters: "wp b analyze_hrd_parameters (\<lambda>_. True)"
  unfolding analyze_hrd_parameters_def by (rule parsing | assumption)+

lemma wp_vui: "wp b vui_hrd (\<lambda>_. True)" "wp b vui_265 (\<lambda>_. True)" "wp b vui_head (\<lambda>_. True)"
  unfolding vui_hrd_def vui_265_def vui_head_def by (rule parsing wp_analyze_hrd_parameters)+

lemma wp_analyze_vui_parameters: "wp b (analyze_vui_parameters timing) (\<lambda>_. True)"
  unfolding analyze_vui_parameters_def by (rule parsing wp_vui)+

lemma wp_scaling_list: "wp b (scaling_list n) (\<lambda>_. True)"
  unfolding scaling_list_def split_beta by (rule parsing)+

lemma wp_sps_264: "wp b sps_264 (\<lambda>_. True)"
  unfolding sps_264_def sps_264_head_def sps_264_vui_def sps_chroma_def sps_poc_def by (rule parsing wp_scaling_list wp_analyze_vui_parameters)+

lemma wp_scaling_list_265: "wp b scaling_list_data_265 (\<lambda>_. True)"
  unfolding scaling_list_data_265_def Let_def by (rule parsing)+

lemma wp_short_term: "wp b (short_term_ref_pic_sets n) (\<lambda>_. True)"
  unfolding short_term_ref_pic_sets_def split_beta by (rule parsing)+

lemma wp_sps_265_head: "unat m < 8 \<Longrightarrow> wp b (sps_265_head m) (\<lambda>_. True)"
  unfolding sps_265_head_def by (rule parsing wp_profile_tier_level | assumption)+

lemma wp_sps_265_tail: "wp b (sps_265_tail l) (\<lambda>_. True)"
  unfolding sps_265_tail_def by (rule parsing wp_scaling_list_265 wp_short_term wp_analyze_vui_parameters)+

lemma small_not_max: "unat m < 8 \<Longrightarrow> b \<longrightarrow> m \<noteq> (0xFFFFFFFF :: u32)"
  by auto

lemma wp_sps_265: "wp b sps_265 (\<lambda>_. True)"
  unfolding sps_265_def by (rule parsing wp_sps_265_head wp_sps_265_tail | assumption | rule small_not_max)+

lemma wp_vps_265: "wp b vps_265 (\<lambda>_. True)"
  unfolding vps_265_def by (rule parsing wp_profile_tier_level | assumption | rule small_not_max)+

lemma remove_loop_bounds:
  "remove_loop to m from i toSize = (n, to') \<Longrightarrow> toSize \<le> m \<Longrightarrow> n \<le> m \<and> length to' = length to"
proof (induction to m "from" i toSize arbitrary: n to' rule: remove_loop.induct)
  case (1 to m "from" i toSize)
  show ?case
  proof (cases "i < length from \<and> toSize + 1 < m")
    case False
    then show ?thesis using "1.prems" by (subst (asm) remove_loop.simps) auto
  next
    case True
    let ?c = "i + 2 < length from \<and> from ! i = 0 \<and> from ! (i + 1) = 0 \<and> from ! (i + 2) = 3"
    show ?thesis
    proof (cases ?c)
      case c: True
      then have "remove_loop (to[toSize := 0, toSize + 1 := 0]) m from (i + 3) (toSize + 2) = (n, to')"
        using "1.prems"(1) True by (subst (asm) remove_loop.simps) simp
      from "1.IH"(1) [OF True c this] show ?thesis using True by simp
    next
      case c: False
      then have "remove_loop (to[toSize := from ! i]) m from (i + 1) (toSize + 1) = (n, to')"
        using "1.prems"(1) True by (subst (asm) remove_loop.simps) auto
      from "1.IH"(2) [OF True c this] show ?thesis using True by simp
    qed
  qed
qed

lemma wp_seq: "wp b (if fHNumber h = 264 then sps_264 else sps_265) (\<lambda>_. True)"
  by (simp add: wp_sps_264 wp_sps_265)

definition rbsp_of :: "byte list \<Rightarrow> byte list \<Rightarrow> byte list" where
  "rbsp_of buf nal = (case removeH264or5EmulationBytes buf (length buf) nal of (n, copy) \<Rightarrow> take n copy)"

lemma parameter_set_rest:
  assumes "length buf = 1000" and rem: "removeH264or5EmulationBytes buf 1000 nal = (n, copy)"
  shows "bv_ok (bv_setup copy 0 (8 * n))" "bv_rest (bv_setup copy 0 (8 * n)) = bits_of (rbsp_of buf nal)"
proof -
  have n: "n \<le> 1000" "length copy = 1000"
    using remove_loop_bounds [of buf 1000 nal 0 0 n copy] rem assms(1) by (simp_all add: removeH264or5EmulationBytes_def)
  then show "bv_ok (bv_setup copy 0 (8 * n))" by (simp add: bv_ok_def bv_setup_def)
  have "bits_of (take n copy) @ bits_of (drop n copy) = bits_of copy" by (simp flip: bits_of_simps(3))
  then have "take (8 * n) (bits_of copy) = bits_of (take n copy)"
    using n by (metis append_eq_conv_conj length_bits_of length_take min.absorb2)
  then show "bv_rest (bv_setup copy 0 (8 * n)) = bits_of (rbsp_of buf nal)"
    using assms by (simp add: bv_rest_def bv_setup_def rbsp_of_def)
qed

lemma parameter_set_post:
  assumes "wp b p (\<lambda>_. True)" "length buf = 1000" "removeH264or5EmulationBytes buf 1000 nal = (n, copy)"
    and "b \<longrightarrow> no_run (bits_of (rbsp_of buf nal))"
  shows "post b (bv_setup copy 0 (8 * n)) (\<lambda>_. True) (p (h, bv_setup copy 0 (8 * n)))"
  using assms(1,4) parameter_set_rest [OF assms(2,3)] unfolding wp_def by simp

definition parse_result :: "((u32 \<times> u32) \<times> hstate) res option \<Rightarrow> ((u32 \<times> u32) \<times> H264Framer) res option" where
  "parse_result r = (case r of None \<Rightarrow> None | Some (Inl e) \<Rightarrow> Some (Inl e)
     | Some (Inr (timing, (h', _))) \<Rightarrow> Some (Inr (timing, h')))"

lemma parse_result_post:
  assumes "\<And>b. (b \<longrightarrow> no_run bits) \<Longrightarrow> post b bv (\<lambda>_. True) r"
  shows "(\<forall>e. parse_result r = Some (Inl e) \<longrightarrow> e = Undefined_shift) \<and> (no_run bits \<longrightarrow> parse_result r \<noteq> None)"
  using assms [of False] assms [of True]
  by (cases r rule: presult_cases) (auto simp: parse_result_def)

lemma set_fps_error: "set_fps timing h = Inl e \<Longrightarrow> e = Undefined_conversion"
  by (auto simp: set_fps_def frame_rate_def Let_def split: prod.splits if_splits)

text \<open>
  C29: Whatever NAL unit arrives, reading a sequence or a video parameter set never leaves the
  copied bytes and fails at most by the shift of getBits by its full width, or, for a sequence
  parameter set, by the conversion of a frame rate of 2^31 or more to int; it returns whenever
  the bits without the emulation prevention hold no run of 32 zeros.
\<close>

theorem parameter_sets_safe:
  assumes "length buf = 1000"
  shows "(\<forall>e. analyze_seq_parameter_set_data buf nal h = Some (Inl e) \<longrightarrow> e = Undefined_shift \<or> e = Undefined_conversion) \<and>
    (\<forall>e. analyze_video_parameter_set_data buf nal h = Some (Inl e) \<longrightarrow> e = Undefined_shift) \<and>
    (no_run (bits_of (rbsp_of buf nal)) \<longrightarrow>
      analyze_seq_parameter_set_data buf nal h \<noteq> None \<and> analyze_video_parameter_set_data buf nal h \<noteq> None)"
proof -
  obtain n copy where rem: "removeH264or5EmulationBytes buf 1000 nal = (n, copy)" by fastforce
  define p where "p = parse_result ((if fHNumber h = 264 then sps_264 else sps_265) (h, bv_setup copy 0 (8 * n)))"
  have seq: "analyze_seq_parameter_set_data buf nal h = (case p of None \<Rightarrow> None | Some (Inl e) \<Rightarrow> Some (Inl e)
      | Some (Inr (timing, h')) \<Rightarrow> Some (res_bind (set_fps timing h') (\<lambda>h'. Inr (timing, h'))))"
    by (simp add: analyze_seq_parameter_set_data_def removeEmulationBytes_def rem parse_result_def SPS_MAX_SIZE_def p_def
        split: option.split sum.split)
  have vps: "analyze_video_parameter_set_data buf nal h = parse_result (vps_265 (h, bv_setup copy 0 (8 * n)))"
    by (simp add: analyze_video_parameter_set_data_def removeEmulationBytes_def rem parse_result_def VPS_MAX_SIZE_def)
  have "(\<forall>e. p = Some (Inl e) \<longrightarrow> e = Undefined_shift) \<and> (no_run (bits_of (rbsp_of buf nal)) \<longrightarrow> p \<noteq> None)"
    unfolding p_def by (rule parse_result_post, rule parameter_set_post [OF wp_seq assms rem])
  then have "(\<forall>e. analyze_seq_parameter_set_data buf nal h = Some (Inl e) \<longrightarrow> e = Undefined_shift \<or> e = Undefined_conversion) \<and>
      (no_run (bits_of (rbsp_of buf nal)) \<longrightarrow> analyze_seq_parameter_set_data buf nal h \<noteq> None)"
    unfolding seq by (cases p) (auto simp: res_bind_def dest: set_fps_error split: sum.splits)
  moreover have "(\<forall>e. analyze_video_parameter_set_data buf nal h = Some (Inl e) \<longrightarrow> e = Undefined_shift) \<and>
      (no_run (bits_of (rbsp_of buf nal)) \<longrightarrow> analyze_video_parameter_set_data buf nal h \<noteq> None)"
    unfolding vps by (rule parse_result_post, rule parameter_set_post [OF wp_vps_265 assms rem])
  ultimately show ?thesis by blast
qed

theorem parameter_sets_safe_witness:
  "analyze_seq_parameter_set_data (replicate 1000 0) [0x67, 0x42] H264Framer_init \<noteq> Some (Inl Undefined_behaviour)"
  using parameter_sets_safe [of "replicate 1000 0" "[0x67, 0x42]" H264Framer_init] by auto

subsection \<open>Parsing what an encoder wrote\<close>

text \<open>On data that begins with \<open>bits\<close> the parser consumes exactly these, yields \<open>v\<close> and leaves the framer as \<open>h'\<close>.\<close>

definition parses :: "'a parser \<Rightarrow> H264Framer \<Rightarrow> bool list \<Rightarrow> 'a \<Rightarrow> H264Framer \<Rightarrow> bool" where
  "parses p h bits v h' \<longleftrightarrow> (\<forall>bv rest. bv_ok bv \<longrightarrow> bv_rest bv = bits @ rest \<longrightarrow>
     p (h, bv) = Some (Inr (v, (h', bv_adv (length bits) bv))))"

lemma parses_return: "parses (preturn v) h [] v h"
  by (simp add: parses_def preturn_def)

lemma parses_bind:
  assumes "parses p h bits v h'" "parses (q v) h' bits' w h''"
  shows "parses (pbind p q) h (bits @ bits') w h''"
  unfolding parses_def
proof (intro allI impI)
  fix bv rest assume bv: "bv_ok bv" "bv_rest bv = (bits @ bits') @ rest"
  then have "p (h, bv) = Some (Inr (v, (h', bv_adv (length bits) bv)))" using assms(1) by (simp add: parses_def)
  moreover have "bv_rest (bv_adv (length bits) bv) = bits' @ rest" "bv_ok (bv_adv (length bits) bv)"
    using rest_adv [OF bv(1), of "length bits"] bv(2) by simp_all
  then have "q v (h', bv_adv (length bits) bv) = Some (Inr (w, (h'', bv_adv (length bits') (bv_adv (length bits) bv))))"
    using assms(2) by (simp add: parses_def)
  ultimately show "pbind p q (h, bv) = Some (Inr (w, (h'', bv_adv (length (bits @ bits')) bv)))"
    by (simp add: pbind_def)
qed

lemma parses_framer: "parses p_framer h [] h h"
  by (simp add: parses_def p_framer_def)

lemma parses_set: "parses (p_set g) h [] () (g h)"
  by (simp add: parses_def p_set_def)

lemma parses_flag: "parses p_flag h [b] b h"
  by (simp add: parses_def plift_def get1BitBoolean_rest)

lemma parses_bits:
  assumes "0 < n" "n \<le> 32"
  shows "parses (p_bits n) h (val_bits n v) (take_bit n v) h"
  unfolding parses_def
proof (intro allI impI)
  fix bv rest assume bv: "bv_ok bv" "bv_rest bv = val_bits n v @ rest"
  have "padded n (bv_rest bv) = val_bits n v" using bv(2) by (simp add: padded_def)
  moreover have "length (bv_rest bv) \<ge> n" using bv(2) by simp
  ultimately show "p_bits n (h, bv) = Some (Inr (take_bit n v, h, bv_adv (length (val_bits n v)) bv))"
    using assms getBits_rest [OF bv(1), of n] bits_val_val_bits [OF assms(2), of v] by (auto simp: plift_def)
qed

lemma parses_skip: "length bits = n \<Longrightarrow> parses (p_skip n) h bits () h"
  by (simp add: parses_def plift_def p_skip_def skipBits_rest)

lemma parses_ue: "v < 2 ^ 32 - 1 \<Longrightarrow> parses p_ue h (ue v) (of_nat v) h"
  using get_expGolomb_code by (simp add: parses_def plift_def)

lemma parses_skip_ue: "v < 2 ^ 32 - 1 \<Longrightarrow> parses skip_ue h (ue v) () h"
  unfolding skip_ue_def using parses_bind [OF parses_ue [of v h] parses_return] by simp

lemma parses_when: "(c \<Longrightarrow> parses p h bits () h') \<Longrightarrow> (\<not> c \<Longrightarrow> bits = [] \<and> h' = h) \<Longrightarrow> parses (p_when c p) h bits () h'"
  by (cases c) (auto simp: p_when_def parses_return)

text \<open>The values with a code.\<close>

definition ue_ok :: "nat \<Rightarrow> bool" where
  "ue_ok v = (v < 2 ^ 32 - 1)"

text \<open>One step of a parser after the other.\<close>

lemma step_flag: "parses (q b) h bits w h' \<Longrightarrow> parses (pbind p_flag q) h (b # bits) w h'"
  using parses_bind [OF parses_flag] by fastforce

lemma step_bits: "0 < n \<Longrightarrow> n \<le> 32 \<Longrightarrow> parses (q (take_bit n v)) h bits w h' \<Longrightarrow>
  parses (pbind (p_bits n) q) h (val_bits n v @ bits) w h'"
  by (rule parses_bind [OF parses_bits])

lemma step_bits32: "parses (q v) h bits w h' \<Longrightarrow> parses (pbind (p_bits 32) q) h (val_bits 32 v @ bits) w h'"
proof -
  have "take_bit 32 v = v" by (rule bit_word_eqI) (simp add: bit_take_bit_iff)
  then show "parses (q v) h bits w h' \<Longrightarrow> parses (pbind (p_bits 32) q) h (val_bits 32 v @ bits) w h'"
    using step_bits [of 32 q v h bits w h'] by simp
qed

lemma step_ue: "ue_ok v \<Longrightarrow> parses (q (of_nat v)) h bits w h' \<Longrightarrow> parses (pbind p_ue q) h (ue v @ bits) w h'"
  unfolding ue_ok_def by (rule parses_bind [OF parses_ue])

lemma step_skip_ue: "ue_ok v \<Longrightarrow> parses q h bits w h' \<Longrightarrow> parses (pseq skip_ue q) h (ue v @ bits) w h'"
  unfolding ue_ok_def by (rule parses_bind [OF parses_skip_ue])

lemma step_skip: "length bits = n \<Longrightarrow> parses q h bits' w h' \<Longrightarrow> parses (pseq (p_skip n) q) h (bits @ bits') w h'"
  by (rule parses_bind [OF parses_skip])

lemma step_skip1: "parses q h bits w h' \<Longrightarrow> parses (pseq (p_skip 1) q) h (b # bits) w h'"
  using step_skip [of "[b]" 1 q h bits w h'] by simp

lemma step_set: "parses q (g h) bits w h' \<Longrightarrow> parses (pseq (p_set g) q) h bits w h'"
  using parses_bind [OF parses_set] by fastforce

lemma step_framer: "parses (q h) h bits w h' \<Longrightarrow> parses (pbind p_framer q) h bits w h'"
  using parses_bind [OF parses_framer] by fastforce

lemma step_when: "\<not> c \<Longrightarrow> parses q h bits w h' \<Longrightarrow> parses (pseq (p_when c p) q) h bits w h'"
  using parses_bind [OF parses_return, of "\<lambda>_. q"] by (fastforce simp: p_when_def)

lemma last_when: "\<not> c \<Longrightarrow> parses (p_when c p) h [] () h"
  by (simp add: p_when_def parses_return)

lemma when_False:
  "parses q h bits w h' \<Longrightarrow> parses (pseq (p_when False p) q) h bits w h'" "parses (p_when False p) h [] () h"
  by (simp_all add: step_when last_when)

lemmas parse_steps = step_flag step_bits step_ue step_skip_ue step_skip1 step_set step_framer when_False parses_return

text \<open>The fields of a H.264 sequence parameter set without chroma information, in the order of section 7.3.2.1.1.\<close>

record sps_fields =
  sf_header :: "bool list"
  sf_profile :: u32
  sf_constraints :: u32
  sf_level :: u32
  sf_id :: nat
  sf_log2_frame_num :: nat
  sf_poc_lsb :: "nat option"
  sf_ref_frames :: nat
  sf_gaps :: bool
  sf_width_mbs :: nat
  sf_height_mbs :: nat
  sf_field_adaptive :: "bool option"
  sf_direct :: bool
  sf_crop :: "(nat \<times> nat \<times> nat \<times> nat) option"
  sf_timing :: "(u32 \<times> u32 \<times> bool \<times> bool) option"

definition sps_ok :: "sps_fields \<Rightarrow> bool" where
  "sps_ok f = (length (sf_header f) = 8 \<and> \<not> high_profile (take_bit 8 (sf_profile f)) \<and> ue_ok (sf_id f) \<and>
     ue_ok (sf_log2_frame_num f) \<and> (case sf_poc_lsb f of None \<Rightarrow> True | Some v \<Rightarrow> ue_ok v) \<and> ue_ok (sf_ref_frames f) \<and>
     sf_width_mbs f < 2 ^ 27 - 1 \<and> sf_height_mbs f < 2 ^ 27 - 1 \<and>
     (case sf_crop f of None \<Rightarrow> True | Some (l, r, t, b) \<Rightarrow> ue_ok l \<and> ue_ok r \<and> ue_ok t \<and> ue_ok b))"

definition vui_bits :: "u32 \<times> u32 \<times> bool \<times> bool \<Rightarrow> bool list" where
  "vui_bits t = (case t of (num_units_in_tick, time_scale, fixed, pic_struct) \<Rightarrow>
     [False, False, False, False, True] @ val_bits 32 num_units_in_tick @ val_bits 32 time_scale @ [fixed, False, False, pic_struct])"

definition sps_front :: "sps_fields \<Rightarrow> bool list" where
  "sps_front f =
     sf_header f @ val_bits 8 (sf_profile f) @ val_bits 8 (sf_constraints f) @ val_bits 8 (sf_level f) @
     ue (sf_id f) @ ue (sf_log2_frame_num f) @
     (case sf_poc_lsb f of None \<Rightarrow> ue 2 | Some v \<Rightarrow> ue 0 @ ue v) @
     ue (sf_ref_frames f) @ [sf_gaps f] @ ue (sf_width_mbs f) @ ue (sf_height_mbs f) @
     (case sf_field_adaptive f of None \<Rightarrow> [True] | Some a \<Rightarrow> [False, a]) @ [sf_direct f] @
     (case sf_crop f of None \<Rightarrow> [False] | Some (l, r, t, b) \<Rightarrow> [True] @ ue l @ ue r @ ue t @ ue b)"

definition sps_bits :: "sps_fields \<Rightarrow> bool list" where
  "sps_bits f = sps_front f @ (case sf_timing f of None \<Rightarrow> [False] | Some t \<Rightarrow> [True] @ vui_bits t)"

definition sps_timing :: "sps_fields \<Rightarrow> u32 \<times> u32" where
  "sps_timing f = (case sf_timing f of None \<Rightarrow> (0, 0) | Some (n, t, _) \<Rightarrow> (n, t))"

lemma parses_poc: "(case poc of None \<Rightarrow> True | Some v \<Rightarrow> ue_ok v) \<Longrightarrow>
  parses sps_poc h (case poc of None \<Rightarrow> ue 2 | Some v \<Rightarrow> ue 0 @ ue v) () h"
proof (cases poc)
  case None
  have "parses sps_poc h (ue 2 @ []) () h"
    unfolding sps_poc_def by (rule parses_bind [OF parses_ue]) (simp_all add: parses_return)
  then show ?thesis using None by simp
next
  case (Some v)
  assume "case poc of None \<Rightarrow> True | Some v \<Rightarrow> ue_ok v"
  then have "v < 2 ^ 32 - 1" by (simp add: Some ue_ok_def)
  then have "parses sps_poc h (ue 0 @ ue v) () h"
    unfolding sps_poc_def by (intro parses_bind [OF parses_ue]) (simp_all add: parses_skip_ue)
  then show ?thesis using Some by simp
qed

lemma parses_four:
  assumes "ue_ok l" "ue_ok r" "ue_ok t" "ue_ok b"
  shows "parses (pseq skip_ue (pseq skip_ue (pseq skip_ue skip_ue))) h (ue l @ ue r @ ue t @ ue b) () h"
  using assms unfolding ue_ok_def by (intro parses_bind) (rule parses_skip_ue; simp)+

lemma parses_vui:
  assumes "fHNumber h = 264"
  shows "\<exists>h'. parses (analyze_vui_parameters timing) h (vui_bits (n, t, fixed, pic)) (n, t) h' \<and>
    width h' = width h \<and> height h' = height h \<and> DeltaTfiDivisor h' = DeltaTfiDivisor h"
proof -
  let ?h' = "h\<lparr>CpbDpbDelaysPresentFlag := False, pic_struct_present_flag := pic\<rparr>"
  have head: "parses vui_head h [False, False, False, False] () h"
    unfolding vui_head_def by (rule parse_steps)+
  have hrd: "parses vui_hrd h [False, False, pic] () ?h'"
    unfolding vui_hrd_def using parses_set [of "\<lambda>h. h\<lparr>pic_struct_present_flag := pic\<rparr>" "h\<lparr>CpbDpbDelaysPresentFlag := False\<rparr>"]
    by (intro step_flag when_False step_set step_when) simp_all
  have "parses (analyze_vui_parameters timing) h ([False, False, False, False] @ [True] @ val_bits 32 n @ val_bits 32 t @
      [fixed] @ [False, False, pic] @ []) (n, t) ?h'"
    unfolding analyze_vui_parameters_def
  proof (rule parses_bind [OF head], rule step_framer, rule step_when)
    have "parses (pseq vui_hrd (preturn (n, t))) h ([False, False, pic] @ []) (n, t) ?h'"
      by (rule parses_bind [OF hrd parses_return])
    then have "parses (if fHNumber h = 264 then pbind p_flag (\<lambda>fixed_frame_rate. pseq vui_hrd (preturn (n, t)))
        else pbind p_flag (\<lambda>poc. pseq (p_when poc skip_ue) (preturn (n, t)))) h (fixed # [False, False, pic]) (n, t) ?h'"
      using assms by (simp add: step_flag)
    then show "parses (pbind p_flag (\<lambda>timing_info. if timing_info
        then pbind (p_bits 32) (\<lambda>num_units_in_tick. pbind (p_bits 32) (\<lambda>time_scale.
             if fHNumber h = 264 then pbind p_flag (\<lambda>fixed_frame_rate. pseq vui_hrd (preturn (num_units_in_tick, time_scale)))
             else pbind p_flag (\<lambda>poc_proportional. pseq (p_when poc_proportional skip_ue) (preturn (num_units_in_tick, time_scale)))))
        else pseq vui_hrd (preturn timing)))
      h ([True] @ val_bits 32 n @ val_bits 32 t @ [fixed] @ [False, False, pic] @ []) (n, t) ?h'"
      by (simp add: step_flag step_bits32)
  qed (simp add: assms)
  then show ?thesis by (intro exI [of _ ?h']) (simp add: vui_bits_def)
qed

lemma parses_crop:
  assumes "case crop of None \<Rightarrow> True | Some (l, r, t, b) \<Rightarrow> ue_ok l \<and> ue_ok r \<and> ue_ok t \<and> ue_ok b"
  shows "parses (pbind p_flag (\<lambda>cropping. p_when cropping (pseq skip_ue (pseq skip_ue (pseq skip_ue skip_ue))))) h
    (case crop of None \<Rightarrow> [False] | Some (l, r, t, b) \<Rightarrow> [True] @ ue l @ ue r @ ue t @ ue b) () h"
proof (cases crop)
  case None
  then show ?thesis by (simp add: step_flag when_False)
next
  case (Some c)
  obtain l r t b where c: "c = (l, r, t, b)" by (metis prod.exhaust)
  have "parses (p_when True (pseq skip_ue (pseq skip_ue (pseq skip_ue skip_ue)))) h (ue l @ ue r @ ue t @ ue b) () h"
    using assms Some c parses_four [of l r t b h] by (simp add: p_when_def)
  then show ?thesis using Some c by (simp add: step_flag)
qed

lemma parses_field:
  assumes "parses q h bits w h'"
  shows "parses (pbind p_flag (\<lambda>frame_mbs_only. pseq (p_when (\<not> frame_mbs_only) (p_skip 1)) q)) h
    ((case a of None \<Rightarrow> [True] | Some x \<Rightarrow> [False, x]) @ bits) w h'"
proof (cases a)
  case None
  then show ?thesis using assms by (simp add: step_flag when_False)
next
  case (Some x)
  have "parses (p_when True (p_skip 1)) h [x] () h" by (simp add: p_when_def parses_skip)
  then have "parses (pseq (p_when True (p_skip 1)) q) h ([x] @ bits) w h'" by (rule parses_bind [OF _ assms])
  then show ?thesis using Some by (simp add: step_flag)
qed

lemma parses_timing:
  assumes "fHNumber h = 264"
  shows "\<exists>h'. parses sps_264_vui h
      (case t of None \<Rightarrow> [False] | Some t \<Rightarrow> [True] @ vui_bits t) (case t of None \<Rightarrow> (0, 0) | Some (n, s, _) \<Rightarrow> (n, s)) h' \<and>
    width h' = width h \<and> height h' = height h \<and> DeltaTfiDivisor h' = DeltaTfiDivisor h"
proof (cases t)
  case None
  have "parses sps_264_vui h [False] (0, 0) h"
    unfolding sps_264_vui_def by (rule step_flag) (simp add: parses_return)
  then show ?thesis using None by auto
next
  case (Some x)
  obtain n s fixed pic where x: "x = (n, s, fixed, pic)" by (metis prod.exhaust)
  obtain h' where h': "parses (analyze_vui_parameters (0, 0)) h (vui_bits x) (n, s) h'"
    "width h' = width h" "height h' = height h" "DeltaTfiDivisor h' = DeltaTfiDivisor h"
    using parses_vui [OF assms] x by blast
  have "parses sps_264_vui h (True # vui_bits x) (n, s) h'"
    unfolding sps_264_vui_def by (rule step_flag) (simp add: h'(1))
  then show ?thesis using Some x h' by auto
qed

lemma parses_sps_head:
  assumes "sps_ok f"
  shows "parses sps_264_head h (sps_front f) () (h\<lparr>width := sint ((of_nat (sf_width_mbs f) + 1) * 16 :: u32),
    height := sint ((of_nat (sf_height_mbs f) + 1) * 16 :: u32)\<rparr>)"
proof -
  have ok: "length (sf_header f) = 8" "\<not> high_profile (take_bit 8 (sf_profile f))" "ue_ok (sf_id f)" "ue_ok (sf_log2_frame_num f)"
    "case sf_poc_lsb f of None \<Rightarrow> True | Some v \<Rightarrow> ue_ok v" "ue_ok (sf_ref_frames f)" "ue_ok (sf_width_mbs f)" "ue_ok (sf_height_mbs f)"
    "case sf_crop f of None \<Rightarrow> True | Some (l, r, t, b) \<Rightarrow> ue_ok l \<and> ue_ok r \<and> ue_ok t \<and> ue_ok b"
    using assms by (auto simp: sps_ok_def ue_ok_def)
  show ?thesis
    unfolding sps_264_head_def sps_front_def
    apply (rule step_skip [OF ok(1)])
    apply (rule step_bits, simp, simp)+
    apply (rule step_skip_ue [OF ok(3)])
    apply (rule step_when [OF ok(2)])
    apply (rule step_skip_ue [OF ok(4)])
    apply (rule parses_bind [OF parses_poc [OF ok(5)]])
    apply (rule step_skip_ue [OF ok(6)])
    apply (simp only: append_Cons append_Nil)
    apply (rule step_flag)
    apply (rule step_ue [OF ok(7)], rule step_set)
    apply (rule step_ue [OF ok(8)], rule step_set)
    apply (rule parses_field)
    apply (rule step_skip1)
    apply (rule parses_crop [OF ok(9), unfolded append_Cons append_Nil])
    done
qed

lemma parses_sps:
  assumes "sps_ok f" "fHNumber h = 264"
  shows "\<exists>h'. parses sps_264 h (sps_bits f) (sps_timing f) h' \<and> width h' = sint ((of_nat (sf_width_mbs f) + 1) * 16 :: u32) \<and>
    height h' = sint ((of_nat (sf_height_mbs f) + 1) * 16 :: u32) \<and> DeltaTfiDivisor h' = DeltaTfiDivisor h"
proof -
  let ?w = "sint ((of_nat (sf_width_mbs f) + 1) * 16 :: u32)" and ?ht = "sint ((of_nat (sf_height_mbs f) + 1) * 16 :: u32)"
  let ?h = "h\<lparr>width := ?w, height := ?ht\<rparr>"
  obtain h' where h': "parses sps_264_vui ?h
      (case sf_timing f of None \<Rightarrow> [False] | Some t \<Rightarrow> [True] @ vui_bits t) (sps_timing f) h'"
    "width h' = ?w" "height h' = ?ht" "DeltaTfiDivisor h' = DeltaTfiDivisor h"
    using parses_timing [of ?h "sf_timing f"] assms(2) by (auto simp: sps_timing_def)
  have "parses sps_264 h (sps_bits f) (sps_timing f) h'"
    unfolding sps_264_def sps_bits_def by (rule parses_bind [OF parses_sps_head [OF assms(1)] h'(1)])
  then show ?thesis using h' by blast
qed

lemma sint_mbs: "v < 2 ^ 27 - 1 \<Longrightarrow> sint ((of_nat v + 1) * 16 :: u32) = 16 * (int v + 1)"
proof -
  assume v: "v < 2 ^ 27 - 1"
  have "(of_nat v + 1) * 16 = (of_int (16 * (int v + 1)) :: u32)" by simp
  then have "sint ((of_nat v + 1) * 16 :: u32) = signed_take_bit 31 (16 * (int v + 1))" by (simp only: sint_sbintrunc') simp
  also have "\<dots> = 16 * (int v + 1)" using v by (intro signed_take_bit_int_eq_self) auto
  finally show ?thesis .
qed

text \<open>When the time scale is a multiple of the ticks, the errors of the floats do not show: the rate is that multiple.\<close>

lemma rounded_quotient:
  fixes S D k :: rat
  assumes "0 < D" "S = k * D" "0 < k" "k < 2 ^ 20"
  shows "\<bar>fl 24 (fl 24 S / fl 24 D) - k\<bar> < 1 / 2"
proof -
  define e :: rat where "e = 1 / 2 ^ 24"
  define q where "q = fl 24 S / fl 24 D"
  have S: "0 < S" using assms(1-3) by simp
  have "\<bar>fl 24 S - S\<bar> \<le> S * e" "\<bar>fl 24 D - D\<bar> \<le> D * e"
    using fl_error [of 24 S] fl_error [of 24 D] S assms(1) by (simp_all add: e_def)
  then have s: "S * (1 - e) \<le> fl 24 S" "fl 24 S \<le> S * (1 + e)" and d: "D * (1 - e) \<le> fl 24 D" "fl 24 D \<le> D * (1 + e)"
    by (simp_all add: algebra_simps abs_le_iff)
  have e: "0 < e" "e < 1" by (simp_all add: e_def)
  have "0 \<le> S * (1 - e)" using S e by simp
  then have f0: "0 \<le> fl 24 S" using s(1) by linarith
  have pos: "0 < D * (1 - e)" using e assms(1) by simp
  have "q \<le> S * (1 + e) / (D * (1 - e))"
    unfolding q_def using s d pos S e f0 by (intro frac_le) simp_all
  also have "\<dots> = k * ((1 + e) / (1 - e))" using assms(1,2) by simp
  finally have hi: "q \<le> k * ((1 + e) / (1 - e))" .
  have "k * ((1 - e) / (1 + e)) = S * (1 - e) / (D * (1 + e))" using assms(1,2) by simp
  also have "\<dots> \<le> q"
    unfolding q_def using s d less_le_trans [OF pos d(1)] S e f0 by (intro frac_le) simp_all
  finally have lo: "k * ((1 - e) / (1 + e)) \<le> q" .
  have r: "(1 + e) / (1 - e) \<le> 1 + 3 * e" "1 - 2 * e \<le> (1 - e) / (1 + e)" by (simp_all add: e_def)
  have q: "q \<le> k * (1 + 3 * e)" "k * (1 - 2 * e) \<le> q"
    using hi lo mult_left_mono [OF r(1), of k] mult_left_mono [OF r(2), of k] assms(3) by linarith+
  have "0 < k * (1 - 2 * e)" using assms(3) by (simp add: e_def)
  then have q0: "0 < q" using q(2) by linarith
  have "\<bar>fl 24 q - q\<bar> \<le> q * e" using fl_error [of 24 q] q0 by (simp add: e_def)
  then have "\<bar>fl 24 q - k\<bar> \<le> q * e + \<bar>q - k\<bar>" by linarith
  also have "\<bar>q - k\<bar> \<le> k * (3 * e)" using q assms(3) e by (auto simp: abs_le_iff algebra_simps)
  also have "q * e \<le> k * (1 + 3 * e) * e" using q(1) e by (intro mult_right_mono) simp_all
  also have "k * (1 + 3 * e) * e + k * (3 * e) = k * ((1 + 3 * e) * e + 3 * e)" by (simp add: algebra_simps)
  also have "(1 + 3 * e) * e + 3 * e < 1 / 2 ^ 21" by (simp add: e_def)
  then have "k * ((1 + 3 * e) * e + 3 * e) < k * (1 / 2 ^ 21)" using assms(3) by simp
  also have "\<dots> < 1 / 2" using assms(4) by simp
  finally show ?thesis by (simp add: q_def)
qed

lemma frame_rate_multiple:
  assumes "uint s = k * (int d * uint n)" "0 < k" "k < 2 ^ 20" "0 < d" "d < 2 ^ 20" "0 < n"
  shows "frame_rate (n, s) d = Inr k"
proof -
  have n: "0 < uint n" using assms(6) by (simp add: word_less_def)
  have bound: "int d * uint n \<le> 2 ^ 53"
  proof -
    have "uint n < 2 ^ 32" using uint_bounded [of n] by simp
    then have "int d * uint n \<le> 2 ^ 20 * 2 ^ 32" using assms(5) n by (intro mult_mono) simp_all
    then show ?thesis by simp
  qed
  let ?D = "of_int (int d * uint n) :: rat"
  have D: "dbl (of_nat d * of_int (uint n)) = ?D"
    using dbl_of_int [of "int d * uint n"] bound n by (simp add: abs_mult)
  have pos: "(0 :: int) < int d * uint n" using n assms(4) by simp
  then have "0 < ?D" by (simp only: of_int_0_less_iff)
  moreover have "of_int (uint s) = of_int k * ?D" by (simp only: assms(1) of_int_mult)
  moreover have "(of_int k :: rat) < of_int (2 ^ 20)" using assms(3) by (simp only: of_int_less_iff)
  ultimately have "\<bar>fl 24 (fl 24 (of_int (uint s)) / fl 24 ?D) - of_int k\<bar> < 1 / 2"
    using assms(2) by (intro rounded_quotient) simp_all
  then have r: "\<lfloor>fl 24 (fl 24 (of_int (uint s)) / fl 24 ?D) + 1 / 2\<rfloor> = k" by linarith
  have "0 < uint s" using assms(1,2) pos by (metis mult_pos_pos)
  then have "0 < s" by (simp add: word_less_def)
  then show ?thesis
    using assms(3,6) unfolding frame_rate_def prod.case Let_def D r by simp
qed

text \<open>
  C30: A sequence parameter set of a profile without chroma format, with a picture order count
  of type 0 or 2, without VUI or with one that holds nothing but the timing, below 1000 bytes,
  written bit by bit as the standard prescribes with its emulation prevention (the macroblock
  counts less one below 2^27 - 1, the other fields within the ranges of their codes), gives
  the width and height of its macroblock counts, its tick and time scale, and the frame rate:
  30 without timing, otherwise the quotient of the floats rounded to the nearest integer, when
  that fits an int.
\<close>

theorem sps_dimensions:
  assumes "sps_ok f" "fHNumber h = 264" "bits_of rbsp = sps_bits f @ trailing" "length rbsp < 1000" "length buf = 1000"
    and "frame_rate (sps_timing f) (DeltaTfiDivisor h) = Inr r"
  shows "\<exists>h'. analyze_seq_parameter_set_data buf (escape_from 0 rbsp) h = Some (Inr (sps_timing f, h')) \<and>
    width h' = 16 * (int (sf_width_mbs f) + 1) \<and> height h' = 16 * (int (sf_height_mbs f) + 1) \<and> fps h' = r"
proof -
  have small: "sf_width_mbs f < 2 ^ 27 - 1" "sf_height_mbs f < 2 ^ 27 - 1" using assms(1) by (simp_all add: sps_ok_def)
  obtain h' where h': "parses sps_264 h (sps_bits f) (sps_timing f) h'" "width h' = 16 * (int (sf_width_mbs f) + 1)"
    "height h' = 16 * (int (sf_height_mbs f) + 1)" "DeltaTfiDivisor h' = DeltaTfiDivisor h"
    using parses_sps [OF assms(1,2)] unfolding sint_mbs [OF small(1)] sint_mbs [OF small(2)] by blast
  have rem: "removeH264or5EmulationBytes buf 1000 (escape_from 0 rbsp) = (length rbsp, rbsp @ drop (length rbsp) buf)"
    using emulation_bytes_removed assms(4,5) by simp
  let ?bv = "bv_setup (rbsp @ drop (length rbsp) buf) 0 (8 * length rbsp)"
  have ok: "bv_ok ?bv" and rest: "bv_rest ?bv = sps_bits f @ trailing"
    using parameter_set_rest [OF assms(5) rem] assms(3,5) rem by (simp_all add: rbsp_of_def)
  then have "sps_264 (h, ?bv) = Some (Inr (sps_timing f, (h', bv_adv (length (sps_bits f)) ?bv)))"
    using h'(1) by (simp add: parses_def)
  then have "analyze_seq_parameter_set_data buf (escape_from 0 rbsp) h = Some (Inr (sps_timing f, h'\<lparr>fps := r\<rparr>))"
    using assms(2,6) h'(4) by (simp add: analyze_seq_parameter_set_data_def removeEmulationBytes_def SPS_MAX_SIZE_def rem set_fps_def)
  then show ?thesis using h' by simp
qed

definition example_sps :: sps_fields where
  "example_sps = \<lparr>sf_header = [False, True, True, False, False, True, True, True], sf_profile = 66, sf_constraints = 0, sf_level = 30,
     sf_id = 0, sf_log2_frame_num = 0, sf_poc_lsb = None, sf_ref_frames = 1, sf_gaps = False, sf_width_mbs = 39, sf_height_mbs = 29,
     sf_field_adaptive = None, sf_direct = True, sf_crop = None, sf_timing = Some (1, 50, True, False)\<rparr>"

theorem sps_dimensions_witness:
  "\<exists>nal h'. analyze_seq_parameter_set_data (replicate 1000 0) nal H264Framer_init =
      Some (Inr ((1, 50), h')) \<and> width h' = 640 \<and> height h' = 480 \<and> fps h' = 25"
proof -
  let ?rbsp = "[0x67, 0x42, 0, 0x1e, 0xda, 2, 0x80, 0xf6, 0x84, 0, 0, 0, 4, 0, 0, 0, 0xca, 0x20] :: byte list"
  have ok: "sps_ok example_sps"
    by (simp add: sps_ok_def example_sps_def ue_ok_def high_profile_def)
  have bits: "bits_of ?rbsp = sps_bits example_sps @ [True, False, False, False, False, False]"
    by (simp add: example_sps_def sps_bits_def sps_front_def vui_bits_def byte_bits_def ue_def bit_len.simps val_bits_def upt_rec Let_def)
  have t: "sps_timing example_sps = (1, 50)" by (simp add: sps_timing_def example_sps_def)
  have r: "frame_rate (1, 50) 2 = Inr 25" by (rule frame_rate_multiple) simp_all
  show ?thesis
    using sps_dimensions [OF ok _ bits, of H264Framer_init "replicate 1000 0" 25]
    by (simp add: t r H264Framer_init_def) (auto simp: example_sps_def)
qed

subsection \<open>A parameter set that is never parsed to the end\<close>

definition hangs :: "'a parser \<Rightarrow> H264Framer \<Rightarrow> bool list \<Rightarrow> bool" where
  "hangs p h bits \<longleftrightarrow> (\<forall>bv. bv_ok bv \<longrightarrow> bv_rest bv = bits \<longrightarrow> p (h, bv) = None)"

lemma hangs_first: "hangs p h bits \<Longrightarrow> hangs (pbind p q) h bits"
  by (simp add: hangs_def pbind_def)

lemma hangs_then: "parses p h bits v h' \<Longrightarrow> hangs (q v) h' bits' \<Longrightarrow> hangs (pbind p q) h (bits @ bits')"
  unfolding hangs_def parses_def pbind_def using rest_adv by fastforce

lemma for_le_forever:
  assumes "body s = Some (Inr ((), s))"
  shows "for_le i 0xFFFFFFFF body s = None"
proof (rule ccontr)
  assume "for_le i 0xFFFFFFFF body s \<noteq> None"
  then obtain r where r: "for_le i 0xFFFFFFFF body s = Some r" by blast
  have "(0xFFFFFFFF :: u32) = 0xFFFFFFFF \<longrightarrow> body s = Some (Inr ((), s)) \<longrightarrow> False"
  proof (rule for_le.raw_induct [where P = "\<lambda>i n body s r. n = 0xFFFFFFFF \<longrightarrow> body s = Some (Inr ((), s)) \<longrightarrow> False", OF _ r])
    fix loop :: "u32 \<Rightarrow> u32 \<Rightarrow> unit parser \<Rightarrow> unit parser" and i n body s r
    assume ih: "\<And>i n body s r. loop i n body s = Some r \<Longrightarrow> n = 0xFFFFFFFF \<longrightarrow> body s = Some (Inr ((), s)) \<longrightarrow> False"
      and r: "(if i \<le> n then (case body s of None \<Rightarrow> None | Some (Inl e) \<Rightarrow> Some (Inl e) | Some (Inr (u, s')) \<Rightarrow> loop (i + 1) n body s')
        else Some (Inr ((), s))) = Some r"
    show "n = 0xFFFFFFFF \<longrightarrow> body s = Some (Inr ((), s)) \<longrightarrow> False"
    proof (intro impI)
      assume n: "n = 0xFFFFFFFF" and b: "body s = Some (Inr ((), s))"
      have "unat i < 2 ^ LENGTH(32)" by (rule unsigned_less)
      then have "i \<le> n" unfolding n by (simp add: word_le_nat_alt)
      then show False using r b n ih [of "i + 1" n body s r] by simp
    qed
  qed
  then show False using assms by simp
qed

text \<open>The code of 65 bits whose value is the largest \<open>unsigned\<close>.\<close>

definition ue_max :: "bool list" where
  "ue_max = replicate 32 False @ True # replicate 32 False"

lemma parses_ue_max: "parses p_ue h ue_max 0xFFFFFFFF h"
  unfolding parses_def
proof (intro allI impI)
  fix bv rest assume bv: "bv_ok bv" "bv_rest bv = ue_max @ rest"
  then have "bv_rest bv = replicate 32 False @ True # (replicate 32 False @ rest)" by (simp add: ue_max_def)
  from golomb_loop_code [OF bv(1) this, of 0 1]
  have loop: "golomb_loop bv 0 1 = Inr (32, 0, bv_adv 33 bv)" by simp
  have "bv_ok (bv_adv 33 bv)" "bv_rest (bv_adv 33 bv) = replicate 32 False @ rest"
    using rest_adv [OF bv(1), of 33] bv(2) by (simp_all add: ue_max_def)
  moreover have "bits_val (replicate 32 False) = 0" by (rule bit_word_eqI) (simp add: bit_bits_val)
  ultimately have "getBits 32 (bv_adv 33 bv) = Inr (0, bv_adv 65 bv)"
    by (simp add: getBits_rest padded_def)
  then show "p_ue (h, bv) = Some (Inr (0xFFFFFFFF, h, bv_adv (length ue_max) bv))"
    by (simp add: plift_def get_expGolomb_def loop ue_max_def)
qed

lemma hrd_hangs: "hangs analyze_hrd_parameters h (ue_max @ val_bits 4 (a :: u32) @ val_bits 4 (b :: u32) @ [])"
proof -
  have "hangs (for_le 0 0xFFFFFFFF (pseq skip_ue (pseq skip_ue (pbind p_flag (\<lambda>cbr_flag. preturn ()))))) h []"
    unfolding hangs_def
  proof (intro allI impI)
    fix bv assume bv: "bv_ok bv" "bv_rest bv = []"
    have "get_expGolomb bv = Inr (0, bv)"
      using golomb_loop_zeros [OF bv(1), of 0 0 1] bv by (simp add: get_expGolomb_def getBits_rest padded_def)
    then have "skip_ue (h, bv) = Some (Inr ((), (h, bv)))" by (simp add: skip_ue_def pbind_def plift_def preturn_def)
    then show "for_le 0 0xFFFFFFFF (pseq skip_ue (pseq skip_ue (pbind p_flag (\<lambda>cbr_flag. preturn ())))) (h, bv) = None"
      using bv by (intro for_le_forever) (simp add: pbind_def plift_def get1BitBoolean_rest preturn_def)
  qed
  note loop = hangs_first [OF this]
  show ?thesis
    unfolding analyze_hrd_parameters_def
    apply (rule hangs_then [OF parses_ue_max])
    apply (rule hangs_then [OF parses_bits], simp, simp)
    apply (rule hangs_then [OF parses_bits], simp, simp)
    apply (rule loop)
    done
qed

text \<open>
  C31: A sequence parameter set of H.264 whose VUI announces only NAL HRD parameters, with the
  count cpb_cnt_minus1 0xFFFFFFFF, the largest value a code of 65 bits gives, and which ends
  right behind the two scales of these, is never finished: the loop i <= n over an unsigned i
  does not end, since the reads at the end of the data succeed.
\<close>

theorem sps_hrd_count_never_returns:
  assumes "sps_ok f" "fHNumber h = 264" "length rbsp < 1000" "length buf = 1000"
    and "bits_of rbsp = sps_front f @ [True, False, False, False, False, False, True] @ ue_max @ val_bits 4 (a :: u32) @ val_bits 4 (b :: u32)"
  shows "analyze_seq_parameter_set_data buf (escape_from 0 rbsp) h = None"
proof -
  let ?evil = "ue_max @ val_bits 4 a @ val_bits 4 b @ []"
  have when_true: "hangs p h bits \<Longrightarrow> hangs (p_when True p) h bits" for p h bits by (simp add: p_when_def)
  have vui: "hangs (analyze_vui_parameters (0, 0)) g ([False, False, False, False] @ [] @ [] @ [False] @ [True] @ ?evil)" if "fHNumber g = 264" for g
  proof -
    have head: "parses vui_head g [False, False, False, False] () g"
      unfolding vui_head_def by (rule parse_steps)+
    have "hangs vui_hrd g ([True] @ ?evil)"
      unfolding vui_hrd_def by (intro hangs_then [OF parses_flag] hangs_first when_true hrd_hangs)
    from hangs_first [OF this] show ?thesis
      unfolding analyze_vui_parameters_def using that
      by (intro hangs_then [OF head] hangs_then [OF parses_framer] hangs_then [OF last_when] hangs_then [OF parses_flag]) simp_all
  qed
  have "hangs sps_264 h (sps_front f @ [True] @ [False, False, False, False] @ [] @ [] @ [False] @ [True] @ ?evil)"
    unfolding sps_264_def sps_264_vui_def using assms(2) vui
    by (intro hangs_then [OF parses_sps_head [OF assms(1)]] hangs_then [OF parses_flag]) simp
  then have hang: "hangs sps_264 h (bits_of rbsp)" using assms(5) by simp
  have rem: "removeH264or5EmulationBytes buf 1000 (escape_from 0 rbsp) = (length rbsp, rbsp @ drop (length rbsp) buf)"
    using emulation_bytes_removed assms(3,4) by simp
  let ?bv = "bv_setup (rbsp @ drop (length rbsp) buf) 0 (8 * length rbsp)"
  have "bv_ok ?bv" "bv_rest ?bv = bits_of rbsp"
    using parameter_set_rest [OF assms(4) rem] assms(4) rem by (simp_all add: rbsp_of_def)
  then have "sps_264 (h, ?bv) = None"
    using hang by (simp add: hangs_def)
  then show ?thesis
    using assms(2) by (simp add: analyze_seq_parameter_set_data_def removeEmulationBytes_def SPS_MAX_SIZE_def rem)
qed

theorem sps_hrd_count_never_returns_witness:
  "analyze_seq_parameter_set_data (replicate 1000 0) (escape_from 0 [0x67, 0x42, 0, 0x1e, 0xda, 2, 0x80, 0xf6, 0x82, 0, 0, 0, 1, 0, 0, 0, 0, 0]) H264Framer_init = None"
proof -
  have zeros: "replicate 32 False =
      [False, False, False, False, False, False, False, False, False, False, False, False, False, False, False, False, False, False, False, False, False, False, False, False, False, False, False, False, False, False, False, False]"
    by (simp add: numeral_eq_Suc)
  let ?rbsp = "[0x67, 0x42, 0, 0x1e, 0xda, 2, 0x80, 0xf6, 0x82, 0, 0, 0, 1, 0, 0, 0, 0, 0] :: byte list"
  have ok: "sps_ok example_sps" by (simp add: sps_ok_def example_sps_def ue_ok_def high_profile_def)
  have "bits_of ?rbsp = sps_front example_sps @ [True, False, False, False, False, False, True] @ ue_max @ val_bits 4 (0 :: u32) @ val_bits 4 (0 :: u32)"
    by (simp add: example_sps_def sps_front_def byte_bits_def ue_def bit_len.simps val_bits_def upt_rec Let_def ue_max_def zeros)
  from sps_hrd_count_never_returns [OF ok _ _ _ this, of H264Framer_init "replicate 1000 0"]
  show ?thesis by (simp add: H264Framer_init_def)
qed

end
