(* ===== verification/Port_Manager.thy ===== *)
theory Port_Manager
  imports Prelude
begin

text \<open>
  The port table of \<open>net/src/PortManager.cpp\<close>: per transport and address a vector of flags, one per port of the range.
  What libuv answers is an argument, by transport, address, port and the number of the attempt, and so are the
  normalisation of addresses and the value of \<open>rand()\<close>. The handle \<open>Bind\<close> returns is stood for by its port.
\<close>

subsection \<open>What an allocator of ports promises\<close>

datatype 'k port_event = Got 'k nat | Gave 'k nat

text \<open>The events of a client are a history of the allocator; what is outstanding after it.\<close>

primrec history ::
    "('s \<Rightarrow> 'k \<Rightarrow> nat \<Rightarrow> 's \<Rightarrow> bool) \<Rightarrow> ('s \<Rightarrow> 'k \<Rightarrow> nat \<Rightarrow> 's) \<Rightarrow> 'k port_event list \<Rightarrow> 's \<Rightarrow> 's \<Rightarrow> bool" where
  "history alloc release [] s s' = (s = s')"
| "history alloc release (ev # evs) s s' =
     (case ev of Got k p \<Rightarrow> (\<exists>s1. alloc s k p s1 \<and> history alloc release evs s1 s')
      | Gave k p \<Rightarrow> history alloc release evs (release s k p) s')"

primrec outstanding :: "'k port_event list \<Rightarrow> ('k \<Rightarrow> nat set) \<Rightarrow> 'k \<Rightarrow> nat set" where
  "outstanding [] h = h"
| "outstanding (ev # evs) h =
     (case ev of Got k p \<Rightarrow> outstanding evs (h(k := insert p (h k))) | Gave k p \<Rightarrow> outstanding evs (h(k := h k - {p})))"

locale port_allocator =
  fixes held :: "'s \<Rightarrow> 'k \<Rightarrow> nat set" and alloc :: "'s \<Rightarrow> 'k \<Rightarrow> nat \<Rightarrow> 's \<Rightarrow> bool"
    and release :: "'s \<Rightarrow> 'k \<Rightarrow> nat \<Rightarrow> 's" and inv :: "'s \<Rightarrow> bool"
  assumes alloc_fresh: "inv s \<Longrightarrow> alloc s k p s' \<Longrightarrow> p \<notin> held s k"
    and alloc_held: "inv s \<Longrightarrow> alloc s k p s' \<Longrightarrow> inv s' \<and> held s' = (held s)(k := insert p (held s k))"
    and release_held: "inv s \<Longrightarrow> inv (release s k p) \<and> held (release s k p) = (held s)(k := held s k - {p})"
begin

lemma history_held:
  "history alloc release evs s s' \<Longrightarrow> inv s \<Longrightarrow> inv s' \<and> held s' = outstanding evs (held s)"
proof (induction evs arbitrary: s)
  case (Cons ev evs)
  show ?case
  proof (cases ev)
    case (Got k p)
    then obtain s1 where s1: "alloc s k p s1" "history alloc release evs s1 s'" using Cons.prems(1) by auto
    note a = alloc_held [OF Cons.prems(2) s1(1)]
    have "inv s' \<and> held s' = outstanding evs (held s1)" using Cons.IH [OF s1(2)] a by blast
    then show ?thesis unfolding Got using a by simp
  next
    case (Gave k p)
    note a = release_held [OF Cons.prems(2), of k p]
    have "history alloc release evs (release s k p) s'" using Cons.prems(1) Gave by simp
    then have "inv s' \<and> held s' = outstanding evs (held (release s k p))" using Cons.IH a by blast
    then show ?thesis unfolding Gave using a by (simp del: fun_upd_apply)
  qed
qed simp

lemma never_twice:
  "history alloc release evs s s' \<Longrightarrow> inv s \<Longrightarrow> alloc s' k p s'' \<Longrightarrow> p \<notin> outstanding evs (held s) k"
  using history_held alloc_fresh by metis

end

subsection \<open>The table\<close>

datatype Transport = UDP | TCP

definition rtcMinPort :: nat where "rtcMinPort = 11501"
definition rtcMaxPort :: nat where "rtcMaxPort = 12560"

record PortManager =
  mapUdpIpPorts :: "string \<rightharpoonup> bool list"
  mapTcpIpPorts :: "string \<rightharpoonup> bool list"

definition PortManager_init :: PortManager where
  "PortManager_init = \<lparr>mapUdpIpPorts = Map.empty, mapTcpIpPorts = Map.empty\<rparr>"

definition table :: "Transport \<Rightarrow> PortManager \<Rightarrow> string \<rightharpoonup> bool list" where
  "table tr pm = (case tr of UDP \<Rightarrow> mapUdpIpPorts pm | TCP \<Rightarrow> mapTcpIpPorts pm)"

definition set_table :: "Transport \<Rightarrow> (string \<rightharpoonup> bool list) \<Rightarrow> PortManager \<Rightarrow> PortManager" where
  "set_table tr m pm = (case tr of UDP \<Rightarrow> pm\<lparr>mapUdpIpPorts := m\<rparr> | TCP \<Rightarrow> pm\<lparr>mapTcpIpPorts := m\<rparr>)"

definition GetPorts :: "Transport \<Rightarrow> string \<Rightarrow> PortManager \<Rightarrow> bool list \<times> PortManager" where
  "GetPorts tr ip pm =
     (case table tr pm ip of
        Some ports \<Rightarrow> (ports, pm)
      | None \<Rightarrow> (let numPorts = (rtcMaxPort - rtcMinPort + 1) mod 2 ^ 16; ports = replicate numPorts False
                 in (ports, set_table tr ((table tr pm)(ip \<mapsto> ports)) pm)))"

text \<open>
  The answers of libuv: \<open>uv_udp_init\<close> and \<open>uv_tcp_init\<close>, \<open>uv_udp_bind\<close> and \<open>uv_tcp_bind\<close>, and \<open>uv_listen\<close>.
\<close>

record os =
  os_init :: "Transport \<Rightarrow> nat \<Rightarrow> int"
  os_bind :: "Transport \<Rightarrow> string \<Rightarrow> nat \<Rightarrow> nat \<Rightarrow> int"
  os_listen :: "string \<Rightarrow> nat \<Rightarrow> nat \<Rightarrow> int"

definition try_bind :: "os \<Rightarrow> Transport \<Rightarrow> string \<Rightarrow> nat \<Rightarrow> nat \<Rightarrow> int" where
  "try_bind os tr ip port attempt =
     (case tr of UDP \<Rightarrow> os_bind os UDP ip port attempt
      | TCP \<Rightarrow> if os_bind os TCP ip port attempt = 0 then os_listen os ip port attempt else os_bind os TCP ip port attempt)"

text \<open>
  The loop over the ports. Too many attempts are only reported, so it ends when a bind succeeds. When the
  initialisation fails the handle is deleted and then used.
\<close>

partial_function (option) bind_loop :: "os \<Rightarrow> Transport \<Rightarrow> string \<Rightarrow> bool list \<Rightarrow> nat \<Rightarrow> nat \<Rightarrow> nat res option" where
  "bind_loop os tr ip ports attempt portIdx =
     (let attempt' = attempt + 1; portIdx' = (portIdx + 1) mod length ports; port = (portIdx' + rtcMinPort) mod 2 ^ 16
      in if ports ! portIdx' then bind_loop os tr ip ports attempt' portIdx'
         else if os_init os tr attempt' \<noteq> 0 then Some (Inl Undefined_behaviour)
         else if try_bind os tr ip port attempt' = 0 then Some (Inr portIdx')
         else bind_loop os tr ip ports attempt' portIdx')"

definition randint :: "nat \<Rightarrow> nat \<Rightarrow> nat \<Rightarrow> nat" where
  "randint rand lo hi = rand mod (hi + 1 - lo) + lo"

text \<open>Yields the port bound, the normalised address (written back to the argument) and the table.\<close>

definition Bind ::
    "os \<Rightarrow> (string \<Rightarrow> string res) \<Rightarrow> nat \<Rightarrow> Transport \<Rightarrow> string \<Rightarrow> PortManager \<Rightarrow> (nat \<times> string \<times> PortManager) res option" where
  "Bind os NormalizeIp rand tr ip pm =
     (case NormalizeIp ip of Inl e \<Rightarrow> Some (Inl e)
      | Inr ip' \<Rightarrow> (case GetPorts tr ip' pm of (ports, pm1) \<Rightarrow>
          (case bind_loop os tr ip' ports 0 (randint rand 0 (length ports - 1)) of
             None \<Rightarrow> None
           | Some (Inl e) \<Rightarrow> Some (Inl e)
           | Some (Inr portIdx) \<Rightarrow>
               Some (Inr ((portIdx + rtcMinPort) mod 2 ^ 16, ip', set_table tr ((table tr pm1)(ip' \<mapsto> ports[portIdx := True])) pm1)))))"

definition Unbind :: "Transport \<Rightarrow> string \<Rightarrow> nat \<Rightarrow> PortManager \<Rightarrow> PortManager" where
  "Unbind tr ip port pm =
     (if port < rtcMinPort \<or> rtcMaxPort < port then pm
      else (let portIdx = port - rtcMinPort
            in case table tr pm ip of None \<Rightarrow> pm
               | Some ports \<Rightarrow> set_table tr ((table tr pm)(ip \<mapsto> ports[portIdx := False])) pm))"

definition BindUdp where "BindUdp os N rand ip pm = Bind os N rand UDP ip pm"
definition BindTcp where "BindTcp os N rand ip pm = Bind os N rand TCP ip pm"
definition UnbindUdp where "UnbindUdp ip port pm = Unbind UDP ip port pm"
definition UnbindTcp where "UnbindTcp ip port pm = Unbind TCP ip port pm"

text \<open>\<open>FillJson\<close>: the ports in use, in order, of an address that has a vector.\<close>

definition port_list :: "bool list \<Rightarrow> nat list" where
  "port_list ports = map (\<lambda>i. (i + rtcMinPort) mod 2 ^ 16) (filter (\<lambda>i. ports ! i) [0..<length ports])"

definition FillJson :: "PortManager \<Rightarrow> Transport \<Rightarrow> string \<rightharpoonup> nat list" where
  "FillJson pm tr ip = map_option port_list (table tr pm ip)"

subsection \<open>What the table holds\<close>

definition pm_inv :: "PortManager \<Rightarrow> bool" where
  "pm_inv pm = (\<forall>tr ip ports. table tr pm ip = Some ports \<longrightarrow> length ports = 1060)"

definition held_ports :: "PortManager \<Rightarrow> Transport \<times> string \<Rightarrow> nat set" where
  "held_ports pm k = (case table (fst k) pm (snd k) of None \<Rightarrow> {}
     | Some ports \<Rightarrow> {i + rtcMinPort | i. i < length ports \<and> ports ! i})"

lemma table_set [simp]: "table tr (set_table tr' m pm) = (if tr = tr' then m else table tr pm)"
  by (cases tr; cases tr') (simp_all add: table_def set_table_def)

lemma GetPorts_inv:
  assumes "GetPorts tr ip pm = (ports, pm')" "pm_inv pm"
  shows "length ports = 1060" "table tr pm' ip = Some ports" "pm_inv pm'" "held_ports pm' = held_ports pm"
    "held_ports pm (tr, ip) = {i + rtcMinPort | i. i < length ports \<and> ports ! i}"
proof -
  have n: "(rtcMaxPort - rtcMinPort + 1) mod 2 ^ 16 = 1060" "Suc (rtcMaxPort - rtcMinPort) mod 65536 = 1060" by (simp_all add: rtcMaxPort_def rtcMinPort_def)
  show "length ports = 1060" "table tr pm' ip = Some ports" "pm_inv pm'" "held_ports pm' = held_ports pm"
    "held_ports pm (tr, ip) = {i + rtcMinPort | i. i < length ports \<and> ports ! i}"
    using assms by (auto simp: GetPorts_def n Let_def pm_inv_def held_ports_def fun_eq_iff split: option.splits if_splits)
qed

lemma bind_loop_sound:
  assumes "bind_loop os tr ip ports attempt i = Some r" "ports \<noteq> []" "r = Inr j"
  shows "j < length ports \<and> \<not> ports ! j \<and> (\<exists>n. try_bind os tr ip ((j + rtcMinPort) mod 2 ^ 16) n = 0)"
proof -
  let ?P = "\<lambda>os tr ip ports attempt i r. ports \<noteq> [] \<longrightarrow> (\<forall>j. r = Inr j \<longrightarrow> j < length ports \<and> \<not> ports ! j \<and>
      (\<exists>n. try_bind os tr ip ((j + rtcMinPort) mod 2 ^ 16) n = 0))"
  have "?P os tr ip ports attempt i r"
  proof (rule bind_loop.raw_induct [where P = ?P, OF _ assms(1)])
    fix loop :: "os \<Rightarrow> Transport \<Rightarrow> string \<Rightarrow> bool list \<Rightarrow> nat \<Rightarrow> nat \<Rightarrow> nat res option" and os tr ip ports attempt i r
    assume ih: "\<And>os tr ip ports attempt i r. loop os tr ip ports attempt i = Some r \<Longrightarrow> ?P os tr ip ports attempt i r"
      and r: "(let attempt' = attempt + 1; portIdx' = (i + 1) mod length ports; port = (portIdx' + rtcMinPort) mod 2 ^ 16
        in if ports ! portIdx' then loop os tr ip ports attempt' portIdx'
           else if os_init os tr attempt' \<noteq> 0 then Some (Inl Undefined_behaviour)
           else if try_bind os tr ip port attempt' = 0 then Some (Inr portIdx')
           else loop os tr ip ports attempt' portIdx') = Some r"
    show "?P os tr ip ports attempt i r"
    proof (intro impI allI)
      fix j assume ne: "ports \<noteq> []" and j: "r = Inr j"
      have lt: "(i + 1) mod length ports < length ports" using ne by simp
      show "j < length ports \<and> \<not> ports ! j \<and> (\<exists>n. try_bind os tr ip ((j + rtcMinPort) mod 2 ^ 16) n = 0)"
        using r ih ne j lt by (auto simp: Let_def split: if_splits)
    qed
  qed
  then show ?thesis using assms(2,3) by simp
qed

text \<open>The loop visits the ports in a circle; \<open>n\<close> steps on it looks at position \<open>i + n\<close>.\<close>

lemma bind_loop_finds:
  assumes "ports \<noteq> []" "\<forall>n. os_init os tr n = 0"
    and "\<not> ports ! ((i + n + 1) mod length ports)"
      "try_bind os tr ip (((i + n + 1) mod length ports + rtcMinPort) mod 2 ^ 16) (attempt + n + 1) = 0"
    and "\<forall>m<n. ports ! ((i + m + 1) mod length ports) \<or>
      try_bind os tr ip (((i + m + 1) mod length ports + rtcMinPort) mod 2 ^ 16) (attempt + m + 1) \<noteq> 0"
  shows "bind_loop os tr ip ports attempt i = Some (Inr ((i + n + 1) mod length ports))"
  using assms(3-5)
proof (induction n arbitrary: i attempt)
  case 0
  then show ?case using assms(1,2) by (subst bind_loop.simps) (simp add: Let_def)
next
  case (Suc n)
  let ?i = "(i + 1) mod length ports"
  have shift: "(?i + m + 1) mod length ports = (i + Suc m + 1) mod length ports" for m
  proof -
    have "(?i + (m + 1)) mod length ports = ((i + 1) + (m + 1)) mod length ports" by (rule mod_add_left_eq)
    then show ?thesis by (simp add: add_ac)
  qed
  have "bind_loop os tr ip ports attempt i = bind_loop os tr ip ports (attempt + 1) ?i"
    using Suc.prems(3)[rule_format, of 0] assms(2) by (subst bind_loop.simps) (auto simp: Let_def)
  also have "\<dots> = Some (Inr ((?i + n + 1) mod length ports))"
  proof (rule Suc.IH)
    show "\<not> ports ! ((?i + n + 1) mod length ports)" using Suc.prems(1) unfolding shift by simp
    show "try_bind os tr ip (((?i + n + 1) mod length ports + rtcMinPort) mod 2 ^ 16) (attempt + 1 + n + 1) = 0"
      using Suc.prems(2) unfolding shift by simp
    show "\<forall>m<n. ports ! ((?i + m + 1) mod length ports) \<or>
        try_bind os tr ip (((?i + m + 1) mod length ports + rtcMinPort) mod 2 ^ 16) (attempt + 1 + m + 1) \<noteq> 0"
      using Suc.prems(3) unfolding shift by (metis Suc_mono add.assoc add_Suc_right plus_1_eq_Suc add_Suc)
  qed
  finally show ?case unfolding shift .
qed

lemma bind_loop_exhausted:
  assumes "ports \<noteq> []" "\<forall>n. os_init os tr n = 0"
    and "\<forall>j<length ports. ports ! j \<or> (\<forall>n. try_bind os tr ip ((j + rtcMinPort) mod 2 ^ 16) n \<noteq> 0)"
  shows "bind_loop os tr ip ports attempt i = None"
proof (rule ccontr)
  assume "bind_loop os tr ip ports attempt i \<noteq> None"
  then obtain r where r: "bind_loop os tr ip ports attempt i = Some r" by blast
  let ?full = "\<lambda>os tr ip ports. ports \<noteq> [] \<and> (\<forall>n. os_init os tr n = 0) \<and>
    (\<forall>j<length ports. ports ! j \<or> (\<forall>n. try_bind os tr ip ((j + rtcMinPort) mod 2 ^ 16) n \<noteq> 0))"
  let ?P = "\<lambda>os tr ip ports attempt i (r :: nat res). \<not> ?full os tr ip ports"
  have "?P os tr ip ports attempt i r"
  proof (rule bind_loop.raw_induct [where P = ?P, OF _ r])
    fix loop :: "os \<Rightarrow> Transport \<Rightarrow> string \<Rightarrow> bool list \<Rightarrow> nat \<Rightarrow> nat \<Rightarrow> nat res option" and os tr ip ports attempt i r
    assume ih: "\<And>os tr ip ports attempt i r. loop os tr ip ports attempt i = Some r \<Longrightarrow> ?P os tr ip ports attempt i r"
      and r: "(let attempt' = attempt + 1; portIdx' = (i + 1) mod length ports; port = (portIdx' + rtcMinPort) mod 2 ^ 16
        in if ports ! portIdx' then loop os tr ip ports attempt' portIdx'
           else if os_init os tr attempt' \<noteq> 0 then Some (Inl Undefined_behaviour)
           else if try_bind os tr ip port attempt' = 0 then Some (Inr portIdx')
           else loop os tr ip ports attempt' portIdx') = Some r"
    show "?P os tr ip ports attempt i r"
    proof
      assume full: "?full os tr ip ports"
      then have "(i + 1) mod length ports < length ports" by simp
      then have "ports ! ((i + 1) mod length ports) \<or>
          (\<forall>n. try_bind os tr ip (((i + 1) mod length ports + rtcMinPort) mod 2 ^ 16) n \<noteq> 0)"
        using full by blast
      moreover have "os_init os tr (attempt + 1) = 0" using full by blast
      ultimately have "loop os tr ip ports (attempt + 1) ((i + 1) mod length ports) = Some r"
        using r unfolding Let_def by (metis (no_types))
      then show False using ih full by blast
    qed
  qed
  then show False using assms by blast
qed

subsection \<open>Binding and releasing\<close>

definition binds :: "os \<Rightarrow> (string \<Rightarrow> string res) \<Rightarrow> PortManager \<Rightarrow> Transport \<times> string \<Rightarrow> nat \<Rightarrow> PortManager \<Rightarrow> bool" where
  "binds os N pm k p pm' = (\<exists>rand ip. Bind os N rand (fst k) ip pm = Some (Inr (p, snd k, pm')))"

lemma held_update:
  assumes "table tr pm ip = Some ports" "i < length ports"
  shows "held_ports (set_table tr ((table tr pm)(ip \<mapsto> ports[i := b])) pm) =
    (held_ports pm)((tr, ip) := (if b then insert (i + rtcMinPort) else (\<lambda>h. h - {i + rtcMinPort})) (held_ports pm (tr, ip)))"
proof (rule ext)
  fix k
  show "held_ports (set_table tr ((table tr pm)(ip \<mapsto> ports[i := b])) pm) k =
    ((held_ports pm)((tr, ip) := (if b then insert (i + rtcMinPort) else (\<lambda>h. h - {i + rtcMinPort})) (held_ports pm (tr, ip)))) k"
    using assms by (cases k; cases b) (auto simp: held_ports_def nth_list_update split: if_splits)
qed

lemma inv_update:
  "pm_inv pm \<Longrightarrow> table tr pm ip = Some ports \<Longrightarrow> pm_inv (set_table tr ((table tr pm)(ip \<mapsto> ports[i := b])) pm)"
  by (auto simp: pm_inv_def split: if_splits)

lemma port_number: "j < 1060 \<Longrightarrow> (j + rtcMinPort) mod 2 ^ 16 = j + rtcMinPort"
  by (simp add: rtcMinPort_def)

lemma Bind_result:
  assumes "Bind os N rand tr ip pm = Some (Inr (p, ip', pm'))" "pm_inv pm"
  shows "N ip = Inr ip' \<and> pm_inv pm' \<and> p \<notin> held_ports pm (tr, ip') \<and> rtcMinPort \<le> p \<and> p \<le> rtcMaxPort \<and>
    held_ports pm' = (held_ports pm)((tr, ip') := insert p (held_ports pm (tr, ip'))) \<and> (\<exists>n. try_bind os tr ip' p n = 0)"
proof -
  obtain ports pm1 where g: "GetPorts tr ip' pm = (ports, pm1)" by fastforce
  have ip': "N ip = Inr ip'" using assms(1) by (auto simp: Bind_def split: sum.splits prod.splits option.splits)
  obtain j where j: "bind_loop os tr ip' ports 0 (randint rand 0 (length ports - 1)) = Some (Inr j)"
    "p = (j + rtcMinPort) mod 2 ^ 16" "pm' = set_table tr ((table tr pm1)(ip' \<mapsto> ports[j := True])) pm1"
    using assms(1) ip' g by (auto simp: Bind_def split: sum.splits option.splits)
  note get = GetPorts_inv [OF g assms(2)]
  have "ports \<noteq> []" using get(1) by auto
  from bind_loop_sound [OF j(1) this refl] have s: "j < length ports" "\<not> ports ! j"
    "\<exists>n. try_bind os tr ip' p n = 0" unfolding j(2) by auto
  have p: "p = j + rtcMinPort" using s(1) get(1) j(2) port_number by simp
  have "p \<notin> held_ports pm (tr, ip')" using s(2) by (simp add: get(5) p)
  moreover have "held_ports pm' = (held_ports pm)((tr, ip') := insert p (held_ports pm (tr, ip')))"
    unfolding j(3) held_update [OF get(2) s(1)] by (simp add: get(4) p)
  moreover have "pm_inv pm'" unfolding j(3) by (rule inv_update [OF get(3,2)])
  moreover have "rtcMinPort \<le> p \<and> p \<le> rtcMaxPort" using s(1) get(1) p by (simp add: rtcMaxPort_def rtcMinPort_def)
  ultimately show ?thesis using ip' s(3) by simp
qed

lemma Unbind_result:
  assumes "pm_inv pm"
  shows "pm_inv (Unbind tr ip p pm) \<and> held_ports (Unbind tr ip p pm) = (held_ports pm)((tr, ip) := held_ports pm (tr, ip) - {p})"
proof (cases "p < rtcMinPort \<or> rtcMaxPort < p")
  case True
  then have "p \<notin> held_ports pm (tr, ip)"
    using assms by (auto simp: held_ports_def pm_inv_def rtcMinPort_def rtcMaxPort_def split: option.splits)
  then show ?thesis using True assms by (auto simp: Unbind_def fun_eq_iff)
next
  case False
  show ?thesis
  proof (cases "table tr pm ip")
    case None
    then have "held_ports pm (tr, ip) = {}" by (simp add: held_ports_def)
    then show ?thesis using False None assms by (auto simp: Unbind_def fun_eq_iff)
  next
    case (Some ports)
    have "length ports = 1060" using Some assms by (auto simp: pm_inv_def)
    then have i: "p - rtcMinPort < length ports" "p - rtcMinPort + rtcMinPort = p"
      using False by (auto simp: rtcMinPort_def rtcMaxPort_def)
    have "Unbind tr ip p pm = set_table tr ((table tr pm)(ip \<mapsto> ports[p - rtcMinPort := False])) pm"
      using False Some by (simp add: Unbind_def)
    then show ?thesis using held_update [OF Some i(1), of False] inv_update [OF assms Some] i(2) by simp
  qed
qed

interpretation ports: port_allocator held_ports "binds os N" "\<lambda>pm k p. Unbind (fst k) (snd k) p pm" pm_inv for os N
proof unfold_locales
  fix pm k p pm' assume inv: "pm_inv pm" and b: "binds os N pm k p pm'"
  obtain rand ip where "Bind os N rand (fst k) ip pm = Some (Inr (p, snd k, pm'))" using b by (auto simp: binds_def)
  from Bind_result [OF this inv] show "p \<notin> held_ports pm k" "pm_inv pm' \<and> held_ports pm' = (held_ports pm)(k := insert p (held_ports pm k))"
    by simp_all
next
  fix pm k p assume "pm_inv pm"
  from Unbind_result [OF this] show "pm_inv (Unbind (fst k) (snd k) p pm) \<and>
    held_ports (Unbind (fst k) (snd k) p pm) = (held_ports pm)(k := held_ports pm k - {p})" by simp
qed

text \<open>
  C32: After any history of binds and unbinds a bind that succeeds gives a port of the range
  that is not among those given for this transport and address and not yet given back, and the
  table then holds exactly these and the new one.
\<close>

theorem ports_never_shared:
  assumes "history (binds os N) (\<lambda>pm k p. Unbind (fst k) (snd k) p pm) evs PortManager_init pm"
    and "Bind os N rand tr ip pm = Some (Inr (p, ip', pm'))"
  shows "p \<notin> outstanding evs (\<lambda>_. {}) (tr, ip') \<and> rtcMinPort \<le> p \<and> p \<le> rtcMaxPort \<and>
    held_ports pm' (tr, ip') = insert p (outstanding evs (\<lambda>_. {}) (tr, ip'))"
proof -
  have inv: "pm_inv PortManager_init" and none: "held_ports PortManager_init = (\<lambda>_. {})"
    by (auto simp: pm_inv_def held_ports_def PortManager_init_def table_def fun_eq_iff split: Transport.splits option.splits)
  have "pm_inv pm \<and> held_ports pm = outstanding evs (\<lambda>_. {})"
    using ports.history_held [OF assms(1) inv] none by simp
  then show ?thesis using Bind_result [OF assms(2)] by auto
qed

lemma mod_reaches: "j < n \<Longrightarrow> \<exists>m. (i + m + 1) mod n = (j :: nat)"
proof -
  assume j: "j < n"
  have "(i + (j + (n - 1) * (i + 1)) + 1) mod n = (j + n * (i + 1)) mod n" using j by (cases n) (simp_all add: algebra_simps)
  also have "\<dots> = j" using j by (simp only: mod_mult_self2 mod_less)
  finally show ?thesis by blast
qed

text \<open>
  C33: When the system decides by the port alone, Bind returns a port it accepts if one is
  free in the table, from any random start, and otherwise never returns: the limit on the
  attempts is only logged.
\<close>

theorem Bind_returns_or_hangs:
  assumes "pm_inv pm" "N ip = Inr ip'" "\<forall>n. os_init os tr n = 0" "\<forall>port n. (try_bind os tr ip' port n = 0) = accepts port"
  shows "if \<exists>p\<in>{rtcMinPort..rtcMaxPort} - held_ports pm (tr, ip'). accepts p
    then \<exists>p pm'. Bind os N rand tr ip pm = Some (Inr (p, ip', pm')) \<and> accepts p
    else Bind os N rand tr ip pm = None"
proof -
  obtain ports pm1 where g: "GetPorts tr ip' pm = (ports, pm1)" by fastforce
  note get = GetPorts_inv [OF g assms(1)]
  have ne: "ports \<noteq> []" using get(1) by auto
  let ?start = "randint rand 0 (length ports - 1)" and ?N = "length ports"
  let ?good = "\<lambda>j. \<not> ports ! j \<and> accepts (j + rtcMinPort)"
  have acc: "try_bind os tr ip' ((j + rtcMinPort) mod 2 ^ 16) n = 0 \<longleftrightarrow> accepts (j + rtcMinPort)" if "j < ?N" for j n
    using assms(4) port_number [of j] that get(1) by simp
  have set_eq: "(\<exists>p\<in>{rtcMinPort..rtcMaxPort} - held_ports pm (tr, ip'). accepts p) \<longleftrightarrow> (\<exists>j<?N. ?good j)"
  proof
    assume "\<exists>p\<in>{rtcMinPort..rtcMaxPort} - held_ports pm (tr, ip'). accepts p"
    then obtain p where p: "rtcMinPort \<le> p" "p \<le> rtcMaxPort" "p \<notin> held_ports pm (tr, ip')" "accepts p" by auto
    then have "p - rtcMinPort < ?N" "p - rtcMinPort + rtcMinPort = p" using get(1) by (auto simp: rtcMinPort_def rtcMaxPort_def)
    moreover have "\<not> ports ! (p - rtcMinPort)" using p(3) calculation unfolding get(5) by force
    ultimately show "\<exists>j<?N. ?good j" using p(4) by (intro exI [of _ "p - rtcMinPort"]) simp
  next
    assume "\<exists>j<?N. ?good j"
    then obtain j where j: "j < ?N" "?good j" by blast
    then have "j + rtcMinPort \<in> {rtcMinPort..rtcMaxPort} - held_ports pm (tr, ip')"
      using get(1) unfolding get(5) by (auto simp: rtcMinPort_def rtcMaxPort_def)
    then show "\<exists>p\<in>{rtcMinPort..rtcMaxPort} - held_ports pm (tr, ip'). accepts p" using j by blast
  qed
  show ?thesis
  proof (cases "\<exists>j<?N. ?good j")
    case True
    then obtain j m where "j < ?N" "?good j" "(?start + m + 1) mod ?N = j" using mod_reaches by blast
    then have "?good ((?start + m + 1) mod ?N)" by simp
    then obtain n where n: "?good ((?start + n + 1) mod ?N)" "\<forall>m<n. \<not> ?good ((?start + m + 1) mod ?N)"
      using exists_least_iff [of "\<lambda>m. ?good ((?start + m + 1) mod ?N)"] by blast
    have lt: "(?start + m + 1) mod ?N < ?N" for m using ne by simp
    have "bind_loop os tr ip' ports 0 ?start = Some (Inr ((?start + n + 1) mod ?N))"
    proof (rule bind_loop_finds [OF ne assms(3)])
      show "\<not> ports ! ((?start + n + 1) mod ?N)" using n(1) by simp
      show "try_bind os tr ip' (((?start + n + 1) mod ?N + rtcMinPort) mod 2 ^ 16) (0 + n + 1) = 0"
        unfolding acc [OF lt] using n(1) by simp
      show "\<forall>m<n. ports ! ((?start + m + 1) mod ?N) \<or>
          try_bind os tr ip' (((?start + m + 1) mod ?N + rtcMinPort) mod 2 ^ 16) (0 + m + 1) \<noteq> 0"
        unfolding acc [OF lt] using n(2) by blast
    qed
    then have "\<exists>p pm'. Bind os N rand tr ip pm = Some (Inr (p, ip', pm')) \<and> accepts p"
      using n(1) port_number [of "(?start + n + 1) mod ?N"] lt [of n] get(1) by (simp add: Bind_def assms(2) g)
    then show ?thesis using True set_eq by simp
  next
    case False
    have "bind_loop os tr ip' ports 0 ?start = None"
      using False acc by (intro bind_loop_exhausted [OF ne assms(3)]) blast
    then have "Bind os N rand tr ip pm = None" by (simp add: Bind_def assms(2) g)
    then show ?thesis using False set_eq by simp
  qed
qed

definition example_os :: os where
  "example_os = \<lparr>os_init = (\<lambda>tr n. 0), os_bind = (\<lambda>tr ip port n. if port = 11600 then 0 else -98), os_listen = (\<lambda>ip port n. 0)\<rparr>"

lemma example_accepts: "\<forall>port n. (try_bind example_os tr ip port n = 0) = (port = 11600)"
  by (cases tr) (simp_all add: try_bind_def example_os_def)

theorem Bind_returns_or_hangs_witness:
  "\<exists>p pm'. Bind example_os Inr 7 UDP ''127.0.0.1'' PortManager_init = Some (Inr (p, ''127.0.0.1'', pm')) \<and> p = 11600"
proof -
  have inv: "pm_inv PortManager_init" and free: "held_ports PortManager_init = (\<lambda>_. {})"
    by (auto simp: pm_inv_def held_ports_def PortManager_init_def table_def fun_eq_iff split: Transport.splits option.splits)
  have "\<forall>n. os_init example_os UDP n = 0" by (simp add: example_os_def)
  from Bind_returns_or_hangs [OF inv _ this example_accepts, where N = Inr and ip = "''127.0.0.1''" and rand = 7] show ?thesis
    by (simp add: free rtcMinPort_def rtcMaxPort_def)
qed

theorem ports_never_shared_witness:
  "\<exists>pm'. Bind example_os Inr 7 UDP ''127.0.0.1'' PortManager_init = Some (Inr (11600, ''127.0.0.1'', pm')) \<and>
    held_ports pm' (UDP, ''127.0.0.1'') = {11600}"
proof -
  have inv: "pm_inv PortManager_init" and free: "held_ports PortManager_init = (\<lambda>_. {})"
    by (auto simp: pm_inv_def held_ports_def PortManager_init_def table_def fun_eq_iff split: Transport.splits option.splits)
  have ne: "replicate 1060 False \<noteq> []" by simp
  have init: "\<forall>n. os_init example_os UDP n = 0" by (simp add: example_os_def)
  have loop: "bind_loop example_os UDP ''127.0.0.1'' (replicate 1060 False) 0 7 = Some (Inr 99)"
    using bind_loop_finds [OF ne init, where i = 7 and n = 91 and ip = "''127.0.0.1''" and attempt = 0]
    by (simp add: try_bind_def example_os_def rtcMinPort_def)
  obtain pm' where pm': "Bind example_os Inr 7 UDP ''127.0.0.1'' PortManager_init = Some (Inr (11600, ''127.0.0.1'', pm'))"
    using loop by (simp add: Bind_def GetPorts_def PortManager_init_def table_def Let_def rtcMinPort_def rtcMaxPort_def randint_def)
  have "history (binds example_os Inr) (\<lambda>pm k p. Unbind (fst k) (snd k) p pm) [] PortManager_init PortManager_init" by simp
  from ports_never_shared [OF this pm'] pm' show ?thesis by auto
qed

end
