(* ===== verification/SocketIO_Packet.thy ===== *)
theory SocketIO_Packet
  imports String_Util
begin

text \<open>
  The packets of the socket.io client (\<open>signal/src/packet.cpp\<close>, \<open>packet.h\<close>): their text form, its parser and the
  packet manager. The values of \<open>nlohmann::json\<close> are a datatype; printing and parsing them are a parameter.
\<close>

subsection \<open>Values of JSON\<close>

text \<open>Numbers are kept as the 64 bits of their representation, an object as its entries in the order of its map.\<close>

datatype json =
    Null
  | Object "(string \<times> json) list"
  | Array "json list"
  | String string
  | Boolean bool
  | Number_integer "64 word"
  | Number_unsigned "64 word"
  | Number_float "64 word"
  | Binary "byte list"
  | Discarded

fun json_size :: "json \<Rightarrow> nat" where
  "json_size Null = 0"
| "json_size (Array xs) = length xs"
| "json_size (Object kvs) = length kvs"
| "json_size _ = 1"

fun json_empty :: "json \<Rightarrow> bool" where
  "json_empty Null = True"
| "json_empty (Array xs) = (xs = [])"
| "json_empty (Object kvs) = (kvs = [])"
| "json_empty _ = False"

fun is_array :: "json \<Rightarrow> bool" where
  "is_array (Array xs) = True"
| "is_array _ = False"

fun is_object :: "json \<Rightarrow> bool" where
  "is_object (Object kvs) = True"
| "is_object _ = False"

text \<open>\<open>at\<close> throws for a value that is no array or an index out of range, \<open>push_back\<close> for one that is neither null nor array.\<close>

fun json_at :: "json \<Rightarrow> nat \<Rightarrow> json res" where
  "json_at (Array xs) i = (if i < length xs then Inr (xs ! i) else Inl Out_of_range)"
| "json_at _ i = Inl (Runtime_error ''cannot use at()'')"

fun json_push_back :: "json \<Rightarrow> json \<Rightarrow> json res" where
  "json_push_back Null v = Inr (Array [v])"
| "json_push_back (Array xs) v = Inr (Array (xs @ [v]))"
| "json_push_back _ v = Inl (Runtime_error ''cannot use push_back()'')"

text \<open>The conversion to \<open>std::string\<close>.\<close>

fun json_string :: "json \<Rightarrow> string res" where
  "json_string (String s) = Inr s"
| "json_string _ = Inl (Runtime_error ''type must be string'')"

fun json_clear :: "json \<Rightarrow> json" where
  "json_clear (Number_integer n) = Number_integer 0"
| "json_clear (Number_unsigned n) = Number_unsigned 0"
| "json_clear (Number_float n) = Number_float 0"
| "json_clear (Boolean b) = Boolean False"
| "json_clear (String s) = String []"
| "json_clear (Binary b) = Binary []"
| "json_clear (Array xs) = Array []"
| "json_clear (Object kvs) = Object []"
| "json_clear j = j"

text \<open>\<open>dump\<close> throws for strings that are not UTF-8, \<open>parse\<close> for texts that are not JSON.\<close>

record json_text =
  dump :: "json \<Rightarrow> string res"
  json_parse :: "string \<Rightarrow> json res"

subsection \<open>Packets\<close>

definition frame_open :: int where "frame_open = 0"
definition frame_close :: int where "frame_close = 1"
definition frame_ping :: int where "frame_ping = 2"
definition frame_pong :: int where "frame_pong = 3"
definition frame_message :: int where "frame_message = 4"

definition type_min :: int where "type_min = 0"
definition type_connect :: int where "type_connect = 0"
definition type_disconnect :: int where "type_disconnect = 1"
definition type_event :: int where "type_event = 2"
definition type_ack :: int where "type_ack = 3"
definition type_error :: int where "type_error = 4"
definition type_binary_event :: int where "type_binary_event = 5"
definition type_binary_ack :: int where "type_binary_ack = 6"
definition type_max :: int where "type_max = 6"
definition type_undetermined :: int where "type_undetermined = 0x10"

lemmas packet_types = frame_open_def frame_close_def frame_ping_def frame_pong_def frame_message_def
  type_min_def type_connect_def type_disconnect_def type_event_def type_ack_def type_error_def
  type_binary_event_def type_binary_ack_def type_max_def type_undetermined_def

record packet =
  p_frame :: int
  p_type :: int
  p_nsp :: string
  p_pack_id :: int
  p_message :: json
  p_pending_buffers :: nat
  p_buffers :: "string list"

unbundle bit_operations_syntax

definition packet_message :: "string \<Rightarrow> json \<Rightarrow> int \<Rightarrow> bool \<Rightarrow> packet res" where
  "packet_message nsp msg pack_id isAck =
     (if \<not> isAck \<or> pack_id \<ge> 0
      then Inr \<lparr>p_frame = frame_message, p_type = (if isAck then type_ack else type_event) OR type_undetermined,
                p_nsp = nsp, p_pack_id = pack_id, p_message = msg, p_pending_buffers = 0, p_buffers = []\<rparr>
      else Inl Assertion_failed)"

definition packet_typed :: "int \<Rightarrow> string \<Rightarrow> json \<Rightarrow> packet" where
  "packet_typed type nsp msg =
     \<lparr>p_frame = frame_message, p_type = type, p_nsp = nsp, p_pack_id = -1, p_message = msg,
      p_pending_buffers = 0, p_buffers = []\<rparr>"

definition packet_frame :: "int \<Rightarrow> packet" where
  "packet_frame frame =
     \<lparr>p_frame = frame, p_type = type_undetermined, p_nsp = [], p_pack_id = -1, p_message = Null,
      p_pending_buffers = 0, p_buffers = []\<rparr>"

text \<open>The constructor without arguments leaves the frame uninitialised: \<open>frame\<close> is what the memory holds.\<close>

definition packet_empty :: "int \<Rightarrow> packet" where
  "packet_empty frame = packet_frame frame"

definition is_binary_message :: "string \<Rightarrow> bool" where
  "is_binary_message payload = (payload \<noteq> [] \<and> schar (hd payload) = frame_message)"

definition is_text_message :: "string \<Rightarrow> bool" where
  "is_text_message payload = (payload \<noteq> [] \<and> schar (hd payload) = frame_message + 48)"

definition is_message :: "string \<Rightarrow> bool" where
  "is_message payload = (is_binary_message payload \<or> is_text_message payload)"

definition get_type :: "packet \<Rightarrow> int res" where
  "get_type p = (if p_type p AND type_undetermined = 0 then Inr (p_type p) else Inl Assertion_failed)"

text \<open>\<open>get_pack_id\<close> returns the \<open>int\<close> as \<open>unsigned\<close>.\<close>

definition get_pack_id :: "packet \<Rightarrow> u32" where
  "get_pack_id p = of_int (p_pack_id p)"

subsection \<open>Parsing\<close>

text \<open>A string yields the NUL behind its end; \<open>i\<close> is at most the length.\<close>

definition char_at :: "string \<Rightarrow> nat \<Rightarrow> char" where
  "char_at s i = (if i < length s then s ! i else CHR 0x00)"

definition find_first_of :: "string \<Rightarrow> string \<Rightarrow> nat \<Rightarrow> nat option" where
  "find_first_of s cs pos =
     (let n = length (takeWhile (\<lambda>c. c \<notin> set cs) (drop pos s))
      in if pos + n < length s then Some (pos + n) else None)"

definition is_binary_type :: "int \<Rightarrow> bool" where
  "is_binary_type t = (t = type_binary_event \<or> t = type_binary_ack)"

definition parse_buffer :: "string \<Rightarrow> packet \<Rightarrow> (bool \<times> packet) res" where
  "parse_buffer buf_payload p =
     (if p_pending_buffers p > 0
      then if is_binary_message buf_payload
           then (let p' = p\<lparr>p_buffers := p_buffers p @ [tl buf_payload], p_pending_buffers := p_pending_buffers p - 1\<rparr>
                 in Inr (p_pending_buffers p' \<noteq> 0, p'))
           else Inl Assertion_failed
      else Inr (False, p))"

text \<open>The type and the position behind it; no position when the type is none.\<close>

definition parse_type :: "string \<Rightarrow> packet \<Rightarrow> packet \<times> nat option" where
  "parse_type payload p =
     (if p_frame p = frame_message
      then (let t = schar (char_at payload 1) - 48; p' = p\<lparr>p_type := t\<rparr>
            in if t < type_min \<or> t > type_max then (p', None)
               else if is_binary_type t
               then (p', Some (case find_from payload ''-'' 0 of None \<Rightarrow> 0 | Some score_pos \<Rightarrow> score_pos + 1))
               else (p', Some 2))
      else (p, Some 1))"

text \<open>The packet id between the positions and the message, or the place for the buffers.\<close>

definition parse_body :: "json_text \<Rightarrow> string \<Rightarrow> nat \<Rightarrow> nat \<Rightarrow> packet \<Rightarrow> (bool \<times> packet) res" where
  "parse_body J payload pos json_pos p =
     res_bind (if pos < json_pos then stoi (take (json_pos - pos) (drop pos payload)) else Inr (p_pack_id p)) (\<lambda>pack_id.
     let p' = p\<lparr>p_pack_id := pack_id\<rparr>
     in if p_frame p = frame_message \<and> is_binary_type (p_type p)
        then Inr (True, p'\<lparr>p_buffers := p_buffers p' @ [drop json_pos payload]\<rparr>)
        else res_bind (json_parse J (c_str (drop json_pos payload))) (\<lambda>j. Inr (False, p'\<lparr>p_message := j\<rparr>)))"

text \<open>A comma before the namespace makes the length of the substring wrap around: it then reaches to the end.\<close>

definition parse_nsp :: "json_text \<Rightarrow> string \<Rightarrow> nat \<Rightarrow> packet \<Rightarrow> (bool \<times> packet) res" where
  "parse_nsp J payload pos p =
     (case find_first_of payload ''{[\"/'' pos of
        None \<Rightarrow> Inr (False, p\<lparr>p_nsp := ''/''\<rparr>)
      | Some nsp_json_pos \<Rightarrow>
          if payload ! nsp_json_pos = CHR ''/''
          then (case find_first_of payload '','' 0 of
                  None \<Rightarrow> Inr (False, p\<lparr>p_nsp := drop nsp_json_pos payload\<rparr>)
                | Some comma_pos \<Rightarrow>
                    (let rest = drop nsp_json_pos payload;
                         p' = p\<lparr>p_nsp := if comma_pos < nsp_json_pos then rest else take (comma_pos - nsp_json_pos) rest\<rparr>
                     in case find_first_of payload ''\"[{'' (comma_pos + 1) of
                          None \<Rightarrow> Inr (False, p')
                        | Some json_pos \<Rightarrow> parse_body J payload (comma_pos + 1) json_pos p'))
          else parse_body J payload pos nsp_json_pos (p\<lparr>p_nsp := ''/''\<rparr>))"

definition parse_packet :: "json_text \<Rightarrow> string \<Rightarrow> packet \<Rightarrow> (bool \<times> packet) res" where
  "parse_packet J payload p =
     (if is_binary_message payload then Inl Assertion_failed
      else (case parse_type payload (p\<lparr>p_frame := schar (char_at payload 0) - 48, p_message := json_clear (p_message p),
                                       p_pack_id := -1, p_buffers := [], p_pending_buffers := 0\<rparr>) of
              (p', None) \<Rightarrow> Inr (False, p')
            | (p', Some pos) \<Rightarrow> parse_nsp J payload pos p'))"

subsection \<open>Printing\<close>

text \<open>Appends to \<open>payload\<close>; yields whether there are binary buffers, the text and the packet with its type settled.\<close>

definition settled_type :: "bool \<Rightarrow> int \<Rightarrow> int" where
  "settled_type hasBinary type =
     (let t = type AND NOT type_undetermined
      in if t = type_event then if hasBinary then type_binary_event else type_event
         else if t = type_ack then if hasBinary then type_binary_ack else type_ack
         else t)"

definition accept :: "json_text \<Rightarrow> string \<Rightarrow> string list \<Rightarrow> packet \<Rightarrow> (bool \<times> string \<times> packet) res" where
  "accept J payload buffers p =
     (let payload' = payload @ [char_of (p_frame p + 48)]
      in if p_frame p \<noteq> frame_message then Inr (False, payload', p)
         else (let hasMessage = (json_size (p_message p) \<noteq> 0);
                   hasBinary = (length buffers > 0);
                   t = settled_type hasBinary (p_type p);
                   ss = itostr t
                        @ (if hasBinary then itostr (int (length buffers)) @ ''-'' else [])
                        @ (if length (p_nsp p) > 0 \<and> p_nsp p \<noteq> ''/''
                           then p_nsp p @ (if hasMessage \<or> p_pack_id p \<ge> 0 then '','' else []) else [])
                        @ (if p_pack_id p \<ge> 0 then itostr (p_pack_id p) else [])
               in res_bind (if hasMessage then dump J (p_message p) else Inr []) (\<lambda>text.
                  Inr (hasBinary, payload' @ ss @ text, p\<lparr>p_type := t\<rparr>))))"

subsection \<open>The packet manager\<close>

text \<open>What \<open>encode\<close> hands to its callback, and the packet it was given, which is a reference.\<close>

definition encode_packet :: "json_text \<Rightarrow> packet \<Rightarrow> ((bool \<times> string) list \<times> packet) res" where
  "encode_packet J pack =
     (let buffers = []
      in res_bind (accept J [] buffers pack) (\<lambda>(hasBinary, ptr, pack').
         Inr ((False, ptr) # (if hasBinary then map (\<lambda>b. (True, b)) buffers else []), pack')))"

text \<open>
  \<open>put_payload\<close>: the packet handed to the decode callback, if any, and the packet that waits for its buffers.
\<close>

definition put_payload :: "json_text \<Rightarrow> int \<Rightarrow> string \<Rightarrow> packet option \<Rightarrow> (packet option \<times> packet option) res" where
  "put_payload J frame payload partial =
     (if is_text_message payload
      then res_bind (parse_packet J payload (packet_empty frame)) (\<lambda>(more, p).
           if more then Inr (None, Some p) else Inr (Some p, partial))
      else if is_binary_message payload
      then (case partial of
              None \<Rightarrow> Inr (None, None)
            | Some q \<Rightarrow> res_bind (parse_buffer payload q) (\<lambda>(more, q').
                if more then Inr (None, Some q') else Inr (Some q', None)))
      else res_bind (parse_packet J payload (packet_empty frame)) (\<lambda>(more, p). Inr (Some p, partial)))"

subsection \<open>Printing and parsing\<close>

lemma find_first_of_at:
  assumes "set mid \<inter> set cs = {}" "c \<in> set cs"
  shows "find_first_of (pre @ mid @ c # post) cs (length pre) = Some (length pre + length mid)"
proof -
  have "takeWhile (\<lambda>x. x \<notin> set cs) (mid @ c # post) = mid"
    using assms by (subst takeWhile_append2) auto
  then show ?thesis by (simp add: find_first_of_def)
qed

lemma find_first_of_none:
  assumes "set mid \<inter> set cs = {}"
  shows "find_first_of (pre @ mid) cs (length pre) = None"
proof -
  have eq: "takeWhile (\<lambda>x. x \<notin> set cs) mid = mid" using assms by (auto simp: takeWhile_eq_all_conv)
  show ?thesis by (simp add: find_first_of_def Let_def eq)
qed

lemma digits_free: "0 \<le> i \<Longrightarrow> set (itostr i) \<inter> set ''{[\"/,'' = {}"
  using digits_itostr_nat [of "nat i"] by (auto simp: itostr_def list_all_iff isdigit_def)

definition nsp_ok :: "string \<Rightarrow> bool" where
  "nsp_ok ns = (ns = [] \<or> hd ns = CHR ''/'' \<and> CHR '','' \<notin> set ns)"

text \<open>
  What the parser relies on: the value prints, its text begins as that of an object, an array or a string does, holds
  no NUL and parses to the value.
\<close>

definition prints :: "json_text \<Rightarrow> json \<Rightarrow> bool" where
  "prints J j = (case dump J j of Inl e \<Rightarrow> False
     | Inr t \<Rightarrow> t \<noteq> [] \<and> hd t \<in> set ''{[\"'' \<and> CHR 0x00 \<notin> set t \<and> json_parse J t = Inr j)"

definition packet_ok :: "json_text \<Rightarrow> packet \<Rightarrow> bool" where
  "packet_ok J p =
     (p_frame p = frame_message \<and> p_type p \<in> {0, 1, 2, 3, 4, 18, 19} \<and> -1 \<le> p_pack_id p \<and> p_pack_id p \<le> int_max \<and>
      nsp_ok (p_nsp p) \<and> (if json_size (p_message p) = 0 then p_pack_id p = -1 else prints J (p_message p)))"

definition delivered :: "packet \<Rightarrow> packet" where
  "delivered p =
     \<lparr>p_frame = frame_message, p_type = settled_type False (p_type p), p_nsp = (if p_nsp p = [] then ''/'' else p_nsp p),
      p_pack_id = p_pack_id p, p_message = (if json_size (p_message p) = 0 then Null else p_message p),
      p_pending_buffers = 0, p_buffers = []\<rparr>"

lemma printsE:
  assumes "prints J j"
  obtains t where "dump J j = Inr t" "t \<noteq> []" "hd t \<in> set ''{[\"''" "c_str t = t" "json_parse J t = Inr j"
  using assms by (auto simp: prints_def c_str_def takeWhile_eq_all_conv split: sum.splits)

lemma parse_body_message:
  assumes "dump J j = Inr t" "c_str t = t" "json_parse J t = Inr j" "\<not> is_binary_type (p_type p)" "p_pack_id p = -1"
    and "ids = (if 0 \<le> i then itostr i else [])" "-1 \<le> i" "i \<le> int_max"
  shows "parse_body J (pre @ ids @ t) (length pre) (length pre + length ids) p =
    Inr (False, p\<lparr>p_pack_id := i, p_message := j\<rparr>)"
proof -
  have "ids \<noteq> []" if "0 \<le> i" using that itostr_nat_not_Nil assms(6) by (simp add: itostr_def)
  then have "(if length pre < length pre + length ids then stoi (take (length pre + length ids - length pre) (drop (length pre) (pre @ ids @ t)))
      else Inr (p_pack_id p)) = Inr i"
    using assms stoi_itostr [of i] by (cases "0 \<le> i") (auto simp: int_min_def)
  then show ?thesis using assms(1-5) unfolding parse_body_def by (simp only: drop_append) simp
qed

lemma type_char:
  assumes "0 \<le> t" "t \<le> (4 :: int)"
  shows "itostr t = [char_of (48 + nat t)]" "schar (char_of (48 + nat t)) - 48 = t"
proof -
  have digits: "char_of (48 :: nat) = CHR ''0''" "char_of (49 :: nat) = CHR ''1''" "char_of (50 :: nat) = CHR ''2''"
    "char_of (51 :: nat) = CHR ''3''" "char_of (52 :: nat) = CHR ''4''"
    by code_simp+
  have "t \<in> {0, 1, 2, 3, 4}" using assms by auto
  then show "itostr t = [char_of (48 + nat t)]" "schar (char_of (48 + nat t)) - 48 = t"
    by (auto simp: itostr_def itostr_nat.simps schar_def Let_def digits)
qed

lemma settled_range:
  assumes "x \<in> {0, 1, 2, 3, 4, 18, 19}"
  shows "0 \<le> settled_type False x" "settled_type False x \<le> 4"
  using assms by (auto simp: settled_type_def packet_types Let_def)

lemma parse_head:
  assumes "0 \<le> t" "t \<le> 4"
  shows "parse_packet J (CHR ''4'' # char_of (48 + nat t) # rest) (packet_empty g) =
    parse_nsp J (CHR ''4'' # char_of (48 + nat t) # rest) 2 ((packet_empty 4)\<lparr>p_type := t\<rparr>)"
  using assms type_char [OF assms]
  by (simp add: parse_packet_def parse_type_def is_binary_message_def is_binary_type_def char_at_def schar_def packet_types
      packet_empty_def packet_frame_def)

lemma nsp_free: "nsp_ok ns \<Longrightarrow> CHR '','' \<notin> set ns" by (auto simp: nsp_ok_def)

lemma parse_nsp_none:
  "parse_nsp J ([a, b]) 2 p = Inr (False, p\<lparr>p_nsp := ''/''\<rparr>)"
  using find_first_of_none [of "[]" "''{[\"/''" "[a, b]"] by (simp add: parse_nsp_def numeral_2_eq_2)

lemma parse_nsp_body:
  assumes "t \<noteq> []" "hd t \<in> set ''{[\"''" "0 \<le> i \<or> ids = []" "0 \<le> i \<Longrightarrow> ids = itostr i"
  shows "parse_nsp J ([a, b] @ ids @ t) 2 p = parse_body J ([a, b] @ ids @ t) 2 (2 + length ids) (p\<lparr>p_nsp := ''/''\<rparr>)"
proof -
  obtain c u where t: "t = c # u" "c \<in> set ''{[\"''" using assms by (cases t) auto
  have "set ids \<inter> set ''{[\"/'' = {}" using assms(3,4) digits_free [of i] by auto
  then have "find_first_of ([a, b] @ ids @ t) ''{[\"/'' 2 = Some (2 + length ids)"
    using find_first_of_at [of ids "''{[\"/''" c "[a, b]" u] t by (auto simp: numeral_2_eq_2)
  moreover have "([a, b] @ ids @ t) ! (2 + length ids) = c" using t(1) by (simp add: nth_append)
  ultimately show ?thesis using t(2) by (auto simp: parse_nsp_def)
qed

lemma parse_nsp_only:
  assumes "ns \<noteq> []" "nsp_ok ns" "{a, b} \<inter> {CHR '',''} = {}"
  shows "parse_nsp J ([a, b] @ ns) 2 p = Inr (False, p\<lparr>p_nsp := ns\<rparr>)"
proof -
  obtain u where ns: "ns = CHR ''/'' # u" using assms by (cases ns) (auto simp: nsp_ok_def)
  have "find_first_of ([a, b] @ ns) ''{[\"/'' 2 = Some 2"
    using find_first_of_at [of "[]" "''{[\"/''" "CHR ''/''" "[a, b]" u] ns by (simp add: numeral_2_eq_2)
  moreover have "find_first_of ([a, b] @ ns) '','' 0 = None"
    using find_first_of_none [of "[a, b] @ ns" "'',''" "[]"] assms(3) nsp_free [OF assms(2)] by auto
  ultimately show ?thesis using ns by (simp add: parse_nsp_def)
qed

lemma parse_nsp_full:
  assumes "ns \<noteq> []" "nsp_ok ns" "{a, b} \<inter> {CHR '',''} = {}"
    and "t \<noteq> []" "hd t \<in> set ''{[\"''" "0 \<le> i \<or> ids = []" "0 \<le> i \<Longrightarrow> ids = itostr i"
  shows "parse_nsp J ([a, b] @ ns @ '','' @ ids @ t) 2 p =
    parse_body J (([a, b] @ ns @ '','') @ ids @ t) (length ([a, b] @ ns @ '',''))
      (length ([a, b] @ ns @ '','') + length ids) (p\<lparr>p_nsp := ns\<rparr>)"
proof -
  let ?s = "[a, b] @ ns @ '','' @ ids @ t"
  obtain u where ns: "ns = CHR ''/'' # u" using assms(1,2) by (cases ns) (auto simp: nsp_ok_def)
  obtain c v where t: "t = c # v" "c \<in> set ''\"[{''" using assms(4,5) by (cases t) auto
  have slash: "find_first_of ?s ''{[\"/'' 2 = Some 2"
    using find_first_of_at [of "[]" "''{[\"/''" "CHR ''/''" "[a, b]" "u @ '','' @ ids @ t"] ns by (simp add: numeral_2_eq_2)
  have comma: "find_first_of ?s '','' 0 = Some (2 + length ns)"
    using find_first_of_at [of "[a, b] @ ns" "'',''" "CHR '',''" "[]" "ids @ t"] assms(3) nsp_free [OF assms(2)] by auto
  have "set ids \<inter> set ''\"[{'' = {}" using assms(6,7) digits_free [of i] by auto
  then have "find_first_of ?s ''\"[{'' (2 + length ns + 1) = Some (2 + length ns + 1 + length ids)"
    using find_first_of_at [of ids "''\"[{''" c "[a, b] @ ns @ '',''" v] t by simp
  then show ?thesis using ns slash comma by (simp add: parse_nsp_def)
qed

lemma packet_delivered:
  assumes "packet_ok J p"
  shows "\<exists>text p'. encode_packet J p = Inr ([(False, text)], p') \<and> put_payload J g text partial = Inr (Some (delivered p), partial)"
proof -
  let ?t = "settled_type False (p_type p)" and ?msg = "json_size (p_message p) \<noteq> 0" and ?ns = "p_nsp p"
  let ?nstext = "if length ?ns > 0 \<and> ?ns \<noteq> ''/'' then ?ns @ (if ?msg \<or> p_pack_id p \<ge> 0 then '','' else []) else []"
  let ?ids = "if p_pack_id p \<ge> 0 then itostr (p_pack_id p) else []"
  have ok: "p_frame p = frame_message" "nsp_ok ?ns" "-1 \<le> p_pack_id p" "p_pack_id p \<le> int_max"
    using assms by (simp_all add: packet_ok_def)
  note t = settled_range [of "p_type p"]
  have t: "0 \<le> ?t" "?t \<le> 4" using assms settled_range [of "p_type p"] by (auto simp: packet_ok_def)
  obtain mtext where m: "(if ?msg then dump J (p_message p) else Inr []) = Inr mtext" "\<not> ?msg \<Longrightarrow> mtext = []"
      "?msg \<Longrightarrow> mtext \<noteq> [] \<and> hd mtext \<in> set ''{[\"'' \<and> c_str mtext = mtext \<and> json_parse J mtext = Inr (p_message p)"
    using assms by (cases ?msg) (auto simp: packet_ok_def elim: printsE)
  let ?b = "char_of (48 + nat ?t)"
  let ?text = "CHR ''4'' # ?b # ?nstext @ ?ids @ mtext"
  have comma: "{CHR ''4'', ?b} \<inter> {CHR '',''} = {}"
  proof -
    have "CHR '','' \<noteq> ?b"
    proof
      assume "CHR '','' = ?b"
      then have "schar (CHR '','') - 48 = ?t" using type_char(2) [OF t] by simp
      then show False using t(1) by (simp add: schar_def)
    qed
    then show ?thesis by auto
  qed
  have four: "char_of (52 :: int) = CHR ''4''" by code_simp
  have enc: "encode_packet J p = Inr ([(False, ?text)], p\<lparr>p_type := ?t\<rparr>)"
    unfolding encode_packet_def accept_def Let_def using ok(1) m
    by (cases "json_size (p_message p)") (simp_all add: type_char [OF t] four frame_message_def)
  have "parse_packet J ?text (packet_empty g) = Inr (False, delivered p)"
  proof (cases ?msg)
    case False
    with assms have "p_pack_id p = -1" by (simp add: packet_ok_def)
    with False m(2) have form: "?text = CHR ''4'' # ?b # (if ?ns \<noteq> [] \<and> ?ns \<noteq> ''/'' then ?ns else [])" by simp
    show ?thesis unfolding form parse_head [OF t]
      using parse_nsp_none [of J] parse_nsp_only [OF _ ok(2) comma, of J] False \<open>p_pack_id p = -1\<close>
      by (simp add: delivered_def packet_empty_def packet_frame_def frame_message_def)
  next
    case True
    then have m': "dump J (p_message p) = Inr mtext" "mtext \<noteq> []" "hd mtext \<in> set ''{[\"''" "c_str mtext = mtext"
        "json_parse J mtext = Inr (p_message p)"
      using m by simp_all
    have binary: "\<not> is_binary_type ?t" using t by (simp add: is_binary_type_def packet_types)
    have two: "2 = length [CHR ''4'', ?b]" by simp
    note body = parse_body_message [OF m'(1,4,5) _ _ _ ok(3,4), where ids = ?ids]
    show ?thesis
    proof (cases "?ns \<noteq> [] \<and> ?ns \<noteq> ''/''")
      case True
      have form: "?text = [CHR ''4'', ?b] @ ?ns @ '','' @ ?ids @ mtext" using True \<open>?msg\<close> by simp
      have "parse_nsp J ?text 2 ((packet_empty 4)\<lparr>p_type := ?t\<rparr>) = Inr (False, delivered p)"
        unfolding form
        by (subst parse_nsp_full [OF _ ok(2) comma m'(2,3), where i = "p_pack_id p"], use True in simp, simp, simp)
          (subst body, simp_all add: binary delivered_def packet_empty_def packet_frame_def frame_message_def True \<open>?msg\<close>)
      then show ?thesis by (simp only: parse_head [OF t])
    next
      case False
      have form: "?text = [CHR ''4'', ?b] @ ?ids @ mtext" using False by simp
      have "parse_nsp J ?text 2 ((packet_empty 4)\<lparr>p_type := ?t\<rparr>) = Inr (False, delivered p)"
        unfolding form using False
        by (subst parse_nsp_body [OF m'(2,3), where i = "p_pack_id p"], simp, simp)
          (simp only: two, subst body, auto simp: binary delivered_def packet_empty_def packet_frame_def frame_message_def \<open>?msg\<close>)
      then show ?thesis by (simp only: parse_head [OF t])
    qed
  qed
  then have "put_payload J g ?text partial = Inr (Some (delivered p), partial)"
    by (simp add: put_payload_def is_text_message_def schar_def frame_message_def)
  with enc show ?thesis by blast
qed

text \<open>
  C34: A message packet of any type but the binary ones, printed by accept and handed to
  put_payload of the other side, is delivered with the same type, namespace, id and message,
  when the namespace begins with a slash and has no comma, and the message prints as an object
  or array that is not empty or as a string, or there is neither message nor id. (A number, a
  boolean and an empty array arrive as null.)
\<close>

theorem packet_roundtrip:
  assumes "packet_ok J p"
  shows "\<exists>text p'. encode_packet J p = Inr ([(False, text)], p') \<and> put_payload J g text partial = Inr (Some (delivered p), partial)"
  using assms by (rule packet_delivered)

definition hello :: json where
  "hello = Array [String ''hi'']"

text \<open>A printer and a parser for one value.\<close>

definition hello_text :: json_text where
  "hello_text = \<lparr>dump = (\<lambda>j. if j = hello then Inr ''[\"hi\"]'' else Inl (Runtime_error [])),
                 json_parse = (\<lambda>t. if t = ''[\"hi\"]'' then Inr hello else Inl Invalid_argument)\<rparr>"

definition hello_packet :: packet where
  "hello_packet = (case packet_message ''/chat'' hello 12 False of Inl e \<Rightarrow> packet_empty 0 | Inr p \<Rightarrow> p)"

theorem packet_roundtrip_witness:
  "\<exists>text p'. encode_packet hello_text hello_packet = Inr ([(False, text)], p') \<and>
     put_payload hello_text 77 text None = Inr (Some (delivered hello_packet), None)"
proof -
  have "packet_ok hello_text hello_packet"
    by (simp add: packet_ok_def hello_packet_def packet_message_def hello_text_def prints_def nsp_ok_def int_max_def hello_def
        packet_types)
  from packet_roundtrip [OF this] show ?thesis .
qed

text \<open>The text of that packet is what the protocol prescribes.\<close>

lemma hello_packet_text:
  "encode_packet hello_text hello_packet = Inr ([(False, ''42/chat,12[\"hi\"]'')], hello_packet\<lparr>p_type := 2\<rparr>)"
  by code_simp

subsection \<open>Binary events\<close>

lemma parse_body_more: "parse_body J s pos jp p = Inr (True, q) \<Longrightarrow> p_message q = p_message p \<and> p_pending_buffers q = p_pending_buffers p"
  by (auto simp: parse_body_def res_bind_def Let_def split: if_splits sum.splits)

lemma parse_more:
  assumes "parse_packet J s (packet_empty g) = Inr (True, q)"
  shows "p_message q = Null \<and> p_pending_buffers q = 0"
proof -
  obtain p' pos where p': "parse_type s ((packet_empty g)\<lparr>p_frame := schar (char_at s 0) - 48, p_message := Null,
      p_pack_id := -1, p_buffers := [], p_pending_buffers := 0\<rparr>) = (p', Some pos)" "parse_nsp J s pos p' = Inr (True, q)"
    using assms by (auto simp: parse_packet_def packet_empty_def packet_frame_def split: if_splits prod.splits option.splits)
  then have "p_message p' = Null \<and> p_pending_buffers p' = 0"
    by (auto simp: parse_type_def Let_def split: if_splits)
  then show ?thesis using p'(2)
    by (auto simp: parse_nsp_def Let_def split: if_splits option.splits dest!: parse_body_more)
qed

text \<open>
  A binary event or ack that is taken to wait for its buffers is delivered at the first
  buffer, which is dropped, and with null in place of its message: the number of buffers is
  never set.
\<close>

theorem binary_event_loses_message:
  assumes "put_payload J g payload partial = Inr (None, Some q)" "is_text_message payload"
    and "is_binary_message attachment"
  shows "put_payload J g' attachment (Some q) = Inr (Some q, None) \<and> p_message q = Null"
proof -
  have "parse_packet J payload (packet_empty g) = Inr (True, q)"
    using assms(1,2) by (auto simp: put_payload_def res_bind_def split: sum.splits if_splits)
  from parse_more [OF this] assms(3) show ?thesis
    by (auto simp: put_payload_def parse_buffer_def is_text_message_def is_binary_message_def)
qed

theorem binary_event_loses_message_witness:
  "\<exists>q. put_payload hello_text 0 ''451-[\"hi\"]'' None = Inr (None, Some q) \<and>
     put_payload hello_text 0 (CHR 0x04 # ''data'') (Some q) = Inr (Some q, None) \<and> p_message q = Null"
proof -
  obtain q where q: "put_payload hello_text 0 ''451-[\"hi\"]'' None = Inr (None, Some q)" by (rule that) code_simp
  have "is_text_message ''451-[\"hi\"]''" "is_binary_message (CHR 0x04 # ''data'')" by code_simp+
  from binary_event_loses_message [OF q this, of 0] q show ?thesis by blast
qed

end
