(* ===== verification/Event_Timer.thy ===== *)
theory Event_Timer
  imports Prelude
begin

text \<open>
  The timer of the event loop (\<open>base/src/Timer.cpp\<close>, \<open>base/Timer.h\<close>) over the handle of libuv, which is closed and
  deleted by its close callback, and what the timers promise about being due.
\<close>

subsection \<open>The handle\<close>

text \<open>
  A handle is open, closing (until the loop calls the close callback, which deletes it) or deleted; \<open>uv_armed\<close> holds the
  timeout and the repeat of a started timer. As documented, a closing handle is not active and cannot be started.
\<close>

datatype uv_state = Uv_open | Uv_closing | Uv_deleted

record uv_timer =
  uv_state :: uv_state
  uv_armed :: "(nat \<times> nat) option"

definition uv_use :: "uv_timer \<Rightarrow> 'a \<Rightarrow> 'a res" where
  "uv_use h v = (if uv_state h = Uv_deleted then Inl Dangling_pointer else Inr v)"

definition uv_timer_init :: uv_timer where
  "uv_timer_init = \<lparr>uv_state = Uv_open, uv_armed = None\<rparr>"

definition uv_is_active :: "uv_timer \<Rightarrow> bool res" where
  "uv_is_active h = uv_use h (uv_armed h \<noteq> None)"

definition uv_timer_start :: "nat \<Rightarrow> nat \<Rightarrow> uv_timer \<Rightarrow> uv_timer res" where
  "uv_timer_start timeout repeat h = uv_use h (if uv_state h = Uv_closing then h else h\<lparr>uv_armed := Some (timeout, repeat)\<rparr>)"

definition uv_timer_stop :: "uv_timer \<Rightarrow> uv_timer res" where
  "uv_timer_stop h = uv_use h (h\<lparr>uv_armed := None\<rparr>)"

definition uv_close :: "uv_timer \<Rightarrow> uv_timer res" where
  "uv_close h = uv_use h (h\<lparr>uv_state := Uv_closing, uv_armed := None\<rparr>)"

subsection \<open>The timer\<close>

record Timer =
  uvHandle :: uv_timer
  t_closed :: bool
  t_timeout :: nat
  t_repeat :: nat

definition Timer_init :: Timer where
  "Timer_init = \<lparr>uvHandle = uv_timer_init, t_closed = False, t_timeout = 0, t_repeat = 0\<rparr>"

definition Timer_Close :: "Timer \<Rightarrow> Timer res" where
  "Timer_Close t =
     (if t_closed t then Inr t
      else res_bind (uv_close (uvHandle t)) (\<lambda>h. Inr (t\<lparr>t_closed := True, uvHandle := h\<rparr>)))"

text \<open>The destructor.\<close>

definition Timer_destroy :: "Timer \<Rightarrow> Timer res" where
  "Timer_destroy t = (if \<not> t_closed t then Timer_Close t else Inr t)"

definition Timer_Stop :: "Timer \<Rightarrow> Timer res" where
  "Timer_Stop t = res_bind (uv_timer_stop (uvHandle t)) (\<lambda>h. Inr (t\<lparr>uvHandle := h\<rparr>))"

definition Timer_Start :: "nat \<Rightarrow> nat \<Rightarrow> Timer \<Rightarrow> Timer res" where
  "Timer_Start timeout_ms repeat_ms t =
     (let t1 = t\<lparr>t_timeout := timeout_ms, t_repeat := repeat_ms\<rparr>
      in res_bind (uv_is_active (uvHandle t1)) (\<lambda>active.
         res_bind (if active then Timer_Stop t1 else Inr t1) (\<lambda>t2.
         res_bind (uv_timer_start (t_timeout t2) (t_repeat t2) (uvHandle t2)) (\<lambda>h. Inr (t2\<lparr>uvHandle := h\<rparr>)))))"

definition Timer_Reset :: "Timer \<Rightarrow> Timer res" where
  "Timer_Reset t =
     res_bind (uv_is_active (uvHandle t)) (\<lambda>active.
     if \<not> active then Inr t
     else if t_repeat t = 0 then Inr t
     else res_bind (uv_timer_start (t_repeat t) (t_repeat t) (uvHandle t)) (\<lambda>h. Inr (t\<lparr>uvHandle := h\<rparr>)))"

definition Timer_Restart :: "Timer \<Rightarrow> Timer res" where
  "Timer_Restart t =
     res_bind (uv_is_active (uvHandle t)) (\<lambda>active.
     res_bind (if active then Timer_Stop t else Inr t) (\<lambda>t1.
     res_bind (uv_timer_start (t_timeout t1) (t_repeat t1) (uvHandle t1)) (\<lambda>h. Inr (t1\<lparr>uvHandle := h\<rparr>))))"

definition Timer_IsActive :: "Timer \<Rightarrow> bool res" where
  "Timer_IsActive t = uv_is_active (uvHandle t)"

text \<open>What the loop does: a timer that is due is stopped, started again when it repeats; a closed one is deleted.\<close>

definition Timer_due :: "Timer \<Rightarrow> Timer" where
  "Timer_due t = (case uv_armed (uvHandle t) of
       None \<Rightarrow> t
     | Some (timeout, repeat) \<Rightarrow>
         t\<lparr>uvHandle := (uvHandle t)\<lparr>uv_armed := if repeat = 0 then None else Some (repeat, repeat)\<rparr>\<rparr>)"

definition Timer_closed :: "Timer \<Rightarrow> Timer" where
  "Timer_closed t = (if uv_state (uvHandle t) = Uv_closing then t\<lparr>uvHandle := (uvHandle t)\<lparr>uv_state := Uv_deleted\<rparr>\<rparr> else t)"

subsection \<open>What the timers promise\<close>

definition armed :: "Timer \<Rightarrow> (nat \<times> nat) option" where
  "armed t = uv_armed (uvHandle t)"

definition usable :: "Timer \<Rightarrow> bool" where
  "usable t = (uv_state (uvHandle t) = Uv_open \<and> \<not> t_closed t)"

lemma Timer_Stop_usable:
  "usable t \<Longrightarrow> \<exists>t'. Timer_Stop t = Inr t' \<and> usable t' \<and> armed t' = None"
  by (simp add: Timer_Stop_def uv_timer_stop_def uv_use_def usable_def armed_def)

lemma Timer_Start_usable:
  "usable t \<Longrightarrow> \<exists>t'. Timer_Start a b t = Inr t' \<and> usable t' \<and> armed t' = Some (a, b)"
  by (cases "uv_armed (uvHandle t)")
    (simp_all add: Timer_Start_def Timer_Stop_def uv_timer_stop_def uv_timer_start_def uv_is_active_def uv_use_def usable_def
      armed_def Let_def)

text \<open>A timer without a repeat is not put off by a reset: it stays due when it was.\<close>

lemma Timer_Reset_usable:
  "usable t \<Longrightarrow> \<exists>t'. Timer_Reset t = Inr t' \<and> usable t' \<and>
     armed t' = (if armed t = None \<or> t_repeat t = 0 then armed t else Some (t_repeat t, t_repeat t))"
  by (cases "uv_armed (uvHandle t)")
    (auto simp: Timer_Reset_def uv_timer_start_def uv_is_active_def uv_use_def usable_def armed_def)

text \<open>Once the loop has run the close callback every use of the timer is a use of a deleted handle.\<close>

lemma Timer_use_after_close:
  assumes "Timer_Close t = Inr t'" "usable t"
  shows "Timer_Start a b (Timer_closed t') = Inl Dangling_pointer" "Timer_Stop (Timer_closed t') = Inl Dangling_pointer"
    "Timer_Reset (Timer_closed t') = Inl Dangling_pointer" "Timer_Close (Timer_closed t') = Inr (Timer_closed t')"
  using assms
  by (auto simp: Timer_Close_def uv_close_def uv_use_def usable_def Timer_closed_def Timer_Start_def Timer_Stop_def
      Timer_Reset_def uv_is_active_def uv_timer_stop_def Let_def)

end
