(* ===== verification/SocketIO_Client.thy ===== *)
theory SocketIO_Client
  imports SocketIO_Packet Event_Timer "HOL-Library.AList"
begin

text \<open>
  The socket.io client (\<open>signal/src/socketioClient.cpp\<close>, \<open>socketioClient.h\<close>): its sockets with their queues of packets,
  the heartbeat, closing and reconnecting. The HTTP client below is what it is sent and whether its object is alive;
  the functions of the user are what the log of outputs says.
\<close>

subsection \<open>A queue in front of a channel\<close>

text \<open>
  The contract of a socket towards its user: what is submitted while the channel is open goes out behind what waits,
  what is submitted before waits, opening lets everything out, and losing the channel loses nothing that waits.
\<close>

datatype 'p box_op = Submit 'p | Open_channel | Lose_channel

primrec box_run ::
    "('p \<Rightarrow> 's \<Rightarrow> 'p list \<times> 's) \<Rightarrow> ('s \<Rightarrow> 'p list \<times> 's) \<Rightarrow> ('s \<Rightarrow> 's) \<Rightarrow> 'p box_op list \<Rightarrow> 's \<Rightarrow> 'p list \<times> 's" where
  "box_run submit open_up lose [] s = ([], s)"
| "box_run submit open_up lose (x # xs) s =
     (case (case x of Submit p \<Rightarrow> submit p s | Open_channel \<Rightarrow> open_up s | Lose_channel \<Rightarrow> ([], lose s)) of (out, s') \<Rightarrow>
        (case box_run submit open_up lose xs s' of (out', s'') \<Rightarrow> (out @ out', s'')))"

definition submitted :: "'p box_op list \<Rightarrow> 'p list" where
  "submitted xs = concat (map (\<lambda>x. case x of Submit p \<Rightarrow> [p] | _ \<Rightarrow> []) xs)"

locale outbox =
  fixes waiting :: "'s \<Rightarrow> 'p list" and channel_open :: "'s \<Rightarrow> bool" and submit :: "'p \<Rightarrow> 's \<Rightarrow> 'p list \<times> 's"
    and open_up :: "'s \<Rightarrow> 'p list \<times> 's" and lose :: "'s \<Rightarrow> 's"
  assumes submit_open: "channel_open s \<Longrightarrow> submit p s = (out, s') \<Longrightarrow> out = waiting s @ [p] \<and> waiting s' = [] \<and> channel_open s'"
    and submit_closed: "\<not> channel_open s \<Longrightarrow> submit p s = (out, s') \<Longrightarrow> out = [] \<and> waiting s' = waiting s @ [p] \<and> \<not> channel_open s'"
    and open_closed: "\<not> channel_open s \<Longrightarrow> open_up s = (out, s') \<Longrightarrow> out = waiting s \<and> waiting s' = [] \<and> channel_open s'"
    and open_again: "channel_open s \<Longrightarrow> open_up s = (out, s') \<Longrightarrow> out = [] \<and> waiting s' = waiting s \<and> channel_open s'"
    and lose_keeps: "waiting (lose s) = waiting s \<and> \<not> channel_open (lose s)"
begin

lemma run_in_order:
  assumes "box_run submit open_up lose xs s = (out, s')" "channel_open s \<longrightarrow> waiting s = []"
  shows "out @ waiting s' = waiting s @ submitted xs \<and> (channel_open s' \<longrightarrow> waiting s' = [])"
  using assms
proof (induction xs arbitrary: s out)
  case Nil
  then show ?case by (simp add: submitted_def)
next
  case (Cons x xs)
  obtain out1 s1 where x: "(case x of Submit p \<Rightarrow> submit p s | Open_channel \<Rightarrow> open_up s | Lose_channel \<Rightarrow> ([], lose s)) = (out1, s1)"
    by fastforce
  obtain out2 where xs: "box_run submit open_up lose xs s1 = (out2, s')" "out = out1 @ out2"
    using Cons.prems(1) x by (auto split: prod.splits)
  have step: "out1 @ waiting s1 = waiting s @ submitted [x] \<and> (channel_open s1 \<longrightarrow> waiting s1 = [])"
  proof (cases x)
    case (Submit p)
    with x have "submit p s = (out1, s1)" by simp
    from submit_open [OF _ this] submit_closed [OF _ this] Submit Cons.prems(2) show ?thesis
      by (cases "channel_open s") (auto simp: submitted_def)
  next
    case Open_channel
    with x have "open_up s = (out1, s1)" by simp
    from open_closed [OF _ this] open_again [OF _ this] Open_channel Cons.prems(2) show ?thesis
      by (cases "channel_open s") (auto simp: submitted_def)
  next
    case Lose_channel
    with x lose_keeps [of s] show ?thesis by (auto simp: submitted_def)
  qed
  then have "out2 @ waiting s' = waiting s1 @ submitted xs \<and> (channel_open s' \<longrightarrow> waiting s' = [])"
    using Cons.IH [OF xs(1)] by blast
  moreover have "submitted (x # xs) = submitted [x] @ submitted xs" by (simp add: submitted_def)
  ultimately show ?case using step by (metis append.assoc xs(2))
qed

end

subsection \<open>Sockets\<close>

text \<open>A listener yields the message it leaves for the acknowledgement; a callback for an acknowledgement is a number.\<close>

type_synonym listener = "string \<Rightarrow> json \<Rightarrow> bool \<Rightarrow> json"

datatype timer_cb = No_cb | Cb_timeout_connection | Cb_on_close

record socket =
  m_nsp :: string
  m_connection_timer :: Timer
  m_timer_cb :: timer_cb
  m_connected :: bool
  m_packet_queue :: "packet list"
  m_acks :: "u32 \<rightharpoonup> nat"
  m_event_binding :: "string \<rightharpoonup> listener"
  m_error_listener :: bool

definition Socket_new :: "string \<Rightarrow> socket" where
  "Socket_new nsp =
     \<lparr>m_nsp = nsp, m_connection_timer = Timer_init, m_timer_cb = No_cb, m_connected = False, m_packet_queue = [],
      m_acks = Map.empty, m_event_binding = Map.empty, m_error_listener = False\<rparr>"

definition Socket_on :: "string \<Rightarrow> listener \<Rightarrow> socket \<Rightarrow> socket" where
  "Socket_on event_name func s = s\<lparr>m_event_binding := (m_event_binding s)(event_name \<mapsto> func)\<rparr>"

definition Socket_off :: "string \<Rightarrow> socket \<Rightarrow> socket" where
  "Socket_off event_name s = s\<lparr>m_event_binding := (m_event_binding s)(event_name := None)\<rparr>"

definition Socket_off_all :: "socket \<Rightarrow> socket" where
  "Socket_off_all s = s\<lparr>m_event_binding := Map.empty\<rparr>"

definition Socket_on_error :: "bool \<Rightarrow> socket \<Rightarrow> socket" where
  "Socket_on_error l s = s\<lparr>m_error_listener := l\<rparr>"

text \<open>The packets that \<open>send_packet\<close> and \<open>on_connected\<close> hand to \<open>m_client->send\<close>, in order.\<close>

function flush_queue :: "socket \<Rightarrow> packet list \<times> socket" where
  "flush_queue s =
     (case m_packet_queue s of
        [] \<Rightarrow> ([], s)
      | front_pack # q \<Rightarrow> (case flush_queue (s\<lparr>m_packet_queue := q\<rparr>) of (sent, s') \<Rightarrow> (front_pack # sent, s')))"
  by pat_completeness auto
termination by (relation "measure (\<lambda>s. length (m_packet_queue s))") auto

declare flush_queue.simps [simp del]

definition Socket_submit :: "packet \<Rightarrow> socket \<Rightarrow> packet list \<times> socket" where
  "Socket_submit p s =
     (if m_connected s then (case flush_queue s of (sent, s') \<Rightarrow> (sent @ [p], s'))
      else ([], s\<lparr>m_packet_queue := m_packet_queue s @ [p]\<rparr>))"

definition Socket_open :: "socket \<Rightarrow> packet list \<times> socket" where
  "Socket_open s = (if \<not> m_connected s then flush_queue (s\<lparr>m_connected := True\<rparr>) else ([], s))"

definition Socket_lose :: "socket \<Rightarrow> socket" where
  "Socket_lose s = s\<lparr>m_connected := False\<rparr>"

text \<open>The data of an event: the second element, or all behind the first when there are not two.\<close>

definition event_data :: "json list \<Rightarrow> json" where
  "event_data xs = (if length xs = 2 then xs ! 1 else Array (map (\<lambda>i. xs ! i) [1..<length xs]))"

text \<open>The array \<open>emit\<close> sends.\<close>

definition event_array :: "string \<Rightarrow> json \<Rightarrow> json" where
  "event_array name msglist = Array (String name # (if json_empty msglist then [] else [msglist]))"

subsection \<open>The client\<close>

text \<open>
  The object behind \<open>m_client\<close>: none yet (the pointer is not initialised), alive, or deleted. A call on it that is not
  alive is a use of a dangling pointer. \<open>freed_handles\<close> counts the handles of TCP connections that libuv was told to
  close and whose memory the destructor has given back before libuv was done with them.
\<close>

datatype http_client = Http_none | Http_alive | Http_deleted

datatype con_state = Con_opening | Con_opened | Con_closing | Con_closed

record client =
  c_host :: string
  c_port :: nat
  m_sockets :: "(string \<times> socket) list"
  m_con_state :: con_state
  bReconnec :: bool
  m_sid :: string
  m_ping_interval :: u32
  m_ping_timeout :: u32
  m_ping_timer :: Timer
  m_ping_timeout_timer :: Timer
  m_reconn_timer :: Timer
  m_partial_packet :: "packet option"
  m_client :: http_client
  freed_handles :: nat
  s_global_event_id :: u32

text \<open>What leaves the client: texts sent, connections made and closed, and the calls of functions of the user.\<close>

datatype out_event =
    Connected_to string nat string
  | Sent string
  | Http_closed
  | Heard string string json bool
  | Acked nat json
  | Error_heard json

type_synonym act = "client \<Rightarrow> (out_event list \<times> client) res"

definition act_skip :: act where
  "act_skip c = Inr ([], c)"

definition act_out :: "out_event \<Rightarrow> act" where
  "act_out x c = Inr ([x], c)"

definition act_upd :: "(client \<Rightarrow> client) \<Rightarrow> act" where
  "act_upd f c = Inr ([], f c)"

definition act_fail :: "exc \<Rightarrow> act" where
  "act_fail e c = Inl e"

definition act_then :: "act \<Rightarrow> act \<Rightarrow> act" where
  "act_then f g c = res_bind (f c) (\<lambda>(out, c'). res_bind (g c') (\<lambda>(out', c''). Inr (out @ out', c'')))"

primrec act_each :: "('a \<Rightarrow> act) \<Rightarrow> 'a list \<Rightarrow> act" where
  "act_each f [] = act_skip"
| "act_each f (x # xs) = act_then (f x) (act_each f xs)"

text \<open>A fallible value of the state, and the timers of the client.\<close>

definition act_res :: "'a res \<Rightarrow> ('a \<Rightarrow> act) \<Rightarrow> act" where
  "act_res r f c = res_bind r (\<lambda>v. f v c)"

definition act_with :: "(client \<Rightarrow> 'a) \<Rightarrow> ('a \<Rightarrow> act) \<Rightarrow> act" where
  "act_with g f c = f (g c) c"

definition ping_timer :: "(Timer \<Rightarrow> Timer res) \<Rightarrow> act" where
  "ping_timer f = act_with (\<lambda>c. f (m_ping_timer c)) (\<lambda>r. act_res r (\<lambda>t. act_upd (\<lambda>c. c\<lparr>m_ping_timer := t\<rparr>)))"

definition pong_timer :: "(Timer \<Rightarrow> Timer res) \<Rightarrow> act" where
  "pong_timer f = act_with (\<lambda>c. f (m_ping_timeout_timer c)) (\<lambda>r. act_res r (\<lambda>t. act_upd (\<lambda>c. c\<lparr>m_ping_timeout_timer := t\<rparr>)))"

definition reconn_timer :: "(Timer \<Rightarrow> Timer res) \<Rightarrow> act" where
  "reconn_timer f = act_with (\<lambda>c. f (m_reconn_timer c)) (\<lambda>r. act_res r (\<lambda>t. act_upd (\<lambda>c. c\<lparr>m_reconn_timer := t\<rparr>)))"

text \<open>A socket is reached through its pointer: one that has been deleted is not in the map any more.\<close>

definition with_socket :: "string \<Rightarrow> (socket \<Rightarrow> act) \<Rightarrow> act" where
  "with_socket k f c = (case map_of (m_sockets c) k of None \<Rightarrow> Inl Dangling_pointer | Some s \<Rightarrow> f s c)"

definition set_socket :: "string \<Rightarrow> socket \<Rightarrow> act" where
  "set_socket k s = act_upd (\<lambda>c. c\<lparr>m_sockets := AList.update k s (m_sockets c)\<rparr>)"

definition socket_timer :: "string \<Rightarrow> (Timer \<Rightarrow> Timer res) \<Rightarrow> act" where
  "socket_timer k f =
     with_socket k (\<lambda>s. act_res (f (m_connection_timer s)) (\<lambda>t. set_socket k (s\<lparr>m_connection_timer := t\<rparr>)))"

subsection \<open>Sending\<close>

definition http_send :: "string \<Rightarrow> act" where
  "http_send payload c = (case m_client c of Http_alive \<Rightarrow> Inr ([Sent payload], c) | _ \<Rightarrow> Inl Dangling_pointer)"

definition http_Close :: act where
  "http_Close c = (case m_client c of Http_alive \<Rightarrow> Inr ([Http_closed], c) | _ \<Rightarrow> Inl Dangling_pointer)"

definition on_encode :: "bool \<times> string \<Rightarrow> act" where
  "on_encode item = (case item of (isBinary, payload) \<Rightarrow> if \<not> isBinary then http_send payload else act_skip)"

definition client_send :: "json_text \<Rightarrow> packet \<Rightarrow> act" where
  "client_send J p = act_res (encode_packet J p) (\<lambda>(items, _). act_each on_encode items)"

definition Socket_send_packet :: "json_text \<Rightarrow> string \<Rightarrow> packet \<Rightarrow> act" where
  "Socket_send_packet J k p =
     with_socket k (\<lambda>s. case Socket_submit p s of (sent, s') \<Rightarrow> act_then (set_socket k s') (act_each (client_send J) sent))"

definition Socket_emit :: "json_text \<Rightarrow> string \<Rightarrow> string \<Rightarrow> json \<Rightarrow> nat option \<Rightarrow> act" where
  "Socket_emit J k name msglist ack =
     with_socket k (\<lambda>s. act_with s_global_event_id (\<lambda>event_id.
       let pack_id = (case ack of Some cb \<Rightarrow> sint event_id | None \<Rightarrow> -1);
           s' = (case ack of Some cb \<Rightarrow> s\<lparr>m_acks := (m_acks s)(event_id \<mapsto> cb)\<rparr> | None \<Rightarrow> s)
       in act_then (act_upd (\<lambda>c. c\<lparr>s_global_event_id := (case ack of Some cb \<Rightarrow> event_id + 1 | None \<Rightarrow> event_id)\<rparr>))
         (act_then (set_socket k s')
         (act_res (packet_message (m_nsp s) (event_array name msglist) pack_id False) (\<lambda>p. Socket_send_packet J k p)))))"

definition Socket_ack :: "json_text \<Rightarrow> string \<Rightarrow> int \<Rightarrow> json \<Rightarrow> act" where
  "Socket_ack J k msgId ack_message =
     with_socket k (\<lambda>s. act_res (packet_message (m_nsp s) ack_message msgId True) (\<lambda>p. Socket_send_packet J k p))"

definition Socket_send_connect :: "json_text \<Rightarrow> string \<Rightarrow> string \<Rightarrow> act" where
  "Socket_send_connect J k nsp =
     act_then (Socket_send_packet J k (packet_typed type_connect nsp Null))
       (act_then (with_socket k (\<lambda>s. set_socket k (s\<lparr>m_timer_cb := Cb_timeout_connection\<rparr>)))
         (socket_timer k (Timer_Start 20000 0)))"

definition Socket_close :: "json_text \<Rightarrow> string \<Rightarrow> act" where
  "Socket_close J k =
     with_socket k (\<lambda>s.
       if m_connected s
       then act_then (Socket_send_packet J k (packet_typed type_disconnect (m_nsp s) Null))
              (act_then (with_socket k (\<lambda>s. set_socket k (s\<lparr>m_timer_cb := Cb_on_close\<rparr>)))
                (socket_timer k (Timer_Start 3000 0)))
       else act_skip)"

subsection \<open>Receiving\<close>

definition Socket_on_connected :: "json_text \<Rightarrow> string \<Rightarrow> act" where
  "Socket_on_connected J k =
     act_then (socket_timer k Timer_Stop)
       (with_socket k (\<lambda>s.
          if m_connected s then act_skip
          else (case Socket_open s of (sent, s') \<Rightarrow>
                  act_then (set_socket k s')
                    (act_then (act_each (client_send J) sent)
                      (case m_event_binding s ''connection'' of
                         None \<Rightarrow> act_skip
                       | Some func \<Rightarrow> act_out (Heard (m_nsp s) ''connection'' Null False))))))"

definition Socket_on_event :: "json_text \<Rightarrow> string \<Rightarrow> string \<Rightarrow> int \<Rightarrow> string \<Rightarrow> json \<Rightarrow> act" where
  "Socket_on_event J k nsp msgId name message =
     with_socket k (\<lambda>s.
       let needAck = (msgId \<ge> 0)
       in (case m_event_binding s name of
             None \<Rightarrow> (if needAck then Socket_ack J k msgId Null else act_skip)
           | Some func \<Rightarrow>
               act_then (act_out (Heard nsp name message needAck))
                 (if needAck then Socket_ack J k msgId (func name message needAck) else act_skip)))"

definition Socket_on_ack :: "string \<Rightarrow> int \<Rightarrow> json \<Rightarrow> act" where
  "Socket_on_ack k msgId message =
     with_socket k (\<lambda>s.
       case m_acks s (of_int msgId) of
         None \<Rightarrow> act_skip
       | Some l \<Rightarrow> act_then (set_socket k (s\<lparr>m_acks := (m_acks s)(of_int msgId := None)\<rparr>)) (act_out (Acked l message)))"

definition Socket_on_error_packet :: "string \<Rightarrow> json \<Rightarrow> act" where
  "Socket_on_error_packet k err_message =
     with_socket k (\<lambda>s. if m_error_listener s then act_out (Error_heard err_message) else act_skip)"

text \<open>\<open>remove_socket\<close> erases the entry of the map and then uses the iterator that stood for it.\<close>

definition remove_socket :: "string \<Rightarrow> act" where
  "remove_socket nsp c = (case map_of (m_sockets c) nsp of Some s \<Rightarrow> Inl Dangling_pointer | None \<Rightarrow> Inr ([], c))"

definition Socket_on_close :: "string \<Rightarrow> act" where
  "Socket_on_close k =
     act_then (socket_timer k Timer_Stop)
       (act_then (socket_timer k Timer_Close)
         (with_socket k (\<lambda>s. act_then (set_socket k (s\<lparr>m_connected := False, m_packet_queue := []\<rparr>)) (remove_socket (m_nsp s)))))"

definition Socket_on_message_packet :: "json_text \<Rightarrow> string \<Rightarrow> packet \<Rightarrow> act" where
  "Socket_on_message_packet J k p =
     with_socket k (\<lambda>s.
       if p_nsp p = m_nsp s
       then act_res (get_type p) (\<lambda>t.
              if t = type_connect then Socket_on_connected J k
              else if t = type_disconnect then Socket_on_close k
              else if t = type_event \<or> t = type_binary_event
              then act_res (dump J (p_message p)) (\<lambda>_.
                     case p_message p of
                       Array xs \<Rightarrow>
                         act_res (json_at (p_message p) 0) (\<lambda>name. act_res (json_string name) (\<lambda>name.
                           Socket_on_event J k (p_nsp p) (p_pack_id p) name (event_data xs)))
                     | _ \<Rightarrow> act_skip)
              else if t = type_ack \<or> t = type_binary_ack then Socket_on_ack k (p_pack_id p) (p_message p)
              else if t = type_error then Socket_on_error_packet k (p_message p)
              else act_skip)
       else act_skip)"

subsection \<open>Namespaces, handshake and heartbeat\<close>

definition socket_name :: "string \<Rightarrow> string" where
  "socket_name nsp = (if nsp = [] then ''/'' else if hd nsp \<noteq> CHR ''/'' then ''/'' @ nsp else nsp)"

text \<open>\<open>get_socket\<close> yields the key of the socket, which it makes when there is none.\<close>

definition get_socket :: "string \<Rightarrow> (string \<Rightarrow> act) \<Rightarrow> act" where
  "get_socket nsp f =
     (let aux = socket_name nsp
      in act_then
           (act_upd (\<lambda>c. case map_of (m_sockets c) aux of
              Some s \<Rightarrow> c
            | None \<Rightarrow> c\<lparr>m_sockets := AList.update aux (Socket_new aux) (m_sockets c)\<rparr>))
           (f aux))"

definition client_io :: "json_text \<Rightarrow> string \<Rightarrow> act" where
  "client_io J nsp =
     act_then (if nsp \<noteq> ''/'' \<and> nsp \<noteq> [] then get_socket ''/'' (\<lambda>k. Socket_send_connect J k nsp) else act_skip)
       (get_socket nsp (\<lambda>k. act_skip))"

text \<open>
  \<open>message["sid"]\<close> of a constant object asserts that the member is there. \<open>get<int>\<close> converts numbers and booleans and
  throws for other values, which is caught; \<open>float_int\<close> is the conversion of a \<open>double\<close>.
\<close>

definition json_member :: "json \<Rightarrow> string \<Rightarrow> json res" where
  "json_member j key = (case j of
       Object kvs \<Rightarrow> (case map_of kvs key of Some v \<Rightarrow> Inr v | None \<Rightarrow> Inl Assertion_failed)
     | _ \<Rightarrow> Inl (Runtime_error ''cannot use operator[]''))"

definition json_int :: "(64 word \<Rightarrow> u32) \<Rightarrow> json \<Rightarrow> u32 option" where
  "json_int float_int j = (case j of
       Number_integer n \<Rightarrow> Some (ucast n)
     | Number_unsigned n \<Rightarrow> Some (ucast n)
     | Number_float n \<Rightarrow> Some (float_int n)
     | Boolean b \<Rightarrow> Some (if b then 1 else 0)
     | _ \<Rightarrow> None)"

definition on_handshake :: "(64 word \<Rightarrow> u32) \<Rightarrow> json \<Rightarrow> act" where
  "on_handshake float_int message =
     act_then
       (if is_object message
        then act_then
               (act_res (json_member message ''sid'') (\<lambda>v. case v of
                  String s \<Rightarrow> act_upd (\<lambda>c. c\<lparr>m_sid := s\<rparr>)
                | _ \<Rightarrow> http_Close))
               (act_then
                 (act_res (json_member message ''pingInterval'') (\<lambda>v.
                    act_upd (\<lambda>c. c\<lparr>m_ping_interval := (case json_int float_int v of Some n \<Rightarrow> n | None \<Rightarrow> 25000)\<rparr>)))
                 (act_res (json_member message ''pingTimeout'') (\<lambda>v.
                    act_upd (\<lambda>c. c\<lparr>m_ping_timeout := (case json_int float_int v of Some n \<Rightarrow> n | None \<Rightarrow> 60000)\<rparr>))))
        else act_skip)
       (act_with (\<lambda>c. unat (m_ping_interval c)) (\<lambda>n. ping_timer (Timer_Start n n)))"

definition client_ping :: "json_text \<Rightarrow> act" where
  "client_ping J =
     act_then
       (act_res (encode_packet J (packet_frame frame_ping)) (\<lambda>(items, _). act_each (\<lambda>(isBin, payload). http_send payload) items))
       (act_with (\<lambda>c. unat (m_ping_timeout c)) (\<lambda>n. pong_timer (Timer_Start n 0)))"

definition on_pong :: act where
  "on_pong = pong_timer Timer_Stop"

subsection \<open>Connecting, closing and reconnecting\<close>

definition client_reset :: act where
  "client_reset =
     act_then (act_upd (\<lambda>c. c\<lparr>m_sid := []\<rparr>))
       (act_then (ping_timer Timer_Stop) (act_then (pong_timer Timer_Stop) (reconn_timer Timer_Stop)))"

text \<open>\<open>now\<close> is what the clock says.\<close>

definition handshake_url :: "string \<Rightarrow> string \<Rightarrow> string" where
  "handshake_url sid now =
     ''/socket.io/?EIO=4&transport=websocket'' @ (if length sid > 0 then ''&sid='' @ sid else []) @ ''&t='' @ now"

definition sendHandshakeRequest :: "string \<Rightarrow> act" where
  "sendHandshakeRequest now =
     act_with (\<lambda>c. (c_host c, c_port c, m_sid c)) (\<lambda>(host, port, sid).
       act_then (act_upd (\<lambda>c. c\<lparr>m_client := Http_alive\<rparr>)) (act_out (Connected_to host port (handshake_url sid now))))"

definition client_connect :: "string \<Rightarrow> act" where
  "client_connect now =
     act_then (act_upd (\<lambda>c. c\<lparr>m_con_state := Con_opening\<rparr>))
       (act_with (\<lambda>c. c_host c = [] \<or> c_port c = 0) (\<lambda>unset.
          if unset then act_fail (Runtime_error ''The SocketIO server address is not set.'')
          else act_then client_reset (sendHandshakeRequest now)))"

definition client_connect_to :: "string \<Rightarrow> nat \<Rightarrow> string \<Rightarrow> act" where
  "client_connect_to host port now =
     act_then (act_upd (\<lambda>c. c\<lparr>c_host := host, c_port := port mod 2 ^ 16\<rparr>)) (client_connect now)"

definition timeout_reconnect :: "string \<Rightarrow> act" where
  "timeout_reconnect now =
     act_with m_con_state (\<lambda>st.
       if st = Con_closed
       then act_then (act_upd (\<lambda>c. c\<lparr>m_con_state := Con_opening, m_sid := [], m_partial_packet := None\<rparr>)) (client_connect now)
       else act_skip)"

definition clear_timers :: act where
  "clear_timers =
     act_then (pong_timer Timer_Stop)
       (act_then (ping_timer Timer_Stop) (act_then (pong_timer Timer_Close) (ping_timer Timer_Close)))"

definition Socket_on_disconnect :: "string \<Rightarrow> act" where
  "Socket_on_disconnect k =
     act_then (socket_timer k Timer_Stop) (with_socket k (\<lambda>s. set_socket k (Socket_lose s)))"

text \<open>The destructor of a socket.\<close>

definition Socket_delete :: "string \<Rightarrow> act" where
  "Socket_delete k = act_then (socket_timer k Timer_Stop) (socket_timer k Timer_Close)"

text \<open>
  \<open>Close\<close> hands the handle of the connection to \<open>uv_close\<close>, the destructor gives its memory back at once
  (\<open>TcpConnectionBase::~TcpConnectionBase\<close>); the loop still has it in its list of closing handles.
\<close>

definition http_delete :: act where
  "http_delete =
     act_then http_Close (act_upd (\<lambda>c. c\<lparr>m_client := Http_deleted, freed_handles := freed_handles c + 1\<rparr>))"

definition client_close :: act where
  "client_close =
     act_with bReconnec (\<lambda>reconnect.
     act_then (act_upd (\<lambda>c. c\<lparr>m_con_state := Con_closed\<rparr>))
       (if reconnect
        then act_then (pong_timer Timer_Stop)
               (act_then (ping_timer Timer_Stop)
                 (act_then (act_with m_sockets (\<lambda>ss. act_each (\<lambda>(k, _). Socket_on_disconnect k) ss))
                   (act_then http_delete (reconn_timer (Timer_Start 4000 4000)))))
        else act_then clear_timers
               (act_then (act_with m_sockets (\<lambda>ss. act_each (\<lambda>(k, _). Socket_delete k) ss))
                 (act_then (act_upd (\<lambda>c. c\<lparr>m_sockets := []\<rparr>))
                   (act_then http_delete (act_then (reconn_timer Timer_Stop) (reconn_timer Timer_Close)))))))"

subsection \<open>What arrives\<close>

definition on_decode :: "json_text \<Rightarrow> (64 word \<Rightarrow> u32) \<Rightarrow> packet \<Rightarrow> act" where
  "on_decode J float_int p =
     (if p_frame p = frame_message then get_socket (p_nsp p) (\<lambda>k. Socket_on_message_packet J k p)
      else if p_frame p = frame_open then on_handshake float_int (p_message p)
      else if p_frame p = frame_close then client_close
      else if p_frame p = frame_pong then on_pong
      else act_skip)"

text \<open>\<open>fnPayload\<close>; \<open>frame\<close> is what the memory of the new packet holds.\<close>

definition on_payload :: "json_text \<Rightarrow> (64 word \<Rightarrow> u32) \<Rightarrow> int \<Rightarrow> string \<Rightarrow> act" where
  "on_payload J float_int frame payload =
     act_then (pong_timer Timer_Reset)
       (act_with m_partial_packet (\<lambda>partial.
        act_res (put_payload J frame payload partial) (\<lambda>(p, partial').
          act_then (act_upd (\<lambda>c. c\<lparr>m_partial_packet := partial'\<rparr>))
            (case p of None \<Rightarrow> act_skip | Some p \<Rightarrow> on_decode J float_int p))))"

definition timeout_connection :: "string \<Rightarrow> act" where
  "timeout_connection k = act_then (socket_timer k Timer_Reset) (Socket_on_close k)"

text \<open>
  A callback of the HTTP client returns into it: \<open>TcpConnectionBase::OnUvRead\<close> reads a member after it has
  handed on the data. \<open>fnComplete\<close> asks \<open>m_client\<close> for its stream. The loop calls \<open>onClose\<close> with the handle.
\<close>

definition http_returns :: act where
  "http_returns c = (case m_client c of Http_alive \<Rightarrow> Inr ([], c) | _ \<Rightarrow> Inl Dangling_pointer)"

definition on_complete :: act where
  "on_complete c = (case m_client c of Http_alive \<Rightarrow> Inr ([], c) | _ \<Rightarrow> Inl Dangling_pointer)"

definition uv_closed :: act where
  "uv_closed = act_fail Dangling_pointer"

text \<open>\<open>s_global_event_id\<close> is 1 when the program starts; the state is not initialised.\<close>

definition SocketioClient_new :: "string \<Rightarrow> nat \<Rightarrow> con_state \<Rightarrow> client" where
  "SocketioClient_new host port st =
     \<lparr>c_host = host, c_port = port mod 2 ^ 16, m_sockets = [], m_con_state = st, bReconnec = True, m_sid = [],
      m_ping_interval = 0, m_ping_timeout = 0, m_ping_timer = Timer_init, m_ping_timeout_timer = Timer_init,
      m_reconn_timer = Timer_init, m_partial_packet = None, m_client = Http_none, freed_handles = 0, s_global_event_id = 1\<rparr>"

subsection \<open>Histories\<close>

text \<open>
  What can happen: a call of the user, data or the end of the connection, a timer that is due, the loop that finishes
  a close. Data and the failure to find the host come from an HTTP client that is alive; the end of its response may
  also come from one that is deleted. The user keeps to sockets that are there.
\<close>

datatype event =
    Ev_connect string
  | Ev_io string
  | Ev_on string string listener
  | Ev_off string string
  | Ev_off_all string
  | Ev_on_error string bool
  | Ev_emit string string json "nat option"
  | Ev_close_socket string
  | Ev_close
  | Ev_payload int string
  | Ev_http_closed
  | Ev_http_complete
  | Ev_uv_closed
  | Ev_ping_due
  | Ev_pong_due
  | Ev_reconnect_due string
  | Ev_connection_due string

definition due :: "(client \<Rightarrow> Timer) \<Rightarrow> client \<Rightarrow> bool" where
  "due t c = (armed (t c) \<noteq> None)"

fun enabled :: "event \<Rightarrow> client \<Rightarrow> bool" where
  "enabled (Ev_connect now) c = True"
| "enabled (Ev_io nsp) c = True"
| "enabled (Ev_on k name f) c = (map_of (m_sockets c) k \<noteq> None)"
| "enabled (Ev_off k name) c = (map_of (m_sockets c) k \<noteq> None)"
| "enabled (Ev_off_all k) c = (map_of (m_sockets c) k \<noteq> None)"
| "enabled (Ev_on_error k l) c = (map_of (m_sockets c) k \<noteq> None)"
| "enabled (Ev_emit k name msg ack) c = (map_of (m_sockets c) k \<noteq> None)"
| "enabled (Ev_close_socket k) c = (map_of (m_sockets c) k \<noteq> None)"
| "enabled Ev_close c = True"
| "enabled (Ev_payload frame payload) c = (m_client c = Http_alive)"
| "enabled Ev_http_closed c = (m_client c = Http_alive)"
| "enabled Ev_http_complete c = (m_client c \<noteq> Http_none)"
| "enabled Ev_uv_closed c = (freed_handles c > 0)"
| "enabled Ev_ping_due c = due m_ping_timer c"
| "enabled Ev_pong_due c = due m_ping_timeout_timer c"
| "enabled (Ev_reconnect_due now) c = due m_reconn_timer c"
| "enabled (Ev_connection_due k) c =
     (case map_of (m_sockets c) k of None \<Rightarrow> False | Some s \<Rightarrow> armed (m_connection_timer s) \<noteq> None)"

definition on_socket :: "string \<Rightarrow> (socket \<Rightarrow> socket) \<Rightarrow> act" where
  "on_socket k f = with_socket k (\<lambda>s. set_socket k (f s))"

fun client_do :: "json_text \<Rightarrow> (64 word \<Rightarrow> u32) \<Rightarrow> event \<Rightarrow> act" where
  "client_do J fi (Ev_connect now) = client_connect now"
| "client_do J fi (Ev_io nsp) = client_io J nsp"
| "client_do J fi (Ev_on k name f) = on_socket k (Socket_on name f)"
| "client_do J fi (Ev_off k name) = on_socket k (Socket_off name)"
| "client_do J fi (Ev_off_all k) = on_socket k Socket_off_all"
| "client_do J fi (Ev_on_error k l) = on_socket k (Socket_on_error l)"
| "client_do J fi (Ev_emit k name msg ack) = Socket_emit J k name msg ack"
| "client_do J fi (Ev_close_socket k) = Socket_close J k"
| "client_do J fi Ev_close = client_close"
| "client_do J fi (Ev_payload frame payload) = act_then (on_payload J fi frame payload) http_returns"
| "client_do J fi Ev_http_closed = act_then client_close http_returns"
| "client_do J fi Ev_http_complete = on_complete"
| "client_do J fi Ev_uv_closed = uv_closed"
| "client_do J fi Ev_ping_due = act_then (ping_timer (\<lambda>t. Inr (Timer_due t))) (client_ping J)"
| "client_do J fi Ev_pong_due = act_then (pong_timer (\<lambda>t. Inr (Timer_due t))) client_close"
| "client_do J fi (Ev_reconnect_due now) = act_then (reconn_timer (\<lambda>t. Inr (Timer_due t))) (timeout_reconnect now)"
| "client_do J fi (Ev_connection_due k) =
     act_then (socket_timer k (\<lambda>t. Inr (Timer_due t)))
       (with_socket k (\<lambda>s. case m_timer_cb s of
          No_cb \<Rightarrow> act_skip
        | Cb_timeout_connection \<Rightarrow> timeout_connection k
        | Cb_on_close \<Rightarrow> Socket_on_close k))"

inductive client_run :: "json_text \<Rightarrow> (64 word \<Rightarrow> u32) \<Rightarrow> client \<Rightarrow> out_event list \<Rightarrow> client \<Rightarrow> bool" for J fi where
  run_start: "client_run J fi (SocketioClient_new host port st) [] (SocketioClient_new host port st)"
| run_step: "client_run J fi c0 out c \<Longrightarrow> enabled ev c \<Longrightarrow> client_do J fi ev c = Inr (out', c') \<Longrightarrow>
     client_run J fi c0 (out @ out') c'"

subsection \<open>The queue of a socket\<close>

lemma flush_queue_all: "flush_queue s = (m_packet_queue s, s\<lparr>m_packet_queue := []\<rparr>)"
proof (induction s rule: flush_queue.induct)
  case (1 s)
  then show ?case by (subst flush_queue.simps) (auto split: list.splits)
qed

lemma Socket_open_simp:
  "Socket_open s = (if m_connected s then ([], s) else (m_packet_queue s, s\<lparr>m_connected := True, m_packet_queue := []\<rparr>))"
  by (simp add: Socket_open_def flush_queue_all)

lemma Socket_submit_simp:
  "Socket_submit p s = (if m_connected s then (m_packet_queue s @ [p], s\<lparr>m_packet_queue := []\<rparr>)
     else ([], s\<lparr>m_packet_queue := m_packet_queue s @ [p]\<rparr>))"
  by (simp add: Socket_submit_def flush_queue_all)

interpretation packets: outbox m_packet_queue m_connected Socket_submit Socket_open Socket_lose
  by unfold_locales (auto simp: Socket_submit_simp Socket_open_simp Socket_lose_def split: if_splits)

text \<open>
  C20: Whatever the order of sending, connecting and losing the connection, a socket hands on
  the packets in the order they were submitted, once each; what it has not handed on waits in
  its queue, which is empty while it is connected.
\<close>

theorem socket_packets_in_order:
  "case box_run Socket_submit Socket_open Socket_lose ops (Socket_new nsp) of (out, s) \<Rightarrow>
     out @ (if m_connected s then [] else m_packet_queue s) = submitted ops \<and>
     (if m_connected s then m_packet_queue s = [] else True)"
  using packets.run_in_order [of ops "Socket_new nsp"] by (auto simp: Socket_new_def split: prod.splits)

subsection \<open>What an operation keeps\<close>

text \<open>When an operation ends that started in a state of \<open>P\<close>, it is in a state of \<open>Q\<close>.\<close>

definition triple :: "(client \<Rightarrow> bool) \<Rightarrow> act \<Rightarrow> (client \<Rightarrow> bool) \<Rightarrow> bool" where
  "triple P f Q = (\<forall>c. P c \<longrightarrow> (case f c of Inl e \<Rightarrow> True | Inr (out, c') \<Rightarrow> Q c'))"

lemma triple_skip: "(\<And>c. P c \<Longrightarrow> Q c) \<Longrightarrow> triple P act_skip Q"
  by (simp add: triple_def act_skip_def)

lemma triple_out: "(\<And>c. P c \<Longrightarrow> Q c) \<Longrightarrow> triple P (act_out x) Q"
  by (simp add: triple_def act_out_def)

lemma triple_upd: "(\<And>c. P c \<Longrightarrow> Q (f c)) \<Longrightarrow> triple P (act_upd f) Q"
  by (simp add: triple_def act_upd_def)

lemma triple_then: "triple P f R \<Longrightarrow> triple R g Q \<Longrightarrow> triple P (act_then f g) Q"
  unfolding triple_def act_then_def res_bind_def by (fastforce split: sum.splits prod.splits)

lemma triple_res: "(\<And>v. r = Inr v \<Longrightarrow> triple P (f v) Q) \<Longrightarrow> triple P (act_res r f) Q"
  by (cases r) (auto simp: triple_def act_res_def)

lemma triple_with: "(\<And>v. triple (\<lambda>c. P c \<and> g c = v) (f v) Q) \<Longrightarrow> triple P (act_with g f) Q"
  by (simp add: triple_def act_with_def)

lemma triple_weaken: "triple P f Q \<Longrightarrow> (\<And>c. P' c \<Longrightarrow> P c) \<Longrightarrow> triple P' f Q"
  by (auto simp: triple_def)

lemma triple_post: "triple P f Q \<Longrightarrow> (\<And>c. Q c \<Longrightarrow> Q' c) \<Longrightarrow> triple P f Q'"
  by (fastforce simp: triple_def split: sum.splits)

lemma triple_each: "(\<And>x. x \<in> set xs \<Longrightarrow> triple P (f x) P) \<Longrightarrow> triple P (act_each f xs) P"
  by (induction xs) (auto intro: triple_skip triple_then)

lemma triple_socket:
  "(\<And>c. P c \<Longrightarrow> map_of (m_sockets c) k \<noteq> None) \<Longrightarrow>
   (\<And>s. triple (\<lambda>c. P c \<and> map_of (m_sockets c) k = Some s) (f s) Q) \<Longrightarrow> triple P (with_socket k f) Q"
  unfolding triple_def with_socket_def by (fastforce split: option.splits)

lemma triple_set:
  "(\<And>c. P c \<Longrightarrow> Q (c\<lparr>m_sockets := AList.update k s (m_sockets c)\<rparr>)) \<Longrightarrow> triple P (set_socket k s) Q"
  by (simp add: set_socket_def triple_upd)

text \<open>
  The invariant: timers that were not closed, sockets under their names, and while there is no HTTP client nothing that
  would use it, no connected socket and no timer of the heartbeat. \<open>live\<close> says that there is one, \<open>ks\<close> which sockets there are.
\<close>

definition socket_ok :: "bool \<Rightarrow> string \<times> socket \<Rightarrow> bool" where
  "socket_ok live ks = (case ks of (k, s) \<Rightarrow> usable (m_connection_timer s) \<and> m_nsp s = k \<and> (m_connected s \<longrightarrow> live))"

definition sio_inv :: "client \<Rightarrow> bool" where
  "sio_inv c =
     (bReconnec c \<and> usable (m_ping_timer c) \<and> usable (m_ping_timeout_timer c) \<and> usable (m_reconn_timer c) \<and>
      distinct (map fst (m_sockets c)) \<and> (\<forall>x\<in>set (m_sockets c). socket_ok (m_client c = Http_alive) x) \<and>
      (m_client c \<noteq> Http_alive \<longrightarrow> armed (m_ping_timer c) = None \<and> armed (m_ping_timeout_timer c) = None))"

definition at :: "bool \<Rightarrow> string set \<Rightarrow> client \<Rightarrow> bool" where
  "at live ks c = (sio_inv c \<and> (live \<longrightarrow> m_client c = Http_alive) \<and> ks \<subseteq> dom (map_of (m_sockets c)))"

lemma set_update: "distinct (map fst xs) \<Longrightarrow> x \<in> set (AList.update k v xs) \<Longrightarrow> x = (k, v) \<or> x \<in> set xs"
  by (induction xs) (auto split: if_splits)

lemma at_set:
  assumes "at live ks c" "socket_ok (m_client c = Http_alive) (k, s)"
  shows "at live (insert k ks) (c\<lparr>m_sockets := AList.update k s (m_sockets c)\<rparr>)"
proof -
  have "distinct (map fst (AList.update k s (m_sockets c)))"
    using assms(1) by (simp add: at_def sio_inv_def distinct_update)
  moreover have "socket_ok (m_client c = Http_alive) x" if "x \<in> set (AList.update k s (m_sockets c))" for x
    using set_update [OF _ that] assms by (auto simp: at_def sio_inv_def)
  moreover have "insert k ks \<subseteq> dom (map_of (AList.update k s (m_sockets c)))"
    using assms(1) by (auto simp: at_def update_conv' split: if_splits)
  ultimately show ?thesis using assms(1) by (auto simp: at_def sio_inv_def)
qed

lemma at_socket:
  assumes "at live ks c" "map_of (m_sockets c) k = Some s"
  shows "usable (m_connection_timer s)" "m_nsp s = k" "m_connected s \<Longrightarrow> m_client c = Http_alive"
    "socket_ok (m_client c = Http_alive) (k, s)"
proof -
  have "(k, s) \<in> set (m_sockets c)" using assms(2) by (rule map_of_SomeD)
  then show ok: "socket_ok (m_client c = Http_alive) (k, s)" using assms(1) by (simp add: at_def sio_inv_def)
  then show "usable (m_connection_timer s)" "m_nsp s = k" "m_connected s \<Longrightarrow> m_client c = Http_alive"
    by (simp_all add: socket_ok_def)
qed

lemma at_mono: "at live ks c \<Longrightarrow> (live' \<Longrightarrow> live) \<Longrightarrow> ks' \<subseteq> ks \<Longrightarrow> at live' ks' c"
  by (auto simp: at_def)


text \<open>Frames: the rules for the pieces the operations are made of.\<close>

lemma set_triple:
  assumes "\<And>c. P c \<Longrightarrow> at live ks c \<and> k \<in> ks \<and> socket_ok (m_client c = Http_alive) (k, s)"
  shows "triple P (set_socket k s) (at live ks)"
proof (rule triple_set)
  fix c assume "P c"
  from assms [OF this] at_set [of live ks c k s] show "at live ks (c\<lparr>m_sockets := AList.update k s (m_sockets c)\<rparr>)"
    by (simp add: insert_absorb)
qed

lemma socket_triple:
  assumes "k \<in> ks" "\<And>s. triple (\<lambda>c. at live ks c \<and> map_of (m_sockets c) k = Some s) (f s) Q"
  shows "triple (at live ks) (with_socket k f) Q"
  using assms by (intro triple_socket) (auto simp: at_def)

lemma socket_timer_triple:
  assumes "k \<in> ks" "\<And>t. usable t \<Longrightarrow> \<exists>t'. f t = Inr t' \<and> usable t'"
  shows "triple (at live ks) (socket_timer k f) (at live ks)"
  unfolding socket_timer_def
proof (rule socket_triple [OF assms(1)])
  fix s
  show "triple (\<lambda>c. at live ks c \<and> map_of (m_sockets c) k = Some s)
      (act_res (f (m_connection_timer s)) (\<lambda>t. set_socket k (s\<lparr>m_connection_timer := t\<rparr>))) (at live ks)"
    unfolding triple_def
  proof (intro allI impI)
    fix c assume c: "at live ks c \<and> map_of (m_sockets c) k = Some s"
    then have "usable (m_connection_timer s)" "m_nsp s = k" "m_connected s \<Longrightarrow> m_client c = Http_alive"
      using at_socket by blast+
    with assms(2) obtain t' where "f (m_connection_timer s) = Inr t'" "socket_ok (m_client c = Http_alive) (k, s\<lparr>m_connection_timer := t'\<rparr>)"
      by (fastforce simp: socket_ok_def)
    with at_set [of live ks c k] assms(1) c show "case act_res (f (m_connection_timer s)) (\<lambda>t. set_socket k (s\<lparr>m_connection_timer := t\<rparr>)) c of
        Inl e \<Rightarrow> True | Inr (out, c') \<Rightarrow> at live ks c'"
      by (simp add: act_res_def set_socket_def act_upd_def insert_absorb)
  qed
qed

lemma timer_laws:
  "usable t \<Longrightarrow> \<exists>t'. Timer_Stop t = Inr t' \<and> usable t'" "usable t \<Longrightarrow> \<exists>t'. Timer_Start a b t = Inr t' \<and> usable t'"
  "usable t \<Longrightarrow> \<exists>t'. Timer_Reset t = Inr t' \<and> usable t'" "usable t \<Longrightarrow> \<exists>t'. Inr (Timer_due t) = Inr t' \<and> usable t'"
  using Timer_Stop_usable [of t] Timer_Start_usable [of t a b] Timer_Reset_usable [of t]
  by (auto simp: Timer_due_def usable_def split: option.splits)

lemma http_send_triple: "triple (at True ks) (http_send x) (at True ks)"
  by (simp add: triple_def http_send_def at_def)

lemma http_Close_triple: "triple (at True ks) http_Close (at True ks)"
  by (simp add: triple_def http_Close_def at_def)

lemma client_send_triple: "triple (at True ks) (client_send J p) (at True ks)"
  unfolding client_send_def
  by (auto intro!: triple_res triple_each simp: on_encode_def split: prod.splits)
    (auto intro: http_send_triple triple_skip)

lemma send_packet_triple:
  assumes "k \<in> ks"
  shows "triple (at live ks) (Socket_send_packet J k p) (at live ks)"
  unfolding Socket_send_packet_def
proof (rule socket_triple [OF assms])
  fix s
  let ?P = "\<lambda>c. at live ks c \<and> map_of (m_sockets c) k = Some s"
  show "triple ?P (case Socket_submit p s of (sent, s') \<Rightarrow> act_then (set_socket k s') (act_each (client_send J) sent)) (at live ks)"
  proof (cases "m_connected s")
    case True
    have "triple ?P (act_then (set_socket k (s\<lparr>m_packet_queue := []\<rparr>)) (act_each (client_send J) (m_packet_queue s @ [p]))) (at True ks)"
    proof (rule triple_then)
      show "triple ?P (set_socket k (s\<lparr>m_packet_queue := []\<rparr>)) (at True ks)"
      proof (rule set_triple)
        fix c assume c: "?P c"
        then have ok: "socket_ok (m_client c = Http_alive) (k, s)" "m_client c = Http_alive" using at_socket [of live ks c k s] True by auto
        then show "at True ks c \<and> k \<in> ks \<and> socket_ok (m_client c = Http_alive) (k, s\<lparr>m_packet_queue := []\<rparr>)"
          using c assms by (simp add: at_def socket_ok_def)
      qed
      show "triple (at True ks) (act_each (client_send J) (m_packet_queue s @ [p])) (at True ks)"
        by (intro triple_each client_send_triple)
    qed
    then show ?thesis using True by (simp add: Socket_submit_simp triple_post at_mono)
  next
    case False
    have "triple ?P (set_socket k (s\<lparr>m_packet_queue := m_packet_queue s @ [p]\<rparr>)) (at live ks)"
    proof (rule set_triple)
      fix c assume c: "?P c"
      then have "socket_ok (m_client c = Http_alive) (k, s)" using at_socket by blast
      with c assms show "at live ks c \<and> k \<in> ks \<and> socket_ok (m_client c = Http_alive) (k, s\<lparr>m_packet_queue := m_packet_queue s @ [p]\<rparr>)"
        by (simp add: socket_ok_def)
    qed
    then have "triple ?P (act_then (set_socket k (s\<lparr>m_packet_queue := m_packet_queue s @ [p]\<rparr>)) act_skip) (at live ks)"
      by (rule triple_then) (simp add: triple_skip)
    then show ?thesis using False by (simp add: Socket_submit_simp)
  qed
qed

text \<open>A change of a socket that leaves its timer, its name and its connection.\<close>

lemma change_triple:
  assumes "k \<in> ks" "m_connection_timer s' = m_connection_timer s" "m_nsp s' = m_nsp s" "m_connected s' \<longrightarrow> m_connected s"
  shows "triple (\<lambda>c. at live ks c \<and> map_of (m_sockets c) k = Some s) (set_socket k s') (at live ks)"
proof (rule set_triple)
  fix c assume c: "at live ks c \<and> map_of (m_sockets c) k = Some s"
  then have "socket_ok (m_client c = Http_alive) (k, s)" using at_socket by blast
  with c assms show "at live ks c \<and> k \<in> ks \<and> socket_ok (m_client c = Http_alive) (k, s')"
    by (auto simp: socket_ok_def)
qed

lemma on_socket_triple:
  assumes "k \<in> ks" "\<And>s. m_connection_timer (f s) = m_connection_timer s \<and> m_nsp (f s) = m_nsp s \<and> (m_connected (f s) \<longrightarrow> m_connected s)"
  shows "triple (at live ks) (with_socket k (\<lambda>s. set_socket k (f s))) (at live ks)"
  using assms(2) by (intro socket_triple change_triple assms(1)) auto

lemma emit_triple:
  assumes "k \<in> ks"
  shows "triple (at live ks) (Socket_emit J k name msg ack) (at live ks)"
  unfolding Socket_emit_def Let_def
proof (rule socket_triple [OF assms], rule triple_with)
  fix s :: socket and v
  let ?s = "case ack of None \<Rightarrow> s | Some cb \<Rightarrow> s\<lparr>m_acks := (m_acks s)(v \<mapsto> cb)\<rparr>"
  let ?P = "\<lambda>c. at live ks c \<and> map_of (m_sockets c) k = Some s"
  have s: "m_connection_timer ?s = m_connection_timer s" "m_nsp ?s = m_nsp s" "m_connected ?s = m_connected s"
    by (simp_all split: option.splits)
  show "triple (\<lambda>c. (at live ks c \<and> map_of (m_sockets c) k = Some s) \<and> s_global_event_id c = v)
      (act_then (act_upd (\<lambda>c. c\<lparr>s_global_event_id := case ack of None \<Rightarrow> v | Some cb \<Rightarrow> v + 1\<rparr>))
        (act_then (set_socket k ?s)
          (act_res (packet_message (m_nsp s) (event_array name msg) (case ack of None \<Rightarrow> - 1 | Some cb \<Rightarrow> sint v) False)
            (\<lambda>p. Socket_send_packet J k p)))) (at live ks)"
    using assms s
    by (intro triple_then [where R = ?P] triple_then [where R = "at live ks"] triple_upd change_triple triple_res send_packet_triple)
      (auto simp: packet_message_def at_def sio_inv_def split: if_splits)
qed

lemma ack_triple:
  "k \<in> ks \<Longrightarrow> triple (at live ks) (Socket_ack J k i msg) (at live ks)"
  unfolding Socket_ack_def
  by (intro socket_triple triple_weaken [OF triple_res [OF send_packet_triple]]) (auto simp: packet_message_def)

lemma send_connect_triple:
  "k \<in> ks \<Longrightarrow> triple (at live ks) (Socket_send_connect J k nsp) (at live ks)"
  unfolding Socket_send_connect_def
  by (intro triple_then [where R = "at live ks"] send_packet_triple on_socket_triple socket_timer_triple timer_laws) auto

lemma socket_close_triple:
  assumes "k \<in> ks"
  shows "triple (at live ks) (Socket_close J k) (at live ks)"
proof -
  have "triple (at live ks) (act_then (Socket_send_packet J k p)
      (act_then (with_socket k (\<lambda>s. set_socket k (s\<lparr>m_timer_cb := Cb_on_close\<rparr>))) (socket_timer k (Timer_Start 3000 0)))) (at live ks)" for p
    using assms
    by (intro triple_then [where R = "at live ks"] send_packet_triple on_socket_triple socket_timer_triple timer_laws) auto
  then show ?thesis
    unfolding Socket_close_def using assms
    by (intro socket_triple) (auto intro: triple_weaken triple_skip)
qed

lemma triple_and: "triple P f Q \<Longrightarrow> triple (\<lambda>c. P c \<and> X c) f Q"
  by (simp add: triple_def)

lemma on_connected_triple:
  assumes "k \<in> ks"
  shows "triple (at True ks) (Socket_on_connected J k) (at True ks)"
  unfolding Socket_on_connected_def
proof (rule triple_then [OF socket_timer_triple socket_triple], fact, fact timer_laws, fact)
  fix s
  let ?P = "\<lambda>c. at True ks c \<and> map_of (m_sockets c) k = Some s"
  have "triple ?P (set_socket k (s\<lparr>m_connected := True, m_packet_queue := []\<rparr>)) (at True ks)"
  proof (rule set_triple)
    fix c assume c: "?P c"
    then have "socket_ok (m_client c = Http_alive) (k, s)" using at_socket by blast
    with c assms show "at True ks c \<and> k \<in> ks \<and> socket_ok (m_client c = Http_alive) (k, s\<lparr>m_connected := True, m_packet_queue := []\<rparr>)"
      by (simp add: socket_ok_def at_def)
  qed
  note opened = this
  show "triple ?P (if m_connected s then act_skip else case Socket_open s of (sent, s') \<Rightarrow>
      act_then (set_socket k s') (act_then (act_each (client_send J) sent)
        (case m_event_binding s ''connection'' of None \<Rightarrow> act_skip
         | Some func \<Rightarrow> act_out (Heard (m_nsp s) ''connection'' Null False)))) (at True ks)"
  proof (cases "m_connected s")
    case True
    then show ?thesis by (simp add: triple_and [OF triple_skip])
  next
    case False
    have "triple (at True ks) (case m_event_binding s ''connection'' of None \<Rightarrow> act_skip
        | Some func \<Rightarrow> act_out (Heard (m_nsp s) ''connection'' Null False)) (at True ks)"
      by (cases "m_event_binding s ''connection''") (simp_all add: triple_skip triple_out)
    with triple_then [OF opened triple_then [OF triple_each [OF client_send_triple]]] False
    show ?thesis by (simp add: Socket_open_simp)
  qed
qed

lemma on_event_triple:
  assumes "k \<in> ks"
  shows "triple (at True ks) (Socket_on_event J k nsp i name msg) (at True ks)"
  unfolding Socket_on_event_def Let_def
proof (rule socket_triple [OF assms], rule triple_and)
  fix s :: socket
  have ack: "triple (at True ks) (if 0 \<le> i then Socket_ack J k i m else act_skip) (at True ks)" for m
    using ack_triple [OF assms] by (simp add: triple_skip)
  then show "triple (at True ks) (case m_event_binding s name of
      None \<Rightarrow> if 0 \<le> i then Socket_ack J k i Null else act_skip
    | Some func \<Rightarrow> act_then (act_out (Heard nsp name msg (0 \<le> i)))
        (if 0 \<le> i then Socket_ack J k i (func name msg (0 \<le> i)) else act_skip)) (at True ks)"
    by (cases "m_event_binding s name") (simp_all only: option.case, rule triple_then [OF triple_out])
qed

lemma on_ack_triple:
  assumes "k \<in> ks"
  shows "triple (at live ks) (Socket_on_ack k i msg) (at live ks)"
  unfolding Socket_on_ack_def
proof (rule socket_triple [OF assms])
  fix s
  show "triple (\<lambda>c. at live ks c \<and> map_of (m_sockets c) k = Some s) (case m_acks s (of_int i) of None \<Rightarrow> act_skip
      | Some l \<Rightarrow> act_then (set_socket k (s\<lparr>m_acks := (m_acks s)(of_int i := None)\<rparr>)) (act_out (Acked l msg))) (at live ks)"
    by (cases "m_acks s (of_int i)")
      (simp_all only: option.case triple_and [OF triple_skip], rule triple_then [OF change_triple triple_out], simp_all add: assms)
qed

lemma on_error_triple: "k \<in> ks \<Longrightarrow> triple (at live ks) (Socket_on_error_packet k msg) (at live ks)"
  unfolding Socket_on_error_packet_def by (intro socket_triple triple_and) (simp_all add: triple_skip triple_out)

lemma triple_no: "(\<And>c. P c \<Longrightarrow> f c = Inl e) \<Longrightarrow> triple P f Q"
  by (simp add: triple_def)

lemma triple_fail: "triple P (act_fail e) Q"
  by (simp add: triple_def act_fail_def)

text \<open>Closing a socket always ends in the iterator of the erased entry.\<close>

lemma on_close_fails:
  assumes "sio_inv c" "map_of (m_sockets c) k = Some s"
  shows "Socket_on_close k c = Inl Dangling_pointer"
proof -
  have "at False {k} c" using assms by (auto simp: at_def)
  from at_socket [OF this assms(2)] have "usable (m_connection_timer s)" "m_nsp s = k" by simp_all
  then show ?thesis using assms(2) Timer_Stop_usable [of "m_connection_timer s"]
    by (auto simp: Socket_on_close_def act_then_def socket_timer_def with_socket_def act_res_def set_socket_def act_upd_def
        update_conv' Timer_Close_def uv_close_def uv_use_def usable_def remove_socket_def)
qed

lemma on_close_triple: "k \<in> ks \<Longrightarrow> triple (at live ks) (Socket_on_close k) Q"
  by (rule triple_no) (auto simp: at_def intro: on_close_fails)

lemma message_triple:
  assumes "k \<in> ks"
  shows "triple (at True ks) (Socket_on_message_packet J k p) (at True ks)"
proof -
  have data: "triple (at True ks) (case p_message p of
      Array xs \<Rightarrow> act_res (json_at (p_message p) 0) (\<lambda>name. act_res (json_string name) (\<lambda>name.
        Socket_on_event J k (p_nsp p) (p_pack_id p) name (event_data xs))) | _ \<Rightarrow> act_skip) (at True ks)"
    using assms by (auto split: json.splits intro!: triple_skip triple_res on_event_triple elim!: json_string.elims)
  note pieces = on_connected_triple [OF assms] on_close_triple [OF assms, of True] on_ack_triple [OF assms, of True]
    on_error_triple [OF assms, of True] triple_skip [of "at True ks" "at True ks"]
  show ?thesis
    unfolding Socket_on_message_packet_def
    by (rule socket_triple [OF assms], rule triple_and)
      (simp add: pieces data triple_res get_type_def)
qed

lemma get_socket_triple:
  assumes "triple (at live (insert (socket_name nsp) ks)) (f (socket_name nsp)) Q"
  shows "triple (at live ks) (get_socket nsp f) Q"
  unfolding get_socket_def Let_def
proof (rule triple_then [OF triple_upd assms])
  fix c assume c: "at live ks c"
  have "socket_ok b (socket_name nsp, Socket_new (socket_name nsp))" for b
    by (simp add: socket_ok_def Socket_new_def usable_def Timer_init_def uv_timer_init_def)
  with c show "at live (insert (socket_name nsp) ks) (case map_of (m_sockets c) (socket_name nsp) of
      None \<Rightarrow> c\<lparr>m_sockets := AList.update (socket_name nsp) (Socket_new (socket_name nsp)) (m_sockets c)\<rparr> | Some s \<Rightarrow> c)"
    by (auto split: option.splits intro: at_set) (auto simp: at_def)
qed

lemma io_triple: "triple (at live ks) (client_io J nsp) (at live ks)"
  unfolding client_io_def
  by (intro triple_then [where R = "at live ks"])
    (auto intro!: get_socket_triple triple_skip intro: triple_post [OF send_connect_triple] at_mono)

subsection \<open>Timers, handshake and connecting\<close>

lemma ping_timer_triple:
  assumes "\<And>t. usable t \<Longrightarrow> \<exists>t'. f t = Inr t' \<and> usable t' \<and> (live \<or> armed t' = None)"
  shows "triple (at live ks) (ping_timer f) (at live ks)"
  unfolding ping_timer_def triple_def
proof (intro allI impI)
  fix c assume c: "at live ks c"
  with assms [of "m_ping_timer c"] show "case act_with (\<lambda>c. f (m_ping_timer c))
      (\<lambda>r. act_res r (\<lambda>t. act_upd (\<lambda>c. c\<lparr>m_ping_timer := t\<rparr>))) c of
      Inl e \<Rightarrow> True | Inr (out, c') \<Rightarrow> at live ks c'"
    by (auto simp: act_with_def act_res_def act_upd_def at_def sio_inv_def)
qed

lemma pong_timer_triple:
  assumes "\<And>t. usable t \<Longrightarrow> \<exists>t'. f t = Inr t' \<and> usable t' \<and> (live \<or> armed t' = None)"
  shows "triple (at live ks) (pong_timer f) (at live ks)"
  unfolding pong_timer_def triple_def
proof (intro allI impI)
  fix c assume c: "at live ks c"
  with assms [of "m_ping_timeout_timer c"] show "case act_with (\<lambda>c. f (m_ping_timeout_timer c))
      (\<lambda>r. act_res r (\<lambda>t. act_upd (\<lambda>c. c\<lparr>m_ping_timeout_timer := t\<rparr>))) c of
      Inl e \<Rightarrow> True | Inr (out, c') \<Rightarrow> at live ks c'"
    by (auto simp: act_with_def act_res_def act_upd_def at_def sio_inv_def)
qed

lemma reconn_timer_triple:
  assumes "\<And>t. usable t \<Longrightarrow> \<exists>t'. f t = Inr t' \<and> usable t'"
  shows "triple (at live ks) (reconn_timer f) (at live ks)"
  unfolding reconn_timer_def triple_def
proof (intro allI impI)
  fix c assume c: "at live ks c"
  with assms [of "m_reconn_timer c"] show "case act_with (\<lambda>c. f (m_reconn_timer c))
      (\<lambda>r. act_res r (\<lambda>t. act_upd (\<lambda>c. c\<lparr>m_reconn_timer := t\<rparr>))) c of
      Inl e \<Rightarrow> True | Inr (out, c') \<Rightarrow> at live ks c'"
    by (auto simp: act_with_def act_res_def act_upd_def at_def sio_inv_def)
qed

lemma stop_law: "usable t \<Longrightarrow> \<exists>t'. Timer_Stop t = Inr t' \<and> usable t' \<and> (live \<or> armed t' = None)"
  using Timer_Stop_usable by auto

lemma live_law: "\<exists>t'. f t = Inr t' \<and> usable t' \<Longrightarrow> \<exists>t'. f t = Inr t' \<and> usable t' \<and> (True \<or> armed t' = None)"
  by simp

lemma handshake_triple: "triple (at True ks) (on_handshake fi msg) (at True ks)"
proof -
  have upd: "triple (at True ks) (act_upd f) (at True ks)"
    if "\<And>c. at True ks c \<Longrightarrow> at True ks (f c)" for f using that by (rule triple_upd)
  have same: "at True ks (c\<lparr>m_sid := s\<rparr>) = at True ks c" "at True ks (c\<lparr>m_ping_interval := n\<rparr>) = at True ks c"
    "at True ks (c\<lparr>m_ping_timeout := n\<rparr>) = at True ks c" for c s n
    by (simp_all add: at_def sio_inv_def)
  have sid: "triple (at True ks) (case v of String s \<Rightarrow> act_upd (\<lambda>c. c\<lparr>m_sid := s\<rparr>) | _ \<Rightarrow> http_Close) (at True ks)" for v
    by (cases v) (simp_all add: http_Close_triple upd same)
  have start: "triple (at True ks) (act_with (\<lambda>c. unat (m_ping_interval c)) (\<lambda>n. ping_timer (Timer_Start n n))) (at True ks)"
    by (intro triple_with triple_and ping_timer_triple live_law timer_laws)
  show ?thesis
    unfolding on_handshake_def
    by (rule triple_then [OF _ start])
      (simp add: triple_skip triple_then [OF triple_res [OF sid] triple_then [OF triple_res [OF upd] triple_res [OF upd]]] same)
qed

lemma ping_triple: "triple (at True ks) (client_ping J) (at True ks)"
  unfolding client_ping_def
  by (intro triple_then [where R = "at True ks"] triple_res triple_with triple_and pong_timer_triple live_law timer_laws)
    (auto intro!: triple_each http_send_triple split: prod.splits)

lemma reset_triple: "triple (at live ks) client_reset (at live ks)"
  unfolding client_reset_def
  by (intro triple_then [where R = "at live ks"] triple_upd ping_timer_triple pong_timer_triple reconn_timer_triple stop_law timer_laws)
    (auto simp: at_def sio_inv_def)

lemma request_triple: "triple (at live ks) (sendHandshakeRequest now) (at True ks)"
proof -
  have "at True ks (c\<lparr>m_client := Http_alive\<rparr>)" if "at live ks c" for c
    using that by (auto simp: at_def sio_inv_def socket_ok_def)
  then have "triple (at live ks) (act_upd (\<lambda>c. c\<lparr>m_client := Http_alive\<rparr>)) (at True ks)" by (rule triple_upd)
  then have "triple (at live ks) (act_then (act_upd (\<lambda>c. c\<lparr>m_client := Http_alive\<rparr>)) (act_out x)) (at True ks)" for x
    by (rule triple_then [OF _ triple_out])
  then show ?thesis
    unfolding sendHandshakeRequest_def by (intro triple_with triple_and) (simp split: prod.splits)
qed

lemma connect_triple: "triple (at live ks) (client_connect now) (at live ks)"
proof -
  have go: "triple (at live ks) (act_then client_reset (sendHandshakeRequest now)) (at live ks)"
    by (rule triple_post [OF triple_then [OF reset_triple request_triple]]) (simp add: at_def)
  show ?thesis
    unfolding client_connect_def
    by (rule triple_then [where R = "at live ks", OF triple_upd triple_with], simp add: at_def sio_inv_def, rule triple_and)
      (simp add: triple_fail go)
qed

lemma reconnect_triple: "triple (at live ks) (timeout_reconnect now) (at live ks)"
  unfolding timeout_reconnect_def
  by (rule triple_with, rule triple_and)
    (simp add: triple_skip triple_then [where R = "at live ks", OF triple_upd connect_triple] at_def sio_inv_def)


subsubsection \<open>Closing\<close>

text \<open>While the client closes: the timers of the heartbeat are stopped and the sockets of \<open>gone\<close> are not connected.\<close>

definition quiet :: "string set \<Rightarrow> string set \<Rightarrow> client \<Rightarrow> bool" where
  "quiet keys gone c =
     (at True keys c \<and> armed (m_ping_timer c) = None \<and> armed (m_ping_timeout_timer c) = None \<and>
      dom (map_of (m_sockets c)) = keys \<and> (\<forall>k\<in>gone. \<forall>s. map_of (m_sockets c) k = Some s \<longrightarrow> \<not> m_connected s))"

lemma disconnect_quiet:
  assumes "quiet keys gone c" "k \<in> keys"
  shows "\<exists>c'. Socket_on_disconnect k c = Inr ([], c') \<and> quiet keys (insert k gone) c'"
proof -
  have c: "at True keys c" using assms(1) by (simp add: quiet_def)
  obtain s where s: "map_of (m_sockets c) k = Some s" using c assms(2) by (auto simp: at_def)
  from at_socket [OF c s] obtain t where t: "Timer_Stop (m_connection_timer s) = Inr t" "usable t" and n: "m_nsp s = k"
    using timer_laws(1) by blast
  let ?s = "Socket_lose (s\<lparr>m_connection_timer := t\<rparr>)"
  let ?xs = "AList.update k ?s (AList.update k (s\<lparr>m_connection_timer := t\<rparr>) (m_sockets c))"
  have live: "m_client c = Http_alive" using c by (simp add: at_def)
  have "at True (insert k keys) (c\<lparr>m_sockets := AList.update k (s\<lparr>m_connection_timer := t\<rparr>) (m_sockets c)\<rparr>)"
    by (rule at_set [OF c]) (use n t(2) in \<open>simp add: socket_ok_def live\<close>)
  from at_set [OF this, of k ?s] have "at True keys (c\<lparr>m_sockets := ?xs\<rparr>)"
    using t(2) n assms(2) by (simp add: socket_ok_def Socket_lose_def insert_absorb)
  moreover have "Socket_on_disconnect k c = Inr ([], c\<lparr>m_sockets := ?xs\<rparr>)"
    by (simp add: Socket_on_disconnect_def act_then_def socket_timer_def with_socket_def s act_res_def t(1) set_socket_def act_upd_def
        update_conv')
  ultimately show ?thesis using assms
    by (auto simp: quiet_def update_conv' Socket_lose_def split: if_splits)
qed

lemma disconnect_all_quiet:
  "quiet keys gone c \<Longrightarrow> fst ` set xs \<subseteq> keys \<Longrightarrow>
   \<exists>c'. act_each (\<lambda>(k, _). Socket_on_disconnect k) xs c = Inr ([], c') \<and> quiet keys (gone \<union> fst ` set xs) c'"
proof (induction xs arbitrary: gone c)
  case Nil
  then show ?case by (simp add: act_skip_def)
next
  case (Cons x xs)
  obtain k s where x: "x = (k, s)" by fastforce
  with Cons.prems(2) have "k \<in> keys" by simp
  from disconnect_quiet [OF Cons.prems(1) this] obtain c1 where
    c1: "Socket_on_disconnect k c = Inr ([], c1)" "quiet keys (insert k gone) c1" by blast
  from Cons.IH [OF c1(2)] Cons.prems(2) obtain c2 where
    "act_each (\<lambda>(k, _). Socket_on_disconnect k) xs c1 = Inr ([], c2)" "quiet keys (insert k gone \<union> fst ` set xs) c2" by auto
  with c1(1) x show ?case by (simp add: act_then_def)
qed

lemma quiet_deleted:
  assumes "quiet keys keys c"
  shows "at False keys (c\<lparr>m_client := Http_deleted\<rparr>)"
proof -
  have inv: "sio_inv c" and dom: "dom (map_of (m_sockets c)) = keys" using assms by (simp_all add: quiet_def at_def)
  have "socket_ok False (k, s)" if "(k, s) \<in> set (m_sockets c)" for k s
  proof -
    have m: "map_of (m_sockets c) k = Some s" using that inv by (simp add: sio_inv_def)
    then have "k \<in> keys" using dom by auto
    with assms m have "\<not> m_connected s" by (simp add: quiet_def)
    moreover have "socket_ok (m_client c = Http_alive) (k, s)" using inv that by (simp add: sio_inv_def)
    ultimately show ?thesis by (simp add: socket_ok_def)
  qed
  then show ?thesis using assms inv by (auto simp: at_def sio_inv_def quiet_def)
qed


lemma close_run:
  assumes c: "at True ks c"
  shows "\<exists>c'. client_close c = Inr ([Http_closed], c') \<and> m_client c' = Http_deleted \<and> freed_handles c' > 0 \<and> at False ks c'"
proof -
  let ?keys = "dom (map_of (m_sockets c))"
  have inv: "sio_inv c" using c by (simp add: at_def)
  obtain t1 where t1: "Timer_Stop (m_ping_timeout_timer c) = Inr t1" "usable t1" "armed t1 = None"
    using Timer_Stop_usable [of "m_ping_timeout_timer c"] inv by (auto simp: sio_inv_def)
  obtain t2 where t2: "Timer_Stop (m_ping_timer c) = Inr t2" "usable t2" "armed t2 = None"
    using Timer_Stop_usable [of "m_ping_timer c"] inv by (auto simp: sio_inv_def)
  let ?c = "c\<lparr>m_con_state := Con_closed, m_ping_timeout_timer := t1, m_ping_timer := t2\<rparr>"
  have "quiet ?keys {} ?c" using c t1 t2 by (auto simp: quiet_def at_def sio_inv_def)
  from disconnect_all_quiet [OF this, of "m_sockets c"] obtain c1 where
    c1: "act_each (\<lambda>(k, _). Socket_on_disconnect k) (m_sockets c) ?c = Inr ([], c1)" "quiet ?keys ?keys c1"
    by (auto simp: dom_map_of_conv_image_fst)
  have live: "m_client c1 = Http_alive" using c1(2) by (simp add: quiet_def at_def)
  obtain t4 where t4: "Timer_Start 4000 4000 (m_reconn_timer c1) = Inr t4" "usable t4"
    using Timer_Start_usable [of "m_reconn_timer c1" 4000 4000] c1(2) unfolding quiet_def at_def sio_inv_def by blast
  have "client_close c = Inr ([Http_closed], c1\<lparr>m_client := Http_deleted, freed_handles := freed_handles c1 + 1, m_reconn_timer := t4\<rparr>)"
    using c t1 t2 c1 live t4
    by (simp add: client_close_def act_with_def act_then_def act_upd_def ping_timer_def pong_timer_def reconn_timer_def act_res_def
        http_delete_def http_Close_def at_def sio_inv_def)
  moreover have "at False ks (c1\<lparr>m_client := Http_deleted, freed_handles := freed_handles c1 + 1, m_reconn_timer := t4\<rparr>)"
  proof -
    have "ks \<subseteq> ?keys" using c by (simp add: at_def)
    with quiet_deleted [OF c1(2)] have "at False ks (c1\<lparr>m_client := Http_deleted\<rparr>)" by (meson at_mono)
    then show ?thesis using t4(2) by (simp add: at_def sio_inv_def)
  qed
  ultimately show ?thesis by simp
qed

lemma close_triple: "triple (at True ks) client_close (at False ks)"
  using close_run by (fastforce simp: triple_def)

text \<open>
  Whatever closes the connection, deleted memory is used afterwards: by the loop, by the callback that is told of the
  end of the response, and by the client that called back.
\<close>

lemma close_uses_deleted_memory:
  assumes "sio_inv c" "m_client c = Http_alive"
  shows "\<exists>c'. client_do J fi Ev_close c = Inr ([Http_closed], c') \<and> enabled Ev_uv_closed c' \<and>
    client_do J fi Ev_uv_closed c' = Inl Dangling_pointer \<and> client_do J fi Ev_http_complete c' = Inl Dangling_pointer"
    "client_do J fi Ev_http_closed c = Inl Dangling_pointer"
  using close_run [of "{}" c] assms
  by (auto simp: at_def uv_closed_def act_fail_def on_complete_def act_then_def http_returns_def)

subsubsection \<open>Every event\<close>

lemma decode_triple: "triple (at True {}) (on_decode J fi p) (at False {})"
proof -
  have "triple (at True {}) (get_socket (p_nsp p) (\<lambda>k. Socket_on_message_packet J k p)) (at False {})"
    by (rule get_socket_triple, rule triple_post [OF message_triple]) (auto intro: at_mono)
  moreover have "triple (at True {}) on_pong (at False {})"
    unfolding on_pong_def by (rule triple_post [OF pong_timer_triple [OF stop_law]]) (auto intro: at_mono)
  moreover have "triple (at True {}) (on_handshake fi (p_message p)) (at False {})"
    by (rule triple_post [OF handshake_triple]) (auto intro: at_mono)
  ultimately show ?thesis
    by (simp add: on_decode_def close_triple triple_skip at_mono)
qed

lemma payload_triple: "triple (at True {}) (on_payload J fi g s) (at False {})"
  unfolding on_payload_def
proof (rule triple_then [OF pong_timer_triple triple_with], rule live_law, erule timer_laws, rule triple_and, rule triple_res)
  fix q and v :: "packet option \<times> packet option"
  obtain p q' where v: "v = (p, q')" by fastforce
  have "triple (at True {}) (case p of None \<Rightarrow> act_skip | Some p \<Rightarrow> on_decode J fi p) (at False {})"
    by (cases p) (simp_all add: decode_triple triple_skip at_mono)
  moreover have "triple (at True {}) (act_upd (\<lambda>c. c\<lparr>m_partial_packet := q'\<rparr>)) (at True {})"
    by (rule triple_upd) (auto simp: at_def sio_inv_def)
  ultimately have "triple (at True {}) (act_then (act_upd (\<lambda>c. c\<lparr>m_partial_packet := q'\<rparr>))
      (case p of None \<Rightarrow> act_skip | Some p \<Rightarrow> on_decode J fi p)) (at False {})"
    by (rule triple_then [rotated])
  then show "triple (at True {}) (case v of (p, q') \<Rightarrow> act_then (act_upd (\<lambda>c. c\<lparr>m_partial_packet := q'\<rparr>))
      (case p of None \<Rightarrow> act_skip | Some p \<Rightarrow> on_decode J fi p)) (at False {})"
    by (simp add: v)
qed


lemma returns_triple: "triple (at live ks) http_returns (at live ks)"
  by (simp add: triple_def http_returns_def split: http_client.splits)

text \<open>Closing a client whose connection is not there ends nowhere but in the dangling pointer.\<close>

lemma close_not_alive: "triple (\<lambda>c. m_client c \<noteq> Http_alive) client_close Q"
proof -
  let ?P = "\<lambda>c. m_client c \<noteq> Http_alive"
  have timers: "triple ?P (pong_timer f) ?P" "triple ?P (ping_timer f) ?P" "triple ?P (socket_timer k f) ?P" for f k
    by (auto simp: triple_def pong_timer_def ping_timer_def socket_timer_def with_socket_def set_socket_def act_with_def act_res_def
        act_upd_def res_bind_def split: sum.splits option.splits)
  have "triple ?P (with_socket k (\<lambda>s. set_socket k (Socket_lose s))) ?P" for k
    by (auto simp: triple_def with_socket_def set_socket_def act_upd_def split: option.splits)
  then have disconnect: "triple ?P (Socket_on_disconnect k) ?P" for k
    unfolding Socket_on_disconnect_def by (rule triple_then [OF timers(3)])
  have del: "triple ?P (Socket_delete k) ?P" for k
    unfolding Socket_delete_def by (intro triple_then [OF timers(3)] timers)
  have gone: "triple ?P (act_then http_delete g) Q" for g
    by (auto simp: triple_def http_delete_def http_Close_def act_then_def split: http_client.splits)
  have each: "triple ?P (act_with m_sockets (\<lambda>ss. act_each (\<lambda>(k, _). f k) ss)) ?P" if "\<And>k. triple ?P (f k) ?P" for f
    by (intro triple_with triple_and triple_each) (use that in \<open>auto split: prod.splits\<close>)
  have upds: "triple ?P (act_upd (\<lambda>c. c\<lparr>m_con_state := Con_closed\<rparr>)) ?P" "triple ?P (act_upd (\<lambda>c. c\<lparr>m_sockets := []\<rparr>)) ?P"
    by (simp_all add: triple_upd)
  have clear: "triple ?P clear_timers ?P"
    unfolding clear_timers_def by (intro triple_then [where R = ?P] timers)
  note reconnecting = triple_then [OF timers(1) triple_then [OF timers(2) triple_then [OF each [OF disconnect] gone]]]
  note ending = triple_then [OF clear triple_then [OF each [OF del] triple_then [OF upds(2) gone]]]
  show ?thesis
    unfolding client_close_def by (intro triple_with triple_and triple_then [OF upds(1)]) (simp add: reconnecting ending)
qed

lemma close_any_triple: "triple (at False {}) client_close (at False {})"
  unfolding triple_def
proof (intro allI impI)
  fix c assume c: "at False {} c"
  show "case client_close c of Inl e \<Rightarrow> True | Inr (out, c') \<Rightarrow> at False {} c'"
  proof (cases "m_client c = Http_alive")
    case True
    then have "at True {} c" using c by (simp add: at_def)
    then show ?thesis using close_triple [of "{}"] by (simp add: triple_def)
  next
    case False
    then show ?thesis using close_not_alive by (simp add: triple_def)
  qed
qed

lemma event_triple: "triple (\<lambda>c. at False {} c \<and> enabled ev c) (client_do J fi ev) (at False {})"
proof -
  let ?P = "\<lambda>c. at False {} c \<and> enabled ev c"
  have socket: "triple ?P f (at False {})"
    if "\<And>c. enabled ev c \<Longrightarrow> map_of (m_sockets c) k \<noteq> None" "triple (at False {k}) f (at False {k})" for k f
    by (rule triple_post [OF triple_weaken [OF that(2)]]) (use that(1) in \<open>auto simp: at_def\<close>)
  have live: "triple ?P f (at False {})" if "\<And>c. sio_inv c \<Longrightarrow> enabled ev c \<Longrightarrow> m_client c = Http_alive" "triple (at True {}) f (at False {})" for f
    by (rule triple_weaken [OF that(2)]) (use that(1) in \<open>auto simp: at_def\<close>)
  have user: "triple (at False {k}) (on_socket k f) (at False {k})"
    if "\<And>s. m_connection_timer (f s) = m_connection_timer s \<and> m_nsp (f s) = m_nsp s \<and> (m_connected (f s) \<longrightarrow> m_connected s)" for k f
    unfolding on_socket_def by (intro on_socket_triple that) simp
  show ?thesis
  proof (cases ev)
    case (Ev_on k name f)
    then have "triple (at False {k}) (client_do J fi ev) (at False {k})"
      by (simp add: user Socket_on_def)
    then show ?thesis by (rule socket [rotated]) (simp add: Ev_on)
  next
    case (Ev_off k name)
    then have "triple (at False {k}) (client_do J fi ev) (at False {k})"
      by (simp add: user Socket_off_def)
    then show ?thesis by (rule socket [rotated]) (simp add: Ev_off)
  next
    case (Ev_off_all k)
    then have "triple (at False {k}) (client_do J fi ev) (at False {k})"
      by (simp add: user Socket_off_all_def)
    then show ?thesis by (rule socket [rotated]) (simp add: Ev_off_all)
  next
    case (Ev_on_error k l)
    then have "triple (at False {k}) (client_do J fi ev) (at False {k})"
      by (simp add: user Socket_on_error_def)
    then show ?thesis by (rule socket [rotated]) (simp add: Ev_on_error)
  next
    case (Ev_emit k name msg ack)
    then have "triple (at False {k}) (client_do J fi ev) (at False {k})"
      by (simp add: emit_triple)
    then show ?thesis by (rule socket [rotated]) (simp add: Ev_emit)
  next
    case (Ev_close_socket k)
    then have "triple (at False {k}) (client_do J fi ev) (at False {k})"
      by (simp add: socket_close_triple)
    then show ?thesis by (rule socket [rotated]) (simp add: Ev_close_socket)
  next
    case (Ev_payload g s)
    then have "triple (at True {}) (client_do J fi ev) (at False {})" by (simp add: triple_then [OF payload_triple returns_triple])
    then show ?thesis by (rule live [rotated]) (simp add: Ev_payload)
  next
    case Ev_ping_due
    have "triple (at True {}) (act_then (ping_timer (\<lambda>t. Inr (Timer_due t))) (client_ping J)) (at False {})"
      by (rule triple_post [OF triple_then [OF ping_timer_triple ping_triple]]) (use timer_laws(4) in \<open>auto intro: at_mono\<close>)
    then have "triple (at True {}) (client_do J fi ev) (at False {})" by (simp add: Ev_ping_due)
    then show ?thesis by (rule live [rotated]) (auto simp: Ev_ping_due due_def sio_inv_def)
  next
    case Ev_pong_due
    have "triple (at True {}) (act_then (pong_timer (\<lambda>t. Inr (Timer_due t))) client_close) (at False {})"
      by (rule triple_then [OF pong_timer_triple close_triple]) (use timer_laws(4) in auto)
    then have "triple (at True {}) (client_do J fi ev) (at False {})" by (simp add: Ev_pong_due)
    then show ?thesis by (rule live [rotated]) (auto simp: Ev_pong_due due_def sio_inv_def)
  next
    case (Ev_reconnect_due now)
    have "triple (at False {}) (act_then (reconn_timer (\<lambda>t. Inr (Timer_due t))) (timeout_reconnect now)) (at False {})"
      by (rule triple_then [OF reconn_timer_triple reconnect_triple]) (use timer_laws(4) in auto)
    then have "triple (at False {}) (client_do J fi ev) (at False {})" by (simp add: Ev_reconnect_due)
    then show ?thesis by (rule triple_and)
  next
    case (Ev_connection_due k)
    have "triple (at False {k}) (with_socket k (\<lambda>s. case m_timer_cb s of No_cb \<Rightarrow> act_skip
        | Cb_timeout_connection \<Rightarrow> timeout_connection k | Cb_on_close \<Rightarrow> Socket_on_close k)) (at False {k})"
    proof (rule socket_triple [OF singletonI], rule triple_and)
      fix s :: socket
      have "triple (at False {k}) (timeout_connection k) (at False {k})"
        unfolding timeout_connection_def
        by (rule triple_then [OF socket_timer_triple on_close_triple]) (auto intro: timer_laws)
      then show "triple (at False {k}) (case m_timer_cb s of No_cb \<Rightarrow> act_skip
          | Cb_timeout_connection \<Rightarrow> timeout_connection k | Cb_on_close \<Rightarrow> Socket_on_close k) (at False {k})"
        by (cases "m_timer_cb s") (simp_all add: triple_skip on_close_triple)
    qed
    moreover have "triple (at False {k}) (socket_timer k (\<lambda>t. Inr (Timer_due t))) (at False {k})"
      by (rule socket_timer_triple) (use timer_laws(4) in auto)
    ultimately have "triple (at False {k}) (client_do J fi ev) (at False {k})"
      unfolding Ev_connection_due client_do.simps by (rule triple_then [rotated])
    then show ?thesis by (rule socket [rotated]) (auto simp: Ev_connection_due split: option.splits)
  next
    case (Ev_connect now)
    then show ?thesis by (simp add: connect_triple)
  next
    case (Ev_io nsp)
    then show ?thesis by (simp add: io_triple)
  next
    case Ev_close
    then show ?thesis by (simp add: close_any_triple)
  next
    case Ev_http_closed
    then show ?thesis by (simp add: triple_and triple_then [OF close_any_triple returns_triple])
  next
    case Ev_http_complete
    then show ?thesis by (simp add: triple_and triple_def on_complete_def split: http_client.splits)
  next
    case Ev_uv_closed
    then show ?thesis by (simp add: uv_closed_def triple_fail)
  qed
qed

lemma client_run_inv: "client_run J fi c0 out c \<Longrightarrow> sio_inv c"
proof (induction rule: client_run.induct)
  case (run_start host port st)
  then show ?case by (simp add: sio_inv_def SocketioClient_new_def usable_def Timer_init_def uv_timer_init_def armed_def)
next
  case (run_step c0 out c ev out' c')
  from event_triple [of ev J fi] run_step show ?case
    by (force simp: triple_def at_def)
qed

lemmas acts = act_then_def act_upd_def act_with_def act_out_def act_skip_def act_res_def act_fail_def
  ping_timer_def pong_timer_def reconn_timer_def with_socket_def set_socket_def socket_timer_def

subsection \<open>Events and acknowledgements from end to end\<close>

definition ready :: "string \<Rightarrow> socket \<Rightarrow> client \<Rightarrow> bool" where
  "ready k s c = (sio_inv c \<and> m_client c = Http_alive \<and> map_of (m_sockets c) k = Some s \<and> m_connected s \<and> m_packet_queue s = [])"

definition put_socket :: "string \<Rightarrow> socket \<Rightarrow> client \<Rightarrow> client" where
  "put_socket k s c = c\<lparr>m_sockets := AList.update k s (m_sockets c)\<rparr>"

lemma put_socket_simps [simp]:
  "map_of (m_sockets (put_socket k s c)) = (map_of (m_sockets c))(k \<mapsto> s)" "m_client (put_socket k s c) = m_client c"
  "m_partial_packet (put_socket k s c) = m_partial_packet c" "m_ping_timeout_timer (put_socket k s c) = m_ping_timeout_timer c"
  "s_global_event_id (put_socket k s c) = s_global_event_id c"
  by (simp_all add: put_socket_def update_conv')

lemma ready_put:
  assumes "ready k s c" "m_connection_timer s' = m_connection_timer s" "m_nsp s' = m_nsp s" "m_connected s'" "m_packet_queue s' = []"
  shows "ready k s' (put_socket k s' c)"
proof -
  have c: "at True {k} c" "map_of (m_sockets c) k = Some s" using assms(1) by (auto simp: ready_def at_def)
  have "socket_ok (m_client c = Http_alive) (k, s')" using at_socket [OF c] assms c(1) by (simp add: socket_ok_def at_def)
  from at_set [OF c(1) this] show ?thesis using assms by (simp add: ready_def put_socket_def at_def update_conv')
qed

lemma same_queue: "m_packet_queue s = [] \<Longrightarrow> s\<lparr>m_packet_queue := []\<rparr> = s" for s :: socket
  by (cases s) simp

lemma send_ready:
  assumes "ready k s c" "encode_packet J p = Inr ([(False, tx)], p')"
  shows "Socket_send_packet J k p c = Inr ([Sent tx], put_socket k s c)"
  using assms
  by (simp add: same_queue ready_def Socket_send_packet_def acts Socket_submit_simp client_send_def on_encode_def http_send_def put_socket_def)

lemma emit_ready:
  assumes "ready k s c" "encode_packet J p = Inr ([(False, tx)], p')"
    and "packet_message k (event_array name msg) (sint (s_global_event_id c)) False = Inr p"
  shows "\<exists>c'. Socket_emit J k name msg (Some cb) c = Inr ([Sent tx], c') \<and>
    ready k (s\<lparr>m_acks := (m_acks s)(s_global_event_id c \<mapsto> cb)\<rparr>) c' \<and> m_partial_packet c' = m_partial_packet c"
proof -
  let ?s = "s\<lparr>m_acks := (m_acks s)(s_global_event_id c \<mapsto> cb)\<rparr>"
  let ?c = "c\<lparr>s_global_event_id := s_global_event_id c + 1\<rparr>"
  have c: "ready k s ?c" using assms(1) by (auto simp: ready_def sio_inv_def)
  have nsp: "m_nsp s = k" using assms(1) at_socket(2) [of True "{k}" c k s] by (auto simp: ready_def at_def)
  have put: "ready k ?s (put_socket k ?s ?c)" by (rule ready_put [OF c]) (use assms(1) in \<open>simp_all add: ready_def\<close>)
  have "Socket_emit J k name msg (Some cb) c = Inr ([Sent tx], put_socket k ?s (put_socket k ?s ?c))"
    using send_ready [OF put assms(2)] assms(1,3) nsp by (simp add: Socket_emit_def acts ready_def put_socket_def Let_def)
  moreover have "ready k ?s (put_socket k ?s (put_socket k ?s ?c))"
    by (rule ready_put [OF put]) (use assms(1) in \<open>simp_all add: ready_def\<close>)
  ultimately show ?thesis by (auto simp: put_socket_def)
qed

text \<open>A payload that is a packet for a socket that is there.\<close>

lemma http_returns_alive: "m_client c = Http_alive \<Longrightarrow> http_returns c = Inr ([], c)"
  by (simp add: http_returns_def)

lemma payload_message:
  assumes "ready k s c" "put_payload J g tx (m_partial_packet c) = Inr (Some p, m_partial_packet c)"
    and "p_frame p = frame_message" "p_nsp p = k" "hd k = CHR ''/''" "k \<noteq> []"
  shows "\<exists>c1. on_payload J fi g tx c = Socket_on_message_packet J k p c1 \<and> ready k s c1 \<and> m_partial_packet c1 = m_partial_packet c"
proof -
  obtain t where t: "Timer_Reset (m_ping_timeout_timer c) = Inr t" "usable t"
    using assms(1) timer_laws(3) by (auto simp: ready_def sio_inv_def)
  let ?c = "c\<lparr>m_ping_timeout_timer := t\<rparr>"
  have "ready k s ?c" using assms(1) t(2) by (auto simp: ready_def sio_inv_def)
  moreover have "on_payload J fi g tx c = Socket_on_message_packet J k p ?c"
    using assms t(1)
    by (simp add: on_payload_def acts on_decode_def get_socket_def socket_name_def ready_def Let_def res_bind_def split: sum.splits prod.splits)
  ultimately show ?thesis by (intro exI [of _ ?c]) simp
qed


lemma event_data_array: "json_empty msg = False \<Longrightarrow> event_array name msg = Array [String name, msg] \<and> event_data [String name, msg] = msg"
  by (simp add: event_array_def event_data_def)

lemma message_type_event: "settled_type False (type_event OR type_undetermined) = type_event"
  "settled_type False (type_ack OR type_undetermined) = type_ack"
  by (simp_all add: settled_type_def packet_types)

definition name_ok :: "string \<Rightarrow> bool" where
  "name_ok ns = (ns \<noteq> [] \<and> hd ns = CHR ''/'' \<and> CHR '','' \<notin> set ns)"

text \<open>What \<open>emit\<close> and \<open>ack\<close> print is delivered at the other side.\<close>

lemma message_delivered:
  assumes "name_ok ns" "0 \<le> i" "i \<le> int_max" "json_size j \<noteq> 0" "prints J j"
  obtains p tx p' where "packet_message ns j i isAck = Inr p" "encode_packet J p = Inr ([(False, tx)], p')"
    and "\<And>g q. put_payload J g tx q = Inr (Some (delivered p), q)"
    and "delivered p = \<lparr>p_frame = frame_message, p_type = (if isAck then type_ack else type_event), p_nsp = ns, p_pack_id = i,
      p_message = j, p_pending_buffers = 0, p_buffers = []\<rparr>"
proof -
  let ?p = "\<lparr>p_frame = frame_message, p_type = (if isAck then type_ack else type_event) OR type_undetermined, p_nsp = ns,
    p_pack_id = i, p_message = j, p_pending_buffers = 0, p_buffers = []\<rparr>"
  have m: "packet_message ns j i isAck = Inr ?p" using assms(2) by (simp add: packet_message_def)
  have ok: "packet_ok J ?p" using assms by (auto simp: packet_ok_def nsp_ok_def name_ok_def packet_types)
  obtain tx p' where e: "encode_packet J ?p = Inr ([(False, tx)], p')" using packet_delivered [OF ok] by blast
  have "put_payload J g tx q = Inr (Some (delivered ?p), q)" for g q using packet_delivered [OF ok, of g q] e by auto
  moreover have "delivered ?p = \<lparr>p_frame = frame_message, p_type = (if isAck then type_ack else type_event), p_nsp = ns,
      p_pack_id = i, p_message = j, p_pending_buffers = 0, p_buffers = []\<rparr>"
    using assms by (auto simp: delivered_def name_ok_def message_type_event)
  ultimately show ?thesis using that m e by blast
qed

text \<open>
  C19: An event with an acknowledgement emitted on a connected socket reaches the listener of
  that name in the same namespace of the peer with its data, and what the listener answers
  comes back to exactly the callback that was given: when nothing waits in the queues, the
  data are not empty, and the answer is not empty and, like the event, prints as an object, an
  array or a string (a number or null as answer is misread). The texts each arrive in one
  payload.
\<close>

theorem event_and_ack_end_to_end:
  assumes "ready ns sa a" "ready ns sb b" "name_ok ns" "0 \<le> sint (s_global_event_id a)"
    and "json_empty msg = False" "prints J (Array [String name, msg])"
    and "m_event_binding sb name = Some f" "json_size (f name msg True) \<noteq> 0" "prints J (f name msg True)"
  shows "\<exists>tx a1 reply b1 a2. client_do J fi (Ev_emit ns name msg (Some cb)) a = Inr ([Sent tx], a1) \<and>
    client_do J fi (Ev_payload g tx) b = Inr ([Heard ns name msg True, Sent reply], b1) \<and>
    client_do J fi (Ev_payload g' reply) a1 = Inr ([Acked cb (f name msg True)], a2)"
proof -
  let ?id = "s_global_event_id a" and ?ack = "f name msg True"
  have ns: "hd ns = CHR ''/''" "ns \<noteq> []" using assms(3) by (simp_all add: name_ok_def)
  have id: "sint ?id \<le> int_max" using sint_lt [of ?id] by (simp add: int_max_def)
  note data = event_data_array [OF assms(5), of name]
  have "json_size (Array [String name, msg]) \<noteq> 0" by simp
  from message_delivered [OF assms(3,4) id this assms(6), of False]
  obtain p tx p' where p: "packet_message ns (Array [String name, msg]) (sint ?id) False = Inr p"
      "encode_packet J p = Inr ([(False, tx)], p')" "\<And>g q. put_payload J g tx q = Inr (Some (delivered p), q)"
      "delivered p = \<lparr>p_frame = frame_message, p_type = type_event, p_nsp = ns, p_pack_id = sint ?id,
        p_message = Array [String name, msg], p_pending_buffers = 0, p_buffers = []\<rparr>" by auto
  from message_delivered [OF assms(3,4) id assms(8,9), of True]
  obtain r reply r' where r: "packet_message ns ?ack (sint ?id) True = Inr r"
      "encode_packet J r = Inr ([(False, reply)], r')" "\<And>g q. put_payload J g reply q = Inr (Some (delivered r), q)"
      "delivered r = \<lparr>p_frame = frame_message, p_type = type_ack, p_nsp = ns, p_pack_id = sint ?id,
        p_message = ?ack, p_pending_buffers = 0, p_buffers = []\<rparr>" by auto
  have "packet_message ns (event_array name msg) (sint ?id) False = Inr p" using data p(1) by simp
  from emit_ready [OF assms(1) p(2) this] obtain a1 where a1: "Socket_emit J ns name msg (Some cb) a = Inr ([Sent tx], a1)"
    "ready ns (sa\<lparr>m_acks := (m_acks sa)(?id \<mapsto> cb)\<rparr>) a1" by blast
  from payload_message [OF assms(2) p(3), of fi] p(4) ns obtain b1 where
    b1: "on_payload J fi g tx b = Socket_on_message_packet J ns (delivered p) b1" "ready ns sb b1" by fastforce
  from payload_message [OF a1(2) r(3)] r(4) ns obtain a2 where
    a2: "on_payload J fi g' reply a1 = Socket_on_message_packet J ns (delivered r) a2" "ready ns (sa\<lparr>m_acks := (m_acks sa)(?id \<mapsto> cb)\<rparr>) a2"
    by fastforce
  have nsp: "m_nsp sa = ns" "m_nsp sb = ns"
    using assms(1,2) at_socket(2) [of True "{ns}" a ns sa] at_socket(2) [of True "{ns}" b ns sb] by (auto simp: ready_def at_def)
  obtain d where d: "dump J (Array [String name, msg]) = Inr d" using assms(6) by (auto simp: prints_def split: sum.splits)
  have "Socket_on_message_packet J ns (delivered p) b1 = Inr ([Heard ns name msg True, Sent reply], put_socket ns sb b1)"
    using b1(2) send_ready [OF b1(2) r(2)] r(1) nsp(2) assms(4,7) data d p(4)
    by (simp add: Socket_on_message_packet_def acts ready_def get_type_def packet_types Socket_on_event_def Socket_ack_def Let_def)
  moreover have "\<exists>a3. Socket_on_message_packet J ns (delivered r) a2 = Inr ([Acked cb ?ack], a3) \<and> m_client a3 = Http_alive"
    using a2(2) nsp(1) r(4)
    by (simp add: Socket_on_message_packet_def acts ready_def get_type_def packet_types Socket_on_ack_def)
  ultimately show ?thesis using a1(1) a2(1) b1 by (auto simp: act_then_def http_returns_alive ready_def)
qed

definition say :: json where
  "say = Array [String ''say'', String ''hi'']"

definition say_text :: json_text where
  "say_text = \<lparr>dump = (\<lambda>j. if j = say then Inr ''[\"say\",\"hi\"]'' else dump hello_text j),
               json_parse = (\<lambda>s. if s = ''[\"say\",\"hi\"]'' then Inr say else json_parse hello_text s)\<rparr>"

definition chat_socket :: socket where
  "chat_socket = (Socket_new ''/chat'')\<lparr>m_connected := True, m_event_binding := [''say'' \<mapsto> (\<lambda>name msg need. Array [msg])]\<rparr>"

definition chat_client :: client where
  "chat_client = (SocketioClient_new ''host'' 80 Con_opening)\<lparr>m_client := Http_alive, m_sockets := [(''/chat'', chat_socket)]\<rparr>"

lemma chat_ready: "ready ''/chat'' chat_socket chat_client"
  by (simp add: ready_def sio_inv_def chat_client_def chat_socket_def SocketioClient_new_def Socket_new_def usable_def Timer_init_def
      uv_timer_init_def socket_ok_def)

theorem event_and_ack_end_to_end_witness:
  "\<exists>tx a1 reply b1 a2. client_do say_text (\<lambda>_. 0) (Ev_emit ''/chat'' ''say'' (String ''hi'') (Some 5)) chat_client = Inr ([Sent tx], a1) \<and>
    client_do say_text (\<lambda>_. 0) (Ev_payload 0 tx) chat_client = Inr ([Heard ''/chat'' ''say'' (String ''hi'') True, Sent reply], b1) \<and>
    client_do say_text (\<lambda>_. 0) (Ev_payload 0 reply) a1 = Inr ([Acked 5 hello], a2)"
proof -
  let ?f = "\<lambda>(name :: string) msg (need :: bool). Array [msg]"
  have f: "m_event_binding chat_socket ''say'' = Some ?f" by (simp add: chat_socket_def)
  have reply: "?f ''say'' (String ''hi'') True = hello" by (simp add: hello_def)
  have id: "0 \<le> sint (s_global_event_id chat_client)" by (simp add: chat_client_def SocketioClient_new_def)
  have p1: "prints say_text (Array [String ''say'', String ''hi''])" and p2: "prints say_text (?f ''say'' (String ''hi'') True)"
    by (simp_all add: prints_def say_text_def say_def hello_text_def hello_def)
  have n: "name_ok ''/chat''" by (simp add: name_ok_def)
  have e: "json_empty (String ''hi'') = False" and z: "json_size (?f ''say'' (String ''hi'') True) \<noteq> 0" by simp_all
  show ?thesis using event_and_ack_end_to_end [OF chat_ready chat_ready n id e p1 f z p2] unfolding reply .
qed

subsection \<open>Disconnecting and the timer of the connection\<close>

text \<open>
  In every state of a live client the packet with which the server disconnects a
  namespace makes it use the iterator of the socket it has just erased.
\<close>

lemma disconnect_packet_undefined:
  assumes "client_run J fi c0 out c" "m_client c = Http_alive" "name_ok ns"
  shows "client_do J fi (Ev_payload g (''41'' @ (if ns = ''/'' then [] else ns))) c = Inl Dangling_pointer"
proof -
  let ?p = "packet_typed type_disconnect ns Null" and ?tx = "''41'' @ (if ns = ''/'' then [] else ns)"
  have ok: "packet_ok J ?p" using assms(3)
    by (auto simp: packet_ok_def packet_typed_def packet_types nsp_ok_def name_ok_def int_max_def)
  have chars: "char_of (52 :: int) = CHR ''4''" "char_of (49 :: nat) = CHR ''1''" by code_simp+
  have "\<exists>q. encode_packet J ?p = Inr ([(False, ?tx)], q)"
    using assms(3) by (auto simp: encode_packet_def accept_def packet_typed_def packet_types settled_type_def itostr_def itostr_nat.simps
        name_ok_def Let_def chars)
  then have put: "put_payload J g ?tx q = Inr (Some (delivered ?p), q)" for q
    using packet_delivered [OF ok, of g q] by auto
  have d: "delivered ?p = packet_typed type_disconnect ns Null"
    using assms(3) by (simp add: delivered_def packet_typed_def packet_types settled_type_def name_ok_def)
  have inv: "sio_inv c" by (rule client_run_inv [OF assms(1)])
  obtain t where t: "Timer_Reset (m_ping_timeout_timer c) = Inr t" "usable t" using inv timer_laws(3) by (auto simp: sio_inv_def)
  let ?c = "(case map_of (m_sockets c) ns of Some s \<Rightarrow> c\<lparr>m_ping_timeout_timer := t\<rparr>
    | None \<Rightarrow> c\<lparr>m_ping_timeout_timer := t, m_sockets := AList.update ns (Socket_new ns) (m_sockets c)\<rparr>)"
  have c: "at True {} (c\<lparr>m_ping_timeout_timer := t\<rparr>)" using inv t(2) assms(2) by (auto simp: at_def sio_inv_def)
  have "socket_ok b (ns, Socket_new ns)" for b
    by (simp add: socket_ok_def Socket_new_def usable_def Timer_init_def uv_timer_init_def)
  then have "at True {ns} (c\<lparr>m_ping_timeout_timer := t, m_sockets := AList.update ns (Socket_new ns) (m_sockets c)\<rparr>)"
    using at_set [OF c, of ns "Socket_new ns"] by simp
  with c have "at True {ns} ?c" by (cases "map_of (m_sockets c) ns") (auto simp: at_def)
  then obtain s where s: "sio_inv ?c" "map_of (m_sockets ?c) ns = Some s" "m_nsp s = ns"
    using at_socket(2) [of True "{ns}" ?c ns] by (auto simp: at_def)
  have "on_payload J fi g ?tx c = Socket_on_message_packet J ns ?p ?c"
    using put d t(1) assms(3)
    by (simp add: on_payload_def acts on_decode_def get_socket_def socket_name_def name_ok_def packet_typed_def packet_types
        res_bind_def Let_def split: sum.splits prod.splits option.splits)
  also have "\<dots> = Inl Dangling_pointer"
    using on_close_fails [OF s(1,2)] s(2,3)
    by (simp add: Socket_on_message_packet_def acts get_type_def packet_typed_def packet_types)
  finally show ?thesis by (simp add: act_then_def)
qed

lemma disconnect_packet_undefined_witness:
  "\<exists>c0 out c. client_run hello_text (\<lambda>_. 0) c0 out c \<and> client_do hello_text (\<lambda>_. 0) (Ev_payload 0 ''41/chat'') c = Inl Dangling_pointer"
proof -
  let ?c = "SocketioClient_new ''host'' 80 Con_closed"
  have "case client_do hello_text (\<lambda>_. 0) (Ev_connect ''7'') ?c of Inl e \<Rightarrow> False | Inr (out, c) \<Rightarrow> m_client c = Http_alive"
    by (simp add: acts client_connect_def client_reset_def sendHandshakeRequest_def SocketioClient_new_def Timer_init_def
        uv_timer_init_def Timer_Stop_def uv_timer_stop_def uv_use_def)
  then obtain out c where step: "client_do hello_text (\<lambda>_. 0) (Ev_connect ''7'') ?c = Inr (out, c)" "m_client c = Http_alive"
    by (auto split: sum.splits)
  have run: "client_run hello_text (\<lambda>_. 0) ?c ([] @ out) c"
    by (rule client_run.run_step [OF client_run.run_start _ step(1)]) simp
  have "name_ok ''/chat''" by (simp add: name_ok_def)
  from disconnect_packet_undefined [OF run step(2) this, of 0] run show ?thesis by (auto simp del: client_do.simps)
qed

text \<open>What a namespace is asked for and answered with.\<close>

lemma connect_packet:
  assumes "name_ok ns" "ns \<noteq> ''/''"
  shows "\<exists>q. encode_packet J (packet_typed type_connect ns Null) = Inr ([(False, ''40'' @ ns)], q)"
    and "put_payload J g (''40'' @ ns) q = Inr (Some (packet_typed type_connect ns Null), q)"
proof -
  let ?p = "packet_typed type_connect ns Null"
  have ok: "packet_ok J ?p" using assms
    by (auto simp: packet_ok_def packet_typed_def packet_types nsp_ok_def name_ok_def int_max_def)
  have chars: "char_of (52 :: int) = CHR ''4''" "char_of (48 :: nat) = CHR ''0''" by code_simp+
  show e: "\<exists>q. encode_packet J ?p = Inr ([(False, ''40'' @ ns)], q)"
    using assms by (auto simp: encode_packet_def accept_def packet_typed_def packet_types settled_type_def itostr_def itostr_nat.simps
        name_ok_def Let_def chars)
  have "delivered ?p = ?p"
    using assms by (simp add: delivered_def packet_typed_def packet_types settled_type_def name_ok_def)
  then show "put_payload J g (''40'' @ ns) q = Inr (Some ?p, q)"
    using packet_delivered [OF ok, of g q] e by auto
qed

lemma io_arms_root:
  assumes "ready ''/'' s c" "name_ok ns" "ns \<noteq> ''/''" "map_of (m_sockets c) ns = None"
  shows "\<exists>c1 s1. client_io J ns c = Inr ([Sent (''40'' @ ns)], c1) \<and> map_of (m_sockets c1) = (map_of (m_sockets c))(''/'' \<mapsto> s1, ns \<mapsto> Socket_new ns) \<and>
    armed (m_connection_timer s1) = Some (20000, 0) \<and> m_timer_cb s1 = Cb_timeout_connection \<and> m_client c1 = Http_alive"
proof -
  obtain q where q: "encode_packet J (packet_typed type_connect ns Null) = Inr ([(False, ''40'' @ ns)], q)"
    using connect_packet(1) [OF assms(2,3)] by blast
  have "usable (m_connection_timer s)" using assms(1) at_socket(1) [of True "{''/''}" c "''/''" s] by (auto simp: ready_def at_def)
  then obtain t where t: "Timer_Start 20000 0 (m_connection_timer s) = Inr t" "armed t = Some (20000, 0)"
    using Timer_Start_usable by blast
  have name: "socket_name ns = ns" using assms(2) by (simp add: socket_name_def name_ok_def)
  show ?thesis
    using send_ready [OF assms(1) q] assms name t
    by (simp add: client_io_def get_socket_def socket_name_def acts Socket_send_connect_def ready_def name_ok_def Let_def update_conv')
      (auto simp: put_socket_def update_conv' fun_eq_iff)
qed

lemma socket_timer_keeps:
  assumes "sio_inv c" "map_of (m_sockets c) k = Some s" "f (m_connection_timer s) = Inr t" "usable t"
  shows "socket_timer k f c = Inr ([], put_socket k (s\<lparr>m_connection_timer := t\<rparr>) c) \<and>
    sio_inv (put_socket k (s\<lparr>m_connection_timer := t\<rparr>) c)"
proof -
  have c: "at False {k} c" using assms(1,2) by (auto simp: at_def)
  have "socket_ok (m_client c = Http_alive) (k, s\<lparr>m_connection_timer := t\<rparr>)"
    using at_socket [OF c assms(2)] assms(4) by (simp add: socket_ok_def)
  from at_set [OF c this] have "sio_inv (put_socket k (s\<lparr>m_connection_timer := t\<rparr>) c)" unfolding put_socket_def at_def by blast
  moreover have "socket_timer k f c = Inr ([], put_socket k (s\<lparr>m_connection_timer := t\<rparr>) c)"
    using assms(3) by (simp add: socket_timer_def with_socket_def assms(2) act_res_def set_socket_def act_upd_def put_socket_def)
  ultimately show ?thesis by blast
qed

lemma connection_due_closes:
  assumes "sio_inv c" "map_of (m_sockets c) k = Some s" "m_timer_cb s = Cb_timeout_connection"
  shows "client_do J fi (Ev_connection_due k) c = Inl Dangling_pointer"
proof -
  have "at False {k} c" using assms(1,2) by (auto simp: at_def)
  then have u: "usable (m_connection_timer s)" using assms(2) by (rule at_socket)
  have d: "usable (Timer_due (m_connection_timer s))" using timer_laws(4) [OF u] by simp
  let ?s1 = "s\<lparr>m_connection_timer := Timer_due (m_connection_timer s)\<rparr>"
  note due = socket_timer_keeps [OF assms(1,2), of "\<lambda>t. Inr (Timer_due t)", OF refl d]
  obtain t where t: "Timer_Reset (Timer_due (m_connection_timer s)) = Inr t" "usable t" using timer_laws(3) [OF d] by blast
  have s1: "map_of (m_sockets (put_socket k ?s1 c)) k = Some ?s1" by simp
  have inv: "sio_inv (put_socket k ?s1 c)" using due by blast
  have r: "Timer_Reset (m_connection_timer ?s1) = Inr t" using t(1) by simp
  note reset = socket_timer_keeps [where f = Timer_Reset, OF inv s1 r t(2)]
  have inv2: "sio_inv (put_socket k (?s1\<lparr>m_connection_timer := t\<rparr>) (put_socket k ?s1 c))" using reset by blast
  have "Socket_on_close k (put_socket k (?s1\<lparr>m_connection_timer := t\<rparr>) (put_socket k ?s1 c)) = Inl Dangling_pointer"
    by (rule on_close_fails [OF inv2]) simp
  then show ?thesis using due reset assms(3) by (simp add: act_then_def with_socket_def timeout_connection_def)
qed

text \<open>
  C18: When a further namespace (one not opened before) is opened on a client whose root
  socket is connected with nothing waiting, the timer of 20 seconds that waits for the answer
  is that of the root socket: the answer for the namespace, which arrives and connects it,
  does not stop the timer, and when it is due the root socket is closed through the iterator
  of the map entry that has just been erased.
\<close>

theorem io_timer_never_stopped:
  assumes "ready ''/'' s c" "name_ok ns" "ns \<noteq> ''/''" "map_of (m_sockets c) ns = None"
  shows "\<exists>c1 c2. client_do J fi (Ev_io ns) c = Inr ([Sent (''40'' @ ns)], c1) \<and> client_do J fi (Ev_payload g (''40'' @ ns)) c1 = Inr ([], c2) \<and>
    enabled (Ev_connection_due ''/'') c2 \<and> client_do J fi (Ev_connection_due ''/'') c2 = Inl Dangling_pointer"
proof -
  obtain c1 s1 where io: "client_io J ns c = Inr ([Sent (''40'' @ ns)], c1)"
      "map_of (m_sockets c1) = (map_of (m_sockets c))(''/'' \<mapsto> s1, ns \<mapsto> Socket_new ns)"
    and s1: "armed (m_connection_timer s1) = Some (20000, 0)" "m_timer_cb s1 = Cb_timeout_connection" "m_client c1 = Http_alive"
    using io_arms_root [OF assms(1-4)] by blast
  have inv1: "at True {} c1"
    using io_triple [of True "{}" J ns] assms(1) io(1) by (fastforce simp: triple_def at_def ready_def)
  obtain t where t: "Timer_Reset (m_ping_timeout_timer c1) = Inr t" using inv1 timer_laws(3) by (auto simp: at_def sio_inv_def)
  let ?s = "(Socket_new ns)\<lparr>m_connected := True\<rparr>" and ?c = "c1\<lparr>m_ping_timeout_timer := t\<rparr>"
  let ?c2 = "put_socket ns ?s (put_socket ns (Socket_new ns) ?c)"
  have name: "socket_name ns = ns" using assms(2) by (simp add: socket_name_def name_ok_def)
  have "on_payload J fi g (''40'' @ ns) c1 = Socket_on_connected J ns ?c"
    using connect_packet(2) [OF assms(2,3)] t io(2) name
    by (simp add: on_payload_def acts on_decode_def get_socket_def packet_typed_def packet_types res_bind_def Let_def
        Socket_on_message_packet_def get_type_def Socket_new_def split: sum.splits prod.splits)
  also have "\<dots> = Inr ([], ?c2)"
    using io(2)
    by (simp add: Socket_on_connected_def acts Socket_new_def Timer_init_def uv_timer_init_def Timer_Stop_def uv_timer_stop_def
        uv_use_def Socket_open_simp put_socket_def update_conv')
  finally have pay: "on_payload J fi g (''40'' @ ns) c1 = Inr ([], ?c2)" .
  then have payload: "client_do J fi (Ev_payload g (''40'' @ ns)) c1 = Inr ([], ?c2)"
    using s1(3) by (simp add: act_then_def http_returns_alive)
  have inv2: "sio_inv ?c2" using payload_triple [of J fi g "''40'' @ ns"] inv1 pay by (fastforce simp: triple_def at_def)
  have root: "map_of (m_sockets ?c2) ''/'' = Some s1" using io(2) assms(3) by simp
  then have "enabled (Ev_connection_due ''/'') ?c2" using s1(1) by simp
  moreover have "client_do J fi (Ev_connection_due ''/'') ?c2 = Inl Dangling_pointer"
    using connection_due_closes [OF inv2 root s1(2)] by simp
  ultimately show ?thesis using io(1) payload by auto
qed


definition root_client :: client where
  "root_client = (SocketioClient_new ''host'' 80 Con_opening)\<lparr>m_client := Http_alive,
     m_sockets := [(''/'', (Socket_new ''/'')\<lparr>m_connected := True\<rparr>)]\<rparr>"

theorem io_timer_never_stopped_witness:
  "\<exists>c1 c2. client_do hello_text (\<lambda>_. 0) (Ev_io ''/chat'') root_client = Inr ([Sent ''40/chat''], c1) \<and>
    client_do hello_text (\<lambda>_. 0) (Ev_payload 0 ''40/chat'') c1 = Inr ([], c2) \<and>
    enabled (Ev_connection_due ''/'') c2 \<and> client_do hello_text (\<lambda>_. 0) (Ev_connection_due ''/'') c2 = Inl Dangling_pointer"
proof -
  have r: "ready ''/'' ((Socket_new ''/'')\<lparr>m_connected := True\<rparr>) root_client"
    by (simp add: ready_def sio_inv_def root_client_def SocketioClient_new_def Socket_new_def usable_def Timer_init_def
        uv_timer_init_def socket_ok_def)
  have n: "name_ok ''/chat''" "''/chat'' \<noteq> ''/''" by (simp_all add: name_ok_def)
  have "map_of (m_sockets root_client) ''/chat'' = None" by (simp add: root_client_def)
  from io_timer_never_stopped [OF r n this, of hello_text "\<lambda>_. 0" 0] show ?thesis by (simp del: client_do.simps enabled.simps)
qed

end
