(* ===== verification/Udp_Server.thy ===== *)
theory Udp_Server
  imports Byte_Order String_Util Event_Timer
begin

text \<open>
  The server half of the upload of files over UDP (\<open>net/awsuploadudp/hmUdpServer.cpp\<close>, the object it
  makes of the rows in \<open>awsS3upload.cpp\<close>, the packets of \<open>net/awsupload/udpUpload.h\<close> and \<open>tcpUpload.h\<close>).
  A client sends a header and the rows of its file as datagrams, which may be lost, repeated or
  reordered; the server keeps the rows that arrive in order and answers over TCP.
\<close>

subsection \<open>Packets\<close>

definition UdpDataSize :: nat where "UdpDataSize = 1024"
definition serverCount :: nat where "serverCount = 512 * 1024"

text \<open>The object representation of the structures: three bytes of padding follow the type.\<close>

definition sizeof_Packet :: nat where "sizeof_Packet = 12 + UdpDataSize"
definition sizeof_TcpPacket :: nat where "sizeof_TcpPacket = 8"

record Packet =
  pk_type :: byte
  pk_number :: u32
  pk_len :: u32
  pk_payload :: "byte list"

definition Packet_load :: "bool \<Rightarrow> byte list \<Rightarrow> Packet" where
  "Packet_load big data =
     \<lparr>pk_type = data ! 0, pk_number = load32 big (take 4 (drop 4 data)), pk_len = load32 big (take 4 (drop 8 data)),
      pk_payload = drop 12 data\<rparr>"

text \<open>
  The bytes of a packet that is filled in on the stack: \<open>stack\<close> is what the memory of the structure holds
  before, and stays in the padding and behind the payload.
\<close>

definition Packet_bytes :: "bool \<Rightarrow> byte list \<Rightarrow> byte \<Rightarrow> u32 \<Rightarrow> u32 \<Rightarrow> byte list \<Rightarrow> byte list" where
  "Packet_bytes big stack ty number len bytes =
     [ty] @ take 3 (drop 1 stack) @ mem32 big number @ mem32 big len @ bytes @ drop (12 + length bytes) stack"

lemma length_Packet_bytes [sizes]:
  "length stack = sizeof_Packet \<Longrightarrow> length bytes \<le> UdpDataSize \<Longrightarrow>
   length (Packet_bytes big stack ty number len bytes) = sizeof_Packet"
  by (simp add: Packet_bytes_def sizeof_Packet_def UdpDataSize_def)

lemma Packet_load_bytes [roundtrips]:
  assumes "length stack = sizeof_Packet" "length bytes \<le> UdpDataSize"
  shows "Packet_load big (Packet_bytes big stack ty number len bytes) =
    \<lparr>pk_type = ty, pk_number = number, pk_len = len, pk_payload = bytes @ drop (12 + length bytes) stack\<rparr>"
  using assms
  by (simp add: Packet_load_def Packet_bytes_def sizeof_Packet_def UdpDataSize_def numeral_eq_Suc)

subsection \<open>Memory\<close>

text \<open>
  The server's storage is an anonymous mapping of \<open>serverCount * UdpDataSize\<close> bytes, zero at first. The row
  number is an \<open>unsigned int\<close>, and so is the product.
\<close>

type_synonym memory = "nat \<Rightarrow> byte"

definition capacity :: nat where "capacity = serverCount * UdpDataSize"

definition storage_row :: "u32 \<Rightarrow> nat" where
  "storage_row n = unat (n * of_nat UdpDataSize)"

definition mem_write :: "memory \<Rightarrow> nat \<Rightarrow> byte list \<Rightarrow> memory" where
  "mem_write mem offset bs = (\<lambda>a. if offset \<le> a \<and> a < offset + length bs then bs ! (a - offset) else mem a)"

definition mem_read :: "memory \<Rightarrow> nat \<Rightarrow> nat \<Rightarrow> byte list" where
  "mem_read mem offset len = map mem [offset..<offset + len]"

lemma length_mem_read [simp]: "length (mem_read mem offset len) = len"
  by (simp add: mem_read_def)

lemma mem_read_write: "len \<le> length bs \<Longrightarrow> mem_read (mem_write mem offset bs) offset len = take len bs"
  by (rule nth_equalityI) (auto simp: mem_read_def mem_write_def)

lemma mem_read_write_other:
  "offset + len \<le> offset' \<or> offset' + length bs \<le> offset \<Longrightarrow>
   mem_read (mem_write mem offset' bs) offset len = mem_read mem offset len"
  by (auto simp: mem_read_def mem_write_def)

lemma mem_read_append: "mem_read mem offset (m + n) = mem_read mem offset m @ mem_read mem (offset + m) n"
  using upt_add_eq_append [of offset "offset + m" n] by (simp add: mem_read_def add.assoc)

lemma take_mem_read: "m \<le> n \<Longrightarrow> take m (mem_read mem offset n) = mem_read mem offset m"
  by (simp add: mem_read_def take_map)

lemma storage_row_small: "unat n < serverCount \<Longrightarrow> storage_row n = unat n * UdpDataSize"
  by (simp add: storage_row_def serverCount_def UdpDataSize_def unat_word_ariths)

subsection \<open>The server\<close>

text \<open>
  \<open>tcpConn\<close> is uninitialised until the port is given to a client; a connection is a handle, and whether its
  object still lives is asked of \<open>live\<close>.
\<close>

record hmUdpServer =
  serverstorage :: memory
  freePort :: bool
  tcpConn :: "nat option"
  m_ping_timeout_timer :: Timer
  curPtr :: int
  waitingPtr :: int
  lastPacketNo :: u32
  lastPacketLen :: u32
  driverId :: string
  metadata :: string
  sharedS3File :: string

datatype effect =
    Tcp_send nat byte u32
  | S3_put string "byte list"
  | Db_put string string string

type_synonym 's step = "'s \<Rightarrow> ('s \<times> effect list) res"

definition act :: "('s \<Rightarrow> 's) \<Rightarrow> 's step" where
  "act f s = Inr (f s, [])"

definition step_then :: "'s step \<Rightarrow> 's step \<Rightarrow> 's step" where
  "step_then f g s = res_bind (f s) (\<lambda>(s1, out1). res_bind (g s1) (\<lambda>(s2, out2). Inr (s2, out1 @ out2)))"

lemmas step_simps = act_def step_then_def

definition hmUdpServer_init :: hmUdpServer where
  "hmUdpServer_init =
     \<lparr>serverstorage = (\<lambda>_. 0), freePort = True, tcpConn = None, m_ping_timeout_timer = Timer_init, curPtr = - 1,
      waitingPtr = - 1, lastPacketNo = 0, lastPacketLen = 0, driverId = [], metadata = [], sharedS3File = []\<rparr>"

definition server_timer :: "(Timer \<Rightarrow> Timer res) \<Rightarrow> hmUdpServer step" where
  "server_timer f s = res_bind (f (m_ping_timeout_timer s)) (\<lambda>t. Inr (s\<lparr>m_ping_timeout_timer := t\<rparr>, []))"

definition resetUdpServer :: "hmUdpServer step" where
  "resetUdpServer =
     step_then (server_timer Timer_Stop) (act (\<lambda>s. s\<lparr>freePort := True, waitingPtr := - 1, lastPacketNo := 0\<rparr>))"

text \<open>The timer is due: its callback is \<open>resetUdpServer\<close>. While it is not started nothing happens.\<close>

definition udp_timeout :: "hmUdpServer step" where
  "udp_timeout s =
     (if armed (m_ping_timeout_timer s) = None then Inr (s, [])
      else step_then (server_timer (\<lambda>t. Inr (Timer_due t))) resetUdpServer s)"

definition sendTcpPacket :: "(nat \<Rightarrow> bool) \<Rightarrow> byte \<Rightarrow> u32 \<Rightarrow> hmUdpServer step" where
  "sendTcpPacket live ty payload s =
     (case tcpConn s of
        None \<Rightarrow> Inl Undefined_behaviour
      | Some c \<Rightarrow> if live c then Inr (s, [Tcp_send c ty payload]) else Inl Dangling_pointer)"

text \<open>
  \<open>put_s3_object_async\<close>: the rows before the last one in full, then the last one's bytes. The counts are
  \<open>int\<close>; a negative length writes nothing.
\<close>

definition put_s3_object_async :: "memory \<Rightarrow> u32 \<Rightarrow> u32 \<Rightarrow> byte list res" where
  "put_s3_object_async mem lastNo lastLen =
     (let n = nat (sint lastNo); len = nat (sint lastLen); rows = map (\<lambda>i. storage_row (of_nat i)) [0..<n] in
      if (\<exists>r \<in> set rows. capacity < r + UdpDataSize) \<or> capacity < storage_row lastNo + len then Inl Undefined_behaviour
      else Inr (concat (map (\<lambda>r. mem_read mem r UdpDataSize) rows) @ mem_read mem (storage_row lastNo) len))"

definition savetoS3 :: "hmUdpServer step" where
  "savetoS3 s =
     res_bind (put_s3_object_async (serverstorage s) (lastPacketNo s) (lastPacketLen s))
       (\<lambda>object. Inr (s, [S3_put (c_str (sharedS3File s @ ''.mp4'')) object]))"

definition savetoDB :: "hmUdpServer step" where
  "savetoDB s = Inr (s, [Db_put (driverId s) (sharedS3File s) (metadata s)])"

subsection \<open>OnUdpSocketPacketReceived\<close>

text \<open>The header. The payload is a C string: without a NUL it is read past its end.\<close>

definition on_header :: "int \<Rightarrow> Packet \<Rightarrow> hmUdpServer step" where
  "on_header now p s =
     (if 0 \<notin> set (pk_payload p) then Inl Undefined_behaviour
      else let tmp = split_char (c_str (string_of (pk_payload p))) CHR '';'' 1;
               s1 = (if length tmp > 1
                     then s\<lparr>driverId := tmp ! 0, metadata := tmp ! 1, sharedS3File := tmp ! 0 @ ''_'' @ itostr now\<rparr>
                     else s)
           in server_timer (Timer_Start 60000 60000) (s1\<lparr>curPtr := 0, lastPacketNo := pk_number p - 1\<rparr>))"

text \<open>A row that is the next one is stored: \<open>memcpy\<close> of the length the packet claims.\<close>

definition store_row :: "Packet \<Rightarrow> hmUdpServer step" where
  "store_row p s =
     (let row = storage_row (word_of_int (curPtr s)); len = unat (pk_len p) in
      if length (pk_payload p) < len \<or> capacity < row + len then Inl Undefined_behaviour
      else Inr (s\<lparr>serverstorage := mem_write (serverstorage s) row (take len (pk_payload p)),
                  curPtr := curPtr s + 1, waitingPtr := - 1, freePort := False\<rparr>, []))"

definition percent :: "int \<Rightarrow> int \<Rightarrow> int" where
  "percent cur tenth = sint (word_of_int (10 * (cur div tenth)) :: 32 word)"

definition report :: "(nat \<Rightarrow> bool) \<Rightarrow> Packet \<Rightarrow> int \<Rightarrow> hmUdpServer step" where
  "report live p tenth s =
     step_then (if percent (curPtr s) tenth \<noteq> 100 then sendTcpPacket live 3 (pk_number p) else act id)
       (server_timer Timer_Reset) s"

text \<open>What follows a stored row: the upload is over, or its progress is told.\<close>

definition progress :: "(nat \<Rightarrow> bool) \<Rightarrow> Packet \<Rightarrow> hmUdpServer step" where
  "progress live p s =
     (if curPtr s > int (unat (lastPacketNo s)) then
        step_then (sendTcpPacket live 3 (pk_number p))
          (step_then (act (\<lambda>s. s\<lparr>lastPacketLen := pk_len p\<rparr>))
            (step_then savetoS3 (step_then savetoDB (server_timer Timer_Reset)))) s
      else let tenth = int (unat ((lastPacketNo s + 1) div 10)) in
        if tenth = 0 then Inl Division_by_zero
        else if curPtr s mod tenth = 0 then report live p tenth s
        else if curPtr s > 1001 \<and> curPtr s mod 1001 = 0 then report live p tenth s
        else act id s)"

definition wait_for :: "(nat \<Rightarrow> bool) \<Rightarrow> int \<Rightarrow> byte \<Rightarrow> u32 \<Rightarrow> hmUdpServer step" where
  "wait_for live ptr ty payload = step_then (act (\<lambda>s. s\<lparr>waitingPtr := ptr\<rparr>)) (sendTcpPacket live ty payload)"

definition on_row :: "(nat \<Rightarrow> bool) \<Rightarrow> Packet \<Rightarrow> hmUdpServer step" where
  "on_row live p s =
     (let number = int (unat (pk_number p)); cur = curPtr s in
      if number = cur then step_then (store_row p) (progress live p) s
      else if waitingPtr s > - 1 then act id s
      else if number < cur then wait_for live cur 3 (word_of_int cur) s
      else if cur = - 1 \<or> lastPacketNo s = 0 then
        step_then (sendTcpPacket live 4 0) (act (\<lambda>s. s\<lparr>waitingPtr := 0\<rparr>)) s
      else if number > cur then step_then (wait_for live cur 2 (word_of_int cur)) (server_timer Timer_Reset) s
      else progress live p s)"

definition OnUdpSocketPacketReceived :: "bool \<Rightarrow> (nat \<Rightarrow> bool) \<Rightarrow> int \<Rightarrow> byte list \<Rightarrow> hmUdpServer step" where
  "OnUdpSocketPacketReceived big live now data s =
     (if length data \<noteq> sizeof_Packet then Inr (s, [])
      else let p = Packet_load big data in
        if pk_type p = 0 then on_header now p s
        else if pk_type p = 1 then on_row live p s
        else Inr (s, []))"


subsection \<open>What is saved\<close>

text \<open>The objects among the effects, and what the packets of a client that uploads \<open>F\<close> hold.\<close>

fun saved :: "effect list \<Rightarrow> byte list list" where
  "saved [] = []"
| "saved (S3_put name object # es) = object # saved es"
| "saved (_ # es) = saved es"

lemma saved_append [simp]: "saved (a @ b) = saved a @ saved b"
  by (induction a rule: saved.induct) auto

definition packets_of :: "byte list \<Rightarrow> nat" where
  "packets_of F = (length F + UdpDataSize - 1) div UdpDataSize"

definition file_row :: "byte list \<Rightarrow> nat \<Rightarrow> byte list" where
  "file_row F k = take UdpDataSize (drop (k * UdpDataSize) F)"

definition row_packet :: "byte list \<Rightarrow> nat \<Rightarrow> Packet \<Rightarrow> bool" where
  "row_packet F k p =
     (pk_type p = 1 \<and> pk_number p = of_nat k \<and> pk_len p = of_nat (length (file_row F k)) \<and>
      length (pk_payload p) = UdpDataSize \<and> take (length (file_row F k)) (pk_payload p) = file_row F k)"

definition header_packet :: "byte list \<Rightarrow> Packet \<Rightarrow> bool" where
  "header_packet F p = (pk_type p = 0 \<and> pk_number p = of_nat (packets_of F) \<and> 0 \<in> set (pk_payload p))"

text \<open>The rows before \<open>k\<close> are in the storage.\<close>

definition has_rows :: "byte list \<Rightarrow> nat \<Rightarrow> memory \<Rightarrow> bool" where
  "has_rows F k mem = (mem_read mem 0 (length (take (k * UdpDataSize) F)) = take (k * UdpDataSize) F)"

definition upload_inv :: "(nat \<Rightarrow> bool) \<Rightarrow> byte list \<Rightarrow> hmUdpServer \<Rightarrow> bool" where
  "upload_inv live F s =
     (usable (m_ping_timeout_timer s) \<and> (\<exists>c. tcpConn s = Some c \<and> live c) \<and>
      (curPtr s = - 1 \<or>
       (\<exists>k \<le> packets_of F. curPtr s = int k \<and> lastPacketNo s = of_nat (packets_of F) - 1 \<and>
          has_rows F k (serverstorage s))))"

definition fits :: "byte list \<Rightarrow> bool" where
  "fits F = (F \<noteq> [] \<and> packets_of F \<le> serverCount)"

lemma packets_pos: "F \<noteq> [] \<Longrightarrow> 0 < packets_of F"
  by (cases F) (simp_all add: packets_of_def UdpDataSize_def)

lemma packets_cover: "length F \<le> packets_of F * UdpDataSize"
  by (simp add: packets_of_def UdpDataSize_def)

lemma row_before_end: "k < packets_of F \<Longrightarrow> k * UdpDataSize < length F"
  by (simp add: packets_of_def UdpDataSize_def)

lemma length_file_row: "length (file_row F k) \<le> UdpDataSize"
  by (simp add: file_row_def)

lemma length_file_row_full: "Suc k < packets_of F \<Longrightarrow> length (file_row F k) = UdpDataSize"
  using row_before_end [of "Suc k" F] by (simp add: file_row_def UdpDataSize_def)

lemma has_rows_0 [simp]: "has_rows F 0 mem"
  by (simp add: has_rows_def mem_read_def)

lemma has_rows_Suc:
  assumes "has_rows F k mem" "k < packets_of F"
  shows "has_rows F (Suc k) (mem_write mem (k * UdpDataSize) (file_row F k))"
proof -
  let ?o = "k * UdpDataSize" and ?m = "mem_write mem (k * UdpDataSize) (file_row F k)"
  have len: "length (take ?o F) = ?o" using row_before_end [OF assms(2)] by simp
  have split: "take (Suc k * UdpDataSize) F = take ?o F @ file_row F k"
    by (simp add: file_row_def take_add add.commute flip: take_add)
  have "mem_read ?m 0 ?o = take ?o F"
    using assms(1) len by (simp add: has_rows_def mem_read_write_other)
  moreover have "mem_read ?m ?o (length (file_row F k)) = file_row F k" by (simp add: mem_read_write)
  ultimately show ?thesis unfolding has_rows_def split length_append len mem_read_append by simp
qed

lemma concat_rows:
  "concat (map (\<lambda>i. mem_read mem (i * UdpDataSize) UdpDataSize) [0..<m]) = mem_read mem 0 (m * UdpDataSize)"
  by (induction m) (simp_all add: mem_read_append mem_read_def [of _ _ 0] flip: add.commute [of "_ * UdpDataSize"])

lemma word_counts:
  assumes "n \<le> serverCount"
  shows "unat (of_nat n :: u32) = n" "sint (of_nat n :: u32) = int n"
    "0 < n \<Longrightarrow> unat (of_nat n - 1 :: u32) = n - 1" "0 < n \<Longrightarrow> (of_nat n - 1 :: u32) = of_nat (n - 1)"
proof -
  have n: "n < 2 ^ 31" using assms by (simp add: serverCount_def)
  have small: "k < 2 ^ 31 \<Longrightarrow> unat (of_nat k :: u32) = k" for k by (simp add: unat_of_nat take_bit_eq_mod)
  show "unat (of_nat n :: u32) = n" by (rule small [OF n])
  show "sint (of_nat n :: u32) = int n" using n by (simp add: signed_of_nat signed_take_bit_int_eq_self)
  show m: "0 < n \<Longrightarrow> (of_nat n - 1 :: u32) = of_nat (n - 1)" by (simp add: of_nat_diff)
  show "0 < n \<Longrightarrow> unat (of_nat n - 1 :: u32) = n - 1"
    by (simp only: m) (rule small, use n in simp)
qed


subsection \<open>One packet\<close>

text \<open>The header begins the upload, whatever was received before.\<close>

lemma header_step:
  assumes "upload_inv live F s" "header_packet F p" "fits F"
  shows "\<exists>s'. on_header now p s = Inr (s', []) \<and> upload_inv live F s' \<and> curPtr s' = 0"
proof -
  obtain c where c: "tcpConn s = Some c" "live c" using assms(1) by (auto simp: upload_inv_def)
  have u: "usable (m_ping_timeout_timer s)" using assms(1) by (simp add: upload_inv_def)
  from Timer_Start_usable [OF u, of 60000 60000]
  obtain t where t: "Timer_Start 60000 60000 (m_ping_timeout_timer s) = Inr t" "usable t" by blast
  show ?thesis using assms(2) c t
    by (simp add: on_header_def header_packet_def server_timer_def upload_inv_def Let_def)
qed

lemma sendTcpPacket_live:
  "tcpConn s = Some c \<Longrightarrow> live c \<Longrightarrow> sendTcpPacket live ty v s = Inr (s, [Tcp_send c ty v])"
  by (simp add: sendTcpPacket_def)

lemma server_timer_Reset:
  "usable (m_ping_timeout_timer s) \<Longrightarrow>
   \<exists>t. server_timer Timer_Reset s = Inr (s\<lparr>m_ping_timeout_timer := t\<rparr>, []) \<and> usable t"
  using Timer_Reset_usable [of "m_ping_timeout_timer s"] by (fastforce simp: server_timer_def)

text \<open>The object made of the storage when all rows are in it is the file.\<close>

lemma put_file:
  assumes "has_rows F (packets_of F) mem" "fits F"
  shows "put_s3_object_async mem (of_nat (packets_of F) - 1) (of_nat (length (file_row F (packets_of F - 1)))) = Inr F"
proof -
  let ?n = "packets_of F" and ?m = "packets_of F - 1" and ?l = "length (file_row F (packets_of F - 1))"
  have n: "?n \<le> serverCount" "0 < ?n" using assms(2) packets_pos by (auto simp: fits_def)
  have m: "?m \<le> serverCount" "?m < serverCount" using n by auto
  have l: "?l \<le> serverCount" using length_file_row [of F ?m] by (simp add: UdpDataSize_def serverCount_def)
  have rows: "i \<le> ?m \<Longrightarrow> storage_row (of_nat i) = i * UdpDataSize" for i
    using n storage_row_small [of "of_nat i"] word_counts(1) [of i] by auto
  have last: "length F = ?m * UdpDataSize + ?l"
    using row_before_end [of ?m F] n packets_cover [of F] by (simp add: file_row_def UdpDataSize_def)
  have cap: "i \<le> ?m \<Longrightarrow> i * UdpDataSize + UdpDataSize \<le> capacity" for i
    using m mult_le_mono1 [of "Suc i" serverCount UdpDataSize] by (simp add: capacity_def add.commute)
  have "\<not> capacity < ?m * UdpDataSize + ?l" using cap [of ?m] length_file_row [of F ?m] by simp
  moreover have objects: "map (\<lambda>i. storage_row (of_nat i)) [0..<?m] = map (\<lambda>i. i * UdpDataSize) [0..<?m]"
    using rows by simp
  moreover have "\<not> (\<exists>r \<in> set (map (\<lambda>i. i * UdpDataSize) [0..<?m]). capacity < r + UdpDataSize)"
    using cap by (auto simp: not_less)
  moreover have "concat (map (\<lambda>r. mem_read mem r UdpDataSize) (map (\<lambda>i. storage_row (of_nat i)) [0..<?m])) =
      mem_read mem 0 (?m * UdpDataSize)"
    using concat_rows [of mem ?m] unfolding objects by (simp add: o_def)
  moreover have "mem_read mem 0 (?m * UdpDataSize) @ mem_read mem (?m * UdpDataSize) ?l = F"
    using assms(1) last packets_cover [of F] mem_read_append [of mem 0 "?m * UdpDataSize" ?l] by (simp add: has_rows_def)
  ultimately show ?thesis
    using rows [of ?m] by (simp add: put_s3_object_async_def Let_def word_counts [OF n(1)] word_counts [OF m(1)]
      word_counts [OF l] n del: One_nat_def map_map)
qed


lemma store_row_step:
  assumes "curPtr s = int k" "k < packets_of F" "fits F" "row_packet F k p"
  shows "store_row p s =
    Inr (s\<lparr>serverstorage := mem_write (serverstorage s) (k * UdpDataSize) (file_row F k), curPtr := int (Suc k),
            waitingPtr := - 1, freePort := False\<rparr>, [])"
proof -
  have k: "k < serverCount" using assms(2,3) by (simp add: fits_def)
  have row: "storage_row (of_nat k) = k * UdpDataSize"
    using storage_row_small [of "of_nat k"] word_counts(1) [of k] k by simp
  have l: "length (file_row F k) \<le> serverCount" using length_file_row [of F k] by (simp add: UdpDataSize_def serverCount_def)
  have "k * UdpDataSize + UdpDataSize \<le> capacity"
    using mult_le_mono1 [of "Suc k" serverCount UdpDataSize] k by (simp add: capacity_def add.commute)
  then have "\<not> capacity < k * UdpDataSize + length (file_row F k)" using length_file_row [of F k] by linarith
  then show ?thesis
    using assms(1,4) row length_file_row [of F k]
    by (simp add: store_row_def row_packet_def Let_def word_counts(1) [OF l] add.commute)
qed

lemma report_step:
  assumes "tcpConn s = Some c" "live c" "usable (m_ping_timeout_timer s)"
  shows "\<exists>t out. report live p tenth s = Inr (s\<lparr>m_ping_timeout_timer := t\<rparr>, out) \<and> usable t \<and> saved out = []"
proof -
  from server_timer_Reset [of s] assms(3)
  obtain t where "server_timer Timer_Reset s = Inr (s\<lparr>m_ping_timeout_timer := t\<rparr>, [])" "usable t" by blast
  then show ?thesis
    by (intro exI [of _ t] exI [of _ "if percent (curPtr s) tenth \<noteq> 100 then [Tcp_send c 3 (pk_number p)] else []"])
      (simp add: report_def step_simps sendTcpPacket_live assms(1,2))
qed

lemma progress_within:
  assumes "tcpConn s = Some c" "live c" "usable (m_ping_timeout_timer s)" "fits F" "10 \<le> packets_of F"
    "curPtr s = int k" "k < packets_of F" "lastPacketNo s = of_nat (packets_of F) - 1"
  shows "\<exists>t out. progress live p s = Inr (s\<lparr>m_ping_timeout_timer := t\<rparr>, out) \<and> usable t \<and> saved out = []"
proof -
  have n: "packets_of F \<le> serverCount" "0 < packets_of F" using assms(4) packets_pos by (auto simp: fits_def)
  have "unat ((lastPacketNo s + 1) div 10) = packets_of F div 10"
    by (simp add: assms(8) unat_div word_counts(1) [OF n(1)])
  then have "int (unat ((lastPacketNo s + 1) div 10)) \<noteq> 0" using assms(5) by simp
  moreover have "\<not> int (unat (lastPacketNo s)) < curPtr s"
    using assms(6,7) by (simp add: assms(8) word_counts(3) [OF n])
  moreover have "act id s = Inr (s\<lparr>m_ping_timeout_timer := m_ping_timeout_timer s\<rparr>, [])" by (simp add: act_def)
  ultimately have "progress live p s \<in> {report live p (int (unat ((lastPacketNo s + 1) div 10))) s,
      Inr (s\<lparr>m_ping_timeout_timer := m_ping_timeout_timer s\<rparr>, [])}"
    unfolding progress_def Let_def by auto
  then consider (told) "progress live p s = report live p (int (unat ((lastPacketNo s + 1) div 10))) s"
    | (quiet) "progress live p s = Inr (s\<lparr>m_ping_timeout_timer := m_ping_timeout_timer s\<rparr>, [])" by blast
  then show ?thesis
  proof cases
    case told
    then show ?thesis using report_step [where live = live, OF assms(1-3)] by simp
  next
    case quiet
    then show ?thesis using assms(3) by (intro exI [of _ "m_ping_timeout_timer s"] exI [of _ "[]"]) simp
  qed
qed

lemma progress_undefined:
  assumes "fits F" "packets_of F < 10" "curPtr s = int k" "k < packets_of F" "lastPacketNo s = of_nat (packets_of F) - 1"
  shows "progress live p s = Inl Division_by_zero"
proof -
  have n: "packets_of F \<le> serverCount" "0 < packets_of F" using assms(1) packets_pos by (auto simp: fits_def)
  have "unat ((lastPacketNo s + 1) div 10) = 0"
    using assms(2) by (simp add: assms(5) unat_div word_counts(1) [OF n(1)])
  moreover have "\<not> int (unat (lastPacketNo s)) < curPtr s"
    using assms(3,4) by (simp add: assms(5) word_counts(3) [OF n])
  ultimately show ?thesis by (simp add: progress_def Let_def)
qed

lemma progress_over:
  assumes "tcpConn s = Some c" "live c" "usable (m_ping_timeout_timer s)" "fits F"
    "curPtr s = int (packets_of F)" "lastPacketNo s = of_nat (packets_of F) - 1"
    "has_rows F (packets_of F) (serverstorage s)" "row_packet F (packets_of F - 1) p"
  shows "\<exists>t out. progress live p s = Inr (s\<lparr>lastPacketLen := pk_len p, m_ping_timeout_timer := t\<rparr>, out) \<and> usable t \<and>
    saved out = [F] \<and> Tcp_send c 3 (of_nat (packets_of F - 1)) \<in> set out"
proof -
  let ?s = "s\<lparr>lastPacketLen := pk_len p\<rparr>"
  have n: "packets_of F \<le> serverCount" "0 < packets_of F" using assms(4) packets_pos by (auto simp: fits_def)
  have over: "int (unat (lastPacketNo s)) < curPtr s" using n(2) by (simp add: assms(5,6) word_counts(3) [OF n])
  have save: "savetoS3 ?s = Inr (?s, [S3_put (c_str (sharedS3File s @ ''.mp4'')) F])"
    using put_file [OF assms(7,4)] assms(8) by (simp add: savetoS3_def row_packet_def assms(6))
  from server_timer_Reset [of ?s] assms(3)
  obtain t where t: "server_timer Timer_Reset ?s = Inr (?s\<lparr>m_ping_timeout_timer := t\<rparr>, [])" "usable t" by auto
  let ?out = "[Tcp_send c 3 (pk_number p), S3_put (c_str (sharedS3File s @ ''.mp4'')) F,
    Db_put (driverId s) (sharedS3File s) (metadata s)]"
  have "progress live p s = Inr (?s\<lparr>m_ping_timeout_timer := t\<rparr>, ?out)"
    using over t save by (simp add: progress_def step_simps sendTcpPacket_live assms(1,2) savetoDB_def)
  then show ?thesis using t(2) assms(8) by (intro exI [of _ t] exI [of _ ?out]) (simp add: row_packet_def)
qed


text \<open>A row in its turn is stored; the last one saves the file and is acknowledged.\<close>

definition at_row :: "(nat \<Rightarrow> bool) \<Rightarrow> byte list \<Rightarrow> nat \<Rightarrow> hmUdpServer \<Rightarrow> bool" where
  "at_row live F k s = (upload_inv live F s \<and> curPtr s = int k)"

definition told :: "nat option \<Rightarrow> u32 \<Rightarrow> effect list \<Rightarrow> bool" where
  "told c v out = (case c of None \<Rightarrow> False | Some c \<Rightarrow> Tcp_send c 3 v \<in> set out)"

lemma at_rowE:
  assumes "at_row live F k s"
  obtains c where "tcpConn s = Some c" "live c" "usable (m_ping_timeout_timer s)" "curPtr s = int k"
    "lastPacketNo s = of_nat (packets_of F) - 1" "has_rows F k (serverstorage s)" "k \<le> packets_of F"
  using assms by (auto simp: at_row_def upload_inv_def)

lemma at_rowI:
  assumes "tcpConn s = Some c" "live c" "usable (m_ping_timeout_timer s)" "curPtr s = int k"
    "lastPacketNo s = of_nat (packets_of F) - 1" "has_rows F k (serverstorage s)" "k \<le> packets_of F"
  shows "at_row live F k s"
  using assms by (auto simp: at_row_def upload_inv_def)

lemma row_in_order:
  assumes "at_row live F k s" "k < packets_of F" "fits F" "row_packet F k p" "Suc k = packets_of F \<or> 10 \<le> packets_of F"
  shows "\<exists>s' out. on_row live p s = Inr (s', out) \<and> at_row live F (Suc k) s' \<and> tcpConn s' = tcpConn s \<and>
    saved out = (if Suc k = packets_of F then [F] else []) \<and>
    (if Suc k = packets_of F then told (tcpConn s) (of_nat k) out else True)"
proof -
  obtain c where c: "tcpConn s = Some c" "live c" "usable (m_ping_timeout_timer s)" and cur: "curPtr s = int k"
    and n: "lastPacketNo s = of_nat (packets_of F) - 1" and rows: "has_rows F k (serverstorage s)"
    using assms(1) by (rule at_rowE)
  define s1 where "s1 = s\<lparr>serverstorage := mem_write (serverstorage s) (k * UdpDataSize) (file_row F k),
    curPtr := int (Suc k), waitingPtr := - 1, freePort := False\<rparr>"
  have store: "store_row p s = Inr (s1, [])" unfolding s1_def by (rule store_row_step [OF cur assms(2-4)])
  have "k \<le> serverCount" using assms(2,3) by (simp add: fits_def)
  then have turn: "on_row live p s = progress live p s1"
    using assms(4) cur store by (simp add: on_row_def row_packet_def word_counts(1) step_then_def res_bind_def split: sum.splits)
  have s1: "tcpConn s1 = Some c" "usable (m_ping_timeout_timer s1)" "curPtr s1 = int (Suc k)"
    "lastPacketNo s1 = of_nat (packets_of F) - 1" "has_rows F (Suc k) (serverstorage s1)"
    using c n has_rows_Suc [OF rows assms(2)] by (simp_all add: s1_def)
  show ?thesis
  proof (cases "Suc k = packets_of F")
    case True
    then have "packets_of F - 1 = k" by simp
    then obtain t out where "progress live p s1 = Inr (s1\<lparr>lastPacketLen := pk_len p, m_ping_timeout_timer := t\<rparr>, out)"
      "usable t" "saved out = [F]" "Tcp_send c 3 (of_nat k) \<in> set out"
      using progress_over [where live = live, OF s1(1) c(2) s1(2) assms(3), of p] s1 True assms(4) by auto
    then show ?thesis using turn c s1 True
      by (intro exI [of _ "s1\<lparr>lastPacketLen := pk_len p, m_ping_timeout_timer := t\<rparr>"] exI [of _ out])
        (auto simp: at_row_def upload_inv_def told_def)
  next
    case False
    then have k: "Suc k < packets_of F" "10 \<le> packets_of F" using assms(2,5) by auto
    obtain t out where "progress live p s1 = Inr (s1\<lparr>m_ping_timeout_timer := t\<rparr>, out)" "usable t" "saved out = []"
      using progress_within [where live = live, OF s1(1) c(2) s1(2) assms(3) k(2) s1(3) k(1) s1(4)] by blast
    moreover from this have "at_row live F (Suc k) (s1\<lparr>m_ping_timeout_timer := t\<rparr>)"
      using c s1 k by (intro at_rowI [where c = c]) simp_all
    ultimately show ?thesis using turn c s1 False
      by (intro exI [of _ "s1\<lparr>m_ping_timeout_timer := t\<rparr>"] exI [of _ out]) simp
  qed
qed

lemma row_small_file:
  assumes "at_row live F k s" "Suc k < packets_of F" "packets_of F < 10" "fits F" "row_packet F k p"
  shows "on_row live p s = Inl Division_by_zero"
proof -
  obtain c where cur: "curPtr s = int k" and n: "lastPacketNo s = of_nat (packets_of F) - 1"
    using assms(1) by (rule at_rowE)
  define s1 where "s1 = s\<lparr>serverstorage := mem_write (serverstorage s) (k * UdpDataSize) (file_row F k),
    curPtr := int (Suc k), waitingPtr := - 1, freePort := False\<rparr>"
  have k: "k < packets_of F" using assms(2) by simp
  have store: "store_row p s = Inr (s1, [])" unfolding s1_def by (rule store_row_step [OF cur k assms(4,5)])
  have "progress live p s1 = Inl Division_by_zero"
    by (rule progress_undefined [OF assms(4,3) _ assms(2)]) (simp_all add: s1_def n)
  moreover have "k \<le> serverCount" using k assms(4) by (simp add: fits_def)
  ultimately show ?thesis
    using assms(5) cur store by (simp add: on_row_def row_packet_def word_counts(1) step_then_def res_bind_def)
qed


text \<open>Any other row leaves the storage alone.\<close>

lemma row_out_of_turn:
  assumes "tcpConn s = Some c" "live c" "usable (m_ping_timeout_timer s)"
    "row_packet F k p" "k < packets_of F" "fits F" "curPtr s \<noteq> int k"
  shows "\<exists>w t out. on_row live p s = Inr (s\<lparr>waitingPtr := w, m_ping_timeout_timer := t\<rparr>, out) \<and> usable t \<and> saved out = []"
proof -
  have "k \<le> serverCount" using assms(5,6) by (simp add: fits_def)
  then have "unat (pk_number p) = k" using assms(4) by (simp add: row_packet_def word_counts(1))
  then have number: "uint (pk_number p) = int k" by (simp add: uint_nat)
  let ?w = "\<lambda>q. s\<lparr>waitingPtr := q\<rparr>" and ?t = "m_ping_timeout_timer s"
  have told: "sendTcpPacket live ty v (?w q) = Inr (?w q, [Tcp_send c ty v])"
    "sendTcpPacket live ty v s = Inr (s, [Tcp_send c ty v])" for ty v q
    using assms(1,2) by (simp_all add: sendTcpPacket_def)
  from server_timer_Reset [of "?w (curPtr s)"] assms(3)
  obtain t where t: "server_timer Timer_Reset (?w (curPtr s)) = Inr ((?w (curPtr s))\<lparr>m_ping_timeout_timer := t\<rparr>, [])"
    "usable t" by auto
  have same: "s = s\<lparr>waitingPtr := waitingPtr s, m_ping_timeout_timer := ?t\<rparr>"
    "?w q = s\<lparr>waitingPtr := q, m_ping_timeout_timer := ?t\<rparr>" for q by simp_all
  consider "waitingPtr s > - 1" | "\<not> waitingPtr s > - 1" "int k < curPtr s"
    | "\<not> waitingPtr s > - 1" "\<not> int k < curPtr s" "curPtr s = - 1 \<or> lastPacketNo s = 0"
    | "\<not> waitingPtr s > - 1" "curPtr s < int k" "\<not> (curPtr s = - 1 \<or> lastPacketNo s = 0)"
    using assms(7) by linarith
  then show ?thesis
  proof cases
    case 1
    then show ?thesis using assms(3,7) number
      by (intro exI [of _ "waitingPtr s"] exI [of _ ?t] exI [of _ "[]"]) (simp add: on_row_def step_simps Let_def)
  next
    case 2
    then show ?thesis using assms(3,7) number told
      by (intro exI [of _ "curPtr s"] exI [of _ ?t] exI [of _ "[Tcp_send c 3 (word_of_int (curPtr s))]"])
        (simp add: on_row_def wait_for_def step_simps Let_def)
  next
    case 3
    then show ?thesis using assms(3,7) number told
      by (intro exI [of _ 0] exI [of _ ?t] exI [of _ "[Tcp_send c 4 0]"]) (simp add: on_row_def wait_for_def step_simps Let_def)
  next
    case 4
    then show ?thesis using assms(7) number told t
      by (intro exI [of _ "curPtr s"] exI [of _ t] exI [of _ "[Tcp_send c 2 (word_of_int (curPtr s))]"])
        (simp add: on_row_def wait_for_def step_simps Let_def)
  qed
qed

text \<open>
  What a datagram of the client's does to a server that has been given to it: nothing goes wrong but the
  division when the file has fewer than ten rows, and only the file is ever saved.
\<close>

definition client_packet :: "byte list \<Rightarrow> Packet \<Rightarrow> bool" where
  "client_packet F p = (header_packet F p \<or> (\<exists>k < packets_of F. row_packet F k p))"

lemma packet_step:
  assumes "upload_inv live F s" "client_packet F (Packet_load big data)" "fits F" "length data = sizeof_Packet"
  shows "OnUdpSocketPacketReceived big live now data s = Inl Division_by_zero \<and> 1 < packets_of F \<and> packets_of F < 10 \<or>
    (\<exists>s' out. OnUdpSocketPacketReceived big live now data s = Inr (s', out) \<and> upload_inv live F s' \<and>
       set (saved out) \<subseteq> {F})"
proof -
  let ?p = "Packet_load big data"
  consider (header) "header_packet F ?p" | (row) k where "k < packets_of F" "row_packet F k ?p"
    using assms(2) by (auto simp: client_packet_def)
  then show ?thesis
  proof cases
    case header
    then show ?thesis
      using header_step [OF assms(1) header assms(3), of now] assms(4)
      by (auto simp: OnUdpSocketPacketReceived_def header_packet_def)
  next
    case row
    then have recv: "OnUdpSocketPacketReceived big live now data s = on_row live ?p s"
      using assms(4) by (simp add: OnUdpSocketPacketReceived_def row_packet_def Let_def)
    show ?thesis
    proof (cases "curPtr s = int k")
      case False
      obtain c where c: "tcpConn s = Some c" "live c" "usable (m_ping_timeout_timer s)" using assms(1) by (auto simp: upload_inv_def)
      from row_out_of_turn [where live = live, OF c row(2,1) assms(3) False] recv obtain w t out where
        out: "OnUdpSocketPacketReceived big live now data s = Inr (s\<lparr>waitingPtr := w, m_ping_timeout_timer := t\<rparr>, out)" "usable t" "saved out = []"
        by auto
      then have "upload_inv live F (s\<lparr>waitingPtr := w, m_ping_timeout_timer := t\<rparr>)" using assms(1) by (simp add: upload_inv_def)
      then show ?thesis using out by auto
    next
      case True
      then have k: "at_row live F k s" using assms(1) by (simp add: at_row_def)
      show ?thesis
      proof (cases "Suc k = packets_of F \<or> 10 \<le> packets_of F")
        case True
        then show ?thesis
          using row_in_order [OF k row(1) assms(3) row(2)] recv by (fastforce simp: at_row_def split: if_splits)
      next
        case False
        then show ?thesis
          using row_small_file [OF k _ _ assms(3) row(2)] row(1) recv by simp
      qed
    qed
  qed
qed


subsection \<open>A port that is used again\<close>

text \<open>What a freed port keeps: the position and the rows of the client before.\<close>

definition take_port :: "nat \<Rightarrow> hmUdpServer \<Rightarrow> hmUdpServer" where
  "take_port c s = s\<lparr>freePort := False, tcpConn := Some c\<rparr>"

lemma reset_step:
  "usable (m_ping_timeout_timer s) \<Longrightarrow>
   \<exists>t. usable t \<and> resetUdpServer s =
     Inr (s\<lparr>m_ping_timeout_timer := t, freePort := True, waitingPtr := - 1, lastPacketNo := 0\<rparr>, [])"
  using Timer_Stop_usable [of "m_ping_timeout_timer s"]
  by (fastforce simp: resetUdpServer_def step_simps server_timer_def)

subsubsection \<open>The timer during an upload\<close>

text \<open>After the timer the number of rows is forgotten, the position is not.\<close>

definition expired_inv :: "(nat \<Rightarrow> bool) \<Rightarrow> byte list \<Rightarrow> hmUdpServer \<Rightarrow> bool" where
  "expired_inv live F s = (lastPacketNo s = 0 \<and> upload_inv live F (s\<lparr>lastPacketNo := of_nat (packets_of F) - 1\<rparr>))"

lemma timeout_step:
  assumes "upload_inv live F s \<or> expired_inv live F s"
  shows "\<exists>s'. udp_timeout s = Inr (s', []) \<and> (upload_inv live F s' \<or> expired_inv live F s')"
proof (cases "armed (m_ping_timeout_timer s) = None")
  case False
  let ?s = "s\<lparr>m_ping_timeout_timer := Timer_due (m_ping_timeout_timer s)\<rparr>"
  have "usable (Timer_due (m_ping_timeout_timer s))"
    using assms by (auto simp: upload_inv_def expired_inv_def Timer_due_def usable_def split: option.splits)
  then obtain t where "usable t" "resetUdpServer ?s = Inr (?s\<lparr>m_ping_timeout_timer := t, freePort := True, waitingPtr := - 1, lastPacketNo := 0\<rparr>, [])"
    using reset_step [of ?s] by auto
  then show ?thesis using assms False
    by (auto simp: udp_timeout_def step_then_def server_timer_def expired_inv_def upload_inv_def)
qed (use assms in \<open>simp add: udp_timeout_def\<close>)

text \<open>Every row that is next is now taken for the last: the beginning of the file is saved as the whole.\<close>

lemma row_expired:
  assumes "expired_inv live F s" "curPtr s = int k" "k < packets_of F" "fits F" "row_packet F k p"
  shows "\<exists>s' out. on_row live p s = Inr (s', out) \<and> expired_inv live F s' \<and> saved out = [take (length (file_row F k)) F]"
proof -
  let ?l = "length (file_row F k)" and ?N = "of_nat (packets_of F) - 1 :: u32"
  obtain c where c: "tcpConn s = Some c" "live c" and rows: "has_rows F k (serverstorage s)"
    using assms(1,2) by (auto simp: expired_inv_def upload_inv_def)
  define s1 where "s1 = s\<lparr>serverstorage := mem_write (serverstorage s) (k * UdpDataSize) (file_row F k),
    curPtr := int (Suc k), waitingPtr := - 1, freePort := False\<rparr>"
  have rows1: "has_rows F (Suc k) (serverstorage s1)" using has_rows_Suc [OF rows assms(3)] by (simp add: s1_def)
  have store: "store_row p s = Inr (s1, [])" unfolding s1_def by (rule store_row_step [OF assms(2-5)])
  have "k \<le> serverCount" using assms(3,4) by (simp add: fits_def)
  then have turn: "on_row live p s = progress live p s1"
    using assms(5,2) store by (simp add: on_row_def row_packet_def word_counts(1) step_then_def res_bind_def split: sum.splits)
  have l: "?l \<le> serverCount" "?l \<le> UdpDataSize" using length_file_row [of F k] by (simp_all add: UdpDataSize_def serverCount_def)
  have le: "?l \<le> length (take (Suc k * UdpDataSize) F)" "?l \<le> Suc k * UdpDataSize"
    using row_before_end [OF assms(3)] by (auto simp: file_row_def)
  have "mem_read (serverstorage s1) 0 ?l = take ?l (take (Suc k * UdpDataSize) F)"
    using rows1 take_mem_read [OF le(1), of "serverstorage s1" 0] by (simp add: has_rows_def)
  then have object: "put_s3_object_async (serverstorage s1) 0 (pk_len p) = Inr (take ?l F)"
    using assms(5) l le(2)
    by (simp add: put_s3_object_async_def row_packet_def word_counts(2) [OF l(1)] storage_row_def capacity_def UdpDataSize_def serverCount_def min_def)
  let ?s2 = "s1\<lparr>lastPacketLen := pk_len p\<rparr>"
  have s1: "tcpConn s1 = Some c" "lastPacketNo s1 = 0" "usable (m_ping_timeout_timer ?s2)" "curPtr s1 = int (Suc k)"
    using assms(1) c by (simp_all add: s1_def expired_inv_def upload_inv_def)
  from server_timer_Reset [OF s1(3)]
  obtain t where t: "server_timer Timer_Reset ?s2 = Inr (?s2\<lparr>m_ping_timeout_timer := t\<rparr>, [])" "usable t" by blast
  have "savetoS3 ?s2 = Inr (?s2, [S3_put (c_str (sharedS3File s1 @ ''.mp4'')) (take ?l F)])"
    using object s1(2) by (simp add: savetoS3_def)
  moreover have "sendTcpPacket live 3 (pk_number p) s1 = Inr (s1, [Tcp_send c 3 (pk_number p)])"
    using s1(1) c(2) by (simp add: sendTcpPacket_def)
  moreover have "int (unat (lastPacketNo s1)) < curPtr s1" by (simp add: s1(2,4))
  ultimately have "progress live p s1 = Inr (?s2\<lparr>m_ping_timeout_timer := t\<rparr>, [Tcp_send c 3 (pk_number p),
      S3_put (c_str (sharedS3File s1 @ ''.mp4'')) (take ?l F), Db_put (driverId s1) (sharedS3File s1) (metadata s1)])"
    using t(1) by (simp add: progress_def step_simps savetoDB_def)
  moreover have "\<exists>m\<le>packets_of F. curPtr s1 = int m \<and> has_rows F m (serverstorage s1)"
    using s1(4) rows1 assms(3) by (intro exI [of _ "Suc k"]) simp
  then have "expired_inv live F (?s2\<lparr>m_ping_timeout_timer := t\<rparr>)"
    using s1(1,2) c(2) t(2) by (simp add: expired_inv_def upload_inv_def)
  ultimately show ?thesis using turn by auto
qed

lemma expired_packet_step:
  assumes "expired_inv live F s" "client_packet F (Packet_load big data)" "fits F" "length data = sizeof_Packet"
  shows "\<exists>s' out. OnUdpSocketPacketReceived big live now data s = Inr (s', out) \<and> (upload_inv live F s' \<or> expired_inv live F s') \<and>
    (\<forall>x\<in>set (saved out). \<exists>n\<le>UdpDataSize. x = take n F)"
proof -
  let ?p = "Packet_load big data" and ?s = "s\<lparr>lastPacketNo := of_nat (packets_of F) - 1\<rparr>"
  have inv: "upload_inv live F ?s" using assms(1) by (simp add: expired_inv_def)
  consider (header) "header_packet F ?p" | (row) k where "k < packets_of F" "row_packet F k ?p"
    using assms(2) by (auto simp: client_packet_def)
  then show ?thesis
  proof cases
    case header
    have "on_header now ?p s = on_header now ?p ?s" by (simp add: on_header_def server_timer_def Let_def)
    then show ?thesis
      using header_step [OF inv header assms(3), of now] header assms(4)
      by (auto simp: OnUdpSocketPacketReceived_def header_packet_def)
  next
    case row
    then have recv: "OnUdpSocketPacketReceived big live now data s = on_row live ?p s"
      using assms(4) by (simp add: OnUdpSocketPacketReceived_def row_packet_def Let_def)
    show ?thesis
    proof (cases "curPtr s = int k")
      case True
      then show ?thesis using row_expired [OF assms(1) True row(1) assms(3) row(2)] recv length_file_row [of F k] by fastforce
    next
      case False
      obtain c where c: "tcpConn s = Some c" "live c" "usable (m_ping_timeout_timer s)" using inv by (auto simp: upload_inv_def)
      from row_out_of_turn [where live = live, OF c row(2,1) assms(3) False] obtain w t out where
        out: "on_row live ?p s = Inr (s\<lparr>waitingPtr := w, m_ping_timeout_timer := t\<rparr>, out)" "usable t" "saved out = []" by auto
      then have "expired_inv live F (s\<lparr>waitingPtr := w, m_ping_timeout_timer := t\<rparr>)"
        using assms(1) by (simp add: expired_inv_def upload_inv_def)
      then show ?thesis using out recv by auto
    qed
  qed
qed

subsubsection \<open>Another client\<close>

text \<open>
  When an upload ends after its row k without being completed, and the port is given to
  another client whose header is lost, the row k of the new file makes the server save the
  beginning of the old file as a complete upload, under the old name.
\<close>

theorem stale_session_saves_old_rows:
  assumes "at_row live F k s" "0 < k" "k < packets_of F" "fits F" "resetUdpServer s = Inr (s0, out0)" "live c"
    "fits G" "k < packets_of G" "row_packet G k (Packet_load big data)" "length data = sizeof_Packet"
  shows "\<exists>s' out. OnUdpSocketPacketReceived big live now data (take_port c s0) = Inr (s', out) \<and>
    S3_put (c_str (sharedS3File s @ ''.mp4'')) (take (length (file_row G k)) F) \<in> set out"
proof -
  let ?p = "Packet_load big data" and ?l = "length (file_row G k)"
  obtain cur: "curPtr s = int k" and rows: "has_rows F k (serverstorage s)" and u: "usable (m_ping_timeout_timer s)"
    using assms(1) by (rule at_rowE)
  obtain t where t: "usable t"
    "s0 = s\<lparr>m_ping_timeout_timer := t, freePort := True, waitingPtr := - 1, lastPacketNo := 0\<rparr>"
    using reset_step [OF u] assms(5) by auto
  define mem where "mem = mem_write (serverstorage s) (k * UdpDataSize) (file_row G k)"
  define s1 where "s1 = (take_port c s0)\<lparr>serverstorage := mem, curPtr := int (Suc k), waitingPtr := - 1, freePort := False\<rparr>"
  have store: "store_row ?p (take_port c s0) = Inr (s1, [])"
    unfolding s1_def mem_def using store_row_step [of "take_port c s0" k G ?p] assms(7-9) cur t by (simp add: take_port_def)
  have l: "?l \<le> serverCount" "?l \<le> UdpDataSize" using length_file_row [of G k] by (simp_all add: UdpDataSize_def serverCount_def)
  have before: "k * UdpDataSize < length F" "?l \<le> k * UdpDataSize"
    using row_before_end [OF assms(3)] l(2) assms(2) by (auto simp: gr0_conv_Suc)
  have "mem_read (serverstorage s) 0 (k * UdpDataSize) = take (k * UdpDataSize) F"
    using rows before by (simp add: has_rows_def)
  then have "mem_read (serverstorage s) 0 ?l = take ?l F"
    using take_mem_read [of ?l "k * UdpDataSize" "serverstorage s" 0] before by simp
  then have object: "put_s3_object_async mem 0 (pk_len ?p) = Inr (take ?l F)"
    using assms(9) before mem_read_write_other [of 0 ?l "k * UdpDataSize" "file_row G k" "serverstorage s"] l
    by (simp add: put_s3_object_async_def row_packet_def word_counts(2) [OF l(1)] mem_def storage_row_def
      capacity_def UdpDataSize_def serverCount_def)
  let ?s2 = "s1\<lparr>lastPacketLen := pk_len ?p\<rparr>"
  have "usable (m_ping_timeout_timer ?s2)" using t by (simp add: s1_def take_port_def)
  from server_timer_Reset [OF this]
  obtain t' where "server_timer Timer_Reset ?s2 = Inr (?s2\<lparr>m_ping_timeout_timer := t'\<rparr>, [])" by blast
  moreover have "savetoS3 ?s2 = Inr (?s2, [S3_put (c_str (sharedS3File s @ ''.mp4'')) (take ?l F)])"
    using object by (simp add: savetoS3_def s1_def take_port_def t)
  moreover have "sendTcpPacket live 3 (pk_number ?p) s1 = Inr (s1, [Tcp_send c 3 (pk_number ?p)])"
    using assms(6) by (simp add: sendTcpPacket_def s1_def take_port_def)
  moreover have "int (unat (lastPacketNo s1)) < curPtr s1" by (simp add: s1_def take_port_def t)
  ultimately obtain s' out where "progress live ?p s1 = Inr (s', out)"
    "S3_put (c_str (sharedS3File s @ ''.mp4'')) (take ?l F) \<in> set out"
    by (fastforce simp: progress_def step_simps savetoDB_def)
  moreover have "k \<le> serverCount" using assms(7,8) by (simp add: fits_def)
  ultimately show ?thesis
    using assms(9,10) store cur t
    by (simp add: OnUdpSocketPacketReceived_def on_row_def row_packet_def word_counts(1) step_then_def res_bind_def take_port_def)
qed

text \<open>An upload that stopped after the first of its two rows.\<close>

lemma mem_read_const: "mem_read (\<lambda>_. b) offset n = replicate n b"
  by (simp add: mem_read_def map_replicate_const)

definition stopped_upload :: hmUdpServer where
  "stopped_upload = hmUdpServer_init\<lparr>serverstorage := (\<lambda>_. 7), freePort := False, tcpConn := Some 1, curPtr := 1,
     lastPacketNo := 1, sharedS3File := ''a_1''\<rparr>"

lemma stopped_upload_at: "at_row (\<lambda>_. True) (replicate 2048 7) 1 stopped_upload"
  by (rule at_rowI)
    (simp_all add: stopped_upload_def hmUdpServer_init_def Timer_init_def usable_def uv_timer_init_def packets_of_def
      UdpDataSize_def has_rows_def mem_read_const)

lemma two_rows:
  "fits (replicate 2048 b)" "packets_of (replicate 2048 b) = 2" "file_row (replicate 2048 b) 1 = replicate 1024 b"
  by (simp_all add: fits_def packets_of_def file_row_def UdpDataSize_def serverCount_def)

theorem stale_session_saves_old_rows_witness:
  "\<exists>s0 s' out. resetUdpServer stopped_upload = Inr (s0, []) \<and>
     OnUdpSocketPacketReceived False (\<lambda>_. True) 0
       (Packet_bytes False (replicate sizeof_Packet 0) 1 1 1024 (replicate 1024 8)) (take_port 2 s0) = Inr (s', out) \<and>
     S3_put ''a_1.mp4'' (replicate 1024 7) \<in> set out"
proof -
  have u: "usable (m_ping_timeout_timer stopped_upload)" using stopped_upload_at by (rule at_rowE)
  obtain s0 where s0: "resetUdpServer stopped_upload = Inr (s0, [])" using reset_step [OF u] by blast
  have p: "row_packet (replicate 2048 8) 1
      (Packet_load False (Packet_bytes False (replicate sizeof_Packet 0) 1 1 1024 (replicate 1024 8)))"
    by (subst Packet_load_bytes)
      (simp_all add: row_packet_def two_rows [unfolded One_nat_def] UdpDataSize_def sizeof_Packet_def)
  have l: "length (Packet_bytes False (replicate sizeof_Packet 0) 1 1 1024 (replicate 1024 8)) = sizeof_Packet"
    by (rule length_Packet_bytes) (simp_all add: UdpDataSize_def)
  have "S3_put (c_str (sharedS3File stopped_upload @ ''.mp4'')) (take (length (file_row (replicate 2048 8) 1)) (replicate 2048 7)) =
      S3_put ''a_1.mp4'' (replicate 1024 7)"
    by (simp add: two_rows [unfolded One_nat_def] stopped_upload_def c_str_def)
  then show ?thesis
    using s0 stale_session_saves_old_rows [where c = 2 and now = 0, OF stopped_upload_at _ _ two_rows(1) s0 _ two_rows(1) _ p l]
    by (simp add: two_rows)
qed

text \<open>
  A datagram of the size of a packet with a row in it, sent by anyone to a port that no client
  has been given yet, makes the server answer on a connection pointer that was never set.
\<close>

theorem stray_datagram_undefined:
  assumes "length data = sizeof_Packet" "data ! 0 = 1"
  shows "OnUdpSocketPacketReceived big live now data hmUdpServer_init = Inl Undefined_behaviour"
proof -
  have "\<not> uint x < - 1" "uint x \<noteq> - 1" for x :: u32 using uint_ge_0 [of x] by linarith+
  then show ?thesis
    using assms
    by (simp add: OnUdpSocketPacketReceived_def Packet_load_def on_row_def hmUdpServer_init_def sendTcpPacket_def
      step_then_def Let_def)
qed

theorem stray_datagram_undefined_witness:
  "OnUdpSocketPacketReceived False (\<lambda>_. True) 0 (replicate sizeof_Packet 1) hmUdpServer_init = Inl Undefined_behaviour"
  by (rule stray_datagram_undefined) (simp_all add: sizeof_Packet_def)

end
