(* ===== verification/Udp_Client.thy ===== *)
theory Udp_Client
  imports Udp_Server Floating
begin

text \<open>
  The sending half of the upload (\<open>net/awsuploadudp/hmUdpClient.cpp\<close>): a thread that sends the header and the
  rows of the file, while the TCP thread tells it where to go on. The two share atomics and a
  semaphore but no lock (\<open>restartUPload\<close> does not take the mutex), so the thread is modelled step by step, one atomic
  access each, and the other's accesses may come in between.
\<close>

subsection \<open>The packets\<close>

text \<open>\<open>memcpy\<close> of \<open>payloadsize\<close> bytes from \<open>source\<close> into the packet on the stack, whose memory was \<open>stack\<close>.\<close>

definition sendPacket :: "bool \<Rightarrow> byte list \<Rightarrow> byte \<Rightarrow> u32 \<Rightarrow> u32 \<Rightarrow> byte list \<Rightarrow> byte list res" where
  "sendPacket big stack ty payloadNo payloadsize source =
     (if UdpDataSize < unat payloadsize \<or> length source < unat payloadsize then Inl Undefined_behaviour
      else Inr (Packet_bytes big stack ty payloadNo payloadsize (take (unat payloadsize) source)))"

text \<open>
  \<open>(float)size\<close>: the nearest number of 24 significant bits, the even one of two. The division by 1024 and
  \<open>ceil\<close> are exact.
\<close>

definition to_float :: "nat \<Rightarrow> nat" where
  "to_float n =
     (if n < 2 ^ 24 then n
      else let unit = 2 ^ (bit_length n - 24); q = n div unit; r = n mod unit
           in if unit < 2 * r \<or> unit = 2 * r \<and> odd q then (q + 1) * unit else q * unit)"

definition packet_count :: "nat \<Rightarrow> u32" where
  "packet_count len = of_nat ((to_float len + UdpDataSize - 1) div UdpDataSize)"

subsection \<open>The thread\<close>

text \<open>Where the thread is in \<open>run\<close>, with the values it has read: a label stands before each access.\<close>

datatype pc =
    At_loop | At_header | At_header_send | At_row_test
  | At_full_test | At_full_number | At_full_row u32
  | At_last_test | At_last_len | At_last_number u32 | At_last_row u32 u32
  | At_inc | At_wait_test | At_wait | At_woken | At_end

record hmUdpClient =
  c_storage :: "byte list"
  c_driverId :: string
  c_metaData :: string
  c_lastPacketNo :: u32
  c_rem :: u32
  c_uploadedPacketNO :: u32
  c_restUpload :: bool
  c_sem :: nat
  c_stopped :: bool
  c_pc :: pc

text \<open>The constructor does not set \<open>restUpload\<close>; \<open>upload\<close> maps the file and counts its packets.\<close>

definition hmUdpClient_upload :: "bool \<Rightarrow> byte list \<Rightarrow> string \<Rightarrow> string \<Rightarrow> hmUdpClient" where
  "hmUdpClient_upload unset F driver meta =
     \<lparr>c_storage = F, c_driverId = driver, c_metaData = meta, c_lastPacketNo = packet_count (length F), c_rem = 0,
      c_uploadedPacketNO = 0, c_restUpload = unset, c_sem = 0, c_stopped = False, c_pc = At_loop\<rparr>"

definition client_row :: "hmUdpClient \<Rightarrow> u32 \<Rightarrow> byte list" where
  "client_row c n = drop (storage_row n) (c_storage c)"

definition sendHeader :: "bool \<Rightarrow> byte list \<Rightarrow> hmUdpClient \<Rightarrow> byte list list res" where
  "sendHeader big stack c =
     (if c_stopped c then Inr []
      else let mtTmp = c_driverId c @ '';'' @ c_metaData c
           in res_bind (sendPacket big stack 0 (c_lastPacketNo c) (of_nat (length mtTmp + 1)) (bytes_of mtTmp @ [0]))
                (\<lambda>d. Inr [d]))"

definition goto :: "pc \<Rightarrow> hmUdpClient \<Rightarrow> hmUdpClient" where
  "goto l c = c\<lparr>c_pc := l\<rparr>"

text \<open>One step of the thread and the datagrams it sends; a thread that waits or has ended stays.\<close>

definition thread_step :: "bool \<Rightarrow> byte list \<Rightarrow> hmUdpClient \<Rightarrow> (hmUdpClient \<times> byte list list) res" where
  "thread_step big stack c =
     (let n = c_lastPacketNo c; rem = c_rem c; go = (\<lambda>l. Inr (goto l c, [])) in
      case c_pc c of
        At_loop \<Rightarrow> go (if \<not> c_stopped c \<and> c_uploadedPacketNO c < n then At_header else At_end)
      | At_header \<Rightarrow> go (if rem = 0 then At_header_send else At_row_test)
      | At_header_send \<Rightarrow> res_bind (sendHeader big stack c) (\<lambda>ds. Inr (goto At_row_test c, ds))
      | At_row_test \<Rightarrow> go (if rem < n then At_full_test else At_inc)
      | At_full_test \<Rightarrow> go (if rem < n - 1 then At_full_number else At_last_test)
      | At_full_number \<Rightarrow> go (At_full_row rem)
      | At_full_row number \<Rightarrow>
          res_bind (sendPacket big stack 1 number (of_nat UdpDataSize) (client_row c rem))
            (\<lambda>d. Inr (goto At_inc c, [d]))
      | At_last_test \<Rightarrow> go (if rem < n then At_last_len else At_inc)
      | At_last_len \<Rightarrow> go (At_last_number (of_nat (length (c_storage c)) - rem * of_nat UdpDataSize))
      | At_last_number len \<Rightarrow> go (At_last_row len rem)
      | At_last_row len number \<Rightarrow>
          res_bind (sendPacket big stack 1 number len (client_row c rem)) (\<lambda>d. Inr (goto At_inc c, [d]))
      | At_inc \<Rightarrow> Inr (goto At_wait_test (c\<lparr>c_rem := rem + 1\<rparr>), [])
      | At_wait_test \<Rightarrow> go (if c_restUpload c \<or> c_uploadedPacketNO c < n \<and> rem > n then At_wait else At_loop)
      | At_wait \<Rightarrow> if c_sem c = 0 then Inr (c, []) else Inr (goto At_woken (c\<lparr>c_sem := c_sem c - 1\<rparr>), [])
      | At_woken \<Rightarrow> Inr (goto At_loop (c\<lparr>c_restUpload := False\<rparr>), [])
      | At_end \<Rightarrow> Inr (c, []))"

text \<open>The accesses of both threads, in the order they happen; \<open>restartUPload\<close> and \<open>shutdown\<close> are three and six of the other's.\<close>

datatype access =
    Run "byte list"
  | Set_restUpload bool
  | Set_rem u32
  | Post
  | Set_uploaded u32
  | Stop

definition restartUPload :: "u32 \<Rightarrow> access list" where
  "restartUPload uploaded = [Set_restUpload True, Set_rem uploaded, Post]"

definition hmUdpClient_shutdown :: "u32 \<Rightarrow> access list" where
  "hmUdpClient_shutdown lastNo = [Set_restUpload False, Stop] @ restartUPload lastNo"

fun client_access :: "bool \<Rightarrow> access \<Rightarrow> hmUdpClient \<Rightarrow> (hmUdpClient \<times> byte list list) res" where
  "client_access big (Run stack) c = thread_step big stack c"
| "client_access big (Set_restUpload b) c = Inr (c\<lparr>c_restUpload := b\<rparr>, [])"
| "client_access big (Set_rem v) c = Inr (c\<lparr>c_rem := v\<rparr>, [])"
| "client_access big Post c = Inr (c\<lparr>c_sem := Suc (c_sem c)\<rparr>, [])"
| "client_access big (Set_uploaded v) c = Inr (c\<lparr>c_uploadedPacketNO := v\<rparr>, [])"
| "client_access big Stop c = Inr (c\<lparr>c_stopped := True\<rparr>, [])"

fun client_run :: "bool \<Rightarrow> access list \<Rightarrow> hmUdpClient \<Rightarrow> (hmUdpClient \<times> byte list list) res" where
  "client_run big [] c = Inr (c, [])"
| "client_run big (a # as) c =
     res_bind (client_access big a c) (\<lambda>(c1, ds1). res_bind (client_run big as c1) (\<lambda>(c2, ds2). Inr (c2, ds1 @ ds2)))"

lemma client_run_append:
  "client_run big (as @ bs) c =
     res_bind (client_run big as c) (\<lambda>(c1, ds1). res_bind (client_run big bs c1) (\<lambda>(c2, ds2). Inr (c2, ds1 @ ds2)))"
  by (induction as arbitrary: c) (auto simp: res_bind_def split: sum.splits prod.splits)

subsection \<open>The number of packets\<close>

lemma packet_count_small:
  assumes "length F < 2 ^ 24"
  shows "packet_count (length F) = of_nat (packets_of F)"
  using assms by (simp add: packet_count_def to_float_def packets_of_def)

lemma packet_count_at_limit: "packet_count (2 ^ 24 + 1) = 2 ^ 14"
  by (simp add: packet_count_def to_float_def bit_length.simps UdpDataSize_def Let_def)


subsection \<open>Undisturbed sending\<close>

definition header_fits :: "hmUdpClient \<Rightarrow> bool" where
  "header_fits c = (length (c_driverId c) + length (c_metaData c) + 2 \<le> UdpDataSize)"

text \<open>A datagram of the client that uploads \<open>F\<close>.\<close>

definition datagram_of :: "bool \<Rightarrow> byte list \<Rightarrow> byte list \<Rightarrow> bool" where
  "datagram_of big F d = (length d = sizeof_Packet \<and> client_packet F (Packet_load big d))"

lemma sendPacket_fits:
  assumes "length stack = sizeof_Packet" "unat len \<le> UdpDataSize" "unat len \<le> length source"
  shows "\<exists>d. sendPacket big stack ty number len source = Inr d \<and> length d = sizeof_Packet \<and>
    Packet_load big d = \<lparr>pk_type = ty, pk_number = number, pk_len = len,
      pk_payload = take (unat len) source @ drop (12 + unat len) stack\<rparr>"
  using assms length_Packet_bytes [OF assms(1), of "take (unat len) source"]
    Packet_load_bytes [OF assms(1), of "take (unat len) source"]
  by (simp add: sendPacket_def)

lemma send_row:
  assumes "fits F" "k < packets_of F" "length stack = sizeof_Packet"
  shows "\<exists>d. sendPacket big stack 1 (of_nat k) (of_nat (length (file_row F k))) (drop (storage_row (of_nat k)) F) = Inr d \<and>
    length d = sizeof_Packet \<and> row_packet F k (Packet_load big d)"
proof -
  let ?l = "length (file_row F k)"
  have k: "k < serverCount" using assms(1,2) by (simp add: fits_def)
  have row: "storage_row (of_nat k) = k * UdpDataSize" using storage_row_small [of "of_nat k"] word_counts(1) [of k] k by simp
  have l: "?l \<le> serverCount" "?l \<le> UdpDataSize" using length_file_row [of F k] by (simp_all add: UdpDataSize_def serverCount_def)
  have u: "unat (of_nat ?l :: u32) = ?l" by (rule word_counts(1) [OF l(1)])
  have source: "?l \<le> length (drop (k * UdpDataSize) F)" "take ?l (drop (k * UdpDataSize) F) = file_row F k"
    by (simp_all add: file_row_def min_def)
  from sendPacket_fits [OF assms(3), of "of_nat ?l" "drop (k * UdpDataSize) F" big 1 "of_nat k"] u l(2) source
  obtain d where "sendPacket big stack 1 (of_nat k) (of_nat ?l) (drop (k * UdpDataSize) F) = Inr d"
    "length d = sizeof_Packet"
    "Packet_load big d = \<lparr>pk_type = 1, pk_number = of_nat k, pk_len = of_nat ?l,
       pk_payload = file_row F k @ drop (12 + ?l) stack\<rparr>" by auto
  then show ?thesis using l(2) assms(3) by (auto simp: row row_packet_def sizeof_Packet_def)
qed

lemma send_header:
  assumes "header_fits c" "length stack = sizeof_Packet" "c_lastPacketNo c = of_nat (packets_of F)" "\<not> c_stopped c"
  shows "\<exists>d. sendHeader big stack c = Inr [d] \<and> length d = sizeof_Packet \<and> header_packet F (Packet_load big d)"
proof -
  let ?m = "c_driverId c @ '';'' @ c_metaData c"
  have l: "length ?m + 1 \<le> UdpDataSize" using assms(1) by (simp add: header_fits_def)
  then have u: "unat (of_nat (length ?m + 1) :: u32) = length ?m + 1"
    by (intro word_counts(1)) (simp add: UdpDataSize_def serverCount_def)
  from sendPacket_fits [OF assms(2), of "of_nat (length ?m + 1)" "bytes_of ?m @ [0]" big 0 "c_lastPacketNo c"] u l
  obtain d where "sendPacket big stack 0 (c_lastPacketNo c) (of_nat (length ?m + 1)) (bytes_of ?m @ [0]) = Inr d"
    "length d = sizeof_Packet"
    "Packet_load big d = \<lparr>pk_type = 0, pk_number = c_lastPacketNo c, pk_len = of_nat (length ?m + 1),
       pk_payload = bytes_of ?m @ [0] @ drop (12 + (length ?m + 1)) stack\<rparr>"
    by (auto simp: bytes_of_def)
  then show ?thesis using assms(3,4) by (simp add: sendHeader_def header_packet_def)
qed

text \<open>
  Between its tests of \<open>rem\<close> and the end of the packet the thread reads \<open>rem\<close> again; an undisturbed run is one in which the
  other thread does not set it there.
\<close>

fun sending :: "pc \<Rightarrow> bool" where
  "sending At_full_number = True"
| "sending (At_full_row _) = True"
| "sending At_last_test = True"
| "sending At_last_len = True"
| "sending (At_last_number _) = True"
| "sending (At_last_row _ _) = True"
| "sending _ = False"

fun undisturbed :: "access \<Rightarrow> pc \<Rightarrow> bool" where
  "undisturbed (Run stack) l = (length stack = sizeof_Packet)"
| "undisturbed (Set_rem _) l = (\<not> sending l)"
| "undisturbed _ l = True"

fun calm :: "bool \<Rightarrow> access list \<Rightarrow> hmUdpClient \<Rightarrow> bool" where
  "calm big [] c = True"
| "calm big (a # as) c =
     (undisturbed a (c_pc c) \<and> (case client_access big a c of Inl e \<Rightarrow> True | Inr (c', ds) \<Rightarrow> calm big as c'))"

fun pc_inv :: "byte list \<Rightarrow> u32 \<Rightarrow> pc \<Rightarrow> bool" where
  "pc_inv F rem At_full_number = (unat rem + 1 < packets_of F)"
| "pc_inv F rem (At_full_row v) = (v = rem \<and> unat rem + 1 < packets_of F)"
| "pc_inv F rem At_last_test = (packets_of F \<le> unat rem + 1)"
| "pc_inv F rem At_last_len = (unat rem + 1 = packets_of F)"
| "pc_inv F rem (At_last_number len) = (unat rem + 1 = packets_of F \<and> len = of_nat (length (file_row F (unat rem))))"
| "pc_inv F rem (At_last_row len v) =
     (v = rem \<and> unat rem + 1 = packets_of F \<and> len = of_nat (length (file_row F (unat rem))))"
| "pc_inv F rem _ = True"

definition client_inv :: "byte list \<Rightarrow> hmUdpClient \<Rightarrow> bool" where
  "client_inv F c =
     (c_storage c = F \<and> c_lastPacketNo c = of_nat (packets_of F) \<and> header_fits c \<and> pc_inv F (c_rem c) (c_pc c))"

lemma pc_inv_not_sending: "\<not> sending l \<Longrightarrow> pc_inv F rem l"
  by (cases l) simp_all

lemma header_fits_cong [simp]:
  "header_fits (goto l c) = header_fits c" "header_fits (c\<lparr>c_rem := v\<rparr>) = header_fits c"
  "header_fits (c\<lparr>c_sem := n\<rparr>) = header_fits c" "header_fits (c\<lparr>c_restUpload := b\<rparr>) = header_fits c"
  "header_fits (c\<lparr>c_uploadedPacketNO := v\<rparr>) = header_fits c" "header_fits (c\<lparr>c_stopped := b\<rparr>) = header_fits c"
  by (simp_all add: header_fits_def goto_def)

lemma last_length:
  assumes "fits F" "unat rem + 1 = packets_of F"
  shows "(of_nat (length F) - rem * of_nat UdpDataSize :: u32) = of_nat (length (file_row F (unat rem)))"
proof -
  have rem: "(of_nat (unat rem) :: u32) = rem" by simp
  have "unat rem * UdpDataSize < length F" using row_before_end [of "unat rem" F] assms(2) by simp
  moreover have "length F \<le> unat rem * UdpDataSize + UdpDataSize"
    using packets_cover [of F] assms(2) by (simp add: algebra_simps flip: assms(2))
  ultimately have "length F = unat rem * UdpDataSize + length (file_row F (unat rem))" by (simp add: file_row_def)
  then have "(of_nat (length F) :: u32) = rem * of_nat UdpDataSize + of_nat (length (file_row F (unat rem)))"
    by (metis of_nat_add of_nat_mult rem)
  then show ?thesis by simp
qed


lemma rem_tests:
  assumes "fits F"
  shows "rem < (of_nat (packets_of F) :: u32) \<longleftrightarrow> unat rem < packets_of F"
    "rem < (of_nat (packets_of F) - 1 :: u32) \<longleftrightarrow> unat rem + 1 < packets_of F"
    "rem > (of_nat (packets_of F) :: u32) \<longleftrightarrow> unat rem > packets_of F"
proof -
  have n: "packets_of F \<le> serverCount" "0 < packets_of F" using assms packets_pos by (auto simp: fits_def)
  show "rem < (of_nat (packets_of F) :: u32) \<longleftrightarrow> unat rem < packets_of F"
    "rem < (of_nat (packets_of F) - 1 :: u32) \<longleftrightarrow> unat rem + 1 < packets_of F"
    "rem > (of_nat (packets_of F) :: u32) \<longleftrightarrow> unat rem > packets_of F"
    using n(2) by (auto simp: word_less_nat_alt word_counts(1) [OF n(1)] word_counts(3) [OF n])
qed

lemma thread_step_calm:
  assumes "client_inv F c" "fits F" "length stack = sizeof_Packet"
  shows "\<exists>c' ds. thread_step big stack c = Inr (c', ds) \<and> client_inv F c' \<and> (\<forall>d \<in> set ds. datagram_of big F d)"
proof -
  have c: "c_storage c = F" "c_lastPacketNo c = of_nat (packets_of F)" "header_fits c" "pc_inv F (c_rem c) (c_pc c)"
    using assms(1) by (simp_all add: client_inv_def)
  have row: "client_row c v = drop (storage_row v) F" for v by (simp add: client_row_def c(1))
  note tests = rem_tests [OF assms(2)]
  note defs = thread_step_def client_inv_def goto_def Let_def c tests
  show ?thesis
  proof (cases "c_pc c")
    case At_header_send
    show ?thesis
    proof (cases "c_stopped c")
      case True
      then show ?thesis using At_header_send c(3) by (simp add: defs sendHeader_def header_fits_def)
    next
      case False
      then show ?thesis using At_header_send c(3) send_header [OF c(3) assms(3) c(2) False, of big]
        by (auto simp: defs header_fits_def datagram_of_def client_packet_def)
    qed
  next
    case (At_full_row v)
    then have v: "v = c_rem c" "unat v + 1 < packets_of F" using c(4) by auto
    then have "length (file_row F (unat v)) = UdpDataSize" using length_file_row_full [of "unat v" F] by simp
    then show ?thesis using At_full_row c(3) v send_row [OF assms(2) _ assms(3), of "unat v" big]
      by (auto simp: defs row header_fits_def datagram_of_def client_packet_def)
  next
    case (At_last_row len v)
    then have v: "v = c_rem c" "unat v + 1 = packets_of F" "len = of_nat (length (file_row F (unat v)))" using c(4) by auto
    then show ?thesis using At_last_row c(3) send_row [OF assms(2) _ assms(3), of "unat v" big]
      by (auto simp: defs row header_fits_def datagram_of_def client_packet_def)
  next
    case At_last_len
    then have "unat (c_rem c) + 1 = packets_of F" using c(4) by simp
    then show ?thesis using At_last_len c(3) last_length [OF assms(2)] by (auto simp: defs header_fits_def)
  qed (use c(3,4) in \<open>auto simp: defs header_fits_def\<close>)
qed

lemma access_calm:
  assumes "client_inv F c" "fits F" "undisturbed a (c_pc c)"
  shows "\<exists>c' ds. client_access big a c = Inr (c', ds) \<and> client_inv F c' \<and> (\<forall>d \<in> set ds. datagram_of big F d)"
  using assms thread_step_calm [OF assms(1,2)]
  by (cases a) (auto simp: client_inv_def pc_inv_not_sending)

text \<open>However calls of the other thread fall between the thread's steps, an undisturbed one sends what the file holds.\<close>

lemma client_run_calm:
  assumes "client_inv F c" "fits F" "calm big as c"
  shows "\<exists>c' ds. client_run big as c = Inr (c', ds) \<and> client_inv F c' \<and> (\<forall>d \<in> set ds. datagram_of big F d)"
  using assms(1,3)
proof (induction as arbitrary: c)
  case (Cons a as)
  from access_calm [OF Cons.prems(1) assms(2), of a big] Cons.prems(2)
  obtain c1 ds1 where one: "client_access big a c = Inr (c1, ds1)" "client_inv F c1" "\<forall>d \<in> set ds1. datagram_of big F d"
    by auto
  from Cons.IH [OF this(2)] this(1) Cons.prems(2)
  obtain c2 ds2 where "client_run big as c1 = Inr (c2, ds2)" "client_inv F c2" "\<forall>d \<in> set ds2. datagram_of big F d" by auto
  then show ?case using one by auto
qed simp


subsection \<open>The whole file\<close>

text \<open>The thread left to itself gets from one state to another, sending \<open>ds\<close>.\<close>

definition gets :: "bool \<Rightarrow> byte list \<Rightarrow> hmUdpClient \<Rightarrow> byte list list \<Rightarrow> hmUdpClient \<Rightarrow> bool" where
  "gets big stack c ds c' = (\<exists>m. client_run big (replicate m (Run stack)) c = Inr (c', ds))"

lemma gets_refl: "gets big stack c [] c"
  unfolding gets_def by (rule exI [of _ 0]) simp

lemma gets_step:
  "thread_step big stack c = Inr (c1, ds1) \<Longrightarrow> gets big stack c1 ds2 c2 \<Longrightarrow> gets big stack c (ds1 @ ds2) c2"
  unfolding gets_def by (elim exE) (rule_tac x = "Suc m" in exI, simp)

lemma gets_trans:
  assumes "gets big stack c ds1 c1" "gets big stack c1 ds2 c2"
  shows "gets big stack c (ds1 @ ds2) c2"
proof -
  obtain m n where "client_run big (replicate m (Run stack)) c = Inr (c1, ds1)"
    "client_run big (replicate n (Run stack)) c1 = Inr (c2, ds2)" using assms by (auto simp: gets_def)
  then show ?thesis unfolding gets_def by (intro exI [of _ "m + n"]) (simp add: replicate_add client_run_append)
qed

lemma gets_go: "thread_step big stack c = Inr (c1, []) \<Longrightarrow> gets big stack c1 ds c2 \<Longrightarrow> gets big stack c ds c2"
  using gets_step [of big stack c c1 "[]" ds c2] by simp

lemma gets_send: "thread_step big stack c = Inr (c1, [d]) \<Longrightarrow> gets big stack c1 ds c2 \<Longrightarrow> gets big stack c (d # ds) c2"
  using gets_step [of big stack c c1 "[d]" ds c2] by simp

text \<open>Before row \<open>k\<close>, nobody having interfered.\<close>

definition before_row :: "byte list \<Rightarrow> nat \<Rightarrow> pc \<Rightarrow> hmUdpClient \<Rightarrow> bool" where
  "before_row F k l c =
     (c_storage c = F \<and> c_lastPacketNo c = of_nat (packets_of F) \<and> header_fits c \<and> c_rem c = of_nat k \<and> c_pc c = l \<and>
      c_uploadedPacketNO c = 0 \<and> \<not> c_restUpload c \<and> c_sem c = 0 \<and> \<not> c_stopped c)"

lemma unat_small: "k < 2 ^ 31 \<Longrightarrow> unat (of_nat k :: u32) = k"
  by (simp add: unat_of_nat take_bit_eq_mod)

lemma inc_turn:
  assumes "before_row F k At_inc c" "fits F" "k \<le> packets_of F"
  shows "\<exists>c'. gets big stack c [] c' \<and> before_row F (Suc k) (if k < packets_of F then At_loop else At_wait) c'"
proof -
  let ?l = "if k < packets_of F then At_loop else At_wait"
  let ?c1 = "c\<lparr>c_rem := of_nat (Suc k), c_pc := At_wait_test\<rparr>" and ?c2 = "c\<lparr>c_rem := of_nat (Suc k), c_pc := ?l\<rparr>"
  have n: "packets_of F \<le> serverCount" "0 < packets_of F" using assms(2) packets_pos by (auto simp: fits_def)
  have k: "unat (of_nat (Suc k) :: u32) = Suc k"
    by (rule unat_small) (use n assms(3) in \<open>simp add: serverCount_def\<close>)
  have "thread_step big stack c = Inr (?c1, [])" using assms(1) by (simp add: before_row_def thread_step_def goto_def)
  moreover have "thread_step big stack ?c1 = Inr (?c2, [])"
    using assms n k rem_tests [OF assms(2)]
    by (simp add: before_row_def thread_step_def goto_def Let_def del: of_nat_Suc)
  ultimately have "gets big stack c [] ?c2" by (blast intro: gets_go gets_refl)
  moreover have "before_row F (Suc k) ?l ?c2" using assms(1) by (simp add: before_row_def header_fits_def)
  ultimately show ?thesis by blast
qed

lemma row_turn:
  assumes "before_row F k At_row_test c" "fits F" "k < packets_of F" "length stack = sizeof_Packet"
  shows "\<exists>c' d. gets big stack c [d] c' \<and> before_row F (Suc k) At_loop c' \<and> length d = sizeof_Packet \<and>
    row_packet F k (Packet_load big d)"
proof -
  have c: "c_storage c = F" "c_lastPacketNo c = of_nat (packets_of F)" "c_rem c = of_nat k" "c_pc c = At_row_test"
    using assms(1) by (simp_all add: before_row_def)
  have "k \<le> serverCount" using assms(2,3) by (simp add: fits_def)
  then have k: "unat (of_nat k :: u32) = k" by (rule word_counts(1))
  from send_row [OF assms(2,3,4), of big] obtain d where
    d: "sendPacket big stack 1 (of_nat k) (of_nat (length (file_row F k))) (drop (storage_row (of_nat k)) F) = Inr d"
      "length d = sizeof_Packet" "row_packet F k (Packet_load big d)" by blast
  let ?at = "\<lambda>l. c\<lparr>c_pc := l\<rparr>"
  note steps = thread_step_def goto_def Let_def c rem_tests [OF assms(2)] k
  have "gets big stack c [d] (?at At_inc)"
  proof (cases "Suc k < packets_of F")
    case True
    then have full: "length (file_row F k) = UdpDataSize" by (rule length_file_row_full)
    have "thread_step big stack (?at (At_full_row (of_nat k))) = Inr (?at At_inc, [d])"
      using d(1) unfolding full by (simp add: steps client_row_def)
    moreover have "thread_step big stack c = Inr (?at At_full_test, [])" using True by (simp add: steps)
    moreover have "thread_step big stack (?at At_full_test) = Inr (?at At_full_number, [])" using True by (simp add: steps)
    moreover have "thread_step big stack (?at At_full_number) = Inr (?at (At_full_row (of_nat k)), [])" by (simp add: steps)
    ultimately show ?thesis by (blast intro: gets_go gets_send gets_refl)
  next
    case False
    let ?len = "of_nat (length (file_row F k)) :: u32"
    have len: "(of_nat (length F) - of_nat k * of_nat UdpDataSize :: u32) = ?len"
      using last_length [OF assms(2), of "of_nat k"] False assms(3) k by simp
    have "thread_step big stack (?at (At_last_row ?len (of_nat k))) = Inr (?at At_inc, [d])"
      using d(1) by (simp add: steps client_row_def)
    moreover have "thread_step big stack c = Inr (?at At_full_test, [])" using assms(3) by (simp add: steps)
    moreover have "thread_step big stack (?at At_full_test) = Inr (?at At_last_test, [])" using False by (simp add: steps)
    moreover have "thread_step big stack (?at At_last_test) = Inr (?at At_last_len, [])" using assms(3) by (simp add: steps)
    moreover have "thread_step big stack (?at At_last_len) = Inr (?at (At_last_number ?len), [])" by (simp add: steps len)
    moreover have "thread_step big stack (?at (At_last_number ?len)) = Inr (?at (At_last_row ?len (of_nat k)), [])"
      by (simp add: steps)
    ultimately show ?thesis by (blast intro: gets_go gets_send gets_refl)
  qed
  moreover have "before_row F k At_inc (?at At_inc)" using assms(1) by (simp add: before_row_def header_fits_def)
  from inc_turn [OF this assms(2), of big stack] assms(3)
  obtain c' where "gets big stack (?at At_inc) [] c'" "before_row F (Suc k) At_loop c'" by auto
  ultimately show ?thesis using d gets_trans [of big stack c "[d]" "?at At_inc" "[]" c'] by fastforce
qed


definition row_datagram :: "bool \<Rightarrow> byte list \<Rightarrow> nat \<Rightarrow> byte list \<Rightarrow> bool" where
  "row_datagram big F k d = (length d = sizeof_Packet \<and> row_packet F k (Packet_load big d))"

lemma loop_turn:
  assumes "before_row F k At_loop c" "fits F" "0 < k" "k \<le> packets_of F"
  shows "\<exists>c'. gets big stack c [] c' \<and> before_row F k At_row_test c'"
proof -
  have n: "packets_of F \<le> serverCount" "0 < packets_of F" using assms(2) packets_pos by (auto simp: fits_def)
  have "unat (of_nat k :: u32) = k" by (rule word_counts(1)) (use n assms(4) in simp)
  then have "(of_nat k :: u32) \<noteq> 0" using assms(3) by (metis unat_0 less_irrefl)
  moreover have "(0 :: u32) < of_nat (packets_of F)" using n by (simp add: rem_tests [OF assms(2)])
  ultimately have "thread_step big stack c = Inr (c\<lparr>c_pc := At_header\<rparr>, [])"
    "thread_step big stack (c\<lparr>c_pc := At_header\<rparr>) = Inr (c\<lparr>c_pc := At_row_test\<rparr>, [])"
    using assms(1) by (simp_all add: before_row_def thread_step_def goto_def)
  then have "gets big stack c [] (c\<lparr>c_pc := At_row_test\<rparr>)" by (blast intro: gets_go gets_refl)
  moreover have "before_row F k At_row_test (c\<lparr>c_pc := At_row_test\<rparr>)"
    using assms(1) by (simp add: before_row_def header_fits_def)
  ultimately show ?thesis by blast
qed

lemma rows_turn:
  assumes "fits F" "length stack = sizeof_Packet" "0 < k" "k \<le> packets_of F" "before_row F k At_loop c"
  shows "\<exists>c' ds. gets big stack c ds c' \<and> before_row F (Suc (packets_of F)) At_wait c' \<and>
    list_all2 (row_datagram big F) [k..<packets_of F] ds"
  using assms(3-5)
proof (induction "packets_of F - k" arbitrary: k c)
  case 0
  then have k: "k = packets_of F" by simp
  from loop_turn [OF 0(4) assms(1) 0(2,3)] obtain c1 where c1: "gets big stack c [] c1" "before_row F k At_row_test c1" by blast
  have "unat (of_nat k :: u32) = k" by (rule word_counts(1)) (use assms(1) k in \<open>simp add: fits_def\<close>)
  then have "thread_step big stack c1 = Inr (c1\<lparr>c_pc := At_inc\<rparr>, [])"
    using c1(2) k by (simp add: before_row_def thread_step_def goto_def Let_def)
  then have "gets big stack c [] (c1\<lparr>c_pc := At_inc\<rparr>)"
    using gets_trans [OF c1(1) gets_go [OF _ gets_refl]] by fastforce
  moreover have "before_row F k At_inc (c1\<lparr>c_pc := At_inc\<rparr>)" using c1(2) by (simp add: before_row_def header_fits_def)
  from inc_turn [OF this assms(1) 0(3), of big stack] k
  obtain c2 where "gets big stack (c1\<lparr>c_pc := At_inc\<rparr>) [] c2" "before_row F (Suc k) At_wait c2" by auto
  ultimately have "gets big stack c [] c2" using gets_trans [of big stack c "[]" _ "[]" c2] by simp
  then show ?case using \<open>before_row F (Suc k) At_wait c2\<close> k by (intro exI [of _ c2] exI [of _ "[]"]) simp
next
  case (Suc j)
  then have k: "k < packets_of F" by simp
  from loop_turn [OF Suc(5) assms(1) Suc(3,4)] obtain c1 where c1: "gets big stack c [] c1" "before_row F k At_row_test c1" by blast
  from row_turn [OF c1(2) assms(1) k assms(2), of big]
  obtain c2 d where c2: "gets big stack c1 [d] c2" "before_row F (Suc k) At_loop c2" and d: "row_datagram big F k d"
    by (auto simp: row_datagram_def)
  have "j = packets_of F - Suc k" using Suc(2) by simp
  from Suc(1) [OF this _ _ c2(2)] k obtain c' ds where c': "gets big stack c2 ds c'" "before_row F (Suc (packets_of F)) At_wait c'"
    "list_all2 (row_datagram big F) [Suc k..<packets_of F] ds" by auto
  have "gets big stack c (d # ds) c'" using gets_trans [OF c1(1) gets_trans [OF c2(1) c'(1)]] by simp
  moreover have "list_all2 (row_datagram big F) [k..<packets_of F] (d # ds)" using k d c'(3) by (simp add: upt_conv_Cons)
  ultimately show ?case using c'(2) by blast
qed

text \<open>A client of a file that has been counted right sends its header and its rows in order, and waits.\<close>

lemma whole_file:
  assumes "fits F" "length F < 2 ^ 24" "length stack = sizeof_Packet" "length driver + length meta + 2 \<le> UdpDataSize"
  shows "\<exists>c' h ds. gets big stack (hmUdpClient_upload False F driver meta) (h # ds) c' \<and>
    before_row F (Suc (packets_of F)) At_wait c' \<and> length h = sizeof_Packet \<and> header_packet F (Packet_load big h) \<and>
    list_all2 (row_datagram big F) [0..<packets_of F] ds"
proof -
  define c where "c = hmUdpClient_upload False F driver meta"
  have n: "packets_of F \<le> serverCount" "0 < packets_of F" using assms(1) packets_pos by (auto simp: fits_def)
  have c: "before_row F 0 At_loop c"
    using assms(4) by (simp add: before_row_def c_def hmUdpClient_upload_def packet_count_small [OF assms(2)] header_fits_def)
  have "(0 :: u32) < of_nat (packets_of F)" using n by (simp add: rem_tests [OF assms(1)])
  then have at_header: "thread_step big stack c = Inr (c\<lparr>c_pc := At_header\<rparr>, [])"
    "thread_step big stack (c\<lparr>c_pc := At_header\<rparr>) = Inr (c\<lparr>c_pc := At_header_send\<rparr>, [])"
    using c by (simp_all add: before_row_def thread_step_def goto_def)
  have c3: "before_row F 0 At_row_test (c\<lparr>c_pc := At_row_test\<rparr>)" using c by (simp add: before_row_def header_fits_def)
  from send_header [of "c\<lparr>c_pc := At_header_send\<rparr>" stack F big] c assms(3)
  obtain h where "sendHeader big stack (c\<lparr>c_pc := At_header_send\<rparr>) = Inr [h]" and h: "length h = sizeof_Packet"
    "header_packet F (Packet_load big h)" by (auto simp: before_row_def header_fits_def)
  then have "thread_step big stack (c\<lparr>c_pc := At_header_send\<rparr>) = Inr (c\<lparr>c_pc := At_row_test\<rparr>, [h])"
    by (simp add: thread_step_def goto_def)
  then have first: "gets big stack c [h] (c\<lparr>c_pc := At_row_test\<rparr>)" using at_header by (blast intro: gets_go gets_send gets_refl)
  from row_turn [OF c3 assms(1) n(2) assms(3), of big] obtain c4 d where
    c4: "gets big stack (c\<lparr>c_pc := At_row_test\<rparr>) [d] c4" "before_row F (Suc 0) At_loop c4" and d: "row_datagram big F 0 d"
    by (auto simp: row_datagram_def)
  from rows_turn [OF assms(1,3) _ _ c4(2), of big] n obtain c' ds where
    c': "gets big stack c4 ds c'" "before_row F (Suc (packets_of F)) At_wait c'"
      "list_all2 (row_datagram big F) [Suc 0..<packets_of F] ds" by auto
  have "gets big stack c (h # d # ds) c'" using gets_trans [OF first gets_trans [OF c4(1) c'(1)]] by simp
  moreover have "list_all2 (row_datagram big F) [0..<packets_of F] (d # ds)" using n(2) d c'(3) by (simp add: upt_conv_Cons)
  ultimately show ?thesis using c'(2) h unfolding c_def by blast
qed


subsection \<open>Disturbed sending\<close>

lemma some_steps:
  "replicate 4 x = [x, x, x, x]" "replicate 6 x = [x, x, x, x, x, x]"
  "replicate 12 x = [x, x, x, x, x, x, x, x, x, x, x, x]"
  by (simp_all add: numeral_eq_Suc)

text \<open>
  A file of 2^24 + 1 bytes is counted with one packet too few, since its size is rounded
  to a float; the last row then has 1025 bytes and is copied over the end of the packet on the
  stack.
\<close>

theorem last_row_overflow:
  assumes "length F = 2 ^ 24 + 1" "c = hmUdpClient_upload unset F driver meta"
  shows "packets_of F = 2 ^ 14 + 1 \<and> c_lastPacketNo c = 2 ^ 14 \<and>
    client_run big (replicate 6 (Run stack)) (c\<lparr>c_rem := 2 ^ 14 - 1, c_pc := At_row_test\<rparr>) = Inl Undefined_behaviour"
proof -
  have last: "c_lastPacketNo c = 2 ^ 14" "length (c_storage c) = 2 ^ 24 + 1"
    using assms packet_count_at_limit by (simp_all add: hmUdpClient_upload_def)
  have "client_run big (replicate 6 (Run stack)) (c\<lparr>c_rem := 2 ^ 14 - 1, c_pc := At_row_test\<rparr>) = Inl Undefined_behaviour"
    using last by (simp add: some_steps thread_step_def goto_def Let_def sendPacket_def UdpDataSize_def)
  then show ?thesis using assms(1) last(1) by (simp add: packets_of_def UdpDataSize_def)
qed

theorem last_row_overflow_witness:
  "client_run False (replicate 6 (Run []))
     ((hmUdpClient_upload False (replicate (2 ^ 24 + 1) 0) [] [])\<lparr>c_rem := 2 ^ 14 - 1, c_pc := At_row_test\<rparr>) =
   Inl Undefined_behaviour"
  using last_row_overflow [of "replicate (2 ^ 24 + 1) 0" "hmUdpClient_upload False (replicate (2 ^ 24 + 1) 0) [] []" False "[]" "[]"]
  by simp

text \<open>
  When the server asks for an earlier row while the thread is at its last one, between
  two reads of rem, all of the file from the row asked for is copied into the packet on the
  stack.
\<close>

theorem restart_race_overflow:
  assumes "before_row F k At_last_test c" "fits F" "Suc k = packets_of F" "j < k"
  shows "client_run big (restartUPload (of_nat j) @ replicate 4 (Run stack)) c = Inl Undefined_behaviour"
proof -
  have c: "c_storage c = F" "c_lastPacketNo c = of_nat (packets_of F)" "c_pc c = At_last_test"
    using assms(1) by (simp_all add: before_row_def)
  have n: "packets_of F \<le> serverCount" using assms(2) by (simp add: fits_def)
  have j: "unat (of_nat j :: u32) = j" by (rule word_counts(1)) (use n assms(3,4) in simp)
  have last: "k * UdpDataSize < length F" by (rule row_before_end) (use assms(3) in simp)
  have "length F \<le> serverCount * UdpDataSize"
    using packets_cover [of F] mult_le_mono1 [OF n, of UdpDataSize] by (rule order_trans)
  then have size: "length F < 2 ^ 31" by (simp add: serverCount_def UdpDataSize_def)
  let ?len = "length F - j * UdpDataSize"
  have "Suc j * UdpDataSize \<le> k * UdpDataSize" using assms(4) by (intro mult_le_mono1) simp
  then have over: "UdpDataSize < ?len" "j * UdpDataSize \<le> length F" using last by simp_all
  then have "(of_nat (length F) - of_nat j * of_nat UdpDataSize :: u32) = of_nat ?len" by (simp add: of_nat_diff)
  moreover have "unat (of_nat ?len :: u32) = ?len" by (rule unat_small) (use size in simp)
  ultimately show ?thesis
    using over assms(3,4) j c
    by (simp add: restartUPload_def some_steps thread_step_def goto_def Let_def rem_tests [OF assms(2)] sendPacket_def)
qed


definition at_last_row :: hmUdpClient where
  "at_last_row = (hmUdpClient_upload False (replicate 2048 7) [] [])\<lparr>c_rem := 1, c_pc := At_last_test\<rparr>"

lemma at_last_row_before: "before_row (replicate 2048 7) 1 At_last_test at_last_row"
  by (simp add: before_row_def at_last_row_def hmUdpClient_upload_def packet_count_def to_float_def header_fits_def two_rows
      UdpDataSize_def)

theorem restart_race_overflow_witness:
  "client_run False (restartUPload 0 @ replicate 4 (Run [])) at_last_row = Inl Undefined_behaviour"
  using restart_race_overflow [OF at_last_row_before two_rows(1), of 0 False "[]"] by (simp add: two_rows)

text \<open>Only the thread, the timer's calls for row 1 and its own count of posts.\<close>

fun timer_access :: "access \<Rightarrow> bool" where
  "timer_access (Run stack) = True"
| "timer_access (Set_restUpload b) = True"
| "timer_access (Set_rem v) = (v = 1)"
| "timer_access Post = True"
| "timer_access _ = False"

text \<open>The header of this round has been passed.\<close>

fun past_header :: "pc \<Rightarrow> bool" where
  "past_header At_row_test = True"
| "past_header At_full_test = True"
| "past_header At_inc = True"
| "past_header l = sending l"

definition no_header :: "nat \<Rightarrow> hmUdpClient \<Rightarrow> bool" where
  "no_header b c = ((past_header (c_pc c) \<or> c_rem c \<noteq> 0 \<and> c_pc c \<noteq> At_header_send) \<and> unat (c_rem c) \<le> b)"

lemma sendPacket_type: "sendPacket big stack ty number len source = Inr d \<Longrightarrow> d ! 0 = ty"
  by (auto simp: sendPacket_def Packet_bytes_def split: if_splits)

lemma res_bind_Inr: "res_bind r f = Inr v \<longleftrightarrow> (\<exists>x. r = Inr x \<and> f x = Inr v)"
  by (cases r) simp_all

lemma no_header_step:
  assumes "no_header b c" "b + 1 < 2 ^ 32" "thread_step big stack c = Inr (c', ds)"
  shows "no_header (Suc b) c' \<and> (\<forall>d \<in> set ds. d ! 0 = 1)"
proof -
  have inc: "unat (c_rem c + 1) = unat (c_rem c) + 1"
    using assms(1,2) by (simp add: no_header_def unat_word_ariths)
  then have "c_rem c + 1 \<noteq> 0" by (metis add_eq_0_iff_both_eq_0 unat_0 zero_neq_one)
  then show ?thesis
    using assms(1,3) inc
    by (cases "c_pc c") (auto simp: no_header_def thread_step_def goto_def Let_def res_bind_Inr sendPacket_type split: if_splits)
qed

lemma no_header_access:
  assumes "no_header b c" "b + 1 < 2 ^ 32" "0 < b" "timer_access a" "client_access big a c = Inr (c', ds)"
  shows "no_header (Suc b) c' \<and> (\<forall>d \<in> set ds. d ! 0 = 1)"
  using assms no_header_step [OF assms(1,2)] by (cases a) (auto simp: no_header_def)

lemma no_header_run:
  assumes "no_header b c" "b + length as < 2 ^ 32" "0 < b" "list_all timer_access as" "client_run big as c = Inr (c', ds)"
  shows "\<forall>d \<in> set ds. d ! 0 = 1"
  using assms
proof (induction as arbitrary: b c ds)
  case (Cons a as)
  then obtain c1 ds1 ds2 where one: "client_access big a c = Inr (c1, ds1)" "client_run big as c1 = Inr (c', ds2)"
    "ds = ds1 @ ds2" by (auto simp: res_bind_Inr)
  have "no_header (Suc b) c1 \<and> (\<forall>d \<in> set ds1. d ! 0 = 1)"
    using no_header_access [OF Cons.prems(1) _ Cons.prems(3) _ one(1)] Cons.prems(2,4) by simp
  then show ?case using Cons.IH [of "Suc b" c1 ds2] one Cons.prems(2,4) by auto
qed simp

text \<open>What happens to a server, one after the other: datagrams are received and its timer is due.\<close>

datatype udp_event = Datagram "byte list" | Timeout

fun udp_step :: "bool \<Rightarrow> (nat \<Rightarrow> bool) \<Rightarrow> int \<Rightarrow> udp_event \<Rightarrow> hmUdpServer step" where
  "udp_step big live now (Datagram d) = OnUdpSocketPacketReceived big live now d"
| "udp_step big live now Timeout = udp_timeout"

fun server_run :: "bool \<Rightarrow> (nat \<Rightarrow> bool) \<Rightarrow> int \<Rightarrow> udp_event list \<Rightarrow> hmUdpServer step" where
  "server_run big live now [] s = Inr (s, [])"
| "server_run big live now (e # es) s = step_then (udp_step big live now e) (server_run big live now es) s"

lemma server_waits_for_header:
  assumes "curPtr s = - 1" "waitingPtr s = 0" "\<forall>d \<in> set ds. d ! 0 = 1"
  shows "server_run big live now (map Datagram ds) s = Inr (s, [])"
  using assms(3)
proof (induction ds)
  case (Cons d ds)
  have "uint x \<noteq> - 1" for x :: u32 using uint_ge_0 [of x] by linarith
  then have "OnUdpSocketPacketReceived big live now d s = Inr (s, [])"
    using assms(1,2) Cons.prems by (simp add: OnUdpSocketPacketReceived_def Packet_load_def on_row_def act_def Let_def)
  then show ?case using Cons by (simp add: step_then_def)
qed simp

text \<open>
  When the header is lost and the request of the server for it arrives while the thread
  is in a round whose header it has already passed, the thread goes on with row 1. Whatever it
  sends from then on, and however often its timer makes it begin again, the server ignores it
  and asks for nothing more: the upload never ends.
\<close>

theorem lost_header_never_recovered:
  assumes "past_header (c_pc c)" "list_all timer_access as" "length as + 1 < 2 ^ 32"
    "client_run big (restartUPload 0 @ as) c = Inr (c', ds)" "curPtr s = - 1" "waitingPtr s = 0"
  shows "server_run big live now (map Datagram ds) s = Inr (s, [])"
proof (rule server_waits_for_header [OF assms(5,6)])
  let ?c = "c\<lparr>c_restUpload := True, c_rem := 0, c_sem := Suc (c_sem c)\<rparr>"
  have "client_run big as ?c = Inr (c', ds)"
    using assms(4) by (auto simp: restartUPload_def res_bind_Inr)
  moreover have "no_header 1 ?c" using assms(1) by (simp add: no_header_def)
  ultimately show "\<forall>d \<in> set ds. d ! 0 = 1" using no_header_run [of 1 ?c as big c' ds] assms(2,3) by simp
qed


text \<open>The second row of a file, sent to a server that never got the header.\<close>

theorem lost_header_never_recovered_witness:
  "\<exists>c' d. client_run False (restartUPload 0 @ replicate 12 (Run (replicate sizeof_Packet 0)))
       (at_last_row\<lparr>c_rem := 0, c_pc := At_inc\<rparr>) = Inr (c', [d]) \<and>
     server_run False (\<lambda>_. True) 0 [Datagram d] (hmUdpServer_init\<lparr>waitingPtr := 0\<rparr>) = Inr (hmUdpServer_init\<lparr>waitingPtr := 0\<rparr>, [])"
proof -
  have row: "length (drop (storage_row 1) (replicate 2048 (7 :: byte))) = 1024"
    by (simp add: storage_row_def UdpDataSize_def)
  then obtain d c' where run: "client_run False (restartUPload 0 @ replicate 12 (Run (replicate sizeof_Packet 0)))
      (at_last_row\<lparr>c_rem := 0, c_pc := At_inc\<rparr>) = Inr (c', [d])"
    by (simp add: some_steps restartUPload_def thread_step_def goto_def Let_def at_last_row_def hmUdpClient_upload_def
      packet_count_def to_float_def UdpDataSize_def client_row_def sendPacket_def)
  show ?thesis
    using run lost_header_never_recovered [OF _ _ _ run, of "hmUdpServer_init\<lparr>waitingPtr := 0\<rparr>" "\<lambda>_. True" 0]
    by (auto simp: list_all_iff hmUdpServer_init_def)
qed

end
