(* ===== verification/Udp_Upload.thy ===== *)
theory Udp_Upload
  imports Udp_Client
begin

text \<open>
  The TCP side of the upload (\<open>net/awsuploadudp/hmTcpServer.cpp\<close>, \<open>hmTcpClient.cpp\<close>), which gives the clients their UDP
  ports and tells them what the UDP servers miss, and what the two sides achieve together.
\<close>

subsection \<open>Control packets\<close>

definition TcpPacket_bytes :: "bool \<Rightarrow> byte list \<Rightarrow> byte \<Rightarrow> u32 \<Rightarrow> byte list" where
  "TcpPacket_bytes big stack ty payload = [ty] @ take 3 (drop 1 stack) @ mem32 big payload"

definition TcpPacket_type :: "byte list \<Rightarrow> byte" where
  "TcpPacket_type data = data ! 0"

definition TcpPacket_number :: "bool \<Rightarrow> byte list \<Rightarrow> u32" where
  "TcpPacket_number big data = load32 big (take 4 (drop 4 data))"

lemma TcpPacket_roundtrip [roundtrips]:
  assumes "length stack = sizeof_TcpPacket"
  shows "length (TcpPacket_bytes big stack ty v) = sizeof_TcpPacket"
    "TcpPacket_type (TcpPacket_bytes big stack ty v) = ty" "TcpPacket_number big (TcpPacket_bytes big stack ty v) = v"
  using assms
  by (simp_all add: TcpPacket_bytes_def TcpPacket_type_def TcpPacket_number_def sizeof_TcpPacket_def numeral_eq_Suc)

subsection \<open>The client\<close>

datatype client_state = Init | Connected | Progess | Done

text \<open>
  What the client does: it sends to the server, calls the user's functions, acts on the thread of its \<open>hmUdpClient\<close>, or asks
  its loop to end. The functions are there or not.
\<close>

datatype client_effect =
    Send_tcp byte u32
  | fnUpdateProgess int
  | fnSuccess
  | fnFailure int
  | Start_thread
  | On_thread access
  | Async_send

record hmTcpClient =
  udpsocket :: "hmUdpClient option"
  t_timer :: Timer
  m_file :: "byte list option"
  m_driverId :: string
  m_metaData :: string
  en_state :: client_state
  shuttingDown :: bool
  has_progress :: bool
  has_success :: bool
  has_failure :: bool

type_synonym control = "hmTcpClient \<Rightarrow> (hmTcpClient \<times> client_effect list) res"

definition then_do :: "control \<Rightarrow> control \<Rightarrow> control" where
  "then_do f g t = res_bind (f t) (\<lambda>(t1, out1). res_bind (g t1) (\<lambda>(t2, out2). Inr (t2, out1 @ out2)))"

definition tell :: "client_effect list \<Rightarrow> control" where
  "tell out t = Inr (t, out)"

definition put :: "(hmTcpClient \<Rightarrow> hmTcpClient) \<Rightarrow> control" where
  "put f t = Inr (f t, [])"

definition client_timer :: "(Timer \<Rightarrow> Timer res) \<Rightarrow> control" where
  "client_timer f t = res_bind (f (t_timer t)) (\<lambda>h. Inr (t\<lparr>t_timer := h\<rparr>, []))"

lemmas control_simps = then_do_def tell_def put_def

text \<open>Through \<open>udpsocket\<close>, which is null until a port has been given.\<close>

definition with_socket :: "(hmUdpClient \<Rightarrow> control) \<Rightarrow> control" where
  "with_socket f t = (case udpsocket t of None \<Rightarrow> Inl Undefined_behaviour | Some u \<Rightarrow> f u t)"

definition restart :: "u32 \<Rightarrow> control" where
  "restart v = with_socket (\<lambda>u. tell (map On_thread (restartUPload v)))"

definition on_connect :: control where
  "on_connect = then_do (tell [Send_tcp 0 0]) (put (\<lambda>t. t\<lparr>en_state := Connected\<rparr>))"

definition client_shutdown :: control where
  "client_shutdown t =
     (if shuttingDown t then Inr (t, [])
      else Inr (t\<lparr>shuttingDown := True\<rparr>,
        (case udpsocket t of None \<Rightarrow> [] | Some u \<Rightarrow> map On_thread (hmUdpClient_shutdown (c_lastPacketNo u))) @ [Async_send]))"

fun before_progress :: "client_state \<Rightarrow> bool" where
  "before_progress Init = True"
| "before_progress Connected = True"
| "before_progress _ = False"

definition client_on_close :: control where
  "client_on_close t = Inr (t, if before_progress (en_state t) \<and> has_failure t then [fnFailure (- 1)] else [])"

definition timeout_pong :: control where
  "timeout_pong =
     with_socket (\<lambda>u. if c_lastPacketNo u < 11 then client_timer Timer_Stop
                      else then_do (client_timer Timer_Reset) (restart (c_uploadedPacketNO u + 1)))"

text \<open>A port has been given: the file is opened and its thread started. \<open>unset\<close> is the uninitialised \<open>restUpload\<close>.\<close>

definition on_port :: "bool \<Rightarrow> control" where
  "on_port unset t =
     (case m_file t of
        None \<Rightarrow>
          then_do (put (\<lambda>t. t\<lparr>udpsocket := None\<rparr>))
            (then_do (if has_failure t
                      then then_do (tell [fnFailure (- 2)]) (put (\<lambda>t. t\<lparr>has_failure := False, en_state := Done\<rparr>))
                      else tell [])
              client_shutdown) t
      | Some F \<Rightarrow>
          then_do (put (\<lambda>t. t\<lparr>udpsocket := Some (hmUdpClient_upload unset F (m_driverId t) (m_metaData t))\<rparr>))
            (then_do (tell [Start_thread])
              (then_do (client_timer (Timer_Start 10000 10000))
                (tell (if has_progress t then [fnUpdateProgess 0] else [])))) t)"

text \<open>What the server has: the percentage is told, and the upload is over when it is the last packet.\<close>

definition tell_progress :: "u32 \<Rightarrow> hmUdpClient \<Rightarrow> control" where
  "tell_progress number u t =
     (if \<not> has_progress t then Inr (t, [])
      else if c_lastPacketNo u div 10 = 0 then Inl Division_by_zero
      else Inr (t, [fnUpdateProgess (sint (10 * (number div (c_lastPacketNo u div 10))))]))"

definition on_uploaded :: "u32 \<Rightarrow> control" where
  "on_uploaded number =
     then_do (put (\<lambda>t. t\<lparr>en_state := Progess\<rparr>))
       (with_socket (\<lambda>u.
          then_do (put (\<lambda>t. t\<lparr>udpsocket := Some (u\<lparr>c_uploadedPacketNO := number\<rparr>)\<rparr>))
            (then_do (tell [On_thread (Set_uploaded number)])
              (then_do (tell_progress number u)
                (if number = c_lastPacketNo u - 1
                 then then_do (client_timer Timer_Stop)
                        (then_do (put (\<lambda>t. t\<lparr>en_state := Progess\<rparr>))
                          (then_do (\<lambda>t. tell (if has_success t then [fnSuccess] else []) t) client_shutdown))
                 else client_timer Timer_Reset)))))"

text \<open>
  A read of any other length than one packet is looked at packet by packet, but nothing is done with it.
\<close>

definition client_on_read :: "bool \<Rightarrow> bool \<Rightarrow> byte list \<Rightarrow> control" where
  "client_on_read big unset data t =
     (if shuttingDown t then Inr (t, [])
      else if length data \<noteq> sizeof_TcpPacket then Inr (t, [])
      else let ty = TcpPacket_type data; number = TcpPacket_number big data in
        if ty = 1 then on_port unset t
        else if ty = 2 then restart number t
        else if ty = 3 then on_uploaded number t
        else if ty = 4 then restart number t
        else Inr (t, []))"

fun client_reads :: "bool \<Rightarrow> bool \<Rightarrow> byte list list \<Rightarrow> control" where
  "client_reads big unset [] = tell []"
| "client_reads big unset (d # ds) = then_do (client_on_read big unset d) (client_reads big unset ds)"

subsection \<open>The server\<close>

text \<open>
  The UDP servers by port and the ports by connection, both maps in the order of their keys; a connection is compared by its
  address.
\<close>

record hmTcpServer =
  udpPortManager :: "(nat \<times> hmUdpServer) list"
  udpConManager :: "(nat \<times> nat) list"

definition hmTcpServer_start :: hmTcpServer where
  "hmTcpServer_start = \<lparr>udpPortManager = map (\<lambda>port. (port, hmUdpServer_init)) [46001..<46038], udpConManager = []\<rparr>"

fun set_port :: "nat \<Rightarrow> nat \<Rightarrow> (nat \<times> nat) list \<Rightarrow> (nat \<times> nat) list" where
  "set_port c port [] = [(c, port)]"
| "set_port c port ((d, q) # ds) =
     (if c = d then (c, port) # ds else if c < d then (c, port) # (d, q) # ds else (d, q) # set_port c port ds)"

definition set_server :: "nat \<Rightarrow> hmUdpServer \<Rightarrow> (nat \<times> hmUdpServer) list \<Rightarrow> (nat \<times> hmUdpServer) list" where
  "set_server port s ps = map (\<lambda>(q, s'). if q = port then (q, s) else (q, s')) ps"

definition free_server :: "hmTcpServer \<Rightarrow> (nat \<times> hmUdpServer) option" where
  "free_server ts = find (\<lambda>(port, s). freePort s) (udpPortManager ts)"

definition server_on_read :: "bool \<Rightarrow> (nat \<Rightarrow> bool) \<Rightarrow> nat \<Rightarrow> byte list \<Rightarrow> hmTcpServer step" where
  "server_on_read big live c data ts =
     (if length data \<noteq> sizeof_TcpPacket \<or> TcpPacket_type data \<noteq> 0 then Inr (ts, [])
      else case free_server ts of
        None \<Rightarrow> Inr (ts, [])
      | Some (port, s) \<Rightarrow>
          let s1 = s\<lparr>freePort := False, tcpConn := Some c\<rparr>
          in res_bind (sendTcpPacket live 1 (of_nat port) s1) (\<lambda>(s2, out).
             Inr (ts\<lparr>udpPortManager := set_server port s2 (udpPortManager ts),
                    udpConManager := set_port c port (udpConManager ts)\<rparr>, out)))"

text \<open>\<open>erase (search, udpConManager.end ())\<close>: the entry of the connection and all behind it.\<close>

definition server_on_close :: "nat \<Rightarrow> hmTcpServer step" where
  "server_on_close c ts =
     (case map_of (udpConManager ts) c of
        None \<Rightarrow> Inr (ts, [])
      | Some port \<Rightarrow>
          (case map_of (udpPortManager ts) port of
             None \<Rightarrow> Inl Undefined_behaviour
           | Some s \<Rightarrow> res_bind (resetUdpServer s) (\<lambda>(s1, out).
               Inr (ts\<lparr>udpPortManager := set_server port s1 (udpPortManager ts),
                      udpConManager := takeWhile (\<lambda>(d, q). d \<noteq> c) (udpConManager ts)\<rparr>, out))))"


subsection \<open>What the two sides achieve\<close>

lemma server_run_append:
  "server_run big live now (ds @ es) s =
     res_bind (server_run big live now ds s) (\<lambda>(s1, out1). res_bind (server_run big live now es s1) (\<lambda>(s2, out2). Inr (s2, out1 @ out2)))"
  by (induction ds arbitrary: s) (auto simp: step_then_def res_bind_def split: sum.splits prod.splits)

lemma server_run_safe:
  assumes "fits F" "\<forall>d. Datagram d \<in> set es \<longrightarrow> datagram_of big F d" "upload_inv live F s" "Timeout \<notin> set es"
  shows "server_run big live now es s = Inl Division_by_zero \<and> 1 < packets_of F \<and> packets_of F < 10 \<or>
    (\<exists>s' out. server_run big live now es s = Inr (s', out) \<and> upload_inv live F s' \<and> set (saved out) \<subseteq> {F})"
  using assms(2-4)
proof (induction es arbitrary: s)
  case (Cons e es)
  obtain d where e: "e = Datagram d" using Cons.prems(3) by (cases e) auto
  have d: "length d = sizeof_Packet" "client_packet F (Packet_load big d)"
    using Cons.prems(1) by (simp_all add: datagram_of_def e)
  from packet_step [OF Cons.prems(2) d(2) assms(1) d(1), of now] show ?case
  proof (elim disjE exE conjE)
    fix s1 out1
    assume one: "OnUdpSocketPacketReceived big live now d s = Inr (s1, out1)" "upload_inv live F s1" "set (saved out1) \<subseteq> {F}"
    from Cons.IH [OF _ one(2)] Cons.prems(1,3) one show ?thesis by (auto simp: step_then_def e)
  qed (simp add: step_then_def e)
qed simp

text \<open>With the timer, the beginning of the file may be saved in its place.\<close>

definition part_of :: "byte list \<Rightarrow> byte list \<Rightarrow> bool" where
  "part_of F x = (x = F \<or> (\<exists>n\<le>UdpDataSize. x = take n F))"

lemma server_run_timeouts:
  assumes "fits F" "\<forall>d. Datagram d \<in> set es \<longrightarrow> datagram_of big F d" "upload_inv live F s \<or> expired_inv live F s"
  shows "server_run big live now es s = Inl Division_by_zero \<and> packets_of F < 10 \<or>
    (\<exists>s' out. server_run big live now es s = Inr (s', out) \<and> list_all (part_of F) (saved out))"
  using assms(2,3)
proof (induction es arbitrary: s)
  case (Cons e es)
  have rest: "\<forall>d. Datagram d \<in> set es \<longrightarrow> datagram_of big F d" using Cons.prems(1) by simp
  have step: "udp_step big live now e s = Inl Division_by_zero \<and> packets_of F < 10 \<or>
    (\<exists>s1 out1. udp_step big live now e s = Inr (s1, out1) \<and> (upload_inv live F s1 \<or> expired_inv live F s1) \<and> list_all (part_of F) (saved out1))"
  proof (cases e)
    case Timeout
    then show ?thesis using timeout_step [OF Cons.prems(2)] by auto
  next
    case (Datagram d)
    then have d: "length d = sizeof_Packet" "client_packet F (Packet_load big d)"
      using Cons.prems(1) by (simp_all add: datagram_of_def)
    from Cons.prems(2) show ?thesis
    proof
      assume "upload_inv live F s"
      from packet_step [OF this d(2) assms(1) d(1), of now] show ?thesis
        by (fastforce simp: Datagram list_all_iff part_of_def)
    next
      assume "expired_inv live F s"
      from expired_packet_step [OF this d(2) assms(1) d(1), of now] show ?thesis
        by (fastforce simp: Datagram list_all_iff part_of_def)
    qed
  qed
  show ?case
  proof (cases "udp_step big live now e s")
    case (Inl err)
    then show ?thesis using step by (simp add: step_then_def)
  next
    case (Inr r)
    then obtain s1 out1 where one: "udp_step big live now e s = Inr (s1, out1)" "upload_inv live F s1 \<or> expired_inv live F s1"
      "list_all (part_of F) (saved out1)" using step by auto
    from Cons.IH [OF rest one(2)] one show ?thesis by (auto simp: step_then_def)
  qed
qed simp

lemma fresh_server: "live c \<Longrightarrow> upload_inv live F (take_port c hmUdpServer_init)"
  by (simp add: upload_inv_def take_port_def hmUdpServer_init_def Timer_init_def usable_def uv_timer_init_def)


lemma rows_received:
  assumes "fits F" "list_all2 (row_datagram big F) [k..<packets_of F] ds" "at_row live F k s" "k < packets_of F"
    "packets_of F = 1 \<or> 10 \<le> packets_of F"
  shows "\<exists>s' out. server_run big live now (map Datagram ds) s = Inr (s', out) \<and> saved out = [F] \<and>
    told (tcpConn s) (of_nat (packets_of F - 1)) out"
  using assms(2-4)
proof (induction "packets_of F - k" arbitrary: k ds s)
  case (Suc j)
  then obtain d ds' where ds: "ds = d # ds'" "row_datagram big F k d" "list_all2 (row_datagram big F) [Suc k..<packets_of F] ds'"
    by (auto simp: upt_conv_Cons list_all2_Cons1)
  then have recv: "OnUdpSocketPacketReceived big live now d s = on_row live (Packet_load big d) s" for s
    by (simp add: OnUdpSocketPacketReceived_def row_datagram_def row_packet_def Let_def)
  have "Suc k = packets_of F \<or> 10 \<le> packets_of F" using assms(5) Suc.prems(3) by auto
  from row_in_order [OF Suc.prems(2,3) assms(1) _ this, of "Packet_load big d"] ds(2)
  obtain s1 out1 where one: "on_row live (Packet_load big d) s = Inr (s1, out1)" "at_row live F (Suc k) s1" "tcpConn s1 = tcpConn s"
    "saved out1 = (if Suc k = packets_of F then [F] else [])"
    "if Suc k = packets_of F then told (tcpConn s) (of_nat k) out1 else True" by (fastforce simp: row_datagram_def)
  show ?case
  proof (cases "Suc k = packets_of F")
    case True
    then have "ds' = []" "packets_of F - 1 = k" using ds(3) by auto
    then show ?thesis using one ds(1) recv True by (simp add: step_then_def)
  next
    case False
    then have "j = packets_of F - Suc k" "Suc k < packets_of F" using Suc by auto
    from Suc.hyps(1) [OF this(1) ds(3) one(2) this(2)]
    obtain s' out where "server_run big live now (map Datagram ds') s1 = Inr (s', out)" "saved out = [F]"
      "told (tcpConn s1) (of_nat (packets_of F - 1)) out" by blast
    then show ?thesis using one ds(1) recv False by (auto simp: step_then_def told_def split: option.splits)
  qed
qed simp

text \<open>A client whose upload the last packet ends.\<close>

definition uploading :: "nat \<Rightarrow> hmTcpClient \<Rightarrow> bool" where
  "uploading n t =
     (\<not> shuttingDown t \<and> has_success t \<and> usable (t_timer t) \<and>
      (case udpsocket t of None \<Rightarrow> False | Some u \<Rightarrow> c_lastPacketNo u = of_nat n) \<and> (has_progress t \<longrightarrow> 10 \<le> n))"

lemma last_packet_told:
  assumes "uploading n t" "n \<le> serverCount" "length stack = sizeof_TcpPacket"
  shows "\<exists>t' out. client_on_read big unset (TcpPacket_bytes big stack 3 (of_nat n - 1)) t = Inr (t', out) \<and>
    fnSuccess \<in> set out \<and> shuttingDown t'"
proof -
  obtain u where u: "udpsocket t = Some u" "c_lastPacketNo u = of_nat n" using assms(1)
    by (auto simp: uploading_def split: option.splits)
  have "has_progress t \<Longrightarrow> unat (c_lastPacketNo u div 10) \<noteq> 0"
    using assms(1) word_counts(1) [OF assms(2)] by (auto simp: u unat_div uploading_def div_greater_zero_iff)
  then have "has_progress t \<Longrightarrow> (of_nat n :: u32) div 10 \<noteq> 0" by (metis u(2) unat_0)
  then have progress: "\<exists>out. tell_progress v u t' = Inr (t', out)" if "has_progress t' = has_progress t" for v t'
    using that by (auto simp: tell_progress_def u)
  obtain h where "Timer_Stop (t_timer t) = Inr h" using Timer_Stop_usable [of "t_timer t"] assms(1) by (auto simp: uploading_def)
  then show ?thesis
    using assms(1) u TcpPacket_roundtrip [OF assms(3)] progress [of "t\<lparr>en_state := Progess, udpsocket := Some (u\<lparr>c_uploadedPacketNO := of_nat n - 1\<rparr>)\<rparr>" "of_nat n - 1"]
    by (auto simp: client_on_read_def on_uploaded_def with_socket_def control_simps client_timer_def client_shutdown_def uploading_def
      Let_def)
qed


lemma last_number: "fits F \<Longrightarrow> (of_nat (packets_of F - 1) :: u32) = of_nat (packets_of F) - 1"
  using word_counts(4) [of "packets_of F"] packets_pos [of F] by (simp add: fits_def)


text \<open>
  When all rows but the last have been stored and the network repeats a datagram, the
  server answers with its position, which is the number of the last packet: the client reports
  success and shuts down, although the last row was not received and nothing was saved.
\<close>

theorem premature_success:
  assumes "at_row live F (packets_of F - 1) s" "waitingPtr s = - 1" "tcpConn s = Some c" "fits F"
    "Suc k < packets_of F" "row_datagram big F k d" "uploading (packets_of F) t" "length stack8 = sizeof_TcpPacket"
  shows "\<exists>s' t' out. OnUdpSocketPacketReceived big live now d s = Inr (s', [Tcp_send c 3 (of_nat (packets_of F) - 1)]) \<and>
    client_on_read big unset (TcpPacket_bytes big stack8 3 (of_nat (packets_of F) - 1)) t = Inr (t', out) \<and>
    fnSuccess \<in> set out \<and> shuttingDown t'"
proof -
  have n: "packets_of F \<le> serverCount" "0 < packets_of F" using assms(4) packets_pos by (auto simp: fits_def)
  obtain c' where c: "live c" "curPtr s = int (packets_of F - 1)"
    using assms(1,3) by (auto elim: at_rowE)
  have "unat (pk_number (Packet_load big d)) = k"
    using assms(5,6) n(1) by (simp add: row_datagram_def row_packet_def word_counts(1))
  then have "uint (pk_number (Packet_load big d)) = int k" by (simp add: uint_nat)
  moreover have "(word_of_int (int (packets_of F - 1)) :: u32) = of_nat (packets_of F) - 1"
    using last_number [OF assms(4)] by simp
  ultimately have "OnUdpSocketPacketReceived big live now d s =
      Inr (s\<lparr>waitingPtr := curPtr s\<rparr>, [Tcp_send c 3 (of_nat (packets_of F) - 1)])"
    using assms(2,3,5,6) c
    by (simp add: OnUdpSocketPacketReceived_def row_datagram_def row_packet_def on_row_def wait_for_def step_simps
      sendTcpPacket_def Let_def)
  then show ?thesis using last_packet_told [OF assms(7) n(1) assms(8), of big unset] by blast
qed

lemma more_told:
  assumes "uploading n t" "n \<le> serverCount" "length stack = sizeof_TcpPacket" "v \<noteq> of_nat n - 1"
  shows "\<exists>t' out. client_on_read big unset (TcpPacket_bytes big stack 3 v) t = Inr (t', out) \<and> uploading n t'"
proof -
  obtain u where u: "udpsocket t = Some u" "c_lastPacketNo u = of_nat n" using assms(1)
    by (auto simp: uploading_def split: option.splits)
  define t1 where "t1 = t\<lparr>en_state := Progess, udpsocket := Some (u\<lparr>c_uploadedPacketNO := v\<rparr>)\<rparr>"
  have t1: "uploading n t1" using assms(1) u by (simp add: uploading_def t1_def)
  have "has_progress t \<Longrightarrow> unat (c_lastPacketNo u div 10) \<noteq> 0"
    using assms(1) word_counts(1) [OF assms(2)] by (auto simp: u unat_div uploading_def div_greater_zero_iff)
  then have "has_progress t \<Longrightarrow> (of_nat n :: u32) div 10 \<noteq> 0" by (metis u(2) unat_0)
  then have "\<exists>out. tell_progress v u t1 = Inr (t1, out)" by (cases "has_progress t") (simp_all add: tell_progress_def u t1_def)
  then obtain out where told: "tell_progress v u t1 = Inr (t1, out)" by blast
  obtain h where h: "Timer_Reset (t_timer t1) = Inr h" "usable h"
    using Timer_Reset_usable [of "t_timer t1"] t1 by (auto simp: uploading_def)
  have "uploading n (t1\<lparr>t_timer := h\<rparr>)" using t1 h by (simp add: uploading_def)
  moreover have "client_on_read big unset (TcpPacket_bytes big stack 3 v) t = Inr (t1\<lparr>t_timer := h\<rparr>, On_thread (Set_uploaded v) # out)"
    using assms(1,4) u TcpPacket_roundtrip [OF assms(3)] told h(1)
    by (simp add: client_on_read_def on_uploaded_def with_socket_def control_simps client_timer_def uploading_def Let_def
      flip: t1_def)
  ultimately show ?thesis by blast
qed

text \<open>
  When TCP delivers the last control packet in one read with the packet before it, the client
  drops both; had they been read one by one it would have reported success.
\<close>

theorem joined_packets_dropped:
  assumes "uploading n t" "n \<le> serverCount" "length stack8 = sizeof_TcpPacket" "v \<noteq> of_nat n - 1"
    "p = TcpPacket_bytes big stack8 3 v" "l = TcpPacket_bytes big stack8 3 (of_nat n - 1)"
  shows "client_reads big unset [p @ l] t = Inr (t, []) \<and>
    (\<exists>t' out. client_reads big unset [p, l] t = Inr (t', out) \<and> fnSuccess \<in> set out)"
proof
  have "length (p @ l) = 16" using TcpPacket_roundtrip(1) [OF assms(3)] by (simp add: assms(5,6) sizeof_TcpPacket_def)
  then show "client_reads big unset [p @ l] t = Inr (t, [])"
    by (simp add: client_on_read_def control_simps sizeof_TcpPacket_def)
  obtain t1 out1 where one: "client_on_read big unset p t = Inr (t1, out1)" "uploading n t1"
    using more_told [OF assms(1-4), of big unset] assms(5) by blast
  obtain t2 out2 where "client_on_read big unset l t1 = Inr (t2, out2)" "fnSuccess \<in> set out2"
    using last_packet_told [OF one(2) assms(2,3), of big unset] assms(6) by blast
  then show "\<exists>t' out. client_reads big unset [p, l] t = Inr (t', out) \<and> fnSuccess \<in> set out"
    using one(1) by (simp add: control_simps)
qed

subsection \<open>The ports\<close>

definition ports_inv :: "hmTcpServer \<Rightarrow> bool" where
  "ports_inv ts =
     (sorted_wrt (<) (map fst (udpConManager ts)) \<and> distinct (map snd (udpConManager ts)) \<and>
      distinct (map fst (udpPortManager ts)) \<and>
      (\<forall>(c, port) \<in> set (udpConManager ts). \<exists>s. map_of (udpPortManager ts) port = Some s \<and> \<not> freePort s) \<and>
      (\<forall>(port, s) \<in> set (udpPortManager ts). usable (m_ping_timeout_timer s)))"

lemma set_port_subset: "set (set_port c port m) \<subseteq> insert (c, port) (set m)"
  by (induction c port m rule: set_port.induct) auto

lemma sorted_set_port: "sorted_wrt (<) (map fst m) \<Longrightarrow> sorted_wrt (<) (map fst (set_port c port m))"
proof (induction c port m rule: set_port.induct)
  case (2 c port d q ds)
  then show ?case using set_port_subset [of c port ds] by (fastforce simp: image_iff)
qed simp

lemma distinct_set_port:
  "distinct (map snd m) \<Longrightarrow> port \<notin> snd ` set m \<Longrightarrow> distinct (map snd (set_port c port m))"
proof (induction c port m rule: set_port.induct)
  case (2 c port d q ds)
  then show ?case using set_port_subset [of c port ds] by (fastforce simp: image_iff)
qed simp

lemma map_of_set_server:
  "map_of (set_server port s ps) q = (if q = port \<and> map_of ps q \<noteq> None then Some s else map_of ps q)"
  by (induction ps) (auto simp: set_server_def)

lemma fst_set_server: "map fst (set_server port s ps) = map fst ps"
  by (induction ps) (auto simp: set_server_def)

lemma set_set_server: "set (set_server port s ps) \<subseteq> insert (port, s) (set ps)"
  by (auto simp: set_server_def split: if_splits)

text \<open>
  What happens to the server, one after the other: reads and closes of its connections, datagrams that arrive at a port, and
  the timer of a port that is due.
\<close>

datatype tcp_event = Tcp_read nat "byte list" | Tcp_closed nat | Udp_received int nat "byte list" | Udp_timeout nat

definition on_port_server :: "nat \<Rightarrow> hmUdpServer step \<Rightarrow> hmTcpServer step" where
  "on_port_server port f ts =
     (case map_of (udpPortManager ts) port of
        None \<Rightarrow> Inr (ts, [])
      | Some s \<Rightarrow> res_bind (f s) (\<lambda>(s1, out). Inr (ts\<lparr>udpPortManager := set_server port s1 (udpPortManager ts)\<rparr>, out)))"

fun tcp_step :: "bool \<Rightarrow> (nat \<Rightarrow> bool) \<Rightarrow> tcp_event \<Rightarrow> hmTcpServer step" where
  "tcp_step big live (Tcp_read c data) = server_on_read big live c data"
| "tcp_step big live (Tcp_closed c) = server_on_close c"
| "tcp_step big live (Udp_received now port data) = on_port_server port (OnUdpSocketPacketReceived big live now data)"
| "tcp_step big live (Udp_timeout port) = on_port_server port udp_timeout"

fun tcp_run :: "bool \<Rightarrow> (nat \<Rightarrow> bool) \<Rightarrow> tcp_event list \<Rightarrow> hmTcpServer step" where
  "tcp_run big live [] ts = Inr (ts, [])"
| "tcp_run big live (e # es) ts = step_then (tcp_step big live e) (tcp_run big live es) ts"

text \<open>Whether in a history the timer of a port is due that a connection holds.\<close>

fun expires :: "tcp_event \<Rightarrow> hmTcpServer \<Rightarrow> bool" where
  "expires (Udp_timeout port) ts = (port \<in> snd ` set (udpConManager ts))"
| "expires _ ts = False"

fun held_expires :: "bool \<Rightarrow> (nat \<Rightarrow> bool) \<Rightarrow> tcp_event list \<Rightarrow> hmTcpServer \<Rightarrow> bool" where
  "held_expires big live [] ts = False"
| "held_expires big live (e # es) ts =
     (expires e ts \<or> (case tcp_step big live e ts of Inl _ \<Rightarrow> False | Inr (ts', _) \<Rightarrow> held_expires big live es ts'))"

lemma ports_inv_start: "ports_inv hmTcpServer_start"
  by (auto simp: ports_inv_def hmTcpServer_start_def hmUdpServer_init_def Timer_init_def usable_def uv_timer_init_def o_def)

lemma find_Some: "find P xs = Some x \<Longrightarrow> x \<in> set xs \<and> P x"
  by (auto simp: find_Some_iff in_set_conv_nth)

lemma ports_inv_read:
  assumes "ports_inv ts" "server_on_read big live c data ts = Inr (ts', out)"
  shows "ports_inv ts'"
proof (cases "ts' = ts")
  case False
  then obtain port s s2 where free: "free_server ts = Some (port, s)" and
    sent: "sendTcpPacket live 1 (of_nat port) (s\<lparr>freePort := False, tcpConn := Some c\<rparr>) = Inr (s2, out)" and
    ts': "ts' = ts\<lparr>udpPortManager := set_server port s2 (udpPortManager ts), udpConManager := set_port c port (udpConManager ts)\<rparr>"
    using assms(2) by (auto simp: server_on_read_def res_bind_Inr split: if_splits option.splits)
  have s2: "s2 = s\<lparr>freePort := False, tcpConn := Some c\<rparr>"
    using sent by (auto simp: sendTcpPacket_def split: if_splits)
  have s: "(port, s) \<in> set (udpPortManager ts)" "freePort s" using find_Some free by (fastforce simp: free_server_def)+
  then have at_port: "map_of (udpPortManager ts) port = Some s" using assms(1) by (simp add: ports_inv_def)
  then have unused: "port \<notin> snd ` set (udpConManager ts)" using assms(1) s(2) by (fastforce simp: ports_inv_def)
  have "usable (m_ping_timeout_timer s2)" using assms(1) s(1) s2 by (auto simp: ports_inv_def)
  then show ?thesis
    using assms(1) unused at_port s2 set_port_subset [of c port "udpConManager ts"] set_set_server [of port s2 "udpPortManager ts"]
    unfolding ports_inv_def ts'
    by (auto simp: sorted_set_port distinct_set_port fst_set_server map_of_set_server split: prod.splits)
qed (use assms(1) in simp)

lemma ports_inv_close:
  assumes "ports_inv ts" "server_on_close c ts = Inr (ts', out)"
  shows "ports_inv ts'"
proof (cases "ts' = ts")
  case False
  then obtain port s s1 where con: "map_of (udpConManager ts) c = Some port" and s: "map_of (udpPortManager ts) port = Some s" and
    reset: "resetUdpServer s = Inr (s1, out)" and
    ts': "ts' = ts\<lparr>udpPortManager := set_server port s1 (udpPortManager ts),
      udpConManager := takeWhile (\<lambda>(d, q). d \<noteq> c) (udpConManager ts)\<rparr>"
    using assms(2) by (auto simp: server_on_close_def res_bind_Inr split: option.splits)
  let ?kept = "takeWhile (\<lambda>(d, q). d \<noteq> c) (udpConManager ts)"
  have u: "usable (m_ping_timeout_timer s)" using assms(1) map_of_SomeD [OF s] by (auto simp: ports_inv_def)
  then have "usable (m_ping_timeout_timer s1)" using reset_step [OF u] reset by auto
  moreover obtain rest where split: "udpConManager ts = ?kept @ rest" by (metis takeWhile_dropWhile_id)
  moreover have "(c, port) \<notin> set ?kept" by (auto dest: set_takeWhileD)
  then have "(c, port) \<in> set rest" using map_of_SomeD [OF con] split by (metis Un_iff set_append)
  then have "port \<notin> snd ` set ?kept" using assms(1) split unfolding ports_inv_def
    by (metis (no_types, lifting) distinct_append disjoint_iff image_eqI map_append set_map snd_conv)
  then have "(d, port) \<notin> set ?kept" for d by force
  moreover have "map fst (udpConManager ts) = map fst ?kept @ map fst rest" "map snd (udpConManager ts) = map snd ?kept @ map snd rest"
    "set ?kept \<subseteq> set (udpConManager ts)" using split by (metis map_append, metis map_append, metis set_append Un_upper1)
  then have "sorted_wrt (<) (map fst ?kept)" "distinct (map snd ?kept)" "set ?kept \<subseteq> set (udpConManager ts)"
    using assms(1) by (simp_all add: ports_inv_def sorted_wrt_append)
  ultimately show ?thesis
    using assms(1) set_set_server [of port s1 "udpPortManager ts"] unfolding ports_inv_def ts'
    by (auto simp: fst_set_server map_of_set_server split: prod.splits)
qed (use assms(1) in simp)


text \<open>A datagram never frees its port, and leaves the timer usable.\<close>

definition keeps_port :: "hmUdpServer \<Rightarrow> (hmUdpServer \<times> effect list) res \<Rightarrow> bool" where
  "keeps_port s r = (case r of Inl _ \<Rightarrow> True
     | Inr (s', _) \<Rightarrow> usable (m_ping_timeout_timer s) \<longrightarrow> usable (m_ping_timeout_timer s') \<and> (freePort s' \<longrightarrow> freePort s))"

lemma keeps_port_then: "keeps_port s (f s) \<Longrightarrow> (\<And>s1. keeps_port s1 (g s1)) \<Longrightarrow> keeps_port s (step_then f g s)"
  unfolding keeps_port_def step_then_def res_bind_def by (cases "f s") (fastforce split: sum.splits)+

lemma keeps_port_act:
  "m_ping_timeout_timer (f s) = m_ping_timeout_timer s \<Longrightarrow> (freePort (f s) \<Longrightarrow> freePort s) \<Longrightarrow> keeps_port s (act f s)"
  by (simp add: keeps_port_def act_def)

lemma keeps_port_if: "(P \<Longrightarrow> keeps_port s a) \<Longrightarrow> (\<not> P \<Longrightarrow> keeps_port s b) \<Longrightarrow> keeps_port s (if P then a else b)"
  by simp

lemma keeps_port_same: "keeps_port s (Inl e)" "keeps_port s (Inr (s, out))"
  by (simp_all add: keeps_port_def)

lemma keeps_port_timer:
  "keeps_port s (server_timer Timer_Reset s)" "keeps_port s (server_timer (Timer_Start a b) s)"
  using Timer_Reset_usable [of "m_ping_timeout_timer s"] Timer_Start_usable [of "m_ping_timeout_timer s" a b]
  by (auto simp: keeps_port_def server_timer_def res_bind_def split: sum.splits)

lemma keeps_port_basic:
  "keeps_port s (sendTcpPacket live ty v s)" "keeps_port s (savetoS3 s)" "keeps_port s (savetoDB s)" "keeps_port s (store_row p s)"
  by (auto simp: keeps_port_def sendTcpPacket_def savetoS3_def savetoDB_def store_row_def res_bind_def Let_def
      split: option.splits sum.splits)

lemmas keeps_port_intros = keeps_port_basic keeps_port_timer keeps_port_same keeps_port_then keeps_port_if

lemma keeps_port_report: "keeps_port s (report live p tenth s)"
  unfolding report_def by (intro keeps_port_then keeps_port_timer) (auto intro!: keeps_port_intros keeps_port_act)

lemma keeps_port_progress: "keeps_port s (progress live p s)"
  unfolding progress_def Let_def by (intro keeps_port_intros keeps_port_report keeps_port_act) simp_all

lemma keeps_port_row: "keeps_port s (on_row live p s)"
  unfolding on_row_def Let_def wait_for_def
  by (intro keeps_port_intros keeps_port_progress keeps_port_act) simp_all

lemma keeps_port_received: "keeps_port s (OnUdpSocketPacketReceived big live now data s)"
proof -
  have "keeps_port s (on_header now p s)" for p
    using Timer_Start_usable [of "m_ping_timeout_timer s" 60000 60000]
    by (auto simp: on_header_def Let_def keeps_port_def server_timer_def res_bind_def split: sum.splits)
  then show ?thesis
    unfolding OnUdpSocketPacketReceived_def Let_def by (intro keeps_port_if keeps_port_same keeps_port_row)
qed

lemma ports_inv_server:
  assumes "ports_inv ts" "map_of (udpPortManager ts) port = Some s" "usable (m_ping_timeout_timer s1)"
    "freePort s1 \<Longrightarrow> freePort s \<or> port \<notin> snd ` set (udpConManager ts)"
  shows "ports_inv (ts\<lparr>udpPortManager := set_server port s1 (udpPortManager ts)\<rparr>)"
proof -
  have "\<exists>s. map_of (set_server port s1 (udpPortManager ts)) q = Some s \<and> \<not> freePort s" if "(c, q) \<in> set (udpConManager ts)" for c q
    using assms(1,2,4) that by (force simp: ports_inv_def map_of_set_server)
  moreover have "usable (m_ping_timeout_timer s')" if "(q, s') \<in> set (set_server port s1 (udpPortManager ts))" for q s'
    using assms(1,3) that set_set_server [of port s1 "udpPortManager ts"] by (auto simp: ports_inv_def)
  ultimately show ?thesis using assms(1) by (auto simp: ports_inv_def fst_set_server)
qed

lemma timeout_usable: "usable (m_ping_timeout_timer s) \<Longrightarrow> udp_timeout s = Inr (s', out) \<Longrightarrow> usable (m_ping_timeout_timer s')"
  using reset_step [of "s\<lparr>m_ping_timeout_timer := Timer_due (m_ping_timeout_timer s)\<rparr>"]
  by (auto simp: udp_timeout_def step_then_def server_timer_def Timer_due_def usable_def split: if_splits option.splits)

lemma ports_inv_step:
  assumes "ports_inv ts" "tcp_step big live e ts = Inr (ts', out)" "\<not> expires e ts"
  shows "ports_inv ts'"
proof (cases e)
  case (Udp_received now port data)
  show ?thesis
  proof (cases "map_of (udpPortManager ts) port")
    case (Some s)
    then obtain s1 where s1: "OnUdpSocketPacketReceived big live now data s = Inr (s1, out)"
      "ts' = ts\<lparr>udpPortManager := set_server port s1 (udpPortManager ts)\<rparr>"
      using assms(2) by (auto simp: Udp_received on_port_server_def res_bind_Inr)
    have "usable (m_ping_timeout_timer s)" using assms(1) map_of_SomeD [OF Some] by (auto simp: ports_inv_def)
    then show ?thesis
      using ports_inv_server [OF assms(1) Some, of s1] keeps_port_received [of s big live now data] s1 by (simp add: keeps_port_def)
  qed (use assms in \<open>simp add: Udp_received on_port_server_def\<close>)
next
  case (Udp_timeout port)
  show ?thesis
  proof (cases "map_of (udpPortManager ts) port")
    case (Some s)
    then obtain s1 where s1: "udp_timeout s = Inr (s1, out)" "ts' = ts\<lparr>udpPortManager := set_server port s1 (udpPortManager ts)\<rparr>"
      using assms(2) by (auto simp: Udp_timeout on_port_server_def res_bind_Inr)
    have "usable (m_ping_timeout_timer s)" using assms(1) map_of_SomeD [OF Some] by (auto simp: ports_inv_def)
    then show ?thesis
      using ports_inv_server [OF assms(1) Some timeout_usable [OF _ s1(1)]] s1(2) assms(3) by (simp add: Udp_timeout)
  qed (use assms in \<open>simp add: Udp_timeout on_port_server_def\<close>)
qed (use assms in \<open>auto intro: ports_inv_read ports_inv_close\<close>)

lemma ports_inv_run: "ports_inv ts \<Longrightarrow> tcp_run big live es ts = Inr (ts', out) \<Longrightarrow> \<not> held_expires big live es ts \<Longrightarrow> ports_inv ts'"
proof (induction es arbitrary: ts out)
  case (Cons e es)
  then obtain ts1 out1 out2 where one: "tcp_step big live e ts = Inr (ts1, out1)" "tcp_run big live es ts1 = Inr (ts', out2)"
    by (auto simp: step_then_def res_bind_Inr)
  then have "ports_inv ts1" using Cons.prems(1,3) ports_inv_step by auto
  then show ?case using Cons.IH one Cons.prems(3) by auto
qed simp

text \<open>
  C23: Whatever connections ask for ports and close, whatever datagrams arrive at the ports
  and whichever timers are due, in any order, two connections never hold the same UDP port and
  a port that a connection holds is not free, as long as the timer of 60 seconds is not due
  for a port that a connection holds. (When it is, the port is given to the next connection as
  well: expired_port_is_shared.)
\<close>

theorem ports_are_exclusive:
  assumes "tcp_run big live es hmTcpServer_start = Inr (ts, out)" "\<not> held_expires big live es hmTcpServer_start"
  shows "distinct (map snd (udpConManager ts)) \<and>
    list_all (\<lambda>(c, port). case map_of (udpPortManager ts) port of Some s \<Rightarrow> \<not> freePort s | None \<Rightarrow> False) (udpConManager ts)"
  using ports_inv_run [OF ports_inv_start assms] by (force simp: ports_inv_def list_all_iff)

text \<open>
  Closing a connection also forgets every connection with a higher address: when one of
  those is closed in turn, nothing happens, and its port stays taken for good.
\<close>

theorem closed_connection_leaks_port:
  assumes "ports_inv ts" "(a, p) \<in> set (udpConManager ts)" "(b, q) \<in> set (udpConManager ts)" "a < b"
  shows "\<exists>ts1 out. server_on_close a ts = Inr (ts1, out) \<and> server_on_close b ts1 = Inr (ts1, []) \<and>
    (\<exists>s. map_of (udpPortManager ts1) q = Some s \<and> \<not> freePort s)"
proof -
  let ?con = "udpConManager ts" and ?kept = "takeWhile (\<lambda>(d, q). d \<noteq> a) (udpConManager ts)"
  have inv: "sorted_wrt (<) (map fst ?con)" "distinct (map snd ?con)"
    "\<exists>s. map_of (udpPortManager ts) p = Some s \<and> \<not> freePort s" "\<exists>s. map_of (udpPortManager ts) q = Some s \<and> \<not> freePort s"
    using assms(1-3) by (auto simp: ports_inv_def)
  have "distinct (map fst ?con)" using inv(1) strict_sorted_iff by blast
  then have con: "map_of ?con a = Some p" using assms(2) by simp
  obtain s where s: "map_of (udpPortManager ts) p = Some s" using inv(3) by blast
  then have "usable (m_ping_timeout_timer s)" using assms(1) map_of_SomeD [OF s] by (auto simp: ports_inv_def)
  then obtain s1 where reset: "resetUdpServer s = Inr (s1, [])" using reset_step by blast
  have "p \<noteq> q" using inv(2) assms(2-4) by (metis (mono_tags, lifting) eq_key_imp_eq_value less_irrefl prod.inject distinct_map inj_onD snd_conv)
  moreover have "map_of ?kept b = None"
  proof -
    obtain rest where split: "?con = ?kept @ rest" by (metis takeWhile_dropWhile_id)
    have "(a, p) \<notin> set ?kept" by (auto dest: set_takeWhileD)
    then have "(a, p) \<in> set rest" using assms(2) split by (metis Un_iff set_append)
    moreover have "sorted_wrt (<) (map fst ?kept @ map fst rest)" using inv(1) split by (metis map_append)
    ultimately have "d < a" if "(d, r) \<in> set ?kept" for d r
      using that by (force simp: sorted_wrt_append)
    then show ?thesis using assms(4) by (fastforce simp: map_of_eq_None_iff)
  qed
  ultimately show ?thesis using con s reset inv(4) by (auto simp: server_on_close_def map_of_set_server)
qed


subsection \<open>Concrete uploads\<close>

lemma calm_alone: "length stack = sizeof_Packet \<Longrightarrow> calm big (replicate m (Run stack)) c"
  by (induction m arbitrary: c) (auto split: sum.splits)

lemma ten_rows: "fits (replicate 10240 b)" "packets_of (replicate 10240 b) = 10"
  by (simp_all add: fits_def packets_of_def UdpDataSize_def serverCount_def)


definition example_client :: "nat \<Rightarrow> hmTcpClient" where
  "example_client n =
     \<lparr>udpsocket = Some ((hmUdpClient_upload False [] [] [])\<lparr>c_lastPacketNo := of_nat n\<rparr>), t_timer = Timer_init,
      m_file = None, m_driverId = [], m_metaData = [], en_state = Connected, shuttingDown = False,
      has_progress = False, has_success = True, has_failure = False\<rparr>"

lemma example_uploading: "uploading n (example_client n)"
  by (simp add: uploading_def example_client_def Timer_init_def usable_def uv_timer_init_def)


text \<open>Two rows, of which the second is missing.\<close>

theorem premature_success_witness:
  "\<exists>s' t' out. OnUdpSocketPacketReceived False (\<lambda>_. True) 0
       (Packet_bytes False (replicate sizeof_Packet 0) 1 0 1024 (replicate 1024 7)) stopped_upload = Inr (s', [Tcp_send 1 3 1]) \<and>
     client_on_read False False (TcpPacket_bytes False (replicate sizeof_TcpPacket 0) 3 1) (example_client 2) = Inr (t', out) \<and>
     fnSuccess \<in> set out"
proof -
  let ?d = "Packet_bytes False (replicate sizeof_Packet 0) 1 0 1024 (replicate 1024 7)"
  have d: "row_datagram False (replicate 2048 7) 0 ?d"
    unfolding row_datagram_def
    by (simp add: length_Packet_bytes UdpDataSize_def Packet_load_bytes row_packet_def file_row_def)
      (simp add: sizeof_Packet_def UdpDataSize_def)
  have at_last: "at_row (\<lambda>_. True) (replicate 2048 7) (packets_of (replicate 2048 (7 :: byte)) - 1) stopped_upload"
    using stopped_upload_at by (simp add: two_rows)
  have s: "waitingPtr stopped_upload = - 1" "tcpConn stopped_upload = Some 1"
    by (simp_all add: stopped_upload_def hmUdpServer_init_def)
  show ?thesis
    using premature_success [OF at_last s two_rows(1) _ d, of "example_client 2" "replicate sizeof_TcpPacket 0" 0 False]
      example_uploading [of 2] by (fastforce simp: two_rows)
qed

theorem joined_packets_dropped_witness:
  "client_reads False False [TcpPacket_bytes False (replicate 8 0) 3 0 @ TcpPacket_bytes False (replicate 8 0) 3 1] (example_client 2) =
     Inr (example_client 2, []) \<and>
   (\<exists>t' out. client_reads False False [TcpPacket_bytes False (replicate 8 0) 3 0, TcpPacket_bytes False (replicate 8 0) 3 1]
      (example_client 2) = Inr (t', out) \<and> fnSuccess \<in> set out)"
  using joined_packets_dropped [OF example_uploading [of 2], of "replicate 8 0" 0 _ False _ False]
  by (simp add: serverCount_def sizeof_TcpPacket_def)

text \<open>Two connections that ask for a port each.\<close>

definition two_connections :: hmTcpServer where
  "two_connections =
     \<lparr>udpPortManager = [(46001, take_port 1 hmUdpServer_init), (46002, take_port 2 hmUdpServer_init)],
      udpConManager = [(1, 46001), (2, 46002)]\<rparr>"

theorem ports_are_exclusive_witness:
  "\<exists>ts out. tcp_run False (\<lambda>_. True) [Tcp_read 2 (replicate 8 0), Tcp_read 1 (replicate 8 0)] hmTcpServer_start = Inr (ts, out) \<and>
     distinct (map snd (udpConManager ts)) \<and> udpConManager ts = [(1, 46002), (2, 46001)]"
proof -
  have "[46001..<46038] = 46001 # 46002 # [46003..<46038]" by (simp add: upt_conv_Cons)
  then obtain ts out where run: "tcp_run False (\<lambda>_. True) [Tcp_read 2 (replicate 8 0), Tcp_read 1 (replicate 8 0)] hmTcpServer_start = Inr (ts, out)"
    "udpConManager ts = [(1, 46002), (2, 46001)]"
    by (simp add: step_then_def server_on_read_def sizeof_TcpPacket_def TcpPacket_type_def free_server_def hmTcpServer_start_def
      hmUdpServer_init_def sendTcpPacket_def set_server_def Let_def del: upt.simps upt_rec_numeral)
  have "\<not> held_expires False (\<lambda>_. True) [Tcp_read 2 (replicate 8 0), Tcp_read 1 (replicate 8 0)] hmTcpServer_start"
    by (simp split: sum.splits)
  from ports_are_exclusive [OF run(1) this] run show ?thesis by blast
qed

text \<open>
  With the timer: the first connection has sent its header and then nothing for a minute; the next connection is given the
  same port.
\<close>

lemma header_arms:
  assumes "usable (m_ping_timeout_timer s)" "0 \<in> set (pk_payload p)"
  shows "\<exists>s1. on_header now p s = Inr (s1, []) \<and> usable (m_ping_timeout_timer s1) \<and> armed (m_ping_timeout_timer s1) \<noteq> None"
proof -
  obtain t where "Timer_Start 60000 60000 (m_ping_timeout_timer s) = Inr t" "usable t" "armed t = Some (60000, 60000)"
    using Timer_Start_usable [OF assms(1)] by blast
  then show ?thesis using assms(2) by (auto simp: on_header_def Let_def server_timer_def)
qed

lemma timeout_frees:
  assumes "usable (m_ping_timeout_timer s)" "armed (m_ping_timeout_timer s) \<noteq> None"
  shows "\<exists>s1. udp_timeout s = Inr (s1, []) \<and> freePort s1"
  using reset_step [of "s\<lparr>m_ping_timeout_timer := Timer_due (m_ping_timeout_timer s)\<rparr>"] assms
  by (auto simp: udp_timeout_def step_then_def server_timer_def Timer_due_def usable_def split: option.splits)

lemma expired_port_is_shared:
  "\<exists>ts out. tcp_run False (\<lambda>_. True) [Tcp_read 1 (replicate 8 0), Udp_received 0 46001 (replicate sizeof_Packet 0),
       Udp_timeout 46001, Tcp_read 2 (replicate 8 0)] hmTcpServer_start = Inr (ts, out) \<and>
     udpConManager ts = [(1, 46001), (2, 46001)]"
proof -
  have ports: "[46001..<46038] = 46001 # [46002..<46038]" by (simp add: upt_conv_Cons)
  let ?s = "hmUdpServer_init\<lparr>freePort := False, tcpConn := Some 1\<rparr>" and ?d = "replicate sizeof_Packet (0 :: byte)"
  have u: "usable (m_ping_timeout_timer ?s)" by (simp add: hmUdpServer_init_def Timer_init_def usable_def uv_timer_init_def)
  have "0 \<in> set (pk_payload (Packet_load False ?d))" by (simp add: Packet_load_def sizeof_Packet_def UdpDataSize_def)
  from header_arms [OF u this, of 0] obtain s1 where
    s1: "on_header 0 (Packet_load False ?d) ?s = Inr (s1, [])" "usable (m_ping_timeout_timer s1)" "armed (m_ping_timeout_timer s1) \<noteq> None"
    by blast
  have "pk_type (Packet_load False ?d) = 0" by (simp add: Packet_load_def sizeof_Packet_def)
  then have recv: "OnUdpSocketPacketReceived False (\<lambda>_. True) 0 ?d ?s = Inr (s1, [])"
    using s1(1) by (simp add: OnUdpSocketPacketReceived_def Let_def)
  from timeout_frees [OF s1(2,3)] obtain s2 where s2: "udp_timeout s1 = Inr (s2, [])" "freePort s2" by blast
  let ?rest = "map (\<lambda>port. (port, hmUdpServer_init)) [46002..<46038]"
  define ts where "ts s cons = \<lparr>udpPortManager = (46001, s) # ?rest, udpConManager = cons\<rparr>" for s cons
  have set1: "set_server 46001 x ((46001, y) # ?rest) = (46001, x) # ?rest" for x y
    by (auto simp: set_server_def)
  have start: "hmTcpServer_start = ts hmUdpServer_init []" by (simp add: hmTcpServer_start_def ts_def ports del: upt.simps upt_rec_numeral)
  have read: "server_on_read False (\<lambda>_. True) c (replicate 8 0) (ts s cons) =
      Inr (ts (s\<lparr>freePort := False, tcpConn := Some c\<rparr>) (set_port c 46001 cons), [Tcp_send c 1 46001])" if "freePort s" for s c cons
    using that by (simp add: server_on_read_def sizeof_TcpPacket_def TcpPacket_type_def free_server_def ts_def sendTcpPacket_def set1 Let_def
        del: upt.simps upt_rec_numeral)
  have at: "on_port_server 46001 f (ts s cons) = res_bind (f s) (\<lambda>(s1, out). Inr (ts s1 cons, out))" for f s cons
    by (simp add: on_port_server_def ts_def set1 del: upt.simps upt_rec_numeral)
  have free: "freePort hmUdpServer_init" by (simp add: hmUdpServer_init_def)
  have "tcp_run False (\<lambda>_. True) [Tcp_read 1 (replicate 8 0), Udp_received 0 46001 ?d, Udp_timeout 46001, Tcp_read 2 (replicate 8 0)]
      hmTcpServer_start = Inr (ts (s2\<lparr>freePort := False, tcpConn := Some 2\<rparr>) [(1, 46001), (2, 46001)], [Tcp_send 1 1 46001, Tcp_send 2 1 46001])"
    using recv s2 by (simp add: start step_then_def read [OF free] read [OF s2(2)] at del: One_nat_def)
  moreover have "udpConManager (ts s cons) = cons" for s cons by (simp add: ts_def)
  ultimately show ?thesis by blast
qed

theorem closed_connection_leaks_port_witness:
  "\<exists>ts1 out. server_on_close 1 two_connections = Inr (ts1, out) \<and> server_on_close 2 ts1 = Inr (ts1, [])"
  using closed_connection_leaks_port [of two_connections 1 46001 2 46002]
  by (auto simp: two_connections_def ports_inv_def take_port_def hmUdpServer_init_def Timer_init_def usable_def uv_timer_init_def)

end
