(* ===== verification/Calendar.thy ===== *)
theory Calendar
  imports Prelude
begin

text \<open>
  The Gregorian calendar in integers, as what \<open>base/src/datetime.cpp\<close> means to compute: days are counted from the
  day before 1 March of the year 0, for all years, and years are taken to begin in March.
\<close>

subsection \<open>Dates\<close>

definition isLeapYear :: "int \<Rightarrow> bool" where
  "isLeapYear year = (year mod 4 = 0 \<and> (year mod 100 \<noteq> 0 \<or> year mod 400 = 0))"

definition month_lengths :: "int list" where
  "month_lengths = [0, 31, 28, 31, 30, 31, 30, 31, 31, 30, 31, 30, 31]"

definition month_length :: "int \<Rightarrow> int \<Rightarrow> int" where
  "month_length year month = (if month = 2 \<and> isLeapYear year then 29 else month_lengths ! nat month)"

definition valid_date :: "int \<Rightarrow> int \<Rightarrow> int \<Rightarrow> bool" where
  "valid_date y m d = (1 \<le> m \<and> m \<le> 12 \<and> 1 \<le> d \<and> d \<le> month_length y m)"

definition next_day :: "int \<times> int \<times> int \<Rightarrow> int \<times> int \<times> int" where
  "next_day date = (case date of (y, m, d) \<Rightarrow>
     if d < month_length y m then (y, m, d + 1) else if m < 12 then (y, m + 1, 1) else (y + 1, 1, 1))"

definition day_number :: "int \<Rightarrow> int \<Rightarrow> int \<Rightarrow> int" where
  "day_number y m d =
     (let m' = (if m < 3 then m + 12 else m); y' = (if m < 3 then y - 1 else y)
      in d + (153 * m' - 457) div 5 + 365 * y' + y' div 4 - y' div 100 + y' div 400)"

definition civil :: "int \<Rightarrow> int \<times> int \<times> int" where
  "civil z =
     (let a = (4 * z - 1) div 146097; b = a - a div 4; y = (4 * b + 4 * z - 1) div 1461; c = b + z - (1461 * y) div 4;
          m = (5 * c + 456) div 153; d = c - (153 * m - 457) div 5
      in if m > 12 then (y + 1, m - 12, d) else (y, m, d))"

lemma months:
  assumes "1 \<le> (m :: int)" "m \<le> 12"
  shows "m = 1 \<or> m = 2 \<or> m = 3 \<or> m = 4 \<or> m = 5 \<or> m = 6 \<or> m = 7 \<or> m = 8 \<or> m = 9 \<or> m = 10 \<or> m = 11 \<or> m = 12"
  using assms by presburger

lemma month_length_simps [simp]:
  "month_length y 1 = 31" "month_length y 2 = (if isLeapYear y then 29 else 28)" "month_length y 3 = 31" "month_length y 4 = 30"
  "month_length y 5 = 31" "month_length y 6 = 30" "month_length y 7 = 31" "month_length y 8 = 31" "month_length y 9 = 30"
  "month_length y 10 = 31" "month_length y 11 = 30" "month_length y 12 = 31"
  by (simp_all add: month_length_def month_lengths_def)

text \<open>Day \<open>c\<close> of the year that begins in March \<open>y\<close>; the day 366 is the leap day of \<open>y + 1\<close>.\<close>

definition march_day :: "int \<Rightarrow> int \<Rightarrow> bool" where
  "march_day y c = (1 \<le> c \<and> c \<le> 366 \<and> (c = 366 \<longrightarrow> isLeapYear (y + 1)))"

lemma quarters: "4 * ((1461 * y) div 4) = 1461 * y - y mod 4" for y :: int
proof -
  have "(1461 * y) mod 4 = y mod 4" using mod_mult_left_eq [of 1461 4 y] by simp
  then show ?thesis by (simp add: minus_mod_eq_mult_div [symmetric])
qed

lemma leap_century: "isLeapYear (100 * (A + 1)) \<Longrightarrow> A mod 4 = 3"
proof -
  assume "isLeapYear (100 * (A + 1))"
  then have "(100 * (A + 1)) mod (100 * 4) = 0" unfolding isLeapYear_def by simp
  then have "(A + 1) mod 4 = 0" by (simp only: mod_mult_mult1)
  then show ?thesis by presburger
qed

lemma leap_fourth: "isLeapYear (y + 1) \<Longrightarrow> y mod 4 = 3"
proof -
  assume "isLeapYear (y + 1)"
  then have "(y + 1) mod 4 = 0" by (simp add: isLeapYear_def)
  then show ?thesis by presburger
qed

lemma century_of:
  assumes "march_day y c" "z = c + (1461 * y) div 4 - y div 100 + y div 400"
  shows "(4 * z - 1) div 146097 = y div 100"
proof -
  define A k where "A = y div 100" and "k = y mod 100"
  have y: "y = 100 * A + k" "0 \<le> k" "k \<le> 99" by (simp_all add: A_def k_def)
  have q: "y div 400 = A div 4" unfolding A_def by (simp add: zdiv_zmult2_eq)
  have s: "0 \<le> A mod 4" "A mod 4 \<le> 3" "A = 4 * (A div 4) + A mod 4" by simp_all
  have "y = k + 4 * (25 * A)" using y(1) by simp
  then have k4: "y mod 4 = k mod 4" by (metis mod_mult_self2)
  have year: "1461 * y = 146100 * A + 1461 * k" using y(1) by simp
  have z: "z = c + (1461 * y) div 4 - A + A div 4" using assms(2) q by (simp add: A_def)
  have "4 * z - 1 = 146097 * A + (4 * c + 1461 * k - k mod 4 - 1 - A mod 4)"
    using quarters [of y] year s(3) z k4 by linarith
  moreover have "k mod 4 \<le> k" using y(2) by (rule zmod_le_nonneg_dividend)
  then have "0 \<le> 4 * c + 1461 * k - k mod 4 - 1 - A mod 4" using assms(1) y(2) s(2) unfolding march_day_def by linarith
  moreover have "4 * c + 1461 * k - k mod 4 - 1 - A mod 4 < 146097"
  proof (cases "k = 99")
    case True
    have "c \<le> 365 \<or> c = 366 \<and> A mod 4 = 3"
    proof (cases "c = 366")
      case True
      then have "isLeapYear (y + 1)" using assms(1) by (simp add: march_day_def)
      moreover have "y + 1 = 100 * (A + 1)" using y(1) \<open>k = 99\<close> by simp
      ultimately have "A mod 4 = 3" using leap_century by metis
      then show ?thesis using True by simp
    qed (use assms(1) in \<open>simp add: march_day_def\<close>)
    then show ?thesis using s(1) unfolding True by (elim disjE) simp_all
  next
    case False
    then have "k \<le> 98" using y(3) by simp
    moreover have "0 \<le> k mod 4" by simp
    ultimately show ?thesis using assms(1) s(1) unfolding march_day_def by linarith
  qed
  ultimately show ?thesis unfolding A_def by (rule int_div_pos_eq)
qed

lemma year_of:
  assumes "march_day y c"
  shows "(4 * (c + (1461 * y) div 4) - 1) div 1461 = y"
proof (rule int_div_pos_eq)
  show "4 * (c + (1461 * y) div 4) - 1 = 1461 * y + (4 * c - 1 - y mod 4)" using quarters [of y] by simp
  have t: "0 \<le> y mod 4" "y mod 4 \<le> 3" by simp_all
  then show "0 \<le> 4 * c - 1 - y mod 4" using assms by (simp add: march_day_def)
  show "4 * c - 1 - y mod 4 < 1461"
  proof (cases "c = 366")
    case True
    then have "isLeapYear (y + 1)" using assms by (simp add: march_day_def)
    then have "y mod 4 = 3" by (rule leap_fourth)
    then show ?thesis using True by simp
  next
    case False
    then have "c \<le> 365" using assms by (simp add: march_day_def)
    then show ?thesis using t by linarith
  qed
qed


lemma centuries: "y div 400 = (y div 100) div 4" for y :: int
  by (simp add: zdiv_zmult2_eq)

text \<open>The year that begins in March, its day, and back.\<close>

lemma civil_march:
  assumes "march_day y c"
  shows "civil (c + (1461 * y) div 4 - y div 100 + y div 400) =
    (let m = (5 * c + 456) div 153; d = c - (153 * m - 457) div 5 in if m > 12 then (y + 1, m - 12, d) else (y, m, d))"
proof -
  define z where "z = c + (1461 * y) div 4 - y div 100 + y div 400"
  have a: "(4 * z - 1) div 146097 = y div 100" by (rule century_of [OF assms z_def])
  have b: "y div 100 - y div 100 div 4 + z = c + (1461 * y) div 4" by (simp add: z_def centuries)
  then have eq: "4 * (y div 100 - y div 100 div 4) + 4 * z - 1 = 4 * (c + (1461 * y) div 4) - 1" by simp
  have year: "(4 * (y div 100 - y div 100 div 4) + 4 * z - 1) div 1461 = y" unfolding eq by (rule year_of [OF assms])
  show ?thesis unfolding z_def [symmetric] by (simp only: civil_def Let_def a year b add_diff_cancel_right')
qed

lemma march_day_of:
  fixes z :: int
  defines "A \<equiv> (4 * z - 1) div 146097"
  defines "y \<equiv> (4 * (A - A div 4) + 4 * z - 1) div 1461"
  defines "c \<equiv> A - A div 4 + z - (1461 * y) div 4"
  shows "march_day y c \<and> z = c + (1461 * y) div 4 - y div 100 + y div 400"
proof -
  define t where "t = (4 * z - 1) mod 146097"
  have t: "4 * z - 1 = 146097 * A + t" "0 \<le> t" "t < 146097" by (simp_all add: t_def A_def)
  have s: "0 \<le> A mod 4" "A mod 4 \<le> 3" "A = 4 * (A div 4) + A mod 4" by simp_all
  define k where "k = (t + A mod 4) div 1461"
  define r where "r = (t + A mod 4) mod 1461"
  have k: "t + A mod 4 = 1461 * k + r" "0 \<le> r" "r < 1461" by (simp_all add: k_def r_def)
  then have k99: "0 \<le> k" "k \<le> 99" "k < 100" using t s by linarith+
  have "4 * (A - A div 4) + 4 * z - 1 = 1461 * (100 * A + k) + r"
  proof -
    have "4 * (a - q) + 4 * z - 1 = 1461 * (100 * a + k) + r"
      if "4 * z - 1 = 146097 * a + t" "a = 4 * q + w" "t + w = 1461 * k + r" for a q w :: int
    proof -
      have t': "t = 1461 * k + r - w" and z': "4 * z = 146097 * a + t + 1" using that by linarith+
      have w: "w = a - 4 * q" using that by linarith
      show ?thesis unfolding right_diff_distrib z' t' w by simp
    qed
    from this [OF t(1) s(3) k(1)] show ?thesis .
  qed
  then have y: "y = 100 * A + k" unfolding y_def using k(2,3) by (rule int_div_pos_eq)
  have A: "y div 100 = A" unfolding y using k99 by (intro int_div_pos_eq) simp_all
  then have z: "z = c + (1461 * y) div 4 - y div 100 + y div 400" by (simp add: c_def centuries)
  have "4 * (A - A div 4) + 4 * z - 1 = 1461 * y + r"
    unfolding y by (rule \<open>4 * (A - A div 4) + 4 * z - 1 = 1461 * (100 * A + k) + r\<close>)
  moreover have "4 * (a - q + z - x) = r + 1 + w" if "4 * (a - q) + 4 * z - 1 = e + r" "4 * x = e - w" for a q x e w :: int
    using that by (simp add: right_diff_distrib)
  ultimately have c: "4 * c = r + 1 + y mod 4" using quarters [of y] unfolding c_def by blast
  moreover have y4: "0 \<le> y mod 4" "y mod 4 \<le> 3" by simp_all
  ultimately have bounds: "1 \<le> c" "c \<le> 366" using k(2,3) by linarith+
  have "isLeapYear (y + 1)" if "c = 366"
  proof -
    have "y mod 4 = 3" "r = 1460" using c that y4 k(3) by linarith+
    then have four: "(y + 1) mod 4 = 0" by presburger
    show ?thesis
    proof (cases "k = 99")
      case True
      then have "A mod 4 = 3" using k(1) \<open>r = 1460\<close> t(3) s(2) by linarith
      then have "(A + 1) mod 4 = 0" by presburger
      moreover have "y + 1 = 100 * (A + 1)" using y True by simp
      then have "(y + 1) mod (100 * 4) = 100 * ((A + 1) mod 4)" by (simp only: mod_mult_mult1)
      ultimately show ?thesis using four by (simp add: isLeapYear_def)
    next
      case False
      then have "(y + 1) mod 100 = k + 1" using y k99 by (intro int_mod_pos_eq [of _ 100 A]) simp_all
      then show ?thesis using four k99 by (simp add: isLeapYear_def)
    qed
  qed
  then show ?thesis using bounds z by (simp add: march_day_def)
qed

text \<open>The months of the year that begins in March.\<close>

lemma march_month:
  assumes "1 \<le> c" "c \<le> (366 :: int)"
  shows "let m = (5 * c + 456) div 153; d = c - (153 * m - 457) div 5 in 3 \<le> m \<and> m \<le> 14 \<and> 1 \<le> d \<and>
    (if m = 14 then d = c - 337 else d \<le> month_length 0 (if m > 12 then m - 12 else m))"
proof -
  define m where "m = (5 * c + 456) div 153"
  have m: "153 * m \<le> 5 * c + 456" "5 * c + 456 < 153 * m + 153" unfolding m_def by presburger+
  then have "3 \<le> m" "m \<le> 14" using assms by linarith+
  then have "m = 3 \<or> m = 4 \<or> m = 5 \<or> m = 6 \<or> m = 7 \<or> m = 8 \<or> m = 9 \<or> m = 10 \<or> m = 11 \<or> m = 12 \<or> m = 13 \<or> m = 14"
    by presburger
  then show ?thesis using m unfolding m_def [symmetric] Let_def by (elim disjE) simp_all
qed


text \<open>Every day has one date, and every date its day.\<close>

lemma march_day_date:
  assumes "valid_date y m d"
  defines "m' \<equiv> if m < 3 then m + 12 else m" and "y' \<equiv> if m < 3 then y - 1 else y"
  shows "march_day y' (d + (153 * m' - 457) div 5) \<and> (5 * (d + (153 * m' - 457) div 5) + 456) div 153 = m'"
proof -
  have v: "1 \<le> m" "m \<le> 12" "1 \<le> d" "d \<le> month_length y m" using assms(1) by (simp_all add: valid_date_def)
  from months [OF v(1,2)] show ?thesis
    using v(3,4) unfolding m'_def y'_def march_day_def
    by (elim disjE) (auto split: if_splits, (presburger+)?)
qed

lemma year_days: "(1461 * y) div 4 = 365 * y + y div 4" for y :: int
proof -
  have "1461 * y = y + (365 * y) * 4" by simp
  then show ?thesis by (metis add.commute div_mult_self1 zero_neq_numeral)
qed

lemma civil_day_number:
  assumes "valid_date y m d"
  shows "civil (day_number y m d) = (y, m, d)"
proof -
  define m' y' where "m' = (if m < 3 then m + 12 else m)" and "y' = (if m < 3 then y - 1 else y)"
  let ?c = "d + (153 * m' - 457) div 5"
  have c: "march_day y' ?c" "(5 * ?c + 456) div 153 = m'"
    using march_day_date [OF assms] unfolding m'_def y'_def by simp_all
  have "day_number y m d = ?c + (1461 * y') div 4 - y' div 100 + y' div 400"
    unfolding year_days by (simp add: day_number_def m'_def y'_def Let_def)
  then have "civil (day_number y m d) = (if m' > 12 then (y' + 1, m' - 12, d) else (y', m', d))"
    using civil_march [OF c(1)] c(2) by (simp add: Let_def)
  then show ?thesis using assms by (auto simp: m'_def y'_def valid_date_def)
qed

lemma day_number_civil: "case civil z of (y, m, d) \<Rightarrow> valid_date y m d \<and> day_number y m d = z"
proof -
  define a where "a = (4 * z - 1) div 146097"
  define y where "y = (4 * (a - a div 4) + 4 * z - 1) div 1461"
  define c where "c = a - a div 4 + z - (1461 * y) div 4"
  have c: "march_day y c" "z = c + (1461 * y) div 4 - y div 100 + y div 400"
    using march_day_of [of z] unfolding a_def [symmetric] y_def [symmetric] c_def [symmetric] by simp_all
  define m where "m = (5 * c + 456) div 153"
  define d where "d = c - (153 * m - 457) div 5"
  have z: "civil z = (if m > 12 then (y + 1, m - 12, d) else (y, m, d))"
    using civil_march [OF c(1)] unfolding c(2) [symmetric] m_def [symmetric] d_def [symmetric] Let_def by simp
  have md: "3 \<le> m" "m \<le> 14" "1 \<le> d"
    "if m = 14 then d = c - 337 else d \<le> month_length 0 (if m > 12 then m - 12 else m)"
    using march_month [of c] c(1) unfolding march_day_def m_def [symmetric] d_def [symmetric] Let_def by auto
  have feb: "m = 14 \<Longrightarrow> d \<le> (if isLeapYear (y + 1) then 29 else 28)"
    using md(4) c(1) by (auto simp: march_day_def)
  have month: "month_length y' n = month_length 0 n" if "n \<noteq> 2" for y' n using that by (simp add: month_length_def)
  have c': "c = d + (153 * m - 457) div 5" by (simp add: d_def)
  show ?thesis
  proof (cases "m > 12")
    case True
    have "d \<le> month_length (y + 1) (m - 12)"
    proof (cases "m = 14")
      case False
      then show ?thesis using md(4) True month [of "m - 12" "y + 1"] by simp
    qed (use feb in simp)
    moreover have "day_number (y + 1) (m - 12) d = z"
      using True md(2) c(2) unfolding c' year_days by (simp add: day_number_def Let_def)
    ultimately show ?thesis using z True md by (simp add: valid_date_def)
  next
    case False
    then have "d \<le> month_length y m" using md month [of m y] by simp
    moreover have "day_number y m d = z"
      using False md(1) c(2) unfolding c' year_days by (simp add: day_number_def Let_def)
    ultimately show ?thesis using z False md by (simp add: valid_date_def)
  qed
qed


text \<open>The day after a day is the next one of the calendar.\<close>

lemma div_pred: "0 < n \<Longrightarrow> y div n = (y - 1) div n + (if y mod n = 0 then 1 else 0)" for n y :: int
proof -
  assume n: "0 < n"
  define q r where "q = (y - 1) div n" and "r = (y - 1) mod n"
  have y: "y = n * q + (r + 1)" "0 \<le> r" "r < n" using n by (simp_all add: q_def r_def algebra_simps)
  show ?thesis
  proof (cases "r + 1 = n")
    case True
    then have "y = n * (q + 1)" using y(1) by (simp add: algebra_simps)
    then show ?thesis using n unfolding q_def [symmetric] by simp
  next
    case False
    then have "y div n = q" "y mod n = r + 1"
      using y by (auto intro!: int_div_pos_eq int_mod_pos_eq)
    then show ?thesis using y(2) unfolding q_def [symmetric] by simp
  qed
qed

lemma day_number_next:
  assumes "valid_date y m d"
  shows "case next_day (y, m, d) of (y', m', d') \<Rightarrow> valid_date y' m' d' \<and> day_number y' m' d' = day_number y m d + 1"
proof (cases "d < month_length y m")
  case True
  then show ?thesis using assms by (simp add: next_day_def valid_date_def day_number_def Let_def)
next
  case False
  then have v: "1 \<le> m" "m \<le> 12" "d = month_length y m" using assms by (simp_all add: valid_date_def)
  have hundred: "y mod 400 = 0 \<Longrightarrow> y mod 100 = 0" "y mod 100 = 0 \<Longrightarrow> y mod 4 = 0"
    using dvd_trans [of 100 400 y] dvd_trans [of 4 100 y] by (simp_all add: mod_eq_0_iff_dvd)
  have "(if p then 1 else 0) - (if q then 1 else 0) + (if r then 1 else 0) = (if p \<and> (\<not> q \<or> r) then 1 else (0 :: int))"
    if "r \<Longrightarrow> q" "q \<Longrightarrow> p" for p q r using that by auto
  from this [OF hundred] have leap_days:
    "(if y mod 4 = 0 then 1 else 0) - (if y mod 100 = 0 then 1 else 0) + (if y mod 400 = 0 then 1 else 0) =
      (if isLeapYear y then 1 else (0 :: int))" unfolding isLeapYear_def .
  have sum: "f - h + e = f' - h' + e' + l" if "f = f' + p" "h = h' + q" "e = e' + r" "p - q + r = l" for f f' h h' e e' p q r l :: int
    using that by simp
  have leap: "y div 4 - y div 100 + y div 400 = (y - 1) div 4 - (y - 1) div 100 + (y - 1) div 400 + (if isLeapYear y then 1 else 0)"
    by (rule sum [OF div_pred div_pred div_pred leap_days]) simp_all
  show ?thesis
  proof (cases "m = 2")
    case True
    have "day_number y 3 1 = 1 + 365 * y + (y div 4 - y div 100 + y div 400)" by (simp add: day_number_def)
    moreover have "day_number y 2 d = d - 28 + 365 * y + ((y - 1) div 4 - (y - 1) div 100 + (y - 1) div 400)"
      by (simp add: day_number_def Let_def)
    ultimately have "day_number y 3 1 = day_number y 2 d + 1" using v(3) unfolding True leap by simp
    then show ?thesis using v(3) unfolding True by (simp add: next_day_def valid_date_def)
  next
    case False
    then show ?thesis using months [OF v(1,2)] unfolding next_day_def v(3)
      by (elim disjE) (simp_all add: valid_date_def day_number_def Let_def)
  qed
qed

text \<open>The first day of the Gregorian calendar in use, a Friday, and the beginning of the Unix time.\<close>

lemma reform_day: "day_number 1582 10 15 = 578042" "civil 578042 = (1582, 10, 15)" "day_number 1970 1 1 = 719469"
  by (simp_all add: day_number_def civil_def Let_def)

end
