(* ===== verification/Date_Time.thy ===== *)
theory Date_Time
  imports Calendar Floating
begin

text \<open>
  Points in time and dates (\<open>base/include/base/datetime.h\<close>, \<open>base/src/datetime.cpp\<close>): \<open>Timestamp\<close>, \<open>Timespan\<close>,
  \<open>DateTime\<close>, \<open>LocalDateTime\<close> and \<open>Stopwatch\<close>. Integers of 64 bits that overflow are undefined; a \<open>double\<close> is computed
  as in theory \<open>Floating\<close>, each operation rounded.
\<close>

subsection \<open>Integers\<close>

definition i64 :: "int \<Rightarrow> int res" where
  "i64 x = (if - (2 ^ 63) \<le> x \<and> x < 2 ^ 63 then Inr x else Inl Undefined_behaviour)"

definition to_int :: "int \<Rightarrow> int" where
  "to_int x = sint (word_of_int x :: 32 word)"

fun sum64 :: "int \<Rightarrow> int list \<Rightarrow> int res" where
  "sum64 a [] = Inr a"
| "sum64 a (x # xs) = res_bind (i64 x) (\<lambda>x. res_bind (i64 (a + x)) (\<lambda>s. sum64 s xs))"

lemma i64_small: "\<bar>x\<bar> < 2 ^ 63 \<Longrightarrow> i64 x = Inr x"
  by (auto simp: i64_def)

lemma to_int_small: "\<bar>x\<bar> < 2 ^ 31 \<Longrightarrow> to_int x = x"
  by (simp add: to_int_def signed_of_int signed_take_bit_int_eq_self)

subsection \<open>Timestamp\<close>

text \<open>Microseconds since 1970; \<open>utcTime\<close> counts tenths of microseconds from 15 October 1582.\<close>

definition resolution :: int where "resolution = 1000000"
definition utc_base :: int where "utc_base = 0x01b21dd2 * 2 ^ 32 + 0x13814000"

definition Timestamp_add :: "int \<Rightarrow> int \<Rightarrow> int res" where "Timestamp_add ts d = i64 (ts + d)"
definition Timestamp_sub :: "int \<Rightarrow> int \<Rightarrow> int res" where "Timestamp_sub ts d = i64 (ts - d)"
definition Timestamp_diff :: "int \<Rightarrow> int \<Rightarrow> int res" where "Timestamp_diff ts ts' = i64 (ts - ts')"
definition epochTime :: "int \<Rightarrow> int" where "epochTime ts = ts sdiv resolution"
definition fromEpochTime :: "int \<Rightarrow> int res" where "fromEpochTime t = i64 (t * resolution)"

definition utcTime :: "int \<Rightarrow> int res" where
  "utcTime ts = res_bind (i64 (ts * 10)) (\<lambda>x. sum64 x [0x01b21dd2 * 2 ^ 32, 0x13814000])"

definition fromUtcTime :: "int \<Rightarrow> int res" where
  "fromUtcTime v = res_bind (i64 (v - utc_base)) (\<lambda>v. Inr (v sdiv 10))"

definition elapsed :: "int \<Rightarrow> int \<Rightarrow> int res" where "elapsed now ts = Timestamp_diff now ts"

definition isElapsed :: "int \<Rightarrow> int \<Rightarrow> int \<Rightarrow> bool res" where
  "isElapsed now interval ts = res_bind (Timestamp_diff now ts) (\<lambda>diff. Inr (diff \<ge> interval))"

subsection \<open>Timespan\<close>

definition MILLISECONDS :: int where "MILLISECONDS = 1000"
definition SECONDS :: int where "SECONDS = 1000 * MILLISECONDS"
definition MINUTES :: int where "MINUTES = 60 * SECONDS"
definition HOURS :: int where "HOURS = 60 * MINUTES"
definition DAYS :: int where "DAYS = 24 * HOURS"

lemmas span_units = MILLISECONDS_def SECONDS_def MINUTES_def HOURS_def DAYS_def

definition Timespan_dhms :: "int \<Rightarrow> int \<Rightarrow> int \<Rightarrow> int \<Rightarrow> int \<Rightarrow> int res" where
  "Timespan_dhms days hours minutes seconds microseconds =
     sum64 microseconds [seconds * SECONDS, minutes * MINUTES, hours * HOURS, days * DAYS]"

definition Timespan_su :: "int \<Rightarrow> int \<Rightarrow> int res" where
  "Timespan_su seconds microseconds = res_bind (i64 (seconds * SECONDS)) (\<lambda>s. i64 (s + microseconds))"

definition Timespan_add :: "int \<Rightarrow> int \<Rightarrow> int res" where "Timespan_add s d = i64 (s + d)"
definition Timespan_sub :: "int \<Rightarrow> int \<Rightarrow> int res" where "Timespan_sub s d = i64 (s - d)"

definition span_days :: "int \<Rightarrow> int" where "span_days s = to_int (s sdiv DAYS)"
definition span_hours :: "int \<Rightarrow> int" where "span_hours s = to_int ((s sdiv HOURS) smod 24)"
definition totalHours :: "int \<Rightarrow> int" where "totalHours s = to_int (s sdiv HOURS)"
definition span_minutes :: "int \<Rightarrow> int" where "span_minutes s = to_int ((s sdiv MINUTES) smod 60)"
definition totalMinutes :: "int \<Rightarrow> int" where "totalMinutes s = to_int (s sdiv MINUTES)"
definition span_seconds :: "int \<Rightarrow> int" where "span_seconds s = to_int ((s sdiv SECONDS) smod 60)"
definition totalSeconds :: "int \<Rightarrow> int" where "totalSeconds s = to_int (s sdiv SECONDS)"
definition span_milliseconds :: "int \<Rightarrow> int" where "span_milliseconds s = to_int ((s sdiv MILLISECONDS) smod 1000)"
definition totalMilliseconds :: "int \<Rightarrow> int" where "totalMilliseconds s = s sdiv MILLISECONDS"
definition span_microseconds :: "int \<Rightarrow> int" where "span_microseconds s = to_int (s smod 1000)"
definition useconds :: "int \<Rightarrow> int" where "useconds s = to_int (s smod 1000000)"

lemmas span_fields = span_days_def span_hours_def span_minutes_def span_seconds_def span_milliseconds_def span_microseconds_def

subsection \<open>DateTime\<close>

record DateTime =
  dt_utc :: int
  dt_year :: int
  dt_month :: int
  dt_day :: int
  dt_hour :: int
  dt_minute :: int
  dt_second :: int
  dt_milli :: int
  dt_micro :: int

definition daysOfMonth :: "int \<Rightarrow> int \<Rightarrow> int res" where
  "daysOfMonth year month = (if 1 \<le> month \<and> month \<le> 12 then Inr (month_length year month) else Inl Assertion_failed)"

text \<open>\<open>isValid\<close>, whose conjunctions are evaluated from the left, so that the length of the month is asked of a month.\<close>

definition isValid :: "int \<Rightarrow> int \<Rightarrow> int \<Rightarrow> int \<Rightarrow> int \<Rightarrow> int \<Rightarrow> int \<Rightarrow> int \<Rightarrow> bool" where
  "isValid year month day hour minute second millisecond microsecond =
     (0 \<le> year \<and> year \<le> 9999 \<and> valid_date year month day \<and> 0 \<le> hour \<and> hour \<le> 23 \<and> 0 \<le> minute \<and> minute \<le> 59 \<and>
      0 \<le> second \<and> second \<le> 59 \<and> 0 \<le> millisecond \<and> millisecond \<le> 999 \<and> 0 \<le> microsecond \<and> microsecond \<le> 999)"

definition truncate :: "rat \<Rightarrow> int" where
  "truncate x = (if 0 \<le> x then \<lfloor>x\<rfloor> else - \<lfloor>- x\<rfloor>)"

definition utc_julian :: "int \<Rightarrow> rat" where
  "utc_julian utc = (let utcDays = dbl (dbl (of_int utc) / 864000000000) in dbl (utcDays + 4598321 / 2))"

definition toUtcTime :: "rat \<Rightarrow> int res" where
  "toUtcTime julianDay = i64 (truncate (dbl (dbl (julianDay - 4598321 / 2) * 864000000000)))"

definition lookup :: "int list" where
  "lookup = [- 91, - 60, - 30, 0, 31, 61, 92, 122, 153, 184, 214, 245, 275, 306, 337]"

definition toJulianDay :: "int \<Rightarrow> int \<Rightarrow> int \<Rightarrow> int \<Rightarrow> int \<Rightarrow> int \<Rightarrow> int \<Rightarrow> int \<Rightarrow> rat" where
  "toJulianDay year month day hour minute second millisecond microsecond =
     (let seconds = of_int ((hour * 60 + minute) * 60 + second);
          dday = dbl (of_int day +
            dbl (dbl (dbl (dbl (dbl (seconds * 1000) + of_int millisecond) * 1000) + of_int microsecond) / 86400000000));
          month' = (if month < 3 then month + 12 else month); year' = (if month < 3 then year - 1 else year);
          dyear = of_int year' :: rat;
          d1 = dbl (dday + of_int (lookup ! nat month')); d2 = dbl (d1 + of_int (365 * year'));
          d3 = dbl (d2 + of_int \<lfloor>dbl (dyear / 4)\<rfloor>); d4 = dbl (d3 - of_int \<lfloor>dbl (dyear / 100)\<rfloor>);
          d5 = dbl (d4 + of_int \<lfloor>dbl (dyear / 400)\<rfloor>)
      in dbl (d5 + 3442237 / 2))"

definition checkLimit :: "int \<Rightarrow> int \<Rightarrow> int \<Rightarrow> int \<times> int" where
  "checkLimit lower higher limit = (if lower \<ge> limit then (lower smod limit, higher + lower sdiv limit) else (lower, higher))"

definition normalize :: "DateTime \<Rightarrow> DateTime res" where
  "normalize t =
     (case checkLimit (dt_micro t) (dt_milli t) 1000 of (us, ms) \<Rightarrow>
      case checkLimit ms (dt_second t) 1000 of (ms, s) \<Rightarrow>
      case checkLimit s (dt_minute t) 60 of (s, mi) \<Rightarrow>
      case checkLimit mi (dt_hour t) 60 of (mi, h) \<Rightarrow>
      case checkLimit h (dt_day t) 24 of (h, d) \<Rightarrow>
      res_bind (daysOfMonth (dt_year t) (dt_month t)) (\<lambda>n.
      let t1 = t\<lparr>dt_micro := us, dt_milli := ms, dt_second := s, dt_minute := mi, dt_hour := h, dt_day := d\<rparr> in
      if d > n then
        (if dt_month t + 1 > 12 then Inr (t1\<lparr>dt_day := d - n, dt_year := dt_year t + 1, dt_month := dt_month t + 1 - 12\<rparr>)
         else Inr (t1\<lparr>dt_day := d - n, dt_month := dt_month t + 1\<rparr>))
      else Inr t1))"

definition in_short :: "int \<Rightarrow> bool" where
  "in_short x = (- 32768 \<le> x \<and> x \<le> 32767)"

text \<open>
  The date from the number of the day and the time of day from the fraction of the day; the assertions at the end leave the
  year open. A \<open>double\<close> that does not fit a \<open>short\<close> is undefined.
\<close>

definition computeGregorian :: "rat \<Rightarrow> DateTime \<Rightarrow> DateTime res" where
  "computeGregorian julianDay t =
     (let w = dbl (julianDay - 3442237 / 2); z = of_int \<lfloor>w\<rfloor> :: rat; r = dbl (w - z);
          g = dbl (z - 1 / 4); a = of_int \<lfloor>dbl (g / (146097 / 4))\<rfloor> :: rat;
          b = dbl (a - of_int \<lfloor>dbl (a / 4)\<rfloor>);
          year = \<lfloor>dbl (dbl (b + g) / (1461 / 4))\<rfloor>;
          c = dbl (dbl (b + z) - of_int \<lfloor>dbl (1461 / 4 * of_int year)\<rfloor>);
          month = \<lfloor>dbl (dbl (dbl (5 * c) + 456) / 153)\<rfloor>;
          dday = dbl (dbl (c - of_int \<lfloor>dbl (dbl (dbl (153 * of_int month) - 457) / 5)\<rfloor>) + r);
          day = truncate dday;
          year' = (if month > 12 then year + 1 else year); month' = (if month > 12 then month - 12 else month);
          r1 = dbl (r * 24); hour = \<lfloor>r1\<rfloor>;
          r2 = dbl (dbl (r1 - of_int hour) * 60); minute = \<lfloor>r2\<rfloor>;
          r3 = dbl (dbl (r2 - of_int minute) * 60); second = \<lfloor>r3\<rfloor>;
          r4 = dbl (dbl (r3 - of_int second) * 1000); millisecond = \<lfloor>r4\<rfloor>;
          r5 = dbl (dbl (r4 - of_int millisecond) * 1000); microsecond = truncate (dbl (r5 + 1 / 2))
      in if \<not> list_all in_short [year, month, day, hour, minute, second, millisecond, microsecond] then Inl Undefined_behaviour
      else res_bind (normalize (t\<lparr>dt_year := year', dt_month := month', dt_day := day, dt_hour := hour, dt_minute := minute,
             dt_second := second, dt_milli := millisecond, dt_micro := microsecond\<rparr>)) (\<lambda>t.
           if valid_date (dt_year t) (dt_month t) (dt_day t) \<and> 0 \<le> dt_hour t \<and> dt_hour t \<le> 23 \<and>
              0 \<le> dt_minute t \<and> dt_minute t \<le> 59 \<and> 0 \<le> dt_second t \<and> dt_second t \<le> 59 \<and>
              0 \<le> dt_milli t \<and> dt_milli t \<le> 999 \<and> 0 \<le> dt_micro t \<and> dt_micro t \<le> 999
           then Inr t else Inl Assertion_failed))"

text \<open>The time of day from the integer; a day that the rounding of the \<open>double\<close> has missed by midnight is set right.\<close>

definition day_back :: "DateTime \<Rightarrow> DateTime res" where
  "day_back t =
     (if dt_day t - 1 \<noteq> 0 then Inr (t\<lparr>dt_day := dt_day t - 1\<rparr>)
      else let t1 = (if dt_month t - 1 = 0 then t\<lparr>dt_month := 12, dt_year := dt_year t - 1\<rparr> else t\<lparr>dt_month := dt_month t - 1\<rparr>)
           in res_bind (daysOfMonth (dt_year t1) (dt_month t1)) (\<lambda>n. Inr (t1\<lparr>dt_day := n\<rparr>)))"

definition day_on :: "DateTime \<Rightarrow> DateTime res" where
  "day_on t =
     res_bind (daysOfMonth (dt_year t) (dt_month t)) (\<lambda>n.
     if dt_day t + 1 > n then
       Inr ((if dt_month t + 1 > 12 then t\<lparr>dt_month := 1, dt_year := dt_year t + 1\<rparr> else t\<lparr>dt_month := dt_month t + 1\<rparr>)
         \<lparr>dt_day := 1\<rparr>)
     else Inr (t\<lparr>dt_day := dt_day t + 1\<rparr>))"

definition computeDaytime :: "DateTime \<Rightarrow> DateTime res" where
  "computeDaytime t =
     (let span = dt_utc t sdiv 10; hour = span_hours span in
      res_bind (if hour = 23 \<and> dt_hour t = 0 then day_back t
                else if hour = 0 \<and> dt_hour t = 23 then day_on t else Inr t) (\<lambda>t.
      Inr (t\<lparr>dt_hour := hour, dt_minute := span_minutes span, dt_second := span_seconds span,
             dt_milli := span_milliseconds span, dt_micro := span_microseconds span\<rparr>)))"

definition julianDay :: "DateTime \<Rightarrow> rat" where
  "julianDay t = utc_julian (dt_utc t)"

definition recompute :: "DateTime \<Rightarrow> DateTime res" where
  "recompute t = res_bind (computeGregorian (julianDay t) t) computeDaytime"

definition DateTime_empty :: DateTime where
  "DateTime_empty = \<lparr>dt_utc = 0, dt_year = 0, dt_month = 0, dt_day = 0, dt_hour = 0, dt_minute = 0, dt_second = 0,
     dt_milli = 0, dt_micro = 0\<rparr>"

text \<open>The constructors, from a timestamp, the fields, a Julian day, and a time with a difference.\<close>

definition DateTime_of_timestamp :: "int \<Rightarrow> DateTime res" where
  "DateTime_of_timestamp ts = res_bind (utcTime ts) (\<lambda>utc. recompute (DateTime_empty\<lparr>dt_utc := utc\<rparr>))"

definition DateTime_of_fields :: "int \<Rightarrow> int \<Rightarrow> int \<Rightarrow> int \<Rightarrow> int \<Rightarrow> int \<Rightarrow> int \<Rightarrow> int \<Rightarrow> DateTime res" where
  "DateTime_of_fields year month day hour minute second millisecond microsecond =
     (if \<not> isValid year month day hour minute second millisecond microsecond then Inl Assertion_failed
      else res_bind (toUtcTime (toJulianDay year month day 0 0 0 0 0)) (\<lambda>utc.
        res_bind (i64 (utc + 10 * (hour * HOURS + minute * MINUTES + second * SECONDS + millisecond * MILLISECONDS + microsecond)))
          (\<lambda>utc. Inr \<lparr>dt_utc = utc, dt_year = year, dt_month = month, dt_day = day, dt_hour = hour, dt_minute = minute,
             dt_second = second, dt_milli = millisecond, dt_micro = microsecond\<rparr>)))"

definition DateTime_of_julian :: "rat \<Rightarrow> DateTime res" where
  "DateTime_of_julian jd = res_bind (toUtcTime jd) (\<lambda>utc. computeGregorian jd (DateTime_empty\<lparr>dt_utc := utc\<rparr>))"

definition DateTime_of_utc :: "int \<Rightarrow> int \<Rightarrow> DateTime res" where
  "DateTime_of_utc utc diff =
     res_bind (i64 (diff * 10)) (\<lambda>d. res_bind (i64 (utc + d)) (\<lambda>utc. recompute (DateTime_empty\<lparr>dt_utc := utc\<rparr>)))"


subsection \<open>The date of a day\<close>

lemma div_bounds:
  assumes "0 < (q :: int)"
  shows "q * (p div q) \<le> p" "p < q * (p div q) + q"
  using assms mult_div_mod_eq [of q p] pos_mod_sign [of q p] pos_mod_bound [of q p] by linarith+

lemma abs_div: "0 < q \<Longrightarrow> \<bar>p div q\<bar> \<le> \<bar>p :: int\<bar>"
proof -
  assume q: "0 < q"
  define n where "n = p div q"
  have p: "q * n \<le> p" "p < q * n + q"
    using div_bounds [OF q] unfolding n_def by simp_all
  show ?thesis
  proof (cases "0 \<le> n")
    case True
    then have "1 * n \<le> q * n" using q by (intro mult_right_mono) simp_all
    then show ?thesis using p(1) True unfolding n_def [symmetric] by simp
  next
    case False
    then have "q * (n + 1) \<le> 1 * (n + 1)" using q by (intro mult_right_mono_neg) simp_all
    then have "q * n + q \<le> n + 1" by (simp add: distrib_left)
    then show ?thesis using p(2) False unfolding n_def [symmetric] by simp
  qed
qed

lemma dbl_int [simp]: "\<bar>m\<bar> \<le> 2 ^ 53 \<Longrightarrow> dbl (of_int m) = of_int m"
  by (rule dbl_of_int)

lemma dbl_quarter: "\<bar>m\<bar> \<le> 2 ^ 53 \<Longrightarrow> dbl (of_int m / 4) = of_int m / 4"
  by (rule dbl_exact [of _ m 2]) simp_all

lemma quarter_quotient: "x / 4 / (q / 4) = (x / q :: rat)"
  by simp

lemma floor_quarter: "\<lfloor>of_int m / 4 :: rat\<rfloor> = m div 4"
  using floor_divide_of_int_eq [of m 4, where 'a = rat] by simp


definition date_of :: "DateTime \<Rightarrow> int \<times> int \<times> int" where
  "date_of t = (dt_year t, dt_month t, dt_day t)"

text \<open>
  The steps of the algorithm are exact: from the day \<open>z\<close> on, all values are quarters of moderate integers, and the quotients
  are not near the next integer.
\<close>

lemma civil_in_doubles:
  fixes z :: int
  assumes "\<bar>z\<bar> < 2 ^ 22"
  defines "a \<equiv> (4 * z - 1) div 146097"
  defines "b \<equiv> a - a div 4"
  defines "y \<equiv> (4 * b + 4 * z - 1) div 1461"
  defines "c \<equiv> b + z - (1461 * y) div 4"
  defines "m \<equiv> (5 * c + 456) div 153"
  shows "dbl (of_int z - 1 / 4) = of_int (4 * z - 1) / 4"
    "\<lfloor>dbl (of_int (4 * z - 1) / 4 / (146097 / 4))\<rfloor> = a"
    "dbl (of_int a - of_int \<lfloor>dbl (of_int a / 4)\<rfloor>) = of_int b"
    "\<lfloor>dbl (dbl (of_int b + of_int (4 * z - 1) / 4) / (1461 / 4))\<rfloor> = y"
    "dbl (dbl (of_int b + of_int z) - of_int \<lfloor>dbl (1461 / 4 * of_int y)\<rfloor>) = of_int c"
    "\<lfloor>dbl (dbl (dbl (5 * of_int c) + 456) / 153)\<rfloor> = m"
    "dbl (of_int c - of_int \<lfloor>dbl (dbl (dbl (153 * of_int m) - 457) / 5)\<rfloor>) = of_int (c - (153 * m - 457) div 5)"
    "\<bar>y\<bar> < 20000" "1 \<le> c" "c \<le> 366"
proof -
  have z: "- 4194304 < z" "z < 4194304" using assms(1) by simp_all
  have a: "146097 * a \<le> 4 * z - 1" "4 * z - 1 < 146097 * a + 146097" using div_bounds [of 146097 "4 * z - 1"] unfolding a_def by simp_all
  then have abs_a: "\<bar>a\<bar> \<le> 200" using z by linarith
  then have abs_b: "\<bar>b\<bar> \<le> 400" unfolding b_def using abs_div [of 4 a] by linarith
  have y: "1461 * y \<le> 4 * b + 4 * z - 1" "4 * b + 4 * z - 1 < 1461 * y + 1461" using div_bounds [of 1461 "4 * b + 4 * z - 1"] unfolding y_def by simp_all
  then show abs_y: "\<bar>y\<bar> < 20000" using z abs_b by linarith
  have "march_day y c"
    using march_day_of [of z] unfolding a_def [symmetric] b_def [symmetric] y_def [symmetric] c_def [symmetric] by simp
  then show c: "1 \<le> c" "c \<le> 366" by (simp_all add: march_day_def)
  moreover have "153 * m \<le> 5 * c + 456" "5 * c + 456 < 153 * m + 153" using div_bounds [of 153 "5 * c + 456"] unfolding m_def by simp_all
  ultimately have m: "3 \<le> m" "m \<le> 14" by linarith+
  have eq: "(of_int z - 1 / 4 :: rat) = of_int (4 * z - 1) / 4" by simp
  show "dbl (of_int z - 1 / 4) = of_int (4 * z - 1) / 4" unfolding eq by (rule dbl_quarter) (use z in simp)
  have eq2: "of_int (4 * z - 1) / 4 / (146097 / 4) = (of_int (4 * z - 1) / of_int 146097 :: rat)"
    by (simp only: quarter_quotient of_int_numeral)
  show "\<lfloor>dbl (of_int (4 * z - 1) / 4 / (146097 / 4))\<rfloor> = a"
    unfolding eq2 a_def by (rule floor_dbl_quotient) (use z in simp_all)
  have "dbl (of_int a / 4) = of_int a / 4" by (rule dbl_quarter) (use abs_a in simp)
  then have "dbl (of_int a - of_int \<lfloor>dbl (of_int a / 4)\<rfloor>) = dbl (of_int b)" by (simp only: floor_quarter b_def of_int_diff)
  then show "dbl (of_int a - of_int \<lfloor>dbl (of_int a / 4)\<rfloor>) = of_int b" using abs_b by simp
  have "of_int b + of_int (4 * z - 1) / 4 = (of_int (4 * b + 4 * z - 1) / 4 :: rat)" by (simp add: field_simps)
  moreover have "dbl (of_int (4 * b + 4 * z - 1) / 4) = of_int (4 * b + 4 * z - 1) / 4"
    by (rule dbl_quarter) (use abs_b z in simp)
  moreover have "of_int (4 * b + 4 * z - 1) / 4 / (1461 / 4) = (of_int (4 * b + 4 * z - 1) / of_int 1461 :: rat)"
    by (simp only: quarter_quotient of_int_numeral)
  moreover have "\<lfloor>dbl (of_int (4 * b + 4 * z - 1) / of_int 1461)\<rfloor> = y"
    unfolding y_def by (rule floor_dbl_quotient) (use abs_b z in simp_all)
  ultimately show "\<lfloor>dbl (dbl (of_int b + of_int (4 * z - 1) / 4) / (1461 / 4))\<rfloor> = y" by (simp only:)
  have "dbl (of_int b + of_int z) = of_int (b + z)" using abs_b z by (simp flip: of_int_add)
  moreover have "1461 / 4 * of_int y = (of_int (1461 * y) / 4 :: rat)" by simp
  moreover have "dbl (of_int (1461 * y) / 4) = of_int (1461 * y) / 4" by (rule dbl_quarter) (use abs_y in simp)
  moreover have "dbl (of_int (b + z) - of_int ((1461 * y) div 4)) = of_int c"
    using c unfolding of_int_diff [symmetric] c_def [symmetric] by (intro dbl_of_int) simp
  ultimately show "dbl (dbl (of_int b + of_int z) - of_int \<lfloor>dbl (1461 / 4 * of_int y)\<rfloor>) = of_int c"
    by (simp only: floor_quarter)
  have "dbl (5 * of_int c) = of_int (5 * c)" using c dbl_of_int [of "5 * c"] by simp
  moreover have "dbl (of_int (5 * c) + 456) = of_int (5 * c + 456)" using c dbl_of_int [of "5 * c + 456"] by simp
  moreover have "\<lfloor>dbl (of_int (5 * c + 456) / of_int 153)\<rfloor> = m"
    unfolding m_def by (rule floor_dbl_quotient) (use c in simp_all)
  ultimately show "\<lfloor>dbl (dbl (dbl (5 * of_int c) + 456) / 153)\<rfloor> = m" by simp
  have "dbl (153 * of_int m) = of_int (153 * m)" using m dbl_of_int [of "153 * m"] by simp
  moreover have "dbl (of_int (153 * m) - 457) = of_int (153 * m - 457)" using m dbl_of_int [of "153 * m - 457"] by simp
  moreover have "\<lfloor>dbl (of_int (153 * m - 457) / of_int 5)\<rfloor> = (153 * m - 457) div 5"
    by (rule floor_dbl_quotient) (use m in simp_all)
  moreover have "\<bar>(153 * m - 457) div 5\<bar> \<le> 2000" using abs_div [of 5 "153 * m - 457"] m by linarith
  then have "dbl (of_int (c - (153 * m - 457) div 5)) = of_int (c - (153 * m - 457) div 5)" using c by (intro dbl_of_int) simp
  ultimately show "dbl (of_int c - of_int \<lfloor>dbl (dbl (dbl (153 * of_int m) - 457) / 5)\<rfloor>) = of_int (c - (153 * m - 457) div 5)"
    by simp
qed

subsection \<open>The time of a day\<close>

text \<open>What the fields of a number of microseconds since the day 0 are.\<close>

definition at_time :: "int \<Rightarrow> DateTime \<Rightarrow> DateTime" where
  "at_time M t =
     (case civil (M div 86400000000) of (y, m, d) \<Rightarrow>
       t\<lparr>dt_year := y, dt_month := m, dt_day := d, dt_hour := M div 3600000000 mod 24, dt_minute := M div 60000000 mod 60,
         dt_second := M div 1000000 mod 60, dt_milli := M div 1000 mod 1000, dt_micro := M mod 1000\<rparr>)"

definition clock :: "int \<Rightarrow> int \<Rightarrow> int \<Rightarrow> int \<Rightarrow> int \<Rightarrow> int \<Rightarrow> int" where
  "clock z h mi s ms us = 86400000000 * z + 3600000000 * h + 60000000 * mi + 1000000 * s + 1000 * ms + us"

lemma clock_fields:
  assumes "0 \<le> h" "h \<le> 23" "0 \<le> mi" "mi \<le> 59" "0 \<le> s" "s \<le> 59" "0 \<le> ms" "ms \<le> 999" "0 \<le> us" "us \<le> 999"
  shows "clock z h mi s ms us div 86400000000 = z" "clock z h mi s ms us div 3600000000 mod 24 = h"
    "clock z h mi s ms us div 60000000 mod 60 = mi" "clock z h mi s ms us div 1000000 mod 60 = s"
    "clock z h mi s ms us div 1000 mod 1000 = ms" "clock z h mi s ms us mod 1000 = us"
proof -
  define q1 q2 q3 q4 where "q1 = 24 * z + h" and "q2 = 60 * q1 + mi" and "q3 = 60 * q2 + s" and "q4 = 1000 * q3 + ms"
  note q = q1_def q2_def q3_def q4_def
  show "clock z h mi s ms us div 86400000000 = z"
    by (rule int_div_pos_eq [of _ _ _ "3600000000 * h + 60000000 * mi + 1000000 * s + 1000 * ms + us"])
      (use assms in \<open>simp add: clock_def, linarith+\<close>)
  have "clock z h mi s ms us div 3600000000 = q1"
    by (rule int_div_pos_eq [of _ _ _ "60000000 * mi + 1000000 * s + 1000 * ms + us"])
      (use assms in \<open>simp add: clock_def q, linarith+\<close>)
  moreover have "q1 mod 24 = h" by (rule int_mod_pos_eq [of _ _ z]) (use assms in \<open>simp_all add: q\<close>)
  ultimately show "clock z h mi s ms us div 3600000000 mod 24 = h" by simp
  have "clock z h mi s ms us div 60000000 = q2"
    by (rule int_div_pos_eq [of _ _ _ "1000000 * s + 1000 * ms + us"])
      (use assms in \<open>simp add: clock_def q, linarith+\<close>)
  moreover have "q2 mod 60 = mi" by (rule int_mod_pos_eq [of _ _ q1]) (use assms in \<open>simp_all add: q\<close>)
  ultimately show "clock z h mi s ms us div 60000000 mod 60 = mi" by simp
  have "clock z h mi s ms us div 1000000 = q3"
    by (rule int_div_pos_eq [of _ _ _ "1000 * ms + us"])
      (use assms in \<open>simp add: clock_def q, linarith+\<close>)
  moreover have "q3 mod 60 = s" by (rule int_mod_pos_eq [of _ _ q2]) (use assms in \<open>simp_all add: q\<close>)
  ultimately show "clock z h mi s ms us div 1000000 mod 60 = s" by simp
  have "clock z h mi s ms us div 1000 = q4"
    by (rule int_div_pos_eq [of _ _ _ us]) (use assms in \<open>simp_all add: clock_def q\<close>)
  moreover have "q4 mod 1000 = ms" by (rule int_mod_pos_eq [of _ _ q3]) (use assms in \<open>simp_all add: q\<close>)
  ultimately show "clock z h mi s ms us div 1000 mod 1000 = ms" by simp
  show "clock z h mi s ms us mod 1000 = us"
    by (rule int_mod_pos_eq [of _ _ q4]) (use assms in \<open>simp_all add: clock_def q\<close>)
qed

lemma at_clock:
  assumes "0 \<le> h" "h \<le> 23" "0 \<le> mi" "mi \<le> 59" "0 \<le> s" "s \<le> 59" "0 \<le> ms" "ms \<le> 999" "0 \<le> us" "us \<le> 999"
    "civil z = (y, m, d)"
  shows "at_time (clock z h mi s ms us) t =
    t\<lparr>dt_year := y, dt_month := m, dt_day := d, dt_hour := h, dt_minute := mi, dt_second := s, dt_milli := ms, dt_micro := us\<rparr>"
  unfolding at_time_def clock_fields [OF assms(1-10)] assms(11) by simp

lemma civil_next: "civil (z + 1) = next_day (civil z)"
proof -
  obtain y m d where z: "civil z = (y, m, d)" by (cases "civil z") auto
  obtain y' m' d' where n: "next_day (y, m, d) = (y', m', d')" by (cases "next_day (y, m, d)") auto
  have "valid_date y m d" "day_number y m d = z" using day_number_civil [of z] z by simp_all
  then have "valid_date y' m' d'" "day_number y' m' d' = z + 1" using day_number_next [of y m d] n by simp_all
  then show ?thesis using civil_day_number [of y' m' d'] n z by simp
qed

lemma civil_valid: "civil z = (y, m, d) \<Longrightarrow> valid_date y m d \<and> day_number y m d = z"
  using day_number_civil [of z] by simp

text \<open>The carry of the rounding to microseconds is right, up to the next day.\<close>

lemma normalize_carries:
  assumes "0 \<le> h" "h \<le> 23" "0 \<le> mi" "mi \<le> 59" "0 \<le> s" "s \<le> 59" "0 \<le> ms" "ms \<le> 999" "0 \<le> us" "us \<le> 1000"
    "civil z = (y, m, d)"
  shows "normalize (t\<lparr>dt_year := y, dt_month := m, dt_day := d, dt_hour := h, dt_minute := mi, dt_second := s,
    dt_milli := ms, dt_micro := us\<rparr>) = Inr (at_time (clock z h mi s ms us) t)"
proof -
  have v: "1 \<le> m" "m \<le> 12" "1 \<le> d" "d \<le> month_length y m" using civil_valid [OF assms(11)] by (simp_all add: valid_date_def)
  have n: "daysOfMonth y m = Inr (month_length y m)" using v by (simp add: daysOfMonth_def)
  show ?thesis
  proof (cases "us = 1000")
    case False
    then have us: "us \<le> 999" using assms(10) by simp
    show ?thesis unfolding at_clock [OF assms(1-9) us assms(11)]
      using assms us v n by (simp add: normalize_def checkLimit_def)
  next
    case us: True
    show ?thesis
    proof (cases "ms = 999")
      case False
      then have *: "clock z h mi s ms us = clock z h mi s (ms + 1) 0" "ms + 1 \<le> 999" "0 \<le> ms + 1" "0 \<le> (0 :: int)" "(0 :: int) \<le> 999"
        using us assms by (simp_all add: clock_def)
      show ?thesis unfolding *(1) at_clock [OF assms(1-6) *(3,2,4,5) assms(11)]
        using assms us v n *(2) by (simp add: normalize_def checkLimit_def)
    next
      case ms: True
      show ?thesis
      proof (cases "s = 59")
        case False
        then have *: "clock z h mi s ms us = clock z h mi (s + 1) 0 0" "s + 1 \<le> 59" "0 \<le> s + 1" "0 \<le> (0 :: int)" "(0 :: int) \<le> 999"
          using us ms assms by (simp_all add: clock_def)
        show ?thesis unfolding *(1) at_clock [OF assms(1-4) *(3,2,4,5,4,5) assms(11)]
          using assms us ms v n *(2) by (simp add: normalize_def checkLimit_def)
      next
        case s: True
        show ?thesis
        proof (cases "mi = 59")
          case False
          then have *: "clock z h mi s ms us = clock z h (mi + 1) 0 0 0" "mi + 1 \<le> 59" "0 \<le> mi + 1" "0 \<le> (0 :: int)"
              "(0 :: int) \<le> 999" "(0 :: int) \<le> 59"
            using us ms s assms by (simp_all add: clock_def)
          show ?thesis unfolding *(1) at_clock [OF assms(1-2) *(3,2,4,6,4,5,4,5) assms(11)]
            using assms us ms s v n *(2) by (simp add: normalize_def checkLimit_def)
        next
          case mi: True
          show ?thesis
          proof (cases "h = 23")
            case False
            then have *: "clock z h mi s ms us = clock z (h + 1) 0 0 0 0" "h + 1 \<le> 23" "0 \<le> h + 1" "0 \<le> (0 :: int)"
                "(0 :: int) \<le> 999" "(0 :: int) \<le> 59"
              using us ms s mi assms by (simp_all add: clock_def)
            show ?thesis unfolding *(1) at_clock [OF *(3,2,4,6,4,6,4,5,4,5) assms(11)]
              using assms us ms s mi v n *(2) by (simp add: normalize_def checkLimit_def)
          next
            case h: True
            then have *: "clock z h mi s ms us = clock (z + 1) 0 0 0 0 0" "0 \<le> (0 :: int)"
                "(0 :: int) \<le> 999" "(0 :: int) \<le> 59" "(0 :: int) \<le> 23"
              using us ms s mi assms by (simp_all add: clock_def)
            obtain y' m' d' where nxt: "next_day (y, m, d) = (y', m', d')" by (cases "next_day (y, m, d)") auto
            then have c: "civil (z + 1) = (y', m', d')" using civil_next [of z] assms(11) by simp
            show ?thesis unfolding *(1) at_clock [OF *(2,5,2,4,2,4,2,3,2,3) c]
              using us ms s mi h v n nxt by (auto simp: normalize_def checkLimit_def next_day_def split: if_splits)
          qed
        qed
      qed
    qed
  qed
qed

text \<open>The digits of a fraction of a day that is a multiple of \<open>2 ^ - 32\<close> are computed exactly.\<close>

lemma floor_grid: "\<lfloor>of_int n / 2 ^ 32 :: rat\<rfloor> = n div 2 ^ 32"
  using floor_divide_of_int_eq [of n "2 ^ 32", where 'a = rat] by simp

lemma grid_rest: "(of_int n / 2 ^ 32 - of_int (n div 2 ^ 32) :: rat) = of_int (n mod 2 ^ 32) / 2 ^ 32"
proof -
  have "n = 2 ^ 32 * (n div 2 ^ 32) + n mod 2 ^ 32" by (simp only: mult_div_mod_eq)
  then have "(of_int n :: rat) = 2 ^ 32 * of_int (n div 2 ^ 32) + of_int (n mod 2 ^ 32)"
    by (metis of_int_add of_int_mult of_int_numeral of_int_power)
  then show ?thesis by (simp add: field_simps)
qed

lemma digit_step:
  assumes "0 \<le> k" "k < 2 ^ 32" "0 < q" "q \<le> 1000"
  shows "dbl (of_int k / 2 ^ 32 * of_int q) = of_int (q * k) / 2 ^ 32"
    "\<lfloor>of_int (q * k) / 2 ^ 32 :: rat\<rfloor> = q * k div 2 ^ 32"
    "dbl (of_int (q * k) / 2 ^ 32 - of_int (q * k div 2 ^ 32)) = of_int (q * k mod 2 ^ 32) / 2 ^ 32"
    "0 \<le> q * k mod 2 ^ 32" "q * k mod 2 ^ 32 < 2 ^ 32" "0 \<le> q * k div 2 ^ 32" "q * k div 2 ^ 32 \<le> q - 1"
    "q * k = 2 ^ 32 * (q * k div 2 ^ 32) + q * k mod 2 ^ 32"
proof -
  have qk: "0 \<le> q * k" "q * k < q * 2 ^ 32" "q * k \<le> 1000 * 2 ^ 32"
  proof -
    show "0 \<le> q * k" "q * k < q * 2 ^ 32" using assms by simp_all
    have "q * k \<le> 1000 * 2 ^ 32" using assms by (intro mult_mono) simp_all
    then show "q * k \<le> 1000 * 2 ^ 32" .
  qed
  have "(of_int k / 2 ^ 32 * of_int q :: rat) = of_int (q * k) / 2 ^ 32" by simp
  moreover have "dbl (of_int (q * k) / 2 ^ 32) = of_int (q * k) / 2 ^ 32" by (rule dbl_exact [of _ "q * k" 32]) (use qk in simp_all)
  ultimately show "dbl (of_int k / 2 ^ 32 * of_int q) = of_int (q * k) / 2 ^ 32" by (simp only:)
  show "\<lfloor>of_int (q * k) / 2 ^ 32 :: rat\<rfloor> = q * k div 2 ^ 32" by (rule floor_grid)
  show r: "0 \<le> q * k mod 2 ^ 32" "q * k mod 2 ^ 32 < 2 ^ 32" by simp_all
  then show "dbl (of_int (q * k) / 2 ^ 32 - of_int (q * k div 2 ^ 32)) = of_int (q * k mod 2 ^ 32) / 2 ^ 32"
    unfolding grid_rest by (intro dbl_exact [of _ "q * k mod 2 ^ 32" 32]) simp_all
  show "0 \<le> q * k div 2 ^ 32" using qk by (simp add: pos_imp_zdiv_nonneg_iff)
  have "q * k div 2 ^ 32 < q"
  proof (rule ccontr)
    assume "\<not> q * k div 2 ^ 32 < q"
    then have "2 ^ 32 * q \<le> 2 ^ 32 * (q * k div 2 ^ 32)" by simp
    then show False using qk(2) div_bounds(1) [of "2 ^ 32" "q * k"] by simp
  qed
  then show "q * k div 2 ^ 32 \<le> q - 1" by simp
  show "q * k = 2 ^ 32 * (q * k div 2 ^ 32) + q * k mod 2 ^ 32" by (simp only: mult_div_mod_eq)
qed

lemma truncate_pos: "0 \<le> x \<Longrightarrow> truncate x = \<lfloor>x\<rfloor>"
  by (simp add: truncate_def)

lemma at_time_valid:
  "valid_date (dt_year (at_time A t)) (dt_month (at_time A t)) (dt_day (at_time A t)) \<and>
     0 \<le> dt_hour (at_time A t) \<and> dt_hour (at_time A t) \<le> 23 \<and> 0 \<le> dt_minute (at_time A t) \<and> dt_minute (at_time A t) \<le> 59 \<and>
     0 \<le> dt_second (at_time A t) \<and> dt_second (at_time A t) \<le> 59 \<and> 0 \<le> dt_milli (at_time A t) \<and> dt_milli (at_time A t) \<le> 999 \<and>
     0 \<le> dt_micro (at_time A t) \<and> dt_micro (at_time A t) \<le> 999"
proof -
  obtain y m d where c: "civil (A div 86400000000) = (y, m, d)" by (cases "civil (A div 86400000000)") auto
  have sel: "dt_year (at_time A t) = y" "dt_month (at_time A t) = m" "dt_day (at_time A t) = d"
      "dt_hour (at_time A t) = A div 3600000000 mod 24" "dt_minute (at_time A t) = A div 60000000 mod 60"
      "dt_second (at_time A t) = A div 1000000 mod 60" "dt_milli (at_time A t) = A div 1000 mod 1000" "dt_micro (at_time A t) = A mod 1000"
    by (simp_all add: at_time_def c)
  have "0 \<le> A mod q \<and> A mod q \<le> p" if "q = p + 1" "0 < q" for A q p :: int
    using that pos_mod_bound [OF that(2), of A] by simp
  from this [of 24 23] this [of 60 59] this [of 1000 999] show ?thesis unfolding sel using civil_valid [OF c] by simp
qed

lemma gregorian_exact:
  assumes w: "dbl (jd - 3442237 / 2) = of_int N / 2 ^ 32" and N: "- (2 ^ 53) < N" "N < 2 ^ 54"
  shows "computeGregorian jd t = Inr (at_time ((86400000000 * N + 2 ^ 31) div 2 ^ 32) t)"
proof -
  define z k where "z = N div 2 ^ 32" and "k = N mod 2 ^ 32"
  have Nz: "N = 2 ^ 32 * z + k" unfolding z_def k_def by (simp only: mult_div_mod_eq)
  have k: "0 \<le> k" "k < 2 ^ 32" by (simp_all add: k_def)
  have "\<bar>z\<bar> < 2 ^ 22" using Nz N k by (simp add: abs_less_iff)
  note dates = civil_in_doubles [OF this]
  define a where "a = (4 * z - 1) div 146097"
  define b where "b = a - a div 4"
  define y where "y = (4 * b + 4 * z - 1) div 1461"
  define c where "c = b + z - (1461 * y) div 4"
  define m where "m = (5 * c + 456) div 153"
  define d where "d = c - (153 * m - 457) div 5"
  note folds = a_def [symmetric] b_def [symmetric] y_def [symmetric] c_def [symmetric] m_def [symmetric] d_def [symmetric]
  note dates = dates [unfolded folds]
  have civil: "civil z = (if m > 12 then (y + 1, m - 12, d) else (y, m, d))"
    unfolding civil_def Let_def folds ..
  have m: "3 \<le> m" "m \<le> 14" using march_month [OF dates(9,10)] unfolding folds Let_def by simp_all
  have d: "1 \<le> d" "d \<le> 31"
  proof -
    define y' m' where "y' = (if m > 12 then y + 1 else y)" and "m' = (if m > 12 then m - 12 else m)"
    have "valid_date y' m' d" using civil_valid [of z] civil unfolding y'_def m'_def by (auto split: if_splits)
    then have v: "1 \<le> m'" "m' \<le> 12" "1 \<le> d" "d \<le> month_length y' m'" by (simp_all add: valid_date_def)
    moreover have "month_length y' m' \<le> 31" using months [OF v(1,2)] by (elim disjE) simp_all
    ultimately show "1 \<le> d" "d \<le> 31" by simp_all
  qed
  define h k1 where "h = 24 * k div 2 ^ 32" and "k1 = 24 * k mod 2 ^ 32"
  define mi k2 where "mi = 60 * k1 div 2 ^ 32" and "k2 = 60 * k1 mod 2 ^ 32"
  define s k3 where "s = 60 * k2 div 2 ^ 32" and "k3 = 60 * k2 mod 2 ^ 32"
  define ms k4 where "ms = 1000 * k3 div 2 ^ 32" and "k4 = 1000 * k3 mod 2 ^ 32"
  define us where "us = (1000 * k4 + 2 ^ 31) div 2 ^ 32"
  have num: "of_int 24 = (24 :: rat)" "of_int 60 = (60 :: rat)" "of_int 1000 = (1000 :: rat)" by simp_all
  have small: "(0 :: int) < 24" "(24 :: int) \<le> 1000" "(0 :: int) < 60" "(60 :: int) \<le> 1000" "(0 :: int) < 1000" "(1000 :: int) \<le> 1000"
    by simp_all
  note s1 = digit_step [OF k small(1,2), folded h_def k1_def, unfolded num]
  note s2 = digit_step [OF s1(4,5) small(3,4), folded mi_def k2_def, unfolded num]
  note s3 = digit_step [OF s2(4,5) small(3,4), folded s_def k3_def, unfolded num]
  note s4 = digit_step [OF s3(4,5) small(5,6), folded ms_def k4_def, unfolded num]
  note s5 = digit_step [OF s4(4,5) small(5,6), unfolded num]
  have ranges: "0 \<le> h" "h \<le> 23" "0 \<le> mi" "mi \<le> 59" "0 \<le> s" "s \<le> 59" "0 \<le> ms" "ms \<le> 999" "0 \<le> us" "us \<le> 1000"
  proof -
    have "0 \<le> 1000 * k4" "1000 * k4 < 1000 * 2 ^ 32" using s4(4,5) by simp_all
    moreover have "2 ^ 32 * us \<le> 1000 * k4 + 2 ^ 31" "1000 * k4 + 2 ^ 31 < 2 ^ 32 * us + 2 ^ 32"
      unfolding us_def by (rule div_bounds, simp)+
    ultimately show "0 \<le> us" "us \<le> 1000" by simp_all
  qed (use s1(6,7) s2(6,7) s3(6,7) s4(6,7) in simp_all)
  have half: "dbl (of_int (1000 * k4) / 2 ^ 32 + 1 / 2) = of_int (1000 * k4 + 2 ^ 31) / 2 ^ 32"
  proof -
    have eq: "(of_int (1000 * k4) / 2 ^ 32 + 1 / 2 :: rat) = of_int (1000 * k4 + 2 ^ 31) / 2 ^ 32" by simp
    show ?thesis unfolding eq using s4(4,5) by (intro dbl_exact [of _ "1000 * k4 + 2 ^ 31" 32]) simp_all
  qed
  have "0 \<le> (of_int (1000 * k4 + 2 ^ 31) / 2 ^ 32 :: rat)" using s4(4) by simp
  then have us: "truncate (of_int (1000 * k4 + 2 ^ 31) / 2 ^ 32) = us" by (simp only: truncate_pos floor_grid us_def)
  have M: "(86400000000 * N + 2 ^ 31) div 2 ^ 32 = clock z h mi s ms us"
  proof -
    define e where "e = 3600000000 * h + 60000000 * mi + 1000000 * s + 1000 * ms"
    have "86400000000 * k = 2 ^ 32 * e + 1000 * k4"
    proof -
      have "86400000000 * k = B * (3600000000 * h + 60000000 * mi + 1000000 * s + 1000 * ms) + 1000 * k4"
        if "24 * k = B * h + k1" "60 * k1 = B * mi + k2" "60 * k2 = B * s + k3" "1000 * k3 = B * ms + k4" for B
        using that by (simp only: distrib_left mult.left_commute [of B])
      from this [OF s1(8) s2(8) s3(8) s4(8)] show ?thesis unfolding e_def .
    qed
    then have eq: "86400000000 * N + 2 ^ 31 = 1000 * k4 + 2 ^ 31 + (86400000000 * z + e) * 2 ^ 32"
      unfolding Nz by (simp only: distrib_left distrib_right mult.commute mult.left_commute add.assoc add.commute add.left_commute)
    have "(86400000000 * N + 2 ^ 31) div 2 ^ 32 = (86400000000 * z + e) + us"
      unfolding us_def eq by (rule div_mult_self1) simp
    then show ?thesis by (simp add: clock_def e_def)
  qed
  have frac: "dbl (of_int N / 2 ^ 32 - of_int z) = of_int k / 2 ^ 32"
  proof -
    have "(of_int N / 2 ^ 32 - of_int z :: rat) = of_int k / 2 ^ 32" unfolding z_def k_def by (rule grid_rest)
    then show ?thesis using k by (simp only:) (intro dbl_exact [of _ k 32], simp_all)
  qed
  have day: "truncate (dbl (of_int d + of_int k / 2 ^ 32)) = d"
  proof -
    have eq: "(of_int d + of_int k / 2 ^ 32 :: rat) = of_int (d * 2 ^ 32 + k) / 2 ^ 32" by simp
    have "dbl (of_int (d * 2 ^ 32 + k) / 2 ^ 32) = of_int (d * 2 ^ 32 + k) / 2 ^ 32"
      by (rule dbl_exact [of _ "d * 2 ^ 32 + k" 32]) (use k d in simp_all)
    moreover have "0 \<le> (of_int (d * 2 ^ 32 + k) / 2 ^ 32 :: rat)"
    proof -
      have "0 \<le> d * 2 ^ 32 + k" using d k by simp
      then show ?thesis by (simp only: of_int_0_le_iff zero_le_divide_iff) simp
    qed
    moreover have "(d * 2 ^ 32 + k) div 2 ^ 32 = d" by (rule int_div_pos_eq [of _ _ _ k]) (use k in simp_all)
    ultimately show ?thesis unfolding eq by (simp only: truncate_pos floor_grid)
  qed
  define Y M where "Y = (if m > 12 then y + 1 else y)" and "M = (if m > 12 then m - 12 else m)"
  have YMd: "civil z = (Y, M, d)" by (simp add: civil Y_def M_def)
  have short: "list_all in_short [y, m, d, h, mi, s, ms, us]"
    using ranges m d dates(8) by (simp add: in_short_def abs_less_iff)
  note run = normalize_carries [OF ranges YMd]
  have ok: "valid_date (dt_year T) (dt_month T) (dt_day T) \<and> 0 \<le> dt_hour T \<and> dt_hour T \<le> 23 \<and>
      0 \<le> dt_minute T \<and> dt_minute T \<le> 59 \<and> 0 \<le> dt_second T \<and> dt_second T \<le> 59 \<and>
      0 \<le> dt_milli T \<and> dt_milli T \<le> 999 \<and> 0 \<le> dt_micro T \<and> dt_micro T \<le> 999"
    if "T = at_time A t" for A T
    unfolding that by (rule at_time_valid)
  show ?thesis
    unfolding computeGregorian_def
    by (simp only: Let_def w floor_grid z_def [symmetric] frac dates s1(1-3) s2(1-3) s3(1-3) s4(1-3) s5(1) half us day
      h_def [symmetric] mi_def [symmetric] s_def [symmetric] ms_def [symmetric] short run M d_def [symmetric]
      Y_def [symmetric] M_def [symmetric] not_True_eq_False if_False res_bind_simps ok [OF refl] if_True simp_thms)
qed

subsection \<open>The Julian day of a time\<close>

lemma dbl_grid:
  assumes "2 powi e \<le> \<bar>x\<bar>"
  shows "\<exists>n. dbl x = of_int n * 2 powi (e - 52)"
proof -
  define i where "i = exponent \<bar>x\<bar>"
  have "0 < (2 :: rat) powi e" by simp
  then have x: "x \<noteq> 0" using assms by (metis abs_0 linorder_not_less)
  then have "2 powi e < (2 :: rat) powi (i + 1)" using exponent_bounds [of "\<bar>x\<bar>"] assms unfolding i_def by simp
  then have "e \<le> i" by (simp add: powi_iff)
  then have "(2 :: rat) powi (i - 52) = 2 powi (e - 52) * of_int (2 ^ nat (i - e))"
    using power_int_add [of "2 :: rat" "e - 52" "i - e"] by (simp add: power_int_nonneg_exp)
  moreover have "dbl x = of_int (nearest (x / 2 powi (i - 52))) * 2 powi (i - 52)"
    using x by (simp add: dbl_def fl_def i_def Let_def)
  ultimately have "dbl x = of_int (nearest (x / 2 powi (i - 52)) * 2 ^ nat (i - e)) * 2 powi (e - 52)" by simp
  then show ?thesis by blast
qed

lemma utc_julian_error:
  assumes "0 \<le> utc" "utc \<le> 864000000000 * 3100000"
  shows "\<bar>utc_julian utc - (of_int utc / 864000000000 + 4598321 / 2)\<bar> \<le> 1 / 2 ^ 29"
    "4194304 / 2 \<le> dbl (dbl (of_int utc) / 864000000000) + 4598321 / 2"
proof -
  define q a b c where "q = of_int utc / (864000000000 :: rat)" and "a = dbl (of_int utc) / 864000000000"
    and "b = dbl a" and "c = dbl (b + 4598321 / 2)"
  have "0 \<le> (of_int utc :: rat)" using assms(1) by simp
  moreover have "(of_int utc :: rat) \<le> of_int (864000000000 * 3100000)" using assms(2) by (subst of_int_le_iff)
  ultimately have q: "0 \<le> q" "q \<le> 3100000" by (simp_all add: q_def)
  define e :: rat where "e = 1 / 2 ^ 53"
  have e: "0 < e" "e \<le> 1 / 1000000" by (simp_all add: e_def)
  have err: "\<bar>dbl x - x\<bar> \<le> \<bar>x\<bar> * e" for x using dbl_error [of x] by (simp add: e_def)
  have "\<bar>a - q\<bar> = \<bar>dbl (of_int utc) - of_int utc\<bar> / 864000000000"
    by (simp add: a_def q_def flip: diff_divide_distrib)
  also have "\<dots> \<le> (of_int utc * e) / 864000000000" using err [of "of_int utc"] assms(1) by (simp add: divide_right_mono)
  also have "\<dots> = q * e" by (simp add: q_def)
  finally have aq: "\<bar>a - q\<bar> \<le> q * e" .
  have bound: "x * e \<le> B * e" "x * e \<le> B / 1000000" if "x \<le> B" "0 \<le> B" for x B
  proof -
    show 1: "x * e \<le> B * e" using that e by (simp add: mult_right_mono)
    have "B * e \<le> B * (1 / 1000000)" using that e by (intro mult_left_mono) simp_all
    then show "x * e \<le> B / 1000000" using 1 by simp
  qed
  have a: "\<bar>a - q\<bar> \<le> 3100000 * e" "- 4 \<le> a" "a \<le> 3100004" using aq bound [OF q(2)] q unfolding abs_le_iff by linarith+
  then have absa: "\<bar>a\<bar> \<le> 3100004" by linarith
  then have b: "\<bar>b - a\<bar> \<le> 3100004 * e" "\<bar>b - a\<bar> \<le> 4" using err [of a] bound [OF absa] unfolding b_def by linarith+
  then have absb: "\<bar>b + 4598321 / 2\<bar> \<le> 5500000" using a absa by linarith
  have c: "\<bar>c - (b + 4598321 / 2)\<bar> \<le> 5500000 * e" using err [of "b + 4598321 / 2"] bound(1) [OF absb] unfolding c_def by linarith
  have "\<bar>c - (q + 4598321 / 2)\<bar> \<le> 11700004 * e" using a(1) b(1) c by linarith
  also have "\<dots> \<le> 1 / 2 ^ 29" by (simp add: e_def)
  finally show "\<bar>utc_julian utc - (of_int utc / 864000000000 + 4598321 / 2)\<bar> \<le> 1 / 2 ^ 29"
    unfolding utc_julian_def Let_def c_def b_def a_def q_def .
  show "4194304 / 2 \<le> dbl (dbl (of_int utc) / 864000000000) + 4598321 / 2"
    using a b unfolding b_def a_def by linarith
qed

lemma utc_julian_day:
  assumes "0 \<le> utc" "utc \<le> 864000000000 * 3100000"
  obtains N where "dbl (utc_julian utc - 3442237 / 2) = of_int N / 2 ^ 32" "- (2 ^ 53) < N" "N < 2 ^ 54"
    "\<bar>(86400000000 * N + 2 ^ 31) div 2 ^ 32 - (utc div 10 + 86400000000 * 578042)\<bar> \<le> 200"
proof -
  note u = utc_julian_error [OF assms]
  define x where "x = dbl (dbl (of_int utc) / 864000000000) + 4598321 / 2"
  have "2 powi 21 \<le> \<bar>x\<bar>" using u(2) unfolding x_def by simp
  then obtain n where n: "dbl x = of_int n * 2 powi (21 - 52)" using dbl_grid by blast
  then have j: "utc_julian utc = of_int n / 2 ^ 31" unfolding utc_julian_def Let_def x_def [symmetric] by (simp add: power_int_minus_divide)
  define N where "N = 2 * (n - 3442237 * 2 ^ 30)"
  have w: "utc_julian utc - 3442237 / 2 = of_int N / 2 ^ 32" unfolding j N_def by (simp add: field_simps)
  define X where "X = (of_int N :: rat) / 2 ^ 32"
  have near: "\<bar>X - (of_int utc / 864000000000 + 578042)\<bar> \<le> 1 / 2 ^ 29"
  proof -
    have "X - (of_int utc / 864000000000 + 578042) = utc_julian utc - (of_int utc / 864000000000 + 4598321 / 2)"
      unfolding X_def w [symmetric] by simp
    then show ?thesis using u(1) by (simp only:)
  qed
  have utc: "0 \<le> (of_int utc :: rat)" "(of_int utc :: rat) \<le> 864000000000 * 3100000"
  proof -
    have "(of_int utc :: rat) \<le> of_int (864000000000 * 3100000)" using assms(2) by (subst of_int_le_iff)
    then show "(of_int utc :: rat) \<le> 864000000000 * 3100000" by simp
  qed (use assms(1) in simp)
  then have "0 < X" "X < 4000000" using near unfolding abs_le_iff by (simp_all add: field_simps)
  then have N: "0 < N" "N < 4000000 * 2 ^ 32"
  proof -
    have "(of_int N :: rat) < of_int (4000000 * 2 ^ 32)" using \<open>X < 4000000\<close> by (simp add: X_def field_simps)
    then show "N < 4000000 * 2 ^ 32" by (subst (asm) of_int_less_iff)
  qed (simp add: X_def zero_less_divide_iff)
  have exact: "dbl (utc_julian utc - 3442237 / 2) = of_int N / 2 ^ 32"
  proof -
    have eq: "(of_int N / 2 ^ 32 :: rat) = of_int (n - 3442237 * 2 ^ 30) / 2 ^ 31" by (simp add: N_def)
    show ?thesis unfolding w unfolding eq by (rule dbl_exact [of _ "n - 3442237 * 2 ^ 30" 31]) (use N in \<open>simp_all add: N_def\<close>)
  qed
  define M E where "M = (86400000000 * N + 2 ^ 31) div 2 ^ 32" and "E = utc div 10 + 86400000000 * 578042"
  have "2 ^ 32 * M \<le> 86400000000 * N + 2 ^ 31" "86400000000 * N + 2 ^ 31 < 2 ^ 32 * M + 2 ^ 32"
    unfolding M_def by (rule div_bounds, simp)+
  then have M: "(2 ^ 32 * of_int M :: rat) \<le> 86400000000 * of_int N + 2 ^ 31" "(86400000000 * of_int N + 2 ^ 31 :: rat) < 2 ^ 32 * of_int M + 2 ^ 32"
    by (simp_all only: of_int_le_iff [where 'a = rat, symmetric] of_int_less_iff [where 'a = rat, symmetric] of_int_add of_int_mult
      of_int_power of_int_numeral)
  have "10 * (utc div 10) \<le> utc" "utc < 10 * (utc div 10) + 10" by (rule div_bounds, simp)+
  then have D: "(10 * of_int (utc div 10) :: rat) \<le> of_int utc" "(of_int utc :: rat) < 10 * of_int (utc div 10) + 10"
    by (simp_all only: of_int_le_iff [where 'a = rat, symmetric] of_int_less_iff [where 'a = rat, symmetric] of_int_add of_int_mult
      of_int_numeral)
  have E: "(of_int E :: rat) = of_int (utc div 10) + 86400000000 * 578042" by (simp add: E_def)
  have X: "of_int M \<le> 86400000000 * X + 1 / 2" "86400000000 * X + 1 / 2 < of_int M + 1" using M by (simp_all add: X_def field_simps)
  have "86400000000 * X - (of_int utc / 10 + 86400000000 * 578042) \<le> 86400000000 / 2 ^ 29"
    "(of_int utc / 10 + 86400000000 * 578042) - 86400000000 * X \<le> 86400000000 / 2 ^ 29"
    using near unfolding abs_le_iff by (simp_all add: field_simps)
  then have "of_int M - of_int E \<le> (200 :: rat)" "of_int E - of_int M \<le> (200 :: rat)"
    using X D unfolding E by (simp_all add: field_simps)
  then have "of_int (M - E) \<le> (of_int 200 :: rat)" "of_int (E - M) \<le> (of_int 200 :: rat)" by simp_all
  then have "\<bar>M - E\<bar> \<le> 200" unfolding of_int_le_iff by linarith
  then show ?thesis using that [OF exact] N unfolding M_def E_def by simp
qed

subsection \<open>The fields of a time\<close>

lemma day_back_civil:
  assumes "civil z = (dt_year t, dt_month t, dt_day t)"
  shows "\<exists>y m d. civil (z - 1) = (y, m, d) \<and> day_back t = Inr (t\<lparr>dt_year := y, dt_month := m, dt_day := d\<rparr>)"
proof -
  obtain y m d where c: "civil (z - 1) = (y, m, d)" by (cases "civil (z - 1)") auto
  then have v: "1 \<le> m" "m \<le> 12" "1 \<le> d" "d \<le> month_length y m" using civil_valid by (auto simp: valid_date_def)
  have "next_day (y, m, d) = (dt_year t, dt_month t, dt_day t)" using civil_next [of "z - 1"] c assms by simp
  then have "day_back t = Inr (t\<lparr>dt_year := y, dt_month := m, dt_day := d\<rparr>)"
    using v by (cases t) (auto simp: next_day_def day_back_def daysOfMonth_def Let_def split: if_splits)
  then show ?thesis using c by blast
qed

lemma day_on_civil:
  assumes "civil z = (dt_year t, dt_month t, dt_day t)"
  shows "\<exists>y m d. civil (z + 1) = (y, m, d) \<and> day_on t = Inr (t\<lparr>dt_year := y, dt_month := m, dt_day := d\<rparr>)"
proof -
  have v: "1 \<le> dt_month t" "dt_month t \<le> 12" "1 \<le> dt_day t" "dt_day t \<le> month_length (dt_year t) (dt_month t)"
    using civil_valid [OF assms] by (auto simp: valid_date_def)
  obtain y m d where c: "civil (z + 1) = (y, m, d)" by (cases "civil (z + 1)") auto
  then have "next_day (dt_year t, dt_month t, dt_day t) = (y, m, d)" using civil_next [of z] assms by simp
  then have "day_on t = Inr (t\<lparr>dt_year := y, dt_month := m, dt_day := d\<rparr>)"
    using v by (cases t) (auto simp: next_day_def day_on_def daysOfMonth_def Let_def split: if_splits)
  then show ?thesis using c by blast
qed

lemma signed_nonneg: "0 \<le> a \<Longrightarrow> 0 < q \<Longrightarrow> a sdiv q = a div q" "0 \<le> a \<Longrightarrow> 0 < q \<Longrightarrow> a smod q = a mod q" for a q :: int
  by (auto simp: signed_divide_int_def signed_modulo_int_def sgn_if)

lemma digit_of_days: "0 < q \<Longrightarrow> (x + q * (r * c)) div q mod r = x div q mod r" for q r c x :: int
  by (subst div_mult_self2) (simp_all only: less_irrefl mod_mult_self4 not_False_eq_True order_less_imp_not_eq2)

lemma to_int_mod: "0 < r \<Longrightarrow> r \<le> 1000000 \<Longrightarrow> to_int (x mod r) = x mod r"
proof -
  assume r: "0 < r" "r \<le> 1000000"
  have num31: "(2 :: int) ^ 31 = 2147483648" by simp
  have "0 \<le> x mod r" "x mod r < r" using r(1) by simp_all
  then have "\<bar>x mod r\<bar> < 2147483648" using r(2) by linarith
  then show ?thesis by (intro to_int_small) (metis num31)
qed

lemma daytime_fields:
  assumes "0 \<le> s"
  shows "span_hours s = (s + 86400000000 * c) div 3600000000 mod 24" "span_minutes s = (s + 86400000000 * c) div 60000000 mod 60"
    "span_seconds s = (s + 86400000000 * c) div 1000000 mod 60" "span_milliseconds s = (s + 86400000000 * c) div 1000 mod 1000"
    "span_microseconds s = (s + 86400000000 * c) mod 1000"
proof -
  have step: "to_int ((s sdiv q) smod r) = (s + q * (r * c)) div q mod r" if "0 < q" "0 < r" "r \<le> 1000" for q r c
  proof -
    have "s sdiv q = s div q" using assms that by (simp add: signed_nonneg)
    moreover have "0 \<le> s div q" using assms that by (simp add: pos_imp_zdiv_nonneg_iff)
    then have "(s div q) smod r = s div q mod r" using that by (simp add: signed_nonneg)
    moreover have "to_int (s div q mod r) = s div q mod r" using that by (intro to_int_mod) simp_all
    ultimately show ?thesis using digit_of_days [OF that(1)] by simp
  qed
  show "span_hours s = (s + 86400000000 * c) div 3600000000 mod 24"
    using step [of 3600000000 24 c] by (simp add: span_fields span_units)
  show "span_minutes s = (s + 86400000000 * c) div 60000000 mod 60"
    using step [of 60000000 60 "24 * c"] by (simp add: span_fields span_units)
  show "span_seconds s = (s + 86400000000 * c) div 1000000 mod 60"
    using step [of 1000000 60 "1440 * c"] by (simp add: span_fields span_units)
  show "span_milliseconds s = (s + 86400000000 * c) div 1000 mod 1000"
    using step [of 1000 1000 "86400 * c"] by (simp add: span_fields span_units)
  have "s smod 1000 = s mod 1000" using assms by (simp add: signed_nonneg)
  moreover have "to_int (s mod 1000) = s mod 1000" by (rule to_int_mod) simp_all
  moreover have "(s + 1000 * (86400000 * c)) mod 1000 = s mod 1000" by (rule mod_mult_self2)
  ultimately show "span_microseconds s = (s + 86400000000 * c) mod 1000" by (simp add: span_fields)
qed

text \<open>The hour of a time near midnight.\<close>

lemma hour_of_rest: "X div 3600000000 mod 24 = X mod 86400000000 div 3600000000" for X :: int
proof -
  have "X mod (3600000000 * 24) = 3600000000 * (X div 3600000000 mod 24) + X mod 3600000000" by (rule zmod_zmult2_eq) simp
  moreover have "0 \<le> X mod 3600000000" "X mod 3600000000 < 3600000000" by simp_all
  ultimately have "X mod (3600000000 * 24) div 3600000000 = X div 3600000000 mod 24"
    by (intro int_div_pos_eq [where r = "X mod 3600000000"])
  then show ?thesis by simp
qed

lemma hour_bounds:
  fixes X :: int
  shows "X div 3600000000 mod 24 = 23 \<longleftrightarrow> 82800000000 \<le> X mod 86400000000"
    "X div 3600000000 mod 24 = 0 \<longleftrightarrow> X mod 86400000000 < 3600000000"
proof -
  define r h where "r = X mod 86400000000" and "h = r div 3600000000"
  have r: "0 \<le> r" "r < 86400000000" by (simp_all add: r_def)
  have h: "3600000000 * h \<le> r" "r < 3600000000 * h + 3600000000" unfolding h_def by (rule div_bounds, simp)+
  show "X div 3600000000 mod 24 = 23 \<longleftrightarrow> 82800000000 \<le> X mod 86400000000"
    unfolding hour_of_rest r_def [symmetric] h_def [symmetric] using r h by linarith
  show "X div 3600000000 mod 24 = 0 \<longleftrightarrow> X mod 86400000000 < 3600000000"
    unfolding hour_of_rest r_def [symmetric] h_def [symmetric] using r h by linarith
qed

lemma at_time_fields:
  "dt_utc (at_time M t) = dt_utc t" "civil (M div 86400000000) = (dt_year (at_time M t), dt_month (at_time M t), dt_day (at_time M t))"
  "dt_hour (at_time M t) = M div 3600000000 mod 24"
  by (simp_all add: at_time_def split: prod.split)

lemma at_time_move:
  assumes "civil (E div 86400000000) = (y, m, d)"
  shows "at_time M t\<lparr>dt_year := y, dt_month := m, dt_day := d, dt_hour := E div 3600000000 mod 24,
    dt_minute := E div 60000000 mod 60, dt_second := E div 1000000 mod 60, dt_milli := E div 1000 mod 1000, dt_micro := E mod 1000\<rparr>
    = at_time E t"
  unfolding at_time_def assms by (simp split: prod.split)

text \<open>The fields are those of the time to the microsecond, from the reform of the calendar for more than eight thousand years.\<close>

lemma recompute_exact:
  assumes "0 \<le> dt_utc t" "dt_utc t \<le> 864000000000 * 3100000"
  shows "recompute t = Inr (at_time (dt_utc t div 10 + 86400000000 * 578042) t)"
proof -
  obtain N where N: "dbl (utc_julian (dt_utc t) - 3442237 / 2) = of_int N / 2 ^ 32" "- (2 ^ 53) < N" "N < 2 ^ 54"
    "\<bar>(86400000000 * N + 2 ^ 31) div 2 ^ 32 - (dt_utc t div 10 + 86400000000 * 578042)\<bar> \<le> 200"
    using utc_julian_day [OF assms] .
  define M E where "M = (86400000000 * N + 2 ^ 31) div 2 ^ 32" and "E = dt_utc t div 10 + 86400000000 * 578042"
  have near: "M - E \<le> 200" "E - M \<le> 200" using N(4) unfolding M_def [symmetric] E_def [symmetric] by linarith+
  define zM rM zE rE where "zM = M div 86400000000" and "rM = M mod 86400000000" and "zE = E div 86400000000" and "rE = E mod 86400000000"
  have r: "0 \<le> rM" "rM < 86400000000" "0 \<le> rE" "rE < 86400000000" by (simp_all add: rM_def rE_def)
  have ME: "M = 86400000000 * zM + rM" "E = 86400000000 * zE + rE"
    unfolding zM_def rM_def zE_def rE_def by (simp_all only: mult_div_mod_eq)
  have span: "dt_utc t sdiv 10 = dt_utc t div 10" "0 \<le> dt_utc t div 10"
    using assms(1) by (simp_all add: signed_nonneg pos_imp_zdiv_nonneg_iff)
  note fields = daytime_fields [OF span(2), of 578042, folded E_def]
  define T where "T = at_time M t"
  have T: "computeGregorian (julianDay t) t = Inr T" unfolding T_def julianDay_def M_def by (rule gregorian_exact [OF N(1-3)])
  have utc: "dt_utc T = dt_utc t" and date: "civil zM = (dt_year T, dt_month T, dt_day T)" and hour: "dt_hour T = M div 3600000000 mod 24"
    using at_time_fields [of M t] unfolding T_def [symmetric] zM_def [symmetric] by simp_all
  define F where "F T = (T :: DateTime)\<lparr>dt_hour := E div 3600000000 mod 24, dt_minute := E div 60000000 mod 60,
    dt_second := E div 1000000 mod 60, dt_milli := E div 1000 mod 1000, dt_micro := E mod 1000\<rparr>" for T
  have run: "recompute t = res_bind (if 82800000000 \<le> rE \<and> rM < 3600000000 then day_back T
      else if rE < 3600000000 \<and> 82800000000 \<le> rM then day_on T else Inr T) (\<lambda>t. Inr (F t))"
    unfolding recompute_def T res_bind_simps computeDaytime_def Let_def utc span(1) fields hour hour_bounds F_def rE_def rM_def ..
  have move: "F (T\<lparr>dt_year := y, dt_month := m, dt_day := d\<rparr>) = at_time E t" if "civil zE = (y, m, d)" for y m d
    using at_time_move [OF that [unfolded zE_def], of M t] unfolding T_def F_def by simp
  consider "zM = zE" | "zM = zE + 1" | "zM = zE - 1" using ME r near by linarith
  then have "recompute t = Inr (at_time E t)"
  proof cases
    case 1
    then have "\<not> (82800000000 \<le> rE \<and> rM < 3600000000)" "\<not> (rE < 3600000000 \<and> 82800000000 \<le> rM)" using ME near by linarith+
    moreover have "F T = at_time E t" using move [OF date [unfolded 1]] by simp
    ultimately show ?thesis unfolding run by auto
  next
    case 2
    then have "82800000000 \<le> rE" "rM < 3600000000" using ME near r by linarith+
    moreover obtain y m d where "civil zE = (y, m, d)" "day_back T = Inr (T\<lparr>dt_year := y, dt_month := m, dt_day := d\<rparr>)"
      using day_back_civil [OF date] unfolding 2 by auto
    ultimately show ?thesis unfolding run using move by simp
  next
    case 3
    then have "rE < 3600000000" "82800000000 \<le> rM" using ME near r by linarith+
    moreover from this have "\<not> rM < 3600000000" by linarith
    moreover obtain y m d where "civil zE = (y, m, d)" "day_on T = Inr (T\<lparr>dt_year := y, dt_month := m, dt_day := d\<rparr>)"
      using day_on_civil [OF date] unfolding 3 by auto
    ultimately show ?thesis unfolding run using move by simp
  qed
  then show ?thesis unfolding E_def .
qed

subsection \<open>The time of fields\<close>

lemma month_offset:
  assumes "1 \<le> m" "m \<le> 12"
  shows "lookup ! nat (if m < 3 then m + 12 else m) = (153 * (if m < 3 then m + 12 else m) - 457) div 5"
  using months [OF assms] by (elim disjE) (simp_all add: lookup_def)

lemma sum_bounds:
  fixes d o' y a b c :: int
  assumes "1 \<le> d" "d \<le> 31" "\<bar>o'\<bar> \<le> 2000" "\<bar>y\<bar> \<le> 9999" "\<bar>a\<bar> \<le> \<bar>y\<bar>" "\<bar>b\<bar> \<le> \<bar>y\<bar>" "\<bar>c\<bar> \<le> \<bar>y\<bar>"
  shows "\<bar>d\<bar> \<le> 10000000" "\<bar>o'\<bar> \<le> 10000000" "\<bar>d + o'\<bar> \<le> 10000000" "\<bar>365 * y\<bar> \<le> 10000000" "\<bar>d + o' + 365 * y\<bar> \<le> 10000000"
      "\<bar>a\<bar> \<le> 10000000" "\<bar>b\<bar> \<le> 10000000" "\<bar>c\<bar> \<le> 10000000" "\<bar>d + o' + 365 * y + a\<bar> \<le> 10000000"
      "\<bar>d + o' + 365 * y + a - b\<bar> \<le> 10000000" "\<bar>d + o' + 365 * y + a - b + c\<bar> < 3800000"
  using assms by linarith+

lemma day_number_bounds:
  assumes "valid_date y m d" "0 \<le> y" "y \<le> 9999"
  shows "\<bar>day_number y m d\<bar> < 3800000"
proof -
  define m' y' where "m' = (if m < 3 then m + 12 else m)" and "y' = (if m < 3 then y - 1 else y)"
  have v: "1 \<le> m" "m \<le> 12" "1 \<le> d" "d \<le> month_length y m" using assms(1) by (simp_all add: valid_date_def)
  then have "d \<le> 31" using months [OF v(1,2)] by (elim disjE) (simp_all split: if_splits)
  moreover have "3 \<le> m'" "m' \<le> 14" using v by (simp_all add: m'_def)
  then have "\<bar>(153 * m' - 457) div 5\<bar> \<le> 2000" using abs_div [of 5 "153 * m' - 457"] by linarith
  moreover have y: "\<bar>y'\<bar> \<le> 9999" using assms(2,3) by (auto simp: y'_def)
  moreover have "\<bar>y' div 4\<bar> \<le> \<bar>y'\<bar>" "\<bar>y' div 100\<bar> \<le> \<bar>y'\<bar>" "\<bar>y' div 400\<bar> \<le> \<bar>y'\<bar>" by (rule abs_div, simp)+
  moreover have "day_number y m d = d + (153 * m' - 457) div 5 + 365 * y' + y' div 4 - y' div 100 + y' div 400"
    by (simp add: day_number_def m'_def y'_def Let_def)
  ultimately show ?thesis using sum_bounds(11) v(3) by metis
qed

lemma toJulianDay_exact:
  assumes "valid_date y m d" "0 \<le> y" "y \<le> 9999"
  shows "toJulianDay y m d 0 0 0 0 0 = of_int (2 * day_number y m d + 3442237) / 2"
proof -
  define m' y' where "m' = (if m < 3 then m + 12 else m)" and "y' = (if m < 3 then y - 1 else y)"
  have v: "1 \<le> m" "m \<le> 12" "1 \<le> d" "d \<le> month_length y m" using assms(1) by (simp_all add: valid_date_def)
  then have d: "d \<le> 31" using months [OF v(1,2)] by (elim disjE) (simp_all split: if_splits)
  have m: "3 \<le> m'" "m' \<le> 14" using v by (simp_all add: m'_def)
  define o' where "o' = (153 * m' - 457) div 5"
  have o: "\<bar>o'\<bar> \<le> 2000" "lookup ! nat m' = o'"
    using abs_div [of 5 "153 * m' - 457"] m month_offset [OF v(1,2)] unfolding o'_def m'_def [symmetric] by linarith+
  have y: "\<bar>y'\<bar> \<le> 9999" using assms(2,3) by (auto simp: y'_def)
  have f: "\<lfloor>dbl (of_int y' / 4)\<rfloor> = y' div 4" "\<lfloor>dbl (of_int y' / 100)\<rfloor> = y' div 100" "\<lfloor>dbl (of_int y' / 400)\<rfloor> = y' div 400"
    using floor_dbl_quotient [of 4 y'] floor_dbl_quotient [of 100 y'] floor_dbl_quotient [of 400 y'] y by simp_all
  have zero: "dbl 0 = 0" using dbl_of_int [of 0] by simp
  have d0: "dbl (of_int d) = of_int d" using v d by (intro dbl_of_int) simp
  have add: "dbl (of_int i + of_int j) = of_int (i + j)" "dbl (of_int i - of_int j) = of_int (i - j)"
    if "\<bar>i\<bar> \<le> 10000000" "\<bar>j\<bar> \<le> 10000000" for i j
    using that dbl_of_int [of "i + j"] dbl_of_int [of "i - j"] by (simp_all add: abs_le_iff)
  define n where "n = day_number y m d"
  have n: "n = d + o' + 365 * y' + y' div 4 - y' div 100 + y' div 400" "\<bar>n\<bar> < 3800000"
    using day_number_bounds [OF assms] by (simp_all add: n_def day_number_def m'_def y'_def o'_def Let_def)
  have last: "dbl (of_int n + 3442237 / 2) = of_int (2 * n + 3442237) / 2"
  proof -
    have eq: "(of_int n + 3442237 / 2 :: rat) = of_int (2 * n + 3442237) / 2 ^ 1" by simp
    have "dbl (of_int (2 * n + 3442237) / 2 ^ 1) = of_int (2 * n + 3442237) / 2 ^ 1"
      by (rule dbl_exact [of _ "2 * n + 3442237" 1]) (use n(2) in \<open>simp_all add: abs_le_iff abs_less_iff\<close>)
    then show ?thesis unfolding eq by simp
  qed
  have zeros: "of_int ((0 * 60 + 0) * 60 + 0) * 1000 = (0 :: rat)" "(0 + of_int 0 :: rat) = 0" "0 * 1000 = (0 :: rat)"
      "0 / 86400000000 = (0 :: rat)" "of_int d + 0 = (of_int d :: rat)" by simp_all
  have "\<bar>y' div 4\<bar> \<le> \<bar>y'\<bar>" "\<bar>y' div 100\<bar> \<le> \<bar>y'\<bar>" "\<bar>y' div 400\<bar> \<le> \<bar>y'\<bar>" by (rule abs_div, simp)+
  note s = sum_bounds(1-10) [OF v(3) d o(1) y this]
  show ?thesis
    unfolding toJulianDay_def
    by (simp only: Let_def zeros zero d0 m'_def [symmetric] y'_def [symmetric] o(2) f add s n(1) [symmetric] last n_def [symmetric])
qed

lemma toUtcTime_exact:
  assumes "\<bar>n\<bar> < 3800000"
  shows "toUtcTime (of_int (2 * n + 3442237) / 2) = Inr (864000000000 * (n - 578042))"
proof -
  have eq: "(of_int (2 * n + 3442237) / 2 - 4598321 / 2 :: rat) = of_int (n - 578042)" by (simp add: field_simps)
  have b: "\<bar>n - 578042\<bar> \<le> 4400000" using assms by linarith
  have 1: "dbl (of_int (n - 578042)) = of_int (n - 578042)" using b by (intro dbl_of_int) simp
  have eq2: "(of_int (n - 578042) * 864000000000 :: rat) = of_int ((n - 578042) * 105468750) * 2 powi 13"
    using power_int_of_nat [of "2 :: rat" 13] by simp
  have "dbl (of_int (n - 578042) * 864000000000) = of_int (n - 578042) * 864000000000"
    unfolding dbl_def by (rule fl_exact [OF eq2]) (use b in \<open>simp_all add: abs_mult\<close>)
  also have "of_int (n - 578042) * 864000000000 = (of_int (864000000000 * (n - 578042)) :: rat)"
    by (simp only: of_int_mult of_int_numeral mult.commute)
  finally have 2: "dbl (of_int (n - 578042) * 864000000000) = of_int (864000000000 * (n - 578042))" .
  have "truncate (of_int j) = j" for j by (simp add: truncate_def)
  moreover have "\<bar>864000000000 * (n - 578042)\<bar> < 2 ^ 63" using b by (simp add: abs_mult)
  then have "i64 (864000000000 * (n - 578042)) = Inr (864000000000 * (n - 578042))" by (rule i64_small)
  ultimately show ?thesis unfolding toUtcTime_def eq 1 2 by (simp only:)
qed

end
