(* ===== verification/Local_Time.thy ===== *)
theory Local_Time
  imports Date_Time
begin

text \<open>
  What is built on the points in time (\<open>base/include/base/datetime.h\<close>, \<open>base/src/datetime.cpp\<close>): the days of the week and
  the year, the arithmetic of \<open>DateTime\<close>, \<open>LocalDateTime\<close> and \<open>Stopwatch\<close>.
\<close>

subsection \<open>Dates to times\<close>

lemma fields_exact:
  assumes "isValid y m d h mi s ms us"
  shows "DateTime_of_fields y m d h mi s ms us = Inr \<lparr>dt_utc = 10 * clock (day_number y m d - 578042) h mi s ms us,
    dt_year = y, dt_month = m, dt_day = d, dt_hour = h, dt_minute = mi, dt_second = s, dt_milli = ms, dt_micro = us\<rparr>"
proof -
  have v: "valid_date y m d" "0 \<le> y" "y \<le> 9999" "0 \<le> h" "h \<le> 23" "0 \<le> mi" "mi \<le> 59" "0 \<le> s" "s \<le> 59" "0 \<le> ms" "ms \<le> 999"
    "0 \<le> us" "us \<le> 999" using assms by (simp_all add: isValid_def)
  define n where "n = day_number y m d"
  have n: "\<bar>n\<bar> < 3800000" unfolding n_def by (rule day_number_bounds [OF v(1-3)])
  have jd: "toJulianDay y m d 0 0 0 0 0 = of_int (2 * n + 3442237) / 2" unfolding n_def by (rule toJulianDay_exact [OF v(1-3)])
  have eq: "864000000000 * (n - 578042) + 10 * (h * HOURS + mi * MINUTES + s * SECONDS + ms * MILLISECONDS + us) =
      10 * clock (n - 578042) h mi s ms us" by (simp add: clock_def span_units)
  have "\<bar>10 * clock (n - 578042) h mi s ms us\<bar> < 2 ^ 63" using n v unfolding clock_def by (simp add: abs_less_iff)
  then show ?thesis using assms unfolding DateTime_of_fields_def jd toUtcTime_exact [OF n] n_def [symmetric]
    by (simp only: if_False not_True_eq_False res_bind_simps eq i64_small if_cancel)
qed

subsection \<open>Days of the week and the year\<close>

definition dayOfWeek :: "DateTime \<Rightarrow> int" where
  "dayOfWeek t = \<lfloor>dbl (julianDay t + 3 / 2)\<rfloor> smod 7"

function days_before :: "int \<Rightarrow> int \<Rightarrow> int \<Rightarrow> int \<Rightarrow> int res" where
  "days_before year month limit doy =
     (if month < limit then res_bind (daysOfMonth year month) (\<lambda>n. days_before year (month + 1) limit (doy + n)) else Inr doy)"
  by pat_completeness auto
termination by (relation "measure (\<lambda>(_, month, limit, _). nat (limit - month))") auto

declare days_before.simps [simp del]

definition dayOfYear :: "DateTime \<Rightarrow> int res" where
  "dayOfYear t = res_bind (days_before (dt_year t) 1 (dt_month t) 0) (\<lambda>doy. Inr (doy + dt_day t))"

text \<open>The loop of \<open>week\<close>: the constructor asserts that the day is one of January.\<close>

function first_of_week :: "int \<Rightarrow> int \<Rightarrow> int \<Rightarrow> int res" where
  "first_of_week year firstDayOfWeek baseDay =
     (case DateTime_of_fields year 1 baseDay 0 0 0 0 0 of Inl e \<Rightarrow> Inl e
      | Inr t \<Rightarrow> if dayOfWeek t \<noteq> firstDayOfWeek then first_of_week year firstDayOfWeek (baseDay + 1) else Inr baseDay)"
  by pat_completeness auto
termination
proof (relation "measure (\<lambda>(_, _, baseDay). nat (32 - baseDay))")
  fix year first baseDay t
  assume "DateTime_of_fields year 1 baseDay 0 0 0 0 0 = Inr t"
  then have "baseDay \<le> 31" by (simp add: DateTime_of_fields_def isValid_def valid_date_def split: if_splits)
  then show "((year, first, baseDay + 1), (year, first, baseDay)) \<in> measure (\<lambda>(_, _, baseDay). nat (32 - baseDay))" by simp
qed simp

declare first_of_week.simps [simp del]

definition week :: "int \<Rightarrow> DateTime \<Rightarrow> int res" where
  "week firstDayOfWeek t =
     (if \<not> (0 \<le> firstDayOfWeek \<and> firstDayOfWeek \<le> 6) then Inl Assertion_failed
      else res_bind (first_of_week (dt_year t) firstDayOfWeek 1) (\<lambda>baseDay.
        res_bind (dayOfYear t) (\<lambda>doy.
        let offs = (if baseDay \<le> 4 then 0 else 1) in
        Inr (if doy < baseDay then offs else (doy - baseDay) sdiv 7 + 1 + offs))))"

definition hourAMPM :: "DateTime \<Rightarrow> int" where
  "hourAMPM t = (if dt_hour t < 1 then 12 else if dt_hour t > 12 then dt_hour t - 12 else dt_hour t)"

definition isAM :: "DateTime \<Rightarrow> bool" where "isAM t = (dt_hour t < 12)"
definition isPM :: "DateTime \<Rightarrow> bool" where "isPM t = (dt_hour t \<ge> 12)"

text \<open>The day of the week of a day of the calendar: 15 October 1582 was a Friday.\<close>

definition weekday :: "int \<Rightarrow> int" where
  "weekday z = (z + 2) mod 7"

lemma dayOfWeek_midnight:
  assumes "dt_utc t = 864000000000 * n" "- 2299160 \<le> n" "n \<le> 4000000"
  shows "dayOfWeek t = weekday (n + 578042)"
proof -
  have eq: "(of_int (864000000000 * n) :: rat) = of_int (n * 105468750) * 2 powi 13"
    using power_int_of_nat [of "2 :: rat" 13] by simp
  have 1: "dbl (of_int (864000000000 * n)) = of_int (864000000000 * n)"
    unfolding dbl_def by (rule fl_exact [OF eq]) (use assms(2,3) in \<open>simp_all add: abs_le_iff\<close>)
  have 2: "(of_int (864000000000 * n) / 864000000000 :: rat) = of_int n" by simp
  have 3: "dbl (of_int n) = of_int n" using assms(2,3) by (intro dbl_of_int) (simp add: abs_le_iff)
  have half: "dbl (of_int i / 2) = of_int i / 2" if "\<bar>i\<bar> \<le> 20000000" for i
    using dbl_exact [of "of_int i / 2" i 1] that by simp
  have 4: "(of_int n + 4598321 / 2 :: rat) = of_int (2 * n + 4598321) / 2" by simp
  have 5: "dbl (of_int (2 * n + 4598321) / 2) = of_int (2 * n + 4598321) / 2" using assms(2,3) by (intro half) linarith
  have 6: "(of_int (2 * n + 4598321) / 2 + 3 / 2 :: rat) = of_int (n + 2299162)" by (simp add: field_simps)
  have 7: "dbl (of_int (n + 2299162)) = of_int (n + 2299162)" using assms(2,3) by (intro dbl_of_int) simp
  have "dayOfWeek t = (n + 2299162) smod 7"
    unfolding dayOfWeek_def julianDay_def utc_julian_def Let_def assms(1) 1 2 3 4 5 6 7 by (simp only: floor_of_int)
  also have "\<dots> = (n + 2299162) mod 7" using assms(2) by (intro signed_nonneg) simp_all
  also have "\<dots> = weekday (n + 578042)"
  proof -
    have "n + 2299162 = (n + 578042 + 2) + 7 * 245874" by simp
    then show ?thesis unfolding weekday_def by (simp only: mod_mult_self2)
  qed
  finally show ?thesis .
qed

lemma days_before_exact:
  assumes "1 \<le> month" "month \<le> limit" "limit \<le> 12"
  shows "days_before year month limit doy = Inr (doy + day_number year limit 1 - day_number year month 1)"
  using assms
proof (induction "nat (limit - month)" arbitrary: month doy)
  case 0
  then show ?case by (simp add: days_before.simps)
next
  case (Suc k)
  then have m: "1 \<le> month" "month < limit" "month \<le> 12" by simp_all
  have "valid_date year month (month_length year month)"
    using months [OF m(1,3)] by (elim disjE) (simp_all add: valid_date_def)
  then have "day_number year (month + 1) 1 = day_number year month (month_length year month) + 1"
    using day_number_next [of year month "month_length year month"] m Suc.prems by (simp add: next_day_def)
  also have "\<dots> = day_number year month 1 + month_length year month" by (simp add: day_number_def Let_def)
  finally have step: "day_number year (month + 1) 1 = day_number year month 1 + month_length year month" .
  have "days_before year (month + 1) limit (doy + month_length year month) =
      Inr (doy + month_length year month + day_number year limit 1 - day_number year (month + 1) 1)"
    using Suc m by (intro Suc(1)) simp_all
  moreover have "daysOfMonth year month = Inr (month_length year month)" using m by (simp add: daysOfMonth_def)
  ultimately show ?case unfolding days_before.simps [of year month] using m step by simp
qed

lemma dayOfYear_exact:
  assumes "valid_date (dt_year t) (dt_month t) (dt_day t)"
  shows "dayOfYear t = Inr (day_number (dt_year t) (dt_month t) (dt_day t) - day_number (dt_year t) 1 1 + 1)"
proof -
  have "1 \<le> dt_month t" "dt_month t \<le> 12" using assms by (simp_all add: valid_date_def)
  then have "days_before (dt_year t) 1 (dt_month t) 0 = Inr (day_number (dt_year t) (dt_month t) 1 - day_number (dt_year t) 1 1)"
    using days_before_exact [of 1 "dt_month t"] by simp
  moreover have "day_number (dt_year t) (dt_month t) (dt_day t) = day_number (dt_year t) (dt_month t) 1 + dt_day t - 1"
    by (simp add: day_number_def Let_def)
  ultimately show ?thesis by (simp add: dayOfYear_def)
qed

lemma day_number_lower:
  assumes "valid_date y m d" "0 \<le> y"
  shows "- 400 \<le> day_number y m d"
proof -
  define m' y' where "m' = (if m < 3 then m + 12 else m)" and "y' = (if m < 3 then y - 1 else y)"
  have "0 \<le> (153 * m' - 457) div 5" using assms(1) by (simp add: m'_def valid_date_def pos_imp_zdiv_nonneg_iff)
  moreover have "- 2 \<le> y' div 4 - y' div 100 + y' div 400"
  proof (cases "y' = - 1")
    case False
    then have y: "0 \<le> y'" using assms(2) by (simp add: y'_def split: if_splits)
    have "y' div 100 = y' div 4 div 25" by (simp add: zdiv_zmult2_eq)
    moreover have "0 \<le> y' div 4" using y by (simp add: pos_imp_zdiv_nonneg_iff)
    then have "y' div 4 div 25 \<le> y' div 4" using abs_div [of 25 "y' div 4"] by linarith
    moreover have "0 \<le> y' div 400" using y by (simp add: pos_imp_zdiv_nonneg_iff)
    ultimately show ?thesis by (metis add_nonneg_nonneg diff_ge_0_iff_ge dual_order.trans neg_le_0_iff_le zero_le_numeral)
  qed simp
  moreover have "- 1 \<le> y'" using assms(2) by (simp add: y'_def)
  moreover have "day_number y m d = d + (153 * m' - 457) div 5 + 365 * y' + (y' div 4 - y' div 100 + y' div 400)"
    by (simp add: day_number_def m'_def y'_def Let_def)
  moreover have "1 \<le> d" using assms(1) by (simp add: valid_date_def)
  moreover have "- 400 \<le> d + o' + 365 * k + q" if "0 \<le> o'" "- 2 \<le> q" "- 1 \<le> k" "1 \<le> d" for o' q k using that by linarith
  ultimately show ?thesis by metis
qed

lemma days_before_mono:
  assumes "limit \<le> 12"
  shows "\<exists>a \<ge> 0. days_before year 1 limit 0 = Inr a"
proof -
  have "\<exists>a \<ge> doy. days_before year month limit doy = Inr a" if "1 \<le> month" for month doy
    using that
  proof (induction "nat (limit - month)" arbitrary: month doy)
    case 0
    then show ?case by (simp add: days_before.simps)
  next
    case (Suc k)
    then have m: "1 \<le> month" "month \<le> 12" "month < limit" using assms by simp_all
    have "0 \<le> month_length year month" using months [OF m(1,2)] by (elim disjE) simp_all
    moreover have "\<exists>a \<ge> doy + month_length year month. days_before year (month + 1) limit (doy + month_length year month) = Inr a"
      using m Suc(2) by (intro Suc(1)) simp_all
    then obtain a where "doy + month_length year month \<le> a" "days_before year (month + 1) limit (doy + month_length year month) = Inr a"
      by blast
    ultimately show ?case using m by (intro exI [of _ a]) (simp add: days_before.simps [of year month] daysOfMonth_def)
  qed
  then show ?thesis by simp
qed

text \<open>The first of the weekdays of a year, by the loop of \<open>week\<close>.\<close>

lemma january:
  assumes "1 \<le> d" "d \<le> 31" "0 \<le> y" "y \<le> 9999"
  shows "\<exists>t. DateTime_of_fields y 1 d 0 0 0 0 0 = Inr t \<and> dayOfWeek t = weekday (day_number y 1 1 + d - 1)"
proof -
  have v: "isValid y 1 d 0 0 0 0 0" using assms by (simp add: isValid_def valid_date_def)
  then have "\<bar>day_number y 1 d\<bar> < 3800000" by (intro day_number_bounds) (simp_all add: isValid_def)
  moreover have "day_number y 1 d = day_number y 1 1 + d - 1" by (simp add: day_number_def Let_def)
  moreover have "dayOfWeek t = weekday (day_number y 1 d - 578042 + 578042)"
    if "dt_utc t = 10 * clock (day_number y 1 d - 578042) 0 0 0 0 0" for t
    using that \<open>\<bar>day_number y 1 d\<bar> < 3800000\<close> day_number_lower [of y 1 d] v
    by (intro dayOfWeek_midnight) (simp_all add: clock_def isValid_def)
  ultimately show ?thesis unfolding fields_exact [OF v] by simp
qed

lemma first_of_week_exact:
  assumes "1 \<le> i" "i \<le> b" "b \<le> 7" "0 \<le> y" "y \<le> 9999" "weekday (day_number y 1 1 + b - 1) = f"
    "\<And>j. i \<le> j \<Longrightarrow> j < b \<Longrightarrow> weekday (day_number y 1 1 + j - 1) \<noteq> f"
  shows "first_of_week y f i = Inr b"
  using assms
proof (induction "nat (b - i)" arbitrary: i)
  case 0
  then have "i = b" by simp
  moreover obtain t where "DateTime_of_fields y 1 i 0 0 0 0 0 = Inr t" "dayOfWeek t = weekday (day_number y 1 1 + i - 1)"
    using january [of i y] 0 by auto
  ultimately show ?case using 0 by (simp add: first_of_week.simps)
next
  case (Suc k)
  then have i: "i < b" by simp
  obtain t where t: "DateTime_of_fields y 1 i 0 0 0 0 0 = Inr t" "dayOfWeek t = weekday (day_number y 1 1 + i - 1)"
    using january [of i y] Suc.prems by auto
  moreover have "first_of_week y f (i + 1) = Inr b" using Suc i by (intro Suc(1)) simp_all
  ultimately show ?case using Suc.prems(7) [of i] i by (simp add: first_of_week.simps [of y f i])
qed

definition week_start :: "int \<Rightarrow> int \<Rightarrow> int" where
  "week_start y firstDayOfWeek = (let j = day_number y 1 4 in j - (weekday j - firstDayOfWeek) mod 7)"

lemma weekday_shift: "weekday (n + i) = (weekday n + i) mod 7"
  by (simp add: weekday_def mod_simps algebra_simps)

lemma mod_seven:
  fixes x :: int
  assumes "- 7 \<le> x" "x < 14"
  shows "x mod 7 = (if x < 0 then x + 7 else if x < 7 then x else x - 7)"
proof -
  consider "x < 0" | "0 \<le> x" "x < 7" | "7 \<le> x" by linarith
  then show ?thesis
  proof cases
    case 1
    then show ?thesis using int_mod_pos_eq [of x 7 "- 1" "x + 7"] assms by simp
  next
    case 3
    then show ?thesis using int_mod_pos_eq [of x 7 1 "x - 7"] assms by simp
  qed simp
qed

lemma week_start_days:
  fixes n f :: int
  assumes "0 \<le> f" "f \<le> 6"
  defines "b \<equiv> 1 + (f - weekday n) mod 7"
  shows "1 \<le> b" "b \<le> 7" "weekday (n + b - 1) = f" "1 \<le> j \<Longrightarrow> j < b \<Longrightarrow> weekday (n + j - 1) \<noteq> f"
    "n + 3 - (weekday (n + 3) - f) mod 7 = (if b \<le> 4 then n + b - 1 else n + b - 8)"
proof -
  define w where "w = weekday n"
  have w: "0 \<le> w" "w \<le> 6" by (simp_all add: w_def weekday_def)
  have b: "b = 1 + (f - w) mod 7" by (simp add: b_def w_def)
  have g: "(f - w) mod 7 = (if f < w then f - w + 7 else f - w)" using mod_seven [of "f - w"] assms(1,2) w by auto
  show "1 \<le> b" "b \<le> 7" unfolding b g using assms(1,2) w by auto
  have shift: "weekday (n + i - 1) = (w + (i - 1)) mod 7" for i
    using weekday_shift [of n "i - 1"] by (simp add: w_def algebra_simps)
  have x: "(w + i) mod 7 = (if w + i < 7 then w + i else w + i - 7)" if "0 \<le> i" "i \<le> 7" for i
    using mod_seven [of "w + i"] that w by auto
  show "weekday (n + b - 1) = f" unfolding shift b g using x [of "f - w + 7"] x [of "f - w"] assms(1,2) w by auto
  show "1 \<le> j \<Longrightarrow> j < b \<Longrightarrow> weekday (n + j - 1) \<noteq> f" unfolding shift b g using x [of "j - 1"] assms(1,2) w by (auto split: if_splits)
  have "weekday (n + 3) = (w + 3) mod 7" using weekday_shift [of n 3] by (simp add: w_def)
  then have d: "weekday (n + 3) = (if w < 4 then w + 3 else w - 4)" using x [of 3] by auto
  show "n + 3 - (weekday (n + 3) - f) mod 7 = (if b \<le> 4 then n + b - 1 else n + b - 8)"
    unfolding b g d using mod_seven [of "w + 3 - f"] mod_seven [of "w - 4 - f"] assms(1,2) w by auto
qed

lemma week_number:
  fixes doy b k :: int
  assumes "1 \<le> doy" "1 \<le> b" "b \<le> 7" "s = (if b \<le> 4 then b else b - 7)"
  shows "(if doy < b then (if b \<le> 4 then 0 else 1) else (doy - b) sdiv 7 + 1 + (if b \<le> 4 then 0 else 1)) = (doy - s) div 7 + 1"
proof (cases "doy < b")
  case True
  then have "doy - s = - 7 * (if b \<le> 4 then 1 else 0) + (if b \<le> 4 then doy - b + 7 else doy - b + 7)" using assms(4) by simp
  then have "(doy - s) div 7 = (if b \<le> 4 then - 1 else 0)"
    using assms True by (cases "b \<le> 4") (auto intro: int_div_pos_eq)
  then show ?thesis using True by simp
next
  case False
  then have "(doy - b) sdiv 7 = (doy - b) div 7" by (intro signed_nonneg) simp_all
  moreover have "(doy - s) div 7 = (doy - b) div 7 + (if b \<le> 4 then 0 else 1)"
    unfolding assms(4) by simp presburger
  ultimately show ?thesis using False by simp
qed

lemma week_exact:
  assumes v: "valid_date (dt_year t) (dt_month t) (dt_day t)" and y: "0 \<le> dt_year t" "dt_year t \<le> 9999" and f: "0 \<le> f" "f \<le> 6"
  shows "week f t = Inr ((day_number (dt_year t) (dt_month t) (dt_day t) - week_start (dt_year t) f) div 7 + 1)"
proof -
  define n k where "n = day_number (dt_year t) 1 1" and "k = day_number (dt_year t) (dt_month t) (dt_day t)"
  define b where "b = 1 + (f - weekday n) mod 7"
  note days = week_start_days [OF f, where n = n, folded b_def]
  have "first_of_week (dt_year t) f 1 = Inr b"
    by (rule first_of_week_exact) (use days y in \<open>simp_all add: n_def\<close>)
  moreover have doy: "dayOfYear t = Inr (k - n + 1)" using dayOfYear_exact [OF v] by (simp add: k_def n_def)
  moreover have "1 \<le> k - n + 1"
  proof -
    have "1 \<le> dt_month t" "dt_month t \<le> 12" "1 \<le> dt_day t" using v by (simp_all add: valid_date_def)
    moreover obtain a where "days_before (dt_year t) 1 (dt_month t) 0 = Inr a" "0 \<le> a"
      using days_before_mono [of "dt_month t"] \<open>dt_month t \<le> 12\<close> by auto
    ultimately show ?thesis using doy by (simp add: dayOfYear_def)
  qed
  moreover have "week_start (dt_year t) f = n + (if b \<le> 4 then b else b - 7) - 1"
  proof -
    have "day_number (dt_year t) 1 4 = n + 3" by (simp add: n_def day_number_def Let_def)
    then show ?thesis using days(5) unfolding week_start_def Let_def by (simp split: if_splits)
  qed
  ultimately have "week f t = Inr ((k - n + 1 - (if b \<le> 4 then b else b - 7)) div 7 + 1)"
      and "k - n + 1 - (if b \<le> 4 then b else b - 7) = k - week_start (dt_year t) f"
    using f week_number [OF \<open>1 \<le> k - n + 1\<close> days(1,2) refl] by (simp_all add: week_def Let_def)
  then show ?thesis unfolding k_def by simp
qed

subsection \<open>Arithmetic\<close>

definition DateTime_eq :: "DateTime \<Rightarrow> DateTime \<Rightarrow> bool" where "DateTime_eq t t' = (dt_utc t = dt_utc t')"
definition DateTime_less :: "DateTime \<Rightarrow> DateTime \<Rightarrow> bool" where "DateTime_less t t' = (dt_utc t < dt_utc t')"
definition DateTime_le :: "DateTime \<Rightarrow> DateTime \<Rightarrow> bool" where "DateTime_le t t' = (dt_utc t \<le> dt_utc t')"

definition timestamp :: "DateTime \<Rightarrow> int res" where
  "timestamp t = fromUtcTime (dt_utc t)"

definition DateTime_add :: "DateTime \<Rightarrow> int \<Rightarrow> DateTime res" where
  "DateTime_add t spn = DateTime_of_utc (dt_utc t) spn"

definition DateTime_sub :: "DateTime \<Rightarrow> int \<Rightarrow> DateTime res" where
  "DateTime_sub t spn = res_bind (i64 (- spn)) (DateTime_of_utc (dt_utc t))"

definition DateTime_diff :: "DateTime \<Rightarrow> DateTime \<Rightarrow> int res" where
  "DateTime_diff t t' = res_bind (i64 (dt_utc t - dt_utc t')) (\<lambda>d. Inr (d sdiv 10))"

definition DateTime_add_eq :: "DateTime \<Rightarrow> int \<Rightarrow> DateTime res" where
  "DateTime_add_eq t spn =
     res_bind (i64 (spn * 10)) (\<lambda>d. res_bind (i64 (dt_utc t + d)) (\<lambda>utc. recompute (t\<lparr>dt_utc := utc\<rparr>)))"

definition DateTime_sub_eq :: "DateTime \<Rightarrow> int \<Rightarrow> DateTime res" where
  "DateTime_sub_eq t spn =
     res_bind (i64 (spn * 10)) (\<lambda>d. res_bind (i64 (dt_utc t - d)) (\<lambda>utc. recompute (t\<lparr>dt_utc := utc\<rparr>)))"

text \<open>A difference of time zones is an \<open>int\<close>, and its product with the microseconds of a second does not overflow.\<close>

definition makeUTC :: "int \<Rightarrow> DateTime \<Rightarrow> DateTime res" where
  "makeUTC tzd t = DateTime_sub_eq t (tzd * SECONDS)"

definition makeLocal :: "int \<Rightarrow> DateTime \<Rightarrow> DateTime res" where
  "makeLocal tzd t = DateTime_add_eq t (tzd * SECONDS)"

subsection \<open>LocalDateTime\<close>

text \<open>
  What the C library says of the time zone: the offset \<open>- timezone\<close>, the flag \<open>tm_isdst\<close> of \<open>localtime_r\<close> at a time (none when
  it fails), and that of \<open>mktime\<close> for a broken-down local time.
\<close>

record time_zone =
  utcOffset :: int
  local_isdst :: "int \<Rightarrow> int option"
  mktime_isdst :: "int \<times> int \<times> int \<Rightarrow> int \<times> int \<times> int \<Rightarrow> int"

record LocalDateTime =
  ld_time :: DateTime
  ld_tzd :: int

definition adjustForTzd :: "LocalDateTime \<Rightarrow> LocalDateTime res" where
  "adjustForTzd l = res_bind (DateTime_add_eq (ld_time l) (ld_tzd l * SECONDS)) (\<lambda>t. Inr (l\<lparr>ld_time := t\<rparr>))"

definition dstOffset :: "time_zone \<Rightarrow> DateTime \<Rightarrow> int" where
  "dstOffset tz t =
     (if mktime_isdst tz (dt_year t - 1900, dt_month t - 1, dt_day t) (dt_hour t, dt_minute t, dt_second t) = 1 then 3600 else 0)"

definition determineTzd :: "time_zone \<Rightarrow> bool \<Rightarrow> LocalDateTime \<Rightarrow> LocalDateTime res" where
  "determineTzd tz adjust l =
     (if adjust then
        res_bind (timestamp (ld_time l)) (\<lambda>ts.
        case local_isdst tz (epochTime ts) of None \<Rightarrow> Inl (Runtime_error ''System error: Cannot get local time'')
        | Some isdst \<Rightarrow> adjustForTzd (l\<lparr>ld_tzd := utcOffset tz + (if isdst = 1 then 3600 else 0)\<rparr>))
      else Inr (l\<lparr>ld_tzd := utcOffset tz + dstOffset tz (ld_time l)\<rparr>))"

definition Local_of_DateTime :: "time_zone \<Rightarrow> DateTime \<Rightarrow> LocalDateTime res" where
  "Local_of_DateTime tz t = determineTzd tz True \<lparr>ld_time = t, ld_tzd = 0\<rparr>"

definition Local_of_fields :: "time_zone \<Rightarrow> int \<Rightarrow> int \<Rightarrow> int \<Rightarrow> int \<Rightarrow> int \<Rightarrow> int \<Rightarrow> int \<Rightarrow> int \<Rightarrow> LocalDateTime res" where
  "Local_of_fields tz year month day hour minute second millisecond microsecond =
     res_bind (DateTime_of_fields year month day hour minute second millisecond microsecond)
       (\<lambda>t. determineTzd tz False \<lparr>ld_time = t, ld_tzd = 0\<rparr>)"

definition Local_of_tzd_fields :: "int \<Rightarrow> int \<Rightarrow> int \<Rightarrow> int \<Rightarrow> int \<Rightarrow> int \<Rightarrow> int \<Rightarrow> int \<Rightarrow> int \<Rightarrow> LocalDateTime res" where
  "Local_of_tzd_fields tzd year month day hour minute second millisecond microsecond =
     res_bind (DateTime_of_fields year month day hour minute second millisecond microsecond)
       (\<lambda>t. Inr \<lparr>ld_time = t, ld_tzd = tzd\<rparr>)"

definition Local_of_julian :: "time_zone \<Rightarrow> rat \<Rightarrow> LocalDateTime res" where
  "Local_of_julian tz jd = res_bind (DateTime_of_julian jd) (Local_of_DateTime tz)"

definition Local_of_tzd_DateTime :: "int \<Rightarrow> DateTime \<Rightarrow> bool \<Rightarrow> LocalDateTime res" where
  "Local_of_tzd_DateTime tzd t adjust = (if adjust then adjustForTzd \<lparr>ld_time = t, ld_tzd = tzd\<rparr> else Inr \<lparr>ld_time = t, ld_tzd = tzd\<rparr>)"

definition Local_of_tzd_julian :: "int \<Rightarrow> rat \<Rightarrow> LocalDateTime res" where
  "Local_of_tzd_julian tzd jd = res_bind (DateTime_of_julian jd) (\<lambda>t. adjustForTzd \<lparr>ld_time = t, ld_tzd = tzd\<rparr>)"

definition Local_of_utc :: "int \<Rightarrow> int \<Rightarrow> int \<Rightarrow> LocalDateTime res" where
  "Local_of_utc utc diff tzd = res_bind (DateTime_of_utc utc diff) (\<lambda>t. adjustForTzd \<lparr>ld_time = t, ld_tzd = tzd\<rparr>)"

text \<open>The assignment of a timestamp compares it with the local time, not with the time of the object.\<close>

definition Local_assign_timestamp :: "time_zone \<Rightarrow> int \<Rightarrow> LocalDateTime \<Rightarrow> LocalDateTime res" where
  "Local_assign_timestamp tz ts l =
     res_bind (timestamp (ld_time l)) (\<lambda>own.
     if ts \<noteq> own then
       res_bind (utcTime ts) (\<lambda>utc. res_bind (recompute ((ld_time l)\<lparr>dt_utc := utc\<rparr>)) (\<lambda>t. determineTzd tz True (l\<lparr>ld_time := t\<rparr>)))
     else Inr l)"

definition Local_assign_julian :: "time_zone \<Rightarrow> rat \<Rightarrow> LocalDateTime \<Rightarrow> LocalDateTime res" where
  "Local_assign_julian tz jd l =
     res_bind (toUtcTime jd) (\<lambda>utc. res_bind (computeGregorian jd ((ld_time l)\<lparr>dt_utc := utc\<rparr>)) (\<lambda>t.
     determineTzd tz True (l\<lparr>ld_time := t\<rparr>)))"

definition Local_assign_tzd_julian :: "int \<Rightarrow> rat \<Rightarrow> LocalDateTime \<Rightarrow> LocalDateTime res" where
  "Local_assign_tzd_julian tzd jd l =
     res_bind (toUtcTime jd) (\<lambda>utc. res_bind (computeGregorian jd ((ld_time l)\<lparr>dt_utc := utc\<rparr>)) (\<lambda>t.
     adjustForTzd \<lparr>ld_time = t, ld_tzd = tzd\<rparr>))"

definition Local_utc :: "LocalDateTime \<Rightarrow> DateTime res" where
  "Local_utc l = DateTime_of_utc (dt_utc (ld_time l)) (- ld_tzd l * SECONDS)"

definition Local_utcTime :: "LocalDateTime \<Rightarrow> int res" where
  "Local_utcTime l = i64 (dt_utc (ld_time l) - ld_tzd l * 10000000)"

definition Local_less :: "LocalDateTime \<Rightarrow> LocalDateTime \<Rightarrow> bool res" where
  "Local_less l l' = res_bind (Local_utcTime l) (\<lambda>u. res_bind (Local_utcTime l') (\<lambda>u'. Inr (u < u')))"

definition Local_eq :: "LocalDateTime \<Rightarrow> LocalDateTime \<Rightarrow> bool res" where
  "Local_eq l l' = res_bind (Local_utcTime l) (\<lambda>u. res_bind (Local_utcTime l') (\<lambda>u'. Inr (u = u')))"

definition Local_add :: "time_zone \<Rightarrow> LocalDateTime \<Rightarrow> int \<Rightarrow> LocalDateTime res" where
  "Local_add tz l spn =
     res_bind (Local_utcTime l) (\<lambda>u. res_bind (DateTime_of_utc u spn) (Local_of_DateTime tz))"

definition Local_sub :: "time_zone \<Rightarrow> LocalDateTime \<Rightarrow> int \<Rightarrow> LocalDateTime res" where
  "Local_sub tz l spn =
     res_bind (Local_utcTime l) (\<lambda>u. res_bind (i64 (- spn)) (\<lambda>d. res_bind (DateTime_of_utc u d) (Local_of_DateTime tz)))"

definition Local_diff :: "LocalDateTime \<Rightarrow> LocalDateTime \<Rightarrow> int res" where
  "Local_diff l l' = res_bind (Local_utcTime l) (\<lambda>u. res_bind (Local_utcTime l') (\<lambda>u'.
     res_bind (i64 (u - u')) (\<lambda>d. Inr (d sdiv 10))))"

subsection \<open>Stopwatch\<close>

record Stopwatch =
  sw_start :: int
  sw_elapsed :: int
  sw_running :: bool

definition Stopwatch_start :: "int \<Rightarrow> Stopwatch \<Rightarrow> Stopwatch" where
  "Stopwatch_start now s = (if \<not> sw_running s then s\<lparr>sw_start := now, sw_running := True\<rparr> else s)"

definition Stopwatch_stop :: "int \<Rightarrow> Stopwatch \<Rightarrow> Stopwatch res" where
  "Stopwatch_stop now s =
     (if sw_running s then
        res_bind (Timestamp_diff now (sw_start s)) (\<lambda>d. res_bind (i64 (sw_elapsed s + d)) (\<lambda>e.
        Inr (s\<lparr>sw_elapsed := e, sw_running := False\<rparr>)))
      else Inr s)"

definition Stopwatch_elapsed :: "int \<Rightarrow> Stopwatch \<Rightarrow> int res" where
  "Stopwatch_elapsed now s =
     (if sw_running s then res_bind (Timestamp_diff now (sw_start s)) (\<lambda>d. i64 (sw_elapsed s + d)) else Inr (sw_elapsed s))"

definition elapsedSeconds :: "int \<Rightarrow> Stopwatch \<Rightarrow> int res" where
  "elapsedSeconds now s = res_bind (Stopwatch_elapsed now s) (\<lambda>e. Inr (to_int (e sdiv resolution)))"

definition elapsedMilliseconds :: "int \<Rightarrow> Stopwatch \<Rightarrow> int res" where
  "elapsedMilliseconds now s = res_bind (Stopwatch_elapsed now s) (\<lambda>e. Inr (to_int (e sdiv (resolution sdiv 1000))))"

definition Stopwatch_reset :: "Stopwatch \<Rightarrow> Stopwatch" where
  "Stopwatch_reset s = s\<lparr>sw_elapsed := 0, sw_running := False\<rparr>"

definition Stopwatch_restart :: "int \<Rightarrow> Stopwatch \<Rightarrow> Stopwatch" where
  "Stopwatch_restart now s = s\<lparr>sw_elapsed := 0, sw_start := now, sw_running := True\<rparr>"

subsection \<open>Properties\<close>

lemma i64_bounds: "- (2 ^ 63) \<le> x \<Longrightarrow> x < 2 ^ 63 \<Longrightarrow> i64 x = Inr x"
  by (simp add: i64_def)

lemma sdiv_multiple: "(10 * k) sdiv 10 = (k :: int)"
proof -
  have "\<bar>10 * k\<bar> div 10 = \<bar>k\<bar>" by (simp add: abs_mult)
  then show ?thesis by (auto simp: signed_divide_int_def sgn_if abs_if split: if_splits)
qed

lemma utcTime_exact:
  assumes "- 12219292800000000 \<le> ts" "ts \<le> 267840000000000000"
  shows "utcTime ts = Inr (10 * (ts + 12219292800000000))"
  using assms by (simp add: utcTime_def i64_bounds)

lemma fromUtcTime_exact:
  assumes "0 \<le> c" "c \<le> 267840000000000000"
  shows "fromUtcTime (10 * c) = Inr (c - 12219292800000000)"
proof -
  have "10 * c - utc_base = 10 * (c - 12219292800000000)" by (simp add: utc_base_def)
  moreover have "i64 (10 * (c - 12219292800000000)) = Inr (10 * (c - 12219292800000000))" using assms by (intro i64_bounds) simp_all
  ultimately show ?thesis unfolding fromUtcTime_def by (simp only: res_bind_simps sdiv_multiple)
qed

lemma recompute_utc:
  assumes "0 \<le> c" "c \<le> 267840000000000000"
  shows "recompute (t\<lparr>dt_utc := 10 * c\<rparr>) = Inr (at_time (c + 86400000000 * 578042) (t\<lparr>dt_utc := 10 * c\<rparr>))"
proof -
  have "10 * c div 10 = c" by simp
  then show ?thesis using recompute_exact [of "t\<lparr>dt_utc := 10 * c\<rparr>"] assms by simp
qed

lemma at_time_any: "dt_utc t = dt_utc t' \<Longrightarrow> at_time M t = at_time M t'"
  by (cases t; cases t') (simp add: at_time_def split: prod.split)

text \<open>
  C24: The fields of a \<open>DateTime\<close> made of a timestamp are the date and the time
  of day of its microsecond in the Gregorian calendar, for every timestamp from the reform of
  the calendar to the end of the year 9999: the errors of the computation in doubles never
  show, and the day it misses by midnight is set right.
\<close>

theorem timestamp_fields:
  assumes "- 12219292800000000 \<le> ts" "ts < 253402300800000000"
  shows "DateTime_of_timestamp ts =
    Inr (at_time (ts + 86400000000 * day_number 1970 1 1) (DateTime_empty\<lparr>dt_utc := 10 * (ts + 12219292800000000)\<rparr>))"
proof -
  have "ts + 12219292800000000 + 86400000000 * 578042 = ts + 86400000000 * day_number 1970 1 1" by (simp add: reform_day)
  then show ?thesis
    using assms recompute_utc [of "ts + 12219292800000000" DateTime_empty]
    by (simp add: DateTime_of_timestamp_def utcTime_exact add.commute)
qed

theorem timestamp_fields_witness:
  "DateTime_of_timestamp 1600000000123456 = Inr \<lparr>dt_utc = 138192928001234560, dt_year = 2020, dt_month = 9, dt_day = 13,
     dt_hour = 12, dt_minute = 26, dt_second = 40, dt_milli = 123, dt_micro = 456\<rparr>"
  by (subst timestamp_fields) (simp_all add: at_time_def DateTime_empty_def day_number_def civil_def Let_def)

lemma day_number_upper:
  assumes "valid_date y m d" "0 \<le> y" "y \<le> 9999"
  shows "day_number y m d \<le> 3652600"
proof -
  define m' y' where "m' = (if m < 3 then m + 12 else m)" and "y' = (if m < 3 then y - 1 else y)"
  have v: "1 \<le> m" "m \<le> 12" "d \<le> month_length y m" using assms(1) by (simp_all add: valid_date_def)
  have "d \<le> 31" using months [OF v(1,2)] v(3) by (elim disjE) (simp_all split: if_splits)
  moreover have "m' \<le> 14" using v by (simp add: m'_def)
  then have "(153 * m' - 457) div 5 \<le> (153 * 14 - 457) div 5" by (intro zdiv_mono1) simp_all
  moreover have y: "- 1 \<le> y'" "y' \<le> 9999" using assms(2,3) by (auto simp: y'_def)
  then have "y' div 4 \<le> 9999 div 4" "- 1 div 100 \<le> y' div 100" "y' div 400 \<le> 9999 div 400" by (intro zdiv_mono1, simp_all)+
  moreover have "day_number y m d = d + (153 * m' - 457) div 5 + 365 * y' + y' div 4 - y' div 100 + y' div 400"
    by (simp add: day_number_def m'_def y'_def Let_def)
  moreover have "d + o' + 365 * k + a - b + c \<le> 3652600"
    if "d \<le> 31" "o' \<le> (153 * 14 - 457) div 5" "k \<le> 9999" "a \<le> 9999 div 4" "- 1 div 100 \<le> b" "c \<le> 9999 div 400" for o' k a b c
    using that by simp
  moreover note y(2)
  ultimately show ?thesis by metis
qed

lemma fields_recompute:
  assumes "isValid y m d h mi s ms us" "578042 \<le> day_number y m d"
  shows "\<exists>c t. DateTime_of_fields y m d h mi s ms us = Inr t \<and> dt_utc t = 10 * c \<and> 0 \<le> c \<and> c \<le> 267840000000000000 \<and>
    (\<forall>t'. recompute (t'\<lparr>dt_utc := 10 * c\<rparr>) = Inr t)"
proof -
  define c where "c = clock (day_number y m d - 578042) h mi s ms us"
  have v: "valid_date y m d" "0 \<le> y" "y \<le> 9999" "0 \<le> h" "h \<le> 23" "0 \<le> mi" "mi \<le> 59" "0 \<le> s" "s \<le> 59" "0 \<le> ms" "ms \<le> 999"
    "0 \<le> us" "us \<le> 999" using assms(1) by (simp_all add: isValid_def)
  have "0 \<le> c" "c \<le> 86400000000 * (day_number y m d - 578042 + 1)" using assms(2) v unfolding c_def clock_def by simp_all
  moreover have "day_number y m d \<le> 3652600" by (rule day_number_upper [OF v(1-3)])
  ultimately have c: "0 \<le> c" "c \<le> 267840000000000000" by simp_all
  have "c + 86400000000 * 578042 = clock (day_number y m d) h mi s ms us" by (simp add: c_def clock_def)
  then have "recompute (t'\<lparr>dt_utc := 10 * c\<rparr>) = Inr \<lparr>dt_utc = 10 * c, dt_year = y, dt_month = m, dt_day = d, dt_hour = h,
      dt_minute = mi, dt_second = s, dt_milli = ms, dt_micro = us\<rparr>" for t'
    unfolding recompute_utc [OF c] using at_clock [OF v(4-13) civil_day_number [OF v(1)]] by simp
  then show ?thesis using c unfolding fields_exact [OF assms(1)] c_def [symmetric] by auto
qed

text \<open>
  C25: From 15 October 1582 on a \<open>DateTime\<close> built of valid fields and the one
  built of its timestamp are the same, so that the fields come back exactly, down to the
  microsecond.
\<close>

theorem fields_roundtrip_timestamp:
  assumes "isValid y m d h mi s ms us" "day_number 1582 10 15 \<le> day_number y m d"
  shows "\<exists>t. DateTime_of_fields y m d h mi s ms us = Inr t \<and> res_bind (timestamp t) DateTime_of_timestamp = Inr t \<and>
    (dt_year t, dt_month t, dt_day t) = (y, m, d) \<and>
    (dt_hour t, dt_minute t, dt_second t, dt_milli t, dt_micro t) = (h, mi, s, ms, us)"
proof -
  obtain c t where t: "DateTime_of_fields y m d h mi s ms us = Inr t" "dt_utc t = 10 * c" "0 \<le> c" "c \<le> 267840000000000000"
    "recompute (t'\<lparr>dt_utc := 10 * c\<rparr>) = Inr t" for t'
    using fields_recompute [OF assms(1)] assms(2) unfolding reform_day by metis
  have "timestamp t = Inr (c - 12219292800000000)" unfolding timestamp_def t(2) by (rule fromUtcTime_exact [OF t(3,4)])
  moreover have "utcTime (c - 12219292800000000) = Inr (10 * c)" using t(3,4) by (subst utcTime_exact) simp_all
  ultimately have "res_bind (timestamp t) DateTime_of_timestamp = Inr t" using t(5) by (simp add: DateTime_of_timestamp_def)
  moreover have "(dt_year t, dt_month t, dt_day t) = (y, m, d) \<and>
    (dt_hour t, dt_minute t, dt_second t, dt_milli t, dt_micro t) = (h, mi, s, ms, us)"
    using t(1) unfolding fields_exact [OF assms(1)] by auto
  ultimately show ?thesis using t(1) by blast
qed

theorem fields_roundtrip_timestamp_witness:
  "\<exists>t. DateTime_of_fields 2000 2 29 23 59 59 999 999 = Inr t \<and> res_bind (timestamp t) DateTime_of_timestamp = Inr t \<and>
    (dt_year t, dt_month t, dt_day t) = (2000, 2, 29) \<and>
    (dt_hour t, dt_minute t, dt_second t, dt_milli t, dt_micro t) = (23, 59, 59, 999, 999)"
  by (rule fields_roundtrip_timestamp) (simp_all add: isValid_def valid_date_def isLeapYear_def day_number_def)

text \<open>
  The number of the week is that of ISO 8601 for weeks that begin on
  \<open>firstDayOfWeek\<close>: the weeks since the one that holds the 4th of January, 0
  before it; the search for the first such day of the year ends within a week, because
  midnight is exact in doubles.
\<close>

theorem week_iso:
  assumes "valid_date (dt_year t) (dt_month t) (dt_day t)" "0 \<le> dt_year t" "dt_year t \<le> 9999" "0 \<le> f" "f \<le> 6"
  shows "week f t = Inr ((day_number (dt_year t) (dt_month t) (dt_day t) - week_start (dt_year t) f) div 7 + 1)"
  by (rule week_exact [OF assms])

theorem week_iso_witness:
  "week 1 (DateTime_empty\<lparr>dt_year := 2005, dt_month := 1, dt_day := 3\<rparr>) = Inr 1 \<and>
   week 1 (DateTime_empty\<lparr>dt_year := 2005, dt_month := 1, dt_day := 2\<rparr>) = Inr 0"
  by (simp add: week_iso valid_date_def isLeapYear_def week_start_def weekday_def day_number_def DateTime_empty_def)

text \<open>
  C28: A local time made of a time at least one day after the reform of the calendar and
  before the end of 9999, in a zone at most 23 hours from UTC, and turned back is that time,
  whether or not daylight saving applies at it, as long as the C library knows: the difference
  of the zone is found once, added to the fields and taken away again, across the turn of a
  day or a year. What the C library says of the zone is a parameter.
\<close>

theorem local_utc_roundtrip:
  assumes "86400000000 \<le> c" "c \<le> 267753600000000000" "\<bar>utcOffset tz\<bar> \<le> 82800" "\<And>e. local_isdst tz e \<noteq> None"
  shows "\<exists>t l. DateTime_of_utc (10 * c) 0 = Inr t \<and> Local_of_DateTime tz t = Inr l \<and> Local_utc l = Inr t \<and>
    Local_utcTime l = Inr (10 * c)"
proof -
  define t where "t = at_time (c + 86400000000 * 578042) (DateTime_empty\<lparr>dt_utc := 10 * c\<rparr>)"
  have utc: "dt_utc t = 10 * c" by (simp add: t_def at_time_fields)
  have t: "DateTime_of_utc (10 * c) 0 = Inr t"
    using recompute_utc [of c DateTime_empty] assms(1,2) by (simp add: DateTime_of_utc_def i64_bounds t_def)
  have ts: "timestamp t = Inr (c - 12219292800000000)" using fromUtcTime_exact [of c] assms(1,2) by (simp add: timestamp_def utc)
  obtain i where i: "local_isdst tz (epochTime (c - 12219292800000000)) = Some i" using assms(4) by blast
  define z where "z = utcOffset tz + (if i = 1 then 3600 else 0)"
  have z: "- 86400 \<le> z" "z \<le> 86400" using assms(3) by (simp_all add: z_def abs_le_iff)
  define c' where "c' = c + z * 1000000"
  have c': "0 \<le> c'" "c' \<le> 267840000000000000" using z assms(1,2) by (simp_all add: c'_def)
  have sec: "i64 (z * 1000000 * 10) = Inr (10 * (z * 1000000))" "i64 (- z * 1000000 * 10) = Inr (10 * (- z * 1000000))"
    using z by (simp_all add: i64_bounds)
  have sum: "i64 (10 * c + 10 * (z * 1000000)) = Inr (10 * c')" "i64 (10 * c' + 10 * (- z * 1000000)) = Inr (10 * c)"
    using z assms(1,2) c' by (simp_all add: i64_bounds c'_def)
  define l where "l = \<lparr>ld_time = at_time (c' + 86400000000 * 578042) (t\<lparr>dt_utc := 10 * c'\<rparr>), ld_tzd = z\<rparr>"
  have S: "SECONDS = 1000000" by (simp add: span_units)
  have "DateTime_add_eq t (z * 1000000) = Inr (ld_time l)"
    using recompute_utc [OF c', of t] by (simp only: DateTime_add_eq_def utc sec sum res_bind_simps l_def LocalDateTime.select_convs)
  then have l: "Local_of_DateTime tz t = Inr l"
    by (simp add: Local_of_DateTime_def determineTzd_def ts i adjustForTzd_def S z_def [symmetric] l_def)
  have R: "recompute (DateTime_empty\<lparr>dt_utc := 10 * c\<rparr>) = Inr t"
    using recompute_utc [of c DateTime_empty] assms(1,2) by (simp add: t_def)
  have tzd: "ld_tzd l = z" by (simp add: l_def)
  have utc': "dt_utc (ld_time l) = 10 * c'" by (simp add: l_def at_time_fields)
  have "Local_utc l = Inr t"
    by (simp only: Local_utc_def DateTime_of_utc_def utc' tzd S sec sum res_bind_simps R)
  moreover have "Local_utcTime l = Inr (10 * c)"
    using assms(1,2) unfolding Local_utcTime_def utc' by (simp add: l_def c'_def i64_bounds)
  ultimately show ?thesis using t l by blast
qed

theorem local_utc_roundtrip_witness:
  "\<exists>t l. DateTime_of_utc (10 * 13800000000000000) 0 = Inr t \<and>
    Local_of_DateTime \<lparr>utcOffset = 3600, local_isdst = \<lambda>e. Some 1, mktime_isdst = \<lambda>d h. 1\<rparr> t = Inr l \<and> Local_utc l = Inr t \<and>
    Local_utcTime l = Inr (10 * 13800000000000000)"
  by (rule local_utc_roundtrip) simp_all

lemma noon_before_reform: "recompute (t\<lparr>dt_utc := - 432000000000\<rparr>) = Inr (at_time (86400000000 * 578041) t
  \<lparr>dt_utc := - 432000000000, dt_hour := - 12\<rparr>)"
proof -
  have dbl_n: "dbl (of_int n) = of_int n" if "\<bar>n\<bar> \<le> 5000000" for n using that by (intro dbl_of_int) simp
  have half: "dbl (of_int n / 2) = of_int n / 2" if "\<bar>n\<bar> \<le> 5000000" for n using that dbl_exact [of "of_int n / 2" n 1] by simp
  have "dbl (of_int (- 432000000000)) = of_int (- 432000000000)" by (rule dbl_of_int) simp
  then have jd: "utc_julian (- 432000000000) = 2299160"
    using half [of "- 1"] dbl_n [of 2299160] by (simp add: utc_julian_def Let_def)
  have w: "dbl (utc_julian (- 432000000000) - 3442237 / 2) = of_int (1156083 * 2 ^ 31) / 2 ^ 32"
    unfolding jd using half [of 1156083] by simp
  have M: "(86400000000 * (1156083 * 2 ^ 31) + 2 ^ 31) div 2 ^ 32 = (49942785600000000 :: int)" by simp
  have "computeGregorian (utc_julian (- 432000000000)) T = Inr (at_time 49942785600000000 T)" for T
    using gregorian_exact [OF w, of T] unfolding M by simp
  then show ?thesis
    by (simp add: recompute_def julianDay_def computeDaytime_def Let_def span_fields span_units at_time_def civil_def to_int_def)
qed

text \<open>
  On the days before the reform of the calendar, which the constructor accepts,
  arithmetic gives a wrong time of day: \<open>computeDaytime\<close> takes the hours of a
  negative number of microseconds, so that noon of 14 October 1582 becomes minus twelve
  o'clock, at the same instant.
\<close>

theorem before_the_reform:
  "\<exists>t t'. DateTime_of_fields 1582 10 14 12 0 0 0 0 = Inr t \<and> dt_hour t = 12 \<and> DateTime_add t 0 = Inr t' \<and>
    DateTime_eq t t' \<and> (dt_year t', dt_month t', dt_day t') = (1582, 10, 14) \<and> dt_hour t' = - 12"
proof -
  have v: "isValid 1582 10 14 12 0 0 0 0" by (simp add: isValid_def valid_date_def)
  have n: "10 * clock (day_number 1582 10 14 - 578042) 12 0 0 0 0 = - 432000000000" by (simp add: day_number_def clock_def)
  have "civil 578041 = (1582, 10, 14)" by (simp add: civil_def Let_def)
  then show ?thesis unfolding fields_exact [OF v] n
    by (simp add: DateTime_add_def DateTime_of_utc_def i64_bounds noon_before_reform DateTime_eq_def at_time_def)
qed

lemma nearest_near: "\<bar>y - of_int m\<bar> < 1 / 2 \<Longrightarrow> nearest y = m"
proof -
  assume "\<bar>y - of_int m\<bar> < 1 / 2"
  then have "\<bar>of_int (nearest y) - of_int m\<bar> < (1 :: rat)" using nearest_error [of y] by linarith
  then have "of_int \<bar>nearest y - m\<bar> < (of_int 1 :: rat)" by simp
  then have "\<bar>nearest y - m\<bar> < 1" by (simp only: of_int_less_iff)
  then show ?thesis by simp
qed

lemma dbl_near_grid:
  assumes "2097152 \<le> x" "x < 4194304" "\<bar>x - of_int m / 2\<bar> < 1 / 2 ^ 32"
  shows "dbl x = of_int m / 2"
proof -
  have x: "0 < x" "\<bar>x\<bar> = x" using assms(1) by simp_all
  define e where "e = exponent x"
  have "2 powi e \<le> x" "x < 2 powi (e + 1)" using exponent_bounds [OF x(1)] by (simp_all add: e_def)
  moreover have "2 powi 21 \<le> x" "x < 2 powi 22" using assms(1,2) by simp_all
  ultimately have "(2 :: rat) powi e < 2 powi 22" "(2 :: rat) powi 21 < 2 powi (e + 1)" by linarith+
  then have e: "e = 21" unfolding powi_iff by simp
  have "\<bar>x * 2 ^ 31 - of_int (m * 2 ^ 30)\<bar> = \<bar>x - of_int m / 2\<bar> * 2 ^ 31" by (simp add: abs_if field_simps)
  also have "\<dots> < 1 / 2 ^ 32 * 2 ^ 31" using assms(3) by (intro mult_strict_right_mono) simp_all
  finally have near: "nearest (x * 2 ^ 31) = m * 2 ^ 30" by (intro nearest_near) simp
  have "dbl x = of_int (nearest (x * 2 ^ 31)) / 2 ^ 31"
    using x by (simp add: dbl_def fl_def e_def [symmetric] e power_int_minus_divide)
  then show ?thesis unfolding near by simp
qed

lemma last_microsecond:
  assumes "0 \<le> n" "n \<le> 500000"
  shows "utc_julian (864000000000 * n + 863999999990) = of_int (2 * n + 4598323) / 2"
proof -
  define u where "u = 864000000000 * n + 863999999990"
  define q where "q = (of_int u :: rat) / 864000000000"
  have q': "q = of_int n + 1 - 1 / 86400000000" by (simp add: q_def u_def field_simps)
  have n: "0 \<le> (of_int n :: rat)" "(of_int n :: rat) \<le> 500000"
  proof -
    have "(of_int n :: rat) \<le> of_int 500000" using assms(2) by (subst of_int_le_iff)
    then show "(of_int n :: rat) \<le> 500000" by simp
  qed (use assms(1) in simp)
  have q: "0 \<le> q" "q \<le> 500001" using n by (simp_all add: q')
  define a where "a = dbl (of_int u) / 864000000000"
  have "0 \<le> (of_int u :: rat)" using assms(1) by (simp add: u_def)
  then have "\<bar>dbl (of_int u) - of_int u\<bar> \<le> of_int u / 2 ^ 53" using dbl_error [of "of_int u"] by simp
  then have "\<bar>dbl (of_int u) - of_int u\<bar> / 864000000000 \<le> (of_int u / 2 ^ 53) / 864000000000" by (intro divide_right_mono) simp_all
  then have "\<bar>a - q\<bar> \<le> q / 2 ^ 53" by (simp add: a_def q_def abs_divide flip: diff_divide_distrib)
  then have aq: "\<bar>a - q\<bar> \<le> 500001 / 2 ^ 53" using q by (simp add: field_simps)
  moreover have "(500001 / 2 ^ 53 :: rat) < 1" by simp
  ultimately have "\<bar>a\<bar> \<le> 500002" using q by linarith
  then have "\<bar>a\<bar> / 2 ^ 53 \<le> 500002 / 2 ^ 53" by (intro divide_right_mono) simp_all
  then have b: "\<bar>dbl a - a\<bar> \<le> 500002 / 2 ^ 53" using dbl_error [of a] by linarith
  have "\<bar>dbl a - (of_int n + 1)\<bar> \<le> 1 / 86400000000 + 500001 / 2 ^ 53 + 500002 / 2 ^ 53"
    using aq b unfolding q' by linarith
  also have "\<dots> < 1 / 2 ^ 32" by simp
  finally have near: "\<bar>dbl a - (of_int n + 1)\<bar> < 1 / 2 ^ 32" .
  have "dbl (dbl a + 4598321 / 2) = of_int (2 * n + 4598323) / 2"
  proof (rule dbl_near_grid)
    have "dbl a + 4598321 / 2 - of_int (2 * n + 4598323) / 2 = dbl a - (of_int n + 1)" by (simp add: field_simps)
    then show "\<bar>dbl a + 4598321 / 2 - of_int (2 * n + 4598323) / 2\<bar> < 1 / 2 ^ 32" using near by (simp only:)
    have "(1 :: rat) / 2 ^ 32 < 1" by simp
    then show "2097152 \<le> dbl a + 4598321 / 2" "dbl a + 4598321 / 2 < 4194304" using near n unfolding abs_less_iff by linarith+
  qed
  then show ?thesis unfolding utc_julian_def Let_def u_def [symmetric] a_def [symmetric] .
qed

text \<open>
  In the last microsecond of every day from the reform to the year 2900, the day of the
  week is that of the next day: the Julian day has no bits for a microsecond and is rounded to
  the coming midnight.
\<close>

theorem last_microsecond_weekday:
  assumes "valid_date y m d" "0 \<le> y" "y \<le> 9999" "day_number 1582 10 15 \<le> day_number y m d" "day_number y m d \<le> day_number 2900 1 1"
  shows "\<exists>t. DateTime_of_fields y m d 23 59 59 999 999 = Inr t \<and> dayOfWeek t = weekday (day_number y m d + 1)"
proof -
  define n where "n = day_number y m d - 578042"
  have n: "0 \<le> n" "n \<le> 500000" using assms(4,5) by (simp_all add: n_def day_number_def)
  have "isValid y m d 23 59 59 999 999" using assms(1-3) by (simp add: isValid_def)
  moreover have "dayOfWeek t = weekday (n + 1 + 578042)" if "dt_utc t = 10 * clock n 23 59 59 999 999" for t
  proof -
    have 1: "dt_utc t = 864000000000 * n + 863999999990" using that by (simp add: clock_def)
    define t' :: DateTime where "t' = DateTime_empty\<lparr>dt_utc := 864000000000 * (n + 1)\<rparr>"
    have 2: "(of_int (2 * n + 4598323) / 2 + 3 / 2 :: rat) = of_int (n + 2299163)" by (simp add: field_simps)
    have 3: "dbl (of_int (n + 2299163)) = of_int (n + 2299163)" using n by (intro dbl_of_int) simp
    have "dayOfWeek t = (n + 2299163) smod 7"
      unfolding dayOfWeek_def julianDay_def 1 last_microsecond [OF n] 2 3 by (simp only: floor_of_int)
    also have "\<dots> = (n + 2299163) mod 7" using n by (intro signed_nonneg) simp_all
    also have "n + 2299163 = (n + 1 + 578042 + 2) + 7 * 245874" by simp
    finally show ?thesis unfolding weekday_def by (simp only: mod_mult_self2)
  qed
  ultimately show ?thesis by (simp add: fields_exact n_def add.commute)
qed

theorem last_microsecond_weekday_witness:
  "(\<exists>t. DateTime_of_fields 2020 1 1 23 59 59 999 999 = Inr t \<and> dayOfWeek t = 4) \<and> weekday (day_number 2020 1 1) = 3"
  using last_microsecond_weekday [of 2020 1 1] by (simp add: valid_date_def weekday_def day_number_def)

text \<open>The years of the days of the calendar.\<close>

lemma leap_days:
  fixes y :: int
  defines "l \<equiv> y div 4 - y div 100 + y div 400"
  shows "9999 \<le> y \<Longrightarrow> 2424 \<le> l" "y \<le> - 1 \<Longrightarrow> l \<le> 0"
proof -
  define q p r where "q = y div 4" and "p = q div 25" and "r = y div 400"
  have p: "25 * p \<le> q" "q < 25 * p + 25" unfolding p_def by (rule div_bounds, simp)+
  have "y div 100 = y div 4 div 25" by (simp add: zdiv_zmult2_eq)
  then have l: "l = q - p + r" by (simp only: l_def p_def q_def r_def)
  show "2424 \<le> l" if y: "9999 \<le> y"
  proof -
    have "9999 div 4 \<le> q" "9999 div 400 \<le> r" unfolding q_def r_def by (rule zdiv_mono1 [OF y], simp)+
    then have "2499 \<le> q" "24 \<le> r" by simp_all
    then show ?thesis using p unfolding l by linarith
  qed
  show "l \<le> 0" if y: "y \<le> - 1"
  proof -
    have "q \<le> - 1 div 4" "r \<le> - 1 div 400" unfolding q_def r_def by (rule zdiv_mono1 [OF y], simp)+
    then have "q \<le> - 1" "r \<le> - 1" by simp_all
    then show ?thesis using p unfolding l by linarith
  qed
qed

lemma year_range:
  assumes "civil z = (y, m, d)" "400 \<le> z" "z < day_number 10000 1 1"
  shows "0 \<le> y \<and> y \<le> 9999"
proof -
  define m' y' where "m' = (if m < 3 then m + 12 else m)" and "y' = (if m < 3 then y - 1 else y)"
  define l o' where "l = y' div 4 - y' div 100 + y' div 400" and "o' = (153 * m' - 457) div 5"
  have v: "valid_date y m d" "day_number y m d = z" using civil_valid [OF assms(1)] by simp_all
  then have d: "1 \<le> m" "m \<le> 12" "1 \<le> d" "d \<le> month_length y m" by (simp_all add: valid_date_def)
  then have "d \<le> 31" using months [OF d(1,2)] by (elim disjE) (simp_all split: if_splits)
  have z: "z = d + o' + 365 * y' + l" using v(2) by (simp add: day_number_def m'_def y'_def l_def o'_def Let_def)
  have top: "z < 3652366" using assms(3) by (simp add: day_number_def)
  have o': "0 \<le> o'" "o' \<le> 337" "m < 3 \<Longrightarrow> 306 \<le> o'" 
    using months [OF d(1,2)] by (elim disjE, simp_all add: o'_def m'_def)+
  have "\<not> 10000 \<le> y"
  proof
    assume y: "10000 \<le> y"
    then have "9999 \<le> y'" by (simp add: y'_def)
    then have "2424 \<le> l" unfolding l_def by (rule leap_days)
    moreover have "3649941 \<le> o' + 365 * y'" using y o' by (cases "m < 3") (simp_all add: y'_def)
    ultimately show False using z top d(3) by linarith
  qed
  moreover have "\<not> y \<le> - 1"
  proof
    assume y: "y \<le> - 1"
    then have y': "y' \<le> - 1" by (simp add: y'_def)
    then have "l \<le> 0" unfolding l_def by (rule leap_days)
    then show False using z assms(2) \<open>d \<le> 31\<close> o'(2) y' by linarith
  qed
  ultimately show ?thesis by simp
qed

text \<open>
  C26: The addition of a span succeeds when its result is a time from the reform to the year
  9999, and gives a well-formed \<open>DateTime\<close>: its fields are those the class
  promises, a date of the calendar and a time of day.
\<close>

theorem addition_well_formed:
  assumes "0 \<le> dt_utc t + 10 * us" "dt_utc t + 10 * us < 864000000000 * (day_number 10000 1 1 - day_number 1582 10 15)"
    "\<bar>us\<bar> \<le> 900000000000000000"
  shows "\<exists>t'. DateTime_add t us = Inr t' \<and> dt_utc t' = dt_utc t + 10 * us \<and>
    isValid (dt_year t') (dt_month t') (dt_day t') (dt_hour t') (dt_minute t') (dt_second t') (dt_milli t') (dt_micro t')"
proof -
  have top: "day_number 10000 1 1 = 3652366" by (simp add: day_number_def)
  define u where "u = dt_utc t + 10 * us"
  have u: "0 \<le> u" "u < 864000000000 * (3652366 - 578042)" using assms(1,2) unfolding u_def top reform_day by simp_all
  define M T where "M = u div 10 + 86400000000 * 578042" and "T = DateTime_empty\<lparr>dt_utc := u\<rparr>"
  have "recompute T = Inr (at_time M T)"
    using recompute_exact [of T] u unfolding M_def by (simp add: T_def)
  moreover have "i64 (us * 10) = Inr (10 * us)" using assms(3) by (simp add: i64_bounds abs_le_iff)
  moreover have "i64 u = Inr u" using u by (intro i64_bounds) simp_all
  ultimately have add: "DateTime_add t us = Inr (at_time M T)"
    by (simp add: DateTime_add_def DateTime_of_utc_def u_def [symmetric] T_def)
  obtain y m d where c: "civil (M div 86400000000) = (y, m, d)" by (cases "civil (M div 86400000000)") auto
  define z where "z = M div 86400000000"
  have b: "86400000000 * z \<le> M" "M < 86400000000 * z + 86400000000" unfolding z_def by (rule div_bounds, simp)+
  define w where "w = u div 10"
  have w: "10 * w \<le> u" "u < 10 * w + 10" unfolding w_def by (rule div_bounds, simp)+
  have M: "M = w + 86400000000 * 578042" by (simp only: M_def w_def)
  have "w < 265621593600000000" "0 \<le> w" using w u by simp_all
  then have "86400000000 * z < 86400000000 * 3652366" "86400000000 * 578042 < 86400000000 * z + 86400000000"
    using b unfolding M by simp_all
  then have "400 \<le> z" "z < day_number 10000 1 1" unfolding top by simp_all
  then have "0 \<le> y \<and> y \<le> 9999" using year_range c unfolding z_def by blast
  moreover have "dt_year (at_time M T) = y" using at_time_fields(2) [of M T] c by simp
  moreover have "dt_utc (at_time M T) = u" by (simp add: at_time_fields T_def)
  ultimately show ?thesis using add at_time_valid [of M T] unfolding isValid_def u_def by simp
qed

theorem addition_well_formed_witness:
  "\<exists>t'. DateTime_add (DateTime_empty\<lparr>dt_utc := 130000000000000000\<rparr>) 86400000000 = Inr t' \<and> dt_utc t' = 130000864000000000 \<and>
    isValid (dt_year t') (dt_month t') (dt_day t') (dt_hour t') (dt_minute t') (dt_second t') (dt_milli t') (dt_micro t')"
  using addition_well_formed [of "DateTime_empty\<lparr>dt_utc := 130000000000000000\<rparr>" 86400000000] by (simp add: day_number_def)

end
