(* ===== verification/Date_Parser.thy ===== *)
theory Date_Parser
  imports Local_Time String_Util
begin

text \<open>
  \<open>DateTimeFormat\<close> and \<open>DateTimeParser\<close> (\<open>base/include/base/datetime.h\<close>, \<open>base/src/datetime.cpp\<close>). The iterator into the text
  is what is left of it. Nothing is printed: the formatter is commented out in the source, or calls \<open>abort\<close>.
\<close>

subsection \<open>Formats\<close>

definition ISO8601_FORMAT :: string where "ISO8601_FORMAT = ''%Y-%m-%dT%H:%M:%S%z''"
definition ISO8601_FRAC_FORMAT :: string where "ISO8601_FRAC_FORMAT = ''%Y-%m-%dT%H:%M:%s%z''"
definition RFC822_FORMAT :: string where "RFC822_FORMAT = ''%w, %e %b %y %H:%M:%S %Z''"
definition RFC1123_FORMAT :: string where "RFC1123_FORMAT = ''%w, %e %b %Y %H:%M:%S %Z''"
definition HTTP_FORMAT :: string where "HTTP_FORMAT = ''%w, %d %b %Y %H:%M:%S %Z''"
definition RFC850_FORMAT :: string where "RFC850_FORMAT = ''%W, %e-%b-%y %H:%M:%S %Z''"
definition RFC1036_FORMAT :: string where "RFC1036_FORMAT = ''%W, %e %b %y %H:%M:%S %Z''"
definition ASCTIME_FORMAT :: string where "ASCTIME_FORMAT = ''%w %b %f %H:%M:%S %Y''"
definition SORTABLE_FORMAT :: string where "SORTABLE_FORMAT = ''%Y-%m-%d %H:%M:%S''"

definition WEEKDAY_NAMES :: "string list" where
  "WEEKDAY_NAMES = [''Sunday'', ''Monday'', ''Tuesday'', ''Wednesday'', ''Thursday'', ''Friday'', ''Saturday'']"

definition MONTH_NAMES :: "string list" where
  "MONTH_NAMES = [''January'', ''February'', ''March'', ''April'', ''May'', ''June'', ''July'', ''August'', ''September'',
     ''October'', ''November'', ''December'']"

subsection \<open>Numbers\<close>

definition isalpha :: "char \<Rightarrow> bool" where
  "isalpha c = (isupper c \<or> islower c)"

definition ispunct :: "char \<Rightarrow> bool" where
  "ispunct c = (let n = of_char c :: nat in 33 \<le> n \<and> n \<le> 126 \<and> \<not> isalnum c)"

definition i32 :: "int \<Rightarrow> int res" where
  "i32 x = (if - (2 ^ 31) \<le> x \<and> x < 2 ^ 31 then Inr x else Inl Undefined_behaviour)"

text \<open>\<open>var = var * 10 + ((*it++) - '0')\<close>, where \<open>int\<close> may overflow.\<close>

definition add_digit :: "int \<Rightarrow> char \<Rightarrow> int res" where
  "add_digit var c = res_bind (i32 (var * 10)) (\<lambda>v. i32 (v + (of_char c - 48)))"

definition SKIP_JUNK :: "string \<Rightarrow> string" where
  "SKIP_JUNK it = dropWhile (\<lambda>c. \<not> isdigit c) it"

definition SKIP_DIGITS :: "string \<Rightarrow> string" where
  "SKIP_DIGITS it = dropWhile isdigit it"

fun PARSE_NUMBER :: "int \<Rightarrow> string \<Rightarrow> (int \<times> string) res" where
  "PARSE_NUMBER var [] = Inr (var, [])"
| "PARSE_NUMBER var (c # it) =
     (if isdigit c then res_bind (add_digit var c) (\<lambda>v. PARSE_NUMBER v it) else Inr (var, c # it))"

fun PARSE_NUMBER_N :: "nat \<Rightarrow> int \<Rightarrow> string \<Rightarrow> (int \<times> string) res" where
  "PARSE_NUMBER_N 0 var it = Inr (var, it)"
| "PARSE_NUMBER_N (Suc n) var [] = Inr (var, [])"
| "PARSE_NUMBER_N (Suc n) var (c # it) =
     (if isdigit c then res_bind (add_digit var c) (\<lambda>v. PARSE_NUMBER_N n v it) else Inr (var, c # it))"

fun PARSE_FRACTIONAL_N :: "nat \<Rightarrow> int \<Rightarrow> string \<Rightarrow> (int \<times> string) res" where
  "PARSE_FRACTIONAL_N 0 var it = Inr (var, it)"
| "PARSE_FRACTIONAL_N (Suc n) var it =
     (case it of c # it' \<Rightarrow>
        if isdigit c then res_bind (add_digit var c) (\<lambda>v. PARSE_FRACTIONAL_N n v it')
        else res_bind (i32 (var * 10 ^ Suc n)) (\<lambda>v. Inr (v, it))
      | [] \<Rightarrow> res_bind (i32 (var * 10 ^ Suc n)) (\<lambda>v. Inr (v, [])))"

subsection \<open>Names and zones\<close>

definition capitalize :: "string \<Rightarrow> string" where
  "capitalize s = (case s of [] \<Rightarrow> [] | c # cs \<Rightarrow> toupper c # map tolower cs)"

fun name_index :: "string list \<Rightarrow> string \<Rightarrow> int \<Rightarrow> int option" where
  "name_index [] name i = None"
| "name_index (n # ns) name i = (if take (length name) n = name then Some i else name_index ns name (i + 1))"

definition parseName :: "string list \<Rightarrow> int \<Rightarrow> string \<Rightarrow> string \<Rightarrow> string \<Rightarrow> (int \<times> string) res" where
  "parseName names first short_text bad_text it =
     (let it = dropWhile (\<lambda>c. isspace c \<or> ispunct c) it; name = capitalize (takeWhile isalpha it); it = dropWhile isalpha it
      in if length name < 3 then Inl (Runtime_error (short_text @ name))
         else case name_index names name first of Some i \<Rightarrow> Inr (i, it) | None \<Rightarrow> Inl (Runtime_error (bad_text @ name)))"

definition parseMonth :: "string \<Rightarrow> (int \<times> string) res" where
  "parseMonth = parseName MONTH_NAMES 1 ''Syntax error: Month name must be at least three characters long: ''
     ''Syntax error: Not a valid month name: ''"

definition parseDayOfWeek :: "string \<Rightarrow> (int \<times> string) res" where
  "parseDayOfWeek = parseName WEEKDAY_NAMES 0 ''Syntax error: Weekday name must be at least three characters long: ''
     ''Syntax error: Not a valid weekday name: ''"

definition parseAMPM :: "int \<Rightarrow> string \<Rightarrow> (int \<times> string) res" where
  "parseAMPM hour it =
     (let it = dropWhile (\<lambda>c. isspace c \<or> ispunct c) it; ampm = map toupper (takeWhile isalpha it); it = dropWhile isalpha it
      in if ampm = ''AM'' then Inr (if hour = 12 then 0 else hour, it)
         else if ampm = ''PM'' then Inr (if hour < 12 then hour + 12 else hour, it)
         else Inl (Runtime_error (''Syntax error: Not a valid AM/PM designator: '' @ ampm)))"

definition zones :: "(string \<times> int) list" where
  "zones = [(''Z'', 0), (''UT'', 0), (''GMT'', 0), (''BST'', 1 * 3600), (''IST'', 1 * 3600), (''WET'', 0), (''WEST'', 1 * 3600),
     (''CET'', 1 * 3600), (''CEST'', 2 * 3600), (''EET'', 2 * 3600), (''EEST'', 3 * 3600), (''MSK'', 3 * 3600),
     (''MSD'', 4 * 3600), (''NST'', - 3 * 3600 - 1800), (''NDT'', - 2 * 3600 - 1800), (''AST'', - 4 * 3600), (''ADT'', - 3 * 3600),
     (''EST'', - 5 * 3600), (''EDT'', - 4 * 3600), (''CST'', - 6 * 3600), (''CDT'', - 5 * 3600), (''MST'', - 7 * 3600),
     (''MDT'', - 6 * 3600), (''PST'', - 8 * 3600), (''PDT'', - 7 * 3600), (''AKST'', - 9 * 3600), (''AKDT'', - 8 * 3600),
     (''HST'', - 10 * 3600), (''AEST'', 10 * 3600), (''AEDT'', 11 * 3600), (''ACST'', 9 * 3600 + 1800),
     (''ACDT'', 10 * 3600 + 1800), (''AWST'', 8 * 3600), (''AWDT'', 9 * 3600)]"

text \<open>At most four letters name the zone; a number of hours and minutes may follow.\<close>

fun letters :: "nat \<Rightarrow> string \<Rightarrow> string \<times> string" where
  "letters (Suc n) (c # it) = (if isalpha c then (case letters n it of (d, it) \<Rightarrow> (c # d, it)) else ([], c # it))"
| "letters _ it = ([], it)"

definition zone_offset :: "int \<Rightarrow> string \<Rightarrow> (int \<times> string) res" where
  "zone_offset tzd it =
     (case it of [] \<Rightarrow> Inr (tzd, [])
      | c # it' \<Rightarrow>
          if c = CHR ''+'' \<or> c = CHR ''-'' then
            (let sign = (if c = CHR ''+'' then 1 else - 1) in
             res_bind (PARSE_NUMBER_N 2 0 it') (\<lambda>(hours, it).
             let it = (case it of d # it' \<Rightarrow> if d = CHR '':'' then it' else it | [] \<Rightarrow> it) in
             res_bind (PARSE_NUMBER_N 2 0 it) (\<lambda>(minutes, it). Inr (tzd + sign * (hours * 3600 + minutes * 60), it))))
          else Inr (tzd, it))"

definition parseTZD :: "string \<Rightarrow> (int \<times> string) res" where
  "parseTZD it =
     (let it = dropWhile isspace it in
      case letters 4 it of (designator, it) \<Rightarrow>
      zone_offset (case map_of zones designator of Some t \<Rightarrow> t | None \<Rightarrow> 0) it)"

subsection \<open>Texts with a format\<close>

record parts =
  p_year :: int
  p_month :: int
  p_day :: int
  p_hour :: int
  p_minute :: int
  p_second :: int
  p_millis :: int
  p_micros :: int
  p_tzd :: int

definition number_n :: "nat \<Rightarrow> int \<Rightarrow> (int \<Rightarrow> parts) \<Rightarrow> string \<Rightarrow> (parts \<times> string) res" where
  "number_n n var upd it = res_bind (PARSE_NUMBER_N n var (SKIP_JUNK it)) (\<lambda>(v, it). Inr (upd v, it))"

definition century :: "int \<Rightarrow> int res" where
  "century year = i32 (if year \<ge> 69 then year + 1900 else year + 2000)"

definition fraction :: "parts \<Rightarrow> string \<Rightarrow> (parts \<times> string) res" where
  "fraction p it =
     res_bind (PARSE_FRACTIONAL_N 3 (p_millis p) it) (\<lambda>(v, it).
     res_bind (PARSE_FRACTIONAL_N 3 (p_micros p) it) (\<lambda>(u, it). Inr (p\<lparr>p_millis := v, p_micros := u\<rparr>, SKIP_DIGITS it)))"

definition parse_spec :: "char \<Rightarrow> parts \<Rightarrow> string \<Rightarrow> (parts \<times> string) res" where
  "parse_spec c p it =
     (if c \<in> set ''wW'' then Inr (p, dropWhile isalpha (dropWhile isspace it))
      else if c \<in> set ''bB'' then res_bind (parseMonth it) (\<lambda>(v, it). Inr (p\<lparr>p_month := v\<rparr>, it))
      else if c \<in> set ''def'' then number_n 2 (p_day p) (\<lambda>v. p\<lparr>p_day := v\<rparr>) it
      else if c \<in> set ''mno'' then number_n 2 (p_month p) (\<lambda>v. p\<lparr>p_month := v\<rparr>) it
      else if c = CHR ''y'' then
        res_bind (number_n 2 (p_year p) (\<lambda>v. p\<lparr>p_year := v\<rparr>) it) (\<lambda>(p, it).
        res_bind (century (p_year p)) (\<lambda>y. Inr (p\<lparr>p_year := y\<rparr>, it)))
      else if c = CHR ''Y'' then number_n 4 (p_year p) (\<lambda>v. p\<lparr>p_year := v\<rparr>) it
      else if c = CHR ''r'' then
        res_bind (PARSE_NUMBER (p_year p) (SKIP_JUNK it)) (\<lambda>(y, it).
        if y < 1000 then res_bind (century y) (\<lambda>y. Inr (p\<lparr>p_year := y\<rparr>, it)) else Inr (p\<lparr>p_year := y\<rparr>, it))
      else if c \<in> set ''Hh'' then number_n 2 (p_hour p) (\<lambda>v. p\<lparr>p_hour := v\<rparr>) it
      else if c \<in> set ''aA'' then res_bind (parseAMPM (p_hour p) it) (\<lambda>(v, it). Inr (p\<lparr>p_hour := v\<rparr>, it))
      else if c = CHR ''M'' then number_n 2 (p_minute p) (\<lambda>v. p\<lparr>p_minute := v\<rparr>) it
      else if c = CHR ''S'' then number_n 2 (p_second p) (\<lambda>v. p\<lparr>p_second := v\<rparr>) it
      else if c = CHR ''s'' then
        res_bind (number_n 2 (p_second p) (\<lambda>v. p\<lparr>p_second := v\<rparr>) it) (\<lambda>(p, it).
        case it of [] \<Rightarrow> Inr (p, it)
        | d # it' \<Rightarrow> if d = CHR ''.'' \<or> d = CHR '','' then fraction p it' else Inr (p, it))
      else if c = CHR ''i'' then number_n 3 (p_millis p) (\<lambda>v. p\<lparr>p_millis := v\<rparr>) it
      else if c = CHR ''c'' then
        res_bind (number_n 1 (p_millis p) (\<lambda>v. p\<lparr>p_millis := v\<rparr>) it) (\<lambda>(p, it).
        res_bind (i32 (p_millis p * 100)) (\<lambda>v. Inr (p\<lparr>p_millis := v\<rparr>, it)))
      else if c = CHR ''F'' then fraction p (SKIP_JUNK it)
      else if c \<in> set ''zZ'' then res_bind (parseTZD it) (\<lambda>(v, it). Inr (p\<lparr>p_tzd := v\<rparr>, it))
      else Inr (p, it))"

text \<open>A character of the format that is no specifier consumes nothing of the text.\<close>

fun parse_loop :: "string \<Rightarrow> parts \<Rightarrow> string \<Rightarrow> parts res" where
  "parse_loop [] p it = Inr p"
| "parse_loop (f # fmt) p it =
     (if it = [] then Inr p
      else if f = CHR ''%'' then
        (case fmt of [] \<Rightarrow> Inr p | c # fmt' \<Rightarrow> res_bind (parse_spec c p it) (\<lambda>(p, it). parse_loop fmt' p it))
      else parse_loop fmt p it)"

definition no_parts :: parts where
  "no_parts = \<lparr>p_year = 0, p_month = 0, p_day = 0, p_hour = 0, p_minute = 0, p_second = 0, p_millis = 0, p_micros = 0, p_tzd = 0\<rparr>"

definition finish :: "parts \<Rightarrow> (DateTime \<times> int) res" where
  "finish p =
     (let month = (if p_month p = 0 then 1 else p_month p); day = (if p_day p = 0 then 1 else p_day p) in
      if isValid (p_year p) month day (p_hour p) (p_minute p) (p_second p) (p_millis p) (p_micros p)
      then res_bind (DateTime_of_fields (p_year p) month day (p_hour p) (p_minute p) (p_second p) (p_millis p) (p_micros p))
        (\<lambda>t. Inr (t, p_tzd p))
      else Inl (Runtime_error ''Syntax error: date/time component out of range''))"

definition parse :: "string \<Rightarrow> string \<Rightarrow> (DateTime \<times> int) res" where
  "parse fmt str = res_bind (parse_loop fmt no_parts str) finish"

text \<open>An exception makes the result false, here none, and leaves the caller's objects as they are.\<close>

definition tryParse_format :: "string \<Rightarrow> string \<Rightarrow> (DateTime \<times> int) option res" where
  "tryParse_format fmt str =
     (case parse fmt str of Inl (Runtime_error e) \<Rightarrow> Inr None | Inl e \<Rightarrow> Inl e | Inr r \<Rightarrow> Inr (Some r))"

definition find_char :: "char \<Rightarrow> string \<Rightarrow> nat option" where
  "find_char c s = (if c \<in> set s then Some (length (takeWhile (\<lambda>d. d \<noteq> c) s)) else None)"

definition tryParse :: "string \<Rightarrow> (DateTime \<times> int) option res" where
  "tryParse str =
     (if length str < 4 then Inr None
      else if str ! 3 = CHR '','' then tryParse_format ''%w, %e %b %r %H:%M:%S %Z'' str
      else if str ! 3 = CHR '' '' then tryParse_format ASCTIME_FORMAT str
      else if (case find_char (CHR '','') str of Some i \<Rightarrow> i < 10 | None \<Rightarrow> False) then tryParse_format ''%W, %e %b %r %H:%M:%S %Z'' str
      else if isdigit (str ! 0) then
        (if find_char (CHR '' '') str \<noteq> None \<or> length str = 10 then tryParse_format SORTABLE_FORMAT str
         else if find_char (CHR ''.'') str \<noteq> None \<or> find_char (CHR '','') str \<noteq> None then tryParse_format ISO8601_FRAC_FORMAT str
         else tryParse_format ISO8601_FORMAT str)
      else Inr None)"

definition parse_any :: "string \<Rightarrow> (DateTime \<times> int) res" where
  "parse_any str = res_bind (tryParse str) (\<lambda>r. case r of Some r \<Rightarrow> Inr r
     | None \<Rightarrow> Inl (Runtime_error ''Syntax error: Unsupported or invalid date/time format''))"

subsection \<open>Texts of ISO 8601\<close>

text \<open>The texts the formats describe, with which the parser is compared.\<close>

definition digit :: "int \<Rightarrow> char" where
  "digit d = char_of (nat (48 + d))"

definition two :: "int \<Rightarrow> string" where "two x = [digit (x div 10), digit (x mod 10)]"
definition three :: "int \<Rightarrow> string" where "three x = digit (x div 100) # two (x mod 100)"
definition four :: "int \<Rightarrow> string" where "four x = two (x div 100) @ two (x mod 100)"

definition zone_text :: "int \<Rightarrow> string" where
  "zone_text tzd =
     (if tzd = 0 then ''Z''
      else (if tzd > 0 then CHR ''+'' else CHR ''-'') # two (\<bar>tzd\<bar> div 3600) @ '':'' @ two (\<bar>tzd\<bar> mod 3600 div 60))"

definition iso8601 :: "bool \<Rightarrow> int \<Rightarrow> int \<Rightarrow> int \<Rightarrow> int \<Rightarrow> int \<Rightarrow> int \<Rightarrow> int \<Rightarrow> int \<Rightarrow> int \<Rightarrow> string" where
  "iso8601 fr y m d h mi s ms us tzd =
     four y @ ''-'' @ two m @ ''-'' @ two d @ ''T'' @ two h @ '':'' @ two mi @ '':'' @ two s @
     (if fr then ''.'' @ three ms @ three us else []) @ zone_text tzd"

lemma digit_char: "0 \<le> d \<Longrightarrow> d \<le> 9 \<Longrightarrow> of_char (digit d) = (48 + d :: int)"
proof -
  assume d: "0 \<le> d" "d \<le> 9"
  then have "of_char (digit d) = (nat (48 + d) :: nat)" by (simp add: digit_def)
  then have "int (of_char (digit d)) = 48 + d" using d by simp
  then show ?thesis by (metis of_nat_of_char)
qed

lemma digit_digit: "0 \<le> d \<Longrightarrow> d \<le> 9 \<Longrightarrow> isdigit (digit d)"
proof -
  assume d: "0 \<le> d" "d \<le> 9"
  then have "of_char (digit d) = (nat (48 + d) :: nat)" by (simp add: digit_def)
  then show ?thesis using d by (auto simp: isdigit_def Let_def)
qed

lemma add_digit_exact: "0 \<le> d \<Longrightarrow> d \<le> 9 \<Longrightarrow> 0 \<le> v \<Longrightarrow> v \<le> 100000 \<Longrightarrow> add_digit v (digit d) = Inr (v * 10 + d)"
  by (simp add: add_digit_def digit_char i32_def)

lemma digits_bounds:
  fixes x :: int
  shows "0 \<le> x \<Longrightarrow> x \<le> 99 \<Longrightarrow> 0 \<le> x div 10 \<and> x div 10 \<le> 9 \<and> 0 \<le> x mod 10 \<and> x mod 10 \<le> 9 \<and> x div 10 * 10 + x mod 10 = x"
    "0 \<le> x \<Longrightarrow> x \<le> 999 \<Longrightarrow> 0 \<le> x div 100 \<and> x div 100 \<le> 9 \<and> 0 \<le> x mod 100 \<and> x mod 100 \<le> 99 \<and> x div 100 * 100 + x mod 100 = x"
    "0 \<le> x \<Longrightarrow> x \<le> 9999 \<Longrightarrow> 0 \<le> x div 100 \<and> x div 100 \<le> 99 \<and> 0 \<le> x mod 100 \<and> x mod 100 \<le> 99 \<and> x div 100 * 100 + x mod 100 = x"
  by presburger+

lemma number_two:
  assumes "0 \<le> x" "x \<le> 99" "0 \<le> v" "v \<le> 1000"
  shows "PARSE_NUMBER_N (Suc (Suc n)) v (two x @ it) = PARSE_NUMBER_N n (v * 100 + x) it"
    "PARSE_FRACTIONAL_N (Suc (Suc n)) v (two x @ it) = PARSE_FRACTIONAL_N n (v * 100 + x) it"
    "PARSE_NUMBER v (two x @ it) = PARSE_NUMBER (v * 100 + x) it"
proof -
  define a b where "a = x div 10" and "b = x mod 10"
  have ab: "0 \<le> a" "a \<le> 9" "0 \<le> b" "b \<le> 9" "v * 100 + x = (v * 10 + a) * 10 + b"
    using digits_bounds(1) [OF assms(1,2)] by (auto simp: a_def b_def)
  then show "PARSE_NUMBER_N (Suc (Suc n)) v (two x @ it) = PARSE_NUMBER_N n (v * 100 + x) it"
    "PARSE_FRACTIONAL_N (Suc (Suc n)) v (two x @ it) = PARSE_FRACTIONAL_N n (v * 100 + x) it"
    "PARSE_NUMBER v (two x @ it) = PARSE_NUMBER (v * 100 + x) it"
    using assms(3,4) unfolding two_def a_def [symmetric] b_def [symmetric] ab(5)
    by (simp_all add: digit_digit add_digit_exact)
qed

lemma number_four:
  assumes "0 \<le> x" "x \<le> 9999"
  shows "PARSE_NUMBER_N (Suc (Suc (Suc (Suc n)))) 0 (four x @ it) = PARSE_NUMBER_N n x it"
    "PARSE_NUMBER 0 (four x @ it) = PARSE_NUMBER x it"
proof -
  have x: "0 \<le> x div 100" "x div 100 \<le> 99" "0 \<le> x mod 100" "x mod 100 \<le> 99" "x div 100 * 100 + x mod 100 = x"
    using digits_bounds(3) [OF assms] by simp_all
  show "PARSE_NUMBER_N (Suc (Suc (Suc (Suc n)))) 0 (four x @ it) = PARSE_NUMBER_N n x it" "PARSE_NUMBER 0 (four x @ it) = PARSE_NUMBER x it"
    using x by (simp_all only: four_def append_assoc number_two mult_zero_left add_0 order_refl zero_le_numeral)
qed

lemma fraction_three:
  assumes "0 \<le> x" "x \<le> 999"
  shows "PARSE_FRACTIONAL_N (Suc (Suc (Suc n))) 0 (three x @ it) = PARSE_FRACTIONAL_N n x it"
proof -
  define a b where "a = x div 100" and "b = x mod 100"
  have ab: "0 \<le> a" "a \<le> 9" "0 \<le> b" "b \<le> 99" "a * 100 + b = x"
    using digits_bounds(2) [OF assms] by (auto simp: a_def b_def)
  then have "PARSE_FRACTIONAL_N (Suc (Suc (Suc n))) 0 (digit a # two b @ it) = PARSE_FRACTIONAL_N (Suc (Suc n)) a (two b @ it)"
    by (subst PARSE_FRACTIONAL_N.simps) (simp add: digit_digit add_digit_exact del: PARSE_FRACTIONAL_N.simps)
  also have "\<dots> = PARSE_FRACTIONAL_N n (a * 100 + b) it" using ab by (intro number_two) simp_all
  finally have "PARSE_FRACTIONAL_N (Suc (Suc (Suc n))) 0 (digit a # two b @ it) = PARSE_FRACTIONAL_N n (a * 100 + b) it" .
  then show ?thesis unfolding ab(5) by (simp add: three_def a_def b_def)
qed

lemma skip_digits:
  assumes "0 \<le> x"
  shows "x \<le> 99 \<Longrightarrow> SKIP_JUNK (two x @ it) = two x @ it" "x \<le> 9999 \<Longrightarrow> SKIP_JUNK (four x @ it) = four x @ it"
  using assms digits_bounds(1) [of x] digits_bounds(3) [of x] digits_bounds(1) [of "x div 100"]
  by (simp_all add: SKIP_JUNK_def two_def four_def digit_digit)

lemma parse_two: "0 \<le> x \<Longrightarrow> x \<le> 99 \<Longrightarrow> PARSE_NUMBER_N 2 0 (two x @ it) = Inr (x, it)"
  using number_two(1) [of x 0 0 it] by (simp add: numeral_2_eq_2 del: PARSE_NUMBER_N.simps(3))

lemma number_n_texts:
  "0 \<le> x \<Longrightarrow> x \<le> 99 \<Longrightarrow> number_n 2 0 upd (two x @ it) = Inr (upd x, it)"
  "0 \<le> x \<Longrightarrow> x \<le> 99 \<Longrightarrow> \<not> isdigit c \<Longrightarrow> number_n 2 0 upd (c # two x @ it) = Inr (upd x, it)"
  "0 \<le> x \<Longrightarrow> x \<le> 9999 \<Longrightarrow> number_n 4 0 upd (four x @ it) = Inr (upd x, it)"
proof -
  have skip: "SKIP_JUNK (c # it) = SKIP_JUNK it" if "\<not> isdigit c" for c it using that by (simp add: SKIP_JUNK_def)
  have four: "PARSE_NUMBER_N 4 0 (four x @ it) = Inr (x, it)" if "0 \<le> x" "x \<le> 9999"
    using number_four(1) [OF that, of 0 it] by (simp add: eval_nat_numeral del: PARSE_NUMBER_N.simps(3))
  show "0 \<le> x \<Longrightarrow> x \<le> 99 \<Longrightarrow> number_n 2 0 upd (two x @ it) = Inr (upd x, it)"
    "0 \<le> x \<Longrightarrow> x \<le> 99 \<Longrightarrow> \<not> isdigit c \<Longrightarrow> number_n 2 0 upd (c # two x @ it) = Inr (upd x, it)"
    "0 \<le> x \<Longrightarrow> x \<le> 9999 \<Longrightarrow> number_n 4 0 upd (four x @ it) = Inr (upd x, it)"
    by (simp_all add: number_n_def skip skip_digits parse_two four)
qed

lemma parse_zone:
  assumes "60 dvd tzd" "\<bar>tzd\<bar> < 360000"
  shows "parseTZD (zone_text tzd) = Inr (tzd, [])"
proof (cases "tzd = 0")
  case True
  then show ?thesis
    by (simp add: zone_text_def parseTZD_def isspace_def isalpha_def isupper_def numeral_eq_Suc zones_def zone_offset_def)
next
  case False
  define h mi c where "h = \<bar>tzd\<bar> div 3600" and "mi = \<bar>tzd\<bar> mod 3600 div 60" and "c = (if tzd > 0 then CHR ''+'' else CHR ''-'')"
  have "h * 3600 + mi * 60 = \<bar>tzd\<bar>" "0 \<le> h" "h \<le> 99" "0 \<le> mi" "mi \<le> 99"
  proof -
    obtain k where k: "tzd = 60 * k" using assms(1) by (auto elim: dvdE)
    define a b where "a = \<bar>k\<bar> div 60" and "b = \<bar>k\<bar> mod 60"
    have t: "\<bar>tzd\<bar> = 60 * \<bar>k\<bar>" by (simp add: k abs_mult)
    have "60 * \<bar>k\<bar> mod (60 * 60) = 60 * b" unfolding b_def by (rule mod_mult_mult1)
    moreover have "60 * \<bar>k\<bar> div (60 * 60) = a" unfolding a_def by (rule div_mult_mult1) simp
    ultimately have "h = a" "mi = b" by (simp_all add: h_def mi_def t)
    moreover have "a * 60 + b = \<bar>k\<bar>" unfolding a_def b_def by (rule div_mult_mod_eq)
    moreover have "0 \<le> a" "0 \<le> b" "b < 60" by (simp_all add: a_def b_def pos_imp_zdiv_nonneg_iff)
    moreover have "\<bar>k\<bar> < 6000" using assms(2) t by simp
    ultimately show "h * 3600 + mi * 60 = \<bar>tzd\<bar>" "0 \<le> h" "h \<le> 99" "0 \<le> mi" "mi \<le> 99"
      unfolding t by linarith+
  qed
  note hm = this
  have c: "\<not> isspace c" "\<not> isalpha c" by (simp_all add: c_def isspace_def isalpha_def isupper_def islower_def)
  have z: "zone_text tzd = c # two h @ CHR '':'' # two mi @ []" using False by (simp add: zone_text_def c_def h_def mi_def)
  have l: "letters 4 (c # it) = ([], c # it)" for it using c by (simp add: numeral_eq_Suc)
  have mm: "PARSE_NUMBER_N 2 0 (two mi) = Inr (mi, [])" using parse_two [of mi "[]"] hm by simp
  have m: "map_of zones [] = None" by (simp add: zones_def)
  have "(if c = CHR ''+'' then 1 else - 1) * (h * 3600 + mi * 60) = tzd" using hm(1) False by (simp add: c_def)
  moreover have "c = CHR ''+'' \<or> c = CHR ''-''" by (simp add: c_def)
  ultimately show ?thesis unfolding z
    using c hm by (simp only: parseTZD_def Let_def dropWhile.simps if_False l prod.case m option.case zone_offset_def list.case if_True parse_two res_bind_simps)
      (auto simp: zone_offset_def Let_def parse_two mm)
qed

lemma parse_loop_steps:
  "it \<noteq> [] \<Longrightarrow> f \<noteq> CHR ''%'' \<Longrightarrow> parse_loop (f # fmt) p it = parse_loop fmt p it"
  "it \<noteq> [] \<Longrightarrow> parse_loop (CHR ''%'' # c # fmt) p it = res_bind (parse_spec c p it) (\<lambda>(p, it). parse_loop fmt p it)"
  by simp_all

lemma parse_specs:
  "parse_spec (CHR ''Y'') p = number_n 4 (p_year p) (\<lambda>v. p\<lparr>p_year := v\<rparr>)"
  "parse_spec (CHR ''m'') p = number_n 2 (p_month p) (\<lambda>v. p\<lparr>p_month := v\<rparr>)"
  "parse_spec (CHR ''d'') p = number_n 2 (p_day p) (\<lambda>v. p\<lparr>p_day := v\<rparr>)"
  "parse_spec (CHR ''e'') p = number_n 2 (p_day p) (\<lambda>v. p\<lparr>p_day := v\<rparr>)"
  "parse_spec (CHR ''H'') p = number_n 2 (p_hour p) (\<lambda>v. p\<lparr>p_hour := v\<rparr>)"
  "parse_spec (CHR ''M'') p = number_n 2 (p_minute p) (\<lambda>v. p\<lparr>p_minute := v\<rparr>)"
  "parse_spec (CHR ''S'') p = number_n 2 (p_second p) (\<lambda>v. p\<lparr>p_second := v\<rparr>)"
  "parse_spec (CHR ''z'') p it = res_bind (parseTZD it) (\<lambda>(v, it). Inr (p\<lparr>p_tzd := v\<rparr>, it))"
  "parse_spec (CHR ''Z'') p it = res_bind (parseTZD it) (\<lambda>(v, it). Inr (p\<lparr>p_tzd := v\<rparr>, it))"
  by (simp_all add: parse_spec_def fun_eq_iff)

lemma texts_nonempty: "two x \<noteq> []" "four x \<noteq> []" "zone_text tzd \<noteq> []"
  by (simp_all add: two_def four_def zone_text_def)

lemma zone_text_start: "\<exists>c it. zone_text tzd = c # it \<and> \<not> isdigit c \<and> c \<noteq> CHR ''.'' \<and> c \<noteq> CHR '',''"
  by (auto simp: zone_text_def isdigit_def)

lemma parse_seconds_fraction:
  assumes "0 \<le> s" "s \<le> 99" "0 \<le> ms" "ms \<le> 999" "0 \<le> us" "us \<le> 999"
    "p_second p = 0" "p_millis p = 0" "p_micros p = 0"
  shows "parse_spec (CHR ''s'') p (CHR '':'' # two s @ CHR ''.'' # three ms @ three us @ zone_text tzd) =
    Inr (p\<lparr>p_second := s, p_millis := ms, p_micros := us\<rparr>, zone_text tzd)"
proof -
  obtain c it where z: "zone_text tzd = c # it" "\<not> isdigit c" using zone_text_start [of tzd] by auto
  have f: "PARSE_FRACTIONAL_N 3 0 (three x @ it) = Inr (x, it)" if "0 \<le> x" "x \<le> 999" for x it
    using fraction_three [OF that, of 0 it] by (simp add: numeral_3_eq_3 del: PARSE_FRACTIONAL_N.simps(2))
  have n: "number_n 2 0 upd (CHR '':'' # two s @ it) = Inr (upd s, it)" for upd it
    by (rule number_n_texts(2)) (use assms in \<open>simp_all add: isdigit_def\<close>)
  show ?thesis unfolding z(1) using assms z(2) n f by (simp add: parse_spec_def fraction_def SKIP_DIGITS_def)
qed

lemma text_digits:
  "0 \<le> x \<Longrightarrow> x \<le> 99 \<Longrightarrow> c \<in> set (two x) \<Longrightarrow> isdigit c" "0 \<le> x \<Longrightarrow> x \<le> 999 \<Longrightarrow> c \<in> set (three x) \<Longrightarrow> isdigit c"
  "0 \<le> x \<Longrightarrow> x \<le> 9999 \<Longrightarrow> c \<in> set (four x) \<Longrightarrow> isdigit c"
proof -
  have two: "isdigit c" if "0 \<le> x" "x \<le> 99" "c \<in> set (two x)" for x
    using that digits_bounds(1) [of x] by (auto simp: two_def digit_digit)
  then show "0 \<le> x \<Longrightarrow> x \<le> 99 \<Longrightarrow> c \<in> set (two x) \<Longrightarrow> isdigit c" .
  show "0 \<le> x \<Longrightarrow> x \<le> 999 \<Longrightarrow> c \<in> set (three x) \<Longrightarrow> isdigit c"
    using digits_bounds(2) [of x] two [of "x mod 100"] by (auto simp: three_def digit_digit)
  show "0 \<le> x \<Longrightarrow> x \<le> 9999 \<Longrightarrow> c \<in> set (four x) \<Longrightarrow> isdigit c"
    using digits_bounds(3) [of x] two [of "x mod 100"] two [of "x div 100"] by (auto simp: four_def)
qed

lemma zone_text_chars:
  assumes "60 dvd tzd" "\<bar>tzd\<bar> < 360000" "c \<in> set (zone_text tzd)"
  shows "isdigit c \<or> c \<in> set ''Z+-:''"
proof -
  define h mi where "h = \<bar>tzd\<bar> div 3600" and "mi = \<bar>tzd\<bar> mod 3600 div 60"
  have "3600 * h \<le> \<bar>tzd\<bar>" unfolding h_def by (rule div_bounds) simp
  moreover have "0 \<le> h" by (simp add: h_def pos_imp_zdiv_nonneg_iff)
  ultimately have "0 \<le> h" "h \<le> 99" using assms(2) by simp_all
  moreover have "60 * mi \<le> \<bar>tzd\<bar> mod 3600" unfolding mi_def by (rule div_bounds) simp
  moreover have "\<bar>tzd\<bar> mod 3600 < 3600" "0 \<le> \<bar>tzd\<bar> mod 3600" by simp_all
  then have "0 \<le> mi" "60 * mi < 3600" using calculation(3) by (simp_all only: mi_def pos_imp_zdiv_nonneg_iff zero_less_numeral)
  then have "0 \<le> mi" "mi \<le> 99" by simp_all
  ultimately show ?thesis using assms(3) text_digits(1) unfolding zone_text_def h_def [symmetric] mi_def [symmetric]
    by (auto split: if_splits)
qed

lemma iso8601_dispatch:
  assumes "isValid y m d h mi s ms us" "60 dvd tzd" "\<bar>tzd\<bar> < 360000"
  shows "tryParse (iso8601 fr y m d h mi s ms us tzd) =
    tryParse_format (if fr then ISO8601_FRAC_FORMAT else ISO8601_FORMAT) (iso8601 fr y m d h mi s ms us tzd)"
proof -
  define str where "str = iso8601 fr y m d h mi s ms us tzd"
  have v: "0 \<le> y" "y \<le> 9999" "1 \<le> m" "m \<le> 12" "1 \<le> d" "d \<le> 99" "0 \<le> h" "h \<le> 23" "0 \<le> mi" "mi \<le> 59" "0 \<le> s" "s \<le> 59"
    "0 \<le> ms" "ms \<le> 999" "0 \<le> us" "us \<le> 999"
  proof -
    have "month_length y m \<le> 31" if "1 \<le> m" "m \<le> 12" using months [OF that] by (elim disjE) simp_all
    then show "d \<le> 99" using assms(1) by (auto simp: isValid_def valid_date_def)
  qed (use assms(1) in \<open>simp_all add: isValid_def valid_date_def\<close>)
  obtain rest where str: "str = four y @ rest" by (simp add: str_def iso8601_def)
  have "str ! 3 \<in> set (four y)" "str ! 0 \<in> set (four y)" by (simp_all add: str four_def two_def)
  then have start: "isdigit (str ! 3)" "isdigit (str ! 0)" using text_digits(3) v by blast+
  have two: "c \<in> set (two x) \<Longrightarrow> isdigit c" if "x \<in> {m, d, h, mi, s}" for x c
    using that v by (intro text_digits(1)) auto
  have three: "c \<in> set (three x) \<Longrightarrow> isdigit c" if "x \<in> {ms, us}" for x c using that v by (intro text_digits(2)) auto
  have chars: "isdigit c \<or> c \<in> set ''-T:Z+'' \<or> fr \<and> c = CHR ''.''" if "c \<in> set str" for c
  proof -
    have "c \<in> set (four y) \<or> c \<in> set ''-T:'' \<or> (\<exists>x \<in> {m, d, h, mi, s}. c \<in> set (two x)) \<or> fr \<and> c = CHR ''.'' \<or>
        (\<exists>x \<in> {ms, us}. c \<in> set (three x)) \<or> c \<in> set (zone_text tzd)"
      using that unfolding str_def iso8601_def by (cases fr) (simp_all, blast+)
    then show ?thesis
    proof (elim disjE)
      assume "c \<in> set (four y)"
      then show ?thesis using text_digits(3) [OF v(1,2)] by blast
    next
      assume "c \<in> set ''-T:''"
      then show ?thesis by auto
    next
      assume "\<exists>x \<in> {m, d, h, mi, s}. c \<in> set (two x)"
      then show ?thesis using two by blast
    next
      assume "\<exists>x \<in> {ms, us}. c \<in> set (three x)"
      then show ?thesis using three by blast
    next
      assume "c \<in> set (zone_text tzd)"
      then show ?thesis using zone_text_chars [OF assms(2,3), of c] by auto
    qed blast
  qed
  have no: "\<not> isdigit (CHR '','')" "\<not> isdigit (CHR '' '')" "\<not> isdigit (CHR ''.'')" by (simp_all add: isdigit_def)
  have "CHR '','' \<notin> set str" "CHR '' '' \<notin> set str" "\<not> fr \<Longrightarrow> CHR ''.'' \<notin> set str" 
    using chars [of "CHR '',''"] chars [of "CHR '' ''"] chars [of "CHR ''.''"] no by auto
  moreover have "fr \<Longrightarrow> CHR ''.'' \<in> set str" by (simp add: str_def iso8601_def)
  moreover have "4 \<le> length str" "length str \<noteq> 10" by (simp_all add: str_def iso8601_def four_def two_def)
  moreover have "str ! 3 \<noteq> CHR '',''" "str ! 3 \<noteq> CHR '' ''" using start(1) no by metis+
  ultimately show ?thesis using start unfolding str_def [symmetric] tryParse_def by (simp add: find_char_def)
qed

lemma iso8601_parts:
  assumes "0 \<le> y" "y \<le> 9999" "1 \<le> m" "m \<le> 12" "1 \<le> d" "d \<le> 31" "0 \<le> h" "h \<le> 23" "0 \<le> mi" "mi \<le> 59" "0 \<le> s" "s \<le> 59"
    "0 \<le> ms" "ms \<le> 999" "0 \<le> us" "us \<le> 999" "60 dvd tzd" "\<bar>tzd\<bar> < 360000" "fr \<or> ms = 0 \<and> us = 0"
  shows "parse_loop (if fr then ISO8601_FRAC_FORMAT else ISO8601_FORMAT) no_parts (iso8601 fr y m d h mi s ms us tzd) =
    Inr \<lparr>p_year = y, p_month = m, p_day = d, p_hour = h, p_minute = mi, p_second = s, p_millis = ms, p_micros = us, p_tzd = tzd\<rparr>"
proof -
  have sep: "\<not> isdigit (CHR ''-'')" "\<not> isdigit (CHR ''T'')" "\<not> isdigit (CHR '':'')" by (simp_all add: isdigit_def)
  have zone: "parseTZD (zone_text tzd) = Inr (tzd, [])" by (rule parse_zone [OF assms(17,18)])
  have zone_spec: "parse_loop ''%z'' p (zone_text tzd) = Inr (p\<lparr>p_tzd := tzd\<rparr>)" for p
    using texts_nonempty(3) by (simp add: parse_loop_steps parse_specs zone del: parse_loop.simps(2))
  show ?thesis
  proof (cases fr)
    case True
    then show ?thesis
      using assms unfolding ISO8601_FRAC_FORMAT_def iso8601_def no_parts_def
      by (simp add: parse_loop_steps parse_specs number_n_texts sep texts_nonempty parse_seconds_fraction zone_spec del: parse_loop.simps(2))
  next
    case False
    then show ?thesis
      using assms unfolding ISO8601_FORMAT_def iso8601_def no_parts_def
      by (simp add: parse_loop_steps parse_specs number_n_texts sep texts_nonempty zone_spec del: parse_loop.simps(2))
  qed
qed

text \<open>
  C27: A text of ISO 8601 with or without fractions of a second, in any zone of whole minutes,
  is recognised and parsed to the \<open>DateTime\<close> of exactly its fields, down to the
  microsecond, and the difference of its zone in seconds.
\<close>

theorem iso8601_roundtrip:
  assumes "isValid y m d h mi s ms us" "60 dvd tzd" "\<bar>tzd\<bar> < 360000" "fr \<or> ms = 0 \<and> us = 0"
  shows "\<exists>t. DateTime_of_fields y m d h mi s ms us = Inr t \<and> tryParse (iso8601 fr y m d h mi s ms us tzd) = Inr (Some (t, tzd))"
proof -
  have v: "0 \<le> y" "y \<le> 9999" "1 \<le> m" "m \<le> 12" "1 \<le> d" "d \<le> 31" "0 \<le> h" "h \<le> 23" "0 \<le> mi" "mi \<le> 59" "0 \<le> s" "s \<le> 59"
    "0 \<le> ms" "ms \<le> 999" "0 \<le> us" "us \<le> 999"
  proof -
    have "month_length y m \<le> 31" if "1 \<le> m" "m \<le> 12" using months [OF that] by (elim disjE) simp_all
    then show "d \<le> 31" using assms(1) by (force simp: isValid_def valid_date_def)
  qed (use assms(1) in \<open>simp_all add: isValid_def valid_date_def\<close>)
  obtain t where t: "DateTime_of_fields y m d h mi s ms us = Inr t" using fields_exact [OF assms(1)] by blast
  have "parse (if fr then ISO8601_FRAC_FORMAT else ISO8601_FORMAT) (iso8601 fr y m d h mi s ms us tzd) = Inr (t, tzd)"
    unfolding parse_def iso8601_parts [OF v assms(2-4)] using assms(1) v t by (simp add: finish_def Let_def)
  then have "tryParse (iso8601 fr y m d h mi s ms us tzd) = Inr (Some (t, tzd))"
    unfolding iso8601_dispatch [OF assms(1-3)] by (simp add: tryParse_format_def)
  then show ?thesis using t by blast
qed

theorem iso8601_roundtrip_witness:
  "\<exists>t. DateTime_of_fields 2005 1 31 12 30 59 123 456 = Inr t \<and>
    tryParse ''2005-01-31T12:30:59.123456-03:30'' = Inr (Some (t, - 12600))"
proof -
  have "iso8601 True 2005 1 31 12 30 59 123 456 (- 12600) = ''2005-01-31T12:30:59.123456-03:30''" by code_simp
  then show ?thesis
    using iso8601_roundtrip [of 2005 1 31 12 30 59 123 456 "- 12600" True] by (simp add: isValid_def valid_date_def)
qed

subsection \<open>Dates of HTTP\<close>

definition http_date :: "nat \<Rightarrow> int \<Rightarrow> int \<Rightarrow> int \<Rightarrow> int \<Rightarrow> int \<Rightarrow> int \<Rightarrow> string" where
  "http_date w y m d h mi s =
     take 3 (WEEKDAY_NAMES ! w) @ '', '' @ two d @ '' '' @ take 3 (MONTH_NAMES ! nat (m - 1)) @ '' '' @ four y @ '' '' @
     two h @ '':'' @ two mi @ '':'' @ two s @ '' GMT''"

lemma parse_month_name:
  assumes "1 \<le> m" "m \<le> 12"
  shows "parseMonth (CHR '' '' # take 3 (MONTH_NAMES ! nat (m - 1)) @ CHR '' '' # it) = Inr (m, CHR '' '' # it)"
  using months [OF assms]
  by (elim disjE) (simp_all add: MONTH_NAMES_def parseMonth_def parseName_def capitalize_def isspace_def ispunct_def isalpha_def isalnum_def
    isupper_def islower_def isdigit_def toupper_def tolower_def)

lemma weekday_text:
  assumes "w < 7"
  obtains a b c where "take 3 (WEEKDAY_NAMES ! w) = [a, b, c]" "isalpha a" "isalpha b" "isalpha c"
proof -
  have "w = 0 \<or> w = 1 \<or> w = 2 \<or> w = 3 \<or> w = 4 \<or> w = 5 \<or> w = 6" using assms by auto
  then show ?thesis using that
    by (elim disjE) (simp_all add: WEEKDAY_NAMES_def isalpha_def isupper_def islower_def)
qed

lemma parse_year:
  assumes "1000 \<le> y" "y \<le> 9999"
  shows "parse_spec (CHR ''r'') (p\<lparr>p_year := 0\<rparr>) (CHR '' '' # four y @ CHR '' '' # it) = Inr (p\<lparr>p_year := y\<rparr>, CHR '' '' # it)"
proof -
  have "SKIP_JUNK (CHR '' '' # four y @ CHR '' '' # it) = four y @ CHR '' '' # it"
    using skip_digits(2) [of y "CHR '' '' # it"] assms by (simp add: SKIP_JUNK_def isdigit_def)
  moreover have "PARSE_NUMBER 0 (four y @ CHR '' '' # it) = Inr (y, CHR '' '' # it)"
    using number_four(2) [of y "CHR '' '' # it"] assms by (simp add: isdigit_def)
  ultimately show ?thesis using assms by (simp add: parse_spec_def)
qed

lemma http_parts:
  assumes "1000 \<le> y" "y \<le> 9999" "1 \<le> m" "m \<le> 12" "1 \<le> d" "d \<le> 31" "0 \<le> h" "h \<le> 23" "0 \<le> mi" "mi \<le> 59" "0 \<le> s" "s \<le> 59" "w < 7"
  shows "parse_loop ''%w, %e %b %r %H:%M:%S %Z'' no_parts (http_date w y m d h mi s) =
    Inr \<lparr>p_year = y, p_month = m, p_day = d, p_hour = h, p_minute = mi, p_second = s, p_millis = 0, p_micros = 0, p_tzd = 0\<rparr>"
proof -
  obtain a b c where wd: "take 3 (WEEKDAY_NAMES ! w) = [a, b, c]" "isalpha a" "isalpha b" "isalpha c" using weekday_text [OF assms(13)] .
  have alpha: "isalpha x \<Longrightarrow> \<not> isspace x" for x by (auto simp: isalpha_def isspace_def isupper_def islower_def Let_def)
  have sep: "\<not> isdigit (CHR '' '')" "\<not> isdigit (CHR '','')" "\<not> isdigit (CHR '':'')" by (simp_all add: isdigit_def)
  have sp: "\<not> isalpha (CHR '','')" by (simp add: isalpha_def isupper_def islower_def)
  have W: "parse_spec (CHR ''w'') p (a # b # c # CHR '','' # it) = Inr (p, CHR '','' # it)" for p it
    using wd alpha sp by (simp add: parse_spec_def)
  have E: "number_n 2 0 upd (CHR '','' # CHR '' '' # two d @ it) = Inr (upd d, it)" for upd it
    using number_n_texts(2) [of d "CHR '' ''" upd it] assms(5,6) sep by (simp add: number_n_def SKIP_JUNK_def)
  have B: "parse_spec (CHR ''b'') p (CHR '' '' # take 3 (MONTH_NAMES ! nat (m - 1)) @ CHR '' '' # it) = Inr (p\<lparr>p_month := m\<rparr>, CHR '' '' # it)"
    for p it using parse_month_name [OF assms(3,4)] by (simp add: parse_spec_def)
  have R: "parse_spec (CHR ''r'') p (CHR '' '' # four y @ CHR '' '' # it) = Inr (p\<lparr>p_year := y\<rparr>, CHR '' '' # it)" if "p_year p = 0" for p it
    using parse_year [OF assms(1,2), of p it] that by (cases p) simp
  have Z: "parseTZD '' GMT'' = Inr (0, [])"
    by (simp add: parseTZD_def isspace_def isalpha_def isupper_def islower_def numeral_eq_Suc zones_def zone_offset_def)
  show ?thesis
    using assms unfolding http_date_def no_parts_def wd(1)
    by (simp add: parse_loop_steps parse_specs number_n_texts sep texts_nonempty W E B R Z del: parse_loop.simps(2) take_Cons_numeral)
qed

text \<open>
  A date of HTTP (RFC 1123, in GMT) from the year 1000 on is recognised and parsed to its
  fields, whatever day of the week it names.
\<close>

theorem http_date_roundtrip:
  assumes "isValid y m d h mi s 0 0" "1000 \<le> y" "w < 7"
  shows "\<exists>t. DateTime_of_fields y m d h mi s 0 0 = Inr t \<and> tryParse (http_date w y m d h mi s) = Inr (Some (t, 0))"
proof -
  have v: "y \<le> 9999" "1 \<le> m" "m \<le> 12" "1 \<le> d" "d \<le> 31" "0 \<le> h" "h \<le> 23" "0 \<le> mi" "mi \<le> 59" "0 \<le> s" "s \<le> 59"
  proof -
    have "month_length y m \<le> 31" if "1 \<le> m" "m \<le> 12" using months [OF that] by (elim disjE) simp_all
    then show "d \<le> 31" using assms(1) by (force simp: isValid_def valid_date_def)
  qed (use assms(1) in \<open>simp_all add: isValid_def valid_date_def\<close>)
  obtain t where t: "DateTime_of_fields y m d h mi s 0 0 = Inr t" using fields_exact [OF assms(1)] by blast
  have "parse ''%w, %e %b %r %H:%M:%S %Z'' (http_date w y m d h mi s) = Inr (t, 0)"
    unfolding parse_def http_parts [OF assms(2) v assms(3)] using assms(1) v t by (simp add: finish_def Let_def)
  moreover obtain a b c where "take 3 (WEEKDAY_NAMES ! w) = [a, b, c]" using weekday_text [OF assms(3)] by metis
  then have "4 \<le> length (http_date w y m d h mi s)" "http_date w y m d h mi s ! 3 = CHR '',''" by (simp_all add: http_date_def)
  ultimately have "tryParse (http_date w y m d h mi s) = Inr (Some (t, 0))" unfolding tryParse_def by (simp add: tryParse_format_def)
  then show ?thesis using t by blast
qed

theorem http_date_roundtrip_witness:
  "\<exists>t. DateTime_of_fields 1994 11 6 8 49 37 0 0 = Inr t \<and> tryParse ''Sun, 06 Nov 1994 08:49:37 GMT'' = Inr (Some (t, 0))"
proof -
  have "http_date 0 1994 11 6 8 49 37 = ''Sun, 06 Nov 1994 08:49:37 GMT''" by code_simp
  then show ?thesis using http_date_roundtrip [of 1994 11 6 8 49 37 0] by (simp add: isValid_def valid_date_def)
qed

text \<open>
  A year of too many digits, in a text anyone may send, overflows the \<open>int\<close> it is added up in.
\<close>

lemma long_year_undefined:
  "tryParse ''Sun, 06 Nov 19941994199 08:49:37 GMT'' = Inl Undefined_behaviour"
  by code_simp

end
