(* ===== verification/Camera_Settings.thy ===== *)
theory Camera_Settings
  imports SocketIO_Packet "HOL-Library.List_Lexorder" "HOL-Library.Char_ord"
begin

text \<open>
  The settings of the server (\<open>broadcast/src/Settings.cpp\<close>, \<open>Settings.h\<close>): the configuration, and the cameras as
  a value of JSON behind a lock for readers and writers, saved to a file after each change. What an operation
  does to the lock is part of the state: an exception thrown between locking and unlocking leaves it locked, and
  an operation that then asks for it never returns, or aborts the process on the thread that holds it. Each operation is one step, as the lock makes it for the
  threads that share the settings. Printing a value (\<open>dump(4)\<close>), opening the file and the conversion of a
  floating point number are arguments.
\<close>

subsection \<open>Operations on a state that may throw or wait for ever\<close>

datatype 'a outcome = Done 'a | Throws exc | Blocked

type_synonym ('s, 'a) op = "'s \<Rightarrow> 's \<times> 'a outcome"

definition ret :: "'a \<Rightarrow> ('s, 'a) op" where
  "ret v s = (s, Done v)"

definition bind :: "('s, 'a) op \<Rightarrow> ('a \<Rightarrow> ('s, 'b) op) \<Rightarrow> ('s, 'b) op" where
  "bind m f s = (case m s of (s, Done v) \<Rightarrow> f v s | (s, Throws e) \<Rightarrow> (s, Throws e) | (s, Blocked) \<Rightarrow> (s, Blocked))"

definition of_res :: "'a res \<Rightarrow> ('s, 'a) op" where
  "of_res r s = (case r of Inl e \<Rightarrow> (s, Throws e) | Inr v \<Rightarrow> (s, Done v))"

definition upd :: "('s \<Rightarrow> 's) \<Rightarrow> ('s, unit) op" where
  "upd f s = (f s, Done ())"

definition with_state :: "('s \<Rightarrow> ('s, 'a) op) \<Rightarrow> ('s, 'a) op" where
  "with_state f s = f s s"

primrec each :: "('a \<Rightarrow> ('s, unit) op) \<Rightarrow> 'a list \<Rightarrow> ('s, unit) op" where
  "each f [] = ret ()"
| "each f (x # xs) = bind (f x) (\<lambda>_. each f xs)"

text \<open>\<open>catch (...)\<close> catches what is thrown, not what C++ leaves undefined.\<close>

definition thrown :: "exc \<Rightarrow> bool" where
  "thrown e = (case e of Out_of_range \<Rightarrow> True | Runtime_error _ \<Rightarrow> True | Invalid_argument \<Rightarrow> True | _ \<Rightarrow> False)"

definition catch_all :: "('s, 'a) op \<Rightarrow> ('s, 'a) op \<Rightarrow> ('s, 'a) op" where
  "catch_all m h s = (case m s of (s, Throws e) \<Rightarrow> if thrown e then h s else (s, Throws e) | r \<Rightarrow> r)"

named_theorems op_simps \<open>running operations\<close>

lemma bind_simps [op_simps]:
  "m s = (s', Done v) \<Longrightarrow> bind m f s = f v s'"
  "m s = (s', Throws e) \<Longrightarrow> bind m f s = (s', Throws e)"
  "m s = (s', Blocked) \<Longrightarrow> bind m f s = (s', Blocked)"
  by (simp_all add: bind_def)

lemma ret_simps [op_simps]:
  "ret v s = (s, Done v)" "of_res (Inr v) s = (s, Done v)" "of_res (Inl e) s = (s, Throws e)"
  "upd g s = (g s, Done ())" "with_state f s = f s s"
  by (simp_all add: ret_def of_res_def upd_def with_state_def)

subsection \<open>Objects of JSON\<close>

fun obj_set :: "string \<Rightarrow> json \<Rightarrow> (string \<times> json) list \<Rightarrow> (string \<times> json) list" where
  "obj_set k v [] = [(k, v)]"
| "obj_set k v ((k', v') # kvs) =
     (if k = k' then (k, v) # kvs else if k < k' then (k, v) # (k', v') # kvs else (k', v') # obj_set k v kvs)"

definition obj_erase :: "string \<Rightarrow> (string \<times> json) list \<Rightarrow> (string \<times> json) list" where
  "obj_erase k kvs = filter (\<lambda>(k', _). k' \<noteq> k) kvs"

text \<open>\<open>find(key)\<close>, which is the end for what is no object.\<close>

fun json_find :: "string \<Rightarrow> json \<Rightarrow> json option" where
  "json_find k (Object kvs) = map_of kvs k"
| "json_find k _ = None"

text \<open>
  \<open>operator[]\<close> with a key makes an object of null and an entry that is null when there is none; otherwise it
  throws for what is no object. \<open>json_slot\<close> is the value with the entry in place and the entry.
\<close>

fun json_slot :: "string \<Rightarrow> json \<Rightarrow> (json \<times> json) res" where
  "json_slot k Null = Inr (Object [(k, Null)], Null)"
| "json_slot k (Object kvs) = (case map_of kvs k of
     Some v \<Rightarrow> Inr (Object kvs, v) | None \<Rightarrow> Inr (Object (obj_set k Null kvs), Null))"
| "json_slot k _ = Inl (Runtime_error ''cannot use operator[] with a string argument'')"

definition json_put :: "string \<Rightarrow> json \<Rightarrow> json \<Rightarrow> json res" where
  "json_put k v j = res_bind (json_slot k j) (\<lambda>(j, _). case j of Object kvs \<Rightarrow> Inr (Object (obj_set k v kvs)) | _ \<Rightarrow> Inr j)"

text \<open>\<open>items()\<close>: the entries of an object, the elements of an array under their index, another value under the empty key.\<close>

fun json_items :: "json \<Rightarrow> (string \<times> json) list" where
  "json_items (Object kvs) = kvs"
| "json_items (Array xs) = map (\<lambda>i. (itostr (int i), xs ! i)) [0..<length xs]"
| "json_items Null = []"
| "json_items j = [('''', j)]"

text \<open>\<open>begin()\<close> to \<open>end()\<close>.\<close>

fun json_elements :: "json \<Rightarrow> json list" where
  "json_elements (Object kvs) = map snd kvs"
| "json_elements (Array xs) = xs"
| "json_elements Null = []"
| "json_elements j = [j]"

subsection \<open>The configuration\<close>

record Configuration =
  log_info :: bool
  rtcMinPort :: u16
  rtcMaxPort :: u16
  cam_reconnect :: u16
  vp9Enc :: u16
  nvidiaEnc :: u16
  quicksyncEnc :: u16
  native :: u16
  x264Enc :: u16
  VAAPIEnc :: u16
  haswell :: bool
  tcpRtsp :: bool
  Mp4Size_Key :: u16
  SegSize_key :: u16
  dtlsCertificateFile :: string
  dtlsPrivateKeyFile :: string
  storage :: string
  listenIps :: json

definition Configuration_init :: Configuration where
  "Configuration_init =
     \<lparr>log_info = False, rtcMinPort = 10000, rtcMaxPort = 59999, cam_reconnect = 0, vp9Enc = 10, nvidiaEnc = 10,
      quicksyncEnc = 16, native = 16, x264Enc = 10, VAAPIEnc = 16, haswell = False, tcpRtsp = True, Mp4Size_Key = 40,
      SegSize_key = 5, dtlsCertificateFile = [], dtlsPrivateKeyFile = [], storage = [], listenIps = Null\<rparr>"

text \<open>\<open>get<uint16_t>\<close>: numbers and truth values are cast, which keeps the low 16 bits.\<close>

definition get_u16 :: "(64 word \<Rightarrow> u16) \<Rightarrow> json \<Rightarrow> u16 res" where
  "get_u16 float_u16 j = (case j of
       Number_unsigned n \<Rightarrow> Inr (ucast n)
     | Number_integer n \<Rightarrow> Inr (ucast n)
     | Number_float n \<Rightarrow> Inr (float_u16 n)
     | Boolean b \<Rightarrow> Inr (if b then 1 else 0)
     | _ \<Rightarrow> Inl (Runtime_error ''type must be number''))"

definition get_bool :: "json \<Rightarrow> bool res" where
  "get_bool j = (case j of Boolean b \<Rightarrow> Inr b | _ \<Rightarrow> Inl (Runtime_error ''type must be boolean''))"

text \<open>\<open>if (cnfg.find(key) != cnfg.end()) field = cnfg[key].get<T>()\<close>.\<close>

definition read_field :: "json \<Rightarrow> string \<Rightarrow> (json \<Rightarrow> 'v res) \<Rightarrow> ('v \<Rightarrow> Configuration \<Rightarrow> Configuration) \<Rightarrow> (Configuration, unit) op" where
  "read_field cnfg key get put = (case json_find key cnfg of
       None \<Rightarrow> ret () | Some j \<Rightarrow> bind (of_res (get j)) (\<lambda>v. upd (put v)))"

definition SetDtlsCertificateAndPrivateKeyFiles :: "(Configuration, unit) op" where
  "SetDtlsCertificateAndPrivateKeyFiles = with_state (\<lambda>c.
     if dtlsCertificateFile c \<noteq> [] \<and> dtlsPrivateKeyFile c = [] then of_res (Inl (Runtime_error ''missing dtlsPrivateKeyFile''))
     else if dtlsCertificateFile c = [] \<and> dtlsPrivateKeyFile c \<noteq> [] then of_res (Inl (Runtime_error ''missing dtlsCertificateFile''))
     else ret ())"

text \<open>The log level only reaches the logger, which is not modelled; it must be a string.\<close>

definition SetConfiguration :: "(64 word \<Rightarrow> u16) \<Rightarrow> json \<Rightarrow> (Configuration, unit) op" where
  "SetConfiguration fl cnfg =
     bind (read_field cnfg ''rtcMinPort'' (get_u16 fl) (\<lambda>v c. c\<lparr>rtcMinPort := v\<rparr>)) (\<lambda>_.
     bind (read_field cnfg ''rtcMaxPort'' (get_u16 fl) (\<lambda>v c. c\<lparr>rtcMaxPort := v\<rparr>)) (\<lambda>_.
     bind (read_field cnfg ''vp9Enc'' (get_u16 fl) (\<lambda>v c. c\<lparr>vp9Enc := v\<rparr>)) (\<lambda>_.
     bind (read_field cnfg ''nvidiaEnc'' (get_u16 fl) (\<lambda>v c. c\<lparr>nvidiaEnc := v\<rparr>)) (\<lambda>_.
     bind (read_field cnfg ''quicksyncEnc'' (get_u16 fl) (\<lambda>v c. c\<lparr>quicksyncEnc := v\<rparr>)) (\<lambda>_.
     bind (read_field cnfg ''VAAPIEnc'' (get_u16 fl) (\<lambda>v c. c\<lparr>VAAPIEnc := v\<rparr>)) (\<lambda>_.
     bind (read_field cnfg ''haswell'' get_bool (\<lambda>v c. c\<lparr>haswell := v\<rparr>)) (\<lambda>_.
     bind (read_field cnfg ''tcpRtsp'' get_bool (\<lambda>v c. c\<lparr>tcpRtsp := v\<rparr>)) (\<lambda>_.
     bind (read_field cnfg ''NATIVE'' (get_u16 fl) (\<lambda>v c. c\<lparr>native := v\<rparr>)) (\<lambda>_.
     bind (read_field cnfg ''x264Enc'' (get_u16 fl) (\<lambda>v c. c\<lparr>x264Enc := v\<rparr>)) (\<lambda>_.
     bind (read_field cnfg ''Mp4Size_Key'' (get_u16 fl) (\<lambda>v c. c\<lparr>Mp4Size_Key := v\<rparr>)) (\<lambda>_.
     bind (read_field cnfg ''SegSize_key'' (get_u16 fl) (\<lambda>v c. c\<lparr>SegSize_key := v\<rparr>)) (\<lambda>_.
     bind (read_field cnfg ''cam_reconnect'' (get_u16 fl) (\<lambda>v c. c\<lparr>cam_reconnect := v\<rparr>)) (\<lambda>_.
     bind (read_field cnfg ''logLevel'' json_string (\<lambda>_ c. c)) (\<lambda>_.
     bind (read_field cnfg ''dtlsCertificateFile'' json_string (\<lambda>v c. c\<lparr>dtlsCertificateFile := v\<rparr>)) (\<lambda>_.
     bind (read_field cnfg ''dtlsPrivateKeyFile'' json_string (\<lambda>v c. c\<lparr>dtlsPrivateKeyFile := v\<rparr>)) (\<lambda>_.
     bind (read_field cnfg ''listenIps'' Inr (\<lambda>v c. c\<lparr>listenIps := v\<rparr>)) (\<lambda>_.
     bind (read_field cnfg ''storage'' json_string (\<lambda>v c. c\<lparr>storage := v\<rparr>)) (\<lambda>_.
     bind (with_state (\<lambda>c. if rtcMaxPort c < rtcMinPort c
             then of_res (Inl (Runtime_error ''rtcMinPort cannot be less than than rtcMinPort'')) else ret ())) (\<lambda>_.
     SetDtlsCertificateAndPrivateKeyFiles)))))))))))))))))))"

definition SetLogTags :: "string list \<Rightarrow> (Configuration, unit) op" where
  "SetLogTags tags = upd (\<lambda>c. c\<lparr>log_info := \<exists>t\<in>set tags. t = ''info''\<rparr>)"

subsection \<open>The cameras\<close>

text \<open>
  \<open>rw_owner\<close> is the thread that holds the lock for writing, \<open>this_thread\<close> the one that calls. A thread that asks
  for the lock while it holds it for writing is told so by the thread library, on which libuv aborts the process
  (\<open>uv_rwlock_rdlock\<close>, \<open>uv_rwlock_wrlock\<close>); any other waits.
\<close>

record cameras =
  enc_root :: json
  rw_readers :: nat
  rw_writer :: bool
  rw_owner :: nat
  this_thread :: nat
  stats_file :: "string option"

definition cameras_init :: cameras where
  "cameras_init = \<lparr>enc_root = Null, rw_readers = 0, rw_writer = False, rw_owner = 0, this_thread = 0, stats_file = None\<rparr>"

definition SetEncoderConf :: "json \<Rightarrow> (cameras, unit) op" where
  "SetEncoderConf cnfg =
     (if cnfg = Null
      then with_state (\<lambda>s. bind (of_res (json_put ''rtsp'' (Object []) (enc_root s))) (\<lambda>r. upd (\<lambda>s. s\<lparr>enc_root := r\<rparr>)))
      else upd (\<lambda>s. s\<lparr>enc_root := cnfg\<rparr>))"

definition wrlock :: "(cameras, unit) op" where
  "wrlock s =
     (if rw_writer s \<and> rw_owner s = this_thread s then (s, Throws Assertion_failed)
      else if rw_readers s > 0 \<or> rw_writer s then (s, Blocked)
      else (s\<lparr>rw_writer := True, rw_owner := this_thread s\<rparr>, Done ()))"

definition wrunlock :: "(cameras, unit) op" where
  "wrunlock = upd (\<lambda>s. s\<lparr>rw_writer := False\<rparr>)"

definition rdlock :: "(cameras, unit) op" where
  "rdlock s =
     (if rw_writer s \<and> rw_owner s = this_thread s then (s, Throws Assertion_failed)
      else if rw_writer s then (s, Blocked)
      else (s\<lparr>rw_readers := rw_readers s + 1\<rparr>, Done ()))"

definition rdunlock :: "(cameras, unit) op" where
  "rdunlock = upd (\<lambda>s. s\<lparr>rw_readers := rw_readers s - 1\<rparr>)"

text \<open>\<open>json &rtsp = root["rtsp"]\<close>: the entry is made if it is missing; \<open>set_rtsp\<close> writes through the reference.\<close>

definition rtsp_ref :: "(cameras, json) op" where
  "rtsp_ref = with_state (\<lambda>s. bind (of_res (json_slot ''rtsp'' (enc_root s))) (\<lambda>(root, rtsp).
     bind (upd (\<lambda>s. s\<lparr>enc_root := root\<rparr>)) (\<lambda>_. ret rtsp)))"

definition set_rtsp :: "json \<Rightarrow> (cameras, unit) op" where
  "set_rtsp rtsp = with_state (\<lambda>s. bind (of_res (json_put ''rtsp'' rtsp (enc_root s))) (\<lambda>root.
     upd (\<lambda>s. s\<lparr>enc_root := root\<rparr>)))"

definition saveFile :: "bool \<Rightarrow> string \<Rightarrow> (cameras, unit) op" where
  "saveFile can_open dumped =
     (if can_open then upd (\<lambda>s. s\<lparr>stats_file := Some dumped\<rparr>)
      else of_res (Inl (Runtime_error ''Cannot open output file: ./webrtcStats.js'')))"

text \<open>The end of every change: print, unlock, save.\<close>

definition dump_and_save :: "(json \<Rightarrow> string res) \<Rightarrow> bool \<Rightarrow> (cameras, unit) op" where
  "dump_and_save dump4 can_open =
     bind (with_state (\<lambda>s. of_res (dump4 (enc_root s)))) (\<lambda>dumped.
     bind wrunlock (\<lambda>_. saveFile can_open dumped))"

definition postNode :: "(json \<Rightarrow> string res) \<Rightarrow> bool \<Rightarrow> json \<Rightarrow> (cameras, unit) op" where
  "postNode dump4 can_open node =
     bind wrlock (\<lambda>_. bind (set_rtsp node) (\<lambda>_. dump_and_save dump4 can_open))"

definition putNode :: "(json \<Rightarrow> string res) \<Rightarrow> bool \<Rightarrow> json \<Rightarrow> (cameras, bool \<times> string list) op" where
  "putNode dump4 can_open node =
     bind wrlock (\<lambda>_. bind rtsp_ref (\<lambda>_.
     bind (each (\<lambda>(key, v). bind rtsp_ref (\<lambda>rtsp. bind (of_res (json_put key v rtsp)) set_rtsp)) (json_items node)) (\<lambda>_.
     bind (dump_and_save dump4 can_open) (\<lambda>_. ret (json_items node \<noteq> [], map fst (json_items node))))))"

text \<open>The names to delete: the keys of an object, otherwise the elements, which must be strings.\<close>

definition delete_names :: "json \<Rightarrow> string res list" where
  "delete_names node = (case node of Object kvs \<Rightarrow> map (\<lambda>(k, _). Inr k) kvs | _ \<Rightarrow> map json_string (json_elements node))"

fun erase_names :: "string res list \<Rightarrow> (cameras, string list) op" where
  "erase_names [] = ret []"
| "erase_names (name # names) =
     bind (of_res name) (\<lambda>key. bind rtsp_ref (\<lambda>rtsp. case json_find key rtsp of
         None \<Rightarrow> erase_names names
       | Some _ \<Rightarrow> bind (set_rtsp (case rtsp of Object kvs \<Rightarrow> Object (obj_erase key kvs) | j \<Rightarrow> j)) (\<lambda>_.
           bind (erase_names names) (\<lambda>gone. ret (key # gone)))))"

definition deleteNode :: "(json \<Rightarrow> string res) \<Rightarrow> bool \<Rightarrow> json \<Rightarrow> (cameras, bool \<times> string list) op" where
  "deleteNode dump4 can_open node =
     bind wrlock (\<lambda>_. bind rtsp_ref (\<lambda>_. bind (erase_names (delete_names node)) (\<lambda>gone.
     bind (dump_and_save dump4 can_open) (\<lambda>_. ret (gone \<noteq> [], gone)))))"

definition getJsonNode :: "(cameras, json) op" where
  "getJsonNode = bind rdlock (\<lambda>_. bind rtsp_ref (\<lambda>rtsp. bind rdunlock (\<lambda>_. ret rtsp)))"

definition getNode :: "(json \<Rightarrow> string res) \<Rightarrow> (cameras, string) op" where
  "getNode dump4 = bind rdlock (\<lambda>_. bind rtsp_ref (\<lambda>rtsp. bind (of_res (dump4 rtsp)) (\<lambda>d. bind rdunlock (\<lambda>_. ret d))))"

definition setNodeState :: "(json \<Rightarrow> string res) \<Rightarrow> bool \<Rightarrow> string \<Rightarrow> string \<Rightarrow> (cameras, bool) op" where
  "setNodeState dump4 can_open cid status =
     bind wrlock (\<lambda>_. bind rtsp_ref (\<lambda>rtsp. case json_find cid rtsp of
       None \<Rightarrow> bind (dump_and_save dump4 can_open) (\<lambda>_. ret False)
     | Some cam \<Rightarrow> bind (of_res (json_put ''state'' (String status) cam)) (\<lambda>cam.
         bind (of_res (json_put cid cam rtsp)) (\<lambda>rtsp. bind (set_rtsp rtsp) (\<lambda>_.
         bind (dump_and_save dump4 can_open) (\<lambda>_. ret True))))))"

definition getNodeState :: "string \<Rightarrow> string \<Rightarrow> (cameras, string option) op" where
  "getNodeState cid key =
     bind rdlock (\<lambda>_. bind rtsp_ref (\<lambda>rtsp. case json_find cid rtsp of
       None \<Rightarrow> bind rdunlock (\<lambda>_. ret None)
     | Some cam \<Rightarrow> (case json_find key cam of
           None \<Rightarrow> bind rdunlock (\<lambda>_. ret None)
         | Some v \<Rightarrow> bind (of_res (json_string v)) (\<lambda>s. bind rdunlock (\<lambda>_. ret (Some s))))))"

definition getJsonNodeState :: "string \<Rightarrow> (cameras, json option) op" where
  "getJsonNodeState cid = bind rdlock (\<lambda>_. bind rtsp_ref (\<lambda>rtsp. bind rdunlock (\<lambda>_. ret (json_find cid rtsp))))"

subsection \<open>The cameras as a map\<close>

lemma map_of_obj_set [simp]: "map_of (obj_set k v kvs) = (map_of kvs)(k \<mapsto> v)"
  by (induction kvs) (auto simp: fun_eq_iff)

lemma map_of_obj_erase [simp]: "map_of (obj_erase k kvs) = (map_of kvs)(k := None)"
  by (induction kvs) (auto simp: obj_erase_def fun_eq_iff)

definition camera_map :: "json \<Rightarrow> string \<rightharpoonup> json" where
  "camera_map j = (case j of Object kvs \<Rightarrow> map_of kvs | _ \<Rightarrow> Map.empty)"

text \<open>The list of cameras is an object, or null while there is none.\<close>

definition camera_list :: "json \<Rightarrow> bool" where
  "camera_list j \<longleftrightarrow> j = Null \<or> is_object j"

definition rtsp_is :: "cameras \<Rightarrow> json \<Rightarrow> bool" where
  "rtsp_is s v \<longleftrightarrow> map_sum id snd (json_slot ''rtsp'' (enc_root s)) = Inr v"

definition unlocked :: "cameras \<Rightarrow> bool" where
  "unlocked s \<longleftrightarrow> rw_readers s = 0 \<and> \<not> rw_writer s"

definition cameras_ok :: "cameras \<Rightarrow> bool" where
  "cameras_ok s \<longleftrightarrow> unlocked s \<and> (case json_slot ''rtsp'' (enc_root s) of Inl _ \<Rightarrow> False | Inr (_, v) \<Rightarrow> camera_list v)"

definition cams :: "cameras \<Rightarrow> string \<rightharpoonup> json" where
  "cams s = (case json_slot ''rtsp'' (enc_root s) of Inl _ \<Rightarrow> Map.empty | Inr (_, v) \<Rightarrow> camera_map v)"

lemma rtsp_is_alt: "rtsp_is s v = (\<exists>root. json_slot ''rtsp'' (enc_root s) = Inr (root, v))"
  by (cases "json_slot ''rtsp'' (enc_root s)") (auto simp: rtsp_is_def)

lemma cameras_ok_iff: "cameras_ok s \<longleftrightarrow> unlocked s \<and> (\<exists>v. rtsp_is s v \<and> camera_list v)"
  by (auto simp: cameras_ok_def rtsp_is_alt split: sum.splits)

lemma cams_rtsp: "rtsp_is s v \<Longrightarrow> cams s = camera_map v"
  by (auto simp: cams_def rtsp_is_alt)

lemma json_slot_root:
  assumes "json_slot k j = Inr (root, v)"
  shows "json_slot k root = Inr (root, v)" "\<exists>kvs. root = Object kvs" "json_find k root = Some v"
  using assms by (cases j; auto split: option.splits)+

lemma rtsp_ref_run: "rtsp_is s v \<Longrightarrow> \<exists>root. rtsp_ref s = (s\<lparr>enc_root := root\<rparr>, Done v) \<and> rtsp_is (s\<lparr>enc_root := root\<rparr>) v"
  using json_slot_root(1) by (fastforce simp: rtsp_is_alt rtsp_ref_def op_simps)

lemma set_rtsp_run: "rtsp_is s v \<Longrightarrow> \<exists>root. set_rtsp r s = (s\<lparr>enc_root := root\<rparr>, Done ()) \<and> rtsp_is (s\<lparr>enc_root := root\<rparr>) r"
proof -
  assume "rtsp_is s v"
  then obtain kvs where "json_slot ''rtsp'' (enc_root s) = Inr (Object kvs, v)"
    using json_slot_root(2) by (fastforce simp: rtsp_is_alt)
  then show ?thesis
    by (intro exI [of _ "Object (obj_set ''rtsp'' r kvs)"]) (simp add: set_rtsp_def json_put_def op_simps rtsp_is_alt)
qed

text \<open>The changes that do not touch the lock and the file.\<close>

definition only_root :: "cameras \<Rightarrow> cameras \<Rightarrow> bool" where
  "only_root s s' \<longleftrightarrow> rw_readers s' = rw_readers s \<and> rw_writer s' = rw_writer s \<and> rw_owner s' = rw_owner s \<and>
     this_thread s' = this_thread s \<and> stats_file s' = stats_file s"

lemma only_root_trans: "only_root s s' \<Longrightarrow> only_root s' s'' \<Longrightarrow> only_root s s''"
  by (simp add: only_root_def)

lemma only_root_enc [simp]: "only_root s (s\<lparr>enc_root := r\<rparr>)"
  by (simp add: only_root_def)

lemma json_put_list: "camera_list v \<Longrightarrow> \<exists>v'. json_put k x v = Inr v' \<and> camera_list v' \<and> camera_map v' = (camera_map v)(k \<mapsto> x)"
  by (cases v) (auto simp: camera_list_def json_put_def camera_map_def split: option.splits)

lemma put_each:
  "rtsp_is s v \<Longrightarrow> camera_list v \<Longrightarrow>
   \<exists>s' v'. each (\<lambda>(key, v). bind rtsp_ref (\<lambda>rtsp. bind (of_res (json_put key v rtsp)) set_rtsp)) kvs s = (s', Done ()) \<and>
     rtsp_is s' v' \<and> camera_list v' \<and> only_root s s' \<and> camera_map v' = camera_map v ++ map_of (rev kvs)"
proof (induction kvs arbitrary: s v)
  case Nil
  then show ?case by (auto simp: op_simps only_root_def)
next
  case (Cons kv kvs)
  obtain k x where kv: "kv = (k, x)" by (cases kv)
  obtain r where r: "rtsp_ref s = (s\<lparr>enc_root := r\<rparr>, Done v)" "rtsp_is (s\<lparr>enc_root := r\<rparr>) v"
    using rtsp_ref_run [OF Cons.prems(1)] by blast
  obtain v1 where v1: "json_put k x v = Inr v1" "camera_list v1" "camera_map v1 = (camera_map v)(k \<mapsto> x)"
    using json_put_list [OF Cons.prems(2)] by blast
  obtain r' where r': "set_rtsp v1 (s\<lparr>enc_root := r\<rparr>) = (s\<lparr>enc_root := r'\<rparr>, Done ())" "rtsp_is (s\<lparr>enc_root := r'\<rparr>) v1"
    using set_rtsp_run [OF r(2), of v1] by auto
  obtain s' v' where ih: "each (\<lambda>(key, v). bind rtsp_ref (\<lambda>rtsp. bind (of_res (json_put key v rtsp)) set_rtsp)) kvs (s\<lparr>enc_root := r'\<rparr>) = (s', Done ())"
    "rtsp_is s' v'" "camera_list v'" "only_root (s\<lparr>enc_root := r'\<rparr>) s'" "camera_map v' = camera_map v1 ++ map_of (rev kvs)"
    using Cons.IH [OF r'(2) v1(2)] by blast
  have "each (\<lambda>(key, v). bind rtsp_ref (\<lambda>rtsp. bind (of_res (json_put key v rtsp)) set_rtsp)) (kv # kvs) s = (s', Done ())"
    using r(1) v1(1) r'(1) ih(1) by (simp add: kv op_simps)
  moreover have "camera_map v' = camera_map v ++ map_of (rev (kv # kvs))" by (simp add: ih(5) v1(3) kv)
  ultimately show ?case
    using ih(2,3) only_root_trans [OF only_root_enc ih(4)] by blast
qed

lemma dump_and_save_run: "dump_and_save (\<lambda>j. Inr (pr j)) True s =
   (s\<lparr>rw_writer := False, stats_file := Some (pr (enc_root s))\<rparr>, Done ())"
  by (simp add: dump_and_save_def saveFile_def wrunlock_def op_simps)

lemma wrlock_run: "unlocked s \<Longrightarrow> wrlock s = (s\<lparr>rw_writer := True, rw_owner := this_thread s\<rparr>, Done ())"
  by (simp add: wrlock_def unlocked_def)

lemma rdlock_run: "unlocked s \<Longrightarrow> rdlock s = (s\<lparr>rw_readers := 1\<rparr>, Done ())"
  by (simp add: rdlock_def unlocked_def)

lemma rtsp_is_lock [simp]:
  "rtsp_is (s\<lparr>rw_writer := w\<rparr>) v = rtsp_is s v" "rtsp_is (s\<lparr>rw_readers := n\<rparr>) v = rtsp_is s v"
  "rtsp_is (s\<lparr>stats_file := f\<rparr>) v = rtsp_is s v" "rtsp_is (s\<lparr>rw_owner := t\<rparr>) v = rtsp_is s v"
  "rtsp_is (s\<lparr>this_thread := t\<rparr>) v = rtsp_is s v"
  by (simp_all add: rtsp_is_def)

lemma postNode_run:
  assumes "cameras_ok s"
  shows "\<exists>s'. postNode (\<lambda>j. Inr (pr j)) True node s = (s', Done ()) \<and> unlocked s' \<and> rtsp_is s' node \<and>
    stats_file s' = Some (pr (enc_root s'))"
proof -
  obtain v where v: "unlocked s" "rtsp_is s v" using assms by (auto simp: cameras_ok_iff)
  let ?s = "s\<lparr>rw_writer := True, rw_owner := this_thread s\<rparr>"
  obtain r where "set_rtsp node ?s = (?s\<lparr>enc_root := r\<rparr>, Done ())" "rtsp_is (?s\<lparr>enc_root := r\<rparr>) node"
    using set_rtsp_run [of ?s v node] v by auto
  then show ?thesis using v(1) wrlock_run [OF v(1)]
    by (simp add: postNode_def op_simps dump_and_save_run unlocked_def rtsp_is_def)
qed

lemma putNode_run:
  assumes "cameras_ok s"
  shows "\<exists>s'. putNode (\<lambda>j. Inr (pr j)) True node s = (s', Done (json_items node \<noteq> [], map fst (json_items node))) \<and>
    cameras_ok s' \<and> cams s' = cams s ++ map_of (rev (json_items node)) \<and>
    stats_file s' = Some (pr (enc_root s'))"
proof -
  obtain v where v: "unlocked s" "rtsp_is s v" "camera_list v" using assms by (auto simp: cameras_ok_iff)
  let ?s = "s\<lparr>rw_writer := True, rw_owner := this_thread s\<rparr>"
  obtain r where r: "rtsp_ref ?s = (?s\<lparr>enc_root := r\<rparr>, Done v)" "rtsp_is (?s\<lparr>enc_root := r\<rparr>) v"
    using rtsp_ref_run [of ?s v] v by auto
  obtain s' v' where e: "each (\<lambda>(key, v). bind rtsp_ref (\<lambda>rtsp. bind (of_res (json_put key v rtsp)) set_rtsp)) (json_items node)
      (?s\<lparr>enc_root := r\<rparr>) = (s', Done ())" "rtsp_is s' v'" "camera_list v'" "only_root (?s\<lparr>enc_root := r\<rparr>) s'"
      "camera_map v' = camera_map v ++ map_of (rev (json_items node))"
    using put_each [OF r(2) v(3)] by metis
  have run: "putNode (\<lambda>j. Inr (pr j)) True node s =
      (s'\<lparr>rw_writer := False, stats_file := Some (pr (enc_root s'))\<rparr>, Done (json_items node \<noteq> [], map fst (json_items node)))"
    using wrlock_run [OF v(1)] r(1) e(1) by (simp add: putNode_def op_simps dump_and_save_run)
  have "unlocked (s'\<lparr>rw_writer := False, stats_file := Some (pr (enc_root s'))\<rparr>)"
    using e(4) v(1) by (simp add: only_root_def unlocked_def)
  moreover have rt: "rtsp_is (s'\<lparr>rw_writer := False, stats_file := Some (pr (enc_root s'))\<rparr>) v'" using e(2) by simp
  ultimately show ?thesis
    using run e cams_rtsp [OF v(2)] cams_rtsp [OF rt] by (auto simp: cameras_ok_iff)
qed

text \<open>The names found are erased and reported once each.\<close>

lemma erase_names_run:
  "rtsp_is s v \<Longrightarrow> camera_list v \<Longrightarrow>
   \<exists>s' v' gone. erase_names (map Inr ks @ rest) s =
       (let (s'', out) = erase_names rest s' in (s'', case out of Done g \<Rightarrow> Done (gone @ g) | Throws e \<Rightarrow> Throws e | Blocked \<Rightarrow> Blocked)) \<and>
     rtsp_is s' v' \<and> camera_list v' \<and> only_root s s' \<and> camera_map v' = camera_map v |` (- set ks) \<and>
     set gone = set ks \<inter> dom (camera_map v) \<and> distinct gone"
proof (induction ks arbitrary: s v)
  case Nil
  have "erase_names rest s = (let (s'', out) = erase_names rest s in (s'', case out of Done g \<Rightarrow> Done ([] @ g) | Throws e \<Rightarrow> Throws e | Blocked \<Rightarrow> Blocked))"
    by (simp split: prod.splits outcome.splits)
  moreover have "camera_map v |` (- set []) = camera_map v" by (simp add: restrict_map_def)
  ultimately show ?case using Nil by (intro exI [of _ s] exI [of _ v] exI [of _ "[]"]) (simp add: only_root_def)
next
  case (Cons k ks)
  obtain r where r: "rtsp_ref s = (s\<lparr>enc_root := r\<rparr>, Done v)" "rtsp_is (s\<lparr>enc_root := r\<rparr>) v"
    using rtsp_ref_run [OF Cons.prems(1)] by blast
  have f: "json_find k v = camera_map v k" using Cons.prems(2) by (cases v) (auto simp: camera_list_def camera_map_def)
  show ?case
  proof (cases "camera_map v k")
    case None
    have "camera_map v |` (- set (k # ks)) = camera_map v |` (- set ks)" using None by (auto simp: restrict_map_def fun_eq_iff)
    moreover have "set (k # ks) \<inter> dom (camera_map v) = set ks \<inter> dom (camera_map v)" using None by auto
    ultimately show ?thesis
      using Cons.IH [OF r(2) Cons.prems(2)] r f None only_root_trans [OF only_root_enc] by (fastforce simp: op_simps)
  next
    case (Some x)
    then obtain kvs where kvs: "v = Object kvs" by (cases v) (auto simp: camera_map_def)
    let ?v = "Object (obj_erase k kvs)"
    obtain r' where r': "set_rtsp ?v (s\<lparr>enc_root := r\<rparr>) = (s\<lparr>enc_root := r'\<rparr>, Done ())" "rtsp_is (s\<lparr>enc_root := r'\<rparr>) ?v"
      using set_rtsp_run [OF r(2), of ?v] by auto
    have c: "camera_list ?v" "camera_map ?v = (camera_map v)(k := None)" by (simp_all add: camera_list_def camera_map_def kvs)
    obtain s' v' gone where ih: "erase_names (map Inr ks @ rest) (s\<lparr>enc_root := r'\<rparr>) =
       (let (s'', out) = erase_names rest s' in (s'', case out of Done g \<Rightarrow> Done (gone @ g) | Throws e \<Rightarrow> Throws e | Blocked \<Rightarrow> Blocked))"
      "rtsp_is s' v'" "camera_list v'" "only_root (s\<lparr>enc_root := r'\<rparr>) s'" "camera_map v' = camera_map ?v |` (- set ks)"
      "set gone = set ks \<inter> dom (camera_map ?v)" "distinct gone"
      using Cons.IH [OF r'(2) c(1)] by metis
    have m: "camera_map ?v |` (- set ks) = camera_map v |` (- set (k # ks))" by (auto simp: c(2) restrict_map_def fun_eq_iff)
    have g: "set (k # gone) = set (k # ks) \<inter> dom (camera_map v)" "distinct (k # gone)" using ih(6,7) Some by (auto simp: c(2))
    have "erase_names (map Inr (k # ks) @ rest) s = bind (erase_names (map Inr ks @ rest)) (\<lambda>gone. ret (k # gone)) (s\<lparr>enc_root := r'\<rparr>)"
      using r(1) r'(1) f Some by (simp add: op_simps kvs)
    also have "\<dots> = (let (s'', out) = erase_names rest s' in (s'', case out of Done g \<Rightarrow> Done ((k # gone) @ g) | Throws e \<Rightarrow> Throws e | Blocked \<Rightarrow> Blocked))"
      by (simp add: bind_def ih(1) ret_def split: prod.splits outcome.splits)
    finally show ?thesis
      using ih(2-5) m g only_root_trans [OF only_root_enc ih(4)] by (intro exI [of _ s'] exI [of _ v'] exI [of _ "k # gone"]) auto
  qed
qed

lemma deleteNode_run:
  assumes "cameras_ok s" "delete_names node = map Inr ks"
  shows "\<exists>s' gone. deleteNode (\<lambda>j. Inr (pr j)) True node s = (s', Done (gone \<noteq> [], gone)) \<and>
    set gone = set ks \<inter> dom (cams s) \<and> distinct gone \<and>
    cameras_ok s' \<and> cams s' = cams s |` (- set ks) \<and> stats_file s' = Some (pr (enc_root s'))"
proof -
  obtain v where v: "unlocked s" "rtsp_is s v" "camera_list v" using assms(1) by (auto simp: cameras_ok_iff)
  let ?s = "s\<lparr>rw_writer := True, rw_owner := this_thread s\<rparr>"
  obtain r where r: "rtsp_ref ?s = (?s\<lparr>enc_root := r\<rparr>, Done v)" "rtsp_is (?s\<lparr>enc_root := r\<rparr>) v"
    using rtsp_ref_run [of ?s v] v by auto
  obtain s' v' gone where e: "erase_names (map Inr ks @ []) (?s\<lparr>enc_root := r\<rparr>) = (s', Done gone)" "rtsp_is s' v'" "camera_list v'"
      "only_root (?s\<lparr>enc_root := r\<rparr>) s'" "camera_map v' = camera_map v |` (- set ks)" "set gone = set ks \<inter> dom (camera_map v)" "distinct gone"
    using erase_names_run [OF r(2) v(3), of ks "[]"] by (fastforce simp: ret_def)
  have run: "deleteNode (\<lambda>j. Inr (pr j)) True node s =
      (s'\<lparr>rw_writer := False, stats_file := Some (pr (enc_root s'))\<rparr>, Done (gone \<noteq> [], gone))"
    using wrlock_run [OF v(1)] r(1) e(1) by (simp add: deleteNode_def assms(2) op_simps dump_and_save_run)
  have "unlocked (s'\<lparr>rw_writer := False, stats_file := Some (pr (enc_root s'))\<rparr>)"
    using e(4) v(1) by (simp add: only_root_def unlocked_def)
  moreover have rt: "rtsp_is (s'\<lparr>rw_writer := False, stats_file := Some (pr (enc_root s'))\<rparr>) v'" using e(2) by simp
  ultimately show ?thesis
    using run e cams_rtsp [OF v(2)] cams_rtsp [OF rt] by (auto simp: cameras_ok_iff)
qed

lemma getJsonNode_run:
  assumes "cameras_ok s"
  shows "\<exists>s' j. getJsonNode s = (s', Done j) \<and> camera_map j = cams s \<and> cameras_ok s' \<and> cams s' = cams s"
proof -
  obtain v where v: "unlocked s" "rtsp_is s v" "camera_list v" using assms by (auto simp: cameras_ok_iff)
  let ?s = "s\<lparr>rw_readers := 1\<rparr>"
  obtain r where r: "rtsp_ref ?s = (?s\<lparr>enc_root := r\<rparr>, Done v)" "rtsp_is (?s\<lparr>enc_root := r\<rparr>) v"
    using rtsp_ref_run [of ?s v] v by auto
  have run: "getJsonNode s = (?s\<lparr>enc_root := r, rw_readers := 0\<rparr>, Done v)"
    using rdlock_run [OF v(1)] r(1) by (simp add: getJsonNode_def rdunlock_def op_simps)
  have rt: "rtsp_is (?s\<lparr>enc_root := r, rw_readers := 0\<rparr>) v" using r(2) by (simp add: rtsp_is_def)
  have "unlocked (?s\<lparr>enc_root := r, rw_readers := 0\<rparr>)" using v(1) by (simp add: unlocked_def)
  then show ?thesis using run rt v(3) cams_rtsp [OF v(2)] cams_rtsp [OF rt] by (auto simp: cameras_ok_iff)
qed

lemma getNodeState_run:
  assumes "cameras_ok s"
  shows "\<exists>s'. getNodeState cid key s = (s', case cams s cid of None \<Rightarrow> Done None
      | Some cam \<Rightarrow> (case json_find key cam of None \<Rightarrow> Done None
          | Some v \<Rightarrow> (case json_string v of Inr t \<Rightarrow> Done (Some t) | Inl e \<Rightarrow> Throws e))) \<and>
    cams s' = cams s \<and>
    (if cams s cid \<noteq> None \<and> (\<exists>v. json_find key (the (cams s cid)) = Some v \<and> (\<exists>e. json_string v = Inl e))
     then rw_readers s' = 1 \<and> \<not> rw_writer s' else cameras_ok s')"
proof -
  obtain v where v: "unlocked s" "rtsp_is s v" "camera_list v" using assms by (auto simp: cameras_ok_iff)
  let ?s = "s\<lparr>rw_readers := 1\<rparr>"
  obtain r where r: "rtsp_ref ?s = (?s\<lparr>enc_root := r\<rparr>, Done v)" "rtsp_is (?s\<lparr>enc_root := r\<rparr>) v"
    using rtsp_ref_run [of ?s v] v by auto
  have f: "json_find cid v = cams s cid"
    using v(3) cams_rtsp [OF v(2)] by (cases v) (auto simp: camera_list_def camera_map_def)
  have un: "rdunlock (?s\<lparr>enc_root := r\<rparr>) = (?s\<lparr>enc_root := r, rw_readers := 0\<rparr>, Done ())" by (simp add: rdunlock_def op_simps)
  have rt: "rtsp_is (?s\<lparr>enc_root := r, rw_readers := n\<rparr>) v" for n using r(2) by (simp add: rtsp_is_def)
  have after: "cameras_ok (?s\<lparr>enc_root := r, rw_readers := 0\<rparr>)" "cams (?s\<lparr>enc_root := r, rw_readers := n\<rparr>) = cams s"
    "cams (?s\<lparr>enc_root := r\<rparr>) = cams s" for n
    using rt v cams_rtsp [OF v(2)] cams_rtsp [OF r(2)] cams_rtsp [OF rt] by (auto simp: cameras_ok_iff unlocked_def)
  note run = getNodeState_def op_simps rdlock_run [OF v(1)] r(1) f un
  show ?thesis
  proof (cases "cams s cid")
    case None
    then show ?thesis using after by (simp add: run del: One_nat_def)
  next
    case (Some cam)
    show ?thesis
    proof (cases "json_find key cam")
      case None
      then show ?thesis using after Some by (simp add: run del: One_nat_def)
    next
      case (Some w)
      then show ?thesis using after \<open>cams s cid = Some cam\<close> v(1)
        by (cases "json_string w") (simp_all add: run unlocked_def del: One_nat_def)
    qed
  qed
qed

subsection \<open>The interface of the store\<close>

text \<open>What the handlers of the REST interface rely on.\<close>

locale camera_store =
  fixes ok :: "'s \<Rightarrow> bool"
    and view :: "'s \<Rightarrow> string \<rightharpoonup> json"
    and store_put :: "json \<Rightarrow> ('s, bool \<times> string list) op"
    and store_delete :: "json \<Rightarrow> ('s, bool \<times> string list) op"
    and store_get :: "('s, json) op"
  assumes put_law: "ok s \<Longrightarrow> \<exists>s'. store_put node s = (s', Done (json_items node \<noteq> [], map fst (json_items node))) \<and> ok s' \<and>
      view s' = view s ++ map_of (rev (json_items node))"
    and delete_law: "ok s \<Longrightarrow> delete_names node = map Inr ks \<Longrightarrow> \<exists>s' gone. store_delete node s = (s', Done (gone \<noteq> [], gone)) \<and>
      set gone = set ks \<inter> dom (view s) \<and> distinct gone \<and> ok s' \<and> view s' = view s |` (- set ks)"
    and get_law: "ok s \<Longrightarrow> \<exists>s' j. store_get s = (s', Done j) \<and> camera_map j = view s \<and> ok s' \<and> view s' = view s"
begin

lemma put_get: "ok s \<Longrightarrow> \<exists>s' j. bind (store_put node) (\<lambda>_. store_get) s = (s', Done j) \<and> ok s' \<and>
    camera_map j = view s ++ map_of (rev (json_items node))"
  using put_law [of s node] get_law by (fastforce simp: op_simps)

lemma delete_get: "ok s \<Longrightarrow> delete_names node = map Inr ks \<Longrightarrow>
    \<exists>s' j. bind (store_delete node) (\<lambda>_. store_get) s = (s', Done j) \<and> ok s' \<and> camera_map j = view s |` (- set ks)"
  using delete_law [of s node ks] get_law by (fastforce simp: op_simps)

text \<open>What was put can be deleted again: the cameras that were there before are untouched.\<close>

lemma put_delete:
  assumes "ok s" "\<And>k. k \<in> set (map fst kvs) \<Longrightarrow> view s k = None"
  shows "\<exists>s' gone. bind (store_put (Object kvs)) (\<lambda>_. store_delete (Object kvs)) s = (s', Done gone) \<and> ok s' \<and> view s' = view s \<and>
    set (snd gone) = set (map fst kvs)"
proof -
  obtain s1 where s1: "store_put (Object kvs) s = (s1, Done (kvs \<noteq> [], map fst kvs))" "ok s1"
    "view s1 = view s ++ map_of (rev kvs)" using put_law [OF assms(1), of "Object kvs"] by auto
  have names: "delete_names (Object kvs) = map Inr (map fst kvs)" by (simp add: delete_names_def case_prod_beta comp_def)
  obtain s2 gone where s2: "store_delete (Object kvs) s1 = (s2, Done (gone \<noteq> [], gone))"
    "set gone = set (map fst kvs) \<inter> dom (view s1)" "ok s2" "view s2 = view s1 |` (- set (map fst kvs))"
    using delete_law [OF s1(2) names] by auto
  have dom: "dom (map_of (rev kvs)) = set (map fst kvs)" by (simp add: dom_map_of_conv_image_fst)
  have "view s2 = view s"
  proof
    fix k
    show "view s2 k = view s k"
    proof (cases "k \<in> set (map fst kvs)")
      case True
      then show ?thesis using assms(2) by (simp add: s2(4))
    next
      case False
      then have "map_of (rev kvs) k = None" using dom by (auto simp: domIff)
      then show ?thesis using False by (simp add: s2(4) s1(3) map_add_def)
    qed
  qed
  moreover have "set gone = set (map fst kvs)" using dom by (auto simp: s2(2) s1(3))
  ultimately show ?thesis using s1 s2 by (auto simp: op_simps)
qed

end

interpretation settings: camera_store cameras_ok cams "putNode (\<lambda>j. Inr (pr j)) True" "deleteNode (\<lambda>j. Inr (pr j)) True" getJsonNode
  for pr :: "json \<Rightarrow> string"
proof unfold_locales
  fix s node assume "cameras_ok s"
  then show "\<exists>s'. putNode (\<lambda>j. Inr (pr j)) True node s = (s', Done (json_items node \<noteq> [], map fst (json_items node))) \<and>
      cameras_ok s' \<and> cams s' = cams s ++ map_of (rev (json_items node))"
    using putNode_run [of s pr node] by blast
next
  fix s node ks assume "cameras_ok s" "delete_names node = map Inr ks"
  then show "\<exists>s' gone. deleteNode (\<lambda>j. Inr (pr j)) True node s = (s', Done (gone \<noteq> [], gone)) \<and>
      set gone = set ks \<inter> dom (cams s) \<and> distinct gone \<and> cameras_ok s' \<and> cams s' = cams s |` (- set ks)"
    using deleteNode_run [of s node ks pr] by blast
next
  fix s assume "cameras_ok s"
  then show "\<exists>s' j. getJsonNode s = (s', Done j) \<and> camera_map j = cams s \<and> cameras_ok s' \<and> cams s' = cams s"
    by (rule getJsonNode_run)
qed

subsection \<open>Properties\<close>

text \<open>
  C10: The settings are a map from the names of the cameras to their values, kept in the file:
  a change sets every entry of its body, a deletion removes the names it lists and reports
  exactly those that were there, once each, a listing gives the map and changes nothing; after
  a change or a deletion the file holds the text of the settings and the lock is free.
\<close>

theorem settings_refine_map:
  assumes "cameras_ok s" "delete_names node' = map Inr ks"
  shows "(\<exists>s'. putNode (\<lambda>j. Inr (pr j)) True node s = (s', Done (json_items node \<noteq> [], map fst (json_items node))) \<and>
      cameras_ok s' \<and> cams s' = cams s ++ map_of (rev (json_items node)) \<and>
      stats_file s' = Some (pr (enc_root s'))) \<and>
    (\<exists>s' gone. deleteNode (\<lambda>j. Inr (pr j)) True node' s = (s', Done (gone \<noteq> [], gone)) \<and>
      set gone = set ks \<inter> dom (cams s) \<and> distinct gone \<and>
      cameras_ok s' \<and> cams s' = cams s |` (- set ks) \<and> stats_file s' = Some (pr (enc_root s'))) \<and>
    (\<exists>s' j. getJsonNode s = (s', Done j) \<and> camera_map j = cams s \<and> cameras_ok s' \<and> cams s' = cams s)"
  using putNode_run [OF assms(1)] deleteNode_run [OF assms] settings.get_law [OF assms(1)] by blast

theorem settings_refine_map_witness:
  "\<exists>s'. putNode (\<lambda>j. Inr ''x'') True (Object [(''cam1'', Object [])]) cameras_init =
      (s', Done (True, [''cam1''])) \<and> cams s' = Map.empty(''cam1'' \<mapsto> Object [])"
proof -
  have ok: "cameras_ok cameras_init" by (simp add: cameras_ok_def cameras_init_def unlocked_def camera_list_def)
  have e: "cams cameras_init = Map.empty" by (simp add: cams_def cameras_init_def camera_map_def)
  show ?thesis
    using settings_refine_map [OF ok, of "Array [String ''cam1'']" "[''cam1'']" "\<lambda>_. ''x''" "Object [(''cam1'', Object [])]"]
    by (auto simp: delete_names_def e)
qed

text \<open>
  What an operation gets that needs the lock once an exception has left it taken: the thread that took it aborts
  the process, any other waits for ever.
\<close>

definition stuck :: "cameras \<Rightarrow> 'a outcome" where
  "stuck s = (if rw_owner s = this_thread s then Throws Assertion_failed else Blocked)"

lemma writer_blocks:
  assumes "rw_writer s"
  shows "postNode d c node s = (s, stuck s)" "putNode d c node s = (s, stuck s)" "deleteNode d c node s = (s, stuck s)"
    "getJsonNode s = (s, stuck s)" "getNode d s = (s, stuck s)" "setNodeState d c cid st s = (s, stuck s)"
    "getNodeState cid key s = (s, stuck s)" "getJsonNodeState cid s = (s, stuck s)"
  using assms by (simp_all add: postNode_def putNode_def deleteNode_def getJsonNode_def getNode_def setNodeState_def
      getNodeState_def getJsonNodeState_def wrlock_def rdlock_def stuck_def op_simps)

lemma bind_stuck [op_simps]: "m s = (s', stuck c) \<Longrightarrow> bind m f s = (s', stuck c)"
  by (simp add: stuck_def op_simps)

lemma readers_block_writers:
  assumes "rw_readers s > 0" "\<not> rw_writer s"
  shows "postNode d c node s = (s, Blocked)" "putNode d c node s = (s, Blocked)" "deleteNode d c node s = (s, Blocked)"
    "setNodeState d c cid st s = (s, Blocked)"
  using assms by (simp_all add: postNode_def putNode_def deleteNode_def setNodeState_def wrlock_def op_simps)

lemma deleteNode_throws:
  assumes "cameras_ok s" "delete_names node = map Inr ks @ Inl e # rest"
  shows "\<exists>s'. deleteNode d c node s = (s', Throws e) \<and> rw_writer s' \<and> rw_owner s' = this_thread s \<and> this_thread s' = this_thread s"
proof -
  obtain v where v: "unlocked s" "rtsp_is s v" "camera_list v" using assms(1) by (auto simp: cameras_ok_iff)
  let ?s = "s\<lparr>rw_writer := True, rw_owner := this_thread s\<rparr>"
  obtain r where r: "rtsp_ref ?s = (?s\<lparr>enc_root := r\<rparr>, Done v)" "rtsp_is (?s\<lparr>enc_root := r\<rparr>) v"
    using rtsp_ref_run [of ?s v] v by auto
  obtain s' where e: "erase_names (map Inr ks @ Inl e # rest) (?s\<lparr>enc_root := r\<rparr>) = (s', Throws e)" "only_root (?s\<lparr>enc_root := r\<rparr>) s'"
    using erase_names_run [OF r(2) v(3), of ks "Inl e # rest"] by (auto simp: op_simps)
  then show ?thesis
    using wrlock_run [OF v(1)] r(1) by (simp add: deleteNode_def assms(2) op_simps only_root_def)
qed

lemma putNode_throws:
  assumes "unlocked s" "rtsp_is s (Array xs)" "json_items node \<noteq> []"
  shows "\<exists>s' e. putNode d c node s = (s', Throws e) \<and> rw_writer s' \<and> rw_owner s' = this_thread s \<and> this_thread s' = this_thread s"
proof -
  let ?s = "s\<lparr>rw_writer := True, rw_owner := this_thread s\<rparr>"
  obtain r where r: "rtsp_ref ?s = (?s\<lparr>enc_root := r\<rparr>, Done (Array xs))" "rtsp_is (?s\<lparr>enc_root := r\<rparr>) (Array xs)"
    using rtsp_ref_run [of ?s "Array xs"] assms(2) by auto
  obtain r' where r': "rtsp_ref (?s\<lparr>enc_root := r\<rparr>) = (?s\<lparr>enc_root := r'\<rparr>, Done (Array xs))"
    using rtsp_ref_run [OF r(2)] by auto
  obtain k x kvs where "json_items node = (k, x) # kvs" using assms(3) by (cases "json_items node") auto
  then show ?thesis
    using wrlock_run [OF assms(1)] r(1) r' by (simp add: putNode_def op_simps json_put_def)
qed

text \<open>
  Two requests with bodies that are JSON but not what is expected leave the lock of the settings held by a
  writer that is gone: deleting a list that holds anything but strings, and putting a camera after a list has
  been posted. Each throws after it has locked and before it unlocks; what follows is \<open>writer_blocks\<close>.
\<close>

lemma exceptions_keep_the_lock:
  assumes "cameras_ok s" "node = Array (map String ks @ x # xs)" "json_string x = Inl e" "json_items node' \<noteq> []"
  shows "\<exists>s'. deleteNode d c node s = (s', Throws e) \<and> rw_writer s' \<and> rw_owner s' = this_thread s"
    and "\<exists>s' e'. bind (postNode (\<lambda>j. Inr (pr j)) True (Array ys)) (\<lambda>_. putNode d c node') s = (s', Throws e') \<and> rw_writer s'"
proof -
  have "delete_names node = map Inr ks @ Inl e # map json_string xs"
    using assms(2,3) by (simp add: delete_names_def comp_def)
  then show "\<exists>s'. deleteNode d c node s = (s', Throws e) \<and> rw_writer s' \<and> rw_owner s' = this_thread s"
    using deleteNode_throws [OF assms(1)] by blast
  obtain s1 where s1: "postNode (\<lambda>j. Inr (pr j)) True (Array ys) s = (s1, Done ())" "unlocked s1" "rtsp_is s1 (Array ys)"
    using postNode_run [OF assms(1)] by blast
  then show "\<exists>s' e'. bind (postNode (\<lambda>j. Inr (pr j)) True (Array ys)) (\<lambda>_. putNode d c node') s = (s', Throws e') \<and> rw_writer s'"
    using putNode_throws [OF s1(2,3) assms(4)] by (fastforce simp: op_simps)
qed

end
