(* ===== verification/Token_Digest.thy ===== *)
theory Token_Digest
  imports Sha1
begin

text \<open>
  The digests of the security tokens (\<open>base/token/Digest.cpp\<close>): MD5 and a second SHA-1, which copies the
  block before it expands the schedule. Both take the message in updates of any length; lengths are
  \<open>uint32_t\<close> in the source, and the counts of bits are kept in two words of 32 bits here as there. The positions
  in a buffer are natural numbers: they agree with the source for buffers below $2^{32} - 128$ bytes, above
  which \<open>i + 63\<close> wraps around. \<open>big\<close> is the byte order of the host. The references are RFC 1321 and FIPS 180-1.
\<close>

subsection \<open>The context\<close>

record 's digest =
  d_state :: 's
  d_count0 :: u32
  d_count1 :: u32
  d_buffer :: "byte list"

definition count_bits :: "byte list \<Rightarrow> 's digest \<Rightarrow> 's digest" where
  "count_bits data d =
     (let len = (word_of_nat (length data) :: u32);
          c0 = d_count0 d + push_bit 3 len;
          c1 = d_count1 d + (if c0 < push_bit 3 len then 1 else 0) + drop_bit 29 len
      in d\<lparr>d_count0 := c0, d_count1 := c1\<rparr>)"

text \<open>The loop \<open>for (; i + 63 < len; i += 64) xform(buf + i)\<close> of both classes.\<close>

function xform_loop :: "('s \<Rightarrow> byte list \<Rightarrow> 's) \<Rightarrow> 's \<Rightarrow> byte list \<Rightarrow> nat \<Rightarrow> 's \<times> nat" where
  "xform_loop xform state data i =
     (if i + 63 < length data then xform_loop xform (xform state (take 64 (drop i data))) data (i + 64)
      else (state, i))"
  by pat_completeness auto
termination
  by (relation "measure (\<lambda>(xform, state, data, i). length data - i)") auto

declare xform_loop.simps [simp del]

subsection \<open>MD5\<close>

definition S11 :: nat where "S11 = 7"
definition S12 :: nat where "S12 = 12"
definition S13 :: nat where "S13 = 17"
definition S14 :: nat where "S14 = 22"
definition S21 :: nat where "S21 = 5"
definition S22 :: nat where "S22 = 9"
definition S23 :: nat where "S23 = 14"
definition S24 :: nat where "S24 = 20"
definition S31 :: nat where "S31 = 4"
definition S32 :: nat where "S32 = 11"
definition S33 :: nat where "S33 = 16"
definition S34 :: nat where "S34 = 23"
definition S41 :: nat where "S41 = 6"
definition S42 :: nat where "S42 = 10"
definition S43 :: nat where "S43 = 15"
definition S44 :: nat where "S44 = 21"

definition md5_F :: "u32 \<Rightarrow> u32 \<Rightarrow> u32 \<Rightarrow> u32" where
  "md5_F x y z = (x AND y) OR (NOT x AND z)"

definition md5_G :: "u32 \<Rightarrow> u32 \<Rightarrow> u32 \<Rightarrow> u32" where
  "md5_G x y z = (x AND z) OR (y AND NOT z)"

definition md5_H :: "u32 \<Rightarrow> u32 \<Rightarrow> u32 \<Rightarrow> u32" where
  "md5_H x y z = x XOR y XOR z"

definition md5_I :: "u32 \<Rightarrow> u32 \<Rightarrow> u32 \<Rightarrow> u32" where
  "md5_I x y z = y XOR (x OR NOT z)"

datatype md5_macro = FF | GG | HH | II

fun md5_aux :: "md5_macro \<Rightarrow> u32 \<Rightarrow> u32 \<Rightarrow> u32 \<Rightarrow> u32" where
  "md5_aux FF = md5_F"
| "md5_aux GG = md5_G"
| "md5_aux HH = md5_H"
| "md5_aux II = md5_I"

type_synonym md5_vars = "u32 \<times> u32 \<times> u32 \<times> u32"

text \<open>
  A line \<open>FF(a, b, c, d, x[k], s, ac)\<close> changes \<open>a\<close>; the next line names the variables moved on by one, which
  is the tuple turned by one. After 64 lines the names are back in place. The list has the lines of \<open>xform\<close>.
\<close>

definition md5_line :: "u32 list \<Rightarrow> md5_vars \<Rightarrow> md5_macro \<times> nat \<times> nat \<times> u32 \<Rightarrow> md5_vars" where
  "md5_line x v line = (case v of (a, b, c, d) \<Rightarrow> case line of (mac, k, s, ac) \<Rightarrow>
     let a = a + md5_aux mac b c d + x ! k + ac;
         a = rol a s;
         a = a + b
     in (d, a, b, c))"

definition md5_lines :: "(md5_macro \<times> nat \<times> nat \<times> u32) list" where
  "md5_lines =
  [(FF, 0, S11, 0xD76AA478), (FF, 1, S12, 0xE8C7B756), (FF, 2, S13, 0x242070DB), (FF, 3, S14, 0xC1BDCEEE),
   (FF, 4, S11, 0xF57C0FAF), (FF, 5, S12, 0x4787C62A), (FF, 6, S13, 0xA8304613), (FF, 7, S14, 0xFD469501),
   (FF, 8, S11, 0x698098D8), (FF, 9, S12, 0x8B44F7AF), (FF, 10, S13, 0xFFFF5BB1), (FF, 11, S14, 0x895CD7BE),
   (FF, 12, S11, 0x6B901122), (FF, 13, S12, 0xFD987193), (FF, 14, S13, 0xA679438E), (FF, 15, S14, 0x49B40821),
   (GG, 1, S21, 0xF61E2562), (GG, 6, S22, 0xC040B340), (GG, 11, S23, 0x265E5A51), (GG, 0, S24, 0xE9B6C7AA),
   (GG, 5, S21, 0xD62F105D), (GG, 10, S22, 0x2441453), (GG, 15, S23, 0xD8A1E681), (GG, 4, S24, 0xE7D3FBC8),
   (GG, 9, S21, 0x21E1CDE6), (GG, 14, S22, 0xC33707D6), (GG, 3, S23, 0xF4D50D87), (GG, 8, S24, 0x455A14ED),
   (GG, 13, S21, 0xA9E3E905), (GG, 2, S22, 0xFCEFA3F8), (GG, 7, S23, 0x676F02D9), (GG, 12, S24, 0x8D2A4C8A),
   (HH, 5, S31, 0xFFFA3942), (HH, 8, S32, 0x8771F681), (HH, 11, S33, 0x6D9D6122), (HH, 14, S34, 0xFDE5380C),
   (HH, 1, S31, 0xA4BEEA44), (HH, 4, S32, 0x4BDECFA9), (HH, 7, S33, 0xF6BB4B60), (HH, 10, S34, 0xBEBFBC70),
   (HH, 13, S31, 0x289B7EC6), (HH, 0, S32, 0xEAA127FA), (HH, 3, S33, 0xD4EF3085), (HH, 6, S34, 0x4881D05),
   (HH, 9, S31, 0xD9D4D039), (HH, 12, S32, 0xE6DB99E5), (HH, 15, S33, 0x1FA27CF8), (HH, 2, S34, 0xC4AC5665),
   (II, 0, S41, 0xF4292244), (II, 7, S42, 0x432AFF97), (II, 14, S43, 0xAB9423A7), (II, 5, S44, 0xFC93A039),
   (II, 12, S41, 0x655B59C3), (II, 3, S42, 0x8F0CCC92), (II, 10, S43, 0xFFEFF47D), (II, 1, S44, 0x85845DD1),
   (II, 8, S41, 0x6FA87E4F), (II, 15, S42, 0xFE2CE6E0), (II, 6, S43, 0xA3014314), (II, 13, S44, 0x4E0811A1),
   (II, 4, S41, 0xF7537E82), (II, 11, S42, 0xBD3AF235), (II, 2, S43, 0x2AD7D2BB), (II, 9, S44, 0xEB86D391)]"

definition u32to8 :: "u32 list \<Rightarrow> nat \<Rightarrow> byte list" where
  "u32to8 inp nbytes = concat (map (\<lambda>i. let k = inp ! i in
     [ucast (k AND 0xFF), ucast (drop_bit 8 k AND 0xFF), ucast (drop_bit 16 k AND 0xFF), ucast (drop_bit 24 k AND 0xFF)])
     [0..<nbytes div 4])"

definition u8to32 :: "byte list \<Rightarrow> nat \<Rightarrow> u32 list" where
  "u8to32 inp nbytes = map (\<lambda>i. let j = 4 * i in
     ucast (inp ! j) OR push_bit 8 (ucast (inp ! (j + 1))) OR push_bit 16 (ucast (inp ! (j + 2)))
       OR push_bit 24 (ucast (inp ! (j + 3)))) [0..<nbytes div 4]"

definition MD5_xform :: "md5_vars \<Rightarrow> byte list \<Rightarrow> md5_vars" where
  "MD5_xform state buf = (case foldl (md5_line (u8to32 buf 64)) state md5_lines of (a, b, c, d) \<Rightarrow>
     case state of (s0, s1, s2, s3) \<Rightarrow> (s0 + a, s1 + b, s2 + c, s3 + d))"

text \<open>\<open>init\<close> leaves the buffer as it is.\<close>

definition MD5_init :: "byte list \<Rightarrow> md5_vars digest" where
  "MD5_init garbage =
     \<lparr>d_state = (0x67452301, 0xEFCDAB89, 0x98BADCFE, 0x10325476), d_count0 = 0, d_count1 = 0, d_buffer = garbage\<rparr>"

definition MD5_update :: "md5_vars digest \<Rightarrow> byte list \<Rightarrow> md5_vars digest" where
  "MD5_update d input =
     (let len = length input;
          idx = unat (drop_bit 3 (d_count0 d) AND 0x3F);
          d = count_bits input d;
          partLen = 64 - idx
      in if len \<ge> partLen
         then (let buffer = store (d_buffer d) idx (take partLen input);
                   state = MD5_xform (d_state d) buffer
               in case xform_loop MD5_xform state input partLen of
                    (state, i) \<Rightarrow> d\<lparr>d_state := state, d_buffer := store buffer 0 (drop i input)\<rparr>)
         else d\<lparr>d_buffer := store (d_buffer d) idx input\<rparr>)"

definition PADDING :: "byte list" where
  "PADDING = 0x80 # replicate 63 0"

definition md5_vars_list :: "md5_vars \<Rightarrow> u32 list" where
  "md5_vars_list s = (case s of (a, b, c, d) \<Rightarrow> [a, b, c, d])"

definition MD5_final :: "md5_vars digest \<Rightarrow> byte list" where
  "MD5_final d =
     (let bits = u32to8 [d_count0 d, d_count1 d] 8;
          idx = unat (drop_bit 3 (d_count0 d) AND 0x3F);
          padLen = (if idx < 56 then 56 - idx else 120 - idx);
          d = MD5_update d (take padLen PADDING);
          d = MD5_update d bits
      in u32to8 (md5_vars_list (d_state d)) 16)"

subsection \<open>SHA-1\<close>

text \<open>
  \<open>xform\<close> copies the block into the words \<open>l\<close>; its macros are those of \<open>base/src/sha1.cpp\<close>.
\<close>

definition DigestSHA1_xform :: "bool \<Rightarrow> vars \<Rightarrow> byte list \<Rightarrow> vars" where
  "DigestSHA1_xform big state buf =
     (case foldl sha_round (block_words big buf, state) [0..<80] of (l, a, b, c, d, e) \<Rightarrow>
        case state of (s0, s1, s2, s3, s4) \<Rightarrow> (s0 + a, s1 + b, s2 + c, s3 + d, s4 + e))"

definition DigestSHA1_init :: "vars digest" where
  "DigestSHA1_init =
     \<lparr>d_state = (0x67452301, 0xEFCDAB89, 0x98BADCFE, 0x10325476, 0xC3D2E1F0), d_count0 = 0, d_count1 = 0,
      d_buffer = replicate 64 0\<rparr>"

definition DigestSHA1_update :: "bool \<Rightarrow> vars digest \<Rightarrow> byte list \<Rightarrow> vars digest" where
  "DigestSHA1_update big d buf =
     (let len = length buf;
          j = unat (drop_bit 3 (d_count0 d) AND 63);
          d = count_bits buf d
      in if j + len > 63
         then (let i = 64 - j;
                   buffer = store (d_buffer d) j (take i buf);
                   state = DigestSHA1_xform big (d_state d) buffer
               in case xform_loop (DigestSHA1_xform big) state buf i of
                    (state, i) \<Rightarrow> d\<lparr>d_state := state,
                      d_buffer := (if i < len then store buffer 0 (drop i buf) else buffer)\<rparr>)
         else d\<lparr>d_buffer := (if 0 < len then store (d_buffer d) j buf else d_buffer d)\<rparr>)"

lemma count0_DigestSHA1: "d_count0 (DigestSHA1_update big d buf) = d_count0 d + push_bit 3 (word_of_nat (length buf))"
  by (simp add: DigestSHA1_update_def count_bits_def Let_def split: prod.splits)

function (sequential) DigestSHA1_pad :: "bool \<Rightarrow> vars digest \<Rightarrow> vars digest" where
  "DigestSHA1_pad big d =
     (if d_count0 d AND 0x01F8 \<noteq> 0x01C0 then DigestSHA1_pad big (DigestSHA1_update big d [0]) else d)"
  by pat_completeness auto
termination
proof (relation "measure (\<lambda>(big, d). (120 - fill (d_count0 d)) mod 64)", goal_cases)
  case (2 big d)
  then have "fill (d_count0 d) \<noteq> 56" by (simp add: pad_test)
  moreover have "fill (d_count0 d) < 64" by (simp add: fill_def)
  moreover have "push_bit 3 (word_of_nat (length [0 :: byte])) = (8 :: u32)" by simp
  ultimately show ?case using pad_measure [of "fill (d_count0 d)"]
    by (simp only: count0_DigestSHA1 fill_add in_measure split) simp
qed simp

declare DigestSHA1_pad.simps [simp del]

definition DigestSHA1_final :: "bool \<Rightarrow> vars digest \<Rightarrow> byte list" where
  "DigestSHA1_final big d =
     (let finalCount = map (\<lambda>i. ucast (drop_bit ((3 - (i mod 4)) * 8) (if i \<ge> 4 then d_count0 d else d_count1 d) AND 0xFF))
            [0..<8 :: nat];
          d = DigestSHA1_update big d [0x80];
          d = DigestSHA1_pad big d;
          d = DigestSHA1_update big d finalCount
      in map (\<lambda>i. ucast (drop_bit ((3 - (i mod 4)) * 8) (state_list (d_state d) ! (i div 4)) AND 0xFF)) [0..<20 :: nat])"

subsection \<open>RFC 1321\<close>

definition rfc_K :: "u32 list" where
  "rfc_K = [0xD76AA478, 0xE8C7B756, 0x242070DB, 0xC1BDCEEE, 0xF57C0FAF, 0x4787C62A, 0xA8304613, 0xFD469501,
   0x698098D8, 0x8B44F7AF, 0xFFFF5BB1, 0x895CD7BE, 0x6B901122, 0xFD987193, 0xA679438E, 0x49B40821,
   0xF61E2562, 0xC040B340, 0x265E5A51, 0xE9B6C7AA, 0xD62F105D, 0x2441453, 0xD8A1E681, 0xE7D3FBC8,
   0x21E1CDE6, 0xC33707D6, 0xF4D50D87, 0x455A14ED, 0xA9E3E905, 0xFCEFA3F8, 0x676F02D9, 0x8D2A4C8A,
   0xFFFA3942, 0x8771F681, 0x6D9D6122, 0xFDE5380C, 0xA4BEEA44, 0x4BDECFA9, 0xF6BB4B60, 0xBEBFBC70,
   0x289B7EC6, 0xEAA127FA, 0xD4EF3085, 0x4881D05, 0xD9D4D039, 0xE6DB99E5, 0x1FA27CF8, 0xC4AC5665,
   0xF4292244, 0x432AFF97, 0xAB9423A7, 0xFC93A039, 0x655B59C3, 0x8F0CCC92, 0xFFEFF47D, 0x85845DD1,
   0x6FA87E4F, 0xFE2CE6E0, 0xA3014314, 0x4E0811A1, 0xF7537E82, 0xBD3AF235, 0x2AD7D2BB, 0xEB86D391]"

definition rfc_s :: "nat \<Rightarrow> nat" where
  "rfc_s t = [[7, 12, 17, 22], [5, 9, 14, 20], [4, 11, 16, 23], [6, 10, 15, 21]] ! (t div 16) ! (t mod 4)"

definition rfc_g :: "nat \<Rightarrow> nat" where
  "rfc_g t = (if t < 16 then t else if t < 32 then (5 * t + 1) mod 16 else if t < 48 then (3 * t + 5) mod 16 else 7 * t mod 16)"

definition rfc_f :: "nat \<Rightarrow> u32 \<Rightarrow> u32 \<Rightarrow> u32 \<Rightarrow> u32" where
  "rfc_f t x y z = (if t < 16 then (x AND y) OR (NOT x AND z) else if t < 32 then (x AND z) OR (y AND NOT z)
     else if t < 48 then x XOR y XOR z else y XOR (x OR NOT z))"

definition rfc_step :: "u32 list \<Rightarrow> md5_vars \<Rightarrow> nat \<Rightarrow> md5_vars" where
  "rfc_step M v t = (case v of (a, b, c, d) \<Rightarrow>
     (d, b + rol (a + rfc_f t b c d + M ! rfc_g t + rfc_K ! t) (rfc_s t), b, c))"

definition rfc_words :: "byte list \<Rightarrow> u32 list" where
  "rfc_words block = map (\<lambda>i. getLE32 (take 4 (drop (4 * i) block))) [0..<16]"

definition rfc_block :: "md5_vars \<Rightarrow> byte list \<Rightarrow> md5_vars" where
  "rfc_block H block = (case H of (h0, h1, h2, h3) \<Rightarrow>
     case foldl (rfc_step (rfc_words block)) H [0..<64] of (a, b, c, d) \<Rightarrow> (h0 + a, h1 + b, h2 + c, h3 + d))"

fun hash_blocks :: "('s \<Rightarrow> byte list \<Rightarrow> 's) \<Rightarrow> 's \<Rightarrow> byte list \<Rightarrow> 's" where
  "hash_blocks f H msg = (if length msg < 64 then H else hash_blocks f (f H (take 64 msg)) (drop 64 msg))"

declare hash_blocks.simps [simp del]

definition rfc_H0 :: md5_vars where
  "rfc_H0 = (0x67452301, 0xEFCDAB89, 0x98BADCFE, 0x10325476)"

definition rfc_pad :: "byte list \<Rightarrow> byte list" where
  "rfc_pad msg = msg @ [0x80] @ replicate ((119 - length msg mod 64) mod 64) 0
     @ setLE64 [0, 0, 0, 0, 0, 0, 0, 0] (word_of_nat (8 * length msg))"

definition rfc_md5 :: "byte list \<Rightarrow> byte list" where
  "rfc_md5 msg = concat (map (setLE32 [0, 0, 0, 0]) (md5_vars_list (hash_blocks rfc_block rfc_H0 (rfc_pad msg))))"

subsection \<open>What every block digest does\<close>

text \<open>
  Both classes buffer the message and hand on whole blocks. The locale has the update as its operation and,
  as the law, what the code of both updates does with one buffer; \<open>bf\<close> is the block function of the standard.
\<close>

lemma hash_blocks_short: "length m < 64 \<Longrightarrow> hash_blocks f H m = H"
  by (simp add: hash_blocks.simps)

lemma hash_blocks_block: "length b = 64 \<Longrightarrow> hash_blocks f H (b @ m) = hash_blocks f (f H b) m"
  by (simp add: hash_blocks.simps [of f H "b @ m"])

lemma hash_blocks_append:
  "hash_blocks f H (x @ y) = hash_blocks f (hash_blocks f H x) (rest64 x @ y)"
proof (induction "length x" arbitrary: x H rule: less_induct)
  case less
  show ?case
  proof (cases "length x < 64")
    case True
    then show ?thesis by (simp add: hash_blocks_short rest64_short)
  next
    case False
    then obtain b x' where "x = b @ x'" "length b = 64" "length x' < length x" using split_block [of x] by auto
    then show ?thesis using less [of x' "f H b"] by (simp add: hash_blocks_block rest64_block)
  qed
qed

lemma rest64_append: "rest64 (x @ y) = rest64 (rest64 x @ y)"
  using blocks_append by blast

lemma count_bits_word:
  assumes "length data < 2 ^ 32" "d_count0 d = word_of_nat (8 * m)" "d_count1 d = word_of_nat (8 * m div 2 ^ 32)"
  shows "d_count0 (count_bits data d) = word_of_nat (8 * (m + length data))"
    "d_count1 (count_bits data d) = word_of_nat (8 * (m + length data) div 2 ^ 32)"
proof -
  define n where "n = length data"
  define b where "b = 8 * n mod 2 ^ 32"
  have L: "LENGTH(32) = 32" by simp
  have u: "push_bit 3 (word_of_nat n :: u32) = word_of_nat (8 * n)"
    by (simp add: push_bit_eq_mult)
  have n: "unat (push_bit 3 (word_of_nat n :: u32)) = b"
    unfolding u b_def by (simp only: unat_of_nat L)
  show c: "d_count0 (count_bits data d) = word_of_nat (8 * (m + length data))"
    using u assms(2) by (simp add: count_bits_def Let_def n_def)
  have h: "drop_bit 29 (word_of_nat n :: u32) = word_of_nat (n div 2 ^ 29)"
  proof -
    have nn: "n mod 2 ^ 32 = n" using assms(1) by (simp add: n_def)
    have "unat (drop_bit 29 (word_of_nat n :: u32)) = n div 2 ^ 29"
      by (simp only: unat_drop_bit_eq unat_of_nat L nn) (simp only: drop_bit_eq_div)
    then show ?thesis by (metis of_nat_unat ucast_id)
  qed
  have l: "(word_of_nat (8 * (m + n)) < push_bit 3 (word_of_nat n :: u32)) = ((8 * m + b) mod 2 ^ 32 < b)"
    by (simp only: word_less_nat_alt n unat_of_nat L distrib_left b_def mod_add_right_eq)
  have b: "b < 2 ^ 32" by (simp add: b_def)
  have v: "8 * (m + n) div 2 ^ 32 = 8 * m div 2 ^ 32 + (if (8 * m + b) mod 2 ^ 32 < b then 1 else 0) + n div 2 ^ 29"
  proof -
    have q: "8 * n = b + 2 ^ 32 * (n div 2 ^ 29)"
    proof -
      have "8 * n = 8 * n mod (8 * 2 ^ 29) + (8 * 2 ^ 29) * (8 * n div (8 * 2 ^ 29))" by (simp only: mod_mult_div_eq)
      moreover have "8 * n div (8 * 2 ^ 29) = n div 2 ^ 29" by (rule div_mult_mult1) simp
      ultimately show ?thesis by (simp add: b_def)
    qed
    have "8 * (m + n) = (8 * m + b) + 2 ^ 32 * (n div 2 ^ 29)" unfolding distrib_left q by simp
    moreover have "(x + k * q) div k = q + x div k" if "0 < k" for x k q :: nat using that by simp
    ultimately have "8 * (m + n) div 2 ^ 32 = n div 2 ^ 29 + (8 * m + b) div 2 ^ 32" by simp
    then show ?thesis using carry_nat [OF b, of "8 * m"] by simp
  qed
  have "d_count1 (count_bits data d) = d_count1 d + (if word_of_nat (8 * (m + n)) < push_bit 3 (word_of_nat n :: u32) then 1 else 0)
      + drop_bit 29 (word_of_nat n)"
    using c by (simp add: count_bits_def Let_def n_def)
  then show "d_count1 (count_bits data d) = word_of_nat (8 * (m + length data) div 2 ^ 32)"
    unfolding n_def [symmetric] l h assms(3) v by (cases "(8 * m + b) mod 2 ^ 32 < b") simp_all
qed

text \<open>What the context holds after a message: the hash of its whole blocks, the rest of it, and its length in bits.\<close>

definition digested :: "('s \<Rightarrow> byte list \<Rightarrow> 's) \<Rightarrow> 's \<Rightarrow> 's digest \<Rightarrow> byte list \<Rightarrow> bool" where
  "digested bf H0 d m \<longleftrightarrow> d_state d = hash_blocks bf H0 m \<and> length (d_buffer d) = 64 \<and>
     take (length m mod 64) (d_buffer d) = rest64 m \<and>
     d_count0 d = word_of_nat (8 * length m) \<and> d_count1 d = word_of_nat (8 * length m div 2 ^ 32)"

lemma digested_fill: "digested bf H0 d m \<Longrightarrow> unat (drop_bit 3 (d_count0 d) AND 63) = length m mod 64"
proof -
  assume "digested bf H0 d m"
  then have "fill (d_count0 d) = length m mod 64" using fill_word [of "length m"] by (simp add: digested_def)
  moreover have "unat (drop_bit 3 (d_count0 d) AND mask 6) = fill (d_count0 d)"
    by (simp only: unat_and_mask unat_drop_bit_eq fill_def) (simp add: drop_bit_eq_div)
  ultimately show ?thesis by (simp add: mask_numeral)
qed

lemma xform_loop_hash:
  assumes "\<And>s b. length b = 64 \<Longrightarrow> xf s b = bf s b"
  shows "i \<le> length data \<Longrightarrow> \<exists>i'. xform_loop xf s data i = (hash_blocks bf s (drop i data), i') \<and>
     i' \<le> length data \<and> drop i' data = rest64 (drop i data)"
proof (induction "length data - i" arbitrary: s i rule: less_induct)
  case less
  show ?case
  proof (cases "i + 63 < length data")
    case False
    then show ?thesis
      using less.prems by (simp add: xform_loop.simps [of xf s data i] hash_blocks_short rest64_short)
  next
    case True
    let ?b = "take 64 (drop i data)"
    have b: "length ?b = 64" using True by simp
    have h: "length data - (i + 64) < length data - i" "i + 64 \<le> length data" using True by linarith+
    obtain i' where w: "xform_loop xf (bf s ?b) data (i + 64) =
        (hash_blocks bf (bf s ?b) (drop (i + 64) data), i')" "i' \<le> length data" "drop i' data = rest64 (drop (i + 64) data)"
      using less.hyps [OF h, of "bf s ?b"] by blast
    have "drop i data = ?b @ drop (i + 64) data" by (metis append_take_drop_id drop_drop add.commute)
    then have "hash_blocks bf s (drop i data) = hash_blocks bf (bf s ?b) (drop (i + 64) data)"
      "rest64 (drop i data) = rest64 (drop (i + 64) data)"
      using hash_blocks_block [OF b] rest64_block [OF b] by metis+
    then show ?thesis using True w assms [OF b]
      by (simp add: xform_loop.simps [of xf s data i])
  qed
qed

locale block_digest =
  fixes upd :: "'s digest \<Rightarrow> byte list \<Rightarrow> 's digest"
    and xf :: "'s \<Rightarrow> byte list \<Rightarrow> 's"
    and bf :: "'s \<Rightarrow> byte list \<Rightarrow> 's"
  assumes xf_blk: "length b = 64 \<Longrightarrow> xf s b = bf s b"
    and upd_counts: "d_count0 (upd d data) = d_count0 (count_bits data d)" "d_count1 (upd d data) = d_count1 (count_bits data d)"
    and upd_short: "j = unat (drop_bit 3 (d_count0 d) AND 63) \<Longrightarrow> j + length data < 64 \<Longrightarrow>
      length (d_buffer d) = 64 \<Longrightarrow> d_state (upd d data) = d_state d \<and> d_buffer (upd d data) = store (d_buffer d) j data"
    and upd_long: "j = unat (drop_bit 3 (d_count0 d) AND 63) \<Longrightarrow> 64 \<le> j + length data \<Longrightarrow> 
      length (d_buffer d) = 64 \<Longrightarrow> b = store (d_buffer d) j (take (64 - j) data) \<Longrightarrow> length b = 64 \<Longrightarrow>
      xform_loop xf (xf (d_state d) b) data (64 - j) = (s, i) \<Longrightarrow> i \<le> length data \<Longrightarrow>
      d_state (upd d data) = s \<and> d_buffer (upd d data) = store b 0 (drop i data)"
begin

lemma upd_digests:
  assumes "digested bf H0 d m" "length data < 2 ^ 32"
  shows "digested bf H0 (upd d data) (m @ data)"
proof -
  let ?j = "length m mod 64" and ?len = "length data" and ?r = "rest64 m"
  note a = assms(1) [unfolded digested_def]
  have j: "?j = unat (drop_bit 3 (d_count0 d) AND 63)" using digested_fill [OF assms(1)] by simp
  have cnt: "d_count0 (upd d data) = word_of_nat (8 * length (m @ data))"
    "d_count1 (upd d data) = word_of_nat (8 * length (m @ data) div 2 ^ 32)"
    using a upd_counts [of d data] count_bits_word [OF assms(2), of d "length m"] by auto
  have lr: "length ?r = ?j" by (rule length_rest64)
  have bl: "length (d_buffer d) = 64" using a by blast
  show ?thesis
  proof (cases "?j + ?len > 63")
    case False
    then have s: "length (?r @ data) < 64" using lr by simp
    have "d_state (upd d data) = d_state d" "d_buffer (upd d data) = store (d_buffer d) ?j data"
      using upd_short [OF j _ bl, of data] False by auto
    moreover have "rest64 (m @ data) = ?r @ data" "hash_blocks bf H0 (m @ data) = hash_blocks bf H0 m"
      using rest64_append [of m data] hash_blocks_append [of bf H0 m data] hash_blocks_short [OF s] rest64_short [OF s] by auto
    moreover have "length (m @ data) mod 64 = ?j + ?len"
      using length_rest64 [of "m @ data"] calculation(3) lr by simp
    moreover have "length (store (d_buffer d) ?j data) = 64" "take (?j + ?len) (store (d_buffer d) ?j data) = ?r @ data"
      using a False lr by (simp_all add: store_def)
    ultimately show ?thesis using a cnt by (simp add: digested_def)
  next
    case True
    let ?i = "64 - ?j" and ?b = "?r @ take (64 - ?j) data"
    have b: "length ?b = 64" using lr True by simp
    have st: "store (d_buffer d) ?j (take ?i data) = ?b"
      using a True by (simp add: store_def)
    have i: "?i \<le> length data" using True by linarith
    obtain i' where w: "xform_loop xf (bf (d_state d) ?b) data ?i =
        (hash_blocks bf (bf (d_state d) ?b) (drop ?i data), i')" "i' \<le> length data" "drop i' data = rest64 (drop ?i data)"
      using xform_loop_hash [of xf bf ?i data "bf (d_state d) ?b", OF xf_blk i] by blast
    have s: "d_state (upd d data) = hash_blocks bf (bf (d_state d) ?b) (drop ?i data)"
      "d_buffer (upd d data) = store ?b 0 (rest64 (drop ?i data))"
      using upd_long [OF j _ bl st [symmetric] b, of _ i'] True w xf_blk [OF b, of "d_state d"] by auto
    have "?r @ data = ?b @ drop ?i data" by simp
    then have e: "hash_blocks bf H0 (m @ data) = hash_blocks bf (bf (d_state d) ?b) (drop ?i data)"
      "rest64 (m @ data) = rest64 (drop ?i data)"
      using hash_blocks_append [of bf H0 m data] rest64_append [of m data] a hash_blocks_block [OF b] rest64_block [OF b] by metis+
    have "length (rest64 (drop ?i data)) = length (m @ data) mod 64"
      using length_rest64 [of "m @ data"] e(2) by simp
    moreover have "length (m @ data) mod 64 < 64" by simp
    moreover have "length (store b 0 r) = 64 \<and> take (length r) (store b 0 r) = r" if "length b = 64" "length r < 64" for b r
      using that by (simp add: store_def)
    ultimately have "length (store ?b 0 (rest64 (drop ?i data))) = 64"
      "take (length (m @ data) mod 64) (store ?b 0 (rest64 (drop ?i data))) = rest64 (drop ?i data)"
      using b by metis+
    then show ?thesis using s e cnt by (simp add: digested_def)
  qed
qed

lemma upds_digest:
  "digested bf H0 d m \<Longrightarrow> list_all (\<lambda>c. length c < 2 ^ 32) cs \<Longrightarrow> digested bf H0 (foldl upd d cs) (m @ concat cs)"
proof (induction cs arbitrary: d m)
  case (Cons c cs)
  then show ?case using Cons.IH [OF upd_digests [of H0 d m c]] by simp
qed simp

end

subsection \<open>MD5 is RFC 1321\<close>

definition rfc_line :: "nat \<Rightarrow> md5_macro \<times> nat \<times> nat \<times> u32" where
  "rfc_line t = (if t < 16 then FF else if t < 32 then GG else if t < 48 then HH else II, rfc_g t, rfc_s t, rfc_K ! t)"

lemma md5_lines_rfc: "md5_lines = map rfc_line [0..<64]"
  by code_simp

lemma md5_line_rfc: "md5_line M v (rfc_line t) = rfc_step M v t"
  by (simp add: md5_line_def rfc_line_def rfc_step_def rfc_f_def md5_F_def md5_G_def md5_H_def md5_I_def Let_def
      add.commute split: prod.splits)

lemma word_of_bytes: "length p = 4 \<Longrightarrow>
   ucast (p ! 0) OR push_bit 8 (ucast (p ! 1)) OR push_bit 16 (ucast (p ! 2)) OR push_bit 24 (ucast (p ! 3)) = getLE32 p"
  by (auto dest!: list_of_length simp: byte_order_simps ac_simps)

lemma u8to32_words: "length block = 64 \<Longrightarrow> u8to32 block 64 = rfc_words block"
proof (unfold u8to32_def rfc_words_def, rule map_cong)
  show "[0..<64 div 4] = [0..<16]" by simp
  fix i assume "i \<in> set [0..<16 :: nat]" and l: "length block = 64"
  then have i: "4 * i + 4 \<le> 64" by simp
  have p: "length (take 4 (drop (4 * i) block)) = 4" using i l by simp
  show "(let j = 4 * i in ucast (block ! j) OR push_bit 8 (ucast (block ! (j + 1))) OR
      push_bit 16 (ucast (block ! (j + 2))) OR push_bit 24 (ucast (block ! (j + 3)))) = getLE32 (take 4 (drop (4 * i) block))"
    using word_of_bytes [OF p] i l by (simp add: Let_def)
qed

lemma MD5_xform_rfc: "length b = 64 \<Longrightarrow> MD5_xform s b = rfc_block s b"
  by (simp only: MD5_xform_def rfc_block_def u8to32_words md5_lines_rfc foldl_map md5_line_rfc)
     (simp split: prod.splits)

lemma partLen_iff: "(64 - j \<le> n) = (\<not> j + n < 64)" for j n :: nat
  by linarith

interpretation md5: block_digest MD5_update MD5_xform rfc_block
proof unfold_locales
  fix s and b :: "byte list"
  assume "length b = 64"
  then show "MD5_xform s b = rfc_block s b" by (rule MD5_xform_rfc)
next
  fix d :: "md5_vars digest" and data :: "byte list"
  show "d_count0 (MD5_update d data) = d_count0 (count_bits data d)" "d_count1 (MD5_update d data) = d_count1 (count_bits data d)"
    by (simp_all add: MD5_update_def Let_def split: prod.splits)
next
  fix j and d :: "md5_vars digest" and data :: "byte list"
  assume "j = unat (drop_bit 3 (d_count0 d) AND 63)" "j + length data < 64"
  then show "d_state (MD5_update d data) = d_state d \<and> d_buffer (MD5_update d data) = store (d_buffer d) j data"
    by (simp add: MD5_update_def count_bits_def Let_def partLen_iff)
next
  fix j i s and d :: "md5_vars digest" and data b :: "byte list"
  assume "j = unat (drop_bit 3 (d_count0 d) AND 63)" "64 \<le> j + length data" "b = store (d_buffer d) j (take (64 - j) data)"
    "xform_loop MD5_xform (MD5_xform (d_state d) b) data (64 - j) = (s, i)"
  then show "d_state (MD5_update d data) = s \<and> d_buffer (MD5_update d data) = store b 0 (drop i data)"
    by (simp add: MD5_update_def count_bits_def Let_def partLen_iff)
qed

lemma MD5_init_digested: "length garbage = 64 \<Longrightarrow> digested rfc_block rfc_H0 (MD5_init garbage) []"
  by (simp add: digested_def MD5_init_def rfc_H0_def hash_blocks_short rest64_def)

lemma u32to8_bytes:
  "u32to8 [a, b] 8 = setLE32 [0, 0, 0, 0] a @ setLE32 [0, 0, 0, 0] b"
  "u32to8 [a, b, c, d] 16 = concat (map (setLE32 [0, 0, 0, 0]) [a, b, c, d])"
  by (simp_all add: u32to8_def Let_def byte_of_word byte_order_simps upt_rec)

lemma bits_LE: "u32to8 [word_of_nat k, word_of_nat (k div 2 ^ 32)] 8 = setLE64 [0, 0, 0, 0, 0, 0, 0, 0] (word_of_nat k)"
  unfolding u32to8_bytes halves_of_count [of k]
  by (simp add: byte_order_simps, intro conjI; rule bit_word_eqI; simp add: bit_simps)

lemma MD5_padding:
  assumes "digested rfc_block rfc_H0 d m"
  shows "take (if length m mod 64 < 56 then 56 - length m mod 64 else 120 - length m mod 64) PADDING
    = [0x80] @ replicate ((119 - length m mod 64) mod 64) 0"
proof -
  have "length m mod 64 < 64" by simp
  then have "(if k < 56 then 56 - k else 120 - k) = Suc ((119 - k) mod 64) \<and> (119 - k) mod 64 \<le> 63" if "k = length m mod 64" for k
  proof (cases "k < 56")
    case True
    then have "119 - k = (55 - k) + 64" by linarith
    then have "(119 - k) mod 64 = 55 - k" by (simp only: mod_add_self2) simp
    then show ?thesis using True by (simp add: Suc_diff_le [symmetric])
  next
    case False
    moreover have "k < 64" using that by simp
    ultimately have "(119 - k) mod 64 = 119 - k" by simp
    then show ?thesis using False \<open>k < 64\<close> by simp arith
  qed
  then show ?thesis by (simp add: PADDING_def take_Cons')
qed

lemma MD5_digest_rfc:
  assumes "list_all (\<lambda>c. length c < 2 ^ 32) chunks" "length garbage = 64"
  shows "MD5_final (foldl MD5_update (MD5_init garbage) chunks) = rfc_md5 (concat chunks)"
proof -
  let ?m = "concat chunks"
  define d where "d = foldl MD5_update (MD5_init garbage) chunks"
  let ?k = "length ?m mod 64" and ?p = "[0x80] @ replicate ((119 - length ?m mod 64) mod 64) (0 :: byte)"
  have a: "digested rfc_block rfc_H0 d ?m"
    using md5.upds_digest [OF MD5_init_digested [OF assms(2)] assms(1)] by (simp add: d_def)
  have a1: "digested rfc_block rfc_H0 (MD5_update d ?p) (?m @ ?p)"
    by (rule md5.upd_digests [OF a]) (simp add: less_le_trans [OF mod_less_divisor])
  have bits: "u32to8 [d_count0 d, d_count1 d] 8 = setLE64 [0, 0, 0, 0, 0, 0, 0, 0] (word_of_nat (8 * length ?m))"
    using a bits_LE [of "8 * length ?m"] by (simp add: digested_def)
  have a2: "digested rfc_block rfc_H0 (MD5_update (MD5_update d ?p) (u32to8 [d_count0 d, d_count1 d] 8)) (rfc_pad ?m)"
    using md5.upd_digests [OF a1, of "u32to8 [d_count0 d, d_count1 d] 8"]
    by (simp add: bits rfc_pad_def byte_order_simps)
  have out: "u32to8 (md5_vars_list s) 16 = concat (map (setLE32 [0, 0, 0, 0]) (md5_vars_list s))" for s
    by (cases s) (simp add: md5_vars_list_def u32to8_bytes)
  have idx: "unat (drop_bit 3 (d_count0 d) AND 63) = ?k" by (rule digested_fill [OF a])
  have "MD5_final d = u32to8 (md5_vars_list (d_state (MD5_update (MD5_update d ?p) (u32to8 [d_count0 d, d_count1 d] 8)))) 16"
    by (simp only: MD5_final_def Let_def idx MD5_padding [OF a])
  then show ?thesis
    using a2 by (simp only: out rfc_md5_def digested_def d_def)
qed

subsection \<open>The second SHA-1 is FIPS 180-1\<close>

lemma DigestSHA1_xform_fips: "length b = 64 \<Longrightarrow> DigestSHA1_xform False s b = fips_block s b"
proof -
  assume b: "length b = 64"
  have "DigestSHA1_xform big s b = fst (SHA1_Transform big s b)" for big
    by (simp add: DigestSHA1_xform_def SHA1_Transform_def split: prod.splits)
  then show ?thesis using Transform_fips [OF b, of s] by auto
qed

interpretation sha: block_digest "DigestSHA1_update False" "DigestSHA1_xform False" fips_block
proof unfold_locales
  fix s and b :: "byte list"
  assume "length b = 64"
  then show "DigestSHA1_xform False s b = fips_block s b" by (rule DigestSHA1_xform_fips)
next
  fix d :: "vars digest" and data :: "byte list"
  show "d_count0 (DigestSHA1_update False d data) = d_count0 (count_bits data d)"
    "d_count1 (DigestSHA1_update False d data) = d_count1 (count_bits data d)"
    by (simp_all add: DigestSHA1_update_def Let_def split: prod.splits)
next
  fix j and d :: "vars digest" and data :: "byte list"
  assume "j = unat (drop_bit 3 (d_count0 d) AND 63)" "j + length data < 64" "length (d_buffer d) = 64"
  then show "d_state (DigestSHA1_update False d data) = d_state d \<and> d_buffer (DigestSHA1_update False d data) = store (d_buffer d) j data"
    by (simp add: DigestSHA1_update_def count_bits_def Let_def store_def)
next
  fix j i s and d :: "vars digest" and data b :: "byte list"
  assume "j = unat (drop_bit 3 (d_count0 d) AND 63)" "64 \<le> j + length data" "b = store (d_buffer d) j (take (64 - j) data)"
    "xform_loop (DigestSHA1_xform False) (DigestSHA1_xform False (d_state d) b) data (64 - j) = (s, i)"
  then show "d_state (DigestSHA1_update False d data) = s \<and> d_buffer (DigestSHA1_update False d data) = store b 0 (drop i data)"
    by (simp add: DigestSHA1_update_def count_bits_def Let_def store_def)
qed

lemma DigestSHA1_init_digested: "digested fips_block fips_H0 DigestSHA1_init []"
  by (simp add: digested_def DigestSHA1_init_def fips_H0_def hash_blocks_short rest64_def)

lemma DigestSHA1_pad_digested:
  "digested fips_block fips_H0 d m \<Longrightarrow>
   digested fips_block fips_H0 (DigestSHA1_pad False d) (m @ replicate (zeros (length m)) 0)"
proof (induction "zeros (length m)" arbitrary: d m rule: less_induct)
  case less
  have f: "fill (d_count0 d) = length m mod 64"
    using less.prems fill_word [of "length m"] by (simp add: digested_def)
  show ?case
  proof (cases "length m mod 64 = 56")
    case True
    then have "DigestSHA1_pad False d = d" using f by (simp add: DigestSHA1_pad.simps [of False d] pad_test)
    then show ?thesis using less.prems True by (simp add: zeros_def)
  next
    case False
    let ?k = "length m mod 64"
    have p: "DigestSHA1_pad False d = DigestSHA1_pad False (DigestSHA1_update False d [0])"
      using f False by (subst DigestSHA1_pad.simps) (simp add: pad_test)
    have a: "digested fips_block fips_H0 (DigestSHA1_update False d [0]) (m @ [0])"
      using sha.upd_digests [OF less.prems, of "[0]"] by simp
    have k: "length (m @ [0 :: byte]) mod 64 = (?k + 1) mod 64" by (simp add: mod_simps)
    have lt: "zeros (length (m @ [0 :: byte])) < zeros (length m)"
      using pad_measure [of ?k] False unfolding zeros_def k by simp
    have "zeros (length m) = Suc (zeros (length (m @ [0 :: byte])))"
      unfolding zeros_def k using zeros_step [of ?k] False by simp
    then have "(m @ [0]) @ replicate (zeros (length (m @ [0 :: byte]))) 0 = m @ replicate (zeros (length m)) 0"
      by (simp add: replicate_app_Cons_same)
    then show ?thesis using less.hyps [OF lt a] p by simp
  qed
qed

lemma hash_blocks_fips: "hash_blocks fips_block H m = fips_blocks H m"
  by (induction H m rule: fips_blocks.induct) (simp add: fips_blocks.simps hash_blocks.simps [of fips_block])

lemma fips_count_bytes: "map (\<lambda>i. ucast (drop_bit ((3 - (i mod 4)) * 8)
     (if i \<ge> 4 then word_of_nat (8 * n) else word_of_nat (8 * n div 2 ^ 32) :: u32) AND 255)) [0..<8 :: nat]
   = setBE64 [0, 0, 0, 0, 0, 0, 0, 0] (word_of_nat (8 * n))"
  using finalcount_BE [of "\<lparr>sha_state = undefined, count0 = word_of_nat (8 * n), count1 = word_of_nat (8 * n div 2 ^ 32), sha_buffer = []\<rparr>" n]
  by (simp only: finalcount_def SHA1_CTX.select_convs)

lemma DigestSHA1_digest:
  assumes "list_all (\<lambda>c. length c < 2 ^ 32) chunks"
  shows "DigestSHA1_final False (foldl (DigestSHA1_update False) DigestSHA1_init chunks) = fips_sha1 (concat chunks)"
proof -
  let ?m = "concat chunks" and ?u = "DigestSHA1_update False"
  define d where "d = foldl ?u DigestSHA1_init chunks"
  let ?f = "setBE64 [0, 0, 0, 0, 0, 0, 0, 0] (word_of_nat (8 * length ?m)) :: byte list"
  have a: "digested fips_block fips_H0 d ?m"
    using sha.upds_digest [OF DigestSHA1_init_digested assms] by (simp add: d_def)
  have a1: "digested fips_block fips_H0 (?u d [0x80]) (?m @ [0x80])"
    by (rule sha.upd_digests [OF a]) simp
  have z: "zeros (length (?m @ [0x80 :: byte])) = (119 - length ?m mod 64) mod 64"
    using zeros_pad [of "length ?m"] by (simp add: zeros_def)
  have a2: "digested fips_block fips_H0 (DigestSHA1_pad False (?u d [0x80]))
      ((?m @ [0x80]) @ replicate ((119 - length ?m mod 64) mod 64) 0)"
    using DigestSHA1_pad_digested [OF a1] unfolding z .
  have c: "d_count0 d = word_of_nat (8 * length ?m)" "d_count1 d = word_of_nat (8 * length ?m div 2 ^ 32)"
    using a by (simp_all add: digested_def)
  have "digested fips_block fips_H0 (?u (DigestSHA1_pad False (?u d [0x80])) ?f)
      (((?m @ [0x80]) @ replicate ((119 - length ?m mod 64) mod 64) 0) @ ?f)"
    by (rule sha.upd_digests [OF a2]) (simp add: byte_order_simps)
  then have "d_state (?u (DigestSHA1_pad False (?u d [0x80])) ?f) = fips_blocks fips_H0 (fips_pad ?m)"
    by (simp add: digested_def fips_pad_def hash_blocks_fips)
  then show ?thesis
    unfolding d_def [symmetric] DigestSHA1_final_def Let_def c fips_count_bytes fips_sha1_def digest_BE by (simp only:)
qed

text \<open>The test vectors of RFC 1321 for the empty message and for abc.\<close>

lemma rfc_md5_vectors:
  "rfc_md5 [] = [0xD4, 0x1D, 0x8C, 0xD9, 0x8F, 0x00, 0xB2, 0x04, 0xE9, 0x80, 0x09, 0x98, 0xEC, 0xF8, 0x42, 0x7E]"
  "rfc_md5 [0x61, 0x62, 0x63] =
     [0x90, 0x01, 0x50, 0x98, 0x3C, 0xD2, 0x4F, 0xB0, 0xD6, 0x96, 0x3F, 0x7D, 0x28, 0xE1, 0x7F, 0x72]"
  by code_simp+

text \<open>
  C13: For any sequence of updates (each below 2^32 - 128 bytes), the digest that DigestMD5
  gives is the MD5 of RFC 1321 of the whole message, and, on a little endian host, the one
  DigestSHA1 gives is the SHA-1 of FIPS 180-1: the 64 unrolled lines, the schedule in 16
  words, the buffering, the 64 bit count kept in two words and both ways of padding included.
\<close>

theorem token_digests_standard:
  assumes "list_all (\<lambda>c. length c < 2 ^ 32 - 128) chunks" "length garbage = 64"
  shows "MD5_final (foldl MD5_update (MD5_init garbage) chunks) = rfc_md5 (concat chunks) \<and>
    DigestSHA1_final False (foldl (DigestSHA1_update False) DigestSHA1_init chunks) = fips_sha1 (concat chunks)"
proof -
  have "list_all (\<lambda>c. length c < 2 ^ 32) chunks" by (rule list.pred_mono_strong [OF assms(1)]) simp
  then show ?thesis using MD5_digest_rfc [OF _ assms(2)] DigestSHA1_digest by blast
qed

theorem token_digests_standard_witness:
  "MD5_final (foldl MD5_update (MD5_init (replicate 64 7)) [[0x61], [0x62, 0x63]]) =
     [0x90, 0x01, 0x50, 0x98, 0x3C, 0xD2, 0x4F, 0xB0, 0xD6, 0x96, 0x3F, 0x7D, 0x28, 0xE1, 0x7F, 0x72]"
  using token_digests_standard [of "[[0x61], [0x62, 0x63]]" "replicate 64 7"] by (simp add: rfc_md5_vectors)

end
