(* ===== verification/Security_Token.thy ===== *)
theory Security_Token
  imports Token_Digest Text_Encoders String_Util
begin

text \<open>
  The security tokens (\<open>base/token/SecurityToken.cpp\<close>, \<open>H1_SecurityToken.cpp\<close>, \<open>GenToken.cpp\<close>): the text
  \<open>camera^permissions^ptz^live^archive^expiry^H2\<close>, where H1 is the SHA-1 of a key and the fields and H2 the
  SHA-1 of H1 and the expiry. The clock (seconds and microseconds) is an argument, and \<open>big\<close> is the byte order of
  the host. A \<open>char[]\<close> filled by \<open>snprintf\<close> is its text up to the NUL.
\<close>

subsection \<open>Texts\<close>

definition printed :: "nat \<Rightarrow> string \<Rightarrow> string" where
  "printed cap s = take (cap - 1) s"

definition SEPARATOR :: char where "SEPARATOR = CHR ''^''"

text \<open>The loop of both \<open>parse\<close> operations: what is before each separator, and what is left when it is not empty.\<close>

function token_fields :: "string \<Rightarrow> string list" where
  "token_fields s =
     (if s = [] then []
      else if SEPARATOR \<in> set s
      then takeWhile (\<lambda>c. c \<noteq> SEPARATOR) s # token_fields (tl (dropWhile (\<lambda>c. c \<noteq> SEPARATOR) s))
      else [s])"
  by pat_completeness auto
termination
proof (relation "measure length", goal_cases)
  case (2 s)
  moreover have "length (dropWhile (\<lambda>c. c \<noteq> SEPARATOR) s) \<le> length s" by (rule length_dropWhile_le)
  ultimately show ?case by (cases "dropWhile (\<lambda>c. c \<noteq> SEPARATOR) s") auto
qed simp

declare token_fields.simps [simp del]

text \<open>The SHA-1 of a text in hexadecimal digits.\<close>

definition sha1_hex :: "bool \<Rightarrow> string \<Rightarrow> string" where
  "sha1_hex big work =
     (let digest = DigestSHA1_final big (DigestSHA1_update big DigestSHA1_init (bytes_of work))
      in string_of (HexEncoder_encode [] digest True 0 npos))"

subsection \<open>Tokens with H1\<close>

record H1_SecurityToken =
  h1_token :: string
  h1_cameraUID :: string
  h1_permissions :: string
  h1_qosl :: byte
  h1_qosa :: byte
  h1_ptzPriority :: byte
  h1_h1 :: string

definition new_H1_SecurityToken :: "string \<Rightarrow> H1_SecurityToken" where
  "new_H1_SecurityToken token =
     \<lparr>h1_token = token, h1_cameraUID = [], h1_permissions = [], h1_qosl = 0, h1_qosa = 0, h1_ptzPriority = 0, h1_h1 = []\<rparr>"

definition h1_parse :: "H1_SecurityToken \<Rightarrow> (bool \<times> H1_SecurityToken) res" where
  "h1_parse t =
     (if h1_token t = [] then Inr (False, t)
      else (let sdata = token_fields (h1_token t)
            in if length sdata < 6 then Inr (False, t)
               else res_bind (stoi (sdata ! 2)) (\<lambda>ptz. res_bind (stoi (sdata ! 3)) (\<lambda>qosl. res_bind (stoi (sdata ! 4)) (\<lambda>qosa.
                 Inr (True, t\<lparr>h1_cameraUID := sdata ! 0, h1_permissions := sdata ! 1, h1_ptzPriority := word_of_int ptz,
                   h1_qosl := word_of_int qosl, h1_qosa := word_of_int qosa, h1_h1 := sdata ! 5\<rparr>))))))"

definition h1_calculateH2 :: "bool \<Rightarrow> string \<Rightarrow> u32 \<Rightarrow> string" where
  "h1_calculateH2 big H1 expirationTime =
     (let work = printed 2048 (c_str H1 @ itostr (uint expirationTime)) in sha1_hex big work)"

text \<open>The text of a token with its expiry, as \<open>snprintf\<close> puts it together.\<close>

definition token_text :: "H1_SecurityToken \<Rightarrow> u32 \<Rightarrow> string \<Rightarrow> string" where
  "token_text obj expir h2 = printed 2048
     (c_str (h1_cameraUID obj) @ ''^'' @ c_str (h1_permissions obj) @ ''^'' @ itostr (uint (h1_ptzPriority obj)) @ ''^''
      @ itostr (uint (h1_qosl obj)) @ ''^'' @ itostr (uint (h1_qosa obj)) @ ''^'' @ itostr (uint expir) @ ''^'' @ c_str h2)"

definition getSecurityToken :: "bool \<Rightarrow> int \<Rightarrow> string \<Rightarrow> string res" where
  "getSecurityToken big now tokenH1 =
     res_bind (h1_parse (new_H1_SecurityToken tokenH1)) (\<lambda>(ok, obj).
       if ok then (let expir = word_of_int (now + 5 * 60) in Inr (token_text obj expir (h1_calculateH2 big (h1_h1 obj) expir)))
       else Inr [])"

definition calculateH1 :: "bool \<Rightarrow> string \<Rightarrow> string \<Rightarrow> byte \<Rightarrow> byte \<Rightarrow> byte \<Rightarrow> string \<Rightarrow> string" where
  "calculateH1 big uid permissions ptz qosl qosa key =
     (let work = printed 2048 (c_str key @ c_str uid @ c_str permissions @ itostr (uint ptz) @ itostr (uint qosl) @ itostr (uint qosa))
      in sha1_hex big work)"

text \<open>What \<open>parse\<close> returns is ignored.\<close>

definition createSecurityToken ::
  "bool \<Rightarrow> int \<Rightarrow> string \<Rightarrow> string \<Rightarrow> string \<Rightarrow> u64 \<Rightarrow> byte \<Rightarrow> byte \<Rightarrow> byte \<Rightarrow> string res" where
  "createSecurityToken big now uid permissions key sec ptz qosl qosa =
     (let h1 = calculateH1 big uid permissions ptz qosl qosa key;
          token = printed 2048 (c_str uid @ ''^'' @ c_str permissions @ ''^'' @ itostr (uint ptz) @ ''^'' @ itostr (uint qosl) @ ''^''
            @ itostr (uint qosa) @ ''^'' @ c_str h1)
      in res_bind (h1_parse (new_H1_SecurityToken token)) (\<lambda>(_, obj).
           let expir = ucast (word_of_int now + sec);
               h2 = h1_calculateH2 big (h1_h1 obj) expir
           in Inr (token_text obj expir h2)))"

subsection \<open>Tokens with H2\<close>

record MS_SecurityToken =
  m_token :: string
  m_cameraUID :: string
  m_permissions :: string
  m_qosl :: byte
  m_qosa :: byte
  m_ptzPriority :: byte
  m_expirationTime :: u32
  m_h2 :: string

definition new_MS_SecurityToken :: "string \<Rightarrow> MS_SecurityToken" where
  "new_MS_SecurityToken token =
     \<lparr>m_token = token, m_cameraUID = [], m_permissions = [], m_qosl = 0, m_qosa = 0, m_ptzPriority = 0,
      m_expirationTime = 0, m_h2 = []\<rparr>"

definition ms_parse :: "MS_SecurityToken \<Rightarrow> (bool \<times> MS_SecurityToken) res" where
  "ms_parse t =
     (if m_token t = [] then Inr (False, t)
      else (let sdata = token_fields (m_token t)
            in if length sdata < 7 then Inr (False, t)
               else res_bind (stoi (sdata ! 2)) (\<lambda>ptz. res_bind (stoi (sdata ! 3)) (\<lambda>qosl. res_bind (stoi (sdata ! 4)) (\<lambda>qosa.
                 res_bind (stoi (sdata ! 5)) (\<lambda>exp.
                 Inr (True, t\<lparr>m_cameraUID := sdata ! 0, m_permissions := sdata ! 1, m_ptzPriority := word_of_int ptz,
                   m_qosl := word_of_int qosl, m_qosa := word_of_int qosa, m_expirationTime := word_of_int exp,
                   m_h2 := sdata ! 6\<rparr>)))))))"

definition ms_calculateH2 :: "bool \<Rightarrow> string \<Rightarrow> string \<Rightarrow> byte \<Rightarrow> byte \<Rightarrow> byte \<Rightarrow> string \<Rightarrow> u32 \<Rightarrow> string" where
  "ms_calculateH2 big uid permissions ptz qosl qosa key expirationTime =
     (let work = printed 2048 (c_str key @ c_str uid @ c_str permissions @ itostr (uint ptz) @ itostr (uint qosl) @ itostr (uint qosa));
          temp2 = sha1_hex big work;
          work = printed 2048 (c_str temp2 @ itostr (uint expirationTime))
      in sha1_hex big work)"

record verdict =
  v_ok :: bool
  v_emsg :: string
  v_perm :: string
  v_status :: nat
  v_token :: MS_SecurityToken

text \<open>The permission asked for must be one the token has; the loop for RTSP only stops at the first that it has.\<close>

fun rtsp_permission :: "string \<Rightarrow> string \<Rightarrow> unit" where
  "rtsp_permission [] have = ()"
| "rtsp_permission (p # ps) have = (if p \<in> set have then () else rtsp_permission ps have)"

fun http_permission :: "string \<Rightarrow> string \<Rightarrow> bool" where
  "http_permission [] have = True"
| "http_permission (p # ps) have = (if p \<notin> set have then False else http_permission ps have)"

definition validate :: "bool \<Rightarrow> int \<Rightarrow> MS_SecurityToken \<Rightarrow> string \<Rightarrow> string \<Rightarrow> bool \<Rightarrow> verdict res" where
  "validate big now t key perm rtsp =
     res_bind (ms_parse t) (\<lambda>(parsed, t).
       if \<not> parsed then Inr \<lparr>v_ok = False, v_emsg = ''401 Unauthorized'', v_perm = perm, v_status = 401, v_token = t\<rparr>
       else if perm \<noteq> [] \<and> \<not> (if rtsp then (case rtsp_permission perm (m_permissions t) of () \<Rightarrow> True)
                                      else http_permission perm (m_permissions t))
       then Inr \<lparr>v_ok = False, v_emsg = ''403 Forbidden'', v_perm = perm, v_status = 403, v_token = t\<rparr>
       else if uint (m_expirationTime t) < now
       then Inr \<lparr>v_ok = False, v_emsg = ''402 Authorization Expired'', v_perm = perm, v_status = 402, v_token = t\<rparr>
       else (let comp_h2 = ms_calculateH2 big (m_cameraUID t) (m_permissions t) (m_ptzPriority t) (m_qosl t) (m_qosa t) key
                   (m_expirationTime t)
             in if comp_h2 \<noteq> m_h2 t
                then Inr \<lparr>v_ok = False, v_emsg = ''401 Unauthorized'', v_perm = perm, v_status = 401, v_token = t\<rparr>
                else Inr \<lparr>v_ok = True, v_emsg = ''200 OK'', v_perm = (if perm = [] then m_permissions t else perm),
                         v_status = 200, v_token = t\<rparr>))"

definition ms_createSecurityToken :: "string \<Rightarrow> string" where
  "ms_createSecurityToken uid = ''NOT SUPPORTED''"

subsection \<open>Tokens between servers\<close>

text \<open>\<open>%x\<close> prints the low 32 bits of the time and of the microseconds.\<close>

definition hex_digit :: "nat \<Rightarrow> char" where
  "hex_digit d = ''0123456789abcdef'' ! (d mod 16)"

fun hex_number :: "nat \<Rightarrow> string" where
  "hex_number n = (if n < 16 then [hex_digit n] else hex_number (n div 16) @ [hex_digit n])"

declare hex_number.simps [simp del]

definition hex_padded :: "nat \<Rightarrow> nat \<Rightarrow> string" where
  "hex_padded width n = (let s = hex_number n in replicate (width - length s) CHR ''0'' @ s)"

text \<open>\<open>s.substr(s.length() - 10)\<close>: when the subtraction wraps around the position is behind the end.\<close>

definition last_ten :: "string \<Rightarrow> string res" where
  "last_ten s = (if length s < 10 then Inl Out_of_range else Inr (drop (length s - 10) s))"

definition server_digest :: "bool \<Rightarrow> string \<Rightarrow> string \<Rightarrow> byte list" where
  "server_digest big salt value =
     DigestSHA1_final big (DigestSHA1_update big (DigestSHA1_update big DigestSHA1_init (bytes_of salt)) (bytes_of value))"

text \<open>Each turn of the loop over the digest prints into the same place: what is left are the digits of the last byte.\<close>

definition digest_loop :: "byte list \<Rightarrow> string \<Rightarrow> string" where
  "digest_loop digest date = foldl (\<lambda>date b. printed 1024 (hex_padded 2 (unat b))) date digest"

definition createServerToken :: "bool \<Rightarrow> u64 \<Rightarrow> u64 \<Rightarrow> string \<Rightarrow> string res" where
  "createServerToken big tv_sec tv_usec val =
     (let date = printed 1024 (hex_number (unat (ucast tv_sec :: u32)) @ hex_padded 6 (unat (ucast tv_usec :: u32)))
      in res_bind (last_ten date) (\<lambda>salt.
           let digest = server_digest big salt val in Inr (digest_loop digest date)))"

definition isxdigit :: "char \<Rightarrow> bool" where
  "isxdigit c \<longleftrightarrow> c \<in> set ''0123456789abcdefABCDEF''"

definition xdigit_val :: "char \<Rightarrow> nat" where
  "xdigit_val c = (let n = of_char c in if isdigit c then n - 48 else if 97 \<le> n then n - 87 else n - 55)"

text \<open>\<open>sscanf\<close> with \<open>%x\<close>: the digits behind blanks, a sign and \<open>0x\<close>, read as 64 bits of which 32 are stored.\<close>

definition scan_hex :: "string \<Rightarrow> u32 option" where
  "scan_hex s =
     (let s = dropWhile isspace s;
          neg = (s \<noteq> [] \<and> hd s = CHR ''-'');
          s = (if s \<noteq> [] \<and> hd s \<in> set ''+-'' then tl s else s);
          s = (if take 2 s = ''0x'' \<or> take 2 s = ''0X'' then drop 2 s else s);
          ds = takeWhile isxdigit s;
          v = foldl (\<lambda>n c. 16 * n + xdigit_val c) 0 ds
      in if ds = [] then None
         else if v \<ge> 2 ^ 64 then Some (-1)
         else Some (if neg then - word_of_nat v else word_of_nat v))"

text \<open>
  \<open>secs\<close> is a \<open>time_t\<close> of which \<open>sscanf\<close> writes the low half; \<open>garbage\<close> is what it held before.
\<close>

definition isValidServerToken :: "bool \<Rightarrow> u64 \<Rightarrow> u64 \<Rightarrow> string \<Rightarrow> string \<Rightarrow> u32 \<Rightarrow> bool res" where
  "isValidServerToken big now garbage token val timeDiff =
     (let date = (if length token < 40 then token else take (length token - 40) token)
      in res_bind (last_ten date) (\<lambda>salt.
           let seconds = take (length date - 6) date;
               secs = (case scan_hex (c_str seconds) of None \<Rightarrow> garbage
                       | Some w \<Rightarrow> (garbage AND NOT (mask 32)) OR ucast w);
               diff = sint (now - secs)
           in if \<bar>diff\<bar> > uint timeDiff then Inr False
              else (let digest = server_digest big salt val;
                        tmpDate = digest_loop digest []
                    in Inr (tmpDate = token))))"

subsection \<open>Printing and reading the fields\<close>

text \<open>A text that can stand in a field: no separator and no NUL, so that neither the scan nor a \<open>char*\<close> cuts it.\<close>

definition field_ok :: "string \<Rightarrow> bool" where
  "field_ok s \<longleftrightarrow> SEPARATOR \<notin> set s \<and> CHR 0x00 \<notin> set s"

lemma c_str_id: "CHR 0x00 \<notin> set s \<Longrightarrow> c_str s = s"
  by (simp add: c_str_def takeWhile_eq_all_conv) blast

lemma c_str_field: "field_ok s \<Longrightarrow> c_str s = s"
  by (simp add: field_ok_def c_str_id)

lemma token_fields_first: "field_ok a \<Longrightarrow> token_fields (a @ ''^'' @ s) = a # token_fields s"
proof -
  assume "field_ok a"
  then have a: "c \<noteq> SEPARATOR" if "c \<in> set a" for c using that by (auto simp: field_ok_def)
  have "takeWhile (\<lambda>c. c \<noteq> SEPARATOR) (a @ ''^'' @ s) = a" "dropWhile (\<lambda>c. c \<noteq> SEPARATOR) (a @ ''^'' @ s) = ''^'' @ s"
    using a by (simp_all add: SEPARATOR_def takeWhile_append2 dropWhile_append2)
  moreover have "SEPARATOR \<in> set (a @ ''^'' @ s)" "a @ ''^'' @ s \<noteq> []" "tl (''^'' @ s) = s" by (simp_all add: SEPARATOR_def)
  ultimately show ?thesis
    by (subst token_fields.simps) (simp only: if_True if_False simp_thms)
qed

lemma token_fields_end: "field_ok a \<Longrightarrow> a \<noteq> [] \<Longrightarrow> token_fields a = [a]"
  by (simp add: token_fields.simps [of a] field_ok_def)

lemma field_ok_digits: "list_all isdigit s \<Longrightarrow> field_ok s"
  by (auto simp: field_ok_def list_all_iff isdigit_def SEPARATOR_def Let_def)

lemma itostr_field: "0 \<le> n \<Longrightarrow> field_ok (itostr n)" "0 \<le> n \<Longrightarrow> itostr n \<noteq> []"
  using field_ok_digits [OF digits_itostr_nat] by (simp_all add: itostr_def itostr_nat_not_Nil)

lemma length_itostr_nat: "n < 10 ^ Suc k \<Longrightarrow> length (itostr_nat n) \<le> Suc k"
proof (induction k arbitrary: n)
  case 0
  then show ?case by (simp add: itostr_nat.simps)
next
  case (Suc k)
  have "n div 10 < 10 ^ Suc k" using Suc.prems by (simp add: div_less_iff_less_mult mult.commute)
  then show ?case using Suc.IH [of "n div 10"] by (simp add: itostr_nat.simps [of n])
qed

lemma length_itostr_byte: "length (itostr (uint (b :: byte))) \<le> 3"
proof -
  have "unat b < 256" using unsigned_less [of b, where 'a=nat] by simp
  then show ?thesis using length_itostr_nat [of "unat b" 2] by (simp add: itostr_def flip: unat_eq_nat_uint)
qed

lemma length_itostr_u32: "length (itostr (uint (b :: u32))) \<le> 10"
proof -
  have "unat b < 2 ^ 32" using unsigned_less [of b, where 'a=nat] by (simp del: unsigned_less)
  then show ?thesis using length_itostr_nat [of "unat b" 9] by (simp add: itostr_def flip: unat_eq_nat_uint)
qed

lemma stoi_byte: "stoi (itostr (uint (b :: byte))) = Inr (uint b)"
proof (rule stoi_itostr)
  show "int_min \<le> uint b" by (simp add: int_min_def order_trans [of _ 0])
  have "uint b < 256" using unsigned_less [of b, where 'a=int] by simp
  then show "uint b \<le> int_max" by (simp add: int_max_def)
qed

lemma set_hex_byte: "set (hex_byte hex_lower c) \<subseteq> set hex_lower"
proof -
  have "length hex_lower = 16" by (simp add: hex_lists)
  then show ?thesis using nibble_bounds [of c] by (simp add: hex_byte_def)
qed

lemma hex_text: "string_of (HexEncoder_encode [] bs True 0 npos) = string_of (concat (map (hex_byte hex_lower) bs))"
  by (cases bs) (simp_all add: HexEncoder_encode_def range_end_def)

lemma sha1_hex_text: "length (sha1_hex big s) = 40" "set (sha1_hex big s) \<subseteq> set ''0123456789abcdef''"
proof -
  define bs where "bs = DigestSHA1_final big (DigestSHA1_update big DigestSHA1_init (bytes_of s))"
  have s: "sha1_hex big s = string_of (concat (map (hex_byte hex_lower) bs))" "length bs = 20"
    by (simp add: sha1_hex_def Let_def hex_text bs_def) (simp add: DigestSHA1_final_def Let_def bs_def)
  then show "length (sha1_hex big s) = 40" by (simp add: string_of_def length_hex_bytes)
  have "set (concat (map (hex_byte hex_lower) bs)) \<subseteq> set hex_lower" using set_hex_byte by fastforce
  then have "set (sha1_hex big s) \<subseteq> set (string_of hex_lower)" unfolding s(1) string_of_def by auto
  then show "set (sha1_hex big s) \<subseteq> set ''0123456789abcdef''" by (simp only: hex_lower_def string_of_bytes_of)
qed

lemma sha1_hex_field: "field_ok (sha1_hex big s)" "sha1_hex big s \<noteq> []"
proof -
  show "field_ok (sha1_hex big s)" using sha1_hex_text(2) [of big s] by (auto simp: field_ok_def SEPARATOR_def)
  show "sha1_hex big s \<noteq> []" using sha1_hex_text(1) [of big s] by auto
qed

lemma printed_id: "length s < cap \<Longrightarrow> printed cap s = s"
  by (simp add: printed_def)

text \<open>The text of a token with its fields in place, which is what is read back.\<close>

definition token_line :: "string \<Rightarrow> string \<Rightarrow> byte \<Rightarrow> byte \<Rightarrow> byte \<Rightarrow> string \<Rightarrow> string" where
  "token_line uid perm ptz qosl qosa rest =
     uid @ ''^'' @ perm @ ''^'' @ itostr (uint ptz) @ ''^'' @ itostr (uint qosl) @ ''^'' @ itostr (uint qosa) @ ''^'' @ rest"

lemma token_line_fields: "field_ok uid \<Longrightarrow> field_ok perm \<Longrightarrow>
   token_fields (token_line uid perm ptz qosl qosa rest) =
     uid # perm # itostr (uint ptz) # itostr (uint qosl) # itostr (uint qosa) # token_fields rest"
  by (simp only: token_line_def token_fields_first itostr_field unsigned_greater_eq)

lemma token_line_not_Nil: "token_line uid perm ptz qosl qosa rest \<noteq> []"
  by (simp add: token_line_def)

lemma length_token_line:
  "length (token_line uid perm ptz qosl qosa rest) \<le> length uid + length perm + length rest + 14"
  using length_itostr_byte [of ptz] length_itostr_byte [of qosl] length_itostr_byte [of qosa] by (simp add: token_line_def)

lemma h1_parse_line:
  assumes "field_ok uid" "field_ok perm" "field_ok h1" "h1 \<noteq> []"
  shows "h1_parse (new_H1_SecurityToken (token_line uid perm ptz qosl qosa h1)) =
    Inr (True, \<lparr>h1_token = token_line uid perm ptz qosl qosa h1, h1_cameraUID = uid, h1_permissions = perm,
      h1_qosl = qosl, h1_qosa = qosa, h1_ptzPriority = ptz, h1_h1 = h1\<rparr>)"
  by (simp add: h1_parse_def new_H1_SecurityToken_def token_line_not_Nil token_line_fields [OF assms(1,2)] Let_def
      token_fields_end [OF assms(3,4)] stoi_byte eval_nat_numeral)

lemma createSecurityToken_line:
  assumes "field_ok uid" "field_ok perm" "length uid + length perm < 1980"
  shows "createSecurityToken big now uid perm key sec ptz qosl qosa =
    (let expir = ucast (word_of_int now + sec)
     in Inr (token_line uid perm ptz qosl qosa (itostr (uint expir) @ ''^'' @
          h1_calculateH2 big (calculateH1 big uid perm ptz qosl qosa key) expir)))"
proof -
  define h1 where "h1 = calculateH1 big uid perm ptz qosl qosa key"
  have h1: "field_ok h1" "h1 \<noteq> []" "length h1 = 40"
    by (simp_all add: h1_def calculateH1_def Let_def sha1_hex_field sha1_hex_text(1))
  have h2: "field_ok (h1_calculateH2 big h1 e)" "length (h1_calculateH2 big h1 e) = 40" for e
    by (simp_all add: h1_calculateH2_def Let_def sha1_hex_field sha1_hex_text(1))
  have p: "printed 2048 (token_line uid perm ptz qosl qosa h1) = token_line uid perm ptz qosl qosa h1"
    using length_token_line [of uid perm ptz qosl qosa h1] assms(3) h1(3) by (intro printed_id) linarith
  have q: "printed 2048 (token_line uid perm ptz qosl qosa (itostr (uint (e :: u32)) @ ''^'' @ h1_calculateH2 big h1 f))
      = token_line uid perm ptz qosl qosa (itostr (uint e) @ ''^'' @ h1_calculateH2 big h1 f)" for e f
    using length_token_line [of uid perm ptz qosl qosa "itostr (uint e) @ ''^'' @ h1_calculateH2 big h1 f"]
      assms(3) h2(2) [of f] length_itostr_u32 [of e] by (intro printed_id) simp
  note c = c_str_field [OF assms(1)] c_str_field [OF assms(2)] c_str_field [OF h1(1)] c_str_field [OF h2(1)]
  show ?thesis
    unfolding createSecurityToken_def Let_def h1_def [symmetric] c token_line_def [symmetric] p
      h1_parse_line [OF assms(1,2) h1(1,2)] token_text_def
    by (simp only: res_bind_simps prod.case H1_SecurityToken.select_convs c q token_line_def [symmetric])
qed

lemma ms_parse_line:
  assumes "field_ok uid" "field_ok perm" "field_ok h2" "h2 \<noteq> []"
  shows "ms_parse (new_MS_SecurityToken (token_line uid perm ptz qosl qosa (itostr (uint expir) @ ''^'' @ h2))) =
    (if uint expir \<le> int_max
     then Inr (True, \<lparr>m_token = token_line uid perm ptz qosl qosa (itostr (uint expir) @ ''^'' @ h2), m_cameraUID = uid,
       m_permissions = perm, m_qosl = qosl, m_qosa = qosa, m_ptzPriority = ptz, m_expirationTime = expir, m_h2 = h2\<rparr>)
     else Inl Out_of_range)"
proof -
  have "stoi (itostr (uint expir)) = (if uint expir \<le> int_max then Inr (uint expir) else Inl Out_of_range)"
    by (simp add: stoi_def read_signed_itostr int_min_def order_trans [of _ 0])
  moreover have "token_fields (itostr (uint expir) @ ''^'' @ h2) = [itostr (uint expir), h2]"
    by (simp only: token_fields_first itostr_field unsigned_greater_eq token_fields_end [OF assms(3,4)])
  ultimately show ?thesis
    unfolding ms_parse_def new_MS_SecurityToken_def MS_SecurityToken.select_convs token_line_fields [OF assms(1,2)] Let_def
    by (simp add: token_line_not_Nil stoi_byte eval_nat_numeral)
qed

lemma http_permission_iff: "http_permission perm have = list_all (\<lambda>p. p \<in> set have) perm"
  by (induction perm) simp_all

lemma ms_H2_is_h1_H2:
  "ms_calculateH2 big uid perm ptz qosl qosa key e = h1_calculateH2 big (calculateH1 big uid perm ptz qosl qosa key) e"
  by (simp add: ms_calculateH2_def h1_calculateH2_def calculateH1_def)

text \<open>What \<open>validate\<close> says of a line with the H2 of its fields, before the year 2038.\<close>

lemma validate_line:
  assumes "field_ok uid" "field_ok perm" "uint expir \<le> int_max" "now \<le> uint expir"
    "list_all (\<lambda>p. p \<in> set perm) asked"
  shows "validate big now (new_MS_SecurityToken (token_line uid perm ptz qosl qosa
      (itostr (uint expir) @ ''^'' @ ms_calculateH2 big uid perm ptz qosl qosa key expir))) key asked False =
    Inr \<lparr>v_ok = True, v_emsg = ''200 OK'', v_perm = (if asked = [] then perm else asked), v_status = 200,
      v_token = \<lparr>m_token = token_line uid perm ptz qosl qosa
        (itostr (uint expir) @ ''^'' @ ms_calculateH2 big uid perm ptz qosl qosa key expir), m_cameraUID = uid,
       m_permissions = perm, m_qosl = qosl, m_qosa = qosa, m_ptzPriority = ptz, m_expirationTime = expir,
       m_h2 = ms_calculateH2 big uid perm ptz qosl qosa key expir\<rparr>\<rparr>"
proof -
  have h2: "field_ok (ms_calculateH2 big uid perm ptz qosl qosa key expir)" "ms_calculateH2 big uid perm ptz qosl qosa key expir \<noteq> []"
    by (simp_all add: ms_calculateH2_def Let_def sha1_hex_field)
  show ?thesis
    using assms(3-5) unfolding validate_def ms_parse_line [OF assms(1,2) h2]
    by (simp add: http_permission_iff)
qed

subsection \<open>Properties\<close>





text \<open>
  From 19 January 2038 on no token can be used: the expiry is printed as an unsigned number of 32 bits and
  read with std::stoi, which throws for it; nothing in validate catches that.
\<close>

theorem tokens_end_in_2038:
  assumes "field_ok uid" "field_ok perm" "length uid + length perm < 1980"
    "int_max < uint (ucast (word_of_int now + sec) :: u32)"
  shows "res_bind (createSecurityToken big now uid perm key sec ptz qosl qosa)
    (\<lambda>token. validate big now' (new_MS_SecurityToken token) key' asked rtsp) = Inl Out_of_range"
proof -
  let ?e = "ucast (word_of_int now + sec) :: u32" and ?H1 = "calculateH1 big uid perm ptz qosl qosa key"
  have "field_ok (h1_calculateH2 big ?H1 ?e)" "h1_calculateH2 big ?H1 ?e \<noteq> []"
    by (simp_all add: h1_calculateH2_def Let_def sha1_hex_field)
  then have "ms_parse (new_MS_SecurityToken (token_line uid perm ptz qosl qosa (itostr (uint ?e) @ ''^'' @ h1_calculateH2 big ?H1 ?e)))
      = Inl Out_of_range"
    using ms_parse_line [OF assms(1,2)] assms(4) by (metis linorder_not_le)
  then show ?thesis
    by (simp only: createSecurityToken_line [OF assms(1-3)] Let_def res_bind_simps validate_def)
qed

theorem tokens_end_in_2038_witness:
  "res_bind (createSecurityToken False 2147483600 ''cam1'' ''w'' ''k'' 360 0 0 0)
    (\<lambda>token. validate False 2147483601 (new_MS_SecurityToken token) ''k'' ''w'' False) = Inl Out_of_range"
  by (rule tokens_end_in_2038) (simp_all add: field_ok_def SEPARATOR_def int_max_def)

text \<open>The permission check of RTSP never fails.\<close>

lemma rtsp_permissions_ignored:
  "map_sum id (\<lambda>v. (v_ok v, v_status v, v_emsg v, v_token v)) (validate big now t key perm True) =
   map_sum id (\<lambda>v. (v_ok v, v_status v, v_emsg v, v_token v)) (validate big now t key [] True)"
  by (cases "ms_parse t") (auto simp: validate_def Let_def split: unit.splits)

lemma length_hex_padded: "length (hex_padded 2 (unat (d :: byte))) = 2"
proof -
  have d: "unat d < 256" using unsigned_less [of d, where 'a=nat] by simp
  show ?thesis
  proof (cases "unat d < 16")
    case True
    then show ?thesis by (simp add: hex_padded_def Let_def hex_number.simps [of "unat d"])
  next
    case False
    then have "hex_number (unat d) = [hex_digit (unat d div 16), hex_digit (unat d)]"
      using d by (simp add: hex_number.simps [of "unat d"] hex_number.simps [of "unat d div 16"] less_mult_imp_div_less)
    then show ?thesis by (simp add: hex_padded_def)
  qed
qed

lemma digest_loop_last: "digest_loop (ds @ [d]) date = hex_padded 2 (unat d)"
  by (simp add: digest_loop_def printed_def length_hex_padded)

lemma digest_loop_short: "length ds = 20 \<Longrightarrow> length (digest_loop ds date) = 2"
proof -
  assume "length ds = 20"
  then obtain es d where ds: "ds = es @ [d]" by (metis list.size(3) rev_exhaust zero_neq_numeral)
  show ?thesis unfolding ds digest_loop_last by (rule length_hex_padded)
qed

lemma length_server_digest: "length (server_digest big salt val) = 20"
  by (simp add: server_digest_def DigestSHA1_final_def Let_def)

text \<open>
  C17: No server token is ever valid. The loop that should append the digest to the date
  prints every byte over the one before, so a token is the two digits of the last byte; the
  check of such a token throws, as its date has no ten characters, and whatever other text,
  time, value and stale memory are given, the check never answers true.
\<close>

theorem server_tokens_never_valid:
  "res_bind (createServerToken big tv_sec tv_usec val)
     (\<lambda>token. isValidServerToken big now garbage token val' timeDiff) = Inl Out_of_range \<and>
   isValidServerToken big now' garbage' token' val'' timeDiff' \<noteq> Inr True"
proof
  show "res_bind (createServerToken big tv_sec tv_usec val)
     (\<lambda>token. isValidServerToken big now garbage token val' timeDiff) = Inl Out_of_range"
    using digest_loop_short [OF length_server_digest]
    by (auto simp: createServerToken_def Let_def last_ten_def isValidServerToken_def)
  have "length token' \<noteq> 2 \<or> isValidServerToken big now' garbage' token' val'' timeDiff' = Inl Out_of_range"
    by (auto simp: isValidServerToken_def last_ten_def)
  then show "isValidServerToken big now' garbage' token' val'' timeDiff' \<noteq> Inr True"
  proof
    assume l: "length token' \<noteq> 2"
    have "digest_loop (server_digest big salt val'') [] \<noteq> token'" for salt
      using l digest_loop_short [OF length_server_digest] by metis
    then show ?thesis by (simp add: isValidServerToken_def last_ten_def Let_def)
  qed simp
qed

end
