(* ===== verification/Rest_Api.thy ===== *)
theory Rest_Api
  imports Camera_Settings Security_Token Http_Message
begin

text \<open>
  The REST interface (\<open>broadcast/src/restApi.cpp\<close>, \<open>restApi.h\<close>) and the responder below it
  (\<open>http/src/HTTPResponder.cpp\<close>): who may do what (\<open>authcheck\<close>), the responders of the methods, and the responses
  they send. A request arrives as its head, the pieces of its body as the HTTP parser hands them on, and its end;
  an exception that no handler catches ends the process.
\<close>

subsection \<open>What surrounds the handlers\<close>

text \<open>
  The byte order, the clock, random bytes, the JSON library (\<open>parse\<close>, \<open>dump(4)\<close>), whether the file of the settings
  can be opened, the directories in a directory and the manifests in the storage.
\<close>

record rest_env =
  e_big :: bool
  e_now :: int
  e_random :: "byte list"
  e_parse :: "string \<Rightarrow> json res"
  e_dump4 :: "json \<Rightarrow> string res"
  e_can_open :: bool
  e_storage :: string
  e_dirs :: "string \<Rightarrow> string list"
  e_manifest :: "string \<Rightarrow> json"

text \<open>A request in the hands of its responder: the settings, the members of the responder, what was sent and whom it closed.\<close>

record session =
  s_cameras :: cameras
  s_request :: Request
  settingCam :: json
  s_msg :: string
  s_ret :: bool
  s_sent :: "string list"
  s_closed :: "string list"

definition on_cameras :: "(cameras, 'a) op \<Rightarrow> (session, 'a) op" where
  "on_cameras m s = (case m (s_cameras s) of (c, out) \<Rightarrow> (s\<lparr>s_cameras := c\<rparr>, out))"

definition response_text :: "string \<Rightarrow> string \<Rightarrow> string \<Rightarrow> string" where
  "response_text response_code content_type result =
     ''HTTP/1.1 '' @ response_code @ crlf @ ''Content-Type: '' @ content_type @ crlf @ ''Connection: close'' @ crlf
     @ ''Content-Length: '' @ itostr (int (length result)) @ crlf @ ''Access-Control-Allow-Origin: *'' @ crlf @ crlf @ result"

definition sendResponse :: "string \<Rightarrow> bool \<Rightarrow> (session, unit) op" where
  "sendResponse result ok = upd (\<lambda>s. s\<lparr>s_sent := s_sent s @
     [response_text (if \<not> ok then ''404 Not Found'' else ''200 OK'') ''text/plain'' result]\<rparr>)"

subsection \<open>Authorisation\<close>

definition stol :: "string \<Rightarrow> int res" where
  "stol s = (case read_signed s of
       None \<Rightarrow> Inl Invalid_argument
     | Some x \<Rightarrow> if - (2 ^ 63) \<le> x \<and> x < 2 ^ 63 then Inr x else Inl Out_of_range)"

text \<open>The key that signs the token is taken from the request itself. The second result is what it leaves in \<open>ret\<close>.\<close>

definition authcheck :: "rest_env \<Rightarrow> Request \<Rightarrow> bool \<Rightarrow> (bool \<times> string) res" where
  "authcheck E request tokenOnly =
     (if msg_has request ''key''
      then res_bind (nv_get (msg_headers request) ''key'') (\<lambda>key.
        if msg_has request ''token''
        then res_bind (nv_get (msg_headers request) ''token'') (\<lambda>token.
             res_bind (validate (e_big E) (e_now E) (new_MS_SecurityToken token) key [] False) (\<lambda>v.
               Inr (v_status v = 200, v_emsg v)))
        else if \<not> tokenOnly \<and> msg_has request ''exp'' \<and> msg_has request ''perm''
        then (let cam = msg_get request ''cam'' (string_of (uuid (e_random E)));
                  iexp = (case stol (msg_get request ''exp'' []) of Inr x \<Rightarrow> word_of_int x | Inl _ \<Rightarrow> 450);
                  perm = msg_get request ''perm'' []
              in res_bind (createSecurityToken (e_big E) (e_now E) cam perm key iexp 0 0 0) (\<lambda>token. Inr (True, token)))
        else Inr (False, if tokenOnly then ''token missing''
               else ''(expiring(secs) or permission missing. Please set exp as 360 and perm as w ''))
      else Inr (False, ''key missing. Please set key as admin@passsword''))"

text \<open>The call of \<open>authcheck\<close> with the member \<open>msg\<close>.\<close>

definition auth_msg :: "rest_env \<Rightarrow> (session, bool) op" where
  "auth_msg E = with_state (\<lambda>s. bind (of_res (authcheck E (s_request s) True)) (\<lambda>(ok, r).
     bind (upd (\<lambda>s. s\<lparr>s_msg := r\<rparr>)) (\<lambda>_. ret ok)))"

subsection \<open>POST\<close>

text \<open>\<open>settingCam[key].get<std::string>()\<close>: the entry is made when it is missing.\<close>

definition setting_string :: "string \<Rightarrow> (session, string) op" where
  "setting_string key = with_state (\<lambda>s. bind (of_res (json_slot key (settingCam s))) (\<lambda>(j, v).
     bind (upd (\<lambda>s. s\<lparr>settingCam := j\<rparr>)) (\<lambda>_. of_res (json_string v))))"

definition request_set :: "string \<Rightarrow> string \<Rightarrow> (session, unit) op" where
  "request_set n v = upd (\<lambda>s. s\<lparr>s_request := msg_set n v (s_request s)\<rparr>)"

definition set_null :: "(session, unit) op" where
  "set_null = upd (\<lambda>s. s\<lparr>settingCam := Null\<rparr>)"

text \<open>The branches for \<open>/api/login\<close> and \<open>/api/account\<close>, which are the same.\<close>

definition post_login :: "rest_env \<Rightarrow> (session, unit) op" where
  "post_login E =
     bind (setting_string ''uname'') (\<lambda>user. bind (setting_string ''psw'') (\<lambda>pass.
     bind (request_set ''key'' (user @ ''@'' @ pass)) (\<lambda>_. bind (request_set ''uid'' user) (\<lambda>_.
     bind (request_set ''exp'' ''3600'') (\<lambda>_. bind (request_set ''perm'' ''w'') (\<lambda>_.
     bind (auth_msg E) (\<lambda>ok. if ok then ret () else set_null)))))))"

definition parse_body :: "rest_env \<Rightarrow> string \<Rightarrow> (session, unit) op" where
  "parse_body E body = bind (of_res (e_parse E (c_str body))) (\<lambda>j. upd (\<lambda>s. s\<lparr>settingCam := j\<rparr>))"

definition post_onPayload :: "rest_env \<Rightarrow> string \<Rightarrow> (session, unit) op" where
  "post_onPayload E body =
     bind (catch_all (bind (parse_body E body) (\<lambda>_. ret True)) (bind set_null (\<lambda>_. ret False))) (\<lambda>parsed.
       if \<not> parsed then ret ()
       else with_state (\<lambda>s.
         if req_uri (s_request s) = ''/api/login'' then post_login E
         else if req_uri (s_request s) = ''/api/account'' then post_login E
         else if req_uri (s_request s) = ''/api/post''
         then bind (auth_msg E) (\<lambda>ok.
           if ok then catch_all
             (bind (parse_body E body) (\<lambda>_. with_state (\<lambda>s. on_cameras (postNode (e_dump4 E) (e_can_open E) (settingCam s)))))
             set_null
           else set_null)
         else ret ()))"

definition post_onRequest :: "(session, unit) op" where
  "post_onRequest = with_state (\<lambda>s.
     if settingCam s \<noteq> Null then sendResponse (s_msg s) True
     else (let m = (if s_msg s = [] then ''failure'' else s_msg s)
           in bind (upd (\<lambda>s. s\<lparr>s_msg := m\<rparr>)) (\<lambda>_. sendResponse m False)))"

subsection \<open>PUT\<close>

text \<open>
  \<open>settingCam.items().begin()\<close>: of an empty object or list it is the end, which must not be read; of null its
  value throws.
\<close>

definition first_item :: "json \<Rightarrow> (string \<times> json) res" where
  "first_item j = (case json_items j of
       kv # _ \<Rightarrow> Inr kv
     | [] \<Rightarrow> Inl (if j = Null then Runtime_error ''cannot get value'' else Undefined_behaviour))"

definition put_onPayload :: "rest_env \<Rightarrow> string \<Rightarrow> (session, unit) op" where
  "put_onPayload E body =
     bind (auth_msg E) (\<lambda>ok.
       if ok then catch_all
         (bind (parse_body E body) (\<lambda>_. with_state (\<lambda>s.
          bind (of_res (first_item (settingCam s))) (\<lambda>(camid, v).
          bind (of_res (json_slot ''recording'' v)) (\<lambda>(_, rec).
          bind (of_res (json_string rec)) (\<lambda>currecording.
          bind (on_cameras (getNodeState camid ''recording'')) (\<lambda>prvrecording.
          bind (on_cameras (putNode (e_dump4 E) (e_can_open E) (settingCam s))) (\<lambda>(r, vec).
          upd (\<lambda>s. s\<lparr>s_ret := r\<rparr>))))))))) set_null
       else set_null)"

definition put_onRequest :: "(session, unit) op" where
  "put_onRequest = with_state (\<lambda>s.
     if settingCam s \<noteq> Null \<and> s_ret s
     then bind (upd (\<lambda>s. s\<lparr>s_msg := ''Success''\<rparr>)) (\<lambda>_. sendResponse ''Success'' True)
     else (let m = (if s_msg s = [] then ''failure'' else s_msg s)
           in bind (upd (\<lambda>s. s\<lparr>s_msg := m\<rparr>)) (\<lambda>_. sendResponse m False)))"

subsection \<open>GET\<close>

definition reply_json :: "rest_env \<Rightarrow> json \<Rightarrow> (session, unit) op" where
  "reply_json E j = bind (of_res (e_dump4 E j)) (\<lambda>msg. sendResponse msg True)"

definition json_entries :: "json \<Rightarrow> (string \<times> json) list" where
  "json_entries j = (case j of Object kvs \<Rightarrow> kvs | _ \<Rightarrow> [])"

text \<open>\<open>ret[key][part] = value\<close>.\<close>

definition put_part :: "string \<Rightarrow> string \<Rightarrow> json \<Rightarrow> json \<Rightarrow> json res" where
  "put_part key part v j =
     res_bind (json_slot key j) (\<lambda>(j, slot). res_bind (json_put part v slot) (\<lambda>slot. json_put key slot j))"

fun camtree :: "(string \<times> json) list \<Rightarrow> json \<Rightarrow> json res" where
  "camtree [] acc = Inr acc"
| "camtree ((key, v) # kvs) acc =
     res_bind (json_slot ''audio'' v) (\<lambda>(_, audio).
     res_bind (put_part key ''video'' (String key) acc) (\<lambda>acc.
     res_bind (if is_object audio then put_part key ''audio'' (String key) acc else Inr acc) (\<lambda>acc.
       camtree kvs acc)))"

fun recordcam :: "(string \<times> json) list \<Rightarrow> json \<Rightarrow> json res" where
  "recordcam [] acc = Inr acc"
| "recordcam ((key, v) # kvs) acc =
     res_bind (if json_find ''recording'' v \<noteq> None then json_push_back acc (String key) else Inr acc) (recordcam kvs)"

definition listFilesRecursively :: "rest_env \<Rightarrow> string \<Rightarrow> json" where
  "listFilesRecursively E basePath =
     (case e_dirs E (c_str basePath) of [] \<Rightarrow> Null
      | ds \<Rightarrow> Object (foldl (\<lambda>kvs d. if map_of kvs d = None then obj_set d (Object []) kvs else kvs) [] ds))"

definition quarter :: "int \<Rightarrow> string" where
  "quarter m = (if m > 0 \<and> m \<le> 15 then ''1-15'' else if m > 15 \<and> m \<le> 30 then ''15-30''
     else if m > 30 \<and> m \<le> 45 then ''30-45'' else if m > 45 \<and> m \<le> 60 then ''45-60'' else [])"

text \<open>\<open>key()\<close> of an iterator throws for what is no object.\<close>

definition keyed :: "json \<Rightarrow> (string \<times> json) list res" where
  "keyed j = (case j of Object kvs \<Rightarrow> Inr kvs | Null \<Rightarrow> Inr [] | Array [] \<Rightarrow> Inr []
     | _ \<Rightarrow> Inl (Runtime_error ''cannot use key() for non-object iterators''))"

fun record_minutes :: "string \<Rightarrow> string \<Rightarrow> string \<Rightarrow> (string \<times> json) list \<Rightarrow> json \<Rightarrow> json res" where
  "record_minutes cam date hr [] day = Inr day"
| "record_minutes cam date hr ((time, _) # rest) day =
     res_bind (if length time < 3 then Inl Out_of_range else stoi (take 2 (drop 3 time))) (\<lambda>m.
     res_bind (put_part hr (quarter m) (String (cam @ ''/'' @ date @ ''/'' @ hr @ ''/'' @ time @ ''/'')) day) (\<lambda>day.
       record_minutes cam date hr rest day))"

fun record_hours :: "string \<Rightarrow> string \<Rightarrow> (string \<times> json) list \<Rightarrow> json \<Rightarrow> json res" where
  "record_hours cam date [] day = Inr day"
| "record_hours cam date ((hr, mins) # rest) day =
     res_bind (keyed mins) (\<lambda>kvs. res_bind (record_minutes cam date hr kvs day) (record_hours cam date rest))"

fun record_days :: "rest_env \<Rightarrow> string \<Rightarrow> string \<Rightarrow> (string \<times> json) list \<Rightarrow> (string \<times> json) list res" where
  "record_days E basePath cam [] = Inr []"
| "record_days E basePath cam ((date, day) # rest) =
     res_bind (case json_find date (e_manifest E (basePath @ date @ ''/manifest.js'')) of
         None \<Rightarrow> Inr day
       | Some hours \<Rightarrow> res_bind (keyed hours) (\<lambda>kvs. record_hours cam date kvs day)) (\<lambda>day.
     res_bind (record_days E basePath cam rest) (\<lambda>days. Inr ((date, day) # days)))"

definition get_onRequest :: "rest_env \<Rightarrow> (session, unit) op" where
  "get_onRequest E = with_state (\<lambda>s. let request = s_request s in
     if req_uri request = ''/api/camlist''
     then bind (of_res (authcheck E request True)) (\<lambda>(ok, msg).
       if ok then bind (on_cameras (getNode (e_dump4 E))) (\<lambda>msg. sendResponse msg True)
       else sendResponse msg False)
     else if req_uri request = ''/api/camtree''
     then bind (on_cameras getJsonNode) (\<lambda>node. bind (of_res (camtree (json_entries node) Null)) (reply_json E))
     else if req_uri request = ''/api/recordcam''
     then bind (on_cameras getJsonNode) (\<lambda>node. bind (of_res (recordcam (json_entries node) Null)) (reply_json E))
     else if req_uri request = ''/api/recordtree''
     then (if \<not> msg_has request ''cam'' then sendResponse ''Requet without camera info'' False
           else (let cam = msg_get request ''cam'' [];
                     basePath = e_storage E @ ''CAM'' @ cam @ ''/''
                 in case listFilesRecursively E basePath of
                      Object kvs \<Rightarrow> bind (of_res (record_days E basePath cam kvs)) (\<lambda>days. reply_json E (Object days))
                    | j \<Rightarrow> reply_json E j))
     else ret ())"

subsection \<open>DELETE, OPTIONS and the rest\<close>

definition delete_onPayload :: "rest_env \<Rightarrow> string \<Rightarrow> (session, unit) op" where
  "delete_onPayload E body = with_state (\<lambda>s.
     bind (of_res (authcheck E (s_request s) True)) (\<lambda>(ok, msg).
       if \<not> ok then set_null
       else catch_all
         (bind (parse_body E body) (\<lambda>_. with_state (\<lambda>s.
          bind (on_cameras (deleteNode (e_dump4 E) (e_can_open E) (settingCam s))) (\<lambda>(r, vec).
          upd (\<lambda>s. s\<lparr>s_ret := r, s_closed := s_closed s @ vec\<rparr>))))) set_null))"

definition delete_onRequest :: "(session, unit) op" where
  "delete_onRequest = with_state (\<lambda>s.
     if settingCam s \<noteq> Null \<and> s_ret s then sendResponse ''Success'' True else sendResponse ''failure'' False)"

definition options_onRequest :: "(session, unit) op" where
  "options_onRequest = sendResponse ''Success'' True"

definition basic_onRequest :: "(session, unit) op" where
  "basic_onRequest = sendResponse ''wrong request'' False"

datatype responder = Basic | Post | Put | Get | Delete | Options

definition createResponder :: "Request \<Rightarrow> responder" where
  "createResponder request =
     (if \<not> msg_has request ''Host'' then Basic
      else if req_method request = ''POST'' then Post
      else if req_method request = ''PUT'' then Put
      else if req_method request = ''GET'' then Get
      else if req_method request = ''DELETE'' then Delete
      else if req_method request = ''OPTIONS'' then Options
      else Basic)"

fun onPayload :: "rest_env \<Rightarrow> responder \<Rightarrow> string \<Rightarrow> (session, unit) op" where
  "onPayload E Post body = post_onPayload E body"
| "onPayload E Put body = put_onPayload E body"
| "onPayload E Delete body = delete_onPayload E body"
| "onPayload E _ body = ret ()"

fun onRequest :: "rest_env \<Rightarrow> responder \<Rightarrow> (session, unit) op" where
  "onRequest E Post = post_onRequest"
| "onRequest E Put = put_onRequest"
| "onRequest E Get = get_onRequest E"
| "onRequest E Delete = delete_onRequest"
| "onRequest E Options = options_onRequest"
| "onRequest E Basic = basic_onRequest"

definition session_init :: "cameras \<Rightarrow> Request \<Rightarrow> session" where
  "session_init c request =
     \<lparr>s_cameras = c, s_request = request, settingCam = Null, s_msg = [], s_ret = False, s_sent = [], s_closed = []\<rparr>"

text \<open>The head makes the responder, every piece of the body is its payload, the end of the message its request.\<close>

definition serve :: "rest_env \<Rightarrow> Request \<Rightarrow> string list \<Rightarrow> cameras \<Rightarrow> session \<times> unit outcome" where
  "serve E request pieces c =
     (let r = createResponder request
      in bind (each (onPayload E r) pieces) (\<lambda>_. onRequest E r) (session_init c request))"

subsection \<open>Files\<close>

text \<open>The responder for files (\<open>HttpResponder\<close>); \<open>fs\<close> gives the contents of the files that exist and can be opened.\<close>

record render_baton =
  b_path :: string
  b_result :: string
  b_response_code :: string
  b_content_type :: string

definition render_baton_init :: render_baton where
  "render_baton_init = \<lparr>b_path = [], b_result = [], b_response_code = ''200 OK'', b_content_type = ''text/plain''\<rparr>"

definition endswith :: "string \<Rightarrow> string \<Rightarrow> bool" where
  "endswith val search =
     (if length val \<ge> length search then drop (length val - length search) val = search else False)"

definition content_type_of :: "string \<Rightarrow> string \<Rightarrow> string" where
  "content_type_of filepath old =
     (if endswith filepath ''html'' then ''text/html'' else if endswith filepath ''css'' then ''text/css''
      else if endswith filepath ''js'' then ''application/javascript'' else if endswith filepath ''ico'' then ''image/x-icon''
      else if endswith filepath ''gif'' then ''image/gif'' else if endswith filepath ''jpeg'' then ''image/jpeg''
      else if endswith filepath ''png'' then ''image/png'' else old)"

datatype stored_file = Missing | Unreadable | Contents string

definition render :: "(string \<Rightarrow> stored_file) \<Rightarrow> render_baton \<Rightarrow> render_baton" where
  "render fs b =
     (let b = b\<lparr>b_response_code := ''200 OK''\<rparr>; filepath = ''.'' @ b_path b
      in case fs filepath of
           Missing \<Rightarrow> b\<lparr>b_result := ''no access'', b_response_code := ''404 Not Found''\<rparr>
         | Unreadable \<Rightarrow> b\<lparr>b_result := ''failed to open'', b_response_code := ''404 Not Found''\<rparr>
         | Contents content \<Rightarrow> b\<lparr>b_result := take (length content mod 2 ^ 32) content,
             b_content_type := content_type_of filepath (b_content_type b)\<rparr>)"

definition after_render :: "render_baton \<Rightarrow> string" where
  "after_render b = response_text (b_response_code b) (b_content_type b) (b_result b)"

definition files_onRequest :: "(string \<Rightarrow> stored_file) \<Rightarrow> Request \<Rightarrow> render_baton \<Rightarrow> render_baton \<times> string" where
  "files_onRequest fs request b =
     (let file_to_open = (if req_uri request = ''/'' then ''/index.html'' else req_uri request);
          b = render fs (b\<lparr>b_path := file_to_open\<rparr>)
      in (b, after_render b))"

subsection \<open>Running the handlers\<close>

lemma bind_bool [op_simps]:
  "m s = (s', Done True) \<Longrightarrow> bind m f s = f True s'" "m s = (s', Done False) \<Longrightarrow> bind m f s = f False s'"
  by (simp_all add: bind_def)

lemma on_cameras_run [op_simps]: "m (s_cameras s) = (c, out) \<Longrightarrow> on_cameras m s = (s\<lparr>s_cameras := c\<rparr>, out)"
  by (simp add: on_cameras_def)

lemma catch_all_run [op_simps]:
  "m s = (s', Done v) \<Longrightarrow> catch_all m h s = (s', Done v)"
  "m s = (s', Throws e) \<Longrightarrow> thrown e \<Longrightarrow> catch_all m h s = h s'"
  "m s = (s', Blocked) \<Longrightarrow> catch_all m h s = (s', Blocked)"
  by (simp_all add: catch_all_def)

lemma auth_msg_run [op_simps]:
  "authcheck E (s_request s) True = Inr (True, m) \<Longrightarrow> auth_msg E s = (s\<lparr>s_msg := m\<rparr>, Done True)"
  "authcheck E (s_request s) True = Inr (False, m) \<Longrightarrow> auth_msg E s = (s\<lparr>s_msg := m\<rparr>, Done False)"
  "authcheck E (s_request s) True = Inl e \<Longrightarrow> auth_msg E s = (s, Throws e)"
  by (simp_all add: auth_msg_def op_simps)

lemma parse_body_run [op_simps]:
  "e_parse E (c_str body) = Inr j \<Longrightarrow> parse_body E body s = (s\<lparr>settingCam := j\<rparr>, Done ())"
  "e_parse E (c_str body) = Inl e \<Longrightarrow> parse_body E body s = (s, Throws e)"
  by (simp_all add: parse_body_def op_simps)

lemma sendResponse_run [op_simps]: "sendResponse result ok s = (s\<lparr>s_sent := s_sent s @
     [response_text (if \<not> ok then ''404 Not Found'' else ''200 OK'') ''text/plain'' result]\<rparr>, Done ())"
  by (simp add: sendResponse_def op_simps)

lemma set_null_run [op_simps]: "set_null s = (s\<lparr>settingCam := Null\<rparr>, Done ())"
  by (simp add: set_null_def op_simps)

lemma request_set_run [op_simps]: "request_set n v s = (s\<lparr>s_request := msg_set n v (s_request s)\<rparr>, Done ())"
  by (simp add: request_set_def op_simps)

lemma setting_string_run [op_simps]:
  "settingCam s = Object kvs \<Longrightarrow> map_of kvs key = Some (String t) \<Longrightarrow> setting_string key s = (s, Done t)"
  by (simp add: setting_string_def op_simps)

lemma getNode_run:
  assumes "cameras_ok c"
  shows "\<exists>c' j. getNode (\<lambda>j. Inr (pr j)) c = (c', Done (pr j)) \<and> camera_map j = cams c \<and> cameras_ok c' \<and> cams c' = cams c"
proof -
  obtain v where v: "unlocked c" "rtsp_is c v" "camera_list v" using assms by (auto simp: cameras_ok_iff)
  let ?s = "c\<lparr>rw_readers := 1\<rparr>"
  obtain r where r: "rtsp_ref ?s = (?s\<lparr>enc_root := r\<rparr>, Done v)" "rtsp_is (?s\<lparr>enc_root := r\<rparr>) v"
    using rtsp_ref_run [of ?s v] v by auto
  have run: "getNode (\<lambda>j. Inr (pr j)) c = (?s\<lparr>enc_root := r, rw_readers := 0\<rparr>, Done (pr v))"
    using rdlock_run [OF v(1)] r(1) by (simp add: getNode_def rdunlock_def op_simps del: One_nat_def)
  have rt: "rtsp_is (?s\<lparr>enc_root := r, rw_readers := 0\<rparr>) v" using r(2) by (simp add: rtsp_is_def)
  have "unlocked (?s\<lparr>enc_root := r, rw_readers := 0\<rparr>)" using v(1) by (simp add: unlocked_def)
  then show ?thesis using run rt v(3) cams_rtsp [OF v(2)] cams_rtsp [OF rt] by (auto simp: cameras_ok_iff)
qed

lemma createResponder_simps:
  "msg_has request ''Host'' \<Longrightarrow> req_method request = ''POST'' \<Longrightarrow> createResponder request = Post"
  "msg_has request ''Host'' \<Longrightarrow> req_method request = ''PUT'' \<Longrightarrow> createResponder request = Put"
  "msg_has request ''Host'' \<Longrightarrow> req_method request = ''GET'' \<Longrightarrow> createResponder request = Get"
  "msg_has request ''Host'' \<Longrightarrow> req_method request = ''DELETE'' \<Longrightarrow> createResponder request = Delete"
  by (simp_all add: createResponder_def)

lemma each_one [op_simps]: "f x s = (s', Done ()) \<Longrightarrow> each f [x] s = (s', Done ())"
  by (simp add: op_simps)

subsection \<open>Who is let in\<close>

lemma authcheck_token:
  assumes "nv_get (msg_headers request) ''key'' = Inr key" "nv_get (msg_headers request) ''token'' = Inr token"
  shows "authcheck E request tokenOnly = res_bind (validate (e_big E) (e_now E) (new_MS_SecurityToken token) key [] False)
    (\<lambda>v. Inr (v_status v = 200, v_emsg v))"
proof -
  have "msg_has request ''key''" "msg_has request ''token''"
    using assms by (auto simp: msg_has_def nv_has_def nv_get_def split: option.splits)
  then show ?thesis using assms by (simp add: authcheck_def)
qed

lemma authcheck_accepts:
  assumes "nv_get (msg_headers request) ''key'' = Inr key" "nv_get (msg_headers request) ''token'' = Inr token"
    "createSecurityToken (e_big E) now uid perm key sec ptz qosl qosa = Inr token"
    "field_ok uid" "field_ok perm" "length uid + length perm < 1980"
    "(expir :: u32) = ucast (word_of_int now + sec)" "uint expir \<le> int_max" "e_now E \<le> uint expir"
  shows "authcheck E request tokenOnly = Inr (True, ''200 OK'')"
proof -
  have t: "token = token_line uid perm ptz qosl qosa (itostr (uint expir) @ ''^'' @ ms_calculateH2 (e_big E) uid perm ptz qosl qosa key expir)"
    using assms(3) by (simp only: createSecurityToken_line [OF assms(4-6)] Let_def assms(7) [symmetric] ms_H2_is_h1_H2) simp
  show ?thesis
    unfolding authcheck_token [OF assms(1,2)] t
    by (subst validate_line [OF assms(4,5,8,9)]) simp_all
qed

text \<open>
  C14: The key under which a token is checked is a header of the same request, so anyone lets
  himself in: whatever key a client makes up, the token it computes with it (for any camera
  and permissions without ^ and NUL, all texts together below 1980 characters, until an expiry
  below 2^31) opens the interface, and GET /api/camlist with a Host header answers with all
  cameras and their settings.
\<close>

theorem self_made_token_admits:
  assumes "cameras_ok c" "e_dump4 E = (\<lambda>j. Inr (pr j))"
    "msg_has request ''Host''" "req_method request = ''GET''" "req_uri request = ''/api/camlist''"
    "nv_get (msg_headers request) ''key'' = Inr key" "nv_get (msg_headers request) ''token'' = Inr token"
    "createSecurityToken (e_big E) now uid perm key sec ptz qosl qosa = Inr token"
    "field_ok uid" "field_ok perm" "length uid + length perm < 1980"
    "(expir :: u32) = ucast (word_of_int now + sec)" "uint expir \<le> int_max" "e_now E \<le> uint expir"
  shows "\<exists>s j. serve E request [] c = (s, Done ()) \<and> camera_map j = cams c \<and>
    s_sent s = [response_text ''200 OK'' ''text/plain'' (pr j)] \<and> cameras_ok (s_cameras s) \<and> cams (s_cameras s) = cams c"
proof -
  obtain c' j where g: "getNode (\<lambda>j. Inr (pr j)) c = (c', Done (pr j))" "camera_map j = cams c" "cameras_ok c'" "cams c' = cams c"
    using getNode_run [OF assms(1), of pr] by blast
  show ?thesis
    using g authcheck_accepts [OF assms(6-14), of True]
    by (intro exI [of _ "(session_init c request)\<lparr>s_cameras := c', s_sent := [response_text ''200 OK'' ''text/plain'' (pr j)]\<rparr>"] exI [of _ j])
       (simp add: serve_def createResponder_simps(3) [OF assms(3,4)] op_simps get_onRequest_def Let_def session_init_def assms(2,5))
qed

text \<open>Nobody logs in: the login checks for a token in place of making one.\<close>

lemma login_never_succeeds:
  assumes "msg_has request ''Host''" "req_method request = ''POST''" "req_uri request \<in> {''/api/login'', ''/api/account''}"
    "\<not> msg_has request ''token''"
    "e_parse E (c_str body) = Inr (Object kvs)" "map_of kvs ''uname'' = Some (String u)" "map_of kvs ''psw'' = Some (String p)"
  shows "\<exists>s. serve E request [body] c = (s, Done ()) \<and> s_cameras s = c \<and>
    s_sent s = [response_text ''404 Not Found'' ''text/plain'' ''token missing'']"
proof -
  let ?req = "msg_set ''perm'' ''w'' (msg_set ''exp'' ''3600'' (msg_set ''uid'' u (msg_set ''key'' (u @ ''@'' @ p) request)))"
  have key: "nv_get (msg_headers ?req) ''key'' = Inr (u @ ''@'' @ p)"
    by (simp add: msg_set_def nv_get_def mm_find_nv_set)
  have auth: "authcheck E ?req True = Inr (False, ''token missing'')"
    using assms(4) key by (simp add: authcheck_def msg_laws)
  have login: "post_login E s = (s\<lparr>s_request := ?req, s_msg := ''token missing'', settingCam := Null\<rparr>, Done ())"
    if "settingCam s = Object kvs" "s_request s = request" for s
    using that assms(6,7) auth by (simp add: post_login_def op_simps)
  have "post_onPayload E body (session_init c request) =
      ((session_init c request)\<lparr>s_request := ?req, s_msg := ''token missing'', settingCam := Null\<rparr>, Done ())"
    using assms(3,5) login by (auto simp: post_onPayload_def op_simps session_init_def)
  then show ?thesis
    by (simp add: serve_def createResponder_simps(1) [OF assms(1,2)] op_simps post_onRequest_def session_init_def Let_def)
qed

lemma camera_init_ok: "cameras_ok cameras_init"
  by (simp add: cameras_ok_def cameras_init_def unlocked_def camera_list_def)

text \<open>An environment and requests for the examples: a JSON library that knows three texts.\<close>

definition example_env :: rest_env where
  "example_env = \<lparr>e_big = False, e_now = 1700000100, e_random = [],
     e_parse = (\<lambda>s. if s = ''add'' then Inr (Object [(''cam1'', Object [(''recording'', String ''on'')])])
                    else if s = ''bad'' then Inr (Array [Boolean True]) else Inl (Runtime_error ''parse error'')),
     e_dump4 = (\<lambda>j. Inr (if j = Null then ''null'' else ''cameras'')), e_can_open = True, e_storage = ''/storage/'',
     e_dirs = (\<lambda>_. []), e_manifest = (\<lambda>_. Null)\<rparr>"

definition example_token :: string where
  "example_token = (case createSecurityToken False 1700000000 ''cam'' ''w'' ''anything'' 360 0 0 0 of Inr t \<Rightarrow> t | Inl _ \<Rightarrow> [])"

definition example_request :: "string \<Rightarrow> string \<Rightarrow> Request" where
  "example_request meth uri = \<lparr>msg_version = HTTP_1_1,
     msg_headers = [(''Host'', ''server''), (''key'', ''anything''), (''token'', example_token)], req_method = meth, req_uri = uri\<rparr>"

lemma example_headers:
  "msg_has (example_request meth uri) ''Host''"
  "nv_get (msg_headers (example_request meth uri)) ''key'' = Inr ''anything''"
  "nv_get (msg_headers (example_request meth uri)) ''token'' = Inr example_token"
  "req_method (example_request meth uri) = meth" "req_uri (example_request meth uri) = uri"
  by (simp_all add: example_request_def msg_has_def nv_has_def nv_get_def)

lemma example_token_made: "createSecurityToken (e_big example_env) 1700000000 ''cam'' ''w'' ''anything'' 360 0 0 0 = Inr example_token"
proof -
  have "field_ok ''cam''" "field_ok ''w''" by (simp_all add: field_ok_def SEPARATOR_def)
  then show ?thesis by (simp add: example_token_def example_env_def createSecurityToken_line Let_def)
qed

lemma example_auth: "authcheck example_env (example_request meth uri) True = Inr (True, ''200 OK'')"
  by (rule authcheck_accepts [OF example_headers(2,3) example_token_made, of 1700000360])
     (simp_all add: field_ok_def SEPARATOR_def int_max_def example_env_def)

theorem self_made_token_admits_witness:
  "\<exists>s j. serve example_env (example_request ''GET'' ''/api/camlist'') [] cameras_init = (s, Done ()) \<and>
    s_sent s = [response_text ''200 OK'' ''text/plain'' (if j = Null then ''null'' else ''cameras'')]"
  using self_made_token_admits [OF camera_init_ok _ example_headers(1,4,5,2,3) example_token_made, of "\<lambda>j. if j = Null then ''null'' else ''cameras''" 1700000360]
  by (auto simp: example_env_def field_ok_def SEPARATOR_def int_max_def)

subsection \<open>Without a token nothing changes\<close>

text \<open>What stays as it is while the pieces of an unauthorised request arrive.\<close>

definition untouched :: "cameras \<Rightarrow> session \<Rightarrow> bool" where
  "untouched c s \<longleftrightarrow> s_cameras s = c \<and> s_closed s = []"

lemma untouched_simps [simp]:
  "untouched c (s\<lparr>s_msg := m\<rparr>) = untouched c s" "untouched c (s\<lparr>settingCam := j\<rparr>) = untouched c s"
  "untouched c (s\<lparr>s_request := r\<rparr>) = untouched c s" "untouched c (s\<lparr>s_sent := t\<rparr>) = untouched c s"
  "untouched c (s\<lparr>s_ret := b\<rparr>) = untouched c s"
  by (simp_all add: untouched_def)

text \<open>Operations that keep a property of the state, however they end.\<close>

definition keeps :: "('s \<Rightarrow> bool) \<Rightarrow> ('s, 'a) op \<Rightarrow> bool" where
  "keeps P m \<longleftrightarrow> (\<forall>s. P s \<longrightarrow> P (fst (m s)))"

named_theorems keeps_intros \<open>operations that keep a property\<close>

lemma keeps_bind [keeps_intros]: "keeps P m \<Longrightarrow> (\<And>v. keeps P (f v)) \<Longrightarrow> keeps P (bind m f)"
  unfolding keeps_def bind_def by (auto split: prod.splits outcome.splits)

lemma keeps_ret [keeps_intros]: "keeps P (ret v)" "keeps P (of_res r)"
  by (simp_all add: keeps_def ret_def of_res_def split: sum.splits)

lemma keeps_upd [keeps_intros]: "(\<And>s. P s \<Longrightarrow> P (g s)) \<Longrightarrow> keeps P (upd g)"
  by (simp add: keeps_def upd_def)

lemma keeps_with [keeps_intros]: "(\<And>s. P s \<Longrightarrow> keeps P (f s)) \<Longrightarrow> keeps P (with_state f)"
  by (simp add: keeps_def with_state_def)

lemma keeps_catch [keeps_intros]: "keeps P m \<Longrightarrow> keeps P h \<Longrightarrow> keeps P (catch_all m h)"
  unfolding keeps_def catch_all_def by (auto split: prod.splits outcome.splits)

lemma keeps_each: "(\<And>x. keeps P (f x)) \<Longrightarrow> keeps P (each f xs)"
  by (induction xs) (auto intro!: keeps_intros)

lemma keeps_if [keeps_intros]: "(b \<Longrightarrow> keeps P m) \<Longrightarrow> (\<not> b \<Longrightarrow> keeps P n) \<Longrightarrow> keeps P (if b then m else n)"
  by simp

lemma keeps_prod [keeps_intros]: "(\<And>a b. keeps P (f a b)) \<Longrightarrow> keeps P (case p of (a, b) \<Rightarrow> f a b)"
  by (cases p) simp

lemma keeps_untouched [keeps_intros]:
  "keeps (untouched c) (parse_body E body)" "keeps (untouched c) set_null" "keeps (untouched c) (setting_string key)"
  "keeps (untouched c) (request_set n v)" "keeps (untouched c) (auth_msg E)" "keeps (untouched c) (sendResponse r ok)"
  by (auto simp: parse_body_def set_null_def setting_string_def request_set_def auth_msg_def sendResponse_def
      intro!: keeps_intros)

lemma post_login_untouched: "keeps (untouched c) (post_login E)"
  unfolding post_login_def by (intro keeps_intros)

text \<open>The state in which an unauthorised request is served: its head is the one that was refused, or it logs in.\<close>

definition logs_in :: "responder \<Rightarrow> Request \<Rightarrow> bool" where
  "logs_in r request \<longleftrightarrow> r = Post \<and> req_uri request \<in> {''/api/login'', ''/api/account''}"

definition refused :: "cameras \<Rightarrow> Request \<Rightarrow> responder \<Rightarrow> session \<Rightarrow> bool" where
  "refused c request r s \<longleftrightarrow> untouched c s \<and> req_uri (s_request s) = req_uri request \<and> (logs_in r request \<or> s_request s = request)"

lemma refused_simps [simp]:
  "refused c request r (s\<lparr>s_msg := m\<rparr>) = refused c request r s" "refused c request r (s\<lparr>settingCam := j\<rparr>) = refused c request r s"
  "refused c request r (s\<lparr>s_sent := t\<rparr>) = refused c request r s"
  by (simp_all add: refused_def)

lemma keeps_refused [keeps_intros]:
  "keeps (refused c request r) (parse_body E body)" "keeps (refused c request r) set_null"
  "keeps (refused c request r) (setting_string key)" "keeps (refused c request r) (auth_msg E)"
  "keeps (refused c request r) (sendResponse t ok)"
  "logs_in r request \<Longrightarrow> keeps (refused c request r) (request_set n v)"
  by (auto simp: parse_body_def set_null_def setting_string_def auth_msg_def sendResponse_def request_set_def
      intro!: keeps_intros) (simp add: refused_def msg_set_def)

text \<open>What follows an accepted token is not reached.\<close>

lemma keeps_refusal:
  assumes "authcheck E request True = Inr (False, m)" "\<not> logs_in r request" "keeps (refused c request r) h"
  shows "keeps (refused c request r) (bind (auth_msg E) (\<lambda>ok. if ok then n else h))"
  unfolding keeps_def
proof (intro allI impI)
  fix s assume s: "refused c request r s"
  then have "authcheck E (s_request s) True = Inr (False, m)" using assms(1,2) by (simp add: refused_def)
  then have "bind (auth_msg E) (\<lambda>ok. if ok then n else h) s = h (s\<lparr>s_msg := m\<rparr>)" by (simp add: op_simps)
  then show "refused c request r (fst (bind (auth_msg E) (\<lambda>ok. if ok then n else h) s))"
    using assms(3) s by (simp add: keeps_def)
qed

lemma onPayload_refused:
  assumes "authcheck E request True = Inr (False, m)"
  shows "keeps (refused c request r) (onPayload E r body)"
proof (cases r)
  case Post
  have login: "keeps (refused c request Post) (post_login E)" if "logs_in Post request"
    unfolding post_login_def using that by (intro keeps_intros)
  have post: "keeps (refused c request Post) (bind (auth_msg E) (\<lambda>ok. if ok then n else set_null))" if "\<not> logs_in Post request" for n
    using that by (intro keeps_refusal [OF assms] keeps_intros)
  have uri: "req_uri (s_request s) = req_uri request" if "refused c request Post s" for s using that by (simp add: refused_def)
  have branches: "keeps (refused c request Post) (with_state (\<lambda>s.
      if req_uri (s_request s) = ''/api/login'' then post_login E else if req_uri (s_request s) = ''/api/account'' then post_login E
      else if req_uri (s_request s) = ''/api/post'' then bind (auth_msg E) (\<lambda>ok. if ok then n else set_null) else ret ()))" for n
    using login post by (intro keeps_with) (auto simp: uri logs_in_def keeps_ret)
  show ?thesis
    unfolding Post onPayload.simps post_onPayload_def
    by (rule keeps_bind, intro keeps_intros, rule keeps_if, rule keeps_ret, rule branches)
next
  case Put
  then show ?thesis
    by (simp add: put_onPayload_def) (intro keeps_refusal [OF assms] keeps_intros, simp add: logs_in_def)
next
  case Delete
  have "keeps (refused c request Delete) (with_state (\<lambda>s. bind (of_res (authcheck E (s_request s) True)) (\<lambda>(ok, msg).
      if \<not> ok then set_null else n s)))" for n
  proof (intro keeps_with)
    fix s assume "refused c request Delete s"
    then have "s_request s = request" by (simp add: refused_def logs_in_def)
    then have "bind (of_res (authcheck E (s_request s) True)) (\<lambda>(ok, msg). if \<not> ok then set_null else n s) = set_null"
      using assms by (simp add: fun_eq_iff bind_def of_res_def)
    then show "keeps (refused c request Delete) (bind (of_res (authcheck E (s_request s) True)) (\<lambda>(ok, msg). if \<not> ok then set_null else n s))"
      by (simp add: keeps_intros)
  qed
  then show ?thesis by (simp add: Delete delete_onPayload_def)
qed (simp_all add: keeps_intros)

text \<open>What a listing may do to the settings: make the list of cameras when there is none.\<close>

definition same_cameras :: "cameras \<Rightarrow> session \<Rightarrow> bool" where
  "same_cameras c s \<longleftrightarrow> cameras_ok (s_cameras s) \<and> cams (s_cameras s) = cams c \<and>
     stats_file (s_cameras s) = stats_file c \<and> s_closed s = []"

lemma getJsonNode_file: "stats_file (fst (getJsonNode s)) = stats_file s"
proof -
  have "keeps (\<lambda>s'. stats_file s' = stats_file s) rtsp_ref" unfolding rtsp_ref_def by (intro keeps_intros) simp
  moreover have "keeps (\<lambda>s'. stats_file s' = stats_file s) rdlock" by (simp add: keeps_def rdlock_def)
  moreover have "keeps (\<lambda>s'. stats_file s' = stats_file s) rdunlock" by (simp add: keeps_def rdunlock_def upd_def)
  ultimately have "keeps (\<lambda>s'. stats_file s' = stats_file s) getJsonNode" unfolding getJsonNode_def by (intro keeps_intros)
  then show ?thesis by (simp add: keeps_def)
qed

lemma keeps_listing [keeps_intros]: "keeps (same_cameras c) (on_cameras getJsonNode)"
  unfolding keeps_def
proof (intro allI impI)
  fix s assume s: "same_cameras c s"
  then obtain c' j where "getJsonNode (s_cameras s) = (c', Done j)" "cameras_ok c'" "cams c' = cams (s_cameras s)"
    using settings.get_law [of "s_cameras s"] by (auto simp: same_cameras_def)
  then show "same_cameras c (fst (on_cameras getJsonNode s))"
    using s getJsonNode_file [of "s_cameras s"] by (simp add: on_cameras_def same_cameras_def)
qed

lemma keeps_same [keeps_intros]: "keeps (same_cameras c) (sendResponse t ok)" "keeps (same_cameras c) (reply_json E j)"
  by (auto simp: sendResponse_def reply_json_def same_cameras_def intro!: keeps_intros)

lemma onRequest_refused:
  assumes "authcheck E request True = Inr (False, m)" "refused c request r s" "cameras_ok c"
  shows "same_cameras c (fst (onRequest E r s))"
proof -
  have s: "same_cameras c s" using assms(2,3) by (simp add: refused_def untouched_def same_cameras_def)
  show ?thesis
  proof (cases "r = Get")
    case False
    have "keeps (same_cameras c) post_onRequest" "keeps (same_cameras c) put_onRequest" "keeps (same_cameras c) delete_onRequest"
      "keeps (same_cameras c) options_onRequest" "keeps (same_cameras c) basic_onRequest"
      by (auto simp: post_onRequest_def put_onRequest_def delete_onRequest_def options_onRequest_def basic_onRequest_def Let_def
          same_cameras_def intro!: keeps_intros)
    then show ?thesis using False s by (cases r) (simp_all add: keeps_def)
  next
    case True
    have rq: "s_request s = request" using assms(2) True by (simp add: refused_def logs_in_def)
    have list: "bind (of_res (authcheck E request True)) (\<lambda>(ok, msg). if ok then n else sendResponse msg False) = sendResponse m False" for n
      using assms(1) by (simp add: fun_eq_iff bind_def of_res_def)
    have "keeps (same_cameras c) (bind (on_cameras getJsonNode) (\<lambda>node. bind (of_res (g node)) (reply_json E)))" for g
      by (intro keeps_intros)
    moreover have "keeps (same_cameras c) (case j of Object kvs \<Rightarrow> bind (of_res (record_days E b cam kvs)) (\<lambda>days. reply_json E (Object days))
        | j \<Rightarrow> reply_json E j)" for j b cam
      by (cases j) (auto intro!: keeps_intros)
    ultimately show ?thesis
      using s by (simp add: True get_onRequest_def with_state_def rq Let_def list [simplified] keeps_def)
        (auto simp: keeps_intros [unfolded keeps_def] ret_def)
  qed
qed

text \<open>
  C8: Without a token that is accepted nothing changes: whatever the method, the address and
  the body, in however many pieces it arrives, a request that authcheck refuses leaves the
  cameras, the file and the lock as they are and closes no camera.
\<close>

theorem only_authorised_requests_change:
  assumes "cameras_ok c" "authcheck E request True = Inr (False, m)"
  shows "same_cameras c (fst (serve E request pieces c))"
proof -
  let ?r = "createResponder request"
  have init: "refused c request ?r (session_init c request)" by (simp add: refused_def untouched_def session_init_def)
  have k: "keeps (refused c request ?r) (each (onPayload E ?r) pieces)"
    by (intro keeps_each onPayload_refused [OF assms(2)])
  have same: "same_cameras c s" if "refused c request ?r s" for s
    using that assms(1) by (simp add: refused_def untouched_def same_cameras_def)
  obtain s out where e: "each (onPayload E ?r) pieces (session_init c request) = (s, out)"
    by (cases "each (onPayload E ?r) pieces (session_init c request)")
  then have s: "refused c request ?r s" using k init by (auto simp: keeps_def dest: spec [of _ "session_init c request"])
  show ?thesis
    using e same [OF s] onRequest_refused [OF assms(2) s assms(1)]
    by (cases out) (simp_all add: serve_def Let_def bind_def)
qed

theorem only_authorised_requests_change_witness:
  "same_cameras cameras_init (fst (serve example_env
     \<lparr>msg_version = HTTP_1_1, msg_headers = [(''Host'', ''server'')], req_method = ''DELETE'', req_uri = ''/api''\<rparr> [''add'', ''bad''] cameras_init))"
  by (rule only_authorised_requests_change [OF camera_init_ok])
     (simp add: authcheck_def msg_has_def nv_has_def)

subsection \<open>Accepted changes\<close>

text \<open>
  C9: When the settings file can be opened, a camera put with an accepted token in a request
  with a Host header, whose body arrives in one piece, is in the settings afterwards under its
  name with exactly the value sent, the other cameras are as they were, the file holds the new
  settings, and the answer is 200 with Success. The value must have its recording as a string,
  as must the value stored before.
\<close>

theorem put_is_stored:
  assumes "cameras_ok c" "e_dump4 E = (\<lambda>j. Inr (pr j))" "e_can_open E"
    "msg_has request ''Host''" "req_method request = ''PUT''" "authcheck E request True = Inr (True, m)"
    "e_parse E (c_str body) = Inr (Object [(cam, Object kvs)])" "map_of kvs ''recording'' = Some (String rec)"
    "case cams c cam of None \<Rightarrow> True | Some v \<Rightarrow> json_find ''recording'' v = None \<or> (\<exists>t. json_find ''recording'' v = Some (String t))"
  shows "\<exists>s. serve E request [body] c = (s, Done ()) \<and>
    s_sent s = [response_text ''200 OK'' ''text/plain'' ''Success''] \<and> cameras_ok (s_cameras s) \<and>
    cams (s_cameras s) = (cams c)(cam \<mapsto> Object kvs) \<and> stats_file (s_cameras s) = Some (pr (enc_root (s_cameras s)))"
proof -
  have plain: "\<not> (cams c cam \<noteq> None \<and> (\<exists>v. json_find ''recording'' (the (cams c cam)) = Some v \<and> (\<exists>e. json_string v = Inl e)))"
    using assms(9) by (auto split: option.splits)
  obtain c1 prev where g: "getNodeState cam ''recording'' c = (c1, Done prev)" "cams c1 = cams c" "cameras_ok c1"
    using getNodeState_run [OF assms(1), of cam "''recording''"] plain assms(9) by (auto split: option.splits sum.splits)
  obtain c2 where p: "putNode (\<lambda>j. Inr (pr j)) True (Object [(cam, Object kvs)]) c1 = (c2, Done (True, [cam]))"
    "cameras_ok c2" "cams c2 = (cams c1)(cam \<mapsto> Object kvs)" "stats_file c2 = Some (pr (enc_root c2))"
    using putNode_run [OF g(3), of pr "Object [(cam, Object kvs)]"] by auto
  let ?s = "session_init c request"
  have auth: "authcheck E (s_request ?s) True = Inr (True, m)" using assms(6) by (simp add: session_init_def)
  have payload: "put_onPayload E body ?s =
      (?s\<lparr>s_msg := m, settingCam := Object [(cam, Object kvs)], s_cameras := c2, s_ret := True\<rparr>, Done ())"
    using g(1) p(1) assms(3,7,8) auth
    by (simp add: put_onPayload_def op_simps first_item_def assms(2) session_init_def)
  show ?thesis
    using payload p g(2)
    by (simp add: serve_def createResponder_simps(2) [OF assms(4,5)] op_simps put_onRequest_def session_init_def Let_def)
qed

theorem put_is_stored_witness:
  "\<exists>s. serve example_env (example_request ''PUT'' ''/api'') [''add''] cameras_init = (s, Done ()) \<and>
    cams (s_cameras s) = Map.empty(''cam1'' \<mapsto> Object [(''recording'', String ''on'')])"
proof -
  have e: "cams cameras_init = Map.empty" by (simp add: cams_def cameras_init_def camera_map_def)
  show ?thesis
    using put_is_stored [OF camera_init_ok _ _ example_headers(1,4) example_auth, of "\<lambda>j. if j = Null then ''null'' else ''cameras''" "''add''"
        "''cam1''" "[(''recording'', String ''on'')]" "''on''"]
    by (auto simp: example_env_def c_str_def e)
qed

text \<open>
  C15: One authorised DELETE with a list that holds anything but strings stops the server: it
  is answered with a failure, since the exception is caught, but the lock stays taken. From
  then on every GET for the list of the cameras that gets past authcheck, and for the two
  listings that need no token, aborts the process when it is served by the thread that took
  the lock (the lock reports a deadlock to libuv, which aborts), and waits for ever on any
  other.
\<close>

theorem bad_delete_stops_server:
  assumes "cameras_ok c" "msg_has request ''Host''" "req_method request = ''DELETE''"
    "authcheck E request True = Inr (True, m)"
    "e_parse E (c_str body) = Inr (Array (map String ks @ x # xs))" "json_string x = Inl e"
    "msg_has request' ''Host''" "req_method request' = ''GET''"
    "req_uri request' = ''/api/camlist'' \<and> authcheck E' request' True = Inr (True, m') \<or>
     req_uri request' = ''/api/camtree'' \<or> req_uri request' = ''/api/recordcam''"
  shows "\<exists>s. serve E request [body] c = (s, Done ()) \<and> s_sent s = [response_text ''404 Not Found'' ''text/plain'' ''failure''] \<and>
    snd (serve E' request' [] ((s_cameras s)\<lparr>this_thread := t\<rparr>)) = (if t = this_thread c then Throws Assertion_failed else Blocked)"
proof -
  have names: "delete_names (Array (map String ks @ x # xs)) = map Inr ks @ Inl e # map json_string xs"
    using assms(6) by (simp add: delete_names_def comp_def)
  obtain c' where d: "deleteNode (e_dump4 E) (e_can_open E) (Array (map String ks @ x # xs)) c = (c', Throws e)" "rw_writer c'"
    "rw_owner c' = this_thread c"
    using deleteNode_throws [OF assms(1) names] by blast
  have e: "thrown e" using assms(6) by (cases x) (auto simp: thrown_def)
  let ?s = "session_init c request"
  have auth: "authcheck E (s_request ?s) True = Inr (True, m)" using assms(4) by (simp add: session_init_def)
  have payload: "delete_onPayload E body ?s = (?s\<lparr>settingCam := Null, s_cameras := c'\<rparr>, Done ())"
    using d(1) e auth assms(5) by (simp add: delete_onPayload_def op_simps session_init_def)
  have run: "serve E request [body] c = (?s\<lparr>settingCam := Null, s_cameras := c',
      s_sent := [response_text ''404 Not Found'' ''text/plain'' ''failure'']\<rparr>, Done ())"
    using payload by (simp add: serve_def createResponder_simps(4) [OF assms(2,3)] op_simps delete_onRequest_def session_init_def)
  let ?out = "if t = this_thread c then Throws Assertion_failed else Blocked" and ?c = "c'\<lparr>this_thread := t\<rparr>"
  have st: "rw_writer ?c" "stuck ?c = ?out" using d(2,3) by (auto simp: stuck_def)
  have blocked: "on_cameras (getNode d) s = (s, stuck ?c)" "on_cameras getJsonNode s = (s, stuck ?c)" if "s_cameras s = ?c" for s d
    using writer_blocks [OF st(1)] that by (simp_all add: on_cameras_def stuck_def)
  have "snd (serve E' request' [] ?c) = stuck ?c"
    using assms(9) by (auto simp: serve_def createResponder_simps(3) [OF assms(7,8)] op_simps get_onRequest_def session_init_def blocked)
  then show ?thesis using run st(2) by auto
qed

theorem bad_delete_stops_server_witness:
  "\<exists>s. serve example_env (example_request ''DELETE'' ''/api'') [''bad''] cameras_init = (s, Done ()) \<and>
    snd (serve example_env (example_request ''GET'' ''/api/camtree'') [] ((s_cameras s)\<lparr>this_thread := 0\<rparr>)) = Throws Assertion_failed"
  using bad_delete_stops_server [where t = 0, OF camera_init_ok example_headers(1,4) example_auth, of "''bad''" "[]" "Boolean True" "[]"
      "Runtime_error ''type must be string''" "example_request ''GET'' ''/api/camtree''" example_env]
  by (auto simp: cameras_init_def example_env_def c_str_def example_headers)

text \<open>A body that comes in pieces of which none is JSON by itself is lost, though the whole is.\<close>

lemma split_body_lost:
  assumes "msg_has request ''Host''" "req_method request = ''POST''"
    "\<And>p. p \<in> set pieces \<Longrightarrow> \<exists>e. e_parse E (c_str p) = Inl e \<and> thrown e"
  shows "\<exists>s. serve E request pieces c = (s, Done ()) \<and> s_cameras s = c \<and>
    s_sent s = [response_text ''404 Not Found'' ''text/plain'' ''failure'']"
proof -
  have p: "post_onPayload E p s = (s\<lparr>settingCam := Null\<rparr>, Done ())" if mem: "p \<in> set pieces" for p s
  proof -
    obtain e where e: "e_parse E (c_str p) = Inl e" "thrown e" using assms(3) [OF mem] by blast
    have "bind (parse_body E p) (\<lambda>_. ret True) s = (s, Throws e)" using e(1) by (simp add: op_simps)
    then have "catch_all (bind (parse_body E p) (\<lambda>_. ret True)) (bind set_null (\<lambda>_. ret False)) s = (s\<lparr>settingCam := Null\<rparr>, Done False)"
      using e(2) by (simp add: catch_all_def op_simps)
    then show ?thesis unfolding post_onPayload_def by (subst bind_bool(2), assumption) (simp add: op_simps)
  qed
  have "settingCam s = Null \<Longrightarrow> set ps \<subseteq> set pieces \<Longrightarrow> each (post_onPayload E) ps s = (s, Done ())" for ps s
    by (induction ps arbitrary: s) (auto simp: op_simps p)
  moreover have "onPayload E Post = post_onPayload E" by (simp add: fun_eq_iff)
  ultimately have "each (onPayload E Post) pieces (session_init c request) = (session_init c request, Done ())"
    by (simp add: session_init_def)
  then show ?thesis
    by (simp add: serve_def createResponder_simps(1) [OF assms(1,2)] op_simps post_onRequest_def Let_def) (simp add: session_init_def)
qed

text \<open>
  The path of a request is put behind a dot as it is: an address that climbs out of the directory is served.
\<close>

lemma files_outside_are_served:
  assumes "req_uri request = ''/../'' @ name" "fs (''./../'' @ name) = Contents content" "length content < 2 ^ 32"
  shows "snd (files_onRequest fs request b) =
    response_text ''200 OK'' (content_type_of (''./../'' @ name) (b_content_type b)) content"
  using assms by (simp add: files_onRequest_def render_def after_render_def Let_def)

text \<open>The length that a response announces is that of its body.\<close>

lemma response_announces_length:
  "\<exists>head. response_text code ct result = head @ ''Content-Length: '' @ itostr (int (length result)) @ crlf
     @ ''Access-Control-Allow-Origin: *'' @ crlf @ crlf @ result"
  unfolding response_text_def by (rule exI [of _ "''HTTP/1.1 '' @ code @ crlf @ ''Content-Type: '' @ ct @ crlf @ ''Connection: close'' @ crlf"]) simp

end
