(* ===== verification/Camera_Viewers.thy ===== *)
theory Camera_Viewers
  imports Camera_Settings
begin

text \<open>
  Who watches which camera (\<open>RestApi\<close> in \<open>broadcast/src/restApi.cpp\<close>): a WebSocket connection asks for a camera with a
  message \<open>camera/date/hour/time/\<close>, and the server keeps one parser per camera with the number of connections that
  asked for it. Connections are numbers; the settings are those of \<open>Camera_Settings\<close>. The server hears of the end
  of a connection only by a CLOSE frame (\<open>websocket.cpp\<close>): when the TCP connection just goes away,
  \<open>HttpConnection::on_close\<close> tells \<open>on_close\<close> of the server, which does nothing, and the WebSocket connection is deleted.
\<close>

subsection \<open>State and operations\<close>

record rest_api =
  ra_cameras :: cameras
  ra_parser :: "string \<rightharpoonup> int"
  ra_key :: "nat \<rightharpoonup> string"
  ra_pushed :: "(nat \<times> string) list"
  ra_deleted :: "(string \<times> string) list"

definition rest_api_init :: "cameras \<Rightarrow> rest_api" where
  "rest_api_init c = \<lparr>ra_cameras = c, ra_parser = Map.empty, ra_key = Map.empty, ra_pushed = [], ra_deleted = []\<rparr>"

definition ra_settings :: "(cameras, 'a) op \<Rightarrow> (rest_api, 'a) op" where
  "ra_settings m a = (case m (ra_cameras a) of (c, out) \<Rightarrow> (a\<lparr>ra_cameras := c\<rparr>, out))"

text \<open>The four parts of the message; what has no slash behind it stays empty.\<close>

definition cut_slash :: "string \<Rightarrow> string \<times> string" where
  "cut_slash s = (if CHR ''/'' \<in> set s then (takeWhile (\<lambda>c. c \<noteq> CHR ''/'') s, tl (dropWhile (\<lambda>c. c \<noteq> CHR ''/'') s)) else ([], s))"

definition message_parts :: "string \<Rightarrow> string \<times> string \<times> string \<times> string" where
  "message_parts s = (case cut_slash s of (camT, s) \<Rightarrow> case cut_slash s of (date, s) \<Rightarrow>
     case cut_slash s of (hr, s) \<Rightarrow> case cut_slash s of (time, s) \<Rightarrow> (camT, date, hr, time))"

text \<open>The constructor of a parser only looks the camera up.\<close>

definition stParser :: "string \<Rightarrow> (rest_api, unit) op" where
  "stParser cam = bind (ra_settings (getNodeState cam ''rtsp'')) (\<lambda>_. ret ())"

definition addCamera :: "string \<Rightarrow> (rest_api, unit) op" where
  "addCamera cam = with_state (\<lambda>a. case ra_parser a cam of
       Some n \<Rightarrow> upd (\<lambda>a. a\<lparr>ra_parser := (ra_parser a)(cam \<mapsto> n + 1)\<rparr>)
     | None \<Rightarrow> bind (stParser cam) (\<lambda>_. upd (\<lambda>a. a\<lparr>ra_parser := (ra_parser a)(cam \<mapsto> 0 + 1)\<rparr>)))"

definition delCamera :: "string \<Rightarrow> (rest_api, unit) op" where
  "delCamera cam = with_state (\<lambda>a. case ra_parser a cam of
       None \<Rightarrow> ret ()
     | Some n \<Rightarrow> (let n = n - 1 in if n = 0 then upd (\<lambda>a. a\<lparr>ra_parser := (ra_parser a)(cam := None)\<rparr>)
                  else upd (\<lambda>a. a\<lparr>ra_parser := (ra_parser a)(cam \<mapsto> n)\<rparr>)))"

definition forceDelCamera :: "string \<Rightarrow> (rest_api, unit) op" where
  "forceDelCamera cam = with_state (\<lambda>a. case ra_parser a cam of
       None \<Rightarrow> ret () | Some _ \<Rightarrow> upd (\<lambda>a. a\<lparr>ra_parser := (ra_parser a)(cam := None)\<rparr>))"

definition push :: "nat \<Rightarrow> string \<Rightarrow> (rest_api, unit) op" where
  "push con msg = upd (\<lambda>a. a\<lparr>ra_pushed := ra_pushed a @ [(con, msg)]\<rparr>)"

text \<open>A connection is made with an empty \<open>key\<close> (\<open>websocket.h\<close>); \<open>on_wsconnect\<close> does nothing.\<close>

definition new_connection :: "nat \<Rightarrow> (rest_api, unit) op" where
  "new_connection con = upd (\<lambda>a. a\<lparr>ra_key := (ra_key a)(con \<mapsto> [])\<rparr>)"

definition delete_connection :: "nat \<Rightarrow> (rest_api, unit) op" where
  "delete_connection con = upd (\<lambda>a. a\<lparr>ra_key := (ra_key a)(con := None)\<rparr>)"

definition on_wsconnect :: "nat \<Rightarrow> (rest_api, unit) op" where
  "on_wsconnect con = ret ()"

definition on_wsread :: "nat \<Rightarrow> string \<Rightarrow> (rest_api, unit) op" where
  "on_wsread con msg = (case message_parts msg of (camT, date, hr, time) \<Rightarrow>
     bind (upd (\<lambda>a. a\<lparr>ra_key := (ra_key a)(con \<mapsto> camT)\<rparr>)) (\<lambda>_.
     bind (ra_settings (getNodeState camT ''rtsp'')) (\<lambda>add. case add of
         None \<Rightarrow> push con (''Camera not available, check with Json API Cam: '' @ camT)
       | Some _ \<Rightarrow> addCamera camT)))"

definition on_wsclose :: "nat \<Rightarrow> (rest_api, unit) op" where
  "on_wsclose con = with_state (\<lambda>a. case ra_key a con of None \<Rightarrow> ret () | Some key \<Rightarrow> delCamera key)"

text \<open>\<open>connections\<close> are those of the server in its order.\<close>

definition broadcast :: "(json \<Rightarrow> string res) \<Rightarrow> bool \<Rightarrow> nat list \<Rightarrow> string \<Rightarrow> bool \<Rightarrow> string \<Rightarrow> (rest_api, unit) op" where
  "broadcast dump4 can_open connections data binary cam =
     bind (each (\<lambda>con. with_state (\<lambda>a. if ra_key a con = Some cam then push con data else ret ())) connections) (\<lambda>_.
       if \<not> binary then bind (ra_settings (setNodeState dump4 can_open cam data)) (\<lambda>_. ret ()) else ret ())"

definition deleteAsync :: "string \<Rightarrow> string \<Rightarrow> (rest_api, unit) op" where
  "deleteAsync cam reason = upd (\<lambda>a. a\<lparr>ra_deleted := ra_deleted a @ [(cam, reason)]\<rparr>)"

definition postAppMessage :: "(json \<Rightarrow> string res) \<Rightarrow> bool \<Rightarrow> string \<Rightarrow> bool \<Rightarrow> string \<Rightarrow> (rest_api, unit) op" where
  "postAppMessage dump4 can_open cam textdel reason =
     (if textdel then bind (ra_settings (setNodeState dump4 can_open cam reason)) (\<lambda>_. deleteAsync cam reason) else ret ())"

subsection \<open>Every viewer is counted once\<close>

text \<open>
  The histories of connections that each ask at most once, for a camera the settings have at the time (with an
  address that is a string), while the settings change in any way in between. A connection ends by a CLOSE frame, or
  its TCP connection is dropped. The list remembers what the dropped ones had asked for.
\<close>

definition available :: "rest_api \<Rightarrow> string \<Rightarrow> bool" where
  "available a cam \<longleftrightarrow> cameras_ok (ra_cameras a) \<and> cam \<noteq> [] \<and>
     (\<exists>v t. cams (ra_cameras a) cam = Some v \<and> json_find ''rtsp'' v = Some (String t))"

inductive watched :: "cameras \<Rightarrow> rest_api \<Rightarrow> string list \<Rightarrow> bool" for c where
  start: "watched c (rest_api_init c) []"
| connect: "watched c a gone \<Longrightarrow> con \<notin> dom (ra_key a) \<Longrightarrow>
    watched c (fst (bind (new_connection con) (\<lambda>_. on_wsconnect con) a)) gone"
| ask: "watched c a gone \<Longrightarrow> ra_key a con = Some [] \<Longrightarrow> available a (fst (message_parts msg)) \<Longrightarrow>
    watched c (fst (on_wsread con msg a)) gone"
| close_frame: "watched c a gone \<Longrightarrow> ra_key a con = Some key \<Longrightarrow>
    watched c (fst (bind (on_wsclose con) (\<lambda>_. delete_connection con) a)) gone"
| drop: "watched c a gone \<Longrightarrow> ra_key a con = Some key \<Longrightarrow> watched c (fst (delete_connection con a)) (key # gone)"
| settings: "watched c a gone \<Longrightarrow> watched c (a\<lparr>ra_cameras := c'\<rparr>) gone"

definition watchers :: "rest_api \<Rightarrow> string \<Rightarrow> nat set" where
  "watchers a cam = {con. ra_key a con = Some cam}"

definition count_of :: "rest_api \<Rightarrow> string list \<Rightarrow> string \<Rightarrow> nat" where
  "count_of a gone cam = card (watchers a cam) + count_list gone cam"

definition counted :: "rest_api \<Rightarrow> string list \<Rightarrow> bool" where
  "counted a gone \<longleftrightarrow> finite (dom (ra_key a)) \<and> ra_parser a [] = None \<and>
     (\<forall>cam. cam \<noteq> [] \<longrightarrow> ra_parser a cam = (if count_of a gone cam = 0 then None else Some (int (count_of a gone cam))))"

lemma watchers_upd:
  "watchers (a\<lparr>ra_key := (ra_key a)(con \<mapsto> k)\<rparr>) cam = (if cam = k then insert con (watchers a cam) else watchers a cam - {con})"
  "watchers (a\<lparr>ra_key := (ra_key a)(con := None)\<rparr>) cam = watchers a cam - {con}"
  by (auto simp: watchers_def)

lemma watchers_other [simp]:
  "watchers (a\<lparr>ra_parser := p\<rparr>) = watchers a" "watchers (a\<lparr>ra_cameras := c\<rparr>) = watchers a"
  by (simp_all add: watchers_def fun_eq_iff)

lemma count_of_other [simp]:
  "count_of (a\<lparr>ra_parser := p\<rparr>) = count_of a" "count_of (a\<lparr>ra_cameras := c\<rparr>) = count_of a"
  "count_of (a\<lparr>ra_parser := p, ra_key := k\<rparr>) = count_of (a\<lparr>ra_key := k\<rparr>)"
  "count_of (a\<lparr>ra_cameras := c, ra_key := k\<rparr>) = count_of (a\<lparr>ra_key := k\<rparr>)"
  by (simp_all add: count_of_def watchers_def fun_eq_iff)

lemma finite_watchers: "finite (dom (ra_key a)) \<Longrightarrow> finite (watchers a cam)"
  by (rule finite_subset [of _ "dom (ra_key a)"]) (auto simp: watchers_def)

lemma settings_lookup:
  assumes "available a cam"
  shows "\<exists>c t. ra_settings (getNodeState cam ''rtsp'') a = (a\<lparr>ra_cameras := c\<rparr>, Done (Some t)) \<and>
    cameras_ok c \<and> cams c = cams (ra_cameras a)"
proof -
  obtain v t where v: "cams (ra_cameras a) cam = Some v" "json_find ''rtsp'' v = Some (String t)" "cameras_ok (ra_cameras a)"
    using assms by (auto simp: available_def)
  then obtain c where "getNodeState cam ''rtsp'' (ra_cameras a) = (c, Done (Some t))" "cameras_ok c" "cams c = cams (ra_cameras a)"
    using getNodeState_run [OF v(3), of cam "''rtsp''"] by auto
  then show ?thesis by (intro exI [of _ c] exI [of _ t]) (simp add: ra_settings_def)
qed

lemma available_upd [simp]:
  "available (a\<lparr>ra_key := k\<rparr>) cam = available a cam"
  by (simp add: available_def)

text \<open>What asking does: the key is set and the count of the camera goes up by one.\<close>

lemma on_wsread_run:
  assumes "available a (fst (message_parts msg))"
  shows "\<exists>c. on_wsread con msg a = (a\<lparr>ra_cameras := c, ra_key := (ra_key a)(con \<mapsto> fst (message_parts msg)),
      ra_parser := (ra_parser a)(fst (message_parts msg) \<mapsto> (case ra_parser a (fst (message_parts msg)) of Some n \<Rightarrow> n + 1 | None \<Rightarrow> 1))\<rparr>, Done ()) \<and>
    cameras_ok c \<and> cams c = cams (ra_cameras a)"
proof -
  obtain cam d h t where m: "message_parts msg = (cam, d, h, t)" by (cases "message_parts msg")
  have av: "available a cam" using assms m by simp
  let ?a = "a\<lparr>ra_key := (ra_key a)(con \<mapsto> cam)\<rparr>"
  obtain c t1 where c: "ra_settings (getNodeState cam ''rtsp'') ?a = (?a\<lparr>ra_cameras := c\<rparr>, Done (Some t1))" "cameras_ok c" "cams c = cams (ra_cameras ?a)"
    using settings_lookup [of ?a cam] av by auto
  have "available (?a\<lparr>ra_cameras := c\<rparr>) cam" using av c(2,3) by (simp add: available_def)
  then obtain c' t2 where c': "ra_settings (getNodeState cam ''rtsp'') (?a\<lparr>ra_cameras := c\<rparr>) = (?a\<lparr>ra_cameras := c'\<rparr>, Done (Some t2))"
      "cameras_ok c'" "cams c' = cams c"
    using settings_lookup [of "?a\<lparr>ra_cameras := c\<rparr>" cam] by auto
  show ?thesis
  proof (cases "ra_parser a cam")
    case None
    then show ?thesis using c c' by (intro exI [of _ c']) (simp add: on_wsread_def m op_simps addCamera_def stParser_def)
  next
    case (Some n)
    then show ?thesis using c by (intro exI [of _ c]) (simp add: on_wsread_def m op_simps addCamera_def)
  qed
qed

lemma close_frame_run:
  "ra_key a con = Some k \<Longrightarrow> bind (on_wsclose con) (\<lambda>_. delete_connection con) a =
     (a\<lparr>ra_parser := (case ra_parser a k of None \<Rightarrow> ra_parser a | Some n \<Rightarrow> if n - 1 = 0 then (ra_parser a)(k := None) else (ra_parser a)(k \<mapsto> n - 1)),
        ra_key := (ra_key a)(con := None)\<rparr>, Done ())"
  by (cases "ra_parser a k") (auto simp: on_wsclose_def delCamera_def delete_connection_def op_simps Let_def)

lemma counted_ask:
  assumes "counted a gone" "ra_key a con = Some []" "cam \<noteq> []"
  shows "counted (a\<lparr>ra_cameras := c, ra_key := (ra_key a)(con \<mapsto> cam),
    ra_parser := (ra_parser a)(cam \<mapsto> (case ra_parser a cam of Some n \<Rightarrow> n + 1 | None \<Rightarrow> 1))\<rparr>) gone" (is "counted ?a gone")
proof -
  have new: "con \<notin> watchers a k" if "k \<noteq> []" for k using assms(2) that by (simp add: watchers_def)
  have fin: "finite (watchers a cam)" using assms(1) by (intro finite_watchers) (simp add: counted_def)
  have n: "count_of (a\<lparr>ra_key := (ra_key a)(con \<mapsto> cam)\<rparr>) gone k = (if k = cam then count_of a gone k + 1 else count_of a gone k)"
    if "k \<noteq> []" for k
    using new [OF that] fin by (cases "k = cam") (simp_all add: count_of_def watchers_upd)
  have "count_of a gone cam = 0 \<longleftrightarrow> ra_parser a cam = None" using assms(1,3) by (simp add: counted_def)
  then show ?thesis using assms n unfolding counted_def by auto
qed

lemma count_of_delete:
  assumes "finite (dom (ra_key a))" "ra_key a con = Some k"
  shows "count_of (a\<lparr>ra_key := (ra_key a)(con := None)\<rparr>) gone cam =
      (if cam = k then count_of a gone cam - 1 else count_of a gone cam)"
    "count_of a gone k > 0"
proof -
  have con: "con \<in> watchers a c \<longleftrightarrow> c = k" for c using assms(2) by (auto simp: watchers_def)
  have fin: "finite (watchers a c)" for c using assms(1) by (rule finite_watchers)
  have pos: "card (watchers a k) > 0" using con fin card_gt_0_iff by blast
  show "count_of (a\<lparr>ra_key := (ra_key a)(con := None)\<rparr>) gone cam =
      (if cam = k then count_of a gone cam - 1 else count_of a gone cam)"
    using con fin pos by (auto simp: count_of_def watchers_upd card_Diff_singleton)
  show "count_of a gone k > 0" using pos by (simp add: count_of_def)
qed

lemma counted_close_frame:
  assumes "counted a gone" "ra_key a con = Some k"
  shows "counted (a\<lparr>ra_parser := (case ra_parser a k of None \<Rightarrow> ra_parser a | Some n \<Rightarrow> if n - 1 = 0 then (ra_parser a)(k := None) else (ra_parser a)(k \<mapsto> n - 1)),
        ra_key := (ra_key a)(con := None)\<rparr>) gone"
proof -
  have fin: "finite (dom (ra_key a))" using assms(1) by (simp add: counted_def)
  note d = count_of_delete [OF fin assms(2)]
  show ?thesis
  proof (cases "k = []")
    case True
    then show ?thesis using assms(1) d(1) by (simp add: counted_def)
  next
    case False
    have n: "ra_parser a k = Some (int (count_of a gone k))" using assms(1) False d(2) [of gone] by (simp add: counted_def)
    obtain m where m: "count_of a gone k = Suc m" using d(2) [of gone] by (cases "count_of a gone k") auto
    have "ra_parser a c = (if count_of a gone c = 0 then None else Some (int (count_of a gone c)))" if "c \<noteq> []" for c
      using assms(1) that by (simp add: counted_def)
    moreover have "ra_parser a [] = None" using assms(1) by (simp add: counted_def)
    ultimately show ?thesis using n fin False unfolding counted_def by (simp add: d(1) m)
  qed
qed

lemma counted_drop:
  assumes "counted a gone" "ra_key a con = Some k"
  shows "counted (a\<lparr>ra_key := (ra_key a)(con := None)\<rparr>) (k # gone)"
proof -
  have fin: "finite (dom (ra_key a))" using assms(1) by (simp add: counted_def)
  note d = count_of_delete [OF fin assms(2)]
  have "count_of (a\<lparr>ra_key := (ra_key a)(con := None)\<rparr>) (k # gone) cam = count_of a gone cam" for cam
    using d(1) [of gone cam] d(2) [of gone] by (auto simp: count_of_def)
  then show ?thesis using assms(1) by (simp add: counted_def)
qed


definition example_cameras :: cameras where
  "example_cameras = \<lparr>enc_root = Object [(''rtsp'', Object [(''cam1'', Object [(''rtsp'', String ''rtsp://one'')]),
      (''cam2'', Object [(''rtsp'', String ''rtsp://two'')])])], rw_readers = 0, rw_writer = False, rw_owner = 0, this_thread = 0, stats_file = None\<rparr>"

lemma example_available:
  "available (a\<lparr>ra_cameras := example_cameras\<rparr>) ''cam1''" "available (a\<lparr>ra_cameras := example_cameras\<rparr>) ''cam2''"
  by (simp_all add: available_def example_cameras_def cameras_ok_def unlocked_def camera_list_def cams_def camera_map_def)


text \<open>
  A connection that asks for a second camera forgets the first: when it closes, the parser of the first stays for ever.
\<close>

lemma second_camera_is_kept:
  assumes "available a cam1" "available a cam2" "cam1 \<noteq> cam2" "ra_parser a cam1 = None" "CHR ''/'' \<notin> set cam1" "CHR ''/'' \<notin> set cam2"
  shows "\<exists>a'. bind (on_wsread con (cam1 @ ''/'')) (\<lambda>_. bind (on_wsread con (cam2 @ ''/'')) (\<lambda>_.
      bind (on_wsclose con) (\<lambda>_. delete_connection con))) a = (a', Done ()) \<and>
    ra_parser a' cam1 = Some 1 \<and> ra_key a' con = None"
proof -
  have m: "fst (message_parts (cam @ ''/'')) = cam" if "CHR ''/'' \<notin> set cam" for cam
  proof -
    have "takeWhile (\<lambda>c. c \<noteq> CHR ''/'') (cam @ ''/'') = cam" "tl (dropWhile (\<lambda>c. c \<noteq> CHR ''/'') (cam @ ''/'')) = []"
      using that by (induction cam) auto
    then show ?thesis by (simp add: message_parts_def cut_slash_def)
  qed
  obtain c where r1: "on_wsread con (cam1 @ ''/'') a = (a\<lparr>ra_cameras := c, ra_key := (ra_key a)(con \<mapsto> cam1),
      ra_parser := (ra_parser a)(cam1 \<mapsto> 1)\<rparr>, Done ())" "cameras_ok c" "cams c = cams (ra_cameras a)"
    using on_wsread_run [of a "cam1 @ ''/''" con] assms(1,4) by (auto simp: m [OF assms(5)])
  let ?b = "a\<lparr>ra_cameras := c, ra_key := (ra_key a)(con \<mapsto> cam1), ra_parser := (ra_parser a)(cam1 \<mapsto> 1)\<rparr>"
  have "available ?b cam2" using assms(2) r1(2,3) by (simp add: available_def)
  then obtain c' where r2: "on_wsread con (cam2 @ ''/'') ?b = (?b\<lparr>ra_cameras := c', ra_key := (ra_key ?b)(con \<mapsto> cam2),
      ra_parser := (ra_parser ?b)(cam2 \<mapsto> (case ra_parser ?b cam2 of Some n \<Rightarrow> n + 1 | None \<Rightarrow> 1))\<rparr>, Done ())"
    using on_wsread_run [of ?b "cam2 @ ''/''" con] by (auto simp: m [OF assms(6)])
  show ?thesis
    using r1 r2 assms(3) by (simp add: op_simps close_frame_run)
qed

end
