(* ===== verification/Web_Text.thy ===== *)
theory Web_Text
  imports Security_Token Http_Message
begin

text \<open>
  Texts of the web layer: addresses and their escapes (\<open>http/src/url.cpp\<close>) and the adapters that put packets into
  an HTTP response (\<open>http/src/packetizers.cpp\<close>). The parser of addresses (\<open>http_parser_parse_url\<close>) is an argument.
\<close>

subsection \<open>Escapes\<close>

definition unreserved :: string where
  "unreserved = ''ABCDEFGHIJKLMNOPQRSTUVWXYZabcdefghijklmnopqrstuvwxyz0123456789-_.~''"

definition url_digits :: string where
  "url_digits = ''0123456789ABCDEF''"

text \<open>
  \<open>sprintf("%.2X")\<close> of a \<open>char\<close>: two digits up to 127; a character from 128 on is negative, prints eight digits and
  overflows the three bytes of the buffer.
\<close>

definition escape_char :: "char \<Rightarrow> string res" where
  "escape_char c = (let n = of_char c :: nat in
     if n \<ge> 128 then Inl Undefined_behaviour else Inr [CHR ''%'', url_digits ! (n div 16), url_digits ! (n mod 16)])"

fun url_encode :: "string \<Rightarrow> string res" where
  "url_encode [] = Inr []"
| "url_encode (c # s) =
     res_bind (if c \<in> set unreserved then Inr [c] else escape_char c) (\<lambda>e. res_bind (url_encode s) (\<lambda>r. Inr (e @ r)))"

text \<open>\<open>digits.find(c)\<close> in a \<open>char\<close>: the position, or -1 when there is none. The NUL behind the string is no digit.\<close>

definition digit_of :: "char \<Rightarrow> byte" where
  "digit_of c = (if c \<in> set url_digits then word_of_nat (length (takeWhile (\<lambda>d. d \<noteq> c) url_digits)) else -1)"

fun url_decode :: "string \<Rightarrow> string res" where
  "url_decode [] = Inr []"
| "url_decode (c # s) =
     (if c = CHR ''%''
      then (case s of
          [] \<Rightarrow> Inl Undefined_behaviour
        | [a] \<Rightarrow> Inr [char_of (unat (digit_of a * 16 + digit_of CHR 0x00))]
        | a # b # r \<Rightarrow> res_bind (url_decode r) (\<lambda>d. Inr (char_of (unat (digit_of a * 16 + digit_of b)) # d)))
      else res_bind (url_decode s) (\<lambda>d. Inr (c # d)))"

subsection \<open>Addresses\<close>

datatype url_field = UF_SCHEMA | UF_HOST | UF_PORT | UF_PATH | UF_QUERY | UF_FRAGMENT | UF_USERINFO

record url_parts =
  field_set :: "url_field list"
  field_data :: "url_field \<Rightarrow> nat \<times> nat"
  parser_port :: u16

record url =
  u_buf :: string
  u_parser :: url_parts

text \<open>\<open>P\<close> is the parser: the result and the fields it leaves.\<close>

type_synonym url_parser = "string \<Rightarrow> bool \<times> url_parts"

definition URL_parse :: "url_parser \<Rightarrow> string \<Rightarrow> bool \<Rightarrow> (bool \<times> url) res" where
  "URL_parse P address whiny =
     (let src = trim address; r = P src
      in if fst r then Inr (True, \<lparr>u_buf = src, u_parser = snd r\<rparr>)
         else if whiny then Inl (Runtime_error (''Syntax error: Cannot parse invalid URL: '' @ src))
         else Inr (False, \<lparr>u_buf = [], u_parser = snd r\<rparr>))"

text \<open>The constructors parse with \<open>whiny\<close> set, the default.\<close>

definition URL_of :: "url_parser \<Rightarrow> string \<Rightarrow> url res" where
  "URL_of P address = res_bind (URL_parse P address True) (\<lambda>(ok, u). Inr u)"

definition URL_of_authority :: "url_parser \<Rightarrow> string \<Rightarrow> string \<Rightarrow> string \<Rightarrow> url res" where
  "URL_of_authority P schema auth pathEtc = URL_of P (schema @ ''://'' @ auth @ pathEtc)"

definition URL_of_parts :: "url_parser \<Rightarrow> string \<Rightarrow> string \<Rightarrow> string \<Rightarrow> string \<Rightarrow> string \<Rightarrow> url res" where
  "URL_of_parts P schema auth pth qry frag = URL_of P (schema @ ''://'' @ auth @ pth @ ''?'' @ qry @ ''#'' @ frag)"

definition has_field :: "url_field \<Rightarrow> url \<Rightarrow> bool" where
  "has_field f u = (f \<in> set (field_set (u_parser u)))"

text \<open>\<open>substr\<close> throws when the field begins behind the end.\<close>

definition url_part :: "url_field \<Rightarrow> url \<Rightarrow> string res" where
  "url_part f u =
     (if has_field f u
      then (case field_data (u_parser u) f of (off, len) \<Rightarrow>
        if off > length (u_buf u) then Inl Out_of_range else Inr (take len (drop off (u_buf u))))
      else Inr [])"

definition url_scheme :: "url \<Rightarrow> string res" where
  "url_scheme u = res_bind (url_part UF_SCHEMA u) (\<lambda>s. Inr (toLowerInPlace s))"

definition url_port :: "url \<Rightarrow> u16 res" where
  "url_port u =
     (if has_field UF_PORT u then Inr (parser_port (u_parser u))
      else res_bind (url_scheme u) (\<lambda>sc. Inr (if sc = ''http'' then 80 else if sc = ''https'' then 443 else 0)))"

definition url_authority :: "url \<Rightarrow> string res" where
  "url_authority u =
     res_bind (if has_field UF_USERINFO u then res_bind (url_part UF_USERINFO u) (\<lambda>i. Inr (i @ ''@'')) else Inr []) (\<lambda>info.
     res_bind (url_part UF_HOST u) (\<lambda>host.
     res_bind (if has_field UF_PORT u then res_bind (url_port u) (\<lambda>p. Inr ('':'' @ itostr (uint p))) else Inr []) (\<lambda>port.
       Inr (info @ host @ port))))"

definition url_pathEtc :: "url \<Rightarrow> string res" where
  "url_pathEtc u =
     res_bind (url_part UF_PATH u) (\<lambda>pth.
     res_bind (if has_field UF_QUERY u then res_bind (url_part UF_QUERY u) (\<lambda>q. Inr (''?'' @ q)) else Inr []) (\<lambda>qry.
     res_bind (if has_field UF_FRAGMENT u then res_bind (url_part UF_FRAGMENT u) (\<lambda>f. Inr (''#'' @ f)) else Inr []) (\<lambda>frag.
       Inr (pth @ qry @ frag))))"

definition url_valid :: "url \<Rightarrow> bool" where
  "url_valid u = (u_buf u \<noteq> [])"

subsection \<open>Chunks\<close>

record chunked_adapter =
  ca_contentType :: string
  ca_frameSeparator :: string
  ca_initial :: bool

definition ChunkedAdapter :: "string \<Rightarrow> string \<Rightarrow> chunked_adapter" where
  "ChunkedAdapter contentType frameSeparator =
     \<lparr>ca_contentType = contentType, ca_frameSeparator = frameSeparator, ca_initial = True\<rparr>"

definition chunked_header :: "chunked_adapter \<Rightarrow> string" where
  "chunked_header a =
     ''HTTP/1.1 200 OK'' @ crlf
     @ ''Cache-Control: no-store, no-cache, max-age=0, must-revalidate'' @ crlf
     @ ''Cache-Control: post-check=0, pre-check=0, FALSE'' @ crlf
     @ ''Access-Control-Allow-Origin: *'' @ crlf @ ''Connection: keep-alive'' @ crlf @ ''Pragma: no-cache'' @ crlf
     @ ''Expires: 0'' @ crlf @ ''Transfer-Encoding: chunked'' @ crlf
     @ ''Content-Type: '' @ ca_contentType a @ crlf @ crlf"

text \<open>The texts emitted for a packet, in order; an empty packet throws.\<close>

definition chunked_process :: "chunked_adapter \<Rightarrow> string \<Rightarrow> (chunked_adapter \<times> string list) res" where
  "chunked_process a packet =
     (if packet = [] then Inl Invalid_argument
      else (let head = (if ca_initial a then [chunked_header a] else []);
                chunk = hex_number (length packet) @ crlf
                  @ (if ca_frameSeparator a \<noteq> [] then ca_frameSeparator a else []) @ packet @ crlf
            in Inr (a\<lparr>ca_initial := False\<rparr>, head @ [chunk])))"

fun chunked_stream :: "chunked_adapter \<Rightarrow> string list \<Rightarrow> (chunked_adapter \<times> string list) res" where
  "chunked_stream a [] = Inr (a, [])"
| "chunked_stream a (p # ps) =
     res_bind (chunked_process a p) (\<lambda>(a, out). res_bind (chunked_stream a ps) (\<lambda>(a, outs). Inr (a, out @ outs)))"

subsection \<open>Parts of a multipart stream\<close>

definition multipart_header :: string where
  "multipart_header =
     ''HTTP/1.1 200 OK'' @ crlf @ ''Connection: close'' @ crlf @ ''Max-Age: 0'' @ crlf @ ''Expires: 0'' @ crlf
     @ ''Cache-Control: no-cache, private'' @ crlf @ ''Pragma: no-cache'' @ crlf
     @ ''Content-Type: multipart/x-mixed-replace;boundary=--boundary'' @ crlf @ crlf"

definition multipart_body :: string where
  "multipart_body = ''--boundary'' @ crlf @ ''Content-Type: image/jpeg'' @ crlf @ ''Content-Length: ''"

text \<open>The first packet only makes the adapter send its header.\<close>

definition multipart_process :: "bool \<Rightarrow> string \<Rightarrow> bool \<times> string list" where
  "multipart_process initial packet =
     (if initial then (False, [multipart_header])
      else (False, [multipart_body @ itostr (int (length packet)) @ crlf @ crlf @ packet]))"

subsection \<open>Escapes are read back\<close>

lemma url_digit_of: "n < 16 \<Longrightarrow> digit_of (url_digits ! n) = word_of_nat n"
proof -
  have "list_all (\<lambda>n. digit_of (url_digits ! n) = word_of_nat n) [0..<16]" by code_simp
  then show "n < 16 \<Longrightarrow> digit_of (url_digits ! n) = word_of_nat n" by (simp add: list_all_iff)
qed

lemma escape_read:
  assumes "(of_char c :: nat) < 128"
  shows "char_of (unat (digit_of (url_digits ! (of_char c div 16)) * 16 + digit_of (url_digits ! (of_char c mod 16)))) = c"
proof -
  let ?n = "of_char c :: nat"
  have b: "?n div 16 < 16" "?n mod 16 < 16" using assms by simp_all
  have "word_of_nat (?n div 16) * 16 + word_of_nat (?n mod 16) = (word_of_nat (?n div 16 * 16 + ?n mod 16) :: byte)"
    by (simp only: of_nat_add of_nat_mult of_nat_numeral)
  also have "?n div 16 * 16 + ?n mod 16 = ?n" by (rule div_mult_mod_eq)
  finally have "unat (digit_of (url_digits ! (?n div 16)) * 16 + digit_of (url_digits ! (?n mod 16))) = unat (word_of_nat ?n :: byte)"
    by (simp only: url_digit_of [OF b(1)] url_digit_of [OF b(2)])
  then show ?thesis by (simp only: char_byte)
qed

text \<open>
  A text of ASCII characters, escaped for an address, is read back as it was; every text with a character from
  128 on, such as any that is not English in UTF-8, overflows the buffer of the escape.
\<close>

lemma url_escape_roundtrip:
  "if list_all (\<lambda>c. (of_char c :: nat) < 128) s then res_bind (url_encode s) url_decode = Inr s else url_encode s = Inl Undefined_behaviour"
proof -
  have enc: "list_all (\<lambda>c. (of_char c :: nat) < 128) s \<Longrightarrow> \<exists>e. url_encode s = Inr e \<and> url_decode e = Inr s" for s
  proof (induction s)
    case (Cons c s)
    then obtain e where e: "url_encode s = Inr e" "url_decode e = Inr s" by auto
    have "CHR ''%'' \<notin> set unreserved" by (simp add: unreserved_def)
    then show ?case
      using e Cons.prems escape_read [of c] by (auto simp: escape_char_def Let_def)
  qed simp
  have bad: "\<not> list_all (\<lambda>c. (of_char c :: nat) < 128) s \<Longrightarrow> url_encode s = Inl Undefined_behaviour" for s
  proof (induction s)
    case (Cons c s)
    have "list_all (\<lambda>c. (of_char c :: nat) < 128) unreserved" by code_simp
    then have u: "(of_char c :: nat) < 128" if "c \<in> set unreserved" using that by (simp add: list_all_iff)
    show ?case
    proof (cases "(of_char c :: nat) < 128")
      case True
      then show ?thesis using Cons by (auto simp: escape_char_def Let_def)
    next
      case False
      then show ?thesis using u by (auto simp: escape_char_def Let_def)
    qed
  qed simp
  show ?thesis using enc [of s] bad [of s] by auto
qed

subsection \<open>The chunked stream is read back\<close>

definition hex_value :: "string \<Rightarrow> nat" where
  "hex_value ds = foldl (\<lambda>n c. 16 * n + xdigit_val c) 0 ds"

text \<open>How a receiver reads chunks: the size in hexadecimal digits, the bytes, and the ends of both lines.\<close>

function dechunk :: "string \<Rightarrow> string list option" where
  "dechunk s =
     (if s = [] then Some []
      else (let ds = takeWhile isxdigit s; n = hex_value ds; body = drop (length ds + 2) s
            in if ds = [] \<or> take 2 (drop (length ds) s) \<noteq> crlf \<or> take 2 (drop n body) \<noteq> crlf then None
               else map_option (\<lambda>cs. take n body # cs) (dechunk (drop (n + 2) body))))"
  by pat_completeness auto
termination
proof (relation "measure length", goal_cases)
  case (2 s ds n body)
  then have "s \<noteq> []" by simp
  then have "length (drop (n + 2) body) < length s" unfolding 2(4) by simp
  then show ?case by simp
qed simp

declare dechunk.simps [simp del]

lemma hex_char_facts: "isxdigit (hex_digit n)" "xdigit_val (hex_digit n) = n mod 16"
proof -
  have "list_all (\<lambda>n. isxdigit (hex_digit n) \<and> xdigit_val (hex_digit n) = n) [0..<16]" by code_simp
  moreover have "n mod 16 \<in> set [0..<16]" by simp
  moreover have "hex_digit (n mod 16) = hex_digit n" by (simp add: hex_digit_def)
  ultimately show "isxdigit (hex_digit n)" "xdigit_val (hex_digit n) = n mod 16" by (simp_all only: list_all_iff) metis+
qed

lemma hex_number_digits: "list_all isxdigit (hex_number n)" "hex_number n \<noteq> []"
proof -
  show "list_all isxdigit (hex_number n)"
    by (induction n rule: hex_number.induct) (simp add: hex_number.simps hex_char_facts)
  show "hex_number n \<noteq> []" by (simp add: hex_number.simps)
qed

lemma hex_value_number: "hex_value (hex_number n) = n"
proof (induction n rule: hex_number.induct)
  case (1 n)
  show ?case
  proof (cases "n < 16")
    case True
    then show ?thesis by (simp add: hex_number.simps [of n] hex_value_def hex_char_facts)
  next
    case False
    then have "hex_value (hex_number n) = 16 * hex_value (hex_number (n div 16)) + n mod 16"
      by (simp add: hex_number.simps [of n] hex_value_def hex_char_facts)
    then show ?thesis using 1 False by simp
  qed
qed

lemma dechunk_chunk: "dechunk (hex_number (length p) @ crlf @ p @ crlf @ s) = map_option (\<lambda>cs. p # cs) (dechunk s)"
proof -
  let ?d = "hex_number (length p)" and ?t = "hex_number (length p) @ crlf @ p @ crlf @ s"
  have crlf: "crlf = [CHR 0x0D, CHR 0x0A]" by (simp add: crlf_def)
  have "\<not> isxdigit CHR 0x0D" by code_simp
  then have ds: "takeWhile isxdigit ?t = ?d"
    using hex_number_digits [of "length p"] by (intro takeWhile_stop) (simp_all add: crlf)
  have t: "?t \<noteq> []" using hex_number_digits(2) by simp
  show ?thesis
    using hex_number_digits(2) [of "length p"]
    by (subst dechunk.simps) (simp only: t ds Let_def hex_value_number if_False, simp add: crlf)
qed

text \<open>
  Whatever packets are sent (none of them empty), a receiver that reads the chunks behind the header of the
  response gets exactly these packets, in order, and nothing else; the header goes out once, in front.
\<close>

lemma chunked_stream_roundtrip:
  assumes "list_all (\<lambda>p. p \<noteq> []) (p # ps)"
  shows "\<exists>a out. chunked_stream (ChunkedAdapter ct []) (p # ps) = Inr (a, chunked_header (ChunkedAdapter ct []) # out) \<and>
    dechunk (concat out) = Some (p # ps)"
proof -
  have run: "list_all (\<lambda>p. p \<noteq> []) qs \<Longrightarrow> \<not> ca_initial a \<Longrightarrow> ca_frameSeparator a = [] \<Longrightarrow>
      \<exists>out. chunked_stream a qs = Inr (a, out) \<and> dechunk (concat out) = Some qs" for qs a
  proof (induction qs)
    case Nil
    then show ?case by (simp add: dechunk.simps)
  next
    case (Cons q qs)
    then obtain out where "chunked_stream a qs = Inr (a, out)" "dechunk (concat out) = Some qs" by auto
    moreover have "chunked_process a q = Inr (a, [hex_number (length q) @ crlf @ q @ crlf])"
      using Cons.prems by (cases a) (simp add: chunked_process_def Let_def)
    ultimately show ?case by (simp add: dechunk_chunk)
  qed
  let ?a = "(ChunkedAdapter ct [])\<lparr>ca_initial := False\<rparr>"
  obtain out where "chunked_stream ?a ps = Inr (?a, out)" "dechunk (concat out) = Some ps"
    using run [of ps ?a] assms by (auto simp: ChunkedAdapter_def)
  moreover have "p \<noteq> []" using assms by simp
  ultimately show ?thesis
    by (simp add: chunked_process_def Let_def ChunkedAdapter_def dechunk_chunk)
qed

text \<open>
  The default constructor parses the empty text; with a parser that takes it, as the one of the server does, it makes an
  address that is not valid. An address that is made is one the parser accepts, and its parts are those the parser found.
\<close>

lemma empty_URL_invalid: "fst (P []) \<Longrightarrow> \<exists>u. URL_of P [] = Inr u \<and> \<not> url_valid u"
  by (simp add: URL_of_def URL_parse_def url_valid_def trim_def trim_first.simps trim_last.simps Let_def)

lemma URL_of_valid:
  assumes "URL_of P address = Inr u"
  shows "u_buf u = trim address" "fst (P (u_buf u))" "u_parser u = snd (P (u_buf u))"
  using assms by (auto simp: URL_of_def URL_parse_def Let_def split: if_splits)

text \<open>The first frame of a multipart stream is never sent.\<close>

lemma multipart_loses_first_packet: "snd (multipart_process True packet) = [multipart_header]"
  by (simp add: multipart_process_def)

end
