(* ===== verification/Spec2Isabelle.thy ===== *)
theory Spec2Isabelle
  imports Sha1 Text_Encoders Http_Message Random_Gen Collections WebSocket_Protocol H264_Framer Port_Manager SocketIO_Client Udp_Upload Date_Parser
    Rest_Api Camera_Viewers Web_Text
begin

text \<open>
  A verification library for the core of a media server in C++ (directory \<open>src/src\<close> of the repository): the server
  takes the streams of cameras, offers them to browsers over WebRTC and HTTP, keeps the settings of the cameras behind a
  REST interface, talks to a signalling server over socket.io, and uploads recordings. Modelled is what the program
  computes and decides itself; the media are moved by third-party libraries and are left out.

  \<^bold>\<open>The program and how its parts interact.\<close> Everything stands on the library \<open>base\<close>: bytes and byte order, buffers,
  strings, text encodings, digests, random numbers, collections, dates, timers. The library \<open>http\<close> makes messages of
  header collections; its WebSocket connection consists of a framer, which writes and reads frames in the buffers of
  \<open>base\<close> and does the handshake with messages, SHA-1 and Base64, and of the connection that joins reads to frames. The
  socket.io client of \<open>signal\<close> runs over such a connection: it prints and parses packets, keeps sockets per namespace and
  timers for the answers. The REST interface of \<open>broadcast\<close> answers requests through responders: it checks a security
  token, reads and changes the settings and counts who watches which camera. The framer of H.264 reads the parameter
  sets that arrive with the pictures. In \<open>net\<close> a port manager hands out ports, and an upload moves files as rows of UDP
  packets, steered by control packets over TCP.

  \<^bold>\<open>Theories and what they model\<close> (files relative to \<open>src/src\<close>; the operations keep their names in the code).
  \<^item> \<open>Prelude\<close>: words for the integers (\<open>byte\<close>, \<open>u16\<close>, \<open>u32\<close>, \<open>u64\<close>), \<open>'a res\<close> for code that throws or is undefined
    (\<open>Inl\<close> of an \<open>exc\<close>, with \<open>res_bind\<close>), the collections of lemmas, and the locales \<open>codec\<close> (a decoder inverts an
    encoder), \<open>chunked\<close> (feeding pieces is feeding the whole) and \<open>machine\<close> (an invariant that every step keeps).
  \<^item> \<open>Byte_Order\<close>: \<open>base/include/base/byteorder.h\<close> and class \<open>Byte\<close> of \<open>util.h\<close>. \<open>Bit_Buffer\<close>: \<open>BitReader\<close>,
    \<open>BitWriter\<close> and \<open>DynamicBitWriter\<close> of \<open>base/src/buffer.cpp\<close>, as records of the bytes, position and limit.
  \<^item> \<open>String_Util\<close>: \<open>base/src/util.cpp\<close>. \<open>Base64\<close>: \<open>base/include/base/base64.h\<close>, with the sizes of the output arrays.
    \<open>Text_Encoders\<close>: \<open>base/token/Encoders.cpp\<close>, \<open>hex.h\<close>, \<open>uuid.h\<close>. \<open>Random_Gen\<close>: \<open>base/src/random.cpp\<close>.
  \<^item> \<open>Sha1\<close>: \<open>base/src/sha1.cpp\<close>. \<open>Token_Digest\<close>: MD5 and a second SHA-1, \<open>base/token/Digest.cpp\<close>. Both against
    definitions of the standards that share nothing with the code.
  \<^item> \<open>Collections\<close>: the templates of \<open>base/include/base/collection.h\<close>; the owning one with the list of what it freed.
  \<^item> \<open>Event_Timer\<close>: \<open>base/src/Timer.cpp\<close> over a handle that is open, closing or deleted.
  \<^item> \<open>Calendar\<close>, \<open>Floating\<close>: the Gregorian calendar in integers and the rounding of IEEE 754, which the program's dates
    are compared with. \<open>Date_Time\<close>, \<open>Local_Time\<close>, \<open>Date_Parser\<close>: \<open>base/src/datetime.cpp\<close> and \<open>datetime.h\<close>.
  \<^item> \<open>Http_Message\<close>: \<open>http/src/message.cpp\<close>, \<open>request.cpp\<close>, \<open>response.cpp\<close>, \<open>httputil.cpp\<close>. \<open>Web_Text\<close>:
    \<open>http/src/url.cpp\<close> and \<open>packetizers.cpp\<close>.
  \<^item> \<open>WebSocket_Framer\<close>, \<open>WebSocket_Connection\<close>: class \<open>WebSocketFramer\<close> and the connection of
    \<open>http/src/websocket.cpp\<close>, a record of the framer, the store of bytes, the queue and the flags; an operation gives the
    list of what it does outside (writing to the socket, calling the listener), the new state and the exception, if any.
    \<open>WebSocket_Protocol\<close>: its histories, an inductive relation over all callbacks.
  \<^item> \<open>SocketIO_Packet\<close>: \<open>signal/src/packet.cpp\<close>, with JSON values. \<open>SocketIO_Client\<close>: \<open>signal/src/socketioClient.cpp\<close>, a
    record of the client with its sockets, timers, freed objects and handles, under a monad of state and errors.
  \<^item> \<open>Security_Token\<close>: \<open>base/token/SecurityToken.cpp\<close>, \<open>H1_SecurityToken.cpp\<close>, \<open>GenToken.cpp\<close>.
    \<open>Camera_Settings\<close>: \<open>broadcast/src/Settings.cpp\<close>, the cameras with their lock and file. \<open>Rest_Api\<close>: \<open>authcheck\<close> and
    the responders of \<open>broadcast/src/restApi.cpp\<close> and \<open>http/src/HTTPResponder.cpp\<close>. \<open>Camera_Viewers\<close>: the WebSocket side of
    \<open>restApi.cpp\<close> and the queue to the signaler.
  \<^item> \<open>Bit_Vector\<close>, \<open>H264_Framer\<close>: \<open>broadcast/src/BitVector.cpp\<close> and \<open>H264Framer.cpp\<close>.
  \<^item> \<open>Port_Manager\<close>: \<open>net/src/PortManager.cpp\<close>. \<open>Udp_Server\<close>, \<open>Udp_Client\<close>, \<open>Udp_Upload\<close>: \<open>net/awsuploadudp\<close>, the
    server with its storage and timer, the sending thread one access of a member at a time, and the TCP side.

  \<^bold>\<open>What the lemmas show.\<close> Round trips: fields of buffers, frames, packets, tokens, Base64, dates. Equality with a
  standard: the three digests. Refinement: settings, collections and queues refine maps and sequences. Invariants and
  safety over all histories: the WebSocket connection, the viewers, the ports, the uploads, the reader of a buffer, the
  authorisation of requests. Liveness and termination: handshake, upload, \<open>Bind\<close>. Where the code does not do what it
  means to, the model keeps what it does and a theorem states the consequence, for instance \<open>self_made_token_admits\<close>,
  \<open>bad_delete_stops_server\<close>, \<open>server_tokens_never_valid\<close>, \<open>io_timer_never_stopped\<close>, \<open>sps_hrd_count_never_returns\<close>.

  \<^bold>\<open>Interfaces.\<close> Each locale is interpreted on the definitions of the component that provides it: \<open>codec\<close> for the byte
  order (\<open>net16\<close>, \<open>net32\<close>, \<open>net64\<close>), Base64 (\<open>b64\<close>) and the coders of tokens (\<open>token64\<close>); \<open>chunked\<close> for the streaming
  coder and decoder (\<open>enc64\<close>, \<open>dec64\<close>); \<open>machine\<close> for \<open>reader\<close>, \<open>rng\<close> and \<open>pointers\<close>; \<open>header_store\<close> (\<open>nv\<close>) for the headers of
  messages; \<open>block_digest\<close> (\<open>md5\<close>, \<open>sha\<close>); \<open>outbox\<close> (\<open>packets\<close>); \<open>port_allocator\<close> (\<open>ports\<close>); \<open>camera_store\<close> (\<open>settings\<close>).

  \<^bold>\<open>Errors, undefined behaviour, loops.\<close> Exceptions and failed assertions are values, so is undefined behaviour wherever it
  was found (access outside an array, use of a freed object, a shift by the width, a division by zero, a conversion that
  does not fit); memory that is not initialised is an argument. Loops that end are functions with a measure; those that
  need not (\<open>Bind\<close>, the loops over counts from the network) are partial functions with values in an option, where \<open>None\<close>
  is not returning. A lock taken twice by the same thread aborts, by another waits for ever. No definition uses fuel.

  \<^bold>\<open>Bounds.\<close> They are those of the code: digests below 2^29 bytes (\<open>Sha1\<close>) or 2^32 - 128 bytes (\<open>Token_Digest\<close>) per update;
  masked frames below 4 GiB, since the masking loop counts in 32 bits; tokens below 1980 characters, the size of a buffer,
  with an expiry below 2^31; uploads below 16 MB, where the division as a float starts to lose packets; dates from the reform of
  1582 to the year 9999, where the errors of the computation in doubles never show (before it they do:
  \<open>Local_Time.before_the_reform\<close>); parameter sets below the 1000 bytes that are copied.

  \<^bold>\<open>Parameters.\<close> Code outside the repository's own is an argument: what libuv answers, what the HTTP parser delivers,
  printing and parsing of JSON texts (with the round trip that the library documents as a hypothesis), the clock, the
  zone, the random bytes, the byte order of the host, the file system, the objects the upload hands to S3.

  \<^bold>\<open>Not modelled.\<close> Vendored libraries; the media pipeline, WebRTC peers and the camera SDK, which are glue to them; the
  sockets, TLS and HTTP connections, which turn callbacks of libuv into the events the models take; threads, processes,
  logging and files; AWS, Kafka, samples and tests. Where several threads meet, a handler is one step, except in the
  upload, where every access of the sending thread is a step of its own.
\<close>

end
